(* ===== verification/Velocity_Prelude.thy ===== *)
theory Velocity_Prelude
  imports
    Complex_Main
    "HOL-Library.Word"
    "HOL-Library.Char_ord"
    "HOL-Library.List_Lexorder"
    "HOL-Library.Product_Lexorder"
    "HOL-Library.AList"
    "HOL-Library.Multiset"
begin

text \<open>
  The prelude of the development: the names of the machine types, a model of the parts of
  the Rust standard library that the components share (ordered maps, strings, paths,
  decimal rendering), the proof collections, and the generic interface
  \<open>lww_fold\<close> of a fold that keeps the greatest candidate per key, which the vector
  clock, the operation log and the text merge all use.

  A \<open>BTreeMap\<close> is an association list kept strictly sorted by its keys: the list is
  the iteration order of the map.  A \<open>HashMap\<close> is an association list with distinct
  keys whose order stands for the (unspecified) iteration order; theorems about it hold
  for every such list.  A \<open>String\<close> is its list of bytes.
\<close>

named_theorems bt_simps \<open>lookup and well-formedness laws of the ordered maps\<close>
named_theorems model_simps \<open>unfolding of the small helpers of a component\<close>

type_synonym u8 = "8 word"
type_synonym u16 = "16 word"
type_synonym u32 = "32 word"
type_synonym u64 = "64 word"

text \<open>Bumping a counter that is not at its maximum.\<close>

lemma unat_bump: "g \<noteq> - 1 \<Longrightarrow> unat (g + 1) = Suc (unat (g :: u64))"
  using unatSuc [of g] by (simp add: add.commute eq_neg_iff_add_eq_0)

lemma word_less_bump: "g \<noteq> - 1 \<Longrightarrow> g < (g :: u64) + 1"
  by (simp add: word_less_nat_alt unat_bump)

lemma word_le_bump: "c \<le> g + 1 \<Longrightarrow> g \<noteq> - 1 \<Longrightarrow> c = g + 1 \<or> c \<le> (g :: u64)"
  by (auto simp: word_le_nat_alt unat_bump le_Suc_eq word_unat_eq_iff)

text \<open>Saturating arithmetic.\<close>

definition saturating_add :: "u64 \<Rightarrow> u64 \<Rightarrow> u64" where
  "saturating_add a b = (if a + b < a then - 1 else a + b)"

definition saturating_mul :: "u64 \<Rightarrow> u64 \<Rightarrow> u64" where
  "saturating_mul a b = (if unat a * unat b < 2 ^ 64 then a * b else - 1)"

lemma unat_less_2p: "unat (a :: u64) < 2 ^ 64"
  using unsigned_less [of a] by simp

lemma saturating_add_bounds:
  "a \<le> saturating_add a b" "unat (saturating_add a b) \<le> unat a + unat b"
proof -
  have "unat (a + b) = (if unat a + unat b < 2 ^ 64 then unat a + unat b else unat a + unat b - 2 ^ 64)"
    by (simp add: unat_plus_if')
  moreover have "unat a < 2 ^ 64" "unat b < 2 ^ 64" using unat_less_2p [of a] unat_less_2p [of b] by simp_all
  moreover have "unat (- 1 :: u64) = 2 ^ 64 - 1" by (simp add: unsigned_minus_1_eq_mask mask_eq_exp_minus_1)
  ultimately show "a \<le> saturating_add a b" "unat (saturating_add a b) \<le> unat a + unat b"
    by (auto simp: saturating_add_def word_less_nat_alt word_le_nat_alt split: if_splits)
qed

lemma saturating_mul_bound: "unat (saturating_mul a b) \<le> unat a * unat b"
proof (cases "unat a * unat b < 2 ^ 64")
  case False
  then show ?thesis using unat_less_2p [of "- 1"] by (simp add: saturating_mul_def)
qed (simp add: saturating_mul_def unat_word_ariths mod_less_eq_dividend)

section \<open>Mutating the first match\<close>

text \<open>
  \<open>iter_mut().find(p)\<close> followed by a mutation: the first element that satisfies the
  predicate is replaced.
\<close>

fun update_first :: "('a \<Rightarrow> bool) \<Rightarrow> ('a \<Rightarrow> 'a) \<Rightarrow> 'a list \<Rightarrow> 'a list" where
  "update_first P f [] = []"
| "update_first P f (x # xs) = (if P x then f x # xs else x # update_first P f xs)"

lemma length_update_first [simp]: "length (update_first P f xs) = length xs"
  by (induction xs) auto

lemma update_first_none: "List.find P xs = None \<Longrightarrow> update_first P f xs = xs"
  by (induction xs) (auto split: if_splits)

lemma set_update_first:
  assumes "List.find P xs = Some x"
  shows "set (update_first P f xs) \<subseteq> insert (f x) (set xs)" "f x \<in> set (update_first P f xs)"
  using assms by (induction xs) (auto split: if_splits)

lemma set_map_filter: "set (List.map_filter f xs) = {y. \<exists>x\<in>set xs. f x = Some y}"
  by (induction xs) (auto simp: List.map_filter_simps split: option.splits)

lemma find_Some_mem: "List.find P xs = Some x \<Longrightarrow> x \<in> set xs \<and> P x"
  by (induction xs) (auto split: if_splits)

lemma find_update_first:
  "List.find P xs = Some x \<Longrightarrow> P (f x) \<Longrightarrow> List.find P (update_first P f xs) = Some (f x)"
  by (induction xs) (auto split: if_splits)

lemma find_update_first_other:
  "(\<And>x. P x \<Longrightarrow> \<not> Q x \<and> \<not> Q (f x)) \<Longrightarrow> List.find Q (update_first P f xs) = List.find Q xs"
  by (induction xs) auto

text \<open>Where keys are unique, the updated element is the only one with its key.\<close>

lemma update_first_unique:
  "distinct (map key xs) \<Longrightarrow> y \<in> set (update_first (\<lambda>x. key x = k) f xs) \<Longrightarrow> key y = k \<Longrightarrow> \<exists>x\<in>set xs. y = f x"
proof (induction xs)
  case (Cons x xs)
  show ?case
  proof (cases "key x = k")
    case True
    with Cons.prems have "y = f x \<or> y \<in> set xs" by simp
    moreover have "y \<notin> set xs" using Cons.prems(1,3) True by (metis distinct.simps(2) image_eqI image_set list.simps(9))
    ultimately show ?thesis by auto
  next
    case False
    with Cons show ?thesis by auto
  qed
qed simp

lemma map_update_first: "(\<And>x. P x \<Longrightarrow> g (f x) = g x) \<Longrightarrow> map g (update_first P f xs) = map g xs"
  by (induction xs) auto

section \<open>Ordered maps\<close>

fun bt_insert :: "'k::linorder \<Rightarrow> 'v \<Rightarrow> ('k \<times> 'v) list \<Rightarrow> ('k \<times> 'v) list" where
  "bt_insert k v [] = [(k, v)]"
| "bt_insert k v ((k', v') # m) =
     (if k < k' then (k, v) # (k', v') # m
      else if k = k' then (k, v) # m
      else (k', v') # bt_insert k v m)"

definition bt_ok :: "('k::linorder \<times> 'v) list \<Rightarrow> bool" where
  "bt_ok m \<longleftrightarrow> sorted_wrt (<) (map fst m)"

lemma map_of_bt_insert [bt_simps, simp]: "map_of (bt_insert k v m) = (map_of m)(k \<mapsto> v)"
  by (induction m) (auto simp: fun_eq_iff)

lemma keys_bt_insert [bt_simps]: "fst ` set (bt_insert k v m) = insert k (fst ` set m)"
  by (simp flip: dom_map_of_conv_image_fst)

lemma bt_ok_Nil [bt_simps, simp]: "bt_ok []"
  by (simp add: bt_ok_def)

lemma bt_ok_insert [bt_simps, simp]: "bt_ok m \<Longrightarrow> bt_ok (bt_insert k v m)"
proof (induction m)
  case (Cons a m)
  obtain k' v' where a: "a = (k', v')" by force
  from Cons have "bt_ok (bt_insert k v m)" by (simp add: bt_ok_def)
  with Cons.prems a show ?case
    using keys_bt_insert [of k v m] by (auto simp: bt_ok_def)
qed (simp add: bt_ok_def)

lemma bt_ok_distinct [bt_simps]: "bt_ok m \<Longrightarrow> distinct (map fst m)"
  by (auto simp: bt_ok_def strict_sorted_iff)

text \<open>Two ordered maps with the same bindings are the same list.\<close>

lemma bt_ext:
  assumes "bt_ok m" and "bt_ok m'" and "map_of m = map_of m'"
  shows "m = m'"
proof -
  have "set (map fst m) = dom (map_of m)" and "set (map fst m') = dom (map_of m')"
    by (simp_all add: dom_map_of_conv_image_fst)
  with assms(3) have "set (map fst m) = set (map fst m')" by simp
  with assms(1,2) have keys: "map fst m = map fst m'"
    by (metis bt_ok_def strict_sorted_equal)
  have "map snd m = map snd m'"
  proof (rule nth_equalityI)
    show "length (map snd m) = length (map snd m')" using keys by (metis length_map)
    fix i assume i: "i < length (map snd m)"
    then have i': "i < length m'" using keys by (metis length_map)
    from i have "m ! i \<in> set m" and "m' ! i \<in> set m'" using i' by auto
    then have "map_of m (fst (m ! i)) = Some (snd (m ! i))"
      and "map_of m' (fst (m' ! i)) = Some (snd (m' ! i))"
      using assms(1,2) bt_ok_distinct by (metis map_of_eq_Some_iff prod.collapse)+
    moreover have "fst (m ! i) = fst (m' ! i)" using keys i i' by (metis length_map nth_map)
    ultimately show "map snd m ! i = map snd m' ! i" using i i' assms(3) by simp
  qed
  with keys show ?thesis by (metis zip_map_fst_snd)
qed

lemma bt_ok_filter: "bt_ok m \<Longrightarrow> bt_ok (filter P m)"
  unfolding bt_ok_def by (induction m) auto

lemma bt_ok_map_values: "bt_ok m \<Longrightarrow> bt_ok (map (\<lambda>(k, v). (k, f k v)) m)"
  by (simp add: bt_ok_def o_def case_prod_beta)

text \<open>
  \<open>entry(k).or_insert(d)\<close> followed by an update in place, and the grouping loop that a
  sequence of such updates performs.
\<close>

definition bt_entry :: "'k::linorder \<Rightarrow> 'v \<Rightarrow> ('v \<Rightarrow> 'v) \<Rightarrow> ('k \<times> 'v) list \<Rightarrow> ('k \<times> 'v) list" where
  "bt_entry k d f m = bt_insert k (f (case map_of m k of None \<Rightarrow> d | Some v \<Rightarrow> v)) m"

lemma bt_ok_entry [bt_simps, simp]: "bt_ok m \<Longrightarrow> bt_ok (bt_entry k d f m)"
  by (simp add: bt_entry_def)

lemma map_of_group:
  "map_of (fold (\<lambda>x m. case key x of None \<Rightarrow> m | Some k \<Rightarrow> bt_entry k d (push x) m) xs m) k =
     (let ys = filter (\<lambda>x. key x = Some k) xs in
      if ys = [] then map_of m k
      else Some (fold push ys (case map_of m k of None \<Rightarrow> d | Some v \<Rightarrow> v)))"
  by (induction xs arbitrary: m) (auto simp: bt_entry_def Let_def split: option.splits)

lemma bt_ok_group:
  "bt_ok m \<Longrightarrow> bt_ok (fold (\<lambda>x m. case key x of None \<Rightarrow> m | Some k \<Rightarrow> bt_entry k d (push x) m) xs m)"
  by (induction xs arbitrary: m) (auto split: option.splits)

text \<open>The insertion loop that keeps the entries a function accepts.\<close>

lemma map_of_collect:
  "distinct (map fst xs) \<Longrightarrow>
     map_of (fold (\<lambda>(k, v) h. case f v of None \<Rightarrow> h | Some w \<Rightarrow> bt_insert k w h) xs h) k =
       (case map_of xs k of None \<Rightarrow> map_of h k
        | Some v \<Rightarrow> (case f v of None \<Rightarrow> map_of h k | Some w \<Rightarrow> Some w))"
proof (induction xs arbitrary: h)
  case (Cons x xs)
  obtain k' v where x: "x = (k', v)" by force
  with Cons.prems have "map_of xs k' = None" by (auto simp: map_of_eq_None_iff)
  with Cons x show ?case by (auto split: option.splits)
qed simp

lemma bt_ok_collect:
  "bt_ok h \<Longrightarrow> bt_ok (fold (\<lambda>(k, v) h. case f v of None \<Rightarrow> h | Some w \<Rightarrow> bt_insert k w h) xs h)"
  by (induction xs arbitrary: h) (auto split: option.splits)

text \<open>A \<open>BTreeSet\<close> collected from a sequence.\<close>

definition bset_of :: "'k::linorder list \<Rightarrow> 'k list" where
  "bset_of xs = sort (remdups xs)"

lemma bset_of_unique: "sorted_wrt (<) ys \<Longrightarrow> set xs = set ys \<Longrightarrow> bset_of xs = ys"
  by (metis bset_of_def distinct_remdups distinct_sort set_remdups set_sort sorted_distinct_set_unique
      sorted_sort strict_sorted_iff)

text \<open>The interface of an ordered map, and the sorted association lists as its provider.\<close>

locale ordered_map =
  fixes emp :: "'m"
    and put :: "'k \<Rightarrow> 'v \<Rightarrow> 'm \<Rightarrow> 'm"
    and lookup :: "'m \<Rightarrow> 'k \<Rightarrow> 'v option"
    and ok :: "'m \<Rightarrow> bool"
  assumes lookup_emp: "lookup emp = Map.empty"
    and lookup_put: "lookup (put k v m) = (lookup m)(k \<mapsto> v)"
    and ok_emp: "ok emp"
    and ok_put: "ok m \<Longrightarrow> ok (put k v m)"
    and ext: "ok m \<Longrightarrow> ok m' \<Longrightarrow> lookup m = lookup m' \<Longrightarrow> m = m'"
begin

lemma put_put_commute: "ok m \<Longrightarrow> k \<noteq> k' \<Longrightarrow> put k v (put k' v' m) = put k' v' (put k v m)"
  by (rule ext) (auto simp: lookup_put ok_put fun_upd_twist)

lemma put_put_same: "ok m \<Longrightarrow> put k v (put k v' m) = put k v m"
  by (rule ext) (auto simp: lookup_put ok_put)

lemma ok_fold_put: "ok m \<Longrightarrow> ok (fold (\<lambda>x. put (f x) (g x)) xs m)"
  by (induction xs arbitrary: m) (auto simp: ok_put)

end

interpretation btree: ordered_map "[]" bt_insert map_of bt_ok
  by unfold_locales (auto intro: bt_ext)

section \<open>Folds that keep the greatest candidate per key\<close>

text \<open>
  The interface of a last-write-wins fold.  Events carry a key and a candidate value; a step
  replaces the incumbent of the key unless the incumbent ranks at least as high.  The result
  of the fold is a function of the set of events alone as soon as equal ranks on one key mean
  equal values.
\<close>

locale lww_fold =
  fixes step :: "'e \<Rightarrow> 'm \<Rightarrow> 'm"
    and look :: "'m \<Rightarrow> 'k \<Rightarrow> 'v option"
    and key :: "'e \<Rightarrow> 'k"
    and cand :: "'e \<Rightarrow> 'v"
    and rank :: "'v \<Rightarrow> 'r::linorder"
  assumes look_step: "look (step e m) k =
    (if k = key e then
       (case look m k of None \<Rightarrow> Some (cand e)
        | Some b \<Rightarrow> if rank (cand e) \<le> rank b then Some b else Some (cand e))
     else look m k)"
begin

lemma look_fold_mono:
  "look m k = Some b \<Longrightarrow> \<exists>b'. look (fold step es m) k = Some b' \<and> rank b \<le> rank b'"
proof (induction es arbitrary: m b)
  case (Cons e es)
  have "\<exists>b1. look (step e m) k = Some b1 \<and> rank b \<le> rank b1"
    using Cons.prems by (auto simp: look_step)
  then obtain b1 where "look (step e m) k = Some b1" and "rank b \<le> rank b1" by blast
  with Cons.IH [of "step e m" b1] show ?case by force
qed simp

lemma look_fold_None:
  "look (fold step es m) k = None \<longleftrightarrow> look m k = None \<and> (\<forall>e\<in>set es. key e \<noteq> k)"
proof (induction es arbitrary: m)
  case (Cons e es)
  show ?case by (auto simp: Cons.IH look_step split: option.splits)
qed simp

lemma look_fold_greatest:
  "look (fold step es m) k = Some v \<Longrightarrow> e \<in> set es \<Longrightarrow> key e = k \<Longrightarrow> rank (cand e) \<le> rank v"
proof (induction es arbitrary: m)
  case (Cons x es)
  show ?case
  proof (cases "e = x")
    case True
    have "\<exists>b. look (step x m) k = Some b \<and> rank (cand x) \<le> rank b"
      using True Cons.prems(3) by (auto simp: look_step split: option.split)
    then obtain b where b: "look (step x m) k = Some b" "rank (cand x) \<le> rank b" by blast
    from look_fold_mono [OF b(1), of es] b(2) True Cons.prems(1) show ?thesis by force
  next
    case False
    with Cons show ?thesis by auto
  qed
qed simp

lemma look_fold_origin:
  "look (fold step es m) k = Some v \<Longrightarrow>
     look m k = Some v \<or> (\<exists>e\<in>set es. key e = k \<and> cand e = v)"
proof (induction es arbitrary: m)
  case (Cons x es)
  from Cons.prems have "look (fold step es (step x m)) k = Some v" by simp
  from Cons.IH [OF this] show ?case
    by (auto simp: look_step split: if_splits option.splits)
qed simp

lemma look_fold_char:
  assumes "look m k = None"
    and inj: "\<And>e e'. e \<in> set es \<Longrightarrow> e' \<in> set es \<Longrightarrow> key e = k \<Longrightarrow> key e' = k \<Longrightarrow>
      rank (cand e) = rank (cand e') \<Longrightarrow> cand e = cand e'"
  shows "look (fold step es m) k = Some v \<longleftrightarrow>
    (\<exists>e\<in>set es. key e = k \<and> cand e = v \<and> (\<forall>e'\<in>set es. key e' = k \<longrightarrow> rank (cand e') \<le> rank v))"
    (is "?L \<longleftrightarrow> ?R")
proof
  assume ?L
  then show ?R using look_fold_origin [OF \<open>?L\<close>] look_fold_greatest [OF \<open>?L\<close>] assms(1) by auto
next
  assume ?R
  then obtain e where e: "e \<in> set es" "key e = k" "cand e = v"
    and top: "\<And>e'. e' \<in> set es \<Longrightarrow> key e' = k \<Longrightarrow> rank (cand e') \<le> rank v" by blast
  then obtain w where w: "look (fold step es m) k = Some w"
    using look_fold_None [of es m k] by blast
  then obtain e' where e': "e' \<in> set es" "key e' = k" "cand e' = w"
    using look_fold_origin [OF w] assms(1) by auto
  have "rank v \<le> rank w" using look_fold_greatest [OF w e(1,2)] e(3) by simp
  moreover have "rank w \<le> rank v" using top [OF e'(1,2)] e'(3) by simp
  ultimately have "v = w" using inj [OF e(1) e'(1) e(2) e'(2)] e(3) e'(3) by simp
  with w show ?L by simp
qed

text \<open>Order and multiplicity of the events do not matter.\<close>

lemma fold_set_cong:
  assumes "\<And>k. look m k = None" and "\<And>k. look m' k = None"
    and "set es = set es'"
    and inj: "\<And>e e'. e \<in> set es \<Longrightarrow> e' \<in> set es \<Longrightarrow> key e = key e' \<Longrightarrow>
      rank (cand e) = rank (cand e') \<Longrightarrow> cand e = cand e'"
  shows "look (fold step es m) = look (fold step es' m')"
proof
  fix k
  have "look (fold step es m) k = Some v \<longleftrightarrow> look (fold step es' m') k = Some v" for v
    using look_fold_char [OF assms(1), of es k v] look_fold_char [OF assms(2), of es' k v]
      assms(3) inj by auto
  then show "look (fold step es m) k = look (fold step es' m') k"
    by (metis not_None_eq)
qed

end

section \<open>Joins that tolerate reordering and duplication\<close>

text \<open>
  The interface of a join on the well-formed states of a replicated summary.  Folding it over
  a list of received summaries depends on the set of them only.
\<close>

locale gossip_join =
  fixes join :: "'a \<Rightarrow> 'a \<Rightarrow> 'a"
    and ok :: "'a \<Rightarrow> bool"
  assumes ok_join: "ok a \<Longrightarrow> ok b \<Longrightarrow> ok (join a b)"
    and join_comm: "ok a \<Longrightarrow> ok b \<Longrightarrow> join a b = join b a"
    and join_assoc: "ok a \<Longrightarrow> ok b \<Longrightarrow> ok c \<Longrightarrow> join (join a b) c = join a (join b c)"
    and join_idem: "ok a \<Longrightarrow> join a a = a"
begin

lemma join_right_swap:
  "ok a \<Longrightarrow> ok b \<Longrightarrow> ok c \<Longrightarrow> join (join a b) c = join (join a c) b"
  by (metis join_assoc join_comm)

lemma ok_foldl: "ok a \<Longrightarrow> \<forall>x\<in>set xs. ok x \<Longrightarrow> ok (foldl join a xs)"
  by (induction xs arbitrary: a) (auto simp: ok_join)

lemma foldl_swap:
  "ok a \<Longrightarrow> ok x \<Longrightarrow> \<forall>y\<in>set xs. ok y \<Longrightarrow> foldl join (join a x) xs = join (foldl join a xs) x"
  by (induction xs arbitrary: a) (auto simp: ok_join join_right_swap)

lemma foldl_absorb:
  "ok a \<Longrightarrow> \<forall>y\<in>set xs. ok y \<Longrightarrow> x \<in> set xs \<Longrightarrow> join (foldl join a xs) x = foldl join a xs"
proof (induction xs arbitrary: a)
  case (Cons y ys)
  show ?case
  proof (cases "x = y")
    case True
    with Cons.prems show ?thesis
      using foldl_swap [of a y ys] ok_foldl [of a ys] by (simp add: join_assoc join_idem)
  next
    case False
    with Cons show ?thesis by (simp add: ok_join)
  qed
qed simp

lemma foldl_absorb_all:
  "ok a \<Longrightarrow> \<forall>y\<in>set xs. ok y \<Longrightarrow> set ys \<subseteq> set xs \<Longrightarrow>
     foldl join (foldl join a xs) ys = foldl join a xs"
  by (induction ys) (auto simp: foldl_absorb)

lemma foldl_append_comm:
  "ok a \<Longrightarrow> \<forall>y\<in>set xs. ok y \<Longrightarrow> \<forall>y\<in>set ys. ok y \<Longrightarrow>
     foldl join (foldl join a xs) ys = foldl join (foldl join a ys) xs"
proof (induction ys arbitrary: a)
  case (Cons y ys)
  have "foldl join (foldl join a xs) (y # ys) = foldl join (foldl join (join a y) xs) ys"
    using Cons.prems foldl_swap [of a y xs] by simp
  also have "\<dots> = foldl join (foldl join (join a y) ys) xs"
    using Cons.prems by (intro Cons.IH) (auto simp: ok_join)
  finally show ?case by simp
qed simp

lemma foldl_set_cong:
  assumes "ok a" and "\<forall>x\<in>set xs. ok x" and "set xs = set ys"
  shows "foldl join a xs = foldl join a ys"
proof -
  have "foldl join a xs = foldl join (foldl join a xs) ys"
    using assms by (simp add: foldl_absorb_all)
  also have "\<dots> = foldl join (foldl join a ys) xs"
    using assms by (intro foldl_append_comm) auto
  also have "\<dots> = foldl join a ys"
    using assms by (simp add: foldl_absorb_all)
  finally show ?thesis .
qed

end

end
