(* ===== verification/Rust_Std.thy ===== *)
theory Rust_Std
  imports Velocity_Prelude
begin

text \<open>
  The operations of the Rust standard library on \<open>str\<close> and \<open>Path\<close> that the
  modelled code calls.  A string is its list of bytes; case folding and white space are those
  of ASCII text.  Paths follow the Unix rules of \<open>std::path\<close>: a path is its raw text,
  and comparisons of \<open>PathBuf\<close> values (equality, hashing, ordering) go through
  \<open>components\<close>.
\<close>

section \<open>Strings\<close>

definition starts_with :: "string \<Rightarrow> string \<Rightarrow> bool" where
  "starts_with s p \<longleftrightarrow> take (length p) s = p"

definition ends_with :: "string \<Rightarrow> string \<Rightarrow> bool" where
  "ends_with s p \<longleftrightarrow> starts_with (rev s) (rev p)"

definition strip_prefix :: "string \<Rightarrow> string \<Rightarrow> string option" where
  "strip_prefix s p = (if starts_with s p then Some (drop (length p) s) else None)"

definition strip_suffix :: "string \<Rightarrow> string \<Rightarrow> string option" where
  "strip_suffix s p = (if ends_with s p then Some (take (length s - length p) s) else None)"

definition replace_char :: "char \<Rightarrow> char \<Rightarrow> string \<Rightarrow> string" where
  "replace_char a b s = map (\<lambda>c. if c = a then b else c) s"

definition trim_matches :: "(char \<Rightarrow> bool) \<Rightarrow> string \<Rightarrow> string" where
  "trim_matches P s = rev (dropWhile P (rev (dropWhile P s)))"

definition is_whitespace :: "char \<Rightarrow> bool" where
  "is_whitespace c \<longleftrightarrow> (let n = (of_char c :: nat) in n = 32 \<or> 9 \<le> n \<and> n \<le> 13)"

definition trim :: "string \<Rightarrow> string" where
  "trim s = trim_matches is_whitespace s"

definition to_lower :: "char \<Rightarrow> char" where
  "to_lower c = (let n = (of_char c :: nat) in
     if 65 \<le> n \<and> n \<le> 90 then char_of (n + 32) else c)"

definition to_lowercase :: "string \<Rightarrow> string" where
  "to_lowercase s = map to_lower s"

definition eq_ignore_ascii_case :: "string \<Rightarrow> string \<Rightarrow> bool" where
  "eq_ignore_ascii_case a b \<longleftrightarrow> to_lowercase a = to_lowercase b"

fun split_on :: "char \<Rightarrow> string \<Rightarrow> string list" where
  "split_on c [] = [[]]"
| "split_on c (x # xs) =
     (if x = c then [] # split_on c xs
      else (case split_on c xs of [] \<Rightarrow> [[x]] | w # ws \<Rightarrow> (x # w) # ws))"

fun str_contains :: "string \<Rightarrow> string \<Rightarrow> bool" where
  "str_contains needle [] \<longleftrightarrow> needle = []"
| "str_contains needle (c # cs) \<longleftrightarrow> starts_with (c # cs) needle \<or> str_contains needle cs"

fun join :: "string \<Rightarrow> string list \<Rightarrow> string" where
  "join sep [] = []"
| "join sep [w] = w"
| "join sep (w # v # ws) = w @ sep @ join sep (v # ws)"

text \<open>Decimal rendering of an unsigned integer, and the 16 hexadecimal digits of a \<open>u64\<close>.\<close>

definition digit_char :: "nat \<Rightarrow> char" where
  "digit_char d = char_of (if d < 10 then 48 + d else 87 + d)"

fun show_nat :: "nat \<Rightarrow> string" where
  "show_nat n = (if n < 10 then [digit_char n] else show_nat (n div 10) @ [digit_char (n mod 10)])"

declare show_nat.simps [simp del]

definition show_u64 :: "u64 \<Rightarrow> string" where
  "show_u64 w = show_nat (unat w)"

definition hex16 :: "u64 \<Rightarrow> string" where
  "hex16 w = map (\<lambda>i. digit_char (unat w div 16 ^ (15 - i) mod 16)) [0..<16]"

text \<open>Lower-case hexadecimal without padding (\<open>{:x}\<close>), and a quoted argument of a message.\<close>

fun show_hex :: "nat \<Rightarrow> string" where
  "show_hex n = (if n < 16 then [digit_char n] else show_hex (n div 16) @ [digit_char (n mod 16)])"

declare show_hex.simps [simp del]

definition quoted :: "string \<Rightarrow> string" where
  "quoted s = CHR 0x27 # s @ [CHR 0x27]"

definition em_dash :: string where
  "em_dash = [CHR 0xE2, CHR 0x80, CHR 0x94]"

lemma split_on_nonempty [simp]: "split_on c s \<noteq> []"
  by (cases s) (auto split: list.splits)

lemma starts_with_append: "starts_with s p \<longleftrightarrow> (\<exists>t. s = p @ t)"
  by (metis append_eq_conv_conj append_take_drop_id starts_with_def)

lemma length_trim: "length (trim s) \<le> length s"
  by (simp add: trim_def trim_matches_def)
    (metis length_dropWhile_le length_rev order_trans)

lemma starts_with_refl [simp]: "starts_with s s"
  by (simp add: starts_with_def)

lemma starts_with_trans: "starts_with a b \<Longrightarrow> starts_with b c \<Longrightarrow> starts_with a c"
  by (auto simp: starts_with_append)

lemma join_split_on: "join [c] (split_on c s) = s"
proof (induction s)
  case (Cons x s)
  obtain w ws where "split_on c s = w # ws" by (cases "split_on c s") auto
  with Cons show ?case by (cases ws) auto
qed simp

lemma split_on_no_sep: "w \<in> set (split_on c s) \<Longrightarrow> c \<notin> set w"
proof (induction s arbitrary: w)
  case (Cons x s)
  obtain v ws where sp: "split_on c s = v # ws" by (cases "split_on c s") auto
  show ?case
  proof (cases "x = c")
    case True
    with Cons show ?thesis by auto
  next
    case False
    with Cons.prems sp have "w = x # v \<or> w \<in> set ws" by simp
    with Cons.IH [of v] Cons.IH [of w] sp False show ?thesis by auto
  qed
qed simp

lemma split_on_no_occ: "c \<notin> set s \<Longrightarrow> split_on c s = [s]"
  by (induction s) auto

lemma split_on_append_sep: "c \<notin> set a \<Longrightarrow> split_on c (a @ c # b) = a # split_on c b"
  by (induction a) auto

text \<open>
  \<open>split_once\<close>, \<open>rsplit_once\<close>, \<open>split_once\<close> of a string pattern, \<open>split_whitespace\<close>, and the
  parser of a \<open>u32\<close>, which accepts a leading plus sign and leading zeros.
\<close>

definition split_once :: "char \<Rightarrow> string \<Rightarrow> (string \<times> string) option" where
  "split_once c s = (if c \<in> set s then Some (takeWhile (\<lambda>x. x \<noteq> c) s, tl (dropWhile (\<lambda>x. x \<noteq> c) s)) else None)"

definition rsplit_once :: "char \<Rightarrow> string \<Rightarrow> (string \<times> string) option" where
  "rsplit_once c s = map_option (\<lambda>(a, b). (rev b, rev a)) (split_once c (rev s))"

fun split_once_str :: "string \<Rightarrow> string \<Rightarrow> (string \<times> string) option" where
  "split_once_str p [] = (if p = [] then Some ([], []) else None)"
| "split_once_str p (c # cs) =
     (if starts_with (c # cs) p then Some ([], drop (length p) (c # cs))
      else map_option (\<lambda>(a, b). (c # a, b)) (split_once_str p cs))"

definition after_last :: "char \<Rightarrow> string \<Rightarrow> string" where
  "after_last c s = (case rsplit_once c s of Some (_, b) \<Rightarrow> b | None \<Rightarrow> s)"

text \<open>The maximal runs of characters that satisfy a predicate.\<close>

function runs :: "(char \<Rightarrow> bool) \<Rightarrow> string \<Rightarrow> string list" where
  "runs P [] = []"
| "runs P (c # cs) = (if P c then takeWhile P (c # cs) # runs P (dropWhile P cs) else runs P cs)"
  by pat_completeness auto
termination
  by (relation "measure (\<lambda>(_, s). length s)") (auto simp: le_imp_less_Suc length_dropWhile_le)

definition split_whitespace :: "string \<Rightarrow> string list" where
  "split_whitespace s = runs (\<lambda>c. \<not> is_whitespace c) s"

definition is_digit :: "char \<Rightarrow> bool" where
  "is_digit c \<longleftrightarrow> (let n = (of_char c :: nat) in 48 \<le> n \<and> n \<le> 57)"

definition digits_value :: "string \<Rightarrow> nat" where
  "digits_value s = foldl (\<lambda>v c. 10 * v + (of_char c - 48)) 0 s"

definition parse_u32 :: "string \<Rightarrow> u32 option" where
  "parse_u32 s = (let d = (case strip_prefix s ''+'' of Some r \<Rightarrow> r | None \<Rightarrow> s) in
     if d \<noteq> [] \<and> list_all is_digit d \<and> digits_value d < 2 ^ 32 then Some (of_nat (digits_value d)) else None)"

definition parse_u64 :: "string \<Rightarrow> u64 option" where
  "parse_u64 s = (let d = (case strip_prefix s ''+'' of Some r \<Rightarrow> r | None \<Rightarrow> s) in
     if d \<noteq> [] \<and> list_all is_digit d \<and> digits_value d < 2 ^ 64 then Some (of_nat (digits_value d)) else None)"

fun find_map :: "('a \<Rightarrow> 'b option) \<Rightarrow> 'a list \<Rightarrow> 'b option" where
  "find_map f [] = None"
| "find_map f (x # xs) = (case f x of Some y \<Rightarrow> Some y | None \<Rightarrow> find_map f xs)"

lemma find_map_None: "find_map f xs = None \<longleftrightarrow> (\<forall>x\<in>set xs. f x = None)"
  by (induction xs) (auto split: option.splits)

lemma find_map_Some: "find_map f xs = Some y \<Longrightarrow> \<exists>x\<in>set xs. f x = Some y"
  by (induction xs) (auto split: option.splits)

lemma length_split_once_str: "split_once_str p s = Some (a, b) \<Longrightarrow> length a + length p + length b = length s"
  by (induction s arbitrary: a) (auto simp: starts_with_append split: if_splits dest: arg_cong [where f = length])

text \<open>A run that other characters delimit is found.\<close>

lemma runs_found:
  assumes "w \<noteq> []" "list_all P w" "a = [] \<or> \<not> P (last a)" "b = [] \<or> \<not> P (hd b)"
  shows "w \<in> set (runs P (a @ w @ b))"
  using assms(3)
proof (induction "length a" arbitrary: a rule: less_induct)
  case less
  show ?case
  proof (cases a)
    case Nil
    have "takeWhile P (w @ b) = w" using assms by (cases b) (auto simp: takeWhile_append list_all_iff)
    with assms(1,2) Nil show ?thesis by (cases w) (auto simp: list_all_iff)
  next
    case (Cons c cs)
    show ?thesis
    proof (cases "P c")
      case True
      let ?cs = "dropWhile P cs"
      have "\<not> P (last a)" using less.prems Cons by simp
      then have ne: "\<exists>x\<in>set cs. \<not> P x" using Cons True by (metis last.simps last_in_set)
      then have drop: "dropWhile P (cs @ w @ b) = ?cs @ w @ b" by (metis dropWhile_append1)
      have "?cs \<noteq> []" using ne by (metis dropWhile_eq_Nil_conv)
      moreover have "last ?cs = last a"
        using last_appendR [OF \<open>?cs \<noteq> []\<close>, of "takeWhile P cs"] ne Cons by (cases "cs = []") auto
      ultimately have "w \<in> set (runs P (?cs @ w @ b))"
        using less.hyps [of ?cs] \<open>\<not> P (last a)\<close> Cons length_dropWhile_le [of P cs] by simp
      with Cons True drop show ?thesis by simp
    next
      case False
      with less.hyps [of cs] less.prems Cons show ?thesis by (cases "cs = []") auto
    qed
  qed
qed

text \<open>Decimal rendering read back.\<close>

lemma of_char_digit [simp]: "d < 10 \<Longrightarrow> (of_char (digit_char d) :: nat) = 48 + d"
  by (simp add: digit_char_def)

lemma is_digit_char [simp]: "d < 10 \<Longrightarrow> is_digit (digit_char d)"
  by (simp add: is_digit_def)

lemma digits_value_snoc: "digits_value (s @ [c]) = 10 * digits_value s + (of_char c - 48)"
  by (simp add: digits_value_def)

lemma show_nat_digits [simp]: "list_all is_digit (show_nat n)" "show_nat n \<noteq> []"
  by (induction n rule: show_nat.induct; subst show_nat.simps; auto)+

lemma show_nat_value [simp]: "digits_value (show_nat n) = n"
proof (induction n rule: show_nat.induct)
  case (1 n)
  then show ?case
    by (subst show_nat.simps) (auto simp: digits_value_snoc, simp add: digits_value_def)
qed

lemma show_nat_length: "n < 10 ^ k \<Longrightarrow> 0 < k \<Longrightarrow> length (show_nat n) \<le> k"
proof (induction n arbitrary: k rule: show_nat.induct)
  case (1 n)
  show ?case
  proof (cases "n < 10")
    case False
    obtain j where k: "k = Suc j" using 1(3) by (cases k) auto
    with False 1(2) have j: "k = Suc j" "0 < j" by (cases j; simp)+
    then have "n div 10 < 10 ^ j" using 1(2) by (simp add: less_mult_imp_div_less mult.commute)
    from 1(1) [OF False this j(2)] j(1) False show ?thesis by (subst show_nat.simps) simp
  qed (use 1(3) in \<open>subst show_nat.simps; simp\<close>)
qed

lemma show_nat_head: "hd (show_nat n) = CHR ''0'' \<Longrightarrow> show_nat n = ''0''"
proof (induction n rule: show_nat.induct)
  case (1 n)
  show ?case
  proof (cases "n < 10")
    case True
    then have "show_nat n = [digit_char n]" by (subst show_nat.simps) simp
    with 1(2) show ?thesis by simp
  next
    case False
    then have s: "show_nat n = show_nat (n div 10) @ [digit_char (n mod 10)]" by (subst show_nat.simps) simp
    with 1(2) have "show_nat (n div 10) = ''0''" by (intro 1(1) [OF False]) simp
    then have "n div 10 = 0" using show_nat_value [of "n div 10"] by (simp add: digits_value_def)
    with False show ?thesis by simp
  qed
qed

section \<open>Floating point\<close>

text \<open>
  Values of \<open>f32\<close> and \<open>f64\<close>: not-a-number, the infinities and the finite numbers as
  rationals.  Comparisons are those of IEEE 754: every comparison with not-a-number is false.
  The modelled code compares and copies amounts and does no arithmetic on them, unless its
  theory says so.
\<close>

datatype fp = NaN | NInf | PInf | Fin rat

fun fp_less :: "fp \<Rightarrow> fp \<Rightarrow> bool" where
  "fp_less (Fin x) (Fin y) \<longleftrightarrow> x < y"
| "fp_less NInf (Fin _) \<longleftrightarrow> True"
| "fp_less NInf PInf \<longleftrightarrow> True"
| "fp_less (Fin _) PInf \<longleftrightarrow> True"
| "fp_less _ _ \<longleftrightarrow> False"

definition fp_le :: "fp \<Rightarrow> fp \<Rightarrow> bool" where
  "fp_le x y \<longleftrightarrow> fp_less x y \<or> x = y \<and> x \<noteq> NaN"

definition fp_clamp :: "fp \<Rightarrow> fp \<Rightarrow> fp \<Rightarrow> fp" where
  "fp_clamp lo hi x = (if fp_less x lo then lo else if fp_less hi x then hi else x)"

lemma fp_clamp_range: "x \<noteq> NaN \<Longrightarrow> fp_le (Fin a) (Fin b) \<Longrightarrow>
    fp_le (Fin a) (fp_clamp (Fin a) (Fin b) x) \<and> fp_le (fp_clamp (Fin a) (Fin b) x) (Fin b)"
  by (cases x) (auto simp: fp_clamp_def fp_le_def)

section \<open>Paths\<close>

type_synonym PathBuf = string

datatype component = RootDir | CurDir | ParentDir | Normal string

text \<open>The derived order of \<open>Component\<close>: by constructor, then by the name.\<close>

fun comp_key :: "component \<Rightarrow> nat \<times> string" where
  "comp_key RootDir = (0, [])"
| "comp_key CurDir = (1, [])"
| "comp_key ParentDir = (2, [])"
| "comp_key (Normal s) = (3, s)"

lemma comp_key_inj: "comp_key a = comp_key b \<longleftrightarrow> a = b"
  by (cases a; cases b) auto

instantiation component :: linorder
begin

definition less_eq_component :: "component \<Rightarrow> component \<Rightarrow> bool" where
  "less_eq_component a b \<longleftrightarrow> comp_key a \<le> comp_key b"

definition less_component :: "component \<Rightarrow> component \<Rightarrow> bool" where
  "less_component a b \<longleftrightarrow> comp_key a < comp_key b"

instance
proof
  fix x y z :: component
  show "x < y \<longleftrightarrow> x \<le> y \<and> \<not> y \<le> x"
    unfolding less_component_def less_eq_component_def by (rule less_le_not_le)
  show "x \<le> x" by (simp add: less_eq_component_def)
  show "x \<le> y \<Longrightarrow> y \<le> z \<Longrightarrow> x \<le> z"
    unfolding less_eq_component_def by (rule order_trans)
  show "x \<le> y \<Longrightarrow> y \<le> x \<Longrightarrow> x = y"
    unfolding less_eq_component_def by (metis comp_key_inj order_antisym)
  show "x \<le> y \<or> y \<le> x" unfolding less_eq_component_def by (rule linear)
qed

end

text \<open>
  \<open>Path::components\<close> on Unix: a leading separator is the root, repeated separators
  and \<open>.\<close> segments disappear, except a \<open>.\<close> that begins a relative path.
\<close>

definition segment_component :: "string \<Rightarrow> component list" where
  "segment_component w =
     (if w = [] \<or> w = ''.'' then [] else if w = ''..'' then [ParentDir] else [Normal w])"

definition components :: "PathBuf \<Rightarrow> component list" where
  "components p =
     (let segs = split_on (CHR ''/'') p in
      (if starts_with p ''/'' then [RootDir] else if hd segs = ''.'' then [CurDir] else [])
      @ concat (map segment_component segs))"

text \<open>\<open>Path::file_name\<close> and \<open>Path::extension\<close>.\<close>

definition file_name :: "PathBuf \<Rightarrow> string option" where
  "file_name p = (case rev (components p) of Normal w # _ \<Rightarrow> Some w | _ \<Rightarrow> None)"

definition extension :: "PathBuf \<Rightarrow> string option" where
  "extension p = (case file_name p of None \<Rightarrow> None
     | Some w \<Rightarrow> (case rev (split_on (CHR ''.'') w) of
           e # b # bs \<Rightarrow> if join ''.'' (rev (b # bs)) = [] then None else Some e
         | _ \<Rightarrow> None))"

text \<open>\<open>Path::join\<close> and \<open>Path::strip_prefix\<close>; the latter gives the components left.\<close>

definition path_join :: "PathBuf \<Rightarrow> PathBuf \<Rightarrow> PathBuf" where
  "path_join base p =
     (if starts_with p ''/'' then p else if base = [] \<or> ends_with base ''/'' then base @ p
      else base @ ''/'' @ p)"

definition path_strip_prefix :: "PathBuf \<Rightarrow> PathBuf \<Rightarrow> component list option" where
  "path_strip_prefix p base =
     (let c = components p; b = components base in
      if take (length b) c = b then Some (drop (length b) c) else None)"

end
