(* ===== verification/Principal.thy ===== *)
theory Principal
  imports Rust_Std
begin

text \<open>
  Causal identity (\<open>velocity-mcp/src/automation/principal.rs\<close>): who acted
  (\<open>Principal\<close>), the name of an operation (\<open>OpId\<close>, totally ordered by node and
  then counter), and the vector clock with its join, its comparison and the counter a node
  stamps its next operation with.  Counters are 64-bit and wrap, as in a release build.
\<close>

section \<open>Identities\<close>

type_synonym NodeId = string

definition node_local :: NodeId where
  "node_local = ''local''"

datatype PrincipalKind = Agent | Human | Service

fun kind_label :: "PrincipalKind \<Rightarrow> string" where
  "kind_label Agent = ''agent''"
| "kind_label Human = ''human''"
| "kind_label Service = ''service''"

record Principal =
  pr_kind :: PrincipalKind
  pr_node_id :: NodeId
  pr_team_id :: "string option"
  pr_role_id :: "string option"
  pr_task_id :: "u64 option"
  pr_user_id :: "string option"
  pr_display :: string

definition principal_agent ::
  "NodeId \<Rightarrow> u64 \<Rightarrow> string option \<Rightarrow> string option \<Rightarrow> Principal" where
  "principal_agent node task role team =
     \<lparr>pr_kind = Agent, pr_node_id = node, pr_team_id = team, pr_role_id = role,
      pr_task_id = Some task, pr_user_id = None, pr_display = ''task-'' @ show_u64 task\<rparr>"

definition principal_human :: "NodeId \<Rightarrow> string \<Rightarrow> string option \<Rightarrow> Principal" where
  "principal_human node user role =
     \<lparr>pr_kind = Human, pr_node_id = node, pr_team_id = None, pr_role_id = role,
      pr_task_id = None, pr_user_id = Some user, pr_display = user\<rparr>"

definition principal_service :: "NodeId \<Rightarrow> Principal" where
  "principal_service node =
     \<lparr>pr_kind = Service, pr_node_id = node, pr_team_id = None, pr_role_id = None,
      pr_task_id = None, pr_user_id = None, pr_display = ''service''\<rparr>"

definition principal_default :: Principal where
  "principal_default =
     \<lparr>pr_kind = Service, pr_node_id = node_local, pr_team_id = None, pr_role_id = None,
      pr_task_id = None, pr_user_id = None, pr_display = ''service''\<rparr>"

definition is_agent :: "Principal \<Rightarrow> bool" where
  "is_agent p \<longleftrightarrow> pr_kind p = Agent"

definition is_human :: "Principal \<Rightarrow> bool" where
  "is_human p \<longleftrightarrow> pr_kind p = Human"

definition principal_fmt :: "Principal \<Rightarrow> string" where
  "principal_fmt p = kind_label (pr_kind p) @ '':'' @ pr_display p @ ''@'' @ pr_node_id p"

section \<open>Operation identity\<close>

datatype OpId = OpId (oi_node: NodeId) (oi_counter: u64)

definition op_id_fmt :: "OpId \<Rightarrow> string" where
  "op_id_fmt i = oi_node i @ ''#'' @ show_u64 (oi_counter i)"

text \<open>The derived order: by node, then by counter.\<close>

instantiation OpId :: linorder
begin

definition less_eq_OpId :: "OpId \<Rightarrow> OpId \<Rightarrow> bool" where
  "less_eq_OpId a b \<longleftrightarrow>
     oi_node a < oi_node b \<or> oi_node a = oi_node b \<and> oi_counter a \<le> oi_counter b"

definition less_OpId :: "OpId \<Rightarrow> OpId \<Rightarrow> bool" where
  "less_OpId a b \<longleftrightarrow>
     oi_node a < oi_node b \<or> oi_node a = oi_node b \<and> oi_counter a < oi_counter b"

instance
proof
  fix x y z :: OpId
  show "x < y \<longleftrightarrow> x \<le> y \<and> \<not> y \<le> x"
    by (auto simp: less_OpId_def less_eq_OpId_def)
  show "x \<le> x" by (simp add: less_eq_OpId_def)
  show "x \<le> y \<Longrightarrow> y \<le> z \<Longrightarrow> x \<le> z" by (auto simp: less_eq_OpId_def)
  show "x \<le> y \<Longrightarrow> y \<le> x \<Longrightarrow> x = y"
    by (auto simp: less_eq_OpId_def intro: OpId.expand)
  show "x \<le> y \<or> y \<le> x" by (auto simp: less_eq_OpId_def)
qed

end

section \<open>Vector clocks\<close>

datatype CausalOrder = Before | After | Concurrent | Equal

datatype VectorClock = VectorClock (vc_entries: "(NodeId \<times> u64) list")

definition vc_new :: VectorClock where
  "vc_new = VectorClock []"

definition vc_get :: "VectorClock \<Rightarrow> NodeId \<Rightarrow> u64" where
  "vc_get c n = (case map_of (vc_entries c) n of None \<Rightarrow> 0 | Some v \<Rightarrow> v)"

text \<open>\<open>entry(node).or_insert(0)\<close> followed by the bump: the new clock and the counter.\<close>

definition vc_increment :: "VectorClock \<Rightarrow> NodeId \<Rightarrow> VectorClock \<times> u64" where
  "vc_increment c n =
     (let v = vc_get c n + 1 in (VectorClock (bt_insert n v (vc_entries c)), v))"

definition vc_set_max :: "VectorClock \<Rightarrow> NodeId \<Rightarrow> u64 \<Rightarrow> VectorClock" where
  "vc_set_max c n v =
     (let e = vc_get c n in
      VectorClock (bt_insert n (if v > e then v else e) (vc_entries c)))"

definition vc_total :: "VectorClock \<Rightarrow> u64" where
  "vc_total c = sum_list (map snd (vc_entries c))"

text \<open>The loop of \<open>merge\<close> over the other clock's entries.\<close>

definition vc_merge :: "VectorClock \<Rightarrow> VectorClock \<Rightarrow> VectorClock" where
  "vc_merge c d = fold (\<lambda>(n, v) acc. vc_set_max acc n v) (vc_entries d) c"

definition vc_compare_node ::
  "VectorClock \<Rightarrow> VectorClock \<Rightarrow> NodeId \<Rightarrow> bool \<times> bool \<Rightarrow> bool \<times> bool" where
  "vc_compare_node c d n flags =
     (let a = vc_get c n; b = vc_get d n in
      if a > b then (True, snd flags)
      else if b > a then (fst flags, True)
      else flags)"

definition vc_compare :: "VectorClock \<Rightarrow> VectorClock \<Rightarrow> CausalOrder" where
  "vc_compare c d =
     (case fold (vc_compare_node c d) (map fst (vc_entries c) @ map fst (vc_entries d)) (False, False) of
        (False, False) \<Rightarrow> Equal
      | (True, False) \<Rightarrow> After
      | (False, True) \<Rightarrow> Before
      | (True, True) \<Rightarrow> Concurrent)"

definition vc_happens_before :: "VectorClock \<Rightarrow> VectorClock \<Rightarrow> bool" where
  "vc_happens_before c d \<longleftrightarrow> (case vc_compare c d of Before \<Rightarrow> True | _ \<Rightarrow> False)"

definition vc_fmt :: "VectorClock \<Rightarrow> string" where
  "vc_fmt c = ''{'' @ join '','' (map (\<lambda>(n, v). n @ ''='' @ show_u64 v) (vc_entries c)) @ ''}''"

definition vc_ok :: "VectorClock \<Rightarrow> bool" where
  "vc_ok c \<longleftrightarrow> bt_ok (vc_entries c)"

text \<open>Pointwise order of the histories.\<close>

definition vc_le :: "VectorClock \<Rightarrow> VectorClock \<Rightarrow> bool" where
  "vc_le c d \<longleftrightarrow> (\<forall>n. vc_get c n \<le> vc_get d n)"

subsection \<open>The clock as a map\<close>

lemma vc_get_new [simp]: "vc_get vc_new n = 0"
  by (simp add: vc_get_def vc_new_def)

lemma vc_ok_new [simp]: "vc_ok vc_new"
  by (simp add: vc_ok_def vc_new_def)

lemma vc_get_increment [simp]:
  "vc_get (fst (vc_increment c n)) k = (if k = n then vc_get c n + 1 else vc_get c k)"
  by (simp add: vc_increment_def vc_get_def Let_def)

lemma snd_vc_increment [simp]: "snd (vc_increment c n) = vc_get c n + 1"
  by (simp add: vc_increment_def Let_def)

lemma vc_ok_increment [simp]: "vc_ok c \<Longrightarrow> vc_ok (fst (vc_increment c n))"
  by (simp add: vc_increment_def vc_ok_def Let_def)

lemma vc_get_set_max [simp]:
  "vc_get (vc_set_max c n v) k = (if k = n then max (vc_get c n) v else vc_get c k)"
  by (auto simp: vc_set_max_def vc_get_def Let_def max_def)

lemma vc_ok_set_max [simp]: "vc_ok c \<Longrightarrow> vc_ok (vc_set_max c n v)"
  by (simp add: vc_set_max_def vc_ok_def Let_def)

text \<open>A clock's entries as observed counters are a last-write-wins fold.\<close>

lemma keys_vc_set_max:
  "map_of (vc_entries (vc_set_max c n v)) k =
     (if k = n then Some (max (vc_get c n) v) else map_of (vc_entries c) k)"
  by (auto simp: vc_set_max_def Let_def max_def)

interpretation vc_fold: lww_fold
  "\<lambda>(n, v) c. vc_set_max c n v" "\<lambda>c. map_of (vc_entries c)" fst snd "\<lambda>v::u64. v"
  by unfold_locales
    (auto simp: keys_vc_set_max vc_get_def max_def not_le split: option.splits)

lemma vc_get_fold_set_max:
  "vc_get (fold (\<lambda>(n, v) c. vc_set_max c n v) es c) k =
     Max (insert (vc_get c k) {v. (k, v) \<in> set es})"
proof (induction es arbitrary: c)
  case (Cons e es)
  obtain n v where e: "e = (n, v)" by force
  have fin: "finite {v. (k, v) \<in> set es}"
    by (rule finite_subset [of _ "snd ` set es"]) force+
  have "{u. (k, u) \<in> set (e # es)} = (if k = n then insert v {u. (k, u) \<in> set es} else {u. (k, u) \<in> set es})"
    using e by auto
  then show ?case
    using Cons.IH [of "vc_set_max c n v"] e fin
    by (cases "k = n"; cases "{v. (k, v) \<in> set es} = {}") (auto simp: max.assoc max.left_commute)
qed simp

lemma vc_get_merge: 
  assumes "vc_ok d"
  shows "vc_get (vc_merge c d) k = max (vc_get c k) (vc_get d k)"
proof -
  from assms have "distinct (map fst (vc_entries d))" by (simp add: vc_ok_def bt_ok_distinct)
  then have "{v. (k, v) \<in> set (vc_entries d)} =
      (case map_of (vc_entries d) k of None \<Rightarrow> {} | Some v \<Rightarrow> {v})"
    by (auto simp: map_of_eq_None_iff rev_image_eqI split: option.splits
        dest: map_of_SomeD eq_key_imp_eq_value)
  then show ?thesis
    by (cases "map_of (vc_entries d) k")
      (simp_all add: vc_merge_def vc_get_fold_set_max vc_get_def [of d] max.commute)
qed

lemma vc_ok_merge [simp]: "vc_ok c \<Longrightarrow> vc_ok (vc_merge c d)"
  unfolding vc_merge_def by (rule fold_invariant [of _ "\<lambda>_. True"]) auto

lemma entries_vc_merge:
  assumes "vc_ok d"
  shows "map_of (vc_entries (vc_merge c d)) k =
    (if map_of (vc_entries c) k = None \<and> map_of (vc_entries d) k = None then None
     else Some (max (vc_get c k) (vc_get d k)))"
proof -
  have "map_of (vc_entries (vc_merge c d)) k = None \<longleftrightarrow>
      map_of (vc_entries c) k = None \<and> map_of (vc_entries d) k = None"
    unfolding vc_merge_def using vc_fold.look_fold_None [of "vc_entries d" c k]
    by (auto simp: map_of_eq_None_iff) force+
  with vc_get_merge [OF assms, of c k] show ?thesis
    by (auto simp: vc_get_def split: option.splits)
qed

lemma vc_eqI:
  "vc_ok c \<Longrightarrow> vc_ok d \<Longrightarrow> (\<And>k. map_of (vc_entries c) k = map_of (vc_entries d) k) \<Longrightarrow> c = d"
  by (intro VectorClock.expand bt_ext) (auto simp: vc_ok_def)

interpretation vc_join: gossip_join vc_merge vc_ok
proof
  fix a b c :: VectorClock
  show ok: "vc_ok a \<Longrightarrow> vc_ok b \<Longrightarrow> vc_ok (vc_merge a b)" for a b by simp
  show "vc_ok a \<Longrightarrow> vc_ok b \<Longrightarrow> vc_merge a b = vc_merge b a"
    by (rule vc_eqI) (auto simp: entries_vc_merge max.commute)
  show "vc_ok a \<Longrightarrow> vc_ok b \<Longrightarrow> vc_ok c \<Longrightarrow>
      vc_merge (vc_merge a b) c = vc_merge a (vc_merge b c)"
    by (rule vc_eqI) (auto simp: entries_vc_merge vc_get_merge max.assoc)
  show "vc_ok a \<Longrightarrow> vc_merge a a = a"
    by (rule vc_eqI) (auto simp: entries_vc_merge vc_get_def split: option.splits)
qed

subsection \<open>Comparison\<close>

lemma fold_vc_compare_node:
  "fold (vc_compare_node c d) ns (f, g) =
     (f \<or> (\<exists>n\<in>set ns. vc_get d n < vc_get c n), g \<or> (\<exists>n\<in>set ns. vc_get c n < vc_get d n))"
  by (induction ns arbitrary: f g) (auto simp: vc_compare_node_def Let_def not_less)

lemma vc_unmentioned:
  "n \<notin> set (map fst (vc_entries c)) \<Longrightarrow> vc_get c n = 0"
  by (simp add: vc_get_def map_of_eq_None_iff [THEN iffD2])

lemma vc_compare_flags:
  "vc_compare c d =
     (if vc_le c d then if vc_le d c then Equal else Before
      else if vc_le d c then After else Concurrent)"
proof -
  let ?ns = "map fst (vc_entries c) @ map fst (vc_entries d)"
  have mentioned: "n \<in> set ?ns" if "vc_get c n \<noteq> vc_get d n" for n
    using that vc_unmentioned [of n c] vc_unmentioned [of n d] by fastforce
  have "(\<exists>n\<in>set ?ns. vc_get d n < vc_get c n) \<longleftrightarrow> \<not> vc_le c d"
    and "(\<exists>n\<in>set ?ns. vc_get c n < vc_get d n) \<longleftrightarrow> \<not> vc_le d c"
    unfolding vc_le_def using mentioned by (metis less_irrefl not_le)+
  then show ?thesis
    unfolding vc_compare_def fold_vc_compare_node by (simp split: bool.split)
qed

lemma vc_compare_Before: "vc_compare c d = Before \<longleftrightarrow> vc_le c d \<and> \<not> vc_le d c"
  by (simp add: vc_compare_flags)

lemma vc_compare_After: "vc_compare c d = After \<longleftrightarrow> vc_le d c \<and> \<not> vc_le c d"
  by (simp add: vc_compare_flags)

lemma vc_compare_Equal: "vc_compare c d = Equal \<longleftrightarrow> vc_le c d \<and> vc_le d c"
  by (simp add: vc_compare_flags)

lemma vc_compare_Concurrent: "vc_compare c d = Concurrent \<longleftrightarrow> \<not> vc_le c d \<and> \<not> vc_le d c"
  by (simp add: vc_compare_flags)

lemma vc_happens_before_iff: "vc_happens_before c d \<longleftrightarrow> vc_le c d \<and> \<not> vc_le d c"
  unfolding vc_happens_before_def vc_compare_Before [symmetric]
  by (simp split: CausalOrder.split)

lemma vc_le_trans: "vc_le a b \<Longrightarrow> vc_le b c \<Longrightarrow> vc_le a c"
  unfolding vc_le_def by (meson order_trans)

lemma vc_le_merge: "vc_ok d \<Longrightarrow> vc_le c (vc_merge c d) \<and> vc_le d (vc_merge c d)"
  by (simp add: vc_le_def vc_get_merge)

section \<open>Properties\<close>

text \<open>
  \<open>VectorClock::merge\<close> is the join of the two histories: on well-formed clocks it
  is commutative, associative and idempotent as a function on the stored maps, it keeps them
  well-formed, and every component of the result is the greater of the two.
\<close>

theorem vc_merge_is_join:
  assumes "vc_ok a" and "vc_ok b" and "vc_ok c"
  shows "vc_ok (vc_merge a b) \<and> vc_merge a b = vc_merge b a
    \<and> vc_merge (vc_merge a b) c = vc_merge a (vc_merge b c) \<and> vc_merge a a = a
    \<and> (\<forall>n. vc_get (vc_merge a b) n = max (vc_get a n) (vc_get b n))"
  using assms vc_join.join_comm vc_join.join_assoc vc_join.join_idem vc_get_merge by simp

theorem vc_merge_is_join_witness:
  "vc_merge (VectorClock [(''a'', 2)]) (VectorClock [(''a'', 1), (''b'', 4)])
     = VectorClock [(''a'', 2), (''b'', 4)]
   \<and> vc_merge (VectorClock [(''a'', 2)]) (VectorClock [(''a'', 1), (''b'', 4)])
     = vc_merge (VectorClock [(''a'', 1), (''b'', 4)]) (VectorClock [(''a'', 2)])"
proof
  show "vc_merge (VectorClock [(''a'', 2)]) (VectorClock [(''a'', 1), (''b'', 4)])
     = VectorClock [(''a'', 2), (''b'', 4)]" by code_simp
  have "vc_ok (VectorClock [(''a'', 2)])" "vc_ok (VectorClock [(''a'', 1), (''b'', 4)])"
    by code_simp+
  then show "vc_merge (VectorClock [(''a'', 2)]) (VectorClock [(''a'', 1), (''b'', 4)])
     = vc_merge (VectorClock [(''a'', 1), (''b'', 4)]) (VectorClock [(''a'', 2)])"
    using vc_merge_is_join by blast
qed

text \<open>
  \<open>VectorClock::compare\<close> decides the pointwise order of the two histories: each of
  the four answers is given exactly when the domination tests say so, and
  \<open>happens_before\<close> is a strict partial order (irreflexive and transitive).
\<close>

theorem vc_compare_correct:
  "(vc_compare c d = Before \<longleftrightarrow> vc_le c d \<and> \<not> vc_le d c)
   \<and> (vc_compare c d = After \<longleftrightarrow> vc_le d c \<and> \<not> vc_le c d)
   \<and> (vc_compare c d = Equal \<longleftrightarrow> (\<forall>n. vc_get c n = vc_get d n))
   \<and> (vc_compare c d = Concurrent \<longleftrightarrow> \<not> vc_le c d \<and> \<not> vc_le d c)
   \<and> \<not> vc_happens_before c c
   \<and> (vc_happens_before c d \<longrightarrow> vc_happens_before d e \<longrightarrow> vc_happens_before c e)"
proof -
  have "(vc_le c d \<and> vc_le d c) = (\<forall>n. vc_get c n = vc_get d n)"
    unfolding vc_le_def by (metis order_antisym order_refl)
  then show ?thesis
    using vc_le_trans [of c d e] vc_le_trans [of e c d] vc_le_trans [of d e c]
    by (auto simp: vc_compare_Before vc_compare_After vc_compare_Equal vc_compare_Concurrent
        vc_happens_before_iff dest: vc_le_trans)
qed

theorem vc_compare_correct_witness:
  "vc_happens_before (VectorClock [(''a'', 1)]) (VectorClock [(''a'', 1), (''b'', 3)])"
proof -
  have "vc_happens_before (VectorClock [(''a'', 1)]) (VectorClock [(''a'', 1), (''b'', 2)])"
    and "vc_happens_before (VectorClock [(''a'', 1), (''b'', 2)]) (VectorClock [(''a'', 1), (''b'', 3)])"
    by code_simp+
  then show ?thesis
    using vc_compare_correct [of "VectorClock [(''a'', 1)]" "VectorClock [(''a'', 1), (''b'', 2)]"
        "VectorClock [(''a'', 1), (''b'', 3)]"] by blast
qed

end
