(* ===== verification/Op_Log.thy ===== *)
theory Op_Log
  imports Principal
begin

text \<open>
  The operation log and its materialized view
  (\<open>velocity-mcp/src/automation/oplog.rs\<close>, with \<open>VcTriple\<close> of
  \<open>velocity-ide/src/site_map/types.rs\<close> and \<open>EventOutcome\<close> of
  \<open>velocity-mcp/src/registry/event_store.rs\<close>).  \<open>materialize\<close> folds the log into
  the live edges and the held claims; the lemmas show that the fold is a function of the set
  of operations and describe which operation decides each edge and each claim.
\<close>

section \<open>Operations\<close>

record VcTriple =
  subject_hash :: u64
  predicate_id :: u16
  object_hash :: u64

datatype EventOutcome = Success | Failure | Revert | Pending

record TripleEffect =
  te_file_path :: string
  te_add :: "VcTriple list"
  te_rm :: "VcTriple list"

datatype OpEffect =
    Triple TripleEffect
  | Text PathBuf string
  | Claim PathBuf "u64 \<times> u64"
  | Release PathBuf
  | Approve string string
  | Legacy

record Op =
  op_id :: OpId
  op_clock :: VectorClock
  op_principal :: Principal
  op_causal_deps :: "OpId list"
  op_intent :: string
  op_effect :: OpEffect
  op_outcome :: EventOutcome
  op_authorized_by :: "string option"

definition new_triple ::
  "VectorClock \<Rightarrow> Principal \<Rightarrow> string \<Rightarrow> VcTriple list \<Rightarrow> VcTriple list \<Rightarrow> string \<Rightarrow> Op" where
  "new_triple clock p file_path add rm intent =
     (let (clock', counter) = vc_increment clock (pr_node_id p) in
      \<lparr>op_id = OpId (pr_node_id p) counter, op_clock = clock', op_principal = p,
       op_causal_deps = [], op_intent = intent,
       op_effect = Triple \<lparr>te_file_path = file_path, te_add = add, te_rm = rm\<rparr>,
       op_outcome = Pending, op_authorized_by = None\<rparr>)"

definition new_text ::
  "VectorClock \<Rightarrow> Principal \<Rightarrow> PathBuf \<Rightarrow> string \<Rightarrow> string \<Rightarrow> Op" where
  "new_text clock p path digest intent =
     (let (clock', counter) = vc_increment clock (pr_node_id p) in
      \<lparr>op_id = OpId (pr_node_id p) counter, op_clock = clock', op_principal = p,
       op_causal_deps = [], op_intent = intent, op_effect = Text path digest,
       op_outcome = Pending, op_authorized_by = None\<rparr>)"

datatype OpSet = OpSet (ops: "Op list")

definition opset_new :: OpSet where
  "opset_new = OpSet []"

definition opset_len :: "OpSet \<Rightarrow> nat" where
  "opset_len s = length (ops s)"

definition opset_is_empty :: "OpSet \<Rightarrow> bool" where
  "opset_is_empty s \<longleftrightarrow> ops s = []"

definition opset_push :: "OpSet \<Rightarrow> Op \<Rightarrow> OpSet" where
  "opset_push s op = OpSet (ops s @ [op])"

section \<open>The materialized view\<close>

type_synonym TripleKey = "u64 \<times> u16 \<times> u64"
type_synonym 'k winners = "('k \<times> OpId \<times> bool) list"

definition key_of :: "VcTriple \<Rightarrow> TripleKey" where
  "key_of t = (subject_hash t, predicate_id t, object_hash t)"

record MaterializedState =
  live_triples :: "TripleKey list"
  claims :: "(component list \<times> OpId) list"

definition record_winner :: "'k::linorder winners \<Rightarrow> 'k \<Rightarrow> OpId \<Rightarrow> bool \<Rightarrow> 'k winners" where
  "record_winner winners key i present =
     (case map_of winners key of
        Some (best_id, _) \<Rightarrow>
          if i \<le> best_id then winners else bt_insert key (i, present) winners
      | None \<Rightarrow> bt_insert key (i, present) winners)"

text \<open>One iteration of the loop of \<open>materialize\<close>; claims are keyed by the components of
  their scope, which is how \<open>PathBuf\<close> keys compare.\<close>

definition materialize_op ::
  "Op \<Rightarrow> TripleKey winners \<times> component list winners
     \<Rightarrow> TripleKey winners \<times> component list winners" where
  "materialize_op op acc =
     (case acc of (triple_winners, claim_winners) \<Rightarrow>
      (case op_effect op of
         Triple t \<Rightarrow>
           (let after_add = fold (\<lambda>edge w. record_winner w (key_of edge) (op_id op) True)
                  (te_add t) triple_winners
            in (fold (\<lambda>edge w. record_winner w (key_of edge) (op_id op) False) (te_rm t) after_add,
                claim_winners))
       | Claim scope _ \<Rightarrow>
           (triple_winners, record_winner claim_winners (components scope) (op_id op) True)
       | Release scope \<Rightarrow>
           (triple_winners, record_winner claim_winners (components scope) (op_id op) False)
       | Text _ _ \<Rightarrow> (triple_winners, claim_winners)
       | Legacy \<Rightarrow> (triple_winners, claim_winners)
       | Approve _ _ \<Rightarrow> (triple_winners, claim_winners)))"

definition materialize :: "OpSet \<Rightarrow> MaterializedState" where
  "materialize s =
     (let (triple_winners, claim_winners) = fold materialize_op (ops s) ([], []) in
      \<lparr>live_triples = map fst (filter (\<lambda>(_, _, present). present) triple_winners),
       claims = map (\<lambda>(scope, winner, _). (scope, winner))
                  (filter (\<lambda>(_, _, held). held) claim_winners)\<rparr>)"

section \<open>The log as a set of decisions\<close>

text \<open>The decisions one operation takes, each with the operation's identity as its rank.\<close>

definition adds :: "Op \<Rightarrow> TripleKey list" where
  "adds op = (case op_effect op of Triple t \<Rightarrow> map key_of (te_add t) | _ \<Rightarrow> [])"

definition rms :: "Op \<Rightarrow> TripleKey list" where
  "rms op = (case op_effect op of Triple t \<Rightarrow> map key_of (te_rm t) | _ \<Rightarrow> [])"

definition touched :: "Op \<Rightarrow> TripleKey set" where
  "touched op = set (adds op) \<union> set (rms op)"

definition claim_scope :: "Op \<Rightarrow> (component list \<times> bool) option" where
  "claim_scope op = (case op_effect op of Claim p _ \<Rightarrow> Some (components p, True)
     | Release p \<Rightarrow> Some (components p, False) | _ \<Rightarrow> None)"

definition triple_events :: "Op \<Rightarrow> (TripleKey \<times> OpId \<times> bool) list" where
  "triple_events op = map (\<lambda>k. (k, op_id op, k \<in> set (adds op))) (adds op @ rms op)"

definition claim_events :: "Op \<Rightarrow> (component list \<times> OpId \<times> bool) list" where
  "claim_events op = (case claim_scope op of None \<Rightarrow> [] | Some (p, held) \<Rightarrow> [(p, op_id op, held)])"

definition record_event :: "'k::linorder \<times> OpId \<times> bool \<Rightarrow> 'k winners \<Rightarrow> 'k winners" where
  "record_event e w = (case e of (k, i, present) \<Rightarrow> record_winner w k i present)"

text \<open>An \<open>OpId\<close> names one operation.\<close>

definition unique_ids :: "Op set \<Rightarrow> bool" where
  "unique_ids S \<longleftrightarrow> (\<forall>a\<in>S. \<forall>b\<in>S. op_id a = op_id b \<longrightarrow> a = b)"

lemma map_of_record_event:
  "map_of (record_event e w) k =
     (if k = fst e then
        (case map_of w k of None \<Rightarrow> Some (snd e)
         | Some b \<Rightarrow> if fst (snd e) \<le> fst b then Some b else Some (snd e))
      else map_of w k)"
  by (auto simp: record_event_def record_winner_def split: prod.splits option.splits)

interpretation winners_fold: lww_fold record_event map_of fst snd "\<lambda>v::OpId \<times> bool. fst v"
  by unfold_locales (simp add: map_of_record_event)

lemma bt_ok_record_event [simp]: "bt_ok w \<Longrightarrow> bt_ok (record_event e w)"
  by (auto simp: record_event_def record_winner_def split: prod.splits option.splits)

lemma bt_ok_fold_record_event [simp]: "bt_ok w \<Longrightarrow> bt_ok (fold record_event es w)"
  by (induction es arbitrary: w) auto

lemma record_winner_ignored:
  "map_of w k = Some b \<Longrightarrow> i \<le> fst b \<Longrightarrow> record_winner w k i present = w"
  by (auto simp: record_winner_def split: prod.splits)

text \<open>
  An operation that adds and removes the same edge keeps it: the removal meets the incumbent
  that the addition left and is ignored, so the removals may carry the operation's final
  decision for the edge.
\<close>

lemma fold_record_adds:
  "fold (\<lambda>k w. record_winner w k i True) ks w = fold record_event (map (\<lambda>k. (k, i, True)) ks) w"
  by (induction ks arbitrary: w) (auto simp: record_event_def)

lemma fold_record_rms:
  assumes "\<And>k. k \<in> A \<Longrightarrow> \<exists>b. map_of w k = Some b \<and> i \<le> fst b"
  shows "fold (\<lambda>k w. record_winner w k i False) ks w =
    fold record_event (map (\<lambda>k. (k, i, k \<in> A)) ks) w"
  using assms
proof (induction ks arbitrary: w)
  case (Cons k ks)
  let ?w = "record_winner w k i False"
  have same: "record_event (k, i, k \<in> A) w = ?w"
    using Cons.prems [of k] by (cases "k \<in> A") (auto simp: record_event_def record_winner_ignored)
  have "\<exists>b. map_of ?w k' = Some b \<and> i \<le> fst b" if "k' \<in> A" for k'
    using winners_fold.look_fold_mono [of w k' _ "[(k, i, False)]"] Cons.prems [OF that]
    by (fastforce simp: record_event_def)
  with Cons.IH [of ?w] same show ?case by simp
qed simp

lemma adds_incumbent:
  assumes "k \<in> set ks"
  shows "\<exists>b. map_of (fold record_event (map (\<lambda>k. (k, i, True)) ks) w) k = Some b \<and> i \<le> fst b"
proof -
  let ?es = "map (\<lambda>k. (k, i, True)) ks"
  have e: "(k, i, True) \<in> set ?es" using assms by auto
  then obtain b where b: "map_of (fold record_event ?es w) k = Some b"
    using winners_fold.look_fold_None [of ?es w k] by fastforce
  with winners_fold.look_fold_greatest [OF b e] show ?thesis by simp
qed

lemma materialize_op_events:
  "materialize_op op (tw, cw) = (fold record_event (triple_events op) tw, fold record_event (claim_events op) cw)"
proof (cases "op_effect op")
  case (Triple t)
  let ?A = "map key_of (te_add t)" and ?R = "map key_of (te_rm t)" and ?i = "op_id op"
  let ?w = "fold record_event (map (\<lambda>k. (k, ?i, True)) ?A) tw"
  have rm: "fold (\<lambda>k w. record_winner w k ?i False) ?R ?w =
      fold record_event (map (\<lambda>k. (k, ?i, k \<in> set ?A)) ?R) ?w"
    by (rule fold_record_rms) (rule adds_incumbent)
  have op: "materialize_op op (tw, cw) =
      (fold (\<lambda>k w. record_winner w k ?i False) ?R (fold (\<lambda>k w. record_winner w k ?i True) ?A tw), cw)"
    by (simp add: materialize_op_def Triple fold_map o_def)
  have ev: "triple_events op = map (\<lambda>k. (k, ?i, True)) ?A @ map (\<lambda>k. (k, ?i, k \<in> set ?A)) ?R"
    by (simp add: triple_events_def adds_def rms_def Triple)
  have "claim_events op = []" by (simp add: claim_events_def claim_scope_def Triple)
  then show ?thesis unfolding op ev fold_record_adds rm by simp
qed (auto simp: materialize_op_def triple_events_def claim_events_def claim_scope_def
    adds_def rms_def record_event_def)

lemma fold_materialize_op:
  "fold materialize_op os (tw, cw) =
     (fold record_event (concat (map triple_events os)) tw,
      fold record_event (concat (map claim_events os)) cw)"
  by (induction os arbitrary: tw cw) (auto simp: materialize_op_events)

definition triple_winners :: "Op list \<Rightarrow> TripleKey winners" where
  "triple_winners os = fold record_event (concat (map triple_events os)) []"

definition claim_winners :: "Op list \<Rightarrow> component list winners" where
  "claim_winners os = fold record_event (concat (map claim_events os)) []"

lemma materialize_winners:
  "materialize s =
     \<lparr>live_triples = map fst (filter (\<lambda>(_, _, present). present) (triple_winners (ops s))),
      claims = map (\<lambda>(scope, winner, _). (scope, winner))
                 (filter (\<lambda>(_, _, held). held) (claim_winners (ops s)))\<rparr>"
  by (simp add: materialize_def fold_materialize_op triple_winners_def claim_winners_def)

lemma triple_event_iff:
  "e \<in> set (concat (map triple_events os)) \<longleftrightarrow>
     (\<exists>op\<in>set os. fst e \<in> touched op \<and> snd e = (op_id op, fst e \<in> set (adds op)))"
  by (cases e) (auto simp: triple_events_def touched_def)

lemma claim_event_iff:
  "e \<in> set (concat (map claim_events os)) \<longleftrightarrow>
     (\<exists>op\<in>set os. claim_scope op = Some (fst e, snd (snd e)) \<and> fst (snd e) = op_id op)"
  by (cases e) (force simp: claim_events_def split: option.splits)

lemma triple_events_inj:
  assumes "unique_ids (set os)"
    and "e \<in> set (concat (map triple_events os))" and "e' \<in> set (concat (map triple_events os))"
    and "fst e = fst e'" and "fst (snd e) = fst (snd e')"
  shows "snd e = snd e'"
  using assms unfolding triple_event_iff unique_ids_def by (metis fst_conv)

lemma claim_events_inj:
  assumes "unique_ids (set os)"
    and "e \<in> set (concat (map claim_events os))" and "e' \<in> set (concat (map claim_events os))"
    and "fst e = fst e'" and "fst (snd e) = fst (snd e')"
  shows "snd e = snd e'"
  using assms unfolding claim_event_iff unique_ids_def
  by (metis option.inject prod.collapse prod.inject)

lemma triple_winners_cong:
  assumes "unique_ids (set os)" and "set os = set os'"
  shows "triple_winners os = triple_winners os'"
  unfolding triple_winners_def
proof (rule bt_ext)
  show "map_of (fold record_event (concat (map triple_events os)) []) =
      map_of (fold record_event (concat (map triple_events os')) [])"
  proof (rule winners_fold.fold_set_cong)
    show "set (concat (map triple_events os)) = set (concat (map triple_events os'))"
      using assms(2) by simp
  qed (use triple_events_inj [OF assms(1)] in auto)
qed simp_all

lemma claim_winners_cong:
  assumes "unique_ids (set os)" and "set os = set os'"
  shows "claim_winners os = claim_winners os'"
  unfolding claim_winners_def
proof (rule bt_ext)
  show "map_of (fold record_event (concat (map claim_events os)) []) =
      map_of (fold record_event (concat (map claim_events os')) [])"
  proof (rule winners_fold.fold_set_cong)
    show "set (concat (map claim_events os)) = set (concat (map claim_events os'))"
      using assms(2) by simp
  qed (use claim_events_inj [OF assms(1)] in auto)
qed simp_all

lemma materialize_cong:
  assumes "unique_ids (set (ops s))" and "set (ops s) = set (ops s')"
  shows "materialize s = materialize s'"
  using triple_winners_cong [OF assms] claim_winners_cong [OF assms] by (simp add: materialize_winners)

lemma winners_char:
  assumes "\<And>e e'. e \<in> set es \<Longrightarrow> e' \<in> set es \<Longrightarrow> fst e = fst e' \<Longrightarrow>
    fst (snd e) = fst (snd e') \<Longrightarrow> snd e = snd e'"
  shows "map_of (fold record_event es []) k = Some (i, present) \<longleftrightarrow>
    (k, i, present) \<in> set es \<and> (\<forall>i' p'. (k, i', p') \<in> set es \<longrightarrow> i' \<le> i)"
proof -
  have "map_of (fold record_event es []) k = Some (i, present) \<longleftrightarrow>
    (\<exists>e\<in>set es. fst e = k \<and> snd e = (i, present)
      \<and> (\<forall>e'\<in>set es. fst e' = k \<longrightarrow> fst (snd e') \<le> fst (i, present)))"
    by (rule winners_fold.look_fold_char) (simp, metis assms)
  then show ?thesis by (metis fst_conv snd_conv prod.collapse)
qed

lemma map_of_triple_winners:
  assumes "unique_ids (set os)"
  shows "map_of (triple_winners os) k = Some (i, present) \<longleftrightarrow>
    (\<exists>op\<in>set os. k \<in> touched op \<and> op_id op = i \<and> (present \<longleftrightarrow> k \<in> set (adds op))
       \<and> (\<forall>op'\<in>set os. k \<in> touched op' \<longrightarrow> op_id op' \<le> i))"
proof -
  let ?es = "concat (map triple_events os)"
  have "map_of (triple_winners os) k = Some (i, present) \<longleftrightarrow>
      (k, i, present) \<in> set ?es \<and> (\<forall>i' p'. (k, i', p') \<in> set ?es \<longrightarrow> i' \<le> i)"
    unfolding triple_winners_def by (rule winners_char) (rule triple_events_inj [OF assms])
  then show ?thesis unfolding triple_event_iff fst_conv snd_conv prod.inject by blast
qed

lemma map_of_claim_winners:
  assumes "unique_ids (set os)"
  shows "map_of (claim_winners os) p = Some (i, held) \<longleftrightarrow>
    (\<exists>op\<in>set os. claim_scope op = Some (p, held) \<and> op_id op = i
       \<and> (\<forall>op'\<in>set os. \<forall>h. claim_scope op' = Some (p, h) \<longrightarrow> op_id op' \<le> i))"
proof -
  let ?es = "concat (map claim_events os)"
  have "map_of (claim_winners os) p = Some (i, held) \<longleftrightarrow>
      (p, i, held) \<in> set ?es \<and> (\<forall>i' p'. (p, i', p') \<in> set ?es \<longrightarrow> i' \<le> i)"
    unfolding claim_winners_def by (rule winners_char) (rule claim_events_inj [OF assms])
  then show ?thesis unfolding claim_event_iff fst_conv snd_conv by blast
qed

lemma bt_ok_winners [simp]: "bt_ok (triple_winners os)" "bt_ok (claim_winners os)"
  by (simp_all add: triple_winners_def claim_winners_def)

lemma live_triples_iff_winner:
  "k \<in> set (live_triples (materialize s)) \<longleftrightarrow> (\<exists>i. map_of (triple_winners (ops s)) k = Some (i, True))"
  by (cases k) (force simp: materialize_winners bt_ok_distinct)

lemma map_of_claims:
  "map_of (claims (materialize s)) p = Some i \<longleftrightarrow> map_of (claim_winners (ops s)) p = Some (i, True)"
proof -
  let ?w = "claim_winners (ops s)"
  have "distinct (map fst (claims (materialize s)))"
    using bt_ok_distinct [OF bt_ok_filter [OF bt_ok_winners(2)]]
    by (simp add: materialize_winners o_def case_prod_beta)
  then have "map_of (claims (materialize s)) p = Some i \<longleftrightarrow> (p, i) \<in> set (claims (materialize s))"
    by simp
  also have "\<dots> \<longleftrightarrow> (p, i, True) \<in> set ?w"
    by (force simp: materialize_winners)
  also have "\<dots> \<longleftrightarrow> map_of ?w p = Some (i, True)"
    by (simp add: bt_ok_distinct)
  finally show ?thesis .
qed

lemma inert_events:
  "op_effect op = Legacy \<or> (\<exists>p d. op_effect op = Text p d) \<or> (\<exists>r v. op_effect op = Approve r v) \<Longrightarrow>
     triple_events op = [] \<and> claim_events op = []"
  by (auto simp: triple_events_def claim_events_def claim_scope_def adds_def rms_def)

section \<open>Properties\<close>

text \<open>
  C5. Convergence and idempotence (INV-2, INV-3): replaying the same operations in any order
  and with any duplication yields the same materialized state, as a stored structure, when an
  \<open>OpId\<close> names one operation.
\<close>

theorem materialize_convergent:
  assumes "unique_ids (set (ops s))" and "set (ops s) = set (ops s')"
  shows "materialize s = materialize s'"
  using assms by (rule materialize_cong)

theorem materialize_convergent_witness:
  "let t = \<lparr>subject_hash = 1, predicate_id = 2, object_hash = 3\<rparr>;
       a = new_triple vc_new (principal_service ''a'') ''f.rs'' [t] [] ''add'';
       b = new_triple vc_new (principal_service ''b'') ''f.rs'' [] [t] ''remove''
   in materialize (OpSet [a, b]) = materialize (OpSet [b, a, b, a])"
proof -
  define t where "t = \<lparr>subject_hash = (1::u64), predicate_id = (2::u16), object_hash = (3::u64)\<rparr>"
  define a where "a = new_triple vc_new (principal_service ''a'') ''f.rs'' [t] [] ''add''"
  define b where "b = new_triple vc_new (principal_service ''b'') ''f.rs'' [] [t] ''remove''"
  have "op_id a \<noteq> op_id b"
    by (simp add: a_def b_def new_triple_def principal_service_def vc_increment_def Let_def)
  then have "unique_ids (set (ops (OpSet [a, b])))" by (auto simp: unique_ids_def)
  moreover have "set (ops (OpSet [a, b])) = set (ops (OpSet [b, a, b, a]))" by auto
  ultimately have "materialize (OpSet [a, b]) = materialize (OpSet [b, a, b, a])"
    by (rule materialize_convergent)
  then show ?thesis by (simp add: a_def b_def t_def)
qed

text \<open>
  C32. Last write wins: an edge is live exactly when the operation with the greatest
  \<open>OpId\<close> among those that add or remove it adds it, and a scope is claimed by the
  operation with the greatest \<open>OpId\<close> among those that claim or release it, when that
  one is a claim.
\<close>

theorem materialize_last_write_wins:
  assumes "unique_ids (set (ops s))"
  shows "(k \<in> set (live_triples (materialize s)) \<longleftrightarrow>
      (\<exists>op\<in>set (ops s). k \<in> set (adds op)
         \<and> (\<forall>op'\<in>set (ops s). k \<in> touched op' \<longrightarrow> op_id op' \<le> op_id op)))
    \<and> (map_of (claims (materialize s)) p = Some i \<longleftrightarrow>
      (\<exists>op\<in>set (ops s). claim_scope op = Some (p, True) \<and> op_id op = i
         \<and> (\<forall>op'\<in>set (ops s). \<forall>h. claim_scope op' = Some (p, h) \<longrightarrow> op_id op' \<le> i)))"
proof -
  have "set (adds op) \<subseteq> touched op" for op by (simp add: touched_def)
  then show ?thesis
    unfolding live_triples_iff_winner map_of_claims map_of_triple_winners [OF assms]
      map_of_claim_winners [OF assms] by blast
qed

theorem materialize_last_write_wins_witness:
  "let t = \<lparr>subject_hash = 1, predicate_id = 2, object_hash = 3\<rparr>;
       a = new_triple vc_new (principal_service ''a'') ''f.rs'' [t] [] ''add'';
       b = new_triple vc_new (principal_service ''b'') ''f.rs'' [] [t] ''remove''
   in key_of t \<notin> set (live_triples (materialize (OpSet [a, b])))"
proof -
  define t where "t = \<lparr>subject_hash = (1::u64), predicate_id = (2::u16), object_hash = (3::u64)\<rparr>"
  define a where "a = new_triple vc_new (principal_service ''a'') ''f.rs'' [t] [] ''add''"
  define b where "b = new_triple vc_new (principal_service ''b'') ''f.rs'' [] [t] ''remove''"
  have ids: "op_id a = OpId ''a'' 1" "op_id b = OpId ''b'' 1"
    by (simp_all add: a_def b_def new_triple_def principal_service_def vc_increment_def Let_def vc_new_def vc_get_def)
  then have "unique_ids (set (ops (OpSet [a, b])))" by (auto simp: unique_ids_def)
  moreover have "adds a = [key_of t]" "adds b = []" "rms b = [key_of t]"
    by (simp_all add: a_def b_def new_triple_def adds_def rms_def vc_increment_def Let_def)
  ultimately have "key_of t \<notin> set (live_triples (materialize (OpSet [a, b])))"
    using materialize_last_write_wins [of "OpSet [a, b]" "key_of t"] ids
    by (auto simp: touched_def less_eq_OpId_def)
  then show ?thesis by (simp add: a_def b_def t_def)
qed

text \<open>
  Legacy lines, text changes and approvals are inert (INV-4): dropping them from the log
  does not change the materialized state.
\<close>

theorem materialize_inert:
  "materialize (OpSet (filter (\<lambda>op. case op_effect op of Legacy \<Rightarrow> False | Text _ _ \<Rightarrow> False
     | Approve _ _ \<Rightarrow> False | _ \<Rightarrow> True) os)) = materialize (OpSet os)"
proof -
  let ?P = "\<lambda>op. case op_effect op of Legacy \<Rightarrow> False | Text _ _ \<Rightarrow> False
     | Approve _ _ \<Rightarrow> False | _ \<Rightarrow> True"
  have "triple_events op = [] \<and> claim_events op = []" if "\<not> ?P op" for op
    using that inert_events [of op] by (auto split: OpEffect.splits)
  then have "concat (map triple_events (filter ?P os)) = concat (map triple_events os)"
    and "concat (map claim_events (filter ?P os)) = concat (map claim_events os)"
    by (induction os) auto
  then show ?thesis by (simp add: materialize_winners triple_winners_def claim_winners_def)
qed

end
