(* ===== verification/Op_Log_Store.thy ===== *)
theory Op_Log_Store
  imports Op_Log
begin

text \<open>
  The durable log (\<open>velocity-mcp/src/automation/op_log_store.rs\<close>): one serialized
  operation per line of a file.  The file is its text, \<open>None\<close> when it does not exist.
  The serializer is not part of the repository: \<open>ser\<close> and \<open>de\<close> stand for
  \<open>serde_json::to_string\<close> and \<open>from_str\<close>, and \<open>serde_ok\<close> states what is
  documented of them for the operations at hand.  The disk is the record \<open>io\<close>: whether
  the file opens, and for each write whether it completes or stops after some bytes.
\<close>

definition newline :: char where
  "newline = CHR 0x0A"

datatype store_error = OpenFailed | SerializeFailed OpId | WriteFailed

record io =
  io_open :: bool
  io_write :: "nat \<Rightarrow> nat option"

definition io_perfect :: io where
  "io_perfect = \<lparr>io_open = True, io_write = (\<lambda>_. None)\<rparr>"

definition store_open :: "string \<Rightarrow> string" where
  "store_open workspace = workspace @ ''/.velocity/oplog''"

definition ops_path :: "string \<Rightarrow> string" where
  "ops_path dir = dir @ ''/ops.jsonl''"

text \<open>The write loop of \<open>append_many\<close>: the \<open>k\<close>-th record goes down in one write.\<close>

fun append_records ::
  "(Op \<Rightarrow> string option) \<Rightarrow> (nat \<Rightarrow> nat option) \<Rightarrow> nat \<Rightarrow> string \<Rightarrow> Op list
     \<Rightarrow> (store_error + unit) \<times> string" where
  "append_records ser wr k content [] = (Inr (), content)"
| "append_records ser wr k content (op # os) =
     (case ser op of
        None \<Rightarrow> (Inl (SerializeFailed (op_id op)), content)
      | Some line \<Rightarrow>
          (let payload = line @ [newline] in
           case wr k of
             None \<Rightarrow> append_records ser wr (Suc k) (content @ payload) os
           | Some n \<Rightarrow> (Inl WriteFailed, content @ take n payload)))"

definition append_many ::
  "(Op \<Rightarrow> string option) \<Rightarrow> io \<Rightarrow> string option \<Rightarrow> Op list
     \<Rightarrow> (store_error + unit) \<times> string option" where
  "append_many ser d file os =
     (if os = [] then (Inr (), file)
      else if \<not> io_open d then (Inl OpenFailed, file)
      else (let (r, c) = append_records ser (io_write d) 0 (case file of None \<Rightarrow> [] | Some c \<Rightarrow> c) os
            in (r, Some c)))"

definition store_append ::
  "(Op \<Rightarrow> string option) \<Rightarrow> io \<Rightarrow> string option \<Rightarrow> Op \<Rightarrow> (store_error + unit) \<times> string option" where
  "store_append ser d file op = append_many ser d file [op]"

text \<open>\<open>BufRead::lines\<close>: the text between newlines, without an empty last piece.\<close>

definition text_lines :: "string \<Rightarrow> string list" where
  "text_lines s = (let ws = split_on newline s in if last ws = [] then butlast ws else ws)"

definition load_line :: "(string \<Rightarrow> Op option) \<Rightarrow> string \<Rightarrow> OpSet \<Rightarrow> OpSet" where
  "load_line de line s =
     (let trimmed = trim line in
      if trimmed = [] then s
      else (case de trimmed of Some op \<Rightarrow> opset_push s op | None \<Rightarrow> s))"

definition load :: "(string \<Rightarrow> Op option) \<Rightarrow> string option \<Rightarrow> OpSet" where
  "load de file =
     (case file of None \<Rightarrow> opset_new
      | Some c \<Rightarrow> fold (load_line de) (text_lines c) opset_new)"

definition store_materialize :: "(string \<Rightarrow> Op option) \<Rightarrow> string option \<Rightarrow> MaterializedState" where
  "store_materialize de file = materialize (load de file)"

text \<open>
  What is documented of the serializer on the operations of \<open>S\<close>: it succeeds, its compact
  output holds no raw newline and is not blank, parsing it gives the operation back, and a
  proper prefix of it does not parse.
\<close>

definition serde_ok :: "(Op \<Rightarrow> string option) \<Rightarrow> (string \<Rightarrow> Op option) \<Rightarrow> Op set \<Rightarrow> bool" where
  "serde_ok ser de S \<longleftrightarrow>
     (\<forall>op\<in>S. \<exists>l. ser op = Some l \<and> newline \<notin> set l \<and> trim l \<noteq> [] \<and> de (trim l) = Some op
        \<and> (\<forall>n<length l. trim (take n l) = [] \<or> de (trim (take n l)) = None))"

text \<open>The text ends at a line boundary, so the next record starts on a line of its own.\<close>

definition line_aligned :: "string option \<Rightarrow> bool" where
  "line_aligned file \<longleftrightarrow> (case file of None \<Rightarrow> True | Some c \<Rightarrow> c = [] \<or> last c = newline)"

section \<open>Lines\<close>

lemma text_lines_Nil [simp]: "text_lines [] = []"
  by (simp add: text_lines_def)

lemma split_on_append_line:
  "newline \<notin> set l \<Longrightarrow> a = [] \<or> last a = newline \<Longrightarrow>
     split_on newline (a @ l) = butlast (split_on newline a) @ [l]"
proof (induction a)
  case (Cons x a)
  show ?case
  proof (cases a)
    case Nil
    with Cons.prems show ?thesis by (simp add: split_on_no_occ)
  next
    case (Cons y b)
    with Cons.IH Cons.prems have "split_on newline (a @ l) = butlast (split_on newline a) @ [l]" by simp
    moreover obtain v vs where "split_on newline a = v # vs" by (cases "split_on newline a") auto
    moreover have "vs \<noteq> []"
    proof -
      have "newline \<in> set a" using Cons.prems(2) \<open>a = y # b\<close> by (metis last.simps last_in_set list.distinct(1))
      then show ?thesis using split_on_no_sep [of _ newline a] join_split_on [of newline a]
        \<open>split_on newline a = v # vs\<close> by (metis join.simps(2) list.set_intros(1))
    qed
    ultimately show ?thesis by (auto split: list.splits)
  qed
qed (simp add: split_on_no_occ)

lemma split_on_aligned:
  assumes "a = [] \<or> last a = newline"
  shows "split_on newline a = text_lines a @ [[]]"
proof -
  have "split_on newline (a @ []) = butlast (split_on newline a) @ [[]]"
    using assms by (intro split_on_append_line) auto
  then show ?thesis by (metis append.right_neutral butlast_snoc last_snoc text_lines_def)
qed

lemma text_lines_append_line:
  assumes "newline \<notin> set l" and "a = [] \<or> last a = newline"
  shows "text_lines (a @ l @ [newline]) = text_lines a @ [l]"
proof -
  have "split_on newline (a @ l @ [newline]) = butlast (split_on newline a) @ [l, []]"
    using assms
  proof (induction a)
    case Nil
    then show ?case using split_on_append_sep [of newline l "[]"] by simp
  next
    case (Cons x a)
    show ?case
    proof (cases a)
      case Nil
      with Cons.prems show ?thesis using split_on_append_sep [of newline l "[]"] by simp
    next
      case (Cons y b)
      with Cons.IH Cons.prems
      have IH: "split_on newline (a @ l @ [newline]) = butlast (split_on newline a) @ [l, []]" by simp
      have "split_on newline a = text_lines a @ [[]]"
        using Cons Cons.prems(2) by (intro split_on_aligned) auto
      moreover have "text_lines a \<noteq> []"
        using calculation Cons by (metis append_Nil join.simps(2) join_split_on list.distinct(1))
      ultimately show ?thesis using IH by (cases "text_lines a") (auto split: list.splits)
    qed
  qed
  then show ?thesis
    unfolding text_lines_def [of "a @ l @ [newline]"] by (simp add: split_on_aligned [OF assms(2)] butlast_append)
qed

lemma text_lines_append_torn:
  assumes "newline \<notin> set l" and "a = [] \<or> last a = newline"
  shows "text_lines (a @ l) = (if l = [] then text_lines a else text_lines a @ [l])"
  unfolding text_lines_def [of "a @ l"]
  by (simp add: split_on_append_line [OF assms] split_on_aligned [OF assms(2)])

section \<open>Loading what was appended\<close>

lemma ops_fold_load_line:
  "ops (fold (load_line de) ls s) =
     ops s @ List.map_filter (\<lambda>l. if trim l = [] then None else de (trim l)) ls"
  by (induction ls arbitrary: s)
    (auto simp: load_line_def opset_push_def Let_def split: option.splits)

lemma ops_load:
  "ops (load de file) =
     (case file of None \<Rightarrow> []
      | Some c \<Rightarrow> List.map_filter (\<lambda>l. if trim l = [] then None else de (trim l)) (text_lines c))"
  by (simp add: load_def ops_fold_load_line opset_new_def split: option.splits)

lemma map_filter_append:
  "List.map_filter f (xs @ ys) = List.map_filter f xs @ List.map_filter f ys"
  by (induction xs) (auto split: option.splits)

lemma ops_load_record:
  assumes "newline \<notin> set l" and "trim l \<noteq> []" and "de (trim l) = Some op"
    and "c = [] \<or> last c = newline"
  shows "ops (load de (Some (c @ l @ [newline]))) = ops (load de (Some c)) @ [op]"
    and "ops (load de (Some (c @ l))) = ops (load de (Some c)) @ [op]"
proof -
  have "l \<noteq> []" using assms(2) by (auto simp: trim_def trim_matches_def)
  then show "ops (load de (Some (c @ l))) = ops (load de (Some c)) @ [op]"
    using assms text_lines_append_torn [OF assms(1,4)] by (simp add: ops_load map_filter_append)
  show "ops (load de (Some (c @ l @ [newline]))) = ops (load de (Some c)) @ [op]"
    using assms text_lines_append_line [OF assms(1,4)] by (simp add: ops_load map_filter_append)
qed

lemma ops_load_torn:
  assumes "newline \<notin> set l" and "trim l = [] \<or> de (trim l) = None" and "c = [] \<or> last c = newline"
  shows "ops (load de (Some (c @ l))) = ops (load de (Some c))"
  using assms(2) text_lines_append_torn [OF assms(1,3)]
  by (auto simp: ops_load map_filter_append)

lemma serde_okE:
  assumes "serde_ok ser de S" and "op \<in> S"
  obtains l where "ser op = Some l" "newline \<notin> set l" "trim l \<noteq> []" "de (trim l) = Some op"
    "\<And>n. n < length l \<Longrightarrow> trim (take n l) = [] \<or> de (trim (take n l)) = None"
  using assms unfolding serde_ok_def by blast

text \<open>The outcome of the write loop under any disk behaviour: a prefix of the batch.\<close>

lemma append_records_prefix:
  assumes "serde_ok ser de (set os)" and "c = [] \<or> last c = newline"
  shows "\<exists>k\<le>length os. ops (load de (Some (snd (append_records ser wr i c os)))) =
        ops (load de (Some c)) @ take k os
      \<and> (fst (append_records ser wr i c os) = Inr () \<longrightarrow>
           k = length os \<and> line_aligned (Some (snd (append_records ser wr i c os))))"
  using assms
proof (induction os arbitrary: i c)
  case Nil
  then show ?case by (simp add: line_aligned_def)
next
  case (Cons op os)
  obtain l where l: "ser op = Some l" "newline \<notin> set l" "trim l \<noteq> []" "de (trim l) = Some op"
    "\<And>n. n < length l \<Longrightarrow> trim (take n l) = [] \<or> de (trim (take n l)) = None"
    using Cons.prems(1) by (rule serde_okE) auto
  note rec = ops_load_record [where de = de and c = c, OF l(2) l(3) l(4) Cons.prems(2)]
  show ?case
  proof (cases "wr i")
    case None
    let ?c = "c @ l @ [newline]"
    have "serde_ok ser de (set os)" using Cons.prems(1) by (simp add: serde_ok_def)
    then obtain k where "k \<le> length os"
      "ops (load de (Some (snd (append_records ser wr (Suc i) ?c os)))) = ops (load de (Some ?c)) @ take k os"
      "fst (append_records ser wr (Suc i) ?c os) = Inr () \<longrightarrow> k = length os
         \<and> line_aligned (Some (snd (append_records ser wr (Suc i) ?c os)))"
      using Cons.IH [of ?c "Suc i"] by auto
    with None l(1) rec(1) show ?thesis by (intro exI [of _ "Suc k"]) simp
  next
    case (Some n)
    consider "n < length l" | "n = length l" | "length l < n" by linarith
    then show ?thesis
    proof cases
      case 1
      have "newline \<notin> set (take n l)" using l(2) by (meson in_set_takeD)
      with 1 Some l(1) l(5) [OF 1] Cons.prems(2) show ?thesis
        by (intro exI [of _ 0]) (simp add: ops_load_torn)
    next
      case 2
      with Some l(1) rec(2) show ?thesis by (intro exI [of _ "Suc 0"]) simp
    next
      case 3
      with Some l(1) rec(1) show ?thesis by (intro exI [of _ "Suc 0"]) simp
    qed
  qed
qed

lemma append_records_perfect:
  assumes "serde_ok ser de (set os)" and "\<And>i. wr i = None"
  shows "fst (append_records ser wr k c os) = Inr ()"
  using assms
proof (induction os arbitrary: k c)
  case (Cons op os)
  obtain l where "ser op = Some l" using Cons.prems(1) by (rule serde_okE) auto
  moreover have "serde_ok ser de (set os)" using Cons.prems(1) by (simp add: serde_ok_def)
  ultimately show ?case using Cons.IH Cons.prems(2) by simp
qed simp

lemma load_file_text: "load de file = load de (Some (case file of None \<Rightarrow> [] | Some c \<Rightarrow> c))"
  by (simp add: load_def split: option.splits)

text \<open>A serializer for three operations, for concrete runs.\<close>

definition demo_op :: "NodeId \<Rightarrow> Op" where
  "demo_op n = new_text vc_new (principal_service n) ''f.rs'' ''sha'' ''edit''"

definition demo_ser :: "Op \<Rightarrow> string option" where
  "demo_ser op = Some (''{'' @ oi_node (op_id op) @ ''}'')"

definition demo_de :: "string \<Rightarrow> Op option" where
  "demo_de s = (if s = ''{a}'' then Some (demo_op ''a'')
     else if s = ''{b}'' then Some (demo_op ''b'') else None)"

lemma op_id_demo [simp]: "op_id (demo_op n) = OpId n 1"
  by (simp add: demo_op_def new_text_def principal_service_def vc_increment_def Let_def vc_new_def vc_get_def)

lemma serde_ok_demo_one:
  assumes "demo_ser op = Some [CHR ''{'', c, CHR ''}'']" and "demo_de [CHR ''{'', c, CHR ''}''] = Some op"
    and "\<not> is_whitespace c" and "c \<noteq> newline"
  shows "\<exists>l. demo_ser op = Some l \<and> newline \<notin> set l \<and> trim l \<noteq> [] \<and> demo_de (trim l) = Some op
    \<and> (\<forall>n<length l. trim (take n l) = [] \<or> demo_de (trim (take n l)) = None)"
proof -
  let ?l = "[CHR ''{'', c, CHR ''}'']"
  have "trim (take n ?l) = [] \<or> demo_de (trim (take n ?l)) = None" if "n < 3" for n
  proof -
    have "length (trim (take n ?l)) \<noteq> 3"
      using length_trim [of "take n ?l"] that by (simp add: min_def split: if_splits)
    then show ?thesis by (auto simp: demo_de_def)
  qed
  moreover have "trim ?l = ?l" using assms(3) by (simp add: trim_def trim_matches_def is_whitespace_def)
  ultimately show ?thesis using assms
    by (intro exI [of _ ?l]) (simp add: newline_def numeral_3_eq_3)
qed

lemma serde_ok_demo: "serde_ok demo_ser demo_de {demo_op ''a'', demo_op ''b''}"
  unfolding serde_ok_def ball_simps
proof (intro conjI TrueI)
  show "\<exists>l. demo_ser (demo_op ''a'') = Some l \<and> newline \<notin> set l \<and> trim l \<noteq> []
    \<and> demo_de (trim l) = Some (demo_op ''a'')
    \<and> (\<forall>n<length l. trim (take n l) = [] \<or> demo_de (trim (take n l)) = None)"
    by (rule serde_ok_demo_one [of _ "CHR ''a''"])
      (simp_all add: demo_ser_def demo_de_def newline_def is_whitespace_def)
  show "\<exists>l. demo_ser (demo_op ''b'') = Some l \<and> newline \<notin> set l \<and> trim l \<noteq> []
    \<and> demo_de (trim l) = Some (demo_op ''b'')
    \<and> (\<forall>n<length l. trim (take n l) = [] \<or> demo_de (trim (take n l)) = None)"
    by (rule serde_ok_demo_one [of _ "CHR ''b''"])
      (simp_all add: demo_ser_def demo_de_def newline_def is_whitespace_def)
qed

lemma append_many_result:
  assumes "serde_ok ser de (set os)" and "line_aligned file"
  shows "\<exists>k\<le>length os. ops (load de (snd (append_many ser d file os))) = ops (load de file) @ take k os
    \<and> (fst (append_many ser d file os) = Inr () \<longrightarrow>
         k = length os \<and> line_aligned (snd (append_many ser d file os)))"
proof -
  let ?c = "case file of None \<Rightarrow> [] | Some c \<Rightarrow> c"
  have al: "?c = [] \<or> last ?c = newline" using assms(2) by (simp add: line_aligned_def split: option.splits)
  show ?thesis
  proof (cases "os = [] \<or> \<not> io_open d")
    case True
    with assms(2) show ?thesis by (auto simp: append_many_def)
  next
    case False
    have am: "fst (append_many ser d file os) = fst (append_records ser (io_write d) 0 ?c os)"
      "snd (append_many ser d file os) = Some (snd (append_records ser (io_write d) 0 ?c os))"
      using False by (simp_all add: append_many_def case_prod_beta)
    show ?thesis unfolding am load_file_text [of de "file"] by (rule append_records_prefix [OF assms(1) al])
  qed
qed

lemma append_many_perfect:
  assumes "serde_ok ser de (set os)"
  shows "fst (append_many ser io_perfect f os) = Inr ()"
  using append_records_perfect [OF assms] by (auto simp: append_many_def io_perfect_def case_prod_beta)

section \<open>Appending under any disk\<close>

text \<open>
  What stopped writes leave at the end of a file: an open line of pieces, each the start of a record.
  The assumption on the parser is that two pieces spliced together are no record.
\<close>

definition pieces :: "(Op \<Rightarrow> string option) \<Rightarrow> Op set \<Rightarrow> string list \<Rightarrow> bool" where
  "pieces ser S ps \<longleftrightarrow> (\<forall>p\<in>set ps. p \<noteq> [] \<and> (\<exists>op\<in>S. \<exists>l n. ser op = Some l \<and> p = take n l))"

definition splice_ok :: "(Op \<Rightarrow> string option) \<Rightarrow> (string \<Rightarrow> Op option) \<Rightarrow> Op set \<Rightarrow> bool" where
  "splice_ok ser de S \<longleftrightarrow> (\<forall>ps. pieces ser S ps \<longrightarrow> 2 \<le> length ps \<longrightarrow> de (trim (concat ps)) = None)"

definition torn_form :: "(Op \<Rightarrow> string option) \<Rightarrow> Op set \<Rightarrow> string option \<Rightarrow> bool" where
  "torn_form ser S file \<longleftrightarrow> (\<exists>c ps. (case file of None \<Rightarrow> [] | Some c \<Rightarrow> c) = c @ concat ps
     \<and> (c = [] \<or> last c = newline) \<and> pieces ser S ps)"

definition open_ops :: "(string \<Rightarrow> Op option) \<Rightarrow> string \<Rightarrow> Op list" where
  "open_ops de t = (if trim t = [] then [] else (case de (trim t) of None \<Rightarrow> [] | Some op \<Rightarrow> [op]))"

lemma open_ops_Nil [simp]: "open_ops de [] = []"
  by (simp add: open_ops_def trim_def trim_matches_def)

lemma torn_form_None [simp]: "torn_form ser S None"
  unfolding torn_form_def by (rule exI [of _ "[]"], rule exI [of _ "[]"]) (simp add: pieces_def)

lemma ops_load_open:
  assumes "newline \<notin> set t" "c = [] \<or> last c = newline"
  shows "ops (load de (Some (c @ t))) = ops (load de (Some c)) @ open_ops de t"
    "ops (load de (Some (c @ t @ [newline]))) = ops (load de (Some c)) @ open_ops de t"
proof -
  have one: "List.map_filter (\<lambda>l. if trim l = [] then None else de (trim l)) [t] = open_ops de t"
    by (simp add: open_ops_def map_filter_simps split: option.split)
  show "ops (load de (Some (c @ t))) = ops (load de (Some c)) @ open_ops de t"
    using text_lines_append_torn [OF assms] one by (simp add: ops_load map_filter_append)
  show "ops (load de (Some (c @ t @ [newline]))) = ops (load de (Some c)) @ open_ops de t"
    using text_lines_append_line [OF assms] one by (simp add: ops_load map_filter_append)
qed

lemma open_ops_record:
  assumes "serde_ok ser de S" "op \<in> S" "ser op = Some l"
  shows "open_ops de l = [op]" "n < length l \<Longrightarrow> open_ops de (take n l) = []" "l \<noteq> []" "newline \<notin> set l"
proof -
  from assms(1,2) obtain l' where l': "ser op = Some l'" "newline \<notin> set l'" "trim l' \<noteq> []" "de (trim l') = Some op"
    "\<And>n. n < length l' \<Longrightarrow> trim (take n l') = [] \<or> de (trim (take n l')) = None" unfolding serde_ok_def by blast
  moreover have "l' = l" using assms(3) l'(1) by simp
  ultimately show "open_ops de l = [op]" "newline \<notin> set l" by (simp_all add: open_ops_def)
  show "open_ops de (take n l) = []" if "n < length l"
    using l'(5) [of n] that \<open>l' = l\<close> by (auto simp: open_ops_def)
  show "l \<noteq> []" using l'(3) \<open>l' = l\<close> by (auto simp: trim_def trim_matches_def)
qed

lemma pieces_line: "serde_ok ser de S \<Longrightarrow> pieces ser S ps \<Longrightarrow> newline \<notin> set (concat ps)"
  unfolding pieces_def using open_ops_record(4) by (fastforce dest: in_set_takeD)

lemma pieces_snoc: "pieces ser S ps \<Longrightarrow> op \<in> S \<Longrightarrow> ser op = Some l \<Longrightarrow> take n l \<noteq> [] \<Longrightarrow> pieces ser S (ps @ [take n l])"
  unfolding pieces_def by auto

lemma splice_open_ops:
  "splice_ok ser de S \<Longrightarrow> pieces ser S (ps @ [p]) \<Longrightarrow> ps \<noteq> [] \<Longrightarrow> open_ops de (concat ps @ p) = []"
  unfolding splice_ok_def open_ops_def by (drule spec [of _ "ps @ [p]"]) (cases ps, auto)

lemma open_ops_one: "open_ops de t = [] \<or> (\<exists>op. open_ops de t = [op])"
  by (simp add: open_ops_def split: option.split)

text \<open>
  One append to such a file, with any disk: the log a reload sees is the old one, or has the operation
  at the end, or has lost its last operation, whose line was still open.
\<close>

lemma append_one_torn:
  assumes serde: "serde_ok ser de S" and splice: "splice_ok ser de S" and op: "op \<in> S" and form: "torn_form ser S file"
    and file'_def: "file' = snd (store_append ser d file op)"
  shows "torn_form ser S file' \<and> ops (load de file') \<in> {ops (load de file), ops (load de file) @ [op], butlast (ops (load de file))}"
proof -
  obtain l where l: "ser op = Some l" using serde op by (auto simp: serde_ok_def)
  note rec = open_ops_record [OF serde op l]
  obtain c ps where c: "(case file of None \<Rightarrow> [] | Some c \<Rightarrow> c) = c @ concat ps" "c = [] \<or> last c = newline" "pieces ser S ps"
    using form by (auto simp: torn_form_def)
  let ?t = "concat ps"
  have nt: "newline \<notin> set ?t" by (rule pieces_line [OF serde c(3)])
  have old: "ops (load de file) = ops (load de (Some c)) @ open_ops de ?t"
    unfolding load_file_text [of de "file"] c(1) by (rule ops_load_open(1) [OF nt c(2)])
  have base: "ops (load de (Some c)) \<in> {ops (load de file), butlast (ops (load de file))}"
    using open_ops_one [of de ?t] old by auto
  have form': "torn_form ser S (Some (c' @ concat qs))" if "c' = [] \<or> last c' = newline" "pieces ser S qs" for c' qs
    using that unfolding torn_form_def by auto
  have whole: "torn_form ser S (Some (c @ ?t @ l @ [newline]))
    \<and> ops (load de (Some (c @ ?t @ l @ [newline]))) \<in> {ops (load de file), ops (load de file) @ [op], butlast (ops (load de file))}"
  proof -
    have "torn_form ser S (Some (c @ ?t @ l @ [newline]))" using form' [of "c @ ?t @ l @ [newline]" "[]"] by (simp add: pieces_def)
    moreover have new: "ops (load de (Some (c @ ?t @ l @ [newline]))) = ops (load de (Some c)) @ open_ops de (?t @ l)"
      using ops_load_open(2) [of "?t @ l" c de] nt rec(4) c(2) by simp
    moreover have "ops (load de (Some (c @ ?t @ l @ [newline]))) \<in> {ops (load de file), ops (load de file) @ [op], butlast (ops (load de file))}"
    proof (cases "ps = []")
      case True
      with new old rec(1) show ?thesis by simp
    next
      case False
      have "pieces ser S (ps @ [l])" using pieces_snoc [OF c(3) op l, of "length l"] rec(3) by simp
      with splice_open_ops [OF splice _ False] have "open_ops de (?t @ l) = []" by blast
      with new base show ?thesis by auto
    qed
    ultimately show ?thesis by simp
  qed
  have part: "torn_form ser S (Some (c @ ?t @ take n l))
    \<and> ops (load de (Some (c @ ?t @ take n l))) \<in> {ops (load de file), ops (load de file) @ [op], butlast (ops (load de file))}" if n: "n \<le> length l" for n
  proof (cases "take n l = []")
    case True
    have "torn_form ser S (Some (c @ ?t))" by (rule form' [OF c(2,3)])
    moreover have "ops (load de (Some (c @ ?t))) = ops (load de file)" using old ops_load_open(1) [OF nt c(2)] by simp
    ultimately show ?thesis unfolding True by simp
  next
    case False
    note ps = pieces_snoc [OF c(3) op l False]
    have "torn_form ser S (Some (c @ ?t @ take n l))" using form' [OF c(2) ps] by simp
    moreover have new: "ops (load de (Some (c @ ?t @ take n l))) = ops (load de (Some c)) @ open_ops de (?t @ take n l)"
      using ops_load_open(1) [of "?t @ take n l" c de] pieces_line [OF serde ps] c(2) by simp
    moreover have "ops (load de (Some (c @ ?t @ take n l))) \<in> {ops (load de file), ops (load de file) @ [op], butlast (ops (load de file))}"
    proof (cases "ps = []")
      case True
      with new old rec(1) rec(2) [of n] n show ?thesis by (cases "n < length l") auto
    next
      case False
      with splice_open_ops [OF splice ps] have "open_ops de (?t @ take n l) = []" by blast
      with new base show ?thesis by auto
    qed
    ultimately show ?thesis by simp
  qed
  have stay: "torn_form ser S file \<and> ops (load de file) \<in> {ops (load de file), ops (load de file) @ [op], butlast (ops (load de file))}"
    using form by simp
  consider "file' = file" | "file' = Some (c @ ?t @ l @ [newline])" | n where "n \<le> length l" "file' = Some (c @ ?t @ take n l)"
  proof (cases "io_open d")
    case False
    then have "file' = file" by (simp add: file'_def store_append_def append_many_def)
    then show thesis by (rule that(1))
  next
    case True
    show thesis
    proof (cases "io_write d 0")
      case None
      with True l c(1) have "file' = Some (c @ ?t @ l @ [newline])" by (simp add: file'_def store_append_def append_many_def)
      then show thesis by (rule that(2))
    next
      case (Some n)
      with True l c(1) have f: "file' = Some (c @ ?t @ take n (l @ [newline]))" by (simp add: file'_def store_append_def append_many_def)
      show thesis
      proof (cases "n \<le> length l")
        case True
        with f that(3) [of n] show thesis by simp
      next
        case False
        then have "take n (l @ [newline]) = l @ [newline]" by simp
        with f that(2) show thesis by simp
      qed
    qed
  qed
  then show ?thesis using stay whole part by cases simp_all
qed

section \<open>Properties\<close>

text \<open>
  C33. Crash safety of one call on a log that ends at a line boundary: whatever the disk does (the
  file does not open, a write stops after any number of bytes), the log that a reload sees afterwards
  is the log from before followed by a prefix of the batch, and by the whole batch when the call
  reports success; the file then ends at a line boundary again.  A log that a stopped write left
  inside a line is outside this: the next call, even on a working disk, loses the first record of its
  batch and reports success (\<open>torn_append_loses_next\<close>), and with it an unended last record
  (\<open>unended_append_loses_both\<close>).
\<close>

theorem append_many_crash_safe:
  assumes "serde_ok ser de (set os)" and "line_aligned file"
  shows "\<exists>k\<le>length os. ops (load de (snd (append_many ser d file os))) = ops (load de file) @ take k os
    \<and> (fst (append_many ser d file os) = Inr () \<longrightarrow>
         k = length os \<and> line_aligned (snd (append_many ser d file os)))"
  using assms by (rule append_many_result)

theorem append_many_crash_safe_witness:
  "\<exists>k\<le>2. ops (load demo_de (snd (append_many demo_ser \<lparr>io_open = True, io_write = (\<lambda>i. if i = 1 then Some 2 else None)\<rparr>
      None [demo_op ''a'', demo_op ''b'']))) = take k [demo_op ''a'', demo_op ''b'']"
proof -
  have "serde_ok demo_ser demo_de (set [demo_op ''a'', demo_op ''b''])" using serde_ok_demo by simp
  moreover have "line_aligned None" by (simp add: line_aligned_def)
  ultimately show ?thesis
    using append_many_crash_safe [of demo_ser demo_de "[demo_op ''a'', demo_op ''b'']" None
        "\<lparr>io_open = True, io_write = (\<lambda>i. if i = 1 then Some 2 else None)\<rparr>"]
    by (auto simp: load_def [of _ None] opset_new_def numeral_2_eq_2)
qed

text \<open>
  Durability round trip: on a working disk an append reports success and the reloaded log
  is the old one followed by exactly the appended operations, and appending one batch after
  another loses nothing; the materialized view of the reloaded file is the fold of those
  operations.
\<close>

theorem append_many_round_trip:
  assumes "serde_ok ser de (set os \<union> set os')" and "line_aligned file"
  shows "let (r, f) = append_many ser io_perfect file os;
             (r', f') = append_many ser io_perfect f os'
         in r = Inr () \<and> r' = Inr () \<and> load de f' = OpSet (ops (load de file) @ os @ os')
           \<and> store_materialize de f' = materialize (OpSet (ops (load de file) @ os @ os'))"
proof -
  have ok: "serde_ok ser de (set os)" "serde_ok ser de (set os')"
    using assms(1) by (auto simp: serde_ok_def)
  note succ = append_many_perfect
  let ?f = "snd (append_many ser io_perfect file os)"
  have 1: "ops (load de ?f) = ops (load de file) @ os" "line_aligned ?f"
    using append_many_result [OF ok(1) assms(2), of io_perfect] succ [OF ok(1)] by auto
  have 2: "ops (load de (snd (append_many ser io_perfect ?f os'))) = ops (load de ?f) @ os'"
    using append_many_result [OF ok(2) 1(2), of io_perfect] succ [OF ok(2)] by auto
  have "load de (snd (append_many ser io_perfect ?f os')) = OpSet (ops (load de file) @ os @ os')"
    using 1(1) 2 by (intro OpSet.expand) simp
  then show ?thesis using succ ok by (simp add: store_materialize_def case_prod_beta)
qed

theorem append_many_round_trip_witness:
  "load demo_de (snd (append_many demo_ser io_perfect
      (snd (append_many demo_ser io_perfect None [demo_op ''a''])) [demo_op ''b'']))
    = OpSet [demo_op ''a'', demo_op ''b'']"
proof -
  have "serde_ok demo_ser demo_de (set [demo_op ''a''] \<union> set [demo_op ''b''])" using serde_ok_demo by (simp add: insert_commute)
  moreover have "line_aligned None" by (simp add: line_aligned_def)
  ultimately show ?thesis
    using append_many_round_trip [of demo_ser demo_de "[demo_op ''a'']" "[demo_op ''b'']" None]
    by (simp add: case_prod_beta load_def [of _ None] opset_new_def Let_def)
qed

text \<open>
  A torn record costs the next one: when a write stops inside a record, the next append,
  on a working disk, reports success, but its record is spliced onto the half line and a reload
  sees neither operation (as long as the spliced text does not parse).
\<close>

theorem torn_append_loses_next:
  assumes "serde_ok ser de {a, b}" and "line_aligned file"
    and "ser a = Some la" and "ser b = Some lb" and "n < length la"
    and "de (trim (take n la @ lb)) = None"
    and "io_open d" and "io_write d 0 = Some n"
  shows "let (r, f) = store_append ser d file a;
             (r', f') = store_append ser io_perfect f b
         in r = Inl WriteFailed \<and> r' = Inr () \<and> ops (load de f') = ops (load de file)"
proof -
  let ?c = "case file of None \<Rightarrow> [] | Some c \<Rightarrow> c"
  have al: "?c = [] \<or> last ?c = newline" using assms(2) by (simp add: line_aligned_def split: option.splits)
  have nl: "newline \<notin> set (take n la @ lb)"
  proof -
    have "newline \<notin> set la" "newline \<notin> set lb" using assms(1,3,4) by (auto simp: serde_ok_def)
    then show ?thesis by (auto dest: in_set_takeD)
  qed
  have "store_append ser d file a = (Inl WriteFailed, Some (?c @ take n la))"
    using assms by (simp add: store_append_def append_many_def)
  moreover have "store_append ser io_perfect (Some (?c @ take n la)) b =
      (Inr (), Some (?c @ (take n la @ lb) @ [newline]))"
    using assms(4) by (simp add: store_append_def append_many_def io_perfect_def)
  moreover have "ops (load de (Some (?c @ (take n la @ lb) @ [newline]))) = ops (load de file)"
    unfolding load_file_text [of de "file"]
    using assms(6) text_lines_append_line [OF nl al] by (simp add: ops_load map_filter_append)
  ultimately show ?thesis by simp
qed

theorem torn_append_loses_next_witness:
  "let d = \<lparr>io_open = True, io_write = (\<lambda>_. Some 2)\<rparr>;
       f = snd (store_append demo_ser d None (demo_op ''a''));
       f' = snd (store_append demo_ser io_perfect f (demo_op ''b''))
   in ops (load demo_de f') = []"
proof -
  have "line_aligned None" by (simp add: line_aligned_def)
  with serde_ok_demo
  have "let (r, f) = store_append demo_ser \<lparr>io_open = True, io_write = (\<lambda>_. Some 2)\<rparr> None (demo_op ''a'');
            (r', f') = store_append demo_ser io_perfect f (demo_op ''b'')
        in r = Inl WriteFailed \<and> r' = Inr () \<and> ops (load demo_de f') = ops (load demo_de None)"
    by (rule torn_append_loses_next [where la = "''{a}''" and lb = "''{b}''" and n = 2])
      (simp_all add: demo_ser_def demo_de_def trim_def trim_matches_def is_whitespace_def)
  then show ?thesis by (simp add: case_prod_beta Let_def load_def [of _ None] opset_new_def)
qed

text \<open>
  When only the line break is missing, a reload sees the record of the failed call; the next append,
  on a working disk, reports success and destroys both.
\<close>

lemma unended_append_loses_both:
  assumes "serde_ok ser de {a, b}" and "line_aligned file"
    and "ser a = Some la" and "ser b = Some lb"
    and "de (trim (la @ lb)) = None"
    and "io_open d" and "io_write d 0 = Some (length la)"
  shows "let (r, f) = store_append ser d file a;
             (r', f') = store_append ser io_perfect f b
         in r = Inl WriteFailed \<and> r' = Inr () \<and> ops (load de f) = ops (load de file) @ [a] \<and> ops (load de f') = ops (load de file)"
proof -
  let ?c = "case file of None \<Rightarrow> [] | Some c \<Rightarrow> c"
  have al: "?c = [] \<or> last ?c = newline" using assms(2) by (simp add: line_aligned_def split: option.splits)
  have l: "newline \<notin> set la" "newline \<notin> set lb" "trim la \<noteq> []" "de (trim la) = Some a" using assms(1,3,4) by (auto simp: serde_ok_def)
  have f: "store_append ser d file a = (Inl WriteFailed, Some (?c @ la))"
    using assms by (simp add: store_append_def append_many_def)
  have "ops (load de (Some (?c @ la))) = ops (load de file) @ [a]"
    unfolding load_file_text [of de "file"] by (rule ops_load_record(2) [where de = de, OF l(1) l(3) l(4) al])
  moreover have "store_append ser io_perfect (Some (?c @ la)) b = (Inr (), Some (?c @ (la @ lb) @ [newline]))"
    using assms(4) by (simp add: store_append_def append_many_def io_perfect_def)
  moreover have "ops (load de (Some (?c @ (la @ lb) @ [newline]))) = ops (load de file)"
    unfolding load_file_text [of de "file"]
    using assms(5) text_lines_append_line [of "la @ lb", OF _ al] l(1,2) by (simp add: ops_load map_filter_append)
  ultimately show ?thesis using f by simp
qed

end
