(* ===== verification/Replication.thy ===== *)
theory Replication
  imports Op_Log_Store
begin

text \<open>
  Cross-node replication (\<open>velocity-mcp/src/automation/replication.rs\<close>): the view of a
  log, the filter \<open>needs\<close>, the idempotent merge into the durable log and both halves of an
  exchange.  The durable log is a file of \<open>Op_Log_Store\<close>, so every function takes the
  serializer and the disk as arguments.  The lemmas on causal logs say when the filter ships
  exactly what a peer lacks; the network that keeps logs causal is \<open>Replication_Net\<close>.
\<close>

section \<open>The exchange\<close>

record ReplicationView =
  rv_observed :: VectorClock
  rv_seen_ids :: "OpId list"

definition from_log :: "OpSet \<Rightarrow> ReplicationView" where
  "from_log ops_log =
     fold (\<lambda>op v. \<lparr>rv_observed = vc_merge (rv_observed v) (op_clock op),
                    rv_seen_ids = List.insert (op_id op) (rv_seen_ids v)\<rparr>)
       (ops ops_log) \<lparr>rv_observed = vc_new, rv_seen_ids = []\<rparr>"

definition from_wire :: "VectorClock \<Rightarrow> OpId list \<Rightarrow> ReplicationView" where
  "from_wire clock ids =
     \<lparr>rv_observed = fold (\<lambda>i c. vc_set_max c (oi_node i) (oi_counter i)) ids clock,
      rv_seen_ids = remdups ids\<rparr>"

definition needs :: "ReplicationView \<Rightarrow> VectorClock \<Rightarrow> OpId \<Rightarrow> bool" where
  "needs v clock i =
     (if i \<in> set (rv_seen_ids v) then False
      else (case vc_compare (rv_observed v) clock of
              Before \<Rightarrow> True
            | Concurrent \<Rightarrow> True
            | _ \<Rightarrow> vc_get (rv_observed v) (oi_node i) < oi_counter i))"

record OpsExchangeRequest =
  rq_from_node :: string
  rq_observed :: VectorClock
  rq_ops :: "Op list"
  rq_seen_ids :: "OpId list"

record OpsExchangeResponse =
  rs_merged :: nat
  rs_skipped :: nat
  rs_ops :: "Op list"
  rs_observed :: VectorClock

text \<open>One iteration of the loop of \<open>merge_remote_ops\<close>: the ids seen, the operations to
  append and the number skipped.\<close>

definition merge_step :: "Op \<Rightarrow> OpId list \<times> Op list \<times> nat \<Rightarrow> OpId list \<times> Op list \<times> nat" where
  "merge_step op acc =
     (case acc of (seen, to_append, skipped) \<Rightarrow>
        if op_id op \<in> set seen then (seen, to_append, skipped + 1)
        else (List.insert (op_id op) seen, to_append @ [op], skipped))"

definition merge_remote_ops ::
  "(Op \<Rightarrow> string option) \<Rightarrow> (string \<Rightarrow> Op option) \<Rightarrow> io \<Rightarrow> string option \<Rightarrow> OpsExchangeRequest
     \<Rightarrow> (nat \<times> nat) \<times> string option" where
  "merge_remote_ops ser de d store request =
     (let view = from_log (load de store);
          (_, to_append, skipped) = fold merge_step (rq_ops request) (rv_seen_ids view, [], 0);
          appended = length to_append;
          (r, store') = append_many ser d store to_append
      in (case r of Inl _ \<Rightarrow> ((0, skipped), store') | Inr _ \<Rightarrow> ((appended, skipped), store')))"

definition ops_for_peer :: "OpSet \<Rightarrow> ReplicationView \<Rightarrow> Op list" where
  "ops_for_peer ops_log peer = filter (\<lambda>op. needs peer (op_clock op) (op_id op)) (ops ops_log)"

definition handle_exchange ::
  "(Op \<Rightarrow> string option) \<Rightarrow> (string \<Rightarrow> Op option) \<Rightarrow> io \<Rightarrow> string option \<Rightarrow> OpsExchangeRequest
     \<Rightarrow> OpsExchangeResponse \<times> string option" where
  "handle_exchange ser de d store request =
     (let ((merged, skipped), store') = merge_remote_ops ser de d store request;
          local = load de store';
          view = from_log local;
          peer_view = from_wire (rq_observed request) (rq_seen_ids request)
      in (\<lparr>rs_merged = merged, rs_skipped = skipped, rs_ops = ops_for_peer local peer_view,
            rs_observed = rv_observed view\<rparr>, store'))"

section \<open>Views and merges as functions of the log\<close>

definition ids :: "Op list \<Rightarrow> OpId set" where
  "ids os = op_id ` set os"

lemma ids_simps [simp]:
  "ids [] = {}" "ids (op # os) = insert (op_id op) (ids os)" "ids (os @ os') = ids os \<union> ids os'"
  by (auto simp: ids_def)

lemma from_log_snoc:
  "from_log (OpSet (os @ [op])) =
     \<lparr>rv_observed = vc_merge (rv_observed (from_log (OpSet os))) (op_clock op),
      rv_seen_ids = List.insert (op_id op) (rv_seen_ids (from_log (OpSet os)))\<rparr>"
  by (simp add: from_log_def)

lemma from_log_Nil: "from_log (OpSet []) = \<lparr>rv_observed = vc_new, rv_seen_ids = []\<rparr>"
  by (simp add: from_log_def)

lemma seen_from_log [simp]: "set (rv_seen_ids (from_log ops_log)) = ids (ops ops_log)"
proof (cases ops_log)
  case (OpSet os)
  show ?thesis unfolding OpSet
    by (induction os rule: rev_induct) (auto simp: from_log_Nil from_log_snoc)
qed

lemma vc_ok_observed: "vc_ok (rv_observed (from_log ops_log))"
proof (cases ops_log)
  case (OpSet os)
  show ?thesis unfolding OpSet
    by (induction os rule: rev_induct) (auto simp: from_log_Nil from_log_snoc)
qed

abbreviation observed :: "Op list \<Rightarrow> VectorClock" where
  "observed os \<equiv> rv_observed (from_log (OpSet os))"

lemma vc_get_observed_snoc:
  "vc_ok (op_clock op) \<Longrightarrow>
     vc_get (observed (os @ [op])) n = max (vc_get (observed os) n) (vc_get (op_clock op) n)"
  by (simp add: from_log_snoc vc_get_merge)

lemma observed_upper:
  "\<forall>op\<in>set os. vc_ok (op_clock op) \<Longrightarrow> op \<in> set os \<Longrightarrow> vc_get (op_clock op) n \<le> vc_get (observed os) n"
proof (induction os rule: rev_induct)
  case (snoc x xs)
  have "vc_get (op_clock op) n \<le> vc_get (observed xs) n \<or> op = x" using snoc by auto
  then show ?case using snoc.prems(1) by (auto simp: vc_get_observed_snoc intro: max.coboundedI1)
qed simp

lemma observed_attained:
  "\<forall>op\<in>set os. vc_ok (op_clock op) \<Longrightarrow>
     vc_get (observed os) n = 0 \<or> (\<exists>op\<in>set os. vc_get (observed os) n = vc_get (op_clock op) n)"
proof (induction os rule: rev_induct)
  case (snoc x xs)
  then show ?case by (auto simp: vc_get_observed_snoc max_def)
qed (simp add: from_log_Nil)

text \<open>The operations a merge appends: those with new ids, the first of each id.\<close>

fun fresh_ops :: "OpId set \<Rightarrow> Op list \<Rightarrow> Op list" where
  "fresh_ops seen [] = []"
| "fresh_ops seen (op # os) =
     (if op_id op \<in> seen then fresh_ops seen os else op # fresh_ops (insert (op_id op) seen) os)"

lemma fold_merge_step:
  "\<exists>seen' skipped'. fold merge_step os (seen, acc, skipped) =
       (seen', acc @ fresh_ops (set seen) os, skipped')
     \<and> skipped' + length (fresh_ops (set seen) os) = skipped + length os"
proof (induction os arbitrary: seen acc skipped)
  case (Cons op os)
  show ?case
  proof (cases "op_id op \<in> set seen")
    case True
    then show ?thesis using Cons.IH [of seen acc "skipped + 1"] by (simp add: merge_step_def)
  next
    case False
    then show ?thesis
      using Cons.IH [of "List.insert (op_id op) seen" "acc @ [op]" skipped] by (simp add: merge_step_def)
  qed
qed simp

lemma ids_fresh: "ids (fresh_ops seen os) = ids os - seen"
  by (induction seen os rule: fresh_ops.induct) auto

lemma set_fresh_subset: "set (fresh_ops seen os) \<subseteq> set os"
  by (induction seen os rule: fresh_ops.induct) auto

lemma distinct_fresh: "distinct (map op_id (fresh_ops seen os))"
proof (induction seen os rule: fresh_ops.induct)
  case (2 seen op os)
  have "op_id op \<notin> ids (fresh_ops (insert (op_id op) seen) os)" by (simp add: ids_fresh)
  with 2 show ?case by (auto simp: ids_def)
qed simp

lemma fresh_filter: "fresh_ops seen (filter (\<lambda>op. op_id op \<notin> seen) os) = fresh_ops seen os"
proof -
  have "fresh_ops T (filter (\<lambda>op. op_id op \<notin> seen) os) = fresh_ops T os" if "seen \<subseteq> T" for T
    using that by (induction T os rule: fresh_ops.induct) auto
  then show ?thesis by blast
qed

lemma fresh_snoc:
  "fresh_ops seen (os @ [op]) =
     fresh_ops seen os @ (if op_id op \<in> seen \<union> ids os then [] else [op])"
  by (induction seen os rule: fresh_ops.induct) auto

lemma fresh_known: "ids os \<subseteq> seen \<Longrightarrow> fresh_ops seen os = []"
  by (induction seen os rule: fresh_ops.induct) auto

lemma fresh_covers:
  assumes "unique_ids (A \<union> set os)" and "seen = op_id ` A"
  shows "A \<union> set (fresh_ops seen os) = A \<union> set os"
proof
  show "A \<union> set os \<subseteq> A \<union> set (fresh_ops seen os)"
  proof
    fix op assume "op \<in> A \<union> set os"
    then show "op \<in> A \<union> set (fresh_ops seen os)"
    proof
      assume op: "op \<in> set os"
      show ?thesis
      proof (cases "op_id op \<in> seen")
        case True
        then obtain a where "a \<in> A" "op_id op = op_id a" using assms(2) by auto
        with assms(1) op have "op = a" unfolding unique_ids_def by blast
        with \<open>a \<in> A\<close> show ?thesis by simp
      next
        case False
        with op have "op_id op \<in> ids (fresh_ops seen os)" unfolding ids_fresh by (auto simp: ids_def)
        then obtain x where "x \<in> set (fresh_ops seen os)" "op_id op = op_id x" by (auto simp: ids_def)
        moreover from this have "x \<in> set os" using set_fresh_subset by blast
        ultimately show ?thesis using assms(1) op unfolding unique_ids_def by blast
      qed
    qed simp
  qed
qed (use set_fresh_subset in auto)

section \<open>Causal logs\<close>

text \<open>
  The history an operation's clock claims, the operations stamped the way the producers stamp
  them, and the logs in which every operation comes after the history it claims, relative to
  ids \<open>base\<close> that are known to be present.
\<close>

definition deps :: "Op \<Rightarrow> OpId set" where
  "deps op = {OpId n c | n c. 0 < c \<and> c \<le> vc_get (op_clock op) n}"

definition stamped :: "Op \<Rightarrow> bool" where
  "stamped op \<longleftrightarrow> vc_ok (op_clock op) \<and> 0 < oi_counter (op_id op)
     \<and> vc_get (op_clock op) (oi_node (op_id op)) = oi_counter (op_id op)"

fun causal :: "OpId set \<Rightarrow> Op list \<Rightarrow> bool" where
  "causal base [] \<longleftrightarrow> True"
| "causal base (op # os) \<longleftrightarrow>
     deps op \<subseteq> insert (op_id op) base \<and> causal (insert (op_id op) base) os"

lemma causal_append: "causal base (os @ os') \<longleftrightarrow> causal base os \<and> causal (base \<union> ids os) os'"
  by (induction os arbitrary: base) simp_all

lemma causal_mono: "causal base os \<Longrightarrow> base \<subseteq> base' \<Longrightarrow> causal base' os"
proof (induction os arbitrary: base base')
  case (Cons op os)
  from Cons.prems have "causal (insert (op_id op) base) os"
    and "insert (op_id op) base \<subseteq> insert (op_id op) base'" by auto
  then have "causal (insert (op_id op) base') os" by (rule Cons.IH)
  with Cons.prems show ?case by auto
qed simp

lemma causal_take: "causal base os \<Longrightarrow> causal base (take k os)"
  by (metis append_take_drop_id causal_append)

lemma causal_deps: "causal base os \<Longrightarrow> op \<in> set os \<Longrightarrow> deps op \<subseteq> base \<union> ids os"
proof (induction os arbitrary: base)
  case (Cons x os)
  then show ?case using Cons.IH [of "insert (op_id x) base"] by (cases "op = x") auto
qed simp

text \<open>Dropping known operations keeps a log causal.\<close>

lemma causal_fresh:
  assumes "causal base os" and "base \<subseteq> seen"
  shows "causal seen (fresh_ops seen os)"
  using assms
proof (induction os arbitrary: base seen)
  case (Cons op os)
  show ?case
  proof (cases "op_id op \<in> seen")
    case True
    with Cons.prems have "causal (insert (op_id op) base) os" "insert (op_id op) base \<subseteq> seen" by auto
    with True Cons.IH show ?thesis by auto
  next
    case False
    from Cons.prems have "causal (insert (op_id op) base) os"
      "insert (op_id op) base \<subseteq> insert (op_id op) seen" by auto
    then have "causal (insert (op_id op) seen) (fresh_ops (insert (op_id op) seen) os)"
      by (rule Cons.IH)
    with False Cons.prems show ?thesis by auto
  qed
qed simp

lemma causal_filter_known:
  assumes "causal base os" and "base \<subseteq> seen"
  shows "causal seen (filter (\<lambda>op. op_id op \<notin> seen) os)"
proof -
  have "causal T (filter (\<lambda>op. op_id op \<notin> seen) os)" if "base \<subseteq> T" "seen \<subseteq> T" for T
    using assms(1) that
  proof (induction os arbitrary: base T)
    case (Cons op os)
    show ?case
    proof (cases "op_id op \<in> seen")
      case True
      with Cons.prems have "causal (insert (op_id op) base) os" "insert (op_id op) base \<subseteq> T" by auto
      with True Cons.IH Cons.prems(3) show ?thesis by auto
    next
      case False
      from Cons.prems have "causal (insert (op_id op) base) os"
        "insert (op_id op) base \<subseteq> insert (op_id op) T" "seen \<subseteq> insert (op_id op) T" by auto
      from Cons.IH [OF this] False Cons.prems show ?thesis by auto
    qed
  qed simp
  with assms(2) show ?thesis by blast
qed

text \<open>In a causal log the merged clock counts exactly the operations that are there.\<close>

lemma observed_present:
  assumes "causal {} os" and "\<forall>op\<in>set os. stamped op" and "0 < c" and "c \<le> vc_get (observed os) n"
  shows "OpId n c \<in> ids os"
proof -
  from assms(2) have ok: "\<forall>op\<in>set os. vc_ok (op_clock op)" by (simp add: stamped_def)
  have "vc_get (observed os) n \<noteq> 0" using assms(3,4) by (metis not_less word_gt_0 order_antisym)
  with observed_attained [OF ok] obtain op where
    "op \<in> set os" "vc_get (observed os) n = vc_get (op_clock op) n" by blast
  with assms(3,4) have "OpId n c \<in> deps op" by (auto simp: deps_def)
  with causal_deps [OF assms(1) \<open>op \<in> set os\<close>] show ?thesis by auto
qed

lemma stamped_le_observed:
  assumes "\<forall>op\<in>set os. stamped op" and "i \<in> ids os"
  shows "oi_counter i \<le> vc_get (observed os) (oi_node i)"
proof -
  from assms(2) obtain op where op: "op \<in> set os" "i = op_id op" by (auto simp: ids_def)
  with assms(1) have "oi_counter i = vc_get (op_clock op) (oi_node i)" by (simp add: stamped_def)
  with observed_upper [of os op "oi_node i"] assms(1) op(1) show ?thesis by (simp add: stamped_def)
qed

lemma vc_get_wire_same:
  assumes "\<forall>i\<in>set js. oi_counter i \<le> vc_get c (oi_node i)"
  shows "vc_get (fold (\<lambda>i c. vc_set_max c (oi_node i) (oi_counter i)) js c) n = vc_get c n"
  using assms
proof (induction js arbitrary: c)
  case (Cons i js)
  have same: "vc_get (vc_set_max c (oi_node i) (oi_counter i)) m = vc_get c m" for m
    using Cons.prems by (simp add: max_absorb1)
  then show ?case using Cons.IH [of "vc_set_max c (oi_node i) (oi_counter i)"] Cons.prems by simp
qed simp

text \<open>The filter ships exactly what a causal log lacks.\<close>

lemma needs_iff_missing:
  assumes "causal {} os" and "\<forall>op\<in>set os. stamped op" and "set js = ids os" and "stamped op"
  shows "needs (from_wire (observed os) js) (op_clock op) (op_id op) \<longleftrightarrow> op_id op \<notin> ids os"
proof -
  let ?v = "from_wire (observed os) js"
  obtain n c where i: "op_id op = OpId n c" by (cases "op_id op")
  have get: "vc_get (rv_observed ?v) m = vc_get (observed os) m" for m
    unfolding from_wire_def using stamped_le_observed [OF assms(2)] assms(3)
    by (simp add: vc_get_wire_same)
  have "needs ?v (op_clock op) (op_id op)" if "op_id op \<notin> ids os"
  proof -
    have c: "0 < c" "vc_get (op_clock op) n = c" using assms(4) i by (simp_all add: stamped_def)
    have "\<not> c \<le> vc_get (observed os) n"
      using observed_present [OF assms(1,2) c(1)] that i by auto
    then have less: "vc_get (rv_observed ?v) n < c" by (simp add: get)
    then have "\<not> vc_le (op_clock op) (rv_observed ?v)" using c(2) by (auto simp: vc_le_def not_le)
    with that less i assms(3) show ?thesis
      by (auto simp: needs_def vc_compare_flags from_wire_def)
  qed
  moreover have "\<not> needs ?v (op_clock op) (op_id op)" if "op_id op \<in> ids os"
    using that assms(3) by (simp add: needs_def from_wire_def)
  ultimately show ?thesis by blast
qed

lemma ops_for_peer_missing:
  assumes "causal {} os" and "\<forall>op\<in>set os. stamped op" and "set js = ids os"
    and "\<forall>op\<in>set srv. stamped op"
  shows "ops_for_peer (OpSet srv) (from_wire (observed os) js) = filter (\<lambda>op. op_id op \<notin> ids os) srv"
  unfolding ops_for_peer_def OpSet.sel using needs_iff_missing [OF assms(1-3)] assms(4)
  by (intro filter_cong) auto

section \<open>Merging into a durable log\<close>

text \<open>
  What replication needs of the durable log: reading after an append gives the old operations
  followed by the appended ones, for operations the store can write and a log that ends at a
  record boundary, which an append keeps.
\<close>

locale durable_log =
  fixes read :: "'f \<Rightarrow> Op list"
    and app :: "'f \<Rightarrow> Op list \<Rightarrow> 'f"
    and aligned :: "'f \<Rightarrow> bool"
    and storable :: "Op \<Rightarrow> bool"
  assumes read_app: "aligned f \<Longrightarrow> \<forall>op\<in>set xs. storable op \<Longrightarrow> read (app f xs) = read f @ xs"
    and aligned_app: "aligned f \<Longrightarrow> \<forall>op\<in>set xs. storable op \<Longrightarrow> aligned (app f xs)"
begin

lemma read_absorb:
  assumes "aligned f" and "\<forall>op\<in>set xs. storable op"
  shows "read (app f (fresh_ops (ids (read f)) xs)) = read f @ fresh_ops (ids (read f)) xs"
  using assms set_fresh_subset by (intro read_app) auto

lemma absorb_ids:
  assumes "aligned f" and "\<forall>op\<in>set xs. storable op"
  shows "ids (read (app f (fresh_ops (ids (read f)) xs))) = ids (read f) \<union> ids xs"
  by (auto simp: read_absorb [OF assms] ids_fresh)

lemma absorb_distinct:
  assumes "aligned f" and "\<forall>op\<in>set xs. storable op" and "distinct (map op_id (read f))"
  shows "distinct (map op_id (read (app f (fresh_ops (ids (read f)) xs))))"
proof -
  have "set (map op_id (read f)) \<inter> set (map op_id (fresh_ops (ids (read f)) xs)) = {}"
    using ids_fresh [of "ids (read f)" xs] by (auto simp: ids_def)
  then show ?thesis using assms(3) distinct_fresh by (simp add: read_absorb [OF assms(1,2)])
qed

lemma absorb_again:
  assumes "aligned f" and "\<forall>op\<in>set xs. storable op"
  shows "fresh_ops (ids (read (app f (fresh_ops (ids (read f)) xs)))) xs = []"
  by (rule fresh_known) (auto simp: absorb_ids [OF assms])

end

lemma serde_ok_insert: "serde_ok ser de S \<longleftrightarrow> (\<forall>op\<in>S. serde_ok ser de {op})"
  by (simp add: serde_ok_def)

interpretation file_log: durable_log "\<lambda>f. ops (load de f)" "\<lambda>f xs. snd (append_many ser io_perfect f xs)"
  line_aligned "\<lambda>op. serde_ok ser de {op}" for ser de
proof
  fix f :: "string option" and xs
  assume f: "line_aligned f" and xs: "\<forall>op\<in>set xs. serde_ok ser de {op}"
  from xs have ok: "serde_ok ser de (set xs)" using serde_ok_insert by blast
  with append_many_result [OF ok f, of io_perfect] append_many_perfect [OF ok]
  show "ops (load de (snd (append_many ser io_perfect f xs))) = ops (load de f) @ xs"
    and "line_aligned (snd (append_many ser io_perfect f xs))" by auto
qed

lemma merge_remote_ops_append:
  "\<exists>skipped. skipped + length (fresh_ops (ids (ops (load de f))) (rq_ops req)) = length (rq_ops req) \<and>
     merge_remote_ops ser de d f req =
       (case append_many ser d f (fresh_ops (ids (ops (load de f))) (rq_ops req)) of
          (Inl _, f') \<Rightarrow> ((0, skipped), f')
        | (Inr _, f') \<Rightarrow> ((length (fresh_ops (ids (ops (load de f))) (rq_ops req)), skipped), f'))"
proof -
  let ?v = "from_log (load de f)"
  obtain seen' skipped where fm: "fold merge_step (rq_ops req) (rv_seen_ids ?v, [], 0) =
      (seen', fresh_ops (ids (ops (load de f))) (rq_ops req), skipped)"
    and "skipped + length (fresh_ops (ids (ops (load de f))) (rq_ops req)) = length (rq_ops req)"
    using fold_merge_step [of "rq_ops req" "rv_seen_ids ?v" "[]" 0] by auto
  then show ?thesis
    by (intro exI [of _ skipped])
      (simp add: merge_remote_ops_def Let_def fm split: prod.splits sum.splits)
qed

lemma merge_remote_ops_perfect:
  assumes "serde_ok ser de (set (rq_ops req))"
  shows "merge_remote_ops ser de io_perfect f req =
    (let fr = fresh_ops (ids (ops (load de f))) (rq_ops req) in
     ((length fr, length (rq_ops req) - length fr), snd (append_many ser io_perfect f fr)))"
proof -
  let ?fr = "fresh_ops (ids (ops (load de f))) (rq_ops req)"
  have "serde_ok ser de (set ?fr)" using assms set_fresh_subset unfolding serde_ok_def by blast
  then have "fst (append_many ser io_perfect f ?fr) = Inr ()" by (rule append_many_perfect)
  then have am: "append_many ser io_perfect f ?fr = (Inr (), snd (append_many ser io_perfect f ?fr))"
    by (metis prod.collapse)
  obtain skipped where "skipped + length ?fr = length (rq_ops req)"
    and m: "merge_remote_ops ser de io_perfect f req = (case append_many ser io_perfect f ?fr of
          (Inl _, f') \<Rightarrow> ((0, skipped), f') | (Inr _, f') \<Rightarrow> ((length ?fr, skipped), f'))"
    using merge_remote_ops_append [of de f req ser io_perfect] by blast
  then show ?thesis unfolding m by (subst am) (simp add: Let_def)
qed

lemma merge_remote_ops_prefix:
  assumes "serde_ok ser de (set (rq_ops req))" and "line_aligned f"
  shows "\<exists>k. ops (load de (snd (merge_remote_ops ser de d f req))) =
    ops (load de f) @ take k (fresh_ops (ids (ops (load de f))) (rq_ops req))"
proof -
  let ?fr = "fresh_ops (ids (ops (load de f))) (rq_ops req)"
  have "serde_ok ser de (set ?fr)" using assms(1) set_fresh_subset unfolding serde_ok_def by blast
  from append_many_result [OF this assms(2), of d] obtain k where
    "ops (load de (snd (append_many ser d f ?fr))) = ops (load de f) @ take k ?fr" by blast
  moreover have "snd (merge_remote_ops ser de d f req) = snd (append_many ser d f ?fr)"
    using merge_remote_ops_append [of de f req ser d]
    by (cases "append_many ser d f ?fr"; cases "fst (append_many ser d f ?fr)") auto
  ultimately show ?thesis by auto
qed

section \<open>The client\<close>

text \<open>The client's half of an exchange
  (\<open>PeerManager::sync_ops_with_peer\<close> in \<open>velocity-mcp/src/agent/peer_link.rs\<close>): the
  request it builds, and what it does with the answer of the transport \<open>send\<close>.\<close>

definition sync_request :: "string \<Rightarrow> OpSet \<Rightarrow> OpsExchangeRequest" where
  "sync_request from local =
     (let view = from_log local in
      \<lparr>rq_from_node = from, rq_observed = rv_observed view, rq_ops = ops local,
       rq_seen_ids = rv_seen_ids view\<rparr>)"

lemma sync_request_sel [simp]:
  "rq_from_node (sync_request n s) = n" "rq_ops (sync_request n s) = ops s"
  "rq_observed (sync_request n s) = rv_observed (from_log s)"
  "rq_seen_ids (sync_request n s) = rv_seen_ids (from_log s)"
  by (simp_all add: sync_request_def Let_def)

definition sync_round ::
  "(Op \<Rightarrow> string option) \<Rightarrow> (string \<Rightarrow> Op option) \<Rightarrow> io \<Rightarrow> string
     \<Rightarrow> (OpsExchangeRequest \<Rightarrow> string + OpsExchangeResponse) \<Rightarrow> string \<Rightarrow> string option
     \<Rightarrow> (string + nat \<times> nat) \<times> string option" where
  "sync_round ser de d from send peer store =
     (let request = sync_request from (load de store) in
      case send request of
        Inl e \<Rightarrow> (Inl e, store)
      | Inr response \<Rightarrow>
          (let inbound = \<lparr>rq_from_node = peer, rq_observed = vc_new, rq_ops = rs_ops response,
                 rq_seen_ids = []\<rparr>;
               ((merged, _), store') = merge_remote_ops ser de d store inbound
           in (Inr (merged, length (rq_ops request)), store')))"

section \<open>Properties\<close>

text \<open>
  The merge is idempotent: on a working disk every operation of a request is either
  appended or skipped, the log then holds exactly the ids it had and those of the request, each
  once if it had each once, and the same request again appends nothing, skips everything and
  leaves the file as it is.
\<close>

theorem merge_remote_ops_idempotent:
  assumes "serde_ok ser de (set (rq_ops req))" and "line_aligned f"
  shows "let ((appended, skipped), f') = merge_remote_ops ser de io_perfect f req
         in appended + skipped = length (rq_ops req)
          \<and> op_id ` set (ops (load de f')) = op_id ` set (ops (load de f)) \<union> op_id ` set (rq_ops req)
          \<and> (distinct (map op_id (ops (load de f))) \<longrightarrow> distinct (map op_id (ops (load de f'))))
          \<and> merge_remote_ops ser de io_perfect f' req = ((0, length (rq_ops req)), f')"
proof -
  let ?fr = "fresh_ops (ids (ops (load de f))) (rq_ops req)"
  let ?f = "snd (append_many ser io_perfect f ?fr)"
  have ok: "\<forall>op\<in>set (rq_ops req). serde_ok ser de {op}" using assms(1) serde_ok_insert by blast
  have "length ?fr \<le> length (rq_ops req)"
    using fold_merge_step [of "rq_ops req" "rv_seen_ids (from_log (load de f))" "[]" 0] by force
  moreover have "ids (ops (load de ?f)) = ids (ops (load de f)) \<union> ids (rq_ops req)"
    using assms(2) ok by (rule file_log.absorb_ids)
  moreover have "distinct (map op_id (ops (load de ?f)))" if "distinct (map op_id (ops (load de f)))"
    using assms(2) ok that by (rule file_log.absorb_distinct)
  moreover have "fresh_ops (ids (ops (load de ?f))) (rq_ops req) = []"
    using assms(2) ok by (rule file_log.absorb_again)
  then have "merge_remote_ops ser de io_perfect ?f req = ((0, length (rq_ops req)), ?f)"
    unfolding merge_remote_ops_perfect [OF assms(1)] by (simp add: append_many_def)
  ultimately show ?thesis
    unfolding merge_remote_ops_perfect [OF assms(1), of f] by (simp add: Let_def ids_def)
qed

theorem merge_remote_ops_idempotent_witness:
  "let req = sync_request ''a'' (OpSet [demo_op ''a'', demo_op ''b'']);
       f = snd (merge_remote_ops demo_ser demo_de io_perfect None req)
   in merge_remote_ops demo_ser demo_de io_perfect f req = ((0, 2), f)"
  using merge_remote_ops_idempotent [of demo_ser demo_de
      "sync_request ''a'' (OpSet [demo_op ''a'', demo_op ''b''])" None] serde_ok_demo
  by (simp add: line_aligned_def case_prod_beta Let_def numeral_2_eq_2)

end
