(* ===== verification/Replication_Net.thy ===== *)
theory Replication_Net
  imports Replication
begin

text \<open>
  A network of nodes that replicate their logs with the exchange of \<open>Replication\<close>: nodes
  stamp operations from their own log, send requests and answer them; messages are lost,
  delayed and duplicated.  The abstract network \<open>net_step\<close> works on lists of operations, and an
  append adds a prefix of its batch.  The network of files \<open>file_run\<close> runs the functions of the code
  on the text of the logs, with any disk; it refines the abstract one as long as every append finds its
  log at a line boundary, which is what a write that stopped inside a record destroys.  The invariant
  (logs are causal, an \<open>OpId\<close> names one operation in the whole network, every operation is in
  the log of its producer) is what makes one uninterrupted exchange converge.
\<close>

section \<open>Steps\<close>

text \<open>
  A network state: every node's log, the requests in flight with their addressee, and the
  answers in flight.  Messages are never removed, so each may be delivered late, more than once
  or not at all.  Delivery appends any prefix of what is new.  This is an abstraction: what a failing
  disk does to the text of a log is in \<open>file_run\<close> below.
\<close>

record net =
  logs :: "NodeId \<Rightarrow> Op list"
  requests :: "(NodeId \<times> OpsExchangeRequest) set"
  replies :: "(NodeId \<times> Op list) set"

definition net_init :: net where
  "net_init = \<lparr>logs = (\<lambda>_. []), requests = {}, replies = {}\<rparr>"

text \<open>An operation stamped from a log by node \<open>n\<close>: the merge of the log's clocks, bumped.\<close>

definition stamps :: "Op list \<Rightarrow> NodeId \<Rightarrow> Op \<Rightarrow> bool" where
  "stamps ops_log n op \<longleftrightarrow> op_clock op = fst (vc_increment (observed ops_log) n)
     \<and> op_id op = OpId n (snd (vc_increment (observed ops_log) n))"

definition append_log :: "NodeId \<Rightarrow> Op list \<Rightarrow> net \<Rightarrow> net" where
  "append_log n xs N = N\<lparr>logs := (logs N)(n := logs N n @ xs)\<rparr>"

inductive net_step :: "net \<Rightarrow> net \<Rightarrow> bool" where
  produce: "stamps (logs N n) n op \<Longrightarrow> vc_get (observed (logs N n)) n \<noteq> - 1 \<Longrightarrow>
    net_step N (append_log n [op] N)"
| send: "net_step N (N\<lparr>requests := insert (b, sync_request a (OpSet (logs N a))) (requests N)\<rparr>)"
| serve: "(b, req) \<in> requests N \<Longrightarrow> xs = take k (fresh_ops (ids (logs N b)) (rq_ops req)) \<Longrightarrow>
    net_step N ((append_log b xs N)\<lparr>replies := insert
      (rq_from_node req, ops_for_peer (OpSet (logs N b @ xs)) (from_wire (rq_observed req) (rq_seen_ids req)))
      (replies N)\<rparr>)"
| receive: "(a, os) \<in> replies N \<Longrightarrow>
    net_step N (append_log a (take k (fresh_ops (ids (logs N a)) os)) N)"

inductive net_reachable :: "net \<Rightarrow> bool" where
  init: "net_reachable net_init"
| step: "net_reachable N \<Longrightarrow> net_step N N' \<Longrightarrow> net_reachable N'"

definition all_ops :: "net \<Rightarrow> Op set" where
  "all_ops N = (\<Union>n. set (logs N n))"

definition log_inv :: "net \<Rightarrow> bool" where
  "log_inv N \<longleftrightarrow> (\<forall>n. causal {} (logs N n) \<and> distinct (map op_id (logs N n)))
     \<and> (\<forall>op\<in>all_ops N. stamped op \<and> op \<in> set (logs N (oi_node (op_id op))))
     \<and> unique_ids (all_ops N)"

definition msg_inv :: "net \<Rightarrow> bool" where
  "msg_inv N \<longleftrightarrow>
     (\<forall>(b, req)\<in>requests N. \<exists>k. req = sync_request (rq_from_node req) (OpSet (take k (logs N (rq_from_node req)))))
     \<and> (\<forall>(a, os)\<in>replies N. set os \<subseteq> all_ops N \<and> causal (ids (logs N a)) os)"

section \<open>The invariant\<close>

lemma logs_append_log [simp]:
  "logs (append_log n xs N) m = (if m = n then logs N n @ xs else logs N m)"
  "requests (append_log n xs N) = requests N" "replies (append_log n xs N) = replies N"
  by (simp_all add: append_log_def)

lemma all_ops_append_log: "all_ops (append_log n xs N) = all_ops N \<union> set xs"
  by (auto simp: all_ops_def split: if_splits)

lemma in_all_ops: "op \<in> set (logs N n) \<Longrightarrow> op \<in> all_ops N"
  by (auto simp: all_ops_def)

lemma log_invD:
  assumes "log_inv N"
  shows "causal {} (logs N n)" and "distinct (map op_id (logs N n))"
    and "op \<in> all_ops N \<Longrightarrow> stamped op" and "op \<in> all_ops N \<Longrightarrow> op \<in> set (logs N (oi_node (op_id op)))"
    and "unique_ids (all_ops N)" and "\<forall>op\<in>set (logs N n). stamped op"
  using assms in_all_ops unfolding log_inv_def by blast+

text \<open>Appending known operations that are new to the log and come in causal order.\<close>

lemma log_inv_absorb:
  assumes "log_inv N" and "set xs \<subseteq> all_ops N" and "causal (ids (logs N n)) xs"
    and "distinct (map op_id xs)" and "ids (logs N n) \<inter> ids xs = {}"
  shows "log_inv (append_log n xs N)"
proof -
  have all: "all_ops (append_log n xs N) = all_ops N"
    using assms(2) by (auto simp: all_ops_append_log)
  have "causal {} (logs N n @ xs)" using assms(1,3) by (simp add: causal_append log_invD)
  moreover have "distinct (map op_id (logs N n @ xs))"
    using assms(1,4,5) by (auto simp: log_invD ids_def)
  moreover have "op \<in> set (logs (append_log n xs N) (oi_node (op_id op)))" if "op \<in> all_ops N" for op
    using log_invD(4) [OF assms(1) that] by auto
  ultimately show ?thesis
    using log_invD [OF assms(1)] unfolding log_inv_def all by simp
qed

lemma take_fresh_new:
  "distinct (map op_id (take k (fresh_ops seen os)))" "seen \<inter> ids (take k (fresh_ops seen os)) = {}"
proof -
  show "distinct (map op_id (take k (fresh_ops seen os)))"
    using distinct_fresh by (metis distinct_take take_map)
  have "ids (take k (fresh_ops seen os)) \<subseteq> ids (fresh_ops seen os)"
    by (auto simp: ids_def dest: in_set_takeD)
  then show "seen \<inter> ids (take k (fresh_ops seen os)) = {}" by (auto simp: ids_fresh)
qed

lemma log_inv_take_fresh:
  assumes "log_inv N" and "set os \<subseteq> all_ops N" and "causal (ids (logs N n)) os"
  shows "log_inv (append_log n (take k (fresh_ops (ids (logs N n)) os)) N)"
proof (rule log_inv_absorb [OF assms(1)])
  show "set (take k (fresh_ops (ids (logs N n)) os)) \<subseteq> all_ops N"
    using assms(2) set_fresh_subset by (fastforce dest: in_set_takeD)
  show "causal (ids (logs N n)) (take k (fresh_ops (ids (logs N n)) os))"
    using assms(3) by (intro causal_take causal_fresh) auto
qed (simp_all add: take_fresh_new)

lemma produced:
  assumes "log_inv N" and "stamps (logs N n) n op" and "vc_get (observed (logs N n)) n \<noteq> - 1"
  shows "stamped op" and "deps op \<subseteq> insert (op_id op) (ids (logs N n))"
    and "op_id op \<notin> op_id ` all_ops N" and "oi_node (op_id op) = n"
proof -
  let ?g = "vc_get (observed (logs N n)) n"
  note st = log_invD(6) [OF assms(1), of n]
  have op: "op_id op = OpId n (?g + 1)" "op_clock op = fst (vc_increment (observed (logs N n)) n)"
    using assms(2) by (simp_all add: stamps_def)
  have pos: "?g < ?g + 1" using assms(3) by (rule word_less_bump)
  then have gt0: "0 < ?g + 1" by (rule order_le_less_trans [rotated]) simp
  show "stamped op" using gt0 op vc_ok_observed by (simp add: stamped_def)
  show "deps op \<subseteq> insert (op_id op) (ids (logs N n))"
  proof
    fix i assume "i \<in> deps op"
    then obtain m c where i: "i = OpId m c" "0 < c" "c \<le> vc_get (op_clock op) m" by (auto simp: deps_def)
    show "i \<in> insert (op_id op) (ids (logs N n))"
    proof (cases "m = n \<and> c = ?g + 1")
      case False
      with i(3) op(2) word_le_bump [OF _ assms(3), of c]
      have "c \<le> vc_get (observed (logs N n)) m" by (auto split: if_splits)
      with i(1,2) observed_present [OF log_invD(1) [OF assms(1)] st] show ?thesis by simp
    qed (use i op in simp)
  qed
  show "oi_node (op_id op) = n" using op by simp
  show "op_id op \<notin> op_id ` all_ops N"
  proof
    assume "op_id op \<in> op_id ` all_ops N"
    then obtain op' where "op' \<in> all_ops N" "op_id op' = op_id op" by auto
    with log_invD(4) [OF assms(1)] op have "op_id op \<in> ids (logs N n)" by (force simp: ids_def)
    with stamped_le_observed [OF st] op have "?g + 1 \<le> ?g" by fastforce
    with pos show False by simp
  qed
qed

lemma log_inv_produce:
  assumes "log_inv N" and "stamps (logs N n) n op" and "vc_get (observed (logs N n)) n \<noteq> - 1"
  shows "log_inv (append_log n [op] N)"
proof -
  note p = produced [OF assms]
  have all: "all_ops (append_log n [op] N) = insert op (all_ops N)" by (simp add: all_ops_append_log)
  have "unique_ids (insert op (all_ops N))"
    using log_invD(5) [OF assms(1)] p(3) unfolding unique_ids_def by (auto simp: image_iff)
  moreover have "op_id op \<notin> op_id ` set (logs N n)" using p(3) in_all_ops by blast
  moreover have "causal {} (logs N n @ [op])" using p(2) log_invD(1) [OF assms(1)] by (simp add: causal_append)
  moreover have "x \<in> set (logs (append_log n [op] N) (oi_node (op_id x)))" if "x \<in> insert op (all_ops N)" for x
    using that p(4) log_invD(4) [OF assms(1), of x] by auto
  ultimately show ?thesis using log_invD [OF assms(1)] p(1) unfolding log_inv_def all by simp
qed

text \<open>Messages stay valid while logs grow.\<close>

lemma msg_invD:
  assumes "msg_inv N"
  shows "(b, req) \<in> requests N \<Longrightarrow>
      \<exists>k. req = sync_request (rq_from_node req) (OpSet (take k (logs N (rq_from_node req))))"
    and "(a, os) \<in> replies N \<Longrightarrow> set os \<subseteq> all_ops N" and "(a, os) \<in> replies N \<Longrightarrow> causal (ids (logs N a)) os"
  using assms unfolding msg_inv_def by blast+

lemma msg_invI:
  assumes "\<And>b req. (b, req) \<in> requests N \<Longrightarrow>
      \<exists>k. req = sync_request (rq_from_node req) (OpSet (take k (logs N (rq_from_node req))))"
    and "\<And>a os. (a, os) \<in> replies N \<Longrightarrow> set os \<subseteq> all_ops N \<and> causal (ids (logs N a)) os"
  shows "msg_inv N"
  using assms unfolding msg_inv_def by blast

lemma msg_inv_append:
  assumes "msg_inv N"
  shows "msg_inv (append_log n xs N)"
proof (rule msg_invI)
  fix b req assume "(b, req) \<in> requests (append_log n xs N)"
  then obtain k where "req = sync_request (rq_from_node req) (OpSet (take k (logs N (rq_from_node req))))"
    using msg_invD(1) [OF assms] by auto
  moreover have "take k (logs N f) = take (min k (length (logs N f))) (logs (append_log n xs N) f)" for f
    by (simp add: min_def)
  ultimately show "\<exists>k. req = sync_request (rq_from_node req)
      (OpSet (take k (logs (append_log n xs N) (rq_from_node req))))" by metis
next
  fix a os assume m: "(a, os) \<in> replies (append_log n xs N)"
  then have "causal (ids (logs (append_log n xs N) a)) os"
    using msg_invD(3) [OF assms, of a os] causal_mono [of "ids (logs N a)" os] by auto
  then show "set os \<subseteq> all_ops (append_log n xs N) \<and> causal (ids (logs (append_log n xs N) a)) os"
    using m msg_invD(2) [OF assms, of a os] by (auto simp: all_ops_append_log)
qed

lemma log_inv_msgs [simp]:
  "log_inv (N\<lparr>requests := r\<rparr>) = log_inv N" "log_inv (N\<lparr>replies := p\<rparr>) = log_inv N"
  by (simp_all add: log_inv_def all_ops_def)

lemma msg_inv_reply:
  "msg_inv N \<Longrightarrow> set os \<subseteq> all_ops N \<Longrightarrow> causal (ids (logs N a)) os \<Longrightarrow>
     msg_inv (N\<lparr>replies := insert (a, os) (replies N)\<rparr>)"
  by (simp add: msg_inv_def all_ops_def)

text \<open>A request's operations are a causal prefix of the sender's log.\<close>

lemma request_ops:
  assumes "log_inv N" and "msg_inv N" and "(b, req) \<in> requests N"
  shows "causal {} (rq_ops req)" and "set (rq_ops req) \<subseteq> all_ops N"
    and "ids (rq_ops req) \<subseteq> ids (logs N (rq_from_node req))"
    and "rq_observed req = observed (rq_ops req)" and "set (rq_seen_ids req) = ids (rq_ops req)"
proof -
  define f where "f = rq_from_node req"
  then obtain k where r: "req = sync_request f (OpSet (take k (logs N f)))"
    using msg_invD(1) [OF assms(2,3)] by blast
  have ops: "rq_ops req = take k (logs N f)" by (simp add: r)
  show "causal {} (rq_ops req)" unfolding ops by (rule causal_take [OF log_invD(1) [OF assms(1)]])
  show "set (rq_ops req) \<subseteq> all_ops N" unfolding ops using in_all_ops by (fastforce dest: in_set_takeD)
  show "ids (rq_ops req) \<subseteq> ids (logs N (rq_from_node req))"
    unfolding ops f_def [symmetric] by (auto simp: ids_def dest: in_set_takeD)
  show "rq_observed req = observed (rq_ops req)" "set (rq_seen_ids req) = ids (rq_ops req)"
    unfolding ops by (simp_all add: r)
qed

text \<open>The answer to a request is causal on top of what the requester has.\<close>

lemma reply_ops:
  assumes "log_inv N" and "msg_inv N" and "(b, req) \<in> requests N"
    and "causal {} srv" and "set srv \<subseteq> all_ops N"
  shows "set (ops_for_peer (OpSet srv) (from_wire (rq_observed req) (rq_seen_ids req))) \<subseteq> all_ops N
    \<and> causal (ids (logs N (rq_from_node req)))
        (ops_for_peer (OpSet srv) (from_wire (rq_observed req) (rq_seen_ids req)))"
proof -
  note r = request_ops [OF assms(1-3)]
  have "\<forall>op\<in>set (rq_ops req). stamped op" "\<forall>op\<in>set srv. stamped op"
    using r(2) assms(5) log_invD(3) [OF assms(1)] by auto
  then have eq: "ops_for_peer (OpSet srv) (from_wire (rq_observed req) (rq_seen_ids req)) =
      filter (\<lambda>op. op_id op \<notin> ids (rq_ops req)) srv"
    unfolding r(4) using r(1,5) by (intro ops_for_peer_missing)
  have "causal (ids (rq_ops req)) (filter (\<lambda>op. op_id op \<notin> ids (rq_ops req)) srv)"
    using assms(4) by (rule causal_filter_known) simp
  then show ?thesis unfolding eq using r(3) assms(5) by (auto elim: causal_mono)
qed

lemma net_step_inv:
  assumes "net_step N N'" and "log_inv N" and "msg_inv N"
  shows "log_inv N' \<and> msg_inv N'"
  using assms(1)
proof cases
  case (produce n op)
  then show ?thesis using assms(2,3) by (simp add: log_inv_produce msg_inv_append)
next
  case (send b a)
  have "msg_inv N'"
  proof (rule msg_invI)
    fix b' req assume "(b', req) \<in> requests N'"
    then consider "req = sync_request a (OpSet (logs N a))" | "(b', req) \<in> requests N" by (auto simp: send)
    then show "\<exists>k. req = sync_request (rq_from_node req) (OpSet (take k (logs N' (rq_from_node req))))"
    proof cases
      case 1
      then show ?thesis by (intro exI [of _ "length (logs N a)"]) (simp add: send)
    next
      case 2
      then show ?thesis using msg_invD(1) [OF assms(3)] by (simp add: send)
    qed
  qed (use msg_invD(2,3) [OF assms(3)] in \<open>auto simp: send all_ops_def\<close>)
  then show ?thesis using assms(2) send by simp
next
  case (serve b req xs k)
  let ?N = "append_log b xs N"
  note r = request_ops [OF assms(2,3) serve(2)]
  have "causal (ids (logs N b)) (rq_ops req)" using r(1) by (rule causal_mono) simp
  then have inv: "log_inv ?N" unfolding serve(3) by (rule log_inv_take_fresh [OF assms(2) r(2)])
  have m: "msg_inv ?N" using assms(3) by (rule msg_inv_append)
  have rq: "(b, req) \<in> requests ?N" using serve(2) by simp
  have "logs ?N b = logs N b @ xs" by simp
  then have "causal {} (logs N b @ xs)" "set (logs N b @ xs) \<subseteq> all_ops ?N"
    using log_invD(1) [OF inv, of b] in_all_ops [of _ ?N b] by auto
  from msg_inv_reply [OF m, of _ "rq_from_node req"] reply_ops [OF inv m rq this] inv show ?thesis
    unfolding serve(1) by simp
next
  case (receive a os k)
  then show ?thesis using assms(2,3) msg_invD [OF assms(3)]
    by (simp add: log_inv_take_fresh msg_inv_append)
qed

lemma net_reachable_inv: "net_reachable N \<Longrightarrow> log_inv N \<and> msg_inv N"
proof (induction rule: net_reachable.induct)
  case init
  show ?case by (simp add: net_init_def log_inv_def msg_inv_def all_ops_def unique_ids_def)
qed (use net_step_inv in blast)

section \<open>The network of files\<close>

text \<open>
  The same network on the files: each node's log is its text, and every step is a call of the code on
  it with an arbitrary disk, which may refuse to open the file or stop a write after any number of
  bytes.  A step is one call; the calls on one log do not overlap.  \<open>S\<close> holds the operations that
  the nodes produce.  The run records the file that each appending call found.
\<close>

record file_net =
  nd_files :: "NodeId \<Rightarrow> string option"
  nd_requests :: "(NodeId \<times> OpsExchangeRequest) set"
  nd_replies :: "(NodeId \<times> Op list) set"

definition file_init :: file_net where
  "file_init = \<lparr>nd_files = (\<lambda>_. None), nd_requests = {}, nd_replies = {}\<rparr>"

definition set_file :: "NodeId \<Rightarrow> string option \<Rightarrow> file_net \<Rightarrow> file_net" where
  "set_file n f F = F\<lparr>nd_files := (nd_files F)(n := f)\<rparr>"

definition file_log :: "(string \<Rightarrow> Op option) \<Rightarrow> file_net \<Rightarrow> NodeId \<Rightarrow> Op list" where
  "file_log de F n = ops (load de (nd_files F n))"

definition reply_request :: "string \<Rightarrow> Op list \<Rightarrow> OpsExchangeRequest" where
  "reply_request peer os = \<lparr>rq_from_node = peer, rq_observed = vc_new, rq_ops = os, rq_seen_ids = []\<rparr>"

inductive file_run ::
  "(Op \<Rightarrow> string option) \<Rightarrow> (string \<Rightarrow> Op option) \<Rightarrow> Op set \<Rightarrow> file_net \<Rightarrow> string option list \<Rightarrow> bool"
  for ser de S where
  start: "file_run ser de S file_init []"
| produce: "file_run ser de S F found \<Longrightarrow> stamps (file_log de F n) n op \<Longrightarrow> op \<in> S \<Longrightarrow>
    vc_get (observed (file_log de F n)) n \<noteq> - 1 \<Longrightarrow>
    file_run ser de S (set_file n (snd (store_append ser d (nd_files F n) op)) F) (nd_files F n # found)"
| send: "file_run ser de S F found \<Longrightarrow>
    file_run ser de S (F\<lparr>nd_requests := insert (b, sync_request a (load de (nd_files F a))) (nd_requests F)\<rparr>) found"
| serve: "file_run ser de S F found \<Longrightarrow> (b, req) \<in> nd_requests F \<Longrightarrow>
    handle_exchange ser de d (nd_files F b) req = (resp, f') \<Longrightarrow>
    file_run ser de S ((set_file b f' F)\<lparr>nd_replies := insert (rq_from_node req, rs_ops resp) (nd_replies F)\<rparr>)
      (nd_files F b # found)"
| receive: "file_run ser de S F found \<Longrightarrow> (a, os) \<in> nd_replies F \<Longrightarrow>
    merge_remote_ops ser de d (nd_files F a) (reply_request peer os) = (r, f') \<Longrightarrow>
    file_run ser de S (set_file a f' F) (nd_files F a # found)"

definition net_of :: "(string \<Rightarrow> Op option) \<Rightarrow> file_net \<Rightarrow> net" where
  "net_of de F = \<lparr>logs = file_log de F, requests = nd_requests F, replies = nd_replies F\<rparr>"

lemma net_of_sel [simp]:
  "logs (net_of de F) = file_log de F" "requests (net_of de F) = nd_requests F" "replies (net_of de F) = nd_replies F"
  by (simp_all add: net_of_def)

lemma net_of_set_file:
  "ops (load de f') = file_log de F n @ xs \<Longrightarrow> net_of de (set_file n f' F) = append_log n xs (net_of de F)"
  by (simp add: net_of_def set_file_def append_log_def file_log_def fun_eq_iff)

lemma append_log_Nil [simp]: "append_log n [] N = N"
  by (simp add: append_log_def)

lemma serde_ok_subset: "serde_ok ser de S \<Longrightarrow> T \<subseteq> S \<Longrightarrow> serde_ok ser de T"
  unfolding serde_ok_def by blast

text \<open>
  The refinement: as long as every append found its log at a line boundary, each call on the files is
  a step of the abstract network, whatever the disk did.
\<close>

lemma file_run_refines:
  assumes "serde_ok ser de S" "file_run ser de S F found" "\<forall>f\<in>set found. line_aligned f"
  shows "net_reachable (net_of de F) \<and> all_ops (net_of de F) \<subseteq> S"
  using assms(2,3)
proof (induction rule: file_run.induct)
  case start
  have "net_of de file_init = net_init"
    by (simp add: net_of_def file_init_def net_init_def file_log_def fun_eq_iff load_def opset_new_def)
  then show ?case by (simp add: net_reachable.init) (simp add: all_ops_def net_init_def)
next
  case (produce F found n op d)
  then have reach: "net_reachable (net_of de F)" and all: "all_ops (net_of de F) \<subseteq> S" and al: "line_aligned (nd_files F n)" by simp_all
  let ?F = "set_file n (snd (store_append ser d (nd_files F n) op)) F"
  have ok: "serde_ok ser de (set [op])" using serde_ok_subset [OF assms(1)] produce.hyps(3) by simp
  from append_many_result [OF ok al, of d] obtain k where
    "ops (load de (snd (append_many ser d (nd_files F n) [op]))) = file_log de F n @ take k [op]"
    by (auto simp: file_log_def)
  then have net: "net_of de ?F = append_log n (take k [op]) (net_of de F)"
    unfolding store_append_def by (rule net_of_set_file)
  show ?case
  proof (cases k)
    case 0
    with net reach all show ?thesis by simp
  next
    case (Suc j)
    with net have N: "net_of de ?F = append_log n [op] (net_of de F)" by simp
    have "net_step (net_of de F) (append_log n [op] (net_of de F))"
      using produce.hyps(2,4) by (intro net_step.produce) simp_all
    with reach have "net_reachable (append_log n [op] (net_of de F))" by (rule net_reachable.step)
    with N all produce.hyps(3) show ?thesis by (simp add: all_ops_append_log)
  qed
next
  case (send F found b a)
  then have reach: "net_reachable (net_of de F)" and all: "all_ops (net_of de F) \<subseteq> S" by simp_all
  let ?F = "F\<lparr>nd_requests := insert (b, sync_request a (load de (nd_files F a))) (nd_requests F)\<rparr>"
  have "net_of de ?F = (net_of de F)\<lparr>requests := insert (b, sync_request a (OpSet (logs (net_of de F) a))) (requests (net_of de F))\<rparr>"
    by (simp add: net_of_def file_log_def fun_eq_iff)
  with reach have "net_reachable (net_of de ?F)" by (metis net_step.send net_reachable.step)
  moreover have "all_ops (net_of de ?F) = all_ops (net_of de F)" by (simp add: all_ops_def file_log_def)
  ultimately show ?case using all by simp
next
  case (serve F found b req d resp f')
  then have reach: "net_reachable (net_of de F)" and all: "all_ops (net_of de F) \<subseteq> S" and al: "line_aligned (nd_files F b)" by simp_all
  have inv: "log_inv (net_of de F)" "msg_inv (net_of de F)" using net_reachable_inv [OF reach] by simp_all
  have rq: "(b, req) \<in> requests (net_of de F)" using serve.hyps(2) by simp
  have sub: "set (rq_ops req) \<subseteq> all_ops (net_of de F)" by (rule request_ops(2) [OF inv rq])
  have f': "f' = snd (merge_remote_ops ser de d (nd_files F b) req)"
    and resp: "rs_ops resp = ops_for_peer (load de f') (from_wire (rq_observed req) (rq_seen_ids req))"
    using serve.hyps(3) by (auto simp: handle_exchange_def Let_def split: prod.splits)
  have "serde_ok ser de (set (rq_ops req))" using serde_ok_subset [OF assms(1)] sub all by blast
  from merge_remote_ops_prefix [OF this al, of d] obtain k where
    k: "ops (load de f') = file_log de F b @ take k (fresh_ops (ids (file_log de F b)) (rq_ops req))"
    unfolding f' file_log_def by blast
  define xs where "xs = take k (fresh_ops (ids (logs (net_of de F) b)) (rq_ops req))"
  have k': "ops (load de f') = file_log de F b @ xs" using k by (simp add: xs_def)
  let ?F = "(set_file b f' F)\<lparr>nd_replies := insert (rq_from_node req, rs_ops resp) (nd_replies F)\<rparr>"
  have "load de f' = OpSet (logs (net_of de F) b @ xs)" using k' by (metis OpSet.collapse net_of_sel(1))
  then have NF: "net_of de ?F = (append_log b xs (net_of de F))\<lparr>replies := insert
      (rq_from_node req, ops_for_peer (OpSet (logs (net_of de F) b @ xs)) (from_wire (rq_observed req) (rq_seen_ids req)))
      (replies (net_of de F))\<rparr>"
    using net_of_set_file [OF k'] resp by (simp add: net_of_def file_log_def fun_eq_iff set_file_def append_log_def)
  have N: "net_reachable (net_of de ?F)" unfolding NF using net_reachable.step [OF reach net_step.serve [OF rq xs_def]] by simp
  have "all_ops (net_of de ?F) = all_ops (append_log b xs (net_of de F))" unfolding NF by (simp add: all_ops_def)
  moreover have "set xs \<subseteq> set (rq_ops req)" using set_fresh_subset by (fastforce simp: xs_def dest: in_set_takeD)
  ultimately show ?case using N sub all by (simp add: all_ops_append_log)
next
  case (receive F found a os d peer r f')
  then have reach: "net_reachable (net_of de F)" and all: "all_ops (net_of de F) \<subseteq> S" and al: "line_aligned (nd_files F a)" by simp_all
  have "msg_inv (net_of de F)" using net_reachable_inv [OF reach] by simp
  then have sub: "set os \<subseteq> all_ops (net_of de F)" using msg_invD(2) receive.hyps(2) by fastforce
  have f': "f' = snd (merge_remote_ops ser de d (nd_files F a) (reply_request peer os))" using receive.hyps(3) by simp
  have "serde_ok ser de (set (rq_ops (reply_request peer os)))"
    using serde_ok_subset [OF assms(1)] sub all by (simp add: reply_request_def)
  from merge_remote_ops_prefix [OF this al, of d] obtain k where
    "ops (load de f') = file_log de F a @ take k (fresh_ops (ids (file_log de F a)) os)"
    unfolding f' file_log_def by (auto simp: reply_request_def)
  from net_of_set_file [OF this] have N: "net_of de (set_file a f' F) =
      append_log a (take k (fresh_ops (ids (logs (net_of de F) a)) os)) (net_of de F)" by simp
  have "(a, os) \<in> replies (net_of de F)" using receive.hyps(2) by simp
  from net_reachable.step [OF reach net_step.receive [OF this]]
  have "net_reachable (net_of de (set_file a f' F))" unfolding N .
  moreover have "set (take k (fresh_ops (ids (logs (net_of de F) a)) os)) \<subseteq> set os"
    using set_fresh_subset by (fastforce dest: in_set_takeD)
  ultimately show ?case using sub all unfolding N by (simp add: all_ops_append_log)
qed

section \<open>Properties\<close>

text \<open>A network of two nodes after each has produced one operation, for concrete runs.\<close>

definition demo_net :: net where
  "demo_net = append_log ''b'' [demo_op ''b''] (append_log ''a'' [demo_op ''a''] net_init)"

lemma stamps_demo: "stamps [] n (demo_op n)"
  by (simp add: stamps_def demo_op_def new_text_def principal_service_def from_log_Nil case_prod_beta)

lemma demo_net_reachable: "net_reachable demo_net"
proof -
  have "net_step net_init (append_log ''a'' [demo_op ''a''] net_init)"
    by (rule net_step.produce) (simp_all add: net_init_def stamps_demo from_log_Nil)
  moreover have "net_step (append_log ''a'' [demo_op ''a''] net_init) demo_net"
    unfolding demo_net_def
    by (rule net_step.produce) (simp_all add: net_init_def stamps_demo from_log_Nil)
  ultimately show ?thesis by (meson net_reachable.intros)
qed

lemma demo_net_logs:
  "logs demo_net ''a'' = [demo_op ''a'']" "logs demo_net ''b'' = [demo_op ''b'']"
  "all_ops demo_net = {demo_op ''a'', demo_op ''b''}"
  by (auto simp: demo_net_def net_init_def all_ops_append_log) (simp add: all_ops_def)


text \<open>A run of one node whose first write stops inside the record, and that has not appended since.\<close>

definition demo_torn :: file_net where
  "demo_torn = set_file ''b'' (snd (store_append demo_ser \<lparr>io_open = True, io_write = (\<lambda>_. Some 2)\<rparr> None (demo_op ''b'')))
     (set_file ''a'' (snd (store_append demo_ser io_perfect None (demo_op ''a''))) file_init)"

lemma demo_torn_run:
  "file_run demo_ser demo_de {demo_op ''a'', demo_op ''b''} demo_torn [None, None]"
proof -
  let ?S = "{demo_op ''a'', demo_op ''b''}"
  let ?F = "set_file ''a'' (snd (store_append demo_ser io_perfect None (demo_op ''a''))) file_init"
  have l: "file_log demo_de file_init n = []" for n by (simp add: file_log_def file_init_def load_def opset_new_def)
  have f: "nd_files file_init n = None" for n by (simp add: file_init_def)
  have "file_run demo_ser demo_de ?S ?F [nd_files file_init ''a'']"
    unfolding f [of "''a''", symmetric]
    by (rule file_run.produce [OF file_run.start]) (simp_all add: l stamps_demo from_log_Nil)
  then have a: "file_run demo_ser demo_de ?S ?F [None]" by (simp add: f)
  have b: "nd_files ?F ''b'' = None" "file_log demo_de ?F ''b'' = []" using l [of "''b''"] by (simp_all add: set_file_def f file_log_def)
  have "file_run demo_ser demo_de ?S (set_file ''b'' (snd (store_append demo_ser \<lparr>io_open = True, io_write = (\<lambda>_. Some 2)\<rparr>
      (nd_files ?F ''b'') (demo_op ''b''))) ?F) (nd_files ?F ''b'' # [None])"
    by (rule file_run.produce [OF a]) (simp_all add: b stamps_demo from_log_Nil)
  then show ?thesis by (simp add: b demo_torn_def)
qed


text \<open>
  C1. Convergence of one exchange: between two nodes of any reachable network whose logs are
  in their files, a round of \<open>sync_ops_with_peer\<close> answered by \<open>handle_exchange\<close> on
  working disks leaves both files holding exactly the union of the two logs, reports what was
  merged and sent, and both nodes materialize the same state.
\<close>

theorem exchange_converges:
  assumes "net_reachable N" and "serde_ok ser de (all_ops N)"
    and "line_aligned fa" and "ops (load de fa) = logs N a"
    and "line_aligned fb" and "ops (load de fb) = logs N b"
  shows "let fb' = snd (handle_exchange ser de io_perfect fb (sync_request a (load de fa)));
             (r, fa') = sync_round ser de io_perfect a
                (\<lambda>req. Inr (fst (handle_exchange ser de io_perfect fb req))) b fa
         in set (ops (load de fa')) = set (logs N a) \<union> set (logs N b)
          \<and> set (ops (load de fb')) = set (logs N a) \<union> set (logs N b)
          \<and> materialize (load de fa') = materialize (load de fb')
          \<and> r = Inr (length (ops (load de fa')) - length (logs N a), length (logs N a))"
proof -
  have inv: "log_inv N" using net_reachable_inv [OF assms(1)] by blast
  let ?A = "logs N a" and ?B = "logs N b"
  let ?req = "sync_request a (load de fa)"
  have sub: "set ?A \<subseteq> all_ops N" "set ?B \<subseteq> all_ops N" using in_all_ops by auto
  then have ok: "serde_ok ser de (set ?A)" "serde_ok ser de (set ?B)"
    using assms(2) by (auto simp: serde_ok_def)
  have uq: "unique_ids (set ?A \<union> set ?B)"
    using log_invD(5) [OF inv] sub unfolding unique_ids_def by blast
  let ?B' = "?B @ fresh_ops (ids ?B) ?A"
  define fb' where "fb' = snd (append_many ser io_perfect fb (fresh_ops (ids ?B) ?A))"
  have lb: "ops (load de fb') = ?B'"
    unfolding fb'_def using file_log.read_absorb [OF assms(5), of ?A ser de] ok(1) serde_ok_insert
    by (metis assms(6))
  have setB: "set ?B' = set ?A \<union> set ?B"
    using fresh_covers [of "set ?B" ?A] uq by (simp add: Un_commute ids_def)
  have stA: "\<forall>op\<in>set ?A. stamped op" "\<forall>op\<in>set ?B'. stamped op"
    unfolding setB using log_invD(6) [OF inv] by auto
  define os where "os = filter (\<lambda>op. op_id op \<notin> ids ?A) ?B'"
  have la: "load de fa = OpSet ?A" using assms(4) by (metis OpSet.collapse)
  have he: "handle_exchange ser de io_perfect fb ?req =
      (\<lparr>rs_merged = length (fresh_ops (ids ?B) ?A), rs_skipped = length ?A - length (fresh_ops (ids ?B) ?A),
        rs_ops = os, rs_observed = rv_observed (from_log (load de fb'))\<rparr>, fb')"
  proof -
    have "ops_for_peer (OpSet ?B') (from_wire (observed ?A) (rv_seen_ids (from_log (OpSet ?A)))) = os"
      unfolding os_def using log_invD(1) [OF inv] stA by (intro ops_for_peer_missing) auto
    moreover have "load de fb' = OpSet ?B'" using lb by (metis OpSet.collapse)
    ultimately show ?thesis
      unfolding handle_exchange_def
      using merge_remote_ops_perfect [of ser de ?req fb] ok(1)
      by (simp add: la assms(6) fb'_def [symmetric] Let_def)
  qed
  let ?A' = "?A @ fresh_ops (ids ?A) ?B'"
  define fa' where "fa' = snd (append_many ser io_perfect fa (fresh_ops (ids ?A) ?B'))"
  have okB': "serde_ok ser de (set ?B')" unfolding setB using ok by (auto simp: serde_ok_def)
  moreover have "set os \<subseteq> set ?B'" by (auto simp: os_def)
  ultimately have okos: "serde_ok ser de (set os)" unfolding serde_ok_def by blast
  have la': "ops (load de fa') = ?A'"
    unfolding fa'_def using file_log.read_absorb [OF assms(3), of ?B' ser de] okB' serde_ok_insert
    by (metis assms(4))
  have setA: "set ?A' = set ?A \<union> set ?B"
    using fresh_covers [of "set ?A" ?B'] setB uq by (simp add: Un_commute ids_def)
  have "fresh_ops (ids ?A) os = fresh_ops (ids ?A) ?B'" unfolding os_def by (rule fresh_filter)
  then have sr: "sync_round ser de io_perfect a (\<lambda>req. Inr (fst (handle_exchange ser de io_perfect fb req))) b fa =
      (Inr (length (fresh_ops (ids ?A) ?B'), length ?A), fa')"
    unfolding sync_round_def Let_def he using okos
    by (simp add: merge_remote_ops_perfect Let_def la fa'_def)
  have "materialize (load de fa') = materialize (load de fb')"
    using uq setA setB by (intro materialize_cong) (simp_all add: la' lb)
  with setA setB show ?thesis unfolding he sr by (simp add: la' lb)
qed

theorem exchange_converges_witness:
  "let fa = snd (append_many demo_ser io_perfect None [demo_op ''a'']);
       fb = snd (append_many demo_ser io_perfect None [demo_op ''b'']);
       fa' = snd (sync_round demo_ser demo_de io_perfect ''a''
                (\<lambda>req. Inr (fst (handle_exchange demo_ser demo_de io_perfect fb req))) ''b'' fa)
   in set (ops (load demo_de fa')) = {demo_op ''a'', demo_op ''b''}"
proof -
  let ?f = "\<lambda>n. snd (append_many demo_ser io_perfect None [demo_op n])"
  have ok: "serde_ok demo_ser demo_de {demo_op ''a''}" "serde_ok demo_ser demo_de {demo_op ''b''}"
    using serde_ok_demo serde_ok_insert [of _ _ "{demo_op ''a'', demo_op ''b''}"] by auto
  have "line_aligned (?f n) \<and> ops (load demo_de (?f n)) = [demo_op n]" if "serde_ok demo_ser demo_de {demo_op n}" for n
    using append_many_result [of demo_ser demo_de "[demo_op n]" None io_perfect]
      append_many_perfect [of demo_ser demo_de "[demo_op n]" None] that
    by (simp add: line_aligned_def [of None] load_def [of _ None] opset_new_def)
  with ok have "line_aligned (?f ''a'')" "ops (load demo_de (?f ''a'')) = logs demo_net ''a''"
    "line_aligned (?f ''b'')" "ops (load demo_de (?f ''b'')) = logs demo_net ''b''"
    by (simp_all add: demo_net_logs)
  with exchange_converges [OF demo_net_reachable, of demo_ser demo_de "?f ''a''" "''a''" "?f ''b''" "''b''"]
  show ?thesis using serde_ok_demo by (auto simp: demo_net_logs Let_def case_prod_beta)
qed

text \<open>
  A gap is never repaired: an operation that a node stamped and whose clock the peer's
  observed clock dominates is withheld from the peer, also when its id is not among the ids the
  peer lists.
\<close>

theorem needs_withholds_dominated:
  assumes "stamped op" and "vc_le (op_clock op) (rv_observed v)"
  shows "\<not> needs v (op_clock op) (op_id op)"
proof -
  have "\<not> vc_get (rv_observed v) (oi_node (op_id op)) < oi_counter (op_id op)"
    using assms unfolding stamped_def vc_le_def by (metis not_le)
  then show ?thesis using assms(2) by (simp add: needs_def vc_compare_flags)
qed

theorem needs_withholds_dominated_witness:
  "let c = fst (vc_increment vc_new ''a'');
       second = new_text c (principal_service ''a'') ''f.rs'' ''sha'' ''later'';
       view = from_log (OpSet [second])
   in op_id (demo_op ''a'') \<notin> set (rv_seen_ids view)
     \<and> \<not> needs view (op_clock (demo_op ''a'')) (op_id (demo_op ''a''))"
proof -
  define c where "c = fst (vc_increment vc_new ''a'')"
  define second where "second = new_text c (principal_service ''a'') ''f.rs'' ''sha'' ''later''"
  have clk: "op_clock (demo_op ''a'') = c"
    by (simp add: demo_op_def new_text_def principal_service_def c_def case_prod_beta)
  have two: "op_id second = OpId ''a'' 2" "op_clock second = fst (vc_increment c ''a'')"
    by (simp_all add: second_def new_text_def principal_service_def case_prod_beta c_def)
  have ok: "vc_ok c" by (simp add: c_def)
  have obs: "vc_get (rv_observed (from_log (OpSet [second]))) n = vc_get (fst (vc_increment c ''a'')) n" for n
    using vc_get_observed_snoc [of second "[]" n] ok by (simp add: two from_log_Nil)
  have "stamped (demo_op ''a'')" by (simp add: stamped_def clk ok) (simp add: c_def)
  moreover have "vc_le (op_clock (demo_op ''a'')) (rv_observed (from_log (OpSet [second])))"
    unfolding vc_le_def clk obs by (simp add: c_def)
  ultimately have "\<not> needs (from_log (OpSet [second])) (op_clock (demo_op ''a'')) (op_id (demo_op ''a''))"
    by (rule needs_withholds_dominated)
  moreover have "op_id (demo_op ''a'') \<notin> set (rv_seen_ids (from_log (OpSet [second])))"
    by (simp add: two)
  ultimately show ?thesis by (simp add: second_def c_def)
qed

end
