(* ===== verification/Text_Merge.thy ===== *)
theory Text_Merge
  imports Op_Log
begin

text \<open>
  Convergence of file contents (\<open>velocity-mcp/src/automation/merge.rs\<close>): the
  \<open>MergePolicy\<close> seam, the policy \<open>LastWriteWins\<close>, and \<open>materialize_text\<close>,
  which computes the head of every path.  The trait is a function argument of
  \<open>materialize_text\<close>; the locale \<open>merge_policy\<close> states what a policy has to promise
  for the heads to converge, and \<open>LastWriteWins\<close> is shown to keep the promise.
\<close>

record TextHead =
  th_op_id :: OpId
  th_digest :: string

type_synonym MergePolicy = "Op list \<Rightarrow> TextHead option"

definition rank :: "Op \<Rightarrow> u64 \<times> OpId" where
  "rank op = (vc_total (op_clock op), op_id op)"

definition better :: "Op \<Rightarrow> Op option \<Rightarrow> Op option" where
  "better op best = (if (case best of None \<Rightarrow> True | Some b \<Rightarrow> rank op > rank b) then Some op else best)"

definition lww_resolve_text :: MergePolicy where
  "lww_resolve_text candidates =
     (case fold better candidates None of
        Some op \<Rightarrow> (case op_effect op of
            Text _ digest \<Rightarrow> Some \<lparr>th_op_id = op_id op, th_digest = digest\<rparr>
          | _ \<Rightarrow> None)
      | None \<Rightarrow> None)"

definition text_path :: "Op \<Rightarrow> component list option" where
  "text_path op = (case op_effect op of Text path _ \<Rightarrow> Some (components path) | _ \<Rightarrow> None)"

definition materialize_text :: "OpSet \<Rightarrow> MergePolicy \<Rightarrow> (component list \<times> TextHead) list" where
  "materialize_text s policy =
     (let by_path = fold (\<lambda>op m. case text_path op of None \<Rightarrow> m
            | Some p \<Rightarrow> bt_entry p [] (\<lambda>l. l @ [op]) m) (ops s) []
      in fold (\<lambda>(p, candidates) heads. case policy candidates of None \<Rightarrow> heads
            | Some head \<Rightarrow> bt_insert p head heads) by_path [])"

lemma text_path_Some:
  "text_path op = Some p \<longleftrightarrow> (\<exists>path digest. op_effect op = Text path digest \<and> components path = p)"
  by (auto simp: text_path_def split: OpEffect.splits)

section \<open>What a policy owes its callers\<close>

lemma fold_snoc: "fold (\<lambda>x l. l @ [x]) xs ys = ys @ xs"
  by (induction xs arbitrary: ys) auto

lemma map_of_materialize_text:
  "map_of (materialize_text s policy) p =
     (let cs = filter (\<lambda>op. text_path op = Some p) (ops s) in if cs = [] then None else policy cs)"
proof -
  define m where "m = fold (\<lambda>op m. case text_path op of None \<Rightarrow> m
    | Some p \<Rightarrow> bt_entry p [] (\<lambda>l. l @ [op]) m) (ops s) []"
  have "bt_ok m" unfolding m_def by (rule bt_ok_group) simp
  moreover have "map_of m p = (let cs = filter (\<lambda>op. text_path op = Some p) (ops s) in
      if cs = [] then None else Some cs)"
    unfolding m_def map_of_group by (simp add: fold_snoc Let_def)
  ultimately show ?thesis
    unfolding materialize_text_def m_def [symmetric] Let_def
    by (subst map_of_collect) (auto simp: bt_ok_distinct Let_def split: option.splits)
qed

lemma bt_ok_materialize_text: "bt_ok (materialize_text s policy)"
  unfolding materialize_text_def Let_def by (rule bt_ok_collect) simp

locale merge_policy =
  fixes resolve :: MergePolicy
  assumes resolve_set: "unique_ids (set cs) \<Longrightarrow> set cs = set cs' \<Longrightarrow> resolve cs = resolve cs'"
    and resolve_candidate: "resolve cs = Some h \<Longrightarrow> \<exists>op\<in>set cs. th_op_id h = op_id op"
begin

lemma heads_converge:
  assumes "unique_ids (set (ops s))" and "set (ops s) = set (ops s')"
  shows "materialize_text s resolve = materialize_text s' resolve"
proof (rule bt_ext [OF bt_ok_materialize_text bt_ok_materialize_text], rule ext)
  fix p
  let ?c = "\<lambda>s. filter (\<lambda>op. text_path op = Some p) (ops s)"
  have set: "set (?c s) = set (?c s')" using assms(2) by simp
  moreover have "unique_ids (set (?c s))" using assms(1) by (auto simp: unique_ids_def)
  ultimately have "resolve (?c s) = resolve (?c s')" by (intro resolve_set)
  moreover have "?c s = [] \<longleftrightarrow> ?c s' = []" using set by (metis set_empty)
  ultimately show "map_of (materialize_text s resolve) p = map_of (materialize_text s' resolve) p"
    by (simp add: map_of_materialize_text)
qed

lemma head_is_write:
  assumes "map_of (materialize_text s resolve) p = Some h"
  shows "\<exists>op\<in>set (ops s). text_path op = Some p \<and> th_op_id h = op_id op"
  using assms resolve_candidate
  by (fastforce simp: map_of_materialize_text Let_def split: if_splits)

end

section \<open>Last write wins keeps the promise\<close>

interpretation lww_best: lww_fold better "\<lambda>m (_ :: unit). m" "\<lambda>_. ()" "\<lambda>op. op" rank
  by unfold_locales (auto simp: better_def split: option.splits)

lemma best_char:
  assumes "unique_ids (set cs)"
  shows "fold better cs None = Some op \<longleftrightarrow> op \<in> set cs \<and> (\<forall>op'\<in>set cs. rank op' \<le> rank op)"
proof -
  have "fold better cs None = Some op \<longleftrightarrow>
      (\<exists>e\<in>set cs. () = () \<and> e = op \<and> (\<forall>e'\<in>set cs. () = () \<longrightarrow> rank e' \<le> rank op))"
    by (rule lww_best.look_fold_char) (use assms in \<open>auto simp: rank_def unique_ids_def\<close>)
  then show ?thesis by auto
qed

lemma best_cong:
  assumes "unique_ids (set cs)" and "set cs = set cs'"
  shows "fold better cs None = fold better cs' None"
  by (metis (full_types) assms best_char not_None_eq)

interpretation lww: merge_policy lww_resolve_text
proof
  show "lww_resolve_text cs = lww_resolve_text cs'"
    if "unique_ids (set cs)" and "set cs = set cs'" for cs cs'
    using best_cong [OF that] by (simp add: lww_resolve_text_def)
  show "\<exists>op\<in>set cs. th_op_id h = op_id op" if "lww_resolve_text cs = Some h" for cs h
    using that lww_best.look_fold_origin [of cs None]
    by (fastforce simp: lww_resolve_text_def split: option.splits OpEffect.splits)
qed

section \<open>Properties\<close>

text \<open>
  The text heads converge: under last-write-wins, \<open>materialize_text\<close> depends only on
  the set of operations, and the head of a path is the write to that path with the greatest
  rank (magnitude of its clock, then its \<open>OpId\<close>), with that write's digest.
\<close>

theorem materialize_text_converges:
  assumes "unique_ids (set (ops s))" and "set (ops s) = set (ops s')"
  shows "materialize_text s lww_resolve_text = materialize_text s' lww_resolve_text
    \<and> (map_of (materialize_text s lww_resolve_text) p = Some h \<longleftrightarrow>
        (\<exists>op\<in>set (ops s). \<exists>path. op_effect op = Text path (th_digest h) \<and> components path = p
           \<and> op_id op = th_op_id h
           \<and> (\<forall>op'\<in>set (ops s). text_path op' = Some p \<longrightarrow> rank op' \<le> rank op)))"
proof
  show "materialize_text s lww_resolve_text = materialize_text s' lww_resolve_text"
    using assms by (rule lww.heads_converge)
  let ?cs = "filter (\<lambda>op. text_path op = Some p) (ops s)"
  have u: "unique_ids (set ?cs)" using assms(1) by (auto simp: unique_ids_def)
  have "map_of (materialize_text s lww_resolve_text) p = lww_resolve_text ?cs"
    by (simp add: map_of_materialize_text Let_def lww_resolve_text_def)
  also have "\<dots> = Some h \<longleftrightarrow> (\<exists>op. fold better ?cs None = Some op \<and>
      (\<exists>path. op_effect op = Text path (th_digest h)) \<and> op_id op = th_op_id h)"
    by (cases h) (auto simp: lww_resolve_text_def split: option.splits OpEffect.splits)
  also have "\<dots> \<longleftrightarrow> (\<exists>op\<in>set (ops s). \<exists>path. op_effect op = Text path (th_digest h)
      \<and> components path = p \<and> op_id op = th_op_id h
      \<and> (\<forall>op'\<in>set (ops s). text_path op' = Some p \<longrightarrow> rank op' \<le> rank op))"
    unfolding best_char [OF u] Bex_def by (rule ex_cong1) (auto simp: text_path_Some)
  finally show "map_of (materialize_text s lww_resolve_text) p = Some h \<longleftrightarrow> \<dots>" .
qed

theorem materialize_text_converges_witness:
  "let a = new_text vc_new (principal_service ''a'') ''f.rs'' ''sha1'' ''one'';
       b = new_text vc_new (principal_service ''b'') ''./f.rs'' ''sha2'' ''two''
   in materialize_text (OpSet [a, b]) lww_resolve_text = materialize_text (OpSet [b, a, b]) lww_resolve_text"
proof -
  define a where "a = new_text vc_new (principal_service ''a'') ''f.rs'' ''sha1'' ''one''"
  define b where "b = new_text vc_new (principal_service ''b'') ''./f.rs'' ''sha2'' ''two''"
  have "op_id a \<noteq> op_id b"
    by (simp add: a_def b_def new_text_def principal_service_def vc_increment_def Let_def)
  then have "unique_ids (set (ops (OpSet [a, b])))" by (auto simp: unique_ids_def)
  moreover have "set (ops (OpSet [a, b])) = set (ops (OpSet [b, a, b]))" by auto
  ultimately show ?thesis using materialize_text_converges by (simp add: a_def b_def)
qed

end
