(* ===== verification/Partition.thy ===== *)
theory Partition
  imports Op_Log
begin

text \<open>
  Partitioned convergence (\<open>velocity-mcp/src/automation/partition.rs\<close>): the log is split
  into sub-logs by a key of each operation and every sub-log is materialized on its own.  The
  granularity is the caller's: the key is a function argument.
\<close>

type_synonym PartitionKey = string

definition GLOBAL :: PartitionKey where
  "GLOBAL = ''''"

definition default_partition_key :: "Op \<Rightarrow> PartitionKey" where
  "default_partition_key op =
     (case op_effect op of
        Triple t \<Rightarrow> te_file_path t
      | Claim scope _ \<Rightarrow> scope
      | Release scope \<Rightarrow> scope
      | Text path _ \<Rightarrow> path
      | Legacy \<Rightarrow> GLOBAL
      | Approve _ _ \<Rightarrow> GLOBAL)"

definition partition_by :: "OpSet \<Rightarrow> (Op \<Rightarrow> PartitionKey) \<Rightarrow> (PartitionKey \<times> OpSet) list" where
  "partition_by s key = fold (\<lambda>op m. bt_entry (key op) opset_new (\<lambda>sub. opset_push sub op) m) (ops s) []"

definition materialize_partitioned ::
  "OpSet \<Rightarrow> (Op \<Rightarrow> PartitionKey) \<Rightarrow> (PartitionKey \<times> MaterializedState) list" where
  "materialize_partitioned s key = map (\<lambda>(k, sub). (k, materialize sub)) (partition_by s key)"

definition union_live_triples :: "(PartitionKey \<times> MaterializedState) list \<Rightarrow> TripleKey list" where
  "union_live_triples partitions = bset_of (concat (map (live_triples \<circ> snd) partitions))"

section \<open>The sub-logs\<close>

lemma fold_push: "fold (\<lambda>op sub. opset_push sub op) xs s = OpSet (ops s @ xs)"
  by (induction xs arbitrary: s) (auto simp: opset_push_def)

lemma map_of_partition_by:
  "map_of (partition_by s key) k =
     (let sub = filter (\<lambda>op. key op = k) (ops s) in if sub = [] then None else Some (OpSet sub))"
  using map_of_group [where key = "\<lambda>op. Some (key op)" and d = opset_new
      and push = "\<lambda>op sub. opset_push sub op" and xs = "ops s" and m = "[]" and k = k]
  by (simp add: partition_by_def fold_push opset_new_def Let_def)

lemma bt_ok_partition_by: "bt_ok (partition_by s key)"
  using bt_ok_group [where key = "\<lambda>op. Some (key op)" and d = opset_new
      and push = "\<lambda>op sub. opset_push sub op" and xs = "ops s" and m = "[]"]
  by (simp add: partition_by_def)

lemma set_partition_by:
  "(k, sub) \<in> set (partition_by s key) \<longleftrightarrow>
     sub = OpSet (filter (\<lambda>op. key op = k) (ops s)) \<and> (\<exists>op\<in>set (ops s). key op = k)"
proof -
  have "(k, sub) \<in> set (partition_by s key) \<longleftrightarrow> map_of (partition_by s key) k = Some sub"
    by (simp add: bt_ok_distinct bt_ok_partition_by)
  then show ?thesis by (auto simp: map_of_partition_by Let_def filter_empty_conv)
qed

lemma live_triples_sorted: "sorted_wrt (<) (live_triples (materialize s))"
  using bt_ok_filter [OF bt_ok_winners(1)] by (simp add: materialize_winners bt_ok_def)

text \<open>A sub-log that holds every operation touching an edge decides it as the whole log does.\<close>

lemma live_in_sublog:
  assumes "unique_ids (set (ops s))"
    and "\<And>op. op \<in> set (ops s) \<Longrightarrow> e \<in> touched op \<Longrightarrow> P op"
  shows "e \<in> set (live_triples (materialize (OpSet (filter P (ops s))))) \<longleftrightarrow>
    e \<in> set (live_triples (materialize s))"
proof -
  have u: "unique_ids (set (filter P (ops s)))" using assms(1) by (auto simp: unique_ids_def)
  have "map_of (triple_winners (filter P (ops s))) e = Some w \<longleftrightarrow>
      map_of (triple_winners (ops s)) e = Some w" for w
    using map_of_triple_winners [OF assms(1)] map_of_triple_winners [OF u] assms(2)
    by (cases w) auto
  then show ?thesis by (simp add: live_triples_iff_winner)
qed

lemma live_touched:
  assumes "unique_ids (set (ops s))" and "e \<in> set (live_triples (materialize s))"
  shows "\<exists>op\<in>set (ops s). e \<in> touched op"
  using assms(2) map_of_triple_winners [OF assms(1)] by (auto simp: live_triples_iff_winner)

section \<open>Properties\<close>

text \<open>
  Partitioning is policy, not correctness: when the operations that touch an edge all
  belong to one file, then for every granularity that keeps a file's operations together the
  union of the partitions' live edges is exactly the live set of the single global fold.
\<close>

theorem partitioned_fold_is_global:
  assumes "unique_ids (set (ops s))"
    and "\<forall>op\<in>set (ops s). \<forall>op'\<in>set (ops s). touched op \<inter> touched op' \<noteq> {} \<longrightarrow>
      default_partition_key op = default_partition_key op'"
    and "\<forall>op\<in>set (ops s). \<forall>op'\<in>set (ops s).
      default_partition_key op = default_partition_key op' \<longrightarrow> key op = key op'"
  shows "union_live_triples (materialize_partitioned s key) = live_triples (materialize s)"
  unfolding union_live_triples_def
proof (rule bset_of_unique [OF live_triples_sorted], rule set_eqI)
  fix e
  let ?sub = "\<lambda>k. OpSet (filter (\<lambda>op. key op = k) (ops s))"
  have one: "key op' = key op" if "op \<in> set (ops s)" "op' \<in> set (ops s)" "e \<in> touched op" "e \<in> touched op'" for op op'
    using that assms(2,3) by blast
  have "e \<in> set (concat (map (live_triples \<circ> snd) (materialize_partitioned s key))) \<longleftrightarrow>
      (\<exists>op\<in>set (ops s). e \<in> set (live_triples (materialize (?sub (key op)))))"
  proof -
    have "set (concat (map (live_triples \<circ> snd) (materialize_partitioned s key))) =
        {e. \<exists>k sub. (k, sub) \<in> set (partition_by s key) \<and> e \<in> set (live_triples (materialize sub))}"
      by (force simp: materialize_partitioned_def)
    then show ?thesis by (auto simp: set_partition_by)
  qed
  also have "\<dots> \<longleftrightarrow> e \<in> set (live_triples (materialize s))"
  proof
    assume "\<exists>op\<in>set (ops s). e \<in> set (live_triples (materialize (?sub (key op))))"
    then obtain op where op: "op \<in> set (ops s)" "e \<in> set (live_triples (materialize (?sub (key op))))" by blast
    have "unique_ids (set (ops (?sub (key op))))" using assms(1) by (auto simp: unique_ids_def)
    from live_touched [OF this op(2)] obtain op' where
      "op' \<in> set (ops s)" "key op' = key op" "e \<in> touched op'" by auto
    with live_in_sublog [OF assms(1), of e "\<lambda>x. key x = key op"] one op(2)
    show "e \<in> set (live_triples (materialize s))" by metis
  next
    assume live: "e \<in> set (live_triples (materialize s))"
    from live_touched [OF assms(1) live] obtain op where "op \<in> set (ops s)" "e \<in> touched op" by blast
    with live_in_sublog [OF assms(1), of e "\<lambda>x. key x = key op"] one live
    show "\<exists>op\<in>set (ops s). e \<in> set (live_triples (materialize (?sub (key op))))" by metis
  qed
  finally show "e \<in> set (concat (map (live_triples \<circ> snd) (materialize_partitioned s key))) \<longleftrightarrow> \<dots>" .
qed

theorem partitioned_fold_is_global_witness:
  "let t = \<lparr>subject_hash = 1, predicate_id = 2, object_hash = 3\<rparr>;
       u = \<lparr>subject_hash = 4, predicate_id = 2, object_hash = 5\<rparr>;
       a = new_triple vc_new (principal_service ''a'') ''f.rs'' [t] [] ''add'';
       b = new_triple vc_new (principal_service ''b'') ''g.rs'' [u] [] ''add''
   in union_live_triples (materialize_partitioned (OpSet [a, b]) default_partition_key)
      = live_triples (materialize (OpSet [a, b]))"
proof -
  define t where "t = \<lparr>subject_hash = (1::u64), predicate_id = (2::u16), object_hash = (3::u64)\<rparr>"
  define u where "u = \<lparr>subject_hash = (4::u64), predicate_id = (2::u16), object_hash = (5::u64)\<rparr>"
  define a where "a = new_triple vc_new (principal_service ''a'') ''f.rs'' [t] [] ''add''"
  define b where "b = new_triple vc_new (principal_service ''b'') ''g.rs'' [u] [] ''add''"
  have "op_id a \<noteq> op_id b"
    by (simp add: a_def b_def new_triple_def principal_service_def vc_increment_def Let_def)
  then have uq: "unique_ids (set (ops (OpSet [a, b])))" by (auto simp: unique_ids_def)
  have "touched a = {key_of t}" "touched b = {key_of u}"
    by (simp_all add: a_def b_def new_triple_def touched_def adds_def rms_def vc_increment_def Let_def)
  moreover have "key_of t \<noteq> key_of u" by (simp add: t_def u_def key_of_def)
  ultimately have "union_live_triples (materialize_partitioned (OpSet [a, b]) default_partition_key)
      = live_triples (materialize (OpSet [a, b]))"
    by (intro partitioned_fold_is_global [OF uq]) auto
  then show ?thesis by (simp add: a_def b_def t_def u_def)
qed

end
