(* ===== verification/Site_Map.thy ===== *)
theory Site_Map
  imports Op_Log
begin

text \<open>
  The snapshot side of the site map (\<open>velocity-ide/src/site_map/store.rs\<close>): the index of
  content-addressed entries with its Merkle root, the file snapshots that hold the live edges,
  the two in-memory caches in front of them and the edge queries.  SHA-256 and the JSON
  serializer are the parameters \<open>sha\<close>, \<open>ser\<close> and \<open>de\<close>; the directory is the
  map \<open>files\<close> from file names to contents.  \<open>HashMap\<close> fields are association lists with
  distinct keys, in any order.
\<close>

section \<open>Bytes\<close>

definition from_le_bytes :: "u8 list \<Rightarrow> u64" where
  "from_le_bytes bs = sum_list (map (\<lambda>(i, b). word_of_nat (unat b * 256 ^ i)) (enumerate 0 (take 8 bs)))"

definition to_le_bytes :: "u64 \<Rightarrow> string" where
  "to_le_bytes w = map (\<lambda>i. char_of (unat w div 256 ^ i mod 256 :: nat)) [0..<8]"

definition hex_bytes :: "u8 list \<Rightarrow> string" where
  "hex_bytes bs = concat (map (\<lambda>b. [digit_char (unat b div 16), digit_char (unat b mod 16)]) bs)"

definition hash_str :: "(string \<Rightarrow> u8 list) \<Rightarrow> string \<Rightarrow> u64" where
  "hash_str sha s = from_le_bytes (sha s)"

section \<open>The store\<close>

datatype EntryKind = Kv | Node | Program | Snapshot

record SiteMapEntry =
  en_kind :: EntryKind
  en_hash :: u64
  en_file :: string
  en_file_sha :: string
  en_size :: u64

datatype IndexRootCheck = NoIndexOnDisk | NoClaimedRoot | Matches u64 | Mismatch u64 u64 | Unflushed

record SiteMap =
  sm_files :: "string \<Rightarrow> string option"
  sm_index :: "(u64 \<times> SiteMapEntry) list"
  sm_root :: u64
  sm_root_check :: IndexRootCheck
  snapshot_triples_cache :: "(u64 \<times> VcTriple list) list"
  node_triples_cache :: "(u64 \<times> VcTriple list) list"
  predicate_index :: "(u16 \<times> VcTriple list) list option"

datatype sm_error = SerializeError | WriteError | RemoveError

definition index_root_label :: "IndexRootCheck \<Rightarrow> string" where
  "index_root_label c = (case c of NoIndexOnDisk \<Rightarrow> ''no_index_on_disk'' | NoClaimedRoot \<Rightarrow> ''no_claimed_root''
     | Matches _ \<Rightarrow> ''matches'' | Mismatch _ _ \<Rightarrow> ''mismatch'' | Unflushed \<Rightarrow> ''unflushed'')"

definition snapshot_hash :: "(string \<Rightarrow> u8 list) \<Rightarrow> string \<Rightarrow> u64" where
  "snapshot_hash sha file_path = from_le_bytes (sha (''snapshot'' @ file_path))"

definition file_sha :: "(string \<Rightarrow> u8 list) \<Rightarrow> string \<Rightarrow> string" where
  "file_sha sha data = hex_bytes (sha data)"

definition verify_file_sha :: "(string \<Rightarrow> u8 list) \<Rightarrow> string \<Rightarrow> string \<Rightarrow> bool" where
  "verify_file_sha sha data expected \<longleftrightarrow> hex_bytes (sha data) = expected"

definition compute_index_root :: "(string \<Rightarrow> u8 list) \<Rightarrow> SiteMapEntry list \<Rightarrow> u64" where
  "compute_index_root sha entries =
     from_le_bytes (sha (''IDX'' @ concat (map to_le_bytes (sort (map en_hash entries)))))"

definition recompute_root :: "(string \<Rightarrow> u8 list) \<Rightarrow> SiteMap \<Rightarrow> SiteMap" where
  "recompute_root sha s =
     s\<lparr>sm_root := compute_index_root sha (map snd (sm_index s)),
       sm_root_check := (case sm_root_check s of Mismatch a b \<Rightarrow> Mismatch a b | _ \<Rightarrow> Unflushed)\<rparr>"

definition invalidate_predicate_index :: "SiteMap \<Rightarrow> SiteMap" where
  "invalidate_predicate_index s = s\<lparr>predicate_index := None\<rparr>"

definition snapshot_file :: "u64 \<Rightarrow> string" where
  "snapshot_file key = ''snapshots/'' @ hex16 key @ ''.json''"

definition snapshot_entry :: "(string \<Rightarrow> u8 list) \<Rightarrow> u64 \<Rightarrow> string \<Rightarrow> SiteMapEntry" where
  "snapshot_entry sha key data =
     \<lparr>en_kind = Snapshot, en_hash = key, en_file = snapshot_file key,
      en_file_sha = file_sha sha data, en_size = word_of_nat (length data)\<rparr>"

text \<open>
  Writing one snapshot, which \<open>put_file_snapshot\<close> and the batch share: \<open>wr\<close> is \<open>None\<close>
  for a complete write and \<open>Some n\<close> for one that stops after \<open>n\<close> bytes of the truncated
  file.
\<close>

definition write_snapshot ::
  "(string \<Rightarrow> u8 list) \<Rightarrow> (VcTriple list \<Rightarrow> string option) \<Rightarrow> nat option \<Rightarrow> SiteMap \<Rightarrow> string \<Rightarrow> VcTriple list
     \<Rightarrow> (sm_error + u64) \<times> SiteMap" where
  "write_snapshot sha ser wr s file_path triples =
     (let key = snapshot_hash sha file_path in
      case ser triples of
        None \<Rightarrow> (Inl SerializeError, s)
      | Some data \<Rightarrow>
          (let name = snapshot_file key in
           case wr of
             Some n \<Rightarrow> (Inl WriteError, s\<lparr>sm_files := (sm_files s)(name \<mapsto> take n data)\<rparr>)
           | None \<Rightarrow>
               (let entry = snapshot_entry sha key data
                in (Inr key, s\<lparr>sm_files := (sm_files s)(name \<mapsto> data),
                      sm_index := AList.update key entry (sm_index s),
                      snapshot_triples_cache := AList.update key triples (snapshot_triples_cache s)\<rparr>))))"

definition put_file_snapshot ::
  "(string \<Rightarrow> u8 list) \<Rightarrow> (VcTriple list \<Rightarrow> string option) \<Rightarrow> nat option \<Rightarrow> SiteMap \<Rightarrow> string \<Rightarrow> VcTriple list
     \<Rightarrow> (sm_error + u64) \<times> SiteMap" where
  "put_file_snapshot sha ser wr s file_path triples =
     (case write_snapshot sha ser wr s file_path triples of
        (Inl e, s') \<Rightarrow> (Inl e, s')
      | (Inr key, s') \<Rightarrow> (Inr key, invalidate_predicate_index (recompute_root sha s')))"

text \<open>The loop of \<open>put_file_snapshots_batch\<close>: an error leaves the loop, and the function,
  before the root is recomputed.\<close>

fun write_snapshots ::
  "(string \<Rightarrow> u8 list) \<Rightarrow> (VcTriple list \<Rightarrow> string option) \<Rightarrow> (nat \<Rightarrow> nat option) \<Rightarrow> nat \<Rightarrow> SiteMap
     \<Rightarrow> (string \<times> VcTriple list) list \<Rightarrow> (sm_error + u64 list) \<times> SiteMap" where
  "write_snapshots sha ser wr i s [] = (Inr [], s)"
| "write_snapshots sha ser wr i s ((file_path, triples) # rest) =
     (case write_snapshot sha ser (wr i) s file_path triples of
        (Inl e, s') \<Rightarrow> (Inl e, s')
      | (Inr key, s') \<Rightarrow>
          (case write_snapshots sha ser wr (Suc i) s' rest of
             (Inl e, s'') \<Rightarrow> (Inl e, s'')
           | (Inr keys, s'') \<Rightarrow> (Inr (key # keys), s'')))"

definition put_file_snapshots_batch ::
  "(string \<Rightarrow> u8 list) \<Rightarrow> (VcTriple list \<Rightarrow> string option) \<Rightarrow> (nat \<Rightarrow> nat option) \<Rightarrow> SiteMap
     \<Rightarrow> (string \<times> VcTriple list) list \<Rightarrow> (sm_error + u64 list) \<times> SiteMap" where
  "put_file_snapshots_batch sha ser wr s snapshots =
     (case write_snapshots sha ser wr 0 s snapshots of
        (Inl e, s') \<Rightarrow> (Inl e, s')
      | (Inr keys, s') \<Rightarrow> (Inr keys, invalidate_predicate_index (recompute_root sha s')))"

text \<open>\<open>rm\<close> tells whether \<open>fs::remove_file\<close> succeeds.\<close>

definition remove_file_snapshot ::
  "(string \<Rightarrow> u8 list) \<Rightarrow> bool \<Rightarrow> SiteMap \<Rightarrow> string \<Rightarrow> (sm_error + bool) \<times> SiteMap" where
  "remove_file_snapshot sha rm s file_path =
     (let key = snapshot_hash sha file_path in
      case map_of (sm_index s) key of
        None \<Rightarrow> (Inr False, s)
      | Some entry \<Rightarrow>
          (let s1 = s\<lparr>sm_index := AList.delete key (sm_index s)\<rparr> in
           if sm_files s (en_file entry) \<noteq> None \<and> \<not> rm then (Inl RemoveError, s1)
           else (let s2 = s1\<lparr>sm_files := (sm_files s)(en_file entry := None),
                      snapshot_triples_cache := AList.delete key (snapshot_triples_cache s),
                      node_triples_cache := filter (\<lambda>(h, _). map_of (sm_index s1) h \<noteq> None) (node_triples_cache s)\<rparr>
                 in (Inr True, invalidate_predicate_index (recompute_root sha s2)))))"

section \<open>Queries\<close>

text \<open>One iteration of \<open>collect_live_snapshot_triples\<close>: the triples gathered and the cache.\<close>

definition collect_entry ::
  "(string \<Rightarrow> u8 list) \<Rightarrow> (string \<Rightarrow> VcTriple list option) \<Rightarrow> (string \<Rightarrow> string option) \<Rightarrow> SiteMapEntry
     \<Rightarrow> VcTriple list \<times> (u64 \<times> VcTriple list) list \<Rightarrow> VcTriple list \<times> (u64 \<times> VcTriple list) list" where
  "collect_entry sha de fs entry acc =
     (case acc of (all_triples, cache) \<Rightarrow>
        if en_kind entry \<noteq> Snapshot then acc
        else (case map_of cache (en_hash entry) of
            Some cached \<Rightarrow> (all_triples @ cached, cache)
          | None \<Rightarrow>
              (case fs (en_file entry) of
                 None \<Rightarrow> acc
               | Some data \<Rightarrow>
                   if \<not> verify_file_sha sha data (en_file_sha entry) then acc
                   else (case de data of
                       None \<Rightarrow> acc
                     | Some triples \<Rightarrow>
                         (all_triples @ triples, AList.update (en_hash entry) triples cache)))))"

definition collect_live_snapshot_triples ::
  "(string \<Rightarrow> u8 list) \<Rightarrow> (string \<Rightarrow> VcTriple list option) \<Rightarrow> SiteMap \<Rightarrow> VcTriple list \<times> SiteMap" where
  "collect_live_snapshot_triples sha de s =
     (let (all_triples, cache) = fold (collect_entry sha de (sm_files s)) (map snd (sm_index s)) ([], snapshot_triples_cache s)
      in (all_triples, s\<lparr>snapshot_triples_cache := cache\<rparr>))"

definition filter_triples ::
  "VcTriple list \<Rightarrow> u64 option \<Rightarrow> u16 option \<Rightarrow> u64 option \<Rightarrow> VcTriple list" where
  "filter_triples triples subject predicate object =
     filter (\<lambda>t. (case subject of Some x \<Rightarrow> subject_hash t = x | None \<Rightarrow> True)
        \<and> (case predicate of Some p \<Rightarrow> predicate_id t = p | None \<Rightarrow> True)
        \<and> (case object of Some x \<Rightarrow> object_hash t = x | None \<Rightarrow> True)) triples"

definition find_live_triples ::
  "(string \<Rightarrow> u8 list) \<Rightarrow> (string \<Rightarrow> VcTriple list option) \<Rightarrow> SiteMap \<Rightarrow> u64 option \<Rightarrow> u16 option \<Rightarrow> u64 option
     \<Rightarrow> VcTriple list \<times> SiteMap" where
  "find_live_triples sha de s subject predicate object =
     (let (ts, s') = collect_live_snapshot_triples sha de s
      in (filter_triples ts subject predicate object, s'))"

definition get_callers ::
  "(string \<Rightarrow> u8 list) \<Rightarrow> (string \<Rightarrow> VcTriple list option) \<Rightarrow> SiteMap \<Rightarrow> u64 \<Rightarrow> u64 list \<times> SiteMap" where
  "get_callers sha de s method_hash =
     (let (ts, s') = find_live_triples sha de s None (Some 2) (Some method_hash)
      in (map subject_hash ts, s'))"

definition get_dependencies ::
  "(string \<Rightarrow> u8 list) \<Rightarrow> (string \<Rightarrow> VcTriple list option) \<Rightarrow> SiteMap \<Rightarrow> u64 \<Rightarrow> u64 list \<times> SiteMap" where
  "get_dependencies sha de s method_hash =
     (let (ts, s') = find_live_triples sha de s (Some method_hash) None None
      in (map object_hash ts, s'))"

definition predicate_groups :: "VcTriple list \<Rightarrow> (u16 \<times> VcTriple list) list" where
  "predicate_groups ts =
     fold (\<lambda>t m. AList.update (predicate_id t)
             ((case map_of m (predicate_id t) of None \<Rightarrow> [] | Some l \<Rightarrow> l) @ [t]) m) ts []"

definition find_live_by_predicate ::
  "(string \<Rightarrow> u8 list) \<Rightarrow> (string \<Rightarrow> VcTriple list option) \<Rightarrow> SiteMap \<Rightarrow> u16 \<Rightarrow> VcTriple list \<times> SiteMap" where
  "find_live_by_predicate sha de s p =
     (case predicate_index s of
        Some idx \<Rightarrow> ((case map_of idx p of Some ts \<Rightarrow> ts | None \<Rightarrow> []), s)
      | None \<Rightarrow>
          (let (al, s') = collect_live_snapshot_triples sha de s; idx = predicate_groups al
           in ((case map_of idx p of Some ts \<Rightarrow> ts | None \<Rightarrow> []), s'\<lparr>predicate_index := Some idx\<rparr>)))"

definition find_live_by_subjects ::
  "(string \<Rightarrow> u8 list) \<Rightarrow> (string \<Rightarrow> VcTriple list option) \<Rightarrow> SiteMap \<Rightarrow> u64 list \<Rightarrow> VcTriple list \<times> SiteMap" where
  "find_live_by_subjects sha de s subjects =
     (let (ts, s') = collect_live_snapshot_triples sha de s
      in (filter (\<lambda>t. subject_hash t \<in> set subjects) ts, s'))"

definition find_live_by_objects ::
  "(string \<Rightarrow> u8 list) \<Rightarrow> (string \<Rightarrow> VcTriple list option) \<Rightarrow> SiteMap \<Rightarrow> u64 list \<Rightarrow> VcTriple list \<times> SiteMap" where
  "find_live_by_objects sha de s objects =
     (let (ts, s') = collect_live_snapshot_triples sha de s
      in (filter (\<lambda>t. object_hash t \<in> set objects) ts, s'))"

section \<open>What a state holds\<close>

text \<open>The triples an index entry contributes, and those of the whole store.\<close>

definition entry_triples ::
  "(string \<Rightarrow> u8 list) \<Rightarrow> (string \<Rightarrow> VcTriple list option) \<Rightarrow> (string \<Rightarrow> string option)
     \<Rightarrow> (u64 \<Rightarrow> VcTriple list option) \<Rightarrow> SiteMapEntry \<Rightarrow> VcTriple list" where
  "entry_triples sha de fs cache e =
     (if en_kind e \<noteq> Snapshot then []
      else (case cache (en_hash e) of Some c \<Rightarrow> c
        | None \<Rightarrow> (case fs (en_file e) of None \<Rightarrow> []
            | Some data \<Rightarrow> if \<not> verify_file_sha sha data (en_file_sha e) then []
                else (case de data of None \<Rightarrow> [] | Some ts \<Rightarrow> ts))))"

definition live ::
  "(string \<Rightarrow> u8 list) \<Rightarrow> (string \<Rightarrow> VcTriple list option) \<Rightarrow> SiteMap \<Rightarrow> VcTriple list" where
  "live sha de s =
     concat (map (entry_triples sha de (sm_files s) (map_of (snapshot_triples_cache s))) (map snd (sm_index s)))"

definition entry_ok :: "u64 \<Rightarrow> SiteMapEntry \<Rightarrow> bool" where
  "entry_ok k e \<longleftrightarrow> en_hash e = k
     \<and> (if en_kind e = Snapshot then en_file e = snapshot_file k else (\<forall>k'. en_file e \<noteq> snapshot_file k'))"

definition index_ok :: "SiteMap \<Rightarrow> bool" where
  "index_ok s \<longleftrightarrow> distinct (map fst (sm_index s)) \<and> (\<forall>x\<in>set (sm_index s). entry_ok (fst x) (snd x))"

definition coherent ::
  "(string \<Rightarrow> u8 list) \<Rightarrow> (string \<Rightarrow> VcTriple list option) \<Rightarrow> SiteMap \<Rightarrow> bool" where
  "coherent sha de s \<longleftrightarrow> index_ok s \<and>
     (\<forall>idx. predicate_index s = Some idx \<longrightarrow> map_of idx = map_of (predicate_groups (live sha de s)))"

lemma index_okD:
  assumes "index_ok s" and "map_of (sm_index s) k = Some e"
  shows "en_hash e = k" and "en_kind e = Snapshot \<Longrightarrow> en_file e = snapshot_file k"
    and "en_kind e \<noteq> Snapshot \<Longrightarrow> en_file e \<noteq> snapshot_file k'"
proof -
  have "entry_ok k e" using assms(1) map_of_SomeD [OF assms(2)] by (auto simp: index_ok_def)
  then show "en_hash e = k" and "en_kind e = Snapshot \<Longrightarrow> en_file e = snapshot_file k"
    and "en_kind e \<noteq> Snapshot \<Longrightarrow> en_file e \<noteq> snapshot_file k'" by (auto simp: entry_ok_def)
qed

lemma index_hashes: "index_ok s \<Longrightarrow> map en_hash (map snd (sm_index s)) = map fst (sm_index s)"
  by (auto simp: index_ok_def entry_ok_def)

lemma hex_digit_inj: "a < 16 \<Longrightarrow> b < 16 \<Longrightarrow> digit_char a = digit_char b \<Longrightarrow> a = b"
  by (auto simp: digit_char_def char_of_eq_iff take_bit_eq_mod split: if_splits)

lemma digits_inj:
  "n < 16 ^ k \<Longrightarrow> m < 16 ^ k \<Longrightarrow> (\<And>i. i < k \<Longrightarrow> n div 16 ^ i mod 16 = m div 16 ^ i mod (16 :: nat)) \<Longrightarrow> n = m"
proof (induction k arbitrary: n m)
  case (Suc k)
  have "n div 16 = m div 16"
  proof (rule Suc.IH)
    show "n div 16 div 16 ^ i mod 16 = m div 16 div 16 ^ i mod 16" if "i < k" for i
      using Suc.prems(3) [of "Suc i"] that by (simp add: div_mult2_eq)
  qed (use Suc.prems in auto)
  moreover have "n mod 16 = m mod 16" using Suc.prems(3) [of 0] by simp
  ultimately show ?case by (metis div_mult_mod_eq)
qed simp

lemma hex16_inj: "hex16 a = hex16 b \<longleftrightarrow> a = b"
proof
  assume eq: "hex16 a = hex16 b"
  have "unat a = unat b"
  proof (rule digits_inj [of _ 16])
    fix i :: nat assume i: "i < 16"
    then have "hex16 a ! (15 - i) = hex16 b ! (15 - i)" using eq by simp
    with i show "unat a div 16 ^ i mod 16 = unat b div 16 ^ i mod 16"
      by (auto simp: hex16_def intro: hex_digit_inj)
  qed (use unsigned_less [of a] unsigned_less [of b] in simp_all)
  then show "a = b" by (simp add: word_unat_eq_iff)
qed simp

lemma snapshot_file_inj [simp]: "snapshot_file a = snapshot_file b \<longleftrightarrow> a = b"
  by (simp add: snapshot_file_def hex16_inj)

section \<open>Queries read the live triples\<close>

lemma collect_entry_step:
  "\<exists>cache1. collect_entry sha de fs x (acc, cache) = (acc @ entry_triples sha de fs (map_of cache) x, cache1)
     \<and> (\<forall>h. h \<noteq> en_hash x \<longrightarrow> map_of cache1 h = map_of cache h)
     \<and> entry_triples sha de fs (map_of cache1) x = entry_triples sha de fs (map_of cache) x"
proof (cases "en_kind x = Snapshot \<and> map_of cache (en_hash x) = None \<and>
    (\<exists>data ts. fs (en_file x) = Some data \<and> verify_file_sha sha data (en_file_sha x) \<and> de data = Some ts)")
  case True
  then obtain data ts where d: "en_kind x = Snapshot" "map_of cache (en_hash x) = None"
    "fs (en_file x) = Some data" "verify_file_sha sha data (en_file_sha x)" "de data = Some ts" by blast
  then show ?thesis
    by (intro exI [of _ "AList.update (en_hash x) ts cache"])
      (simp add: collect_entry_def entry_triples_def update_conv')
next
  case False
  then have "collect_entry sha de fs x (acc, cache) = (acc @ entry_triples sha de fs (map_of cache) x, cache)"
    by (auto simp: collect_entry_def entry_triples_def split: option.splits)
  then show ?thesis by blast
qed

lemma collect_entries:
  assumes "distinct (map en_hash es)"
  shows "\<exists>cache'. fold (collect_entry sha de fs) es (acc, cache) =
      (acc @ concat (map (entry_triples sha de fs (map_of cache)) es), cache')
    \<and> (\<forall>e. entry_triples sha de fs (map_of cache') e = entry_triples sha de fs (map_of cache) e
         \<or> en_hash e \<in> en_hash ` set es)
    \<and> (\<forall>e\<in>set es. entry_triples sha de fs (map_of cache') e = entry_triples sha de fs (map_of cache) e)"
  using assms
proof (induction es arbitrary: acc cache)
  case (Cons x es)
  let ?et = "\<lambda>c. entry_triples sha de fs (map_of c)"
  obtain cache1 where step: "collect_entry sha de fs x (acc, cache) = (acc @ ?et cache x, cache1)"
    and same: "\<And>h. h \<noteq> en_hash x \<Longrightarrow> map_of cache1 h = map_of cache h"
    and self: "?et cache1 x = ?et cache x"
    using collect_entry_step [of sha de fs x acc cache] by blast
  have other: "?et cache1 e = ?et cache e" if "en_hash e \<noteq> en_hash x" for e
    using same [OF that] by (simp add: entry_triples_def)
  obtain cache' where IH: "fold (collect_entry sha de fs) es (acc @ ?et cache x, cache1) =
      (acc @ ?et cache x @ concat (map (?et cache1) es), cache')"
    "\<forall>e. ?et cache' e = ?et cache1 e \<or> en_hash e \<in> en_hash ` set es"
    "\<forall>e\<in>set es. ?et cache' e = ?et cache1 e"
    using Cons.IH [of "acc @ ?et cache x" cache1] Cons.prems by auto
  have meq: "map (?et cache1) es = map (?et cache) es" using Cons.prems
    by (intro map_cong refl other) (metis distinct.simps(2) image_eqI list.map(2) list.set_map)
  have "?et cache' x = ?et cache x" using IH(2) self Cons.prems by (metis distinct.simps(2) list.map(2) list.set_map)
  moreover have "?et cache' e = ?et cache e" if "e \<in> set es" for e
    using IH(3) that other [of e] Cons.prems by (metis distinct.simps(2) image_eqI list.map(2) list.set_map)
  moreover have "?et cache' e = ?et cache e \<or> en_hash e \<in> en_hash ` set (x # es)" for e
    using IH(2) other [of e] by (metis image_insert insertCI list.set(2))
  ultimately show ?case using step IH(1) [unfolded meq] by simp
qed simp

lemma collect_live:
  assumes "index_ok s"
  shows "fst (collect_live_snapshot_triples sha de s) = live sha de s"
    and "live sha de (snd (collect_live_snapshot_triples sha de s)) = live sha de s"
    and "sm_index (snd (collect_live_snapshot_triples sha de s)) = sm_index s"
    and "predicate_index (snd (collect_live_snapshot_triples sha de s)) = predicate_index s"
proof -
  have "distinct (map en_hash (map snd (sm_index s)))"
    unfolding index_hashes [OF assms] using assms by (simp add: index_ok_def)
  from collect_entries [OF this, of sha de "sm_files s" "[]" "snapshot_triples_cache s"]
  obtain cache' where c: "fold (collect_entry sha de (sm_files s)) (map snd (sm_index s)) ([], snapshot_triples_cache s) =
      (live sha de s, cache')"
    "\<forall>e\<in>set (map snd (sm_index s)). entry_triples sha de (sm_files s) (map_of cache') e =
       entry_triples sha de (sm_files s) (map_of (snapshot_triples_cache s)) e"
    by (auto simp: live_def)
  show "fst (collect_live_snapshot_triples sha de s) = live sha de s"
    "sm_index (snd (collect_live_snapshot_triples sha de s)) = sm_index s"
    "predicate_index (snd (collect_live_snapshot_triples sha de s)) = predicate_index s"
    using c(1) by (simp_all add: collect_live_snapshot_triples_def)
  have "map (entry_triples sha de (sm_files s) (map_of cache')) (map snd (sm_index s)) =
      map (entry_triples sha de (sm_files s) (map_of (snapshot_triples_cache s))) (map snd (sm_index s))"
    using c(2) by (intro map_cong) auto
  then show "live sha de (snd (collect_live_snapshot_triples sha de s)) = live sha de s"
    unfolding collect_live_snapshot_triples_def c(1) by (auto simp: live_def cong: map_cong)
qed

lemma map_of_predicate_groups:
  "map_of (predicate_groups ts) p =
     (let l = filter (\<lambda>t. predicate_id t = p) ts in if l = [] then None else Some l)"
proof -
  have "map_of (fold (\<lambda>t m. AList.update (predicate_id t)
        ((case map_of m (predicate_id t) of None \<Rightarrow> [] | Some l \<Rightarrow> l) @ [t]) m) ts m) p =
      (let l = filter (\<lambda>t. predicate_id t = p) ts in
       if l = [] then map_of m p else Some ((case map_of m p of None \<Rightarrow> [] | Some l \<Rightarrow> l) @ l))" for m
    by (induction ts arbitrary: m) (auto simp: update_conv' Let_def)
  from this [of "[]"] show ?thesis unfolding predicate_groups_def by (simp add: Let_def)
qed

section \<open>Updates\<close>

lemma in_live:
  assumes "index_ok s"
  shows "t \<in> set (live sha de s) \<longleftrightarrow> (\<exists>k e. map_of (sm_index s) k = Some e
    \<and> t \<in> set (entry_triples sha de (sm_files s) (map_of (snapshot_triples_cache s)) e))"
proof -
  have "distinct (map fst (sm_index s))" using assms by (simp add: index_ok_def)
  then show ?thesis unfolding map_of_eq_Some_iff [OF \<open>distinct _\<close>] by (force simp: live_def)
qed

definition settle :: "(string \<Rightarrow> u8 list) \<Rightarrow> SiteMap \<Rightarrow> SiteMap" where
  "settle sha s = invalidate_predicate_index (recompute_root sha s)"

lemma settle_sel [simp]:
  "sm_index (settle sha s) = sm_index s" "sm_files (settle sha s) = sm_files s"
  "snapshot_triples_cache (settle sha s) = snapshot_triples_cache s"
  "predicate_index (settle sha s) = None" "live sha' de (settle sha s) = live sha' de s"
  "index_ok (settle sha s) = index_ok s"
  "sm_root (settle sha s) = compute_index_root sha (map snd (sm_index s))"
  by (simp_all add: settle_def invalidate_predicate_index_def recompute_root_def live_def index_ok_def)

lemma put_file_snapshot_settle:
  "put_file_snapshot sha ser wr s f ts =
     (case write_snapshot sha ser wr s f ts of (Inl e, s') \<Rightarrow> (Inl e, s') | (Inr k, s') \<Rightarrow> (Inr k, settle sha s'))"
  unfolding put_file_snapshot_def settle_def by (rule refl)

lemma write_snapshot_ok:
  assumes "write_snapshot sha ser wr s f ts = (Inr key, s')"
  shows "key = snapshot_hash sha f" and "wr = None" and "\<exists>data. ser ts = Some data \<and> s' =
    s\<lparr>sm_files := (sm_files s)(snapshot_file key \<mapsto> data),
      sm_index := AList.update key (snapshot_entry sha key data) (sm_index s),
      snapshot_triples_cache := AList.update key ts (snapshot_triples_cache s)\<rparr>"
  using assms by (auto simp: write_snapshot_def Let_def split: option.splits)

lemma snapshot_entry_sel [simp]:
  "en_kind (snapshot_entry sha key data) = Snapshot" "en_hash (snapshot_entry sha key data) = key"
  "en_file (snapshot_entry sha key data) = snapshot_file key"
  by (simp_all add: snapshot_entry_def)

lemma set_update_subset: "set (AList.update k v m) \<subseteq> insert (k, v) (set m)"
  by (induction m) auto

lemma index_ok_update:
  assumes "index_ok s" and "sm_index s' = AList.update key (snapshot_entry sha key data) (sm_index s)"
  shows "index_ok s'"
proof -
  have "entry_ok key (snapshot_entry sha key data)" by (simp add: entry_ok_def)
  then show ?thesis
    using assms(1) set_update_subset [of key "snapshot_entry sha key data" "sm_index s"]
    unfolding index_ok_def assms(2) by (auto simp: distinct_update)
qed

lemma index_ok_delete:
  assumes "index_ok s" and "sm_index s' = AList.delete key (sm_index s)"
  shows "index_ok s'"
proof -
  have "set (AList.delete key (sm_index s)) \<subseteq> set (sm_index s)" by (auto simp: AList.delete_eq)
  then show ?thesis using assms(1) unfolding index_ok_def assms(2) by (auto simp: distinct_delete)
qed

text \<open>An update of one snapshot leaves what the entries of other keys contribute.\<close>

lemma entry_triples_other:
  assumes "index_ok s" and "map_of (sm_index s) k = Some e" and "k \<noteq> key"
    and "\<And>n. n \<noteq> snapshot_file key \<Longrightarrow> \<forall>k. n = snapshot_file k \<longrightarrow> fs' n = sm_files s n"
    and "\<And>h. h \<noteq> key \<Longrightarrow> cache' h = map_of (snapshot_triples_cache s) h"
  shows "entry_triples sha de fs' cache' e =
    entry_triples sha de (sm_files s) (map_of (snapshot_triples_cache s)) e"
proof (cases "en_kind e = Snapshot")
  case True
  have "en_hash e \<noteq> key" "en_file e = snapshot_file k"
    using index_okD(1,2) [OF assms(1,2)] True assms(3) by auto
  moreover have "fs' (en_file e) = sm_files s (en_file e)"
    using assms(3) assms(4) [of "en_file e"] calculation(2) by simp
  moreover have "cache' (en_hash e) = map_of (snapshot_triples_cache s) (en_hash e)"
    using assms(5) calculation(1) .
  ultimately show ?thesis unfolding entry_triples_def by presburger
qed (simp add: entry_triples_def)

lemma write_snapshot_live:
  assumes "index_ok s" and "write_snapshot sha ser wr s f ts = (Inr key, s')"
  shows "index_ok s'"
    and "set (live sha de s') = set ts \<union> set (live sha de (s\<lparr>sm_index := AList.delete key (sm_index s)\<rparr>))"
proof -
  obtain data where s': "s' = s\<lparr>sm_files := (sm_files s)(snapshot_file key \<mapsto> data),
      sm_index := AList.update key (snapshot_entry sha key data) (sm_index s),
      snapshot_triples_cache := AList.update key ts (snapshot_triples_cache s)\<rparr>"
    using write_snapshot_ok(3) [OF assms(2)] by blast
  show ok: "index_ok s'" by (rule index_ok_update [OF assms(1)]) (simp add: s')
  let ?d = "s\<lparr>sm_index := AList.delete key (sm_index s)\<rparr>"
  have okd: "index_ok ?d" by (rule index_ok_delete [OF assms(1)]) simp
  let ?et = "\<lambda>s. entry_triples sha de (sm_files s) (map_of (snapshot_triples_cache s))"
  have same: "?et s' e = ?et s e" if "map_of (sm_index s) k = Some e" "k \<noteq> key" for k e
    by (rule entry_triples_other [OF assms(1) that]) (auto simp: s' update_conv')
  have new: "?et s' (snapshot_entry sha key data) = ts"
    by (simp add: s' entry_triples_def update_conv')
  have idx: "map_of (sm_index s') k = (if k = key then Some (snapshot_entry sha key data) else map_of (sm_index s) k)"
    "map_of (sm_index ?d) k = (if k = key then None else map_of (sm_index s) k)" for k
    by (simp_all add: s' update_conv' delete_conv')
  show "set (live sha de s') = set ts \<union> set (live sha de ?d)"
  proof (rule set_eqI)
    fix t
    have "t \<in> set (live sha de s') \<longleftrightarrow>
        t \<in> set ts \<or> (\<exists>k e. k \<noteq> key \<and> map_of (sm_index s) k = Some e \<and> t \<in> set (?et s' e))"
      unfolding in_live [OF ok] idx using new by (metis option.inject)
    also have "\<dots> \<longleftrightarrow> t \<in> set ts \<or> t \<in> set (live sha de ?d)"
      unfolding in_live [OF okd] idx using same by auto
    finally show "t \<in> set (live sha de s') \<longleftrightarrow> t \<in> set ts \<union> set (live sha de ?d)" by simp
  qed
qed

lemma remove_file_snapshot_ok:
  assumes "index_ok s" and "remove_file_snapshot sha rm s f = (Inr True, s')"
  shows "index_ok s'" and "predicate_index s' = None"
    and "map_of (sm_index s') = (map_of (sm_index s))(snapshot_hash sha f := None)"
    and "set (live sha de s') = set (live sha de (s\<lparr>sm_index := AList.delete (snapshot_hash sha f) (sm_index s)\<rparr>))"
    and "sm_root s' = compute_index_root sha (map snd (AList.delete (snapshot_hash sha f) (sm_index s)))"
proof -
  let ?key = "snapshot_hash sha f"
  let ?d = "s\<lparr>sm_index := AList.delete ?key (sm_index s)\<rparr>"
  obtain e nodes where e: "map_of (sm_index s) ?key = Some e"
    and s': "s' = settle sha (?d\<lparr>sm_files := (sm_files s)(en_file e := None),
      snapshot_triples_cache := AList.delete ?key (snapshot_triples_cache s), node_triples_cache := nodes\<rparr>)"
    using assms(2) by (auto simp: remove_file_snapshot_def settle_def Let_def split: option.splits if_splits)
  show ok: "index_ok s'" by (rule index_ok_delete [OF assms(1)]) (simp add: s')
  show "predicate_index s' = None" by (simp add: s')
  show idx: "map_of (sm_index s') = (map_of (sm_index s))(?key := None)" by (simp add: s' delete_conv')
  show "sm_root s' = compute_index_root sha (map snd (AList.delete ?key (sm_index s)))" by (simp add: s')
  have okd: "index_ok ?d" by (rule index_ok_delete [OF assms(1)]) simp
  let ?et = "\<lambda>s. entry_triples sha de (sm_files s) (map_of (snapshot_triples_cache s))"
  have fe: "en_file e \<noteq> snapshot_file k" if "k \<noteq> ?key" for k
    using index_okD(2,3) [OF assms(1) e] that by (cases "en_kind e = Snapshot") auto
  have same: "?et s' x = ?et s x" if "map_of (sm_index s) k = Some x" "k \<noteq> ?key" for k x
    by (rule entry_triples_other [OF assms(1) that]) (use fe in \<open>force simp: s' delete_conv'\<close>)+
  have "map_of (sm_index ?d) = (map_of (sm_index s))(?key := None)" by (simp add: delete_conv')
  then show "set (live sha de s') = set (live sha de ?d)"
    using same by (intro set_eqI) (auto simp: in_live [OF ok] in_live [OF okd] idx split: if_splits)
qed

section \<open>Coherence of the caches\<close>

text \<open>The operations on a store that starts empty, with every write and removal succeeding and
  queries in between.\<close>

definition sm_empty :: "(string \<Rightarrow> string option) \<Rightarrow> SiteMap" where
  "sm_empty fs = \<lparr>sm_files = fs, sm_index = [], sm_root = 0, sm_root_check = NoIndexOnDisk,
     snapshot_triples_cache = [], node_triples_cache = [], predicate_index = None\<rparr>"

inductive sm_reachable ::
  "(string \<Rightarrow> u8 list) \<Rightarrow> (VcTriple list \<Rightarrow> string option) \<Rightarrow> (string \<Rightarrow> VcTriple list option) \<Rightarrow> SiteMap \<Rightarrow> bool"
  for sha ser de where
  empty: "sm_reachable sha ser de (sm_empty fs)"
| put: "sm_reachable sha ser de s \<Longrightarrow> put_file_snapshot sha ser wr s f ts = (Inr k, s') \<Longrightarrow> sm_reachable sha ser de s'"
| batch: "sm_reachable sha ser de s \<Longrightarrow> put_file_snapshots_batch sha ser wrs s fts = (Inr ks, s') \<Longrightarrow>
    sm_reachable sha ser de s'"
| remove: "sm_reachable sha ser de s \<Longrightarrow> remove_file_snapshot sha rm s f = (Inr b, s') \<Longrightarrow> sm_reachable sha ser de s'"
| query: "sm_reachable sha ser de s \<Longrightarrow> sm_reachable sha ser de (snd (collect_live_snapshot_triples sha de s))"
| by_predicate: "sm_reachable sha ser de s \<Longrightarrow> sm_reachable sha ser de (snd (find_live_by_predicate sha de s p))"

lemma coherent_settle: "index_ok s \<Longrightarrow> coherent sha de (settle sha s)"
  by (simp add: coherent_def)

lemma write_snapshots_index_ok:
  "index_ok s \<Longrightarrow> write_snapshots sha ser wr i s fts = (Inr ks, s') \<Longrightarrow> index_ok s'"
proof (induction fts arbitrary: i s ks)
  case (Cons x fts)
  obtain f ts where x: "x = (f, ts)" by force
  with Cons.prems(2) obtain k s1 ks' where "write_snapshot sha ser (wr i) s f ts = (Inr k, s1)"
    "write_snapshots sha ser wr (Suc i) s1 fts = (Inr ks', s')"
    by (auto split: prod.splits sum.splits)
  with Cons.IH write_snapshot_live(1) [OF Cons.prems(1)] show ?case by blast
qed simp

lemma coherent_put:
  assumes "index_ok s" and "put_file_snapshot sha ser wr s f ts = (Inr k, s')"
  shows "coherent sha de s'"
proof -
  obtain s1 where "write_snapshot sha ser wr s f ts = (Inr k, s1)" "s' = settle sha s1"
    using assms(2) by (auto simp: put_file_snapshot_settle split: prod.splits sum.splits)
  with write_snapshot_live(1) [OF assms(1)] show ?thesis by (simp add: coherent_settle)
qed

lemma coherent_collect:
  "coherent sha de s \<Longrightarrow> coherent sha de (snd (collect_live_snapshot_triples sha de s))"
  unfolding coherent_def using collect_live [of s sha de] by (simp add: index_ok_def)

lemma sm_reachable_coherent: "sm_reachable sha ser de s \<Longrightarrow> coherent sha de s"
proof (induction rule: sm_reachable.induct)
  case (empty fs)
  show ?case by (simp add: sm_empty_def coherent_def index_ok_def)
next
  case (put s wr f ts k s')
  then show ?case by (auto simp: coherent_def [of _ _ s] intro: coherent_put)
next
  case (batch s wrs fts ks s')
  then obtain s1 where "write_snapshots sha ser wrs 0 s fts = (Inr ks, s1)" "s' = settle sha s1"
    by (auto simp: put_file_snapshots_batch_def settle_def split: prod.splits sum.splits)
  with write_snapshots_index_ok batch.IH show ?case by (auto simp: coherent_def [of _ _ s] intro: coherent_settle)
next
  case (remove s rm f b s')
  then show ?case
  proof (cases b)
    case True
    with remove show ?thesis
      using remove_file_snapshot_ok(1,2) [of s sha rm f s'] by (simp add: coherent_def)
  next
    case False
    with remove have "s' = s"
      by (auto simp: remove_file_snapshot_def Let_def split: option.splits if_splits)
    with remove show ?thesis by simp
  qed
next
  case (query s)
  then show ?case by (simp add: coherent_collect)
next
  case (by_predicate s p)
  then show ?case
    using coherent_collect [of sha de s] collect_live(1,2) [of s sha de]
    by (auto simp: find_live_by_predicate_def coherent_def case_prod_beta Let_def live_def index_ok_def
        split: option.splits)
qed

section \<open>The batch and the sequence of single writes\<close>

fun put_sequence ::
  "(string \<Rightarrow> u8 list) \<Rightarrow> (VcTriple list \<Rightarrow> string option) \<Rightarrow> SiteMap \<Rightarrow> (string \<times> VcTriple list) list
     \<Rightarrow> (sm_error + u64 list) \<times> SiteMap" where
  "put_sequence sha ser s [] = (Inr [], s)"
| "put_sequence sha ser s ((f, ts) # rest) =
     (case put_file_snapshot sha ser None s f ts of
        (Inl e, s') \<Rightarrow> (Inl e, s')
      | (Inr key, s') \<Rightarrow>
          (case put_sequence sha ser s' rest of
             (Inl e, s'') \<Rightarrow> (Inl e, s'')
           | (Inr keys, s'') \<Rightarrow> (Inr (key # keys), s'')))"

lemma settle_settle [simp]: "settle sha (settle sha s) = settle sha s"
  by (simp add: settle_def invalidate_predicate_index_def recompute_root_def split: IndexRootCheck.split)

lemma write_snapshot_settle:
  assumes "ser ts = Some data"
  shows "\<exists>k s1 s2. write_snapshot sha ser None s f ts = (Inr k, s1)
    \<and> write_snapshot sha ser None (settle sha s) f ts = (Inr k, s2) \<and> settle sha s2 = settle sha s1"
  using assms
  by (simp add: write_snapshot_def Let_def settle_def invalidate_predicate_index_def recompute_root_def
      split: IndexRootCheck.split)

lemma put_sequence_settle:
  assumes "\<forall>(f, ts)\<in>set fts. \<exists>data. ser ts = Some data"
  shows "\<exists>ks s1 s2. write_snapshots sha ser (\<lambda>_. None) i s fts = (Inr ks, s1)
    \<and> put_sequence sha ser (settle sha s) fts = (Inr ks, s2) \<and> settle sha s2 = settle sha s1 \<and> s2 = settle sha s2"
  using assms
proof (induction fts arbitrary: i s)
  case (Cons x fts)
  obtain f ts where x: "x = (f, ts)" by force
  with Cons.prems obtain data where "ser ts = Some data" by auto
  from write_snapshot_settle [of ser ts, OF this, of sha s f] obtain k s1 s2 where
    w: "write_snapshot sha ser None s f ts = (Inr k, s1)"
    "write_snapshot sha ser None (settle sha s) f ts = (Inr k, s2)" "settle sha s2 = settle sha s1" by blast
  obtain ks t1 t2 where "write_snapshots sha ser (\<lambda>_. None) (Suc i) s1 fts = (Inr ks, t1)"
    "put_sequence sha ser (settle sha s1) fts = (Inr ks, t2)" "settle sha t2 = settle sha t1" "t2 = settle sha t2"
    using Cons.IH [of "Suc i" s1] Cons.prems by auto
  with w x show ?case by (simp add: put_file_snapshot_settle)
qed simp

section \<open>Properties\<close>

text \<open>A hash, a serializer and a store with one file, for concrete runs.\<close>

definition demo_sha :: "string \<Rightarrow> u8 list" where
  "demo_sha s = [word_of_nat (length s)]"

definition demo_edge :: VcTriple where
  "demo_edge = \<lparr>subject_hash = 1, predicate_id = 2, object_hash = 3\<rparr>"

definition demo_ser_triples :: "VcTriple list \<Rightarrow> string option" where
  "demo_ser_triples ts = (if ts = [demo_edge] then Some ''[e]'' else Some ''[]'')"

definition demo_de_triples :: "string \<Rightarrow> VcTriple list option" where
  "demo_de_triples s = (if s = ''[e]'' then Some [demo_edge] else if s = ''[]'' then Some [] else None)"

definition demo_store :: SiteMap where
  "demo_store = snd (put_file_snapshot demo_sha demo_ser_triples None (sm_empty (\<lambda>_. None)) ''f'' [demo_edge])"

lemma demo_put:
  "put_file_snapshot demo_sha demo_ser_triples None (sm_empty (\<lambda>_. None)) ''f'' [demo_edge] =
     (Inr (snapshot_hash demo_sha ''f''), demo_store)"
  by (simp add: demo_store_def put_file_snapshot_def write_snapshot_def demo_ser_triples_def Let_def)

lemma demo_reachable: "sm_reachable demo_sha demo_ser_triples demo_de_triples demo_store"
  by (rule sm_reachable.put [OF sm_reachable.empty demo_put])

text \<open>
  Snapshots are overwritten wholesale: after a successful \<open>put_file_snapshot\<close> the live
  edges are the given ones together with those of the other snapshots, after a successful
  \<open>remove_file_snapshot\<close> they are those of the other snapshots, and in both cases the root is
  the hash of the entries that remain.
\<close>

theorem snapshot_overwrites_wholesale:
  assumes "sm_reachable sha ser de s"
  shows "(put_file_snapshot sha ser wr s f ts = (Inr k, s') \<longrightarrow>
       set (fst (collect_live_snapshot_triples sha de s')) =
         set ts \<union> set (fst (collect_live_snapshot_triples sha de (s\<lparr>sm_index := AList.delete k (sm_index s)\<rparr>)))
       \<and> sm_root s' = compute_index_root sha (map snd (sm_index s')))
    \<and> (remove_file_snapshot sha rm s f = (Inr True, s'') \<longrightarrow>
       set (fst (collect_live_snapshot_triples sha de s'')) =
         set (fst (collect_live_snapshot_triples sha de (s\<lparr>sm_index := AList.delete (snapshot_hash sha f) (sm_index s)\<rparr>)))
       \<and> sm_root s'' = compute_index_root sha (map snd (AList.delete (snapshot_hash sha f) (sm_index s))))"
proof (intro conjI impI)
  have ok: "index_ok s" using sm_reachable_coherent [OF assms] by (simp add: coherent_def)
  have okd: "index_ok (s\<lparr>sm_index := AList.delete key (sm_index s)\<rparr>)" for key
    by (rule index_ok_delete [OF ok]) simp
  {
    assume put: "put_file_snapshot sha ser wr s f ts = (Inr k, s')"
    then obtain s1 where s1: "write_snapshot sha ser wr s f ts = (Inr k, s1)" "s' = settle sha s1"
      by (auto simp: put_file_snapshot_settle split: prod.splits sum.splits)
    note w = write_snapshot_live [OF ok s1(1)]
    show "set (fst (collect_live_snapshot_triples sha de s')) =
        set ts \<union> set (fst (collect_live_snapshot_triples sha de (s\<lparr>sm_index := AList.delete k (sm_index s)\<rparr>)))"
      using w by (simp add: s1(2) collect_live(1) okd)
    show "sm_root s' = compute_index_root sha (map snd (sm_index s'))" by (simp add: s1(2))
  next
    assume "remove_file_snapshot sha rm s f = (Inr True, s'')"
    note r = remove_file_snapshot_ok [OF ok this]
    show "set (fst (collect_live_snapshot_triples sha de s'')) =
        set (fst (collect_live_snapshot_triples sha de (s\<lparr>sm_index := AList.delete (snapshot_hash sha f) (sm_index s)\<rparr>)))"
      using r(1,4) by (simp add: collect_live(1) okd)
    show "sm_root s'' = compute_index_root sha (map snd (AList.delete (snapshot_hash sha f) (sm_index s)))"
      by (rule r(5))
  }
qed

theorem snapshot_overwrites_wholesale_witness:
  "set (fst (collect_live_snapshot_triples demo_sha demo_de_triples demo_store)) = {demo_edge}"
proof -
  have "sm_reachable demo_sha demo_ser_triples demo_de_triples (sm_empty (\<lambda>_. None))"
    by (rule sm_reachable.empty)
  from snapshot_overwrites_wholesale [OF this] demo_put
  have "set (fst (collect_live_snapshot_triples demo_sha demo_de_triples demo_store)) =
      set [demo_edge] \<union> set (fst (collect_live_snapshot_triples demo_sha demo_de_triples
        ((sm_empty (\<lambda>_. None))\<lparr>sm_index := AList.delete (snapshot_hash demo_sha ''f'') (sm_index (sm_empty (\<lambda>_. None)))\<rparr>)))"
    by blast
  then show ?thesis by (simp add: collect_live_snapshot_triples_def sm_empty_def)
qed

text \<open>
  The predicate index is coherent: in every state reached by successful operations, with
  queries in between, \<open>find_live_by_predicate\<close> returns exactly what the unindexed
  \<open>find_live_triples\<close> returns, in the same order.
\<close>

theorem predicate_index_coherent:
  assumes "sm_reachable sha ser de s"
  shows "fst (find_live_by_predicate sha de s p) = fst (find_live_triples sha de s None (Some p) None)"
proof -
  have co: "coherent sha de s" by (rule sm_reachable_coherent [OF assms])
  then have ok: "index_ok s" by (simp add: coherent_def)
  have "(case map_of (predicate_groups (live sha de s)) p of Some ts \<Rightarrow> ts | None \<Rightarrow> []) =
      filter (\<lambda>t. predicate_id t = p) (live sha de s)"
    by (simp add: map_of_predicate_groups Let_def)
  then show ?thesis
    using co by (auto simp: find_live_by_predicate_def find_live_triples_def filter_triples_def
        case_prod_beta Let_def collect_live(1) [OF ok] coherent_def split: option.splits)
qed

theorem predicate_index_coherent_witness:
  "fst (find_live_by_predicate demo_sha demo_de_triples demo_store 2) =
     fst (find_live_triples demo_sha demo_de_triples demo_store None (Some 2) None)"
  by (rule predicate_index_coherent [OF demo_reachable])

text \<open>
  A removal that fails leaves the store inconsistent: when \<open>fs::remove_file\<close> fails the
  entry is already out of the index, but the root still covers it and the predicate index
  keeps answering with its edges, while the unindexed query no longer finds them.
\<close>

theorem failed_removal_leaves_stale_index:
  assumes "remove_file_snapshot sha rm s f = (Inl e, s')" and "predicate_index s = Some idx"
  shows "map_of (sm_index s') (snapshot_hash sha f) = None \<and> sm_root s' = sm_root s
    \<and> fst (find_live_by_predicate sha de s' p) = fst (find_live_by_predicate sha de s p)
    \<and> fst (find_live_triples sha de s' None (Some p) None) =
        fst (find_live_triples sha de (s\<lparr>sm_index := AList.delete (snapshot_hash sha f) (sm_index s)\<rparr>) None (Some p) None)"
proof -
  have "s' = s\<lparr>sm_index := AList.delete (snapshot_hash sha f) (sm_index s)\<rparr>"
    using assms(1) by (auto simp: remove_file_snapshot_def Let_def split: option.splits if_splits)
  then show ?thesis using assms(2) by (simp add: find_live_by_predicate_def delete_conv')
qed

theorem failed_removal_leaves_stale_index_witness:
  "let s = snd (find_live_by_predicate demo_sha demo_de_triples demo_store 2);
       s' = snd (remove_file_snapshot demo_sha False s ''f'')
   in fst (find_live_by_predicate demo_sha demo_de_triples s' 2) = [demo_edge]
    \<and> fst (find_live_triples demo_sha demo_de_triples s' None (Some 2) None) = []"
proof -
  define s where "s = snd (find_live_by_predicate demo_sha demo_de_triples demo_store 2)"
  let ?k = "snapshot_hash demo_sha ''f''"
  have st: "demo_store = settle demo_sha ((sm_empty (\<lambda>_. None))\<lparr>sm_files := [snapshot_file ?k \<mapsto> ''[e]''],
      sm_index := [(?k, snapshot_entry demo_sha ?k ''[e]'')], snapshot_triples_cache := [(?k, [demo_edge])]\<rparr>)"
    by (simp add: demo_store_def put_file_snapshot_def write_snapshot_def demo_ser_triples_def Let_def
        settle_def sm_empty_def)
  have s: "sm_index s = [(?k, snapshot_entry demo_sha ?k ''[e]'')]" "sm_files s (snapshot_file ?k) = Some ''[e]''"
    "predicate_index s = Some [(2, [demo_edge])]"
    by (simp_all add: s_def st find_live_by_predicate_def collect_live_snapshot_triples_def collect_entry_def
        predicate_groups_def demo_edge_def)
  have "remove_file_snapshot demo_sha False s ''f'' = (Inl RemoveError, s\<lparr>sm_index := []\<rparr>)"
    using s by (simp add: remove_file_snapshot_def Let_def)
  moreover from failed_removal_leaves_stale_index [OF this s(3), of demo_de_triples 2]
  have "fst (find_live_by_predicate demo_sha demo_de_triples (s\<lparr>sm_index := []\<rparr>) 2) = [demo_edge]
      \<and> fst (find_live_triples demo_sha demo_de_triples (s\<lparr>sm_index := []\<rparr>) None (Some 2) None) = []"
    using s by (simp add: find_live_by_predicate_def find_live_triples_def collect_live_snapshot_triples_def
        filter_triples_def)
  ultimately show ?thesis by (simp add: s_def [symmetric] Let_def)
qed

text \<open>
  The batched write is the sequence of single writes: on a working disk
  \<open>put_file_snapshots_batch\<close>, which hashes the index once, returns the same keys and the same
  store as putting the snapshots one by one.
\<close>

theorem batch_is_sequence:
  assumes "\<forall>(f, ts)\<in>set fts. \<exists>data. ser ts = Some data" and "fts \<noteq> []"
  shows "put_file_snapshots_batch sha ser (\<lambda>_. None) s fts = put_sequence sha ser s fts"
proof -
  obtain f ts rest where fts: "fts = (f, ts) # rest" using assms(2) by (metis list.exhaust prod.exhaust)
  with assms(1) obtain data where "ser ts = Some data" by auto
  from write_snapshot_settle [of ser ts, OF this, of sha s f] obtain k s1 where
    w: "write_snapshot sha ser None s f ts = (Inr k, s1)" by blast
  obtain ks t1 t2 where "write_snapshots sha ser (\<lambda>_. None) (Suc 0) s1 rest = (Inr ks, t1)"
    "put_sequence sha ser (settle sha s1) rest = (Inr ks, t2)" "settle sha t2 = settle sha t1" "t2 = settle sha t2"
    using put_sequence_settle [of rest ser sha "Suc 0" s1] assms(1) fts by auto
  with w show ?thesis
    by (simp add: fts put_file_snapshots_batch_def put_file_snapshot_settle settle_def [symmetric])
qed

theorem batch_is_sequence_witness:
  "put_file_snapshots_batch demo_sha demo_ser_triples (\<lambda>_. None) demo_store [(''f'', []), (''gg'', [demo_edge])] =
     put_sequence demo_sha demo_ser_triples demo_store [(''f'', []), (''gg'', [demo_edge])]"
  by (rule batch_is_sequence) (simp_all add: demo_ser_triples_def)

end
