(* ===== verification/Write_Gate.thy ===== *)
theory Write_Gate
  imports Site_Map
begin

text \<open>
  The write-admission table (\<open>velocity-mcp/src/automation/write_gate.rs\<close>), its facade
  \<open>MediatorArena\<close> (\<open>mediator.rs\<close>) and the coordination bus
  (\<open>velocity-mcp/src/agent/coordination.rs\<close>) that claims whole files through it.  The table
  is an association list from paths to held locks, in any order; two keys are equal when their
  components are.  The clock, the file system's \<open>is_dir\<close> and the hash are arguments.  An
  \<open>Instant\<close> is a number of nanoseconds.
\<close>

section \<open>Locks\<close>

type_synonym line_range = "u64 \<times> u64"

definition LOCK_TTL :: nat where
  "LOCK_TTL = 1800 * 1000000000"

definition usize_max :: u64 where
  "usize_max = - 1"

definition WHOLE_SCOPE :: line_range where
  "WHOLE_SCOPE = (1, usize_max div 4)"

record EditLock =
  lk_file_path :: PathBuf
  lk_range :: line_range
  lk_agent :: string
  lk_timestamp :: nat
  lk_claimed_unix :: u64

datatype ConflictKind = DirectLine | ScopeOverlap | Semantic

record Conflict =
  cf_file_path :: PathBuf
  cf_existing :: EditLock
  cf_requested :: EditLock
  cf_kind :: ConflictKind

type_synonym WriteGate = "(PathBuf \<times> EditLock list) list"

definition is_dir_scope :: "(PathBuf \<Rightarrow> bool) \<Rightarrow> PathBuf \<Rightarrow> line_range \<Rightarrow> bool" where
  "is_dir_scope is_dir path rng \<longleftrightarrow>
     is_dir path \<or> extension path = None \<or> ends_with path ''/'' \<or> ends_with path [CHR 0x5C]
     \<or> snd rng = usize_max \<or> snd rng = usize_max div 4"

fun canonical_segment :: "component \<Rightarrow> string list" where
  "canonical_segment CurDir = []"
| "canonical_segment ParentDir = [''..'']"
| "canonical_segment (Normal part) = [replace_char (CHR 0x5C) (CHR ''/'') part]"
| "canonical_segment RootDir = []"

definition canonicalize_scope_path :: "PathBuf \<Rightarrow> string" where
  "canonicalize_scope_path path = join ''/'' (concat (map canonical_segment (components path)))"

definition path_identity_hash :: "(string \<Rightarrow> u8 list) \<Rightarrow> PathBuf \<Rightarrow> u64" where
  "path_identity_hash sha path = hash_str sha (canonicalize_scope_path path)"

definition is_canonical_within_scope :: "string \<Rightarrow> string \<Rightarrow> bool" where
  "is_canonical_within_scope path scope_root \<longleftrightarrow>
     path = scope_root
     \<or> (case strip_prefix path scope_root of None \<Rightarrow> False | Some suffix \<Rightarrow> starts_with suffix ''/'')"

definition scopes_overlap :: "PathBuf \<Rightarrow> bool \<Rightarrow> PathBuf \<Rightarrow> bool \<Rightarrow> bool" where
  "scopes_overlap a a_is_dir b b_is_dir =
     (let a_canonical = canonicalize_scope_path a; b_canonical = canonicalize_scope_path b in
      if a_canonical = b_canonical then True
      else if a_is_dir \<and> is_canonical_within_scope b_canonical a_canonical then True
      else if b_is_dir \<and> is_canonical_within_scope a_canonical b_canonical then True
      else False)"

section \<open>The table\<close>

definition gate_new :: WriteGate where
  "gate_new = []"

definition retain_locks :: "(PathBuf \<Rightarrow> EditLock \<Rightarrow> bool) \<Rightarrow> WriteGate \<Rightarrow> WriteGate" where
  "retain_locks keep gate =
     filter (\<lambda>(_, locks). locks \<noteq> []) (map (\<lambda>(p, locks). (p, filter (keep p) locks)) gate)"

definition prune_stale :: "nat \<Rightarrow> nat \<Rightarrow> WriteGate \<Rightarrow> WriteGate" where
  "prune_stale now max_age gate =
     retain_locks (\<lambda>_ lock. if lk_timestamp lock \<le> now then now - lk_timestamp lock \<le> max_age else True) gate"

text \<open>\<open>entry(file_path).or_default().push(lock)\<close>.\<close>

fun gate_push :: "PathBuf \<Rightarrow> EditLock \<Rightarrow> WriteGate \<Rightarrow> WriteGate" where
  "gate_push path lock [] = [(path, [lock])]"
| "gate_push path lock ((p, locks) # gate) =
     (if components p = components path then (p, locks @ [lock]) # gate
      else (p, locks) # gate_push path lock gate)"

definition held :: "WriteGate \<Rightarrow> (PathBuf \<times> EditLock) list" where
  "held gate = concat (map (\<lambda>(p, locks). map (Pair p) locks) gate)"

text \<open>The body of the first loop of \<open>acquire\<close> for one incumbent lock.\<close>

definition direct_check ::
  "(PathBuf \<Rightarrow> bool) \<Rightarrow> PathBuf \<Rightarrow> line_range \<Rightarrow> string \<Rightarrow> PathBuf \<Rightarrow> EditLock \<Rightarrow> ConflictKind option" where
  "direct_check is_dir file_path rng agent other_path existing =
     (if lk_agent existing = agent then None
      else
        (let requested_is_dir = is_dir_scope is_dir file_path rng;
             existing_is_dir = is_dir_scope is_dir other_path (lk_range existing)
         in if \<not> scopes_overlap file_path requested_is_dir other_path existing_is_dir then None
            else if \<not> requested_is_dir \<and> \<not> existing_is_dir
                \<and> canonicalize_scope_path other_path = canonicalize_scope_path file_path
            then (if fst rng \<le> snd (lk_range existing) \<and> snd rng \<ge> fst (lk_range existing)
                  then Some DirectLine else None)
            else Some ScopeOverlap))"

text \<open>The body of the second loop, for the callers of the requested file.\<close>

definition semantic_check ::
  "(string \<Rightarrow> u8 list) \<Rightarrow> u64 list \<Rightarrow> PathBuf \<Rightarrow> string \<Rightarrow> PathBuf \<Rightarrow> EditLock \<Rightarrow> bool" where
  "semantic_check sha callers file_path agent other_path existing \<longleftrightarrow>
     canonicalize_scope_path other_path \<noteq> canonicalize_scope_path file_path
     \<and> lk_agent existing \<noteq> agent \<and> path_identity_hash sha other_path \<in> set callers"

record gate_env =
  ge_is_dir :: "PathBuf \<Rightarrow> bool"
  ge_sha :: "string \<Rightarrow> u8 list"
  ge_de :: "string \<Rightarrow> VcTriple list option"
  ge_now :: nat
  ge_unix :: u64

definition acquire ::
  "gate_env \<Rightarrow> WriteGate \<Rightarrow> PathBuf \<Rightarrow> line_range \<Rightarrow> string \<Rightarrow> SiteMap option
     \<Rightarrow> (Conflict + unit) \<times> WriteGate" where
  "acquire env gate file_path rng agent site_map =
     (let gate' = prune_stale (ge_now env) LOCK_TTL gate;
          requested = \<lparr>lk_file_path = file_path, lk_range = rng, lk_agent = agent,
            lk_timestamp = ge_now env, lk_claimed_unix = ge_unix env\<rparr>;
          reject = (\<lambda>existing kind. \<lparr>cf_file_path = file_path, cf_existing = existing,
            cf_requested = requested, cf_kind = kind\<rparr>)
      in case List.find (\<lambda>(p, l). direct_check (ge_is_dir env) file_path rng agent p l \<noteq> None) (held gate') of
           Some (p, l) \<Rightarrow>
             (Inl (reject l (the (direct_check (ge_is_dir env) file_path rng agent p l))), gate')
         | None \<Rightarrow>
             (case (case site_map of None \<Rightarrow> None
                | Some sm \<Rightarrow>
                    (let callers = fst (get_callers (ge_sha env) (ge_de env) sm
                           (path_identity_hash (ge_sha env) file_path))
                     in List.find (\<lambda>(p, l). semantic_check (ge_sha env) callers file_path agent p l) (held gate'))) of
                Some (_, l) \<Rightarrow> (Inl (reject l Semantic), gate')
              | None \<Rightarrow> (Inr (), gate_push file_path requested gate')))"

definition claim_whole_file :: "gate_env \<Rightarrow> WriteGate \<Rightarrow> string \<Rightarrow> PathBuf \<Rightarrow> bool \<times> WriteGate" where
  "claim_whole_file env gate agent path =
     (case acquire env gate path WHOLE_SCOPE agent None of (r, gate') \<Rightarrow> (r = Inr (), gate'))"

definition release :: "WriteGate \<Rightarrow> PathBuf \<Rightarrow> string \<Rightarrow> WriteGate" where
  "release gate file_path agent =
     retain_locks (\<lambda>p lock. if canonicalize_scope_path p = canonicalize_scope_path file_path
        then lk_agent lock \<noteq> agent else True) gate"

definition release_for_agent :: "WriteGate \<Rightarrow> string \<Rightarrow> WriteGate" where
  "release_for_agent gate agent = retain_locks (\<lambda>_ lock. lk_agent lock \<noteq> agent) gate"

definition get_locks_for_file :: "WriteGate \<Rightarrow> PathBuf \<Rightarrow> EditLock list" where
  "get_locks_for_file gate path =
     (case List.find (\<lambda>(p, _). components p = components path) gate of
        Some (_, locks) \<Rightarrow> locks | None \<Rightarrow> [])"

definition holds :: "WriteGate \<Rightarrow> string \<Rightarrow> PathBuf \<Rightarrow> bool" where
  "holds gate agent path \<longleftrightarrow>
     list_ex (\<lambda>(p, locks). canonicalize_scope_path p = canonicalize_scope_path path
        \<and> list_ex (\<lambda>l. lk_agent l = agent) locks) gate"

definition is_locked_by_other :: "WriteGate \<Rightarrow> string \<Rightarrow> PathBuf \<Rightarrow> bool" where
  "is_locked_by_other gate agent path \<longleftrightarrow>
     list_ex (\<lambda>(p, locks). canonicalize_scope_path p = canonicalize_scope_path path
        \<and> list_ex (\<lambda>l. lk_agent l \<noteq> agent) locks) gate"

definition locked_files :: "WriteGate \<Rightarrow> (PathBuf \<times> string) list" where
  "locked_files gate = map (\<lambda>(p, l). (p, lk_agent l)) (held gate)"

definition lock_details :: "WriteGate \<Rightarrow> (PathBuf \<times> string \<times> u64) list" where
  "lock_details gate = map (\<lambda>(p, l). (p, lk_agent l, lk_claimed_unix l)) (held gate)"

definition clear_all :: "WriteGate \<Rightarrow> WriteGate" where
  "clear_all gate = []"

definition resolve_conflict :: "Conflict \<Rightarrow> string" where
  "resolve_conflict c =
     (let nl = [CHR 0x0A]; ex = cf_existing c; rq = cf_requested c in
      case cf_kind c of
        Semantic \<Rightarrow> ''MEDIATION CONTRACT:'' @ nl @ ''Conflict Type: SEMANTIC COUPLING'' @ nl
          @ ''File A: '' @ lk_file_path ex @ nl @ ''File B: '' @ lk_file_path rq @ nl
          @ ''Action required: Bob's agent ('' @ lk_agent ex
          @ '') must create a backward-compatible method signature to avoid breaking calls from Alice's agent (''
          @ lk_agent rq @ '').''
      | ScopeOverlap \<Rightarrow> ''MEDIATION CONTRACT:'' @ nl @ ''Conflict Type: SCOPE OVERLAP'' @ nl
          @ ''Scope A: '' @ lk_file_path ex @ nl @ ''Scope B: '' @ lk_file_path rq @ nl
          @ ''Action required: Alice ('' @ lk_agent ex @ '') and Bob ('' @ lk_agent rq
          @ '') must serialize overlapping scoped work before applying edits.''
      | DirectLine \<Rightarrow> ''MEDIATION CONTRACT:'' @ nl @ ''Conflict Type: DIRECT LINE COLLISION'' @ nl
          @ ''File: '' @ cf_file_path c @ nl
          @ ''Lines: '' @ show_u64 (fst (lk_range ex)) @ ''-'' @ show_u64 (snd (lk_range ex))
          @ '' vs '' @ show_u64 (fst (lk_range rq)) @ ''-'' @ show_u64 (snd (lk_range rq)) @ nl
          @ ''Action required: Alice ('' @ lk_agent ex @ '') and Bob ('' @ lk_agent rq
          @ '') must merge overlapping edits manually or via LLM adapter.'')"

section \<open>When two locks clash\<close>

definition clash :: "(PathBuf \<Rightarrow> bool) \<Rightarrow> PathBuf \<Rightarrow> line_range \<Rightarrow> PathBuf \<Rightarrow> line_range \<Rightarrow> bool" where
  "clash is_dir p r q r' \<longleftrightarrow>
     (let pd = is_dir_scope is_dir p r; qd = is_dir_scope is_dir q r' in
      scopes_overlap p pd q qd \<and>
      \<not> (\<not> pd \<and> \<not> qd \<and> canonicalize_scope_path q = canonicalize_scope_path p
         \<and> \<not> (fst r \<le> snd r' \<and> snd r \<ge> fst r')))"

lemma scopes_overlap_sym: "scopes_overlap p pd q qd = scopes_overlap q qd p pd"
  by (auto simp: scopes_overlap_def Let_def)

lemma clash_sym: "clash is_dir p r q r' = clash is_dir q r' p r"
  unfolding clash_def Let_def scopes_overlap_sym [of p] by auto

lemma direct_check_None:
  "direct_check is_dir p r agent q l = None \<longleftrightarrow> lk_agent l = agent \<or> \<not> clash is_dir p r q (lk_range l)"
  by (auto simp: direct_check_def clash_def Let_def)

lemma components_path_eqs:
  assumes "components p = components q"
  shows "canonicalize_scope_path p = canonicalize_scope_path q" and "extension p = extension q"
    and "scopes_overlap p d x e = scopes_overlap q d x e"
  using assms by (simp_all add: canonicalize_scope_path_def extension_def file_name_def scopes_overlap_def)

lemma scopes_overlap_mono: "scopes_overlap p False q qd \<Longrightarrow> scopes_overlap p True q qd"
  by (auto simp: scopes_overlap_def Let_def split: if_splits)

text \<open>
  Only the text of a path (a trailing separator) and the file system tell equal paths apart as
  scopes; then they do so for every range.
\<close>

lemma is_dir_scope_text:
  assumes "components k = components p" and "is_dir_scope is_dir k r" and "\<not> is_dir_scope is_dir p r"
  shows "is_dir_scope is_dir k r'"
  using assms components_path_eqs(2) [OF assms(1)] by (auto simp: is_dir_scope_def)

lemma clash_dir: "is_dir_scope is_dir p r \<Longrightarrow>
    clash is_dir p r q r' \<longleftrightarrow> scopes_overlap p True q (is_dir_scope is_dir q r')"
  by (simp add: clash_def Let_def)

section \<open>Exclusion\<close>

definition exclusive :: "(PathBuf \<Rightarrow> bool) \<Rightarrow> WriteGate \<Rightarrow> bool" where
  "exclusive is_dir gate \<longleftrightarrow>
     (\<forall>p l q l'. (p, l) \<in> set (held gate) \<longrightarrow> (q, l') \<in> set (held gate) \<longrightarrow> lk_agent l \<noteq> lk_agent l' \<longrightarrow>
        \<not> clash is_dir p (lk_range l) q (lk_range l'))"

primrec gate_keys :: "WriteGate \<Rightarrow> component list list" where
  "gate_keys [] = []"
| "gate_keys (x # gate) = components (fst x) # gate_keys gate"

definition gate_ok :: "(PathBuf \<Rightarrow> bool) \<Rightarrow> WriteGate \<Rightarrow> bool" where
  "gate_ok is_dir gate \<longleftrightarrow> exclusive is_dir gate \<and> (\<forall>x\<in>set gate. snd x \<noteq> []) \<and> distinct (gate_keys gate)"

lemma in_held: "(p, l) \<in> set (held gate) \<longleftrightarrow> (\<exists>locks. (p, locks) \<in> set gate \<and> l \<in> set locks)"
  by (auto simp: held_def)

lemma gate_ok_Nil [simp]: "gate_ok is_dir []"
  by (simp add: gate_ok_def exclusive_def held_def)

lemma retain_Cons:
  "retain_locks keep ((p, locks) # gate) =
     (if filter (keep p) locks = [] then [] else [(p, filter (keep p) locks)]) @ retain_locks keep gate"
  by (simp add: retain_locks_def)

lemma held_Cons: "held ((p, locks) # gate) = map (Pair p) locks @ held gate"
  by (simp add: held_def)

lemma held_retain: "(p, l) \<in> set (held (retain_locks keep gate)) \<longleftrightarrow> (p, l) \<in> set (held gate) \<and> keep p l"
proof (induction gate)
  case (Cons x gate)
  obtain q locks where x: "x = (q, locks)" by force
  show ?case
  proof (cases "filter (keep q) locks = []")
    case True
    then have "\<not> keep p l" if "l \<in> set locks" "p = q" using that by (auto simp: filter_empty_conv)
    then show ?thesis using True Cons.IH by (auto simp: x retain_Cons held_Cons)
  next
    case False
    then show ?thesis using Cons.IH by (auto simp: x retain_Cons held_Cons)
  qed
qed (simp add: retain_locks_def held_def)

lemma keys_retain:
  "set (gate_keys (retain_locks keep gate)) \<subseteq> set (gate_keys gate)
   \<and> (distinct (gate_keys gate) \<longrightarrow> distinct (gate_keys (retain_locks keep gate)))"
proof (induction gate)
  case (Cons x gate)
  obtain q locks where "x = (q, locks)" by force
  with Cons show ?case by (auto simp: retain_Cons)
qed (simp add: retain_locks_def)

lemma gate_ok_retain:
  assumes "gate_ok is_dir gate"
  shows "gate_ok is_dir (retain_locks keep gate)"
proof -
  have "exclusive is_dir (retain_locks keep gate)"
    using assms unfolding gate_ok_def exclusive_def held_retain by blast
  moreover have "\<forall>x\<in>set (retain_locks keep gate). snd x \<noteq> []" by (auto simp: retain_locks_def)
  ultimately show ?thesis using assms keys_retain by (simp add: gate_ok_def)
qed

lemma gate_push_key:
  "\<exists>k. components k = components path
     \<and> (k = path \<or> (\<exists>locks. (k, locks) \<in> set gate))
     \<and> set (held (gate_push path lock gate)) = insert (k, lock) (set (held gate))"
proof (induction gate)
  case Nil
  show ?case by (simp add: held_def)
next
  case (Cons x gate)
  obtain p locks where x: "x = (p, locks)" by force
  show ?case
  proof (cases "components p = components path")
    case True
    then show ?thesis by (intro exI [of _ p]) (auto simp: x held_def)
  next
    case False
    from Cons.IH obtain k where "components k = components path"
      "k = path \<or> (\<exists>locks. (k, locks) \<in> set gate)"
      "set (held (gate_push path lock gate)) = insert (k, lock) (set (held gate))" by blast
    then show ?thesis using False by (intro exI [of _ k]) (auto simp: x held_def)
  qed
qed

lemma keys_push:
  "set (gate_keys (gate_push path lock gate)) = insert (components path) (set (gate_keys gate))
   \<and> (distinct (gate_keys gate) \<longrightarrow> distinct (gate_keys (gate_push path lock gate)))
   \<and> ((\<forall>x\<in>set gate. snd x \<noteq> []) \<longrightarrow> (\<forall>x\<in>set (gate_push path lock gate). snd x \<noteq> []))"
proof (induction gate)
  case (Cons x gate)
  obtain q locks where "x = (q, locks)" by force
  with Cons show ?case by (auto simp: insert_commute)
qed simp

text \<open>Admitting a lock that clashes with no other agent's lock keeps the table exclusive.\<close>

lemma clash_stored_key:
  assumes "gate_ok is_dir gate" and "components k = components path"
    and "k = path \<or> (\<exists>locks. (k, locks) \<in> set gate)"
    and free: "\<And>q l. (q, l) \<in> set (held gate) \<Longrightarrow> lk_agent l \<noteq> agent \<Longrightarrow> \<not> clash is_dir path r q (lk_range l)"
    and q: "(q, l) \<in> set (held gate)" "lk_agent l \<noteq> agent"
  shows "\<not> clash is_dir k r q (lk_range l)"
proof (cases "is_dir_scope is_dir k r")
  case kd: True
  have same: "scopes_overlap k d x e = scopes_overlap path d x e" for d x e
    by (rule components_path_eqs(3) [OF assms(2)])
  show ?thesis
  proof (cases "is_dir_scope is_dir path r")
    case True
    then show ?thesis using free [OF q] kd by (simp add: clash_dir same)
  next
    case False
    then obtain locks where "(k, locks) \<in> set gate" using assms(3) kd by blast
    with assms(1) obtain l0 where l0: "(k, l0) \<in> set (held gate)"
      by (metis gate_ok_def in_held list.set_intros(1) neq_Nil_conv snd_conv)
    have kd0: "is_dir_scope is_dir k (lk_range l0)" by (rule is_dir_scope_text [OF assms(2) kd False])
    have "clash is_dir path r k (lk_range l0)"
      using kd0 components_path_eqs(1) [OF assms(2)]
      by (subst clash_sym) (simp add: clash_dir same, simp add: scopes_overlap_def)
    with free [OF l0] have "lk_agent l0 = agent" by blast
    with assms(1) l0 q have "\<not> clash is_dir k (lk_range l0) q (lk_range l)"
      by (auto simp: gate_ok_def exclusive_def)
    with kd kd0 show ?thesis by (simp add: clash_dir)
  qed
next
  case kd: False
  have cp: "canonicalize_scope_path k = canonicalize_scope_path path"
    and same: "scopes_overlap k d x e = scopes_overlap path d x e" for d x e
    using components_path_eqs [OF assms(2)] by auto
  show ?thesis
  proof (cases "is_dir_scope is_dir path r")
    case True
    then have "\<not> scopes_overlap path True q (is_dir_scope is_dir q (lk_range l))"
      using free [OF q] by (simp add: clash_dir)
    then have "\<not> scopes_overlap path False q (is_dir_scope is_dir q (lk_range l))"
      using scopes_overlap_mono by blast
    then show ?thesis using kd by (simp add: clash_def Let_def same)
  next
    case False
    then show ?thesis using free [OF q] kd by (auto simp: clash_def Let_def same cp)
  qed
qed

lemma gate_ok_push:
  assumes "gate_ok is_dir gate"
    and free: "\<And>q l. (q, l) \<in> set (held gate) \<Longrightarrow> lk_agent l \<noteq> lk_agent lock \<Longrightarrow>
      \<not> clash is_dir path (lk_range lock) q (lk_range l)"
  shows "gate_ok is_dir (gate_push path lock gate)"
proof -
  obtain k where k: "components k = components path" "k = path \<or> (\<exists>locks. (k, locks) \<in> set gate)"
    "set (held (gate_push path lock gate)) = insert (k, lock) (set (held gate))"
    using gate_push_key by blast
  have new: "\<not> clash is_dir k (lk_range lock) q (lk_range l)"
    if "(q, l) \<in> set (held gate)" "lk_agent l \<noteq> lk_agent lock" for q l
    by (rule clash_stored_key [OF assms(1) k(1,2) free that])
  have "exclusive is_dir gate" using assms(1) by (simp add: gate_ok_def)
  then have "exclusive is_dir (gate_push path lock gate)"
    unfolding exclusive_def k(3) using new clash_sym by (metis insert_iff prod.inject)
  then show ?thesis using keys_push [of path lock gate] assms(1) unfolding gate_ok_def by blast
qed

section \<open>Admission\<close>

definition requested_lock :: "gate_env \<Rightarrow> PathBuf \<Rightarrow> line_range \<Rightarrow> string \<Rightarrow> EditLock" where
  "requested_lock env p r agent = \<lparr>lk_file_path = p, lk_range = r, lk_agent = agent,
     lk_timestamp = ge_now env, lk_claimed_unix = ge_unix env\<rparr>"

text \<open>No incumbent of another agent blocks the request, by path and range or by coupling.\<close>

definition admissible :: "gate_env \<Rightarrow> WriteGate \<Rightarrow> PathBuf \<Rightarrow> line_range \<Rightarrow> string \<Rightarrow> SiteMap option \<Rightarrow> bool" where
  "admissible env gate p r agent site_map \<longleftrightarrow>
     (\<forall>(q, l)\<in>set (held gate). lk_agent l \<noteq> agent \<longrightarrow> \<not> clash (ge_is_dir env) p r q (lk_range l))
     \<and> (\<forall>sm. site_map = Some sm \<longrightarrow>
          (\<forall>(q, l)\<in>set (held gate). lk_agent l \<noteq> agent \<longrightarrow>
             canonicalize_scope_path q \<noteq> canonicalize_scope_path p \<longrightarrow>
             path_identity_hash (ge_sha env) q \<notin>
               set (fst (get_callers (ge_sha env) (ge_de env) sm (path_identity_hash (ge_sha env) p)))))"

lemma acquire_cases:
  "acquire env gate p r agent site_map =
     (let g = prune_stale (ge_now env) LOCK_TTL gate in
      if admissible env g p r agent site_map then (Inr (), gate_push p (requested_lock env p r agent) g)
      else (Inl (case acquire env gate p r agent site_map of (Inl c, _) \<Rightarrow> c), g))"
proof -
  define g where "g = prune_stale (ge_now env) LOCK_TTL gate"
  let ?direct = "List.find (\<lambda>(q, l). direct_check (ge_is_dir env) p r agent q l \<noteq> None) (held g)"
  let ?sem = "case site_map of None \<Rightarrow> None | Some sm \<Rightarrow>
      (let callers = fst (get_callers (ge_sha env) (ge_de env) sm (path_identity_hash (ge_sha env) p))
       in List.find (\<lambda>(q, l). semantic_check (ge_sha env) callers p agent q l) (held g))"
  have d: "?direct = None \<longleftrightarrow> (\<forall>(q, l)\<in>set (held g). lk_agent l \<noteq> agent \<longrightarrow> \<not> clash (ge_is_dir env) p r q (lk_range l))"
    by (auto simp: find_None_iff direct_check_None)
  have sem: "?sem = None \<longleftrightarrow> (\<forall>sm. site_map = Some sm \<longrightarrow>
      (\<forall>(q, l)\<in>set (held g). lk_agent l \<noteq> agent \<longrightarrow>
         canonicalize_scope_path q \<noteq> canonicalize_scope_path p \<longrightarrow>
         path_identity_hash (ge_sha env) q \<notin>
           set (fst (get_callers (ge_sha env) (ge_de env) sm (path_identity_hash (ge_sha env) p)))))"
    by (auto simp: find_None_iff semantic_check_def Let_def split: option.splits)
  have adm: "admissible env g p r agent site_map \<longleftrightarrow> ?direct = None \<and> ?sem = None"
    unfolding d sem admissible_def by simp
  show ?thesis
  proof (cases ?direct)
    case None
    then show ?thesis
      by (cases ?sem) (auto simp: acquire_def g_def [symmetric] adm requested_lock_def Let_def)
  next
    case (Some x)
    then show ?thesis
      by (cases x) (auto simp: acquire_def g_def [symmetric] adm Let_def)
  qed
qed

lemma acquire_result:
  "snd (acquire env gate p r agent site_map) =
     (let g = prune_stale (ge_now env) LOCK_TTL gate in
      if admissible env g p r agent site_map then gate_push p (requested_lock env p r agent) g else g)"
  "fst (acquire env gate p r agent site_map) = Inr () \<longleftrightarrow>
     admissible env (prune_stale (ge_now env) LOCK_TTL gate) p r agent site_map"
  by (subst acquire_cases, simp add: Let_def)+

lemma gate_ok_acquire:
  assumes "gate_ok (ge_is_dir env) gate"
  shows "gate_ok (ge_is_dir env) (snd (acquire env gate p r agent site_map))"
proof -
  let ?g = "prune_stale (ge_now env) LOCK_TTL gate"
  have ok: "gate_ok (ge_is_dir env) ?g" unfolding prune_stale_def by (rule gate_ok_retain [OF assms])
  have "gate_ok (ge_is_dir env) (gate_push p (requested_lock env p r agent) ?g)"
    if "admissible env ?g p r agent site_map"
    by (rule gate_ok_push [OF ok]) (use that in \<open>auto simp: admissible_def requested_lock_def\<close>)
  with ok show ?thesis by (simp add: acquire_result Let_def)
qed

text \<open>The states of the table under any sequence of calls, on one file system.\<close>

inductive gate_reachable :: "(PathBuf \<Rightarrow> bool) \<Rightarrow> WriteGate \<Rightarrow> bool" for is_dir where
  new: "gate_reachable is_dir gate_new"
| acquire: "gate_reachable is_dir g \<Longrightarrow> ge_is_dir env = is_dir \<Longrightarrow>
    gate_reachable is_dir (snd (acquire env g p r agent site_map))"
| release: "gate_reachable is_dir g \<Longrightarrow> gate_reachable is_dir (release g p agent)"
| release_for_agent: "gate_reachable is_dir g \<Longrightarrow> gate_reachable is_dir (release_for_agent g agent)"
| prune: "gate_reachable is_dir g \<Longrightarrow> gate_reachable is_dir (prune_stale now age g)"
| clear: "gate_reachable is_dir g \<Longrightarrow> gate_reachable is_dir (clear_all g)"

lemma gate_reachable_ok: "gate_reachable is_dir g \<Longrightarrow> gate_ok is_dir g"
proof (induction rule: gate_reachable.induct)
  case (acquire g env p r agent site_map)
  then show ?case using gate_ok_acquire by metis
qed (simp_all add: gate_new_def clear_all_def release_def release_for_agent_def prune_stale_def gate_ok_retain)

section \<open>Properties\<close>

text \<open>Two agents and a file system without directories, for concrete runs.\<close>

definition demo_env :: gate_env where
  "demo_env = \<lparr>ge_is_dir = (\<lambda>_. False), ge_sha = demo_sha, ge_de = demo_de_triples, ge_now = 5, ge_unix = 0\<rparr>"

definition demo_gate :: WriteGate where
  "demo_gate = snd (acquire demo_env
     (snd (acquire demo_env gate_new ''a.rs'' (1, 5) ''alice'' None)) ''a.rs'' (6, 9) ''bob'' None)"

lemma demo_gate_reachable: "gate_reachable (\<lambda>_. False) demo_gate"
  unfolding demo_gate_def by (intro gate_reachable.intros) (simp_all add: demo_env_def)

lemma demo_clash: "\<not> clash (\<lambda>_. False) ''a.rs'' (6, 9) ''a.rs'' (1, 5)" "clash (\<lambda>_. False) ''a.rs'' (9, 12) ''a.rs'' (6, 9)"
  unfolding clash_def by code_simp+

lemma demo_prune:
  "prune_stale (ge_now demo_env) LOCK_TTL [(p, [requested_lock demo_env p r a])] = [(p, [requested_lock demo_env p r a])]"
  "prune_stale (ge_now demo_env) LOCK_TTL [] = []"
  by (simp_all add: prune_stale_def retain_locks_def requested_lock_def)

lemma demo_gate_value:
  "demo_gate = [(''a.rs'', [requested_lock demo_env ''a.rs'' (1, 5) ''alice'', requested_lock demo_env ''a.rs'' (6, 9) ''bob''])]"
proof -
  have "snd (acquire demo_env gate_new ''a.rs'' (1, 5) ''alice'' None) =
      [(''a.rs'', [requested_lock demo_env ''a.rs'' (1, 5) ''alice''])]"
    by (simp add: acquire_result Let_def gate_new_def demo_prune admissible_def held_def)
  moreover have "admissible demo_env [(''a.rs'', [requested_lock demo_env ''a.rs'' (1, 5) ''alice''])]
      ''a.rs'' (6, 9) ''bob'' None"
    using demo_clash(1) by (simp add: admissible_def held_def requested_lock_def demo_env_def)
  ultimately show ?thesis
    by (simp add: demo_gate_def acquire_result Let_def demo_prune)
qed

text \<open>
  C4. Mutual exclusion: in every state the write gate can reach, locks of two different agents
  on one resource are line locks with disjoint ranges, and nothing another agent has locked
  lies inside a scope lock, in the sense of the code's comparison of canonical paths (which finds
  nothing inside a scope on the workspace root, \<open>root_scope_covers_nothing\<close>).
\<close>

theorem write_gate_mutual_exclusion:
  assumes "gate_reachable is_dir gate"
    and "(p, l) \<in> set (held gate)" and "(q, l') \<in> set (held gate)" and "lk_agent l \<noteq> lk_agent l'"
  shows "(canonicalize_scope_path p = canonicalize_scope_path q \<longrightarrow>
      \<not> is_dir_scope is_dir p (lk_range l) \<and> \<not> is_dir_scope is_dir q (lk_range l')
      \<and> (snd (lk_range l') < fst (lk_range l) \<or> snd (lk_range l) < fst (lk_range l')))
    \<and> (is_dir_scope is_dir p (lk_range l) \<longrightarrow>
      \<not> is_canonical_within_scope (canonicalize_scope_path q) (canonicalize_scope_path p))"
proof -
  have "gate_ok is_dir gate" by (rule gate_reachable_ok [OF assms(1)])
  with assms(2-4) have "\<not> clash is_dir p (lk_range l) q (lk_range l')"
    unfolding gate_ok_def exclusive_def by blast
  then show ?thesis
    by (auto simp: clash_def Let_def scopes_overlap_def not_le split: if_splits)
qed

theorem write_gate_mutual_exclusion_witness:
  "snd (lk_range (requested_lock demo_env ''a.rs'' (6, 9) ''bob'')) < fst (lk_range (requested_lock demo_env ''a.rs'' (1, 5) ''alice''))
   \<or> snd (lk_range (requested_lock demo_env ''a.rs'' (1, 5) ''alice'')) < fst (lk_range (requested_lock demo_env ''a.rs'' (6, 9) ''bob''))"
proof -
  have "(''a.rs'', requested_lock demo_env ''a.rs'' (1, 5) ''alice'') \<in> set (held demo_gate)"
    "(''a.rs'', requested_lock demo_env ''a.rs'' (6, 9) ''bob'') \<in> set (held demo_gate)"
    by (simp_all add: demo_gate_value held_def)
  from write_gate_mutual_exclusion [OF demo_gate_reachable this] show ?thesis
    by (simp add: requested_lock_def)
qed

text \<open>
  Admission is exact: \<open>acquire\<close> admits a request exactly when no unexpired lock of another
  agent clashes with it by path and range, nor, with a site map, belongs to a caller of the
  requested file; it then holds the requested lock beside the unexpired ones, and a refusal
  changes nothing but the expired locks.
\<close>

theorem acquire_exact:
  "let g = prune_stale (ge_now env) LOCK_TTL gate in
   (fst (acquire env gate p r agent site_map) = Inr () \<longleftrightarrow> admissible env g p r agent site_map)
   \<and> (fst (acquire env gate p r agent site_map) \<noteq> Inr () \<longrightarrow> snd (acquire env gate p r agent site_map) = g)
   \<and> (fst (acquire env gate p r agent site_map) = Inr () \<longrightarrow>
        (\<exists>k. components k = components p
          \<and> set (held (snd (acquire env gate p r agent site_map))) =
              insert (k, requested_lock env p r agent) (set (held g))))"
proof -
  let ?g = "prune_stale (ge_now env) LOCK_TTL gate"
  obtain k where "components k = components p"
    "set (held (gate_push p (requested_lock env p r agent) ?g)) = insert (k, requested_lock env p r agent) (set (held ?g))"
    using gate_push_key by blast
  then show ?thesis unfolding Let_def acquire_result by auto
qed

theorem acquire_exact_witness:
  "fst (acquire demo_env demo_gate ''a.rs'' (9, 12) ''carol'' None) \<noteq> Inr ()"
proof -
  have "\<not> admissible demo_env (prune_stale (ge_now demo_env) LOCK_TTL demo_gate) ''a.rs'' (9, 12) ''carol'' None"
  proof -
    have "(''a.rs'', requested_lock demo_env ''a.rs'' (6, 9) ''bob'')
        \<in> set (held (prune_stale (ge_now demo_env) LOCK_TTL demo_gate))"
      unfolding prune_stale_def held_retain
      by (simp add: demo_gate_value held_def requested_lock_def demo_env_def)
    with demo_clash(2) show ?thesis
      by (force simp: admissible_def requested_lock_def demo_env_def)
  qed
  then show ?thesis
    using acquire_exact [of demo_env demo_gate "''a.rs''" "(9, 12)" "''carol''" None] by (simp add: Let_def)
qed

text \<open>
  Release is exact: after \<open>release\<close> the agent holds nothing on the resource, under any
  spelling of its path, and every other lock is still held; \<open>release_for_agent\<close> drops exactly
  the agent's locks.
\<close>

theorem release_exact:
  "\<not> holds (release gate p agent) agent p
   \<and> set (held (release gate p agent)) = {(q, l). (q, l) \<in> set (held gate) \<and>
        \<not> (canonicalize_scope_path q = canonicalize_scope_path p \<and> lk_agent l = agent)}
   \<and> set (held (release_for_agent gate agent)) = {(q, l). (q, l) \<in> set (held gate) \<and> lk_agent l \<noteq> agent}"
proof -
  have eq: "set (held (release gate p agent)) = {(q, l). (q, l) \<in> set (held gate) \<and>
      \<not> (canonicalize_scope_path q = canonicalize_scope_path p \<and> lk_agent l = agent)}"
    by (auto simp: release_def held_retain)
  have ho: "holds g agent p \<longleftrightarrow> (\<exists>q l. (q, l) \<in> set (held g) \<and>
      canonicalize_scope_path q = canonicalize_scope_path p \<and> lk_agent l = agent)" for g
    by (force simp: holds_def list_ex_iff in_held)
  have "\<not> holds (release gate p agent) agent p" unfolding ho eq by blast
  with eq show ?thesis by (auto simp: release_for_agent_def held_retain)
qed

text \<open>A scope lock on the root of the tree, whose canonical form is empty, covers nothing but
  itself.\<close>

lemma root_scope_covers_nothing:
  assumes "canonicalize_scope_path base = []" and "canonicalize_scope_path p \<noteq> []"
    and "\<not> starts_with (canonicalize_scope_path p) ''/''"
    and "\<not> is_dir_scope is_dir p r"
  shows "\<not> clash is_dir base WHOLE_SCOPE p r"
  using assms by (auto simp: clash_def Let_def scopes_overlap_def is_canonical_within_scope_def
      strip_prefix_def starts_with_def split: if_splits)

end
