(* ===== verification/Coordination.thy ===== *)
theory Coordination
  imports Write_Gate
begin

text \<open>
  The clients of the write gate: the facade \<open>MediatorArena\<close>
  (\<open>velocity-mcp/src/automation/mediator.rs\<close>), the scope acquisition of an orchestrator task
  (\<open>velocity-mcp/src/orchestrator/worker/scope.rs\<close>) and the coordination bus of the chat
  agents (\<open>velocity-mcp/src/agent/coordination.rs\<close>).  They share one gate; the bus adds the
  progress reports, the help requests and the message channel, a queue whose messages are
  taken out by whoever receives first.
\<close>

section \<open>The mediator\<close>

record MediatorArena =
  arena_gate :: WriteGate

definition arena_new :: MediatorArena where
  "arena_new = \<lparr>arena_gate = gate_new\<rparr>"

definition arena_from_gate :: "WriteGate \<Rightarrow> MediatorArena" where
  "arena_from_gate gate = \<lparr>arena_gate = gate\<rparr>"

definition acquire_lock ::
  "gate_env \<Rightarrow> MediatorArena \<Rightarrow> PathBuf \<Rightarrow> line_range \<Rightarrow> string \<Rightarrow> SiteMap \<Rightarrow> (Conflict + unit) \<times> MediatorArena" where
  "acquire_lock env a file_path rng agent site_map =
     (case acquire env (arena_gate a) file_path rng agent (Some site_map) of
        (r, g) \<Rightarrow> (r, a\<lparr>arena_gate := g\<rparr>))"

definition release_lock :: "MediatorArena \<Rightarrow> PathBuf \<Rightarrow> string \<Rightarrow> MediatorArena" where
  "release_lock a file_path agent = a\<lparr>arena_gate := release (arena_gate a) file_path agent\<rparr>"

definition release_locks_for_agent :: "MediatorArena \<Rightarrow> string \<Rightarrow> MediatorArena" where
  "release_locks_for_agent a agent = a\<lparr>arena_gate := release_for_agent (arena_gate a) agent\<rparr>"

definition prune_stale_locks :: "nat \<Rightarrow> nat \<Rightarrow> MediatorArena \<Rightarrow> MediatorArena" where
  "prune_stale_locks now max_age a = a\<lparr>arena_gate := prune_stale now max_age (arena_gate a)\<rparr>"

section \<open>The scope of a task\<close>

fun conflict_kind_label :: "ConflictKind \<Rightarrow> string" where
  "conflict_kind_label DirectLine = ''direct_line''"
| "conflict_kind_label ScopeOverlap = ''scope_overlap''"
| "conflict_kind_label Semantic = ''semantic''"

record ScopeLockConflict =
  sc_kind :: string
  sc_existing_agent :: string
  sc_requested_agent :: string
  sc_contract :: string
  sc_files :: "component list list"

definition scope_conflict :: "PathBuf \<Rightarrow> Conflict \<Rightarrow> ScopeLockConflict" where
  "scope_conflict ws c =
     \<lparr>sc_kind = conflict_kind_label (cf_kind c), sc_existing_agent = lk_agent (cf_existing c),
      sc_requested_agent = lk_agent (cf_requested c), sc_contract = resolve_conflict c,
      sc_files = [case path_strip_prefix (cf_file_path c) ws of
        Some cs \<Rightarrow> cs | None \<Rightarrow> components (cf_file_path c)]\<rparr>"

text \<open>The loop over the scope entries; \<open>envs i\<close> is the environment at the \<open>i\<close>-th
  acquisition.\<close>

fun acquire_entries ::
  "(nat \<Rightarrow> gate_env) \<Rightarrow> PathBuf \<Rightarrow> string \<Rightarrow> SiteMap \<Rightarrow> nat \<Rightarrow> MediatorArena \<Rightarrow> string list \<Rightarrow> PathBuf list
     \<Rightarrow> (ScopeLockConflict + PathBuf list) \<times> MediatorArena" where
  "acquire_entries envs ws agent sm i a [] locked = (Inr locked, a)"
| "acquire_entries envs ws agent sm i a (entry # rest) locked =
     (let abs = path_join ws entry in
      case acquire_lock (envs i) a abs WHOLE_SCOPE agent sm of
        (Inl c, a') \<Rightarrow> (Inl (scope_conflict ws c), fold (\<lambda>p a. release_lock a p agent) locked a')
      | (Inr _, a') \<Rightarrow> acquire_entries envs ws agent sm (Suc i) a' rest (locked @ [abs]))"

definition acquire_scope_locks ::
  "(nat \<Rightarrow> gate_env) \<Rightarrow> PathBuf \<Rightarrow> string list \<Rightarrow> MediatorArena \<Rightarrow> SiteMap \<Rightarrow> u64
     \<Rightarrow> (ScopeLockConflict + PathBuf list) \<times> MediatorArena" where
  "acquire_scope_locks envs ws scope a sm task =
     acquire_entries envs ws (''task-'' @ show_u64 task) sm 0 a scope []"

section \<open>The bus\<close>

datatype AgentBroadcast =
    FileClaimed string PathBuf
  | FileReleased string PathBuf
  | HelpRequested string string string
  | ProgressReported string fp string
  | AgentFinished string string

record AgentProgress =
  ap_agent :: string
  ap_percent :: fp
  ap_status :: string
  ap_updated_at :: u64

record CoordinationBus =
  bus_gate :: WriteGate
  bus_progress :: "(string \<times> AgentProgress) list"
  bus_help_requests :: "(string \<times> string \<times> string) list"
  bus_queue :: "AgentBroadcast list"

definition bus_with_gate :: "WriteGate \<Rightarrow> CoordinationBus" where
  "bus_with_gate gate = \<lparr>bus_gate = gate, bus_progress = [], bus_help_requests = [], bus_queue = []\<rparr>"

definition bus_new :: CoordinationBus where
  "bus_new = bus_with_gate gate_new"

definition broadcast :: "CoordinationBus \<Rightarrow> AgentBroadcast \<Rightarrow> CoordinationBus" where
  "broadcast b msg = b\<lparr>bus_queue := bus_queue b @ [msg]\<rparr>"

definition try_recv :: "CoordinationBus \<Rightarrow> AgentBroadcast option \<times> CoordinationBus" where
  "try_recv b = (case bus_queue b of [] \<Rightarrow> (None, b) | m # ms \<Rightarrow> (Some m, b\<lparr>bus_queue := ms\<rparr>))"

definition drain :: "CoordinationBus \<Rightarrow> AgentBroadcast list \<times> CoordinationBus" where
  "drain b = (bus_queue b, b\<lparr>bus_queue := []\<rparr>)"

definition claim_file :: "gate_env \<Rightarrow> CoordinationBus \<Rightarrow> string \<Rightarrow> PathBuf \<Rightarrow> bool \<times> CoordinationBus" where
  "claim_file env b agent path =
     (let (ok, g) = claim_whole_file env (bus_gate b) agent path; b' = b\<lparr>bus_gate := g\<rparr> in
      if ok then (True, broadcast b' (FileClaimed agent path)) else (False, b'))"

definition release_file :: "CoordinationBus \<Rightarrow> string \<Rightarrow> PathBuf \<Rightarrow> CoordinationBus" where
  "release_file b agent path =
     (if holds (bus_gate b) agent path
      then broadcast (b\<lparr>bus_gate := release (bus_gate b) path agent\<rparr>) (FileReleased agent path)
      else b)"

definition bus_is_locked_by_other :: "CoordinationBus \<Rightarrow> string \<Rightarrow> PathBuf \<Rightarrow> bool" where
  "bus_is_locked_by_other b agent path = is_locked_by_other (bus_gate b) agent path"

definition request_help :: "CoordinationBus \<Rightarrow> string \<Rightarrow> string \<Rightarrow> string \<Rightarrow> CoordinationBus" where
  "request_help b from to task =
     broadcast (b\<lparr>bus_help_requests := bus_help_requests b @ [(from, to, task)]\<rparr>) (HelpRequested from to task)"

definition report_progress :: "u64 \<Rightarrow> CoordinationBus \<Rightarrow> string \<Rightarrow> fp \<Rightarrow> string \<Rightarrow> CoordinationBus" where
  "report_progress ts b agent percent status =
     broadcast (b\<lparr>bus_progress := AList.update agent
         \<lparr>ap_agent = agent, ap_percent = fp_clamp (Fin 0) (Fin 100) percent, ap_status = status, ap_updated_at = ts\<rparr>
         (bus_progress b)\<rparr>) (ProgressReported agent percent status)"

definition all_progress :: "CoordinationBus \<Rightarrow> AgentProgress list" where
  "all_progress b = map snd (bus_progress b)"

definition pending_help_for :: "CoordinationBus \<Rightarrow> string \<Rightarrow> (string \<times> string) list" where
  "pending_help_for b agent =
     map (\<lambda>(from, _, task). (from, task)) (filter (\<lambda>(_, to, _). to = agent) (bus_help_requests b))"

definition bus_reset :: "CoordinationBus \<Rightarrow> CoordinationBus" where
  "bus_reset b = b\<lparr>bus_gate := clear_all (bus_gate b), bus_progress := [], bus_help_requests := []\<rparr>"

section \<open>All or nothing\<close>

text \<open>
  What the clients rely on of a lock table: a refused request adds no lock, an admitted one adds
  at most the requester's lock on the requested path, and a release removes exactly the agent's
  locks on the resource.
\<close>

locale lock_table =
  fixes locks :: "'g \<Rightarrow> (PathBuf \<times> EditLock) set"
    and attempt :: "gate_env \<Rightarrow> 'g \<Rightarrow> PathBuf \<Rightarrow> line_range \<Rightarrow> string \<Rightarrow> SiteMap \<Rightarrow> (Conflict + unit) \<times> 'g"
    and drop_locks :: "'g \<Rightarrow> PathBuf \<Rightarrow> string \<Rightarrow> 'g"
  assumes refused: "fst (attempt env g p r agent sm) \<noteq> Inr () \<Longrightarrow> locks (snd (attempt env g p r agent sm)) \<subseteq> locks g"
    and admitted: "\<exists>k l. locks (snd (attempt env g p r agent sm)) \<subseteq> insert (k, l) (locks g)
      \<and> components k = components p \<and> lk_agent l = agent"
    and dropped: "(q, l) \<in> locks (drop_locks g p agent) \<longleftrightarrow> (q, l) \<in> locks g \<and>
      \<not> (canonicalize_scope_path q = canonicalize_scope_path p \<and> lk_agent l = agent)"
begin

definition own :: "string \<Rightarrow> PathBuf list \<Rightarrow> (PathBuf \<times> EditLock) set" where
  "own agent ps = {(q, l). lk_agent l = agent \<and> (\<exists>p\<in>set ps. canonicalize_scope_path q = canonicalize_scope_path p)}"

lemma fold_drop: "locks (fold (\<lambda>p g. drop_locks g p agent) ps g) = locks g - own agent ps"
proof -
  have "(q, l) \<in> locks (fold (\<lambda>p g. drop_locks g p agent) ps g) \<longleftrightarrow> (q, l) \<in> locks g - own agent ps" for q l
    by (induction ps arbitrary: g) (auto simp: dropped own_def)
  then show ?thesis by auto
qed

lemma attempt_own:
  assumes "locks g \<subseteq> H \<union> own agent ps"
  shows "locks (snd (attempt env g p r agent sm)) \<subseteq> H \<union> own agent (ps @ [p])"
proof -
  obtain k l where kl: "locks (snd (attempt env g p r agent sm)) \<subseteq> insert (k, l) (locks g)"
    "components k = components p" "lk_agent l = agent" using admitted by blast
  have "(k, l) \<in> own agent (ps @ [p])" using kl(3) components_path_eqs(1) [OF kl(2)] by (simp add: own_def)
  moreover have "own agent ps \<subseteq> own agent (ps @ [p])" by (auto simp: own_def)
  ultimately show ?thesis using assms kl(1) by blast
qed

lemma refused_rollback:
  assumes "locks g \<subseteq> H \<union> own agent ps" and "fst (attempt env g p r agent sm) \<noteq> Inr ()"
  shows "locks (fold (\<lambda>p g. drop_locks g p agent) ps (snd (attempt env g p r agent sm))) \<subseteq> H"
  using assms(1) refused [OF assms(2)] unfolding fold_drop by blast

end

lemma held_prune: "set (held (prune_stale now age g)) \<subseteq> set (held g)"
  by (auto simp: prune_stale_def held_retain)

interpretation gate_table: lock_table "\<lambda>g. set (held g)" "\<lambda>env g p r agent sm. acquire env g p r agent (Some sm)" release
proof
  fix env :: gate_env and g p r agent sm q l
  let ?g = "prune_stale (ge_now env) LOCK_TTL g"
  show "set (held (snd (acquire env g p r agent (Some sm)))) \<subseteq> set (held g)"
    if "fst (acquire env g p r agent (Some sm)) \<noteq> Inr ()"
    using that held_prune unfolding acquire_result by (simp add: Let_def)
  obtain k where "components k = components p"
    "set (held (gate_push p (requested_lock env p r agent) ?g)) = insert (k, requested_lock env p r agent) (set (held ?g))"
    using gate_push_key by blast
  then show "\<exists>k l. set (held (snd (acquire env g p r agent (Some sm)))) \<subseteq> insert (k, l) (set (held g))
      \<and> components k = components p \<and> lk_agent l = agent"
    using held_prune [of "ge_now env" LOCK_TTL g]
    by (intro exI [of _ k] exI [of _ "requested_lock env p r agent"])
      (auto simp: acquire_result Let_def requested_lock_def)
  show "(q, l) \<in> set (held (release g p agent)) \<longleftrightarrow> (q, l) \<in> set (held g) \<and>
      \<not> (canonicalize_scope_path q = canonicalize_scope_path p \<and> lk_agent l = agent)"
    by (auto simp: release_def held_retain)
qed

lemma acquire_lock_gate:
  "fst (acquire_lock env a p r agent sm) = fst (acquire env (arena_gate a) p r agent (Some sm))"
  "arena_gate (snd (acquire_lock env a p r agent sm)) = snd (acquire env (arena_gate a) p r agent (Some sm))"
  by (simp_all add: acquire_lock_def case_prod_beta)

interpretation arena_table: lock_table "\<lambda>a. set (held (arena_gate a))" acquire_lock release_lock
  by unfold_locales
    (simp_all add: acquire_lock_gate release_lock_def gate_table.refused gate_table.admitted gate_table.dropped)

lemma acquire_entries_rollback:
  assumes "acquire_entries envs ws agent sm i a scope locked = (Inl c, a')"
    and "set (held (arena_gate a)) \<subseteq> H \<union> arena_table.own agent locked"
  shows "set (held (arena_gate a')) \<subseteq> H"
  using assms
proof (induction scope arbitrary: i a locked)
  case (Cons entry rest)
  let ?abs = "path_join ws entry"
  obtain res a1 where acq: "acquire_lock (envs i) a ?abs WHOLE_SCOPE agent sm = (res, a1)" by force
  show ?case
  proof (cases res)
    case (Inl conflict)
    then show ?thesis
      using Cons.prems acq arena_table.refused_rollback [OF Cons.prems(2), of "envs i" ?abs WHOLE_SCOPE sm] by simp
  next
    case (Inr u)
    then have "acquire_entries envs ws agent sm (Suc i) a1 rest (locked @ [?abs]) = (Inl c, a')"
      using Cons.prems(1) acq by simp
    moreover have "set (held (arena_gate a1)) \<subseteq> H \<union> arena_table.own agent (locked @ [?abs])"
      using arena_table.attempt_own [OF Cons.prems(2), of "envs i" ?abs WHOLE_SCOPE sm] acq by simp
    ultimately show ?thesis by (rule Cons.IH)
  qed
qed simp

lemma gate_reachable_entries:
  assumes "gate_reachable is_dir (arena_gate a)" and "\<And>i. ge_is_dir (envs i) = is_dir"
  shows "gate_reachable is_dir (arena_gate (snd (acquire_entries envs ws agent sm i a scope locked)))"
  using assms(1)
proof (induction scope arbitrary: i a locked)
  case (Cons entry rest)
  obtain res a1 where acq: "acquire_lock (envs i) a (path_join ws entry) WHOLE_SCOPE agent sm = (res, a1)" by force
  have r1: "gate_reachable is_dir (arena_gate a1)"
    using gate_reachable.acquire [OF Cons.prems assms(2)] acquire_lock_gate(2) acq by (metis snd_conv)
  have "gate_reachable is_dir (arena_gate (fold (\<lambda>p a. release_lock a p agent) ps b))"
    if "gate_reachable is_dir (arena_gate b)" for ps b
    using that by (induction ps arbitrary: b) (auto simp: release_lock_def gate_reachable.release)
  with r1 Cons.IH acq show ?case by (cases res) simp_all
qed simp

section \<open>Properties\<close>

text \<open>
  Scope acquisition is all or nothing: when one entry of a task's scope is refused, the
  locks taken for the entries before it are rolled back, so that the gate holds no lock it did
  not hold before; whether it succeeds or not, the gate stays mutually exclusive.
\<close>

theorem scope_locks_all_or_nothing:
  assumes "gate_reachable is_dir (arena_gate a)" and "\<forall>i. ge_is_dir (envs i) = is_dir"
  shows "case acquire_scope_locks envs ws scope a sm task of
      (Inl c, a') \<Rightarrow> set (held (arena_gate a')) \<subseteq> set (held (arena_gate a)) \<and> gate_reachable is_dir (arena_gate a')
    | (Inr paths, a') \<Rightarrow> paths = map (path_join ws) scope \<and> gate_reachable is_dir (arena_gate a')"
proof -
  let ?agent = "''task-'' @ show_u64 task"
  obtain res a' where r: "acquire_scope_locks envs ws scope a sm task = (res, a')" by force
  have reach: "gate_reachable is_dir (arena_gate a')"
    using gate_reachable_entries [OF assms(1), of envs ws ?agent sm 0 scope "[]"] assms(2) r
    by (simp add: acquire_scope_locks_def)
  have ok: "acquire_entries envs ws ag sm i b es locked = (Inr paths, b') \<Longrightarrow> paths = locked @ map (path_join ws) es"
    for ag i b es locked paths b'
    by (induction es arbitrary: i b locked) (fastforce simp: Let_def split: prod.splits sum.splits)+
  show ?thesis
  proof (cases res)
    case (Inl c)
    with r have "set (held (arena_gate a')) \<subseteq> set (held (arena_gate a))"
      using acquire_entries_rollback [of envs ws ?agent sm 0 a scope "[]" c a' "set (held (arena_gate a))"]
      by (simp add: acquire_scope_locks_def)
    with r Inl reach show ?thesis by simp
  next
    case (Inr paths)
    with r ok [of ?agent 0 a scope "[]" paths a'] reach show ?thesis
      by (simp add: acquire_scope_locks_def)
  qed
qed

theorem scope_locks_all_or_nothing_witness:
  "gate_reachable (\<lambda>_. False) (arena_gate (snd (acquire_scope_locks (\<lambda>_. demo_env) ''/ws'' [''b.rs'', ''a.rs'']
      \<lparr>arena_gate = demo_gate\<rparr> demo_store 7)))"
  using scope_locks_all_or_nothing [of "\<lambda>_. False" "\<lparr>arena_gate = demo_gate\<rparr>" "\<lambda>_. demo_env" "''/ws''"
      "[''b.rs'', ''a.rs'']" demo_store 7] demo_gate_reachable
  by (auto simp: demo_env_def split: prod.splits sum.splits)

text \<open>
  One gate for both write paths: a file claimed through the bus is refused to every other
  agent that asks the mediator for it, for any range and under any spelling of the path, as long
  as the claim has not expired.
\<close>

theorem bus_claim_blocks_mediator:
  assumes "claim_file env b agent p = (True, b')"
    and "ge_now env \<le> ge_now env'" and "ge_now env' \<le> ge_now env + LOCK_TTL"
    and "canonicalize_scope_path q = canonicalize_scope_path p" and "other \<noteq> agent"
  shows "fst (acquire_lock env' (arena_from_gate (bus_gate b')) q r other sm) \<noteq> Inr ()"
proof -
  let ?g = "prune_stale (ge_now env) LOCK_TTL (bus_gate b)" and ?l = "requested_lock env p WHOLE_SCOPE agent"
  obtain g where "claim_whole_file env (bus_gate b) agent p = (True, g)" "bus_gate b' = g"
    using assms(1) by (auto simp: claim_file_def broadcast_def Let_def split: prod.splits if_splits)
  then have b': "bus_gate b' = gate_push p ?l ?g"
    using acquire_result [of env "bus_gate b" p WHOLE_SCOPE agent None]
    by (auto simp: claim_whole_file_def Let_def split: prod.splits)
  obtain k where k: "components k = components p" "(k, ?l) \<in> set (held (bus_gate b'))"
    using gate_push_key [of p ?g ?l] b' by auto
  have held: "(k, ?l) \<in> set (held (prune_stale (ge_now env') LOCK_TTL (bus_gate b')))"
    using k(2) assms(2,3) by (auto simp: prune_stale_def held_retain requested_lock_def)
  have "is_dir_scope (ge_is_dir env') k WHOLE_SCOPE" by (simp add: is_dir_scope_def WHOLE_SCOPE_def)
  then have "clash (ge_is_dir env') q r k WHOLE_SCOPE"
    unfolding clash_def using components_path_eqs(1) [OF k(1)] assms(4) by (simp add: Let_def scopes_overlap_def)
  with held assms(5) have "\<not> admissible env' (prune_stale (ge_now env') LOCK_TTL (bus_gate b')) q r other (Some sm)"
    by (force simp: admissible_def requested_lock_def)
  then show ?thesis by (simp add: acquire_lock_gate arena_from_gate_def acquire_result)
qed

theorem bus_claim_blocks_mediator_witness:
  "fst (acquire_lock demo_env (arena_from_gate (bus_gate (snd (claim_file demo_env bus_new ''primary'' ''src/shared.rs''))))
     ''./src/shared.rs'' (1, 5) ''task-9'' demo_store) \<noteq> Inr ()"
proof -
  have "claim_file demo_env bus_new ''primary'' ''src/shared.rs'' =
      (True, snd (claim_file demo_env bus_new ''primary'' ''src/shared.rs''))"
    using acquire_result(2) [of demo_env "[]" "''src/shared.rs''" WHOLE_SCOPE "''primary''" None]
    by (simp add: claim_file_def claim_whole_file_def bus_new_def bus_with_gate_def gate_new_def
        prune_stale_def retain_locks_def admissible_def held_def case_prod_beta Let_def)
  moreover have "canonicalize_scope_path ''./src/shared.rs'' = canonicalize_scope_path ''src/shared.rs''" by code_simp
  ultimately show ?thesis by (intro bus_claim_blocks_mediator) auto
qed

primrec receives :: "nat \<Rightarrow> CoordinationBus \<Rightarrow> AgentBroadcast option list \<times> CoordinationBus" where
  "receives 0 b = ([], b)"
| "receives (Suc n) b = (let (m, b') = try_recv b; (ms, b'') = receives n b' in (m # ms, b''))"

text \<open>
  The bus delivers each message once: \<open>n\<close> receives, by whichever handles, take the oldest
  \<open>n\<close> messages, in order, out of the shared queue; a message one agent has received reaches no
  other agent.
\<close>

theorem broadcast_delivered_once:
  "receives n b = (map Some (take n (bus_queue b)) @ replicate (n - length (bus_queue b)) None,
     b\<lparr>bus_queue := drop n (bus_queue b)\<rparr>)"
proof (induction n arbitrary: b)
  case (Suc n)
  show ?case
  proof (cases "bus_queue b")
    case Nil
    then show ?thesis by (simp add: try_recv_def Suc.IH)
  next
    case (Cons m ms)
    then show ?thesis by (simp add: try_recv_def Suc.IH)
  qed
qed simp

end
