(* ===== verification/Json_Value.thy ===== *)
theory Json_Value
  imports Rust_Std
begin

text \<open>
  The values of \<open>serde_json\<close> and the accessors the code uses on them.  Reading and printing
  JSON text are parameters of the components that do it.
\<close>

section \<open>JSON values\<close>

text \<open>\<open>serde_json::Value\<close>; an object is its map in key order.\<close>

datatype JNumber = PosInt nat | NegInt int | Float fp

datatype Json =
    JNull
  | JBool bool
  | JNum JNumber
  | JStr string
  | JArr "Json list"
  | JObj "(string \<times> Json) list"

fun json_get :: "string \<Rightarrow> Json \<Rightarrow> Json option" where
  "json_get k (JObj m) = map_of m k"
| "json_get k _ = None"

fun as_str :: "Json \<Rightarrow> string option" where
  "as_str (JStr s) = Some s"
| "as_str _ = None"

fun as_array :: "Json \<Rightarrow> Json list option" where
  "as_array (JArr xs) = Some xs"
| "as_array _ = None"

fun as_u64 :: "Json \<Rightarrow> nat option" where
  "as_u64 (JNum (PosInt n)) = Some n"
| "as_u64 _ = None"

fun as_f64 :: "Json \<Rightarrow> fp option" where
  "as_f64 (JNum (PosInt n)) = Some (Fin (of_nat n))"
| "as_f64 (JNum (NegInt i)) = Some (Fin (of_int i))"
| "as_f64 (JNum (Float x)) = Some x"
| "as_f64 _ = None"

end
