(* ===== verification/Workflow_Engine.thy ===== *)
theory Workflow_Engine
  imports Json_Value
begin

text \<open>
  The deterministic workflow engine (\<open>velocity-mcp/src/editor/workflow/mod.rs\<close>) and the
  parser of playbook steps (\<open>parse_step\<close> of
  \<open>velocity-mcp/src/editor/company_org.rs\<close>).  The registered tools, the headless agent,
  the JSON reader and printer and the clock are the fields of \<open>wf_env\<close>; a run threads
  the world \<open>'w\<close> they act on.  The settle pause of a recheck has no effect in the model.
\<close>

section \<open>Steps\<close>

datatype StepOutcome = StepOk | StepFailed | StepSkipped

fun outcome_label :: "StepOutcome \<Rightarrow> string" where
  "outcome_label StepOk = ''ok''"
| "outcome_label StepFailed = ''failed''"
| "outcome_label StepSkipped = ''skipped''"

record TextPredicate =
  contains_all :: "string list"
  contains_none :: "string list"

record Recheck =
  rc_tool :: string
  rc_args :: Json
  rc_attempts :: u32
  rc_settle_ms :: u64

datatype WorkflowStep =
    AgentTask (ws_prompt: string) (ws_team: "string option")
  | ToolStep (ws_name: string) (ws_args: Json)
  | Connector (ws_conn: string) (ws_req: Json)
  | Condition (ws_require: StepOutcome) (ws_on_text: "TextPredicate option") (ws_recheck: "Recheck option")
  | ForEach (ws_source: string) (ws_as: string) (ws_body: "WorkflowStep list")

definition OUTWARD_TOOLS :: "string list" where
  "OUTWARD_TOOLS =
    [''request_org_action'', ''approve_org_action'', ''reject_org_action'', ''dispatch_org_role'',
     ''run_org_playbook'', ''resume_org_playbook'', ''run_due_org_playbooks'',
     ''execute_org_credential_rotation_after_approval'', ''grant_org_credential_elevation'',
     ''consume_org_credential_elevation'', ''write_file'', ''edit_file'', ''create_file'', ''delete_file'']"

definition GUARDED_TOOLS :: "string list" where
  "GUARDED_TOOLS =
    [''execute_org_browser_task'', ''execute_org_browser_task_for_request'', ''execute_org_browser_broadcast'']"

definition MUTATING_BROWSER_KEYS :: "string list" where
  "MUTATING_BROWSER_KEYS =
    [''form_fields'', ''form_submit_selector'', ''extra_actions'', ''upload_files'', ''upload_selector'',
     ''click_selector'', ''press_key'', ''type_text'', ''download_selector'', ''dialog_action'', ''set_cookie'',
     ''set_storage'', ''drag_and_drop'', ''right_click'', ''select_option'', ''navigate'', ''platforms'', ''message'']"

definition recheck_is_observation_only :: "string \<Rightarrow> Json \<Rightarrow> bool" where
  "recheck_is_observation_only name args \<longleftrightarrow>
     (if name \<in> set OUTWARD_TOOLS then False
      else if name \<in> set GUARDED_TOOLS then
        (case Option.bind (json_get ''read_script'' args) as_str of Some s \<Rightarrow> s \<noteq> [] | None \<Rightarrow> False)
        \<and> \<not> list_ex (\<lambda>k. json_get k args \<noteq> None) MUTATING_BROWSER_KEYS
      else True)"

definition pred_holds :: "TextPredicate \<Rightarrow> string \<Rightarrow> bool" where
  "pred_holds p text \<longleftrightarrow> list_all (\<lambda>n. str_contains n text) (contains_all p)
     \<and> list_all (\<lambda>n. \<not> str_contains n text) (contains_none p)"

text \<open>The times sign of the label of a fan-out, in UTF-8.\<close>

definition kind_label_of :: "WorkflowStep \<Rightarrow> string" where
  "kind_label_of step = (case step of
     AgentTask _ _ \<Rightarrow> ''agent''
   | ToolStep name _ \<Rightarrow> ''tool:'' @ name
   | Connector i _ \<Rightarrow> ''connector:'' @ i
   | Condition require _ _ \<Rightarrow> ''condition=='' @ outcome_label require
   | ForEach source _ body \<Rightarrow> ''foreach['' @ source @ '']'' @ [CHR 0xC3, CHR 0x97] @ show_nat (length body))"

section \<open>Placeholders\<close>

text \<open>\<open>str::replace\<close> for a needle that is not empty.\<close>

function str_replace :: "string \<Rightarrow> string \<Rightarrow> string \<Rightarrow> string" where
  "str_replace needle repl [] = []"
| "str_replace needle repl (c # cs) =
     (if needle \<noteq> [] \<and> starts_with (c # cs) needle
      then repl @ str_replace needle repl (drop (length needle) (c # cs))
      else c # str_replace needle repl cs)"
  by pat_completeness auto
termination
  by (relation "measure (\<lambda>(n, r, s). length s)") (auto simp: le_imp_less_Suc)

fun find_sub :: "string \<Rightarrow> string \<Rightarrow> nat option" where
  "find_sub needle [] = (if needle = [] then Some 0 else None)"
| "find_sub needle (c # cs) = (if starts_with (c # cs) needle then Some 0 else map_option Suc (find_sub needle cs))"

definition placeholder :: "string \<Rightarrow> string" where
  "placeholder k = ''{{'' @ k @ ''}}''"

text \<open>The scan that collects the dotted tokens.\<close>

lemma find_sub_bound: "find_sub n s = Some i \<Longrightarrow> i + length n \<le> length s"
proof (induction s arbitrary: i)
  case (Cons c cs)
  show ?case
  proof (cases "starts_with (c # cs) n")
    case True
    then have "length n \<le> length (c # cs)" unfolding starts_with_append by (metis le_add1 length_append)
    with True Cons.prems show ?thesis by simp
  next
    case False
    with Cons show ?thesis by auto
  qed
qed (auto split: if_splits)

function dotted_tokens :: "string \<Rightarrow> string list \<Rightarrow> string list" where
  "dotted_tokens s acc =
     (case find_sub ''{{'' s of
        None \<Rightarrow> acc
      | Some op \<Rightarrow>
          (let rest = drop (op + 2) s in
           case find_sub ''}}'' rest of
             None \<Rightarrow> acc
           | Some cl \<Rightarrow>
               (let token = take cl rest in
                dotted_tokens (drop (cl + 2) rest)
                  (if CHR ''.'' \<in> set token \<and> token \<notin> set acc then acc @ [token] else acc))))"
  by pat_completeness auto
termination
  by (relation "measure (\<lambda>(s, acc). length s)") (auto dest!: find_sub_bound)

declare dotted_tokens.simps [simp del]

definition render_value :: "(Json \<Rightarrow> string) \<Rightarrow> Json \<Rightarrow> string" where
  "render_value json_text v = (case v of JStr s \<Rightarrow> s | _ \<Rightarrow> json_text v)"

definition subst_key :: "(Json \<Rightarrow> string) \<Rightarrow> string \<times> Json \<Rightarrow> string \<Rightarrow> string" where
  "subst_key json_text kv s =
     (let needle = placeholder (fst kv) in
      if str_contains needle s then str_replace needle (render_value json_text (snd kv)) s else s)"

definition walk_path :: "Json \<Rightarrow> string \<Rightarrow> Json option" where
  "walk_path ctx token = foldl (\<lambda>node seg. Option.bind node (json_get seg)) (Some ctx) (split_on CHR ''.'' token)"

definition subst_dotted :: "(Json \<Rightarrow> string) \<Rightarrow> Json \<Rightarrow> string \<Rightarrow> string \<Rightarrow> string" where
  "subst_dotted json_text ctx token s =
     (case walk_path ctx token of
        Some v \<Rightarrow> str_replace (placeholder token) (render_value json_text v) s
      | None \<Rightarrow> s)"

definition subst_string :: "(Json \<Rightarrow> string) \<Rightarrow> Json \<Rightarrow> string \<Rightarrow> string \<Rightarrow> string" where
  "subst_string json_text ctx last_output s =
     (let s1 = (if str_contains ''{{lastOutput}}'' s then str_replace ''{{lastOutput}}'' last_output s else s);
          s2 = (case ctx of JObj obj \<Rightarrow> fold (subst_key json_text) obj s1 | _ \<Rightarrow> s1)
      in fold (subst_dotted json_text ctx) (dotted_tokens s2 []) s2)"

fun substitute_ctx :: "(Json \<Rightarrow> string) \<Rightarrow> Json \<Rightarrow> string \<Rightarrow> Json \<Rightarrow> Json" where
  "substitute_ctx json_text ctx last_output (JStr s) = JStr (subst_string json_text ctx last_output s)"
| "substitute_ctx json_text ctx last_output (JArr arr) = JArr (map (substitute_ctx json_text ctx last_output) arr)"
| "substitute_ctx json_text ctx last_output (JObj m) = JObj (map (\<lambda>(k, v). (k, substitute_ctx json_text ctx last_output v)) m)"
| "substitute_ctx json_text ctx last_output v = v"

section \<open>Runs\<close>

record StepRecord =
  sr_index :: nat
  sr_kind :: string
  sr_outcome :: StepOutcome
  sr_output :: string

datatype RunStatus = RunSuccess | RunPartial | RunFailed

fun status_label :: "RunStatus \<Rightarrow> string" where
  "status_label RunSuccess = ''success''"
| "status_label RunPartial = ''partial''"
| "status_label RunFailed = ''failed''"

fun status_debug :: "RunStatus \<Rightarrow> string" where
  "status_debug RunSuccess = ''Success''"
| "status_debug RunPartial = ''Partial''"
| "status_debug RunFailed = ''Failed''"

record DeterminismReport =
  agent_steps :: nat
  tool_calls :: nat
  connector_calls :: nat
  condition_checks :: nat
  foreach_steps :: nat

definition det_default :: DeterminismReport where
  "det_default = \<lparr>agent_steps = 0, tool_calls = 0, connector_calls = 0, condition_checks = 0, foreach_steps = 0\<rparr>"

definition det_total :: "DeterminismReport \<Rightarrow> nat" where
  "det_total d = agent_steps d + tool_calls d + connector_calls d + condition_checks d + foreach_steps d"

definition deterministic_ratio :: "DeterminismReport \<Rightarrow> rat" where
  "deterministic_ratio d =
     (let t = det_total d in if t = 0 then 0 else of_nat (t - agent_steps d) / of_nat t)"

definition det_merge :: "DeterminismReport \<Rightarrow> DeterminismReport \<Rightarrow> DeterminismReport" where
  "det_merge d other =
     \<lparr>agent_steps = agent_steps d + agent_steps other, tool_calls = tool_calls d + tool_calls other,
      connector_calls = connector_calls d + connector_calls other,
      condition_checks = condition_checks d + condition_checks other,
      foreach_steps = foreach_steps d + foreach_steps other\<rparr>"

definition det_tally :: "WorkflowStep \<Rightarrow> DeterminismReport \<Rightarrow> DeterminismReport" where
  "det_tally step d = (case step of
     AgentTask _ _ \<Rightarrow> d\<lparr>agent_steps := agent_steps d + 1\<rparr>
   | ToolStep _ _ \<Rightarrow> d\<lparr>tool_calls := tool_calls d + 1\<rparr>
   | Connector _ _ \<Rightarrow> d\<lparr>connector_calls := connector_calls d + 1\<rparr>
   | Condition _ _ _ \<Rightarrow> d\<lparr>condition_checks := condition_checks d + 1\<rparr>
   | ForEach _ _ _ \<Rightarrow> d\<lparr>foreach_steps := foreach_steps d + 1\<rparr>)"

record WorkflowRun =
  wr_workflow_id :: string
  wr_status :: RunStatus
  wr_steps :: "StepRecord list"
  wr_started_at :: u64
  wr_finished_at :: u64
  wr_determinism :: DeterminismReport

definition ok_count :: "WorkflowRun \<Rightarrow> nat" where
  "ok_count run = length (filter (\<lambda>s. sr_outcome s = StepOk) (wr_steps run))"

record 'w wf_env =
  call_tool :: "string \<Rightarrow> Json \<Rightarrow> 'w \<Rightarrow> (string + string) \<times> 'w"
  run_agent :: "string \<Rightarrow> string option \<Rightarrow> 'w \<Rightarrow> (bool \<times> string) \<times> 'w"
  parse_array :: "string \<Rightarrow> Json list option"
  json_text :: "Json \<Rightarrow> string"
  wf_now :: "'w \<Rightarrow> u64 \<times> 'w"

section \<open>One step\<close>

text \<open>The messages a condition records.\<close>

definition recheck_stamp :: "Recheck \<Rightarrow> nat \<Rightarrow> nat \<Rightarrow> string" where
  "recheck_stamp r tries attempt = show_nat attempt @ ''/'' @ show_nat tries @ '' ['' @ rc_tool r @ '']''"

definition clean_note :: "Recheck \<Rightarrow> nat \<Rightarrow> nat \<Rightarrow> string" where
  "clean_note r tries attempt = '', re-observed clean on recheck '' @ recheck_stamp r tries attempt"

definition pending_note :: "Recheck \<Rightarrow> nat \<Rightarrow> nat \<Rightarrow> string" where
  "pending_note r tries attempt = '', recheck '' @ recheck_stamp r tries attempt @ '' still not satisfied''"

definition no_prior_msg :: string where
  "no_prior_msg = ''condition failed: no prior step''"

definition mismatch_msg :: "StepOutcome \<Rightarrow> StepOutcome \<Rightarrow> string" where
  "mismatch_msg oc require = ''condition failed: prior '' @ outcome_label oc @ '' != '' @ outcome_label require"

definition met_msg :: "StepOutcome \<Rightarrow> string" where
  "met_msg require = ''condition met: prior == '' @ outcome_label require"

definition clean_msg :: "StepOutcome \<Rightarrow> string \<Rightarrow> string" where
  "clean_msg require nt = met_msg require @ '' & verdict clean'' @ nt"

definition unsatisfied_msg :: "StepOutcome \<Rightarrow> string \<Rightarrow> string" where
  "unsatisfied_msg require nt =
     ''condition failed: verdict predicate not satisfied (prior '' @ outcome_label require @ '')'' @ nt"

definition refused_msg :: "Recheck \<Rightarrow> string" where
  "refused_msg r = ''condition failed: verdict predicate not satisfied and recheck refused ('' @ quoted (rc_tool r)
     @ '' is an outward action)''"

text \<open>The attempts of a recheck, from \<open>attempt\<close> to \<open>tries\<close>; \<open>n\<close> are left.\<close>

fun recheck_loop ::
  "'w wf_env \<Rightarrow> Recheck \<Rightarrow> TextPredicate \<Rightarrow> nat \<Rightarrow> nat \<Rightarrow> string \<Rightarrow> 'w \<Rightarrow> (bool \<times> string) \<times> 'w" where
  "recheck_loop env r p tries 0 note w = ((False, note), w)"
| "recheck_loop env r p tries (Suc n) note w =
     (let attempt = tries - n;
          (res, w1) = call_tool env (rc_tool r) (rc_args r) w;
          observed = (case res of Inr out \<Rightarrow> out | Inl e \<Rightarrow> e)
      in if pred_holds p observed then ((True, clean_note r tries attempt), w1)
         else recheck_loop env r p tries n (pending_note r tries attempt) w1)"

definition run_condition ::
  "'w wf_env \<Rightarrow> StepOutcome \<Rightarrow> TextPredicate option \<Rightarrow> Recheck option \<Rightarrow> StepOutcome option \<Rightarrow> string option \<Rightarrow> 'w
     \<Rightarrow> (StepOutcome \<times> string) \<times> 'w" where
  "run_condition env require on_text recheck prior prior_output w =
     (case prior of
        None \<Rightarrow> ((StepFailed, no_prior_msg), w)
      | Some oc \<Rightarrow>
          if oc = require then
            (case on_text of
               None \<Rightarrow> ((StepOk, met_msg require), w)
             | Some p \<Rightarrow>
                 if contains_all p = [] \<and> contains_none p = [] then ((StepOk, met_msg require), w)
                 else if pred_holds p (case prior_output of Some h \<Rightarrow> h | None \<Rightarrow> [])
                 then ((StepOk, clean_msg require []), w)
                 else (case recheck of
                     None \<Rightarrow> ((StepFailed, unsatisfied_msg require []), w)
                   | Some r \<Rightarrow>
                       if \<not> recheck_is_observation_only (rc_tool r) (rc_args r)
                       then ((StepFailed, refused_msg r), w)
                       else (let tries = max (unat (rc_attempts r)) 1;
                                 ((clean, nt), w1) = recheck_loop env r p tries tries [] w
                             in if clean then ((StepOk, clean_msg require nt), w1)
                                else ((StepFailed, unsatisfied_msg require nt), w1))))
          else ((StepFailed, mismatch_msg oc require), w))"

definition run_step ::
  "'w wf_env \<Rightarrow> WorkflowStep \<Rightarrow> StepOutcome option \<Rightarrow> string option \<Rightarrow> 'w \<Rightarrow> (StepOutcome \<times> string) \<times> 'w" where
  "run_step env step prior prior_output w = (case step of
     ToolStep name args \<Rightarrow>
       (case call_tool env name args w of
          (Inr out, w1) \<Rightarrow> ((StepOk, out), w1)
        | (Inl e, w1) \<Rightarrow> ((StepFailed, e), w1))
   | AgentTask prompt team \<Rightarrow>
       (case run_agent env prompt team w of
          ((completed, text), w1) \<Rightarrow> ((if completed then StepOk else StepFailed, text), w1))
   | Connector i req \<Rightarrow> ((StepSkipped, ''connector '' @ quoted i @ '' execution wired in Pillar 2''), w)
   | ForEach source _ body \<Rightarrow>
       ((StepFailed, ''foreach['' @ source @ '']'' @ [CHR 0xC3, CHR 0x97] @ show_nat (length body)
           @ '' must be dispatched via Workflow::execute_with_context''), w)
   | Condition require on_text recheck \<Rightarrow> run_condition env require on_text recheck prior prior_output w)"

text \<open>The binding of placeholders in the arguments of a step.\<close>

definition bind_step :: "'w wf_env \<Rightarrow> Json \<Rightarrow> string \<Rightarrow> WorkflowStep \<Rightarrow> WorkflowStep" where
  "bind_step env ctx last_output step = (case step of
     ToolStep name args \<Rightarrow> ToolStep name (substitute_ctx (json_text env) ctx last_output args)
   | Condition require on_text (Some r) \<Rightarrow>
       Condition require on_text (Some (r\<lparr>rc_args := substitute_ctx (json_text env) ctx last_output (rc_args r)\<rparr>))
   | other \<Rightarrow> other)"

lemma bind_step_foreach: "bind_step env ctx lo step = ForEach s a b \<longleftrightarrow> step = ForEach s a b"
  by (auto simp: bind_step_def split: WorkflowStep.splits option.splits)

section \<open>The engine\<close>

text \<open>The local variables of the loop over the steps.\<close>

record wf_loop =
  lp_records :: "StepRecord list"
  lp_det :: DeterminismReport
  lp_short :: bool
  lp_prior :: "StepOutcome option"
  lp_prior_output :: "string option"
  lp_last_output :: string

definition loop_start :: wf_loop where
  "loop_start = \<lparr>lp_records = [], lp_det = det_default, lp_short = False, lp_prior = None, lp_prior_output = None, lp_last_output = []\<rparr>"

definition foreach_items :: "'w wf_env \<Rightarrow> Json \<Rightarrow> string \<Rightarrow> string \<Rightarrow> Json list" where
  "foreach_items env ctx source last_output =
     (case Option.bind (json_get source ctx) as_array of
        Some xs \<Rightarrow> xs
      | None \<Rightarrow>
          if source = ''lastOutput'' then (case parse_array env last_output of Some xs \<Rightarrow> xs | None \<Rightarrow> []) else [])"

definition child_ctx :: "Json \<Rightarrow> string \<Rightarrow> Json \<Rightarrow> Json" where
  "child_ctx ctx as_var item = (case ctx of JObj m \<Rightarrow> JObj (bt_insert as_var item m) | _ \<Rightarrow> JObj [(as_var, item)])"

definition is_gate :: "WorkflowStep \<Rightarrow> bool" where
  "is_gate step \<longleftrightarrow> (case step of Condition _ _ _ \<Rightarrow> True | ForEach _ _ _ \<Rightarrow> True | _ \<Rightarrow> False)"

definition is_condition :: "WorkflowStep \<Rightarrow> bool" where
  "is_condition step \<longleftrightarrow> (case step of Condition _ _ _ \<Rightarrow> True | _ \<Rightarrow> False)"

definition skip_step :: "nat \<Rightarrow> WorkflowStep \<Rightarrow> wf_loop \<Rightarrow> wf_loop" where
  "skip_step index step ls = ls\<lparr>lp_records := lp_records ls @
     [\<lparr>sr_index = index, sr_kind = kind_label_of step, sr_outcome = StepSkipped,
       sr_output = ''skipped (prior condition not met)''\<rparr>]\<rparr>"

text \<open>What the loop does with the outcome of a step it ran.\<close>

definition finish_step ::
  "nat \<Rightarrow> WorkflowStep \<Rightarrow> StepOutcome \<Rightarrow> string \<Rightarrow> DeterminismReport \<Rightarrow> wf_loop \<Rightarrow> wf_loop" where
  "finish_step index step oc output det ls =
     \<lparr>lp_records = lp_records ls @ [\<lparr>sr_index = index, sr_kind = kind_label_of step, sr_outcome = oc, sr_output = output\<rparr>],
      lp_det = det_tally step det,
      lp_short = (lp_short ls \<or> is_gate step \<and> oc = StepFailed),
      lp_prior = Some oc,
      lp_prior_output = Some output,
      lp_last_output = (if \<not> is_condition step \<and> oc = StepOk then output else lp_last_output ls)\<rparr>"

definition run_status_of :: "StepRecord list \<Rightarrow> RunStatus" where
  "run_status_of records =
     (if list_ex (\<lambda>r. sr_outcome r = StepFailed) records then RunFailed
      else if list_ex (\<lambda>r. sr_outcome r = StepSkipped) records then RunPartial
      else RunSuccess)"

definition foreach_line :: "'w wf_env \<Rightarrow> nat \<Rightarrow> nat \<Rightarrow> RunStatus \<Rightarrow> Json \<Rightarrow> string" where
  "foreach_line env i n status item =
     ''  ['' @ show_nat i @ ''/'' @ show_nat n @ ''] '' @ status_debug status @ '' '' @ em_dash @ '' '' @ json_text env item"

text \<open>
  \<open>exec_steps\<close> is the loop of \<open>execute_with_context\<close>, \<open>exec_items\<close> the loop
  of a fan-out over the items of its array, which runs the body as a workflow of its own; its
  result is the lines, the merged metering and whether an iteration failed.
\<close>

function (sequential)
  exec_steps :: "'w wf_env \<Rightarrow> Json \<Rightarrow> nat \<Rightarrow> WorkflowStep list \<Rightarrow> wf_loop \<Rightarrow> 'w \<Rightarrow> wf_loop \<times> 'w"
and exec_items :: "'w wf_env \<Rightarrow> Json \<Rightarrow> string \<Rightarrow> WorkflowStep list \<Rightarrow> nat \<Rightarrow> nat \<Rightarrow> Json list \<Rightarrow> string list \<Rightarrow> DeterminismReport \<Rightarrow> 'w
    \<Rightarrow> (string list \<times> DeterminismReport \<times> bool) \<times> 'w" where
  "exec_steps env ctx index [] ls w = (ls, w)"
| "exec_steps env ctx index (step # steps) ls w =
     (if lp_short ls then exec_steps env ctx (index + 1) steps (skip_step index step ls) w
      else (case bind_step env ctx (lp_last_output ls) step of
        ForEach source as_var body \<Rightarrow>
          (let arr = foreach_items env ctx source (lp_last_output ls) in
           if arr = [] then
             exec_steps env ctx (index + 1) steps
               (finish_step index step StepOk (''foreach '' @ quoted source @ '': 0 item(s) '' @ em_dash @ '' nothing to fan out'')
                  (lp_det ls) ls) w
           else
             (case exec_items env ctx as_var body 1 (length arr) arr [] (lp_det ls) w of
                ((ls_lines, det, any_failed), w1) \<Rightarrow>
                  exec_steps env ctx (index + 1) steps
                    (finish_step index step (if any_failed then StepFailed else StepOk)
                       (''foreach '' @ show_nat (length arr) @ '' item(s) from '' @ quoted source @ '':'' @ [CHR 0x0A]
                          @ join [CHR 0x0A] ls_lines) det ls) w1))
      | bound \<Rightarrow>
          (case run_step env bound (lp_prior ls) (lp_prior_output ls) w of
             ((oc, output), w1) \<Rightarrow>
               exec_steps env ctx (index + 1) steps (finish_step index bound oc output (lp_det ls) ls) w1)))"
| "exec_items env ctx as_var body i n [] acc det w = ((acc, det, False), w)"
| "exec_items env ctx as_var body i n (item # items) acc det w =
     (let (started, w0) = wf_now env w in
      case exec_steps env (child_ctx ctx as_var item) 0 body loop_start w0 of
        (sub, w1) \<Rightarrow>
          (let (finished, w2) = wf_now env w1;
               status = run_status_of (lp_records sub);
               lines' = acc @ [foreach_line env i n status item];
               det' = det_merge det (lp_det sub)
           in if status \<noteq> RunSuccess then ((lines', det', True), w2)
              else exec_items env ctx as_var body (i + 1) n items lines' det' w2))"
  by pat_completeness auto
termination
  by (relation "inv_image (less_than <*lex*> less_than)
    (\<lambda>x. case x of Inl (env, ctx, index, steps, ls, w) \<Rightarrow> (size_list size steps, 0)
      | Inr (env, ctx, as_var, body, i, n, items, acc, det, w) \<Rightarrow> (size_list size body, Suc (length items)))")
    (auto simp: bind_step_foreach dest: sym)

declare exec_steps.simps(2) [simp del] exec_items.simps(2) [simp del]

record Workflow =
  wf_id :: string
  wf_name :: string
  wf_steps :: "WorkflowStep list"

definition execute_with_context :: "'w wf_env \<Rightarrow> Workflow \<Rightarrow> Json \<Rightarrow> 'w \<Rightarrow> WorkflowRun \<times> 'w" where
  "execute_with_context env flow ctx w =
     (let (started_at, w0) = wf_now env w;
          (ls, w1) = exec_steps env ctx 0 (wf_steps flow) loop_start w0;
          (finished_at, w2) = wf_now env w1
      in (\<lparr>wr_workflow_id = wf_id flow, wr_status = run_status_of (lp_records ls), wr_steps = lp_records ls,
           wr_started_at = started_at, wr_finished_at = finished_at, wr_determinism = lp_det ls\<rparr>, w2))"

definition execute :: "'w wf_env \<Rightarrow> Workflow \<Rightarrow> 'w \<Rightarrow> WorkflowRun \<times> 'w" where
  "execute env flow w = execute_with_context env flow JNull w"

section \<open>Parsing steps\<close>

definition strings_at :: "string \<Rightarrow> Json \<Rightarrow> string list" where
  "strings_at k t = (case Option.bind (json_get k t) as_array of Some arr \<Rightarrow> List.map_filter as_str arr | None \<Rightarrow> [])"

definition parse_predicate :: "Json \<Rightarrow> TextPredicate option" where
  "parse_predicate t =
     (let al = strings_at ''all'' t; none = strings_at ''none'' t in
      if al = [] \<and> none = [] then None else Some \<lparr>contains_all = al, contains_none = none\<rparr>)"

definition parse_recheck :: "Json \<Rightarrow> Recheck option" where
  "parse_recheck r =
     (case Option.bind (json_get ''tool'' r) as_str of
        None \<Rightarrow> None
      | Some tool \<Rightarrow> Some
          \<lparr>rc_tool = tool,
           rc_args = (case json_get ''args'' r of Some a \<Rightarrow> a | None \<Rightarrow> JObj []),
           rc_attempts = of_nat (case Option.bind (json_get ''attempts'' r) as_u64 of Some n \<Rightarrow> n | None \<Rightarrow> 1),
           rc_settle_ms = of_nat (case Option.bind (json_get ''settle_ms'' r) as_u64 of Some n \<Rightarrow> n | None \<Rightarrow> 0)\<rparr>)"

lemma size_map_of: "map_of m k = Some v \<Longrightarrow> size v < size_list (size_prod (\<lambda>_. 0) size) m"
  by (induction m) (auto split: if_splits)

lemma json_get_size: "json_get k v = Some x \<Longrightarrow> size x < size v"
  by (cases v) (auto dest: size_map_of)

lemma json_body_size:
  assumes "json_get k v = Some fe" and "Option.bind (json_get b fe) as_array = Some arr" and "x \<in> set arr"
  shows "size x < size v"
proof -
  from assms(2) obtain y where y: "json_get b fe = Some y" "as_array y = Some arr"
    by (auto simp: bind_eq_Some_conv)
  then have "y = JArr arr" by (cases y) auto
  with assms(3) have "size x < size y" by (auto simp: less_Suc_eq_le intro: size_list_estimation')
  with json_get_size [OF y(1)] json_get_size [OF assms(1)] show ?thesis by simp
qed

text \<open>The first error of a list of parses, or all results (\<open>?\<close> in a loop).\<close>

fun collect_results :: "('e + 'a) list \<Rightarrow> 'e + 'a list" where
  "collect_results [] = Inr []"
| "collect_results (Inl e # rs) = Inl e"
| "collect_results (Inr x # rs) = (case collect_results rs of Inl e \<Rightarrow> Inl e | Inr xs \<Rightarrow> Inr (x # xs))"

function parse_step :: "Json \<Rightarrow> string + WorkflowStep" where
  "parse_step v =
     (let str_at = (\<lambda>k. Option.bind (json_get k v) as_str) in
      case str_at ''tool'' of
        Some name \<Rightarrow> Inr (ToolStep name (case json_get ''args'' v of Some a \<Rightarrow> a | None \<Rightarrow> JObj []))
      | None \<Rightarrow>
     (case str_at ''agent'' of
        Some prompt \<Rightarrow> Inr (AgentTask prompt (str_at ''team''))
      | None \<Rightarrow>
     (case str_at ''connector'' of
        Some i \<Rightarrow> Inr (Connector i (case json_get ''req'' v of Some a \<Rightarrow> a | None \<Rightarrow> JObj []))
      | None \<Rightarrow>
     (case str_at ''condition'' of
        Some cond \<Rightarrow>
          Inr (Condition
            (if to_lowercase cond = ''failed'' then StepFailed else if to_lowercase cond = ''skipped'' then StepSkipped else StepOk)
            (Option.bind (json_get ''text'' v) parse_predicate)
            (Option.bind (json_get ''recheck'' v) parse_recheck))
      | None \<Rightarrow>
     (case json_get ''foreach'' v of
        None \<Rightarrow> Inl ''step must be one of {tool, agent, connector, condition, foreach}''
      | Some fe \<Rightarrow>
          (case Option.bind (json_get ''from'' fe) as_str of
             None \<Rightarrow> Inl ''foreach.from must be a string''
           | Some source \<Rightarrow>
          (case Option.bind (json_get ''as'' fe) as_str of
             None \<Rightarrow> Inl ''foreach.as must be a string''
           | Some as_var \<Rightarrow>
          (case Option.bind (json_get ''body'' fe) as_array of
             None \<Rightarrow> Inl ''foreach.body must be an array of steps''
           | Some body_arr \<Rightarrow>
               (case collect_results (map parse_step body_arr) of
                  Inl e \<Rightarrow> Inl e
                | Inr body \<Rightarrow> Inr (ForEach source as_var body))))))))))"
  by pat_completeness auto
termination
  by (relation "measure size") (auto dest: json_body_size)

declare parse_step.simps [simp del]

section \<open>The loop, one step at a time\<close>

definition exec_one :: "'w wf_env \<Rightarrow> Json \<Rightarrow> nat \<Rightarrow> WorkflowStep \<Rightarrow> wf_loop \<Rightarrow> 'w \<Rightarrow> wf_loop \<times> 'w" where
  "exec_one env ctx index step ls w = exec_steps env ctx index [step] ls w"

lemma exec_steps_Cons:
  "exec_steps env ctx index (step # steps) ls w =
     (case exec_one env ctx index step ls w of (ls', w') \<Rightarrow> exec_steps env ctx (index + 1) steps ls' w')"
  by (auto simp: exec_one_def exec_steps.simps(2) Let_def split: WorkflowStep.splits prod.splits)

lemma exec_steps_append:
  "exec_steps env ctx index (xs @ ys) ls w =
     (case exec_steps env ctx index xs ls w of (ls', w') \<Rightarrow> exec_steps env ctx (index + length xs) ys ls' w')"
  by (induction xs arbitrary: index ls w) (auto simp: exec_steps_Cons split: prod.splits)

lemma bind_step_same:
  "kind_label_of (bind_step env ctx lo s) = kind_label_of s" "is_gate (bind_step env ctx lo s) = is_gate s"
  "is_condition (bind_step env ctx lo s) = is_condition s"
  by (auto simp: bind_step_def kind_label_of_def is_gate_def is_condition_def split: WorkflowStep.splits option.splits)

lemma exec_one_skip:
  "lp_short ls \<Longrightarrow> exec_one env ctx index step ls w = (skip_step index step ls, w)"
  by (simp add: exec_one_def exec_steps.simps(2))

text \<open>Every step that runs ends in \<open>finish_step\<close>.\<close>

lemma exec_one_run:
  assumes "\<not> lp_short ls"
  obtains oc outp det bound w' where
    "exec_one env ctx index step ls w = (finish_step index bound oc outp det ls, w')"
    "kind_label_of bound = kind_label_of step" "is_gate bound = is_gate step" "is_condition bound = is_condition step"
proof -
  let ?b = "bind_step env ctx (lp_last_output ls) step"
  have "\<exists>oc outp det bound w'. exec_one env ctx index step ls w = (finish_step index bound oc outp det ls, w')
      \<and> bound \<in> {step, ?b}"
  proof (cases ?b)
    case (ForEach s a b)
    show ?thesis
    proof (cases "foreach_items env ctx s (lp_last_output ls) = []")
      case True
      with assms ForEach show ?thesis by (fastforce simp: exec_one_def exec_steps.simps(2))
    next
      case False
      obtain l d f w1 where "exec_items env ctx a b 1 (length (foreach_items env ctx s (lp_last_output ls)))
          (foreach_items env ctx s (lp_last_output ls)) [] (lp_det ls) w = ((l, d, f), w1)"
        by (metis surj_pair)
      with assms ForEach False show ?thesis by (simp add: exec_one_def exec_steps.simps(2)) blast
    qed
  qed (use assms in \<open>auto simp: exec_one_def exec_steps.simps(2) split: prod.splits; metis surj_pair\<close>)+
  then show thesis using that bind_step_same [of env ctx "lp_last_output ls" step] by auto
qed

text \<open>The records mirror the steps: one per step, in order, each with its position and label.\<close>

definition mirrors :: "nat \<Rightarrow> WorkflowStep list \<Rightarrow> StepRecord list \<Rightarrow> bool" where
  "mirrors index steps rs \<longleftrightarrow>
     length rs = length steps \<and> (\<forall>i<length steps. sr_index (rs ! i) = index + i \<and> sr_kind (rs ! i) = kind_label_of (steps ! i))"

lemma exec_one_records:
  assumes "exec_one env ctx index step ls w = (ls', w')"
  obtains r where "lp_records ls' = lp_records ls @ [r]" "sr_index r = index" "sr_kind r = kind_label_of step"
    "lp_short ls' \<longleftrightarrow> lp_short ls \<or> is_gate step \<and> sr_outcome r = StepFailed"
    "lp_short ls \<Longrightarrow> sr_outcome r = StepSkipped \<and> w' = w"
proof (cases "lp_short ls")
  case True
  with assms show ?thesis
    by (intro that [of "\<lparr>sr_index = index, sr_kind = kind_label_of step, sr_outcome = StepSkipped,
       sr_output = ''skipped (prior condition not met)''\<rparr>"]) (auto simp: exec_one_skip skip_step_def)
next
  case False
  obtain oc outp det bound w1 where e: "exec_one env ctx index step ls w = (finish_step index bound oc outp det ls, w1)"
    and b: "kind_label_of bound = kind_label_of step" "is_gate bound = is_gate step" "is_condition bound = is_condition step"
    by (rule exec_one_run [OF False])
  from e assms have "ls' = finish_step index bound oc outp det ls" by simp
  with b False show ?thesis
    by (intro that [of "\<lparr>sr_index = index, sr_kind = kind_label_of bound, sr_outcome = oc, sr_output = outp\<rparr>"])
      (simp_all add: finish_step_def)
qed

lemma exec_steps_records:
  assumes "exec_steps env ctx index steps ls w = (ls', w')"
  shows "\<exists>rs. lp_records ls' = lp_records ls @ rs \<and> mirrors index steps rs
    \<and> (lp_short ls' \<longleftrightarrow> lp_short ls \<or> (\<exists>i<length steps. is_gate (steps ! i) \<and> sr_outcome (rs ! i) = StepFailed))
    \<and> (lp_short ls \<longrightarrow> (\<forall>r\<in>set rs. sr_outcome r = StepSkipped) \<and> w' = w)"
  using assms
proof (induction steps arbitrary: index ls w)
  case Nil
  then show ?case by (auto simp: mirrors_def)
next
  case (Cons step steps)
  obtain l1 w1 where one: "exec_one env ctx index step ls w = (l1, w1)" by (metis surj_pair)
  with Cons.prems have rest: "exec_steps env ctx (index + 1) steps l1 w1 = (ls', w')" by (simp add: exec_steps_Cons)
  obtain r where r: "lp_records l1 = lp_records ls @ [r]" "sr_index r = index" "sr_kind r = kind_label_of step"
    "lp_short l1 \<longleftrightarrow> lp_short ls \<or> is_gate step \<and> sr_outcome r = StepFailed"
    "lp_short ls \<Longrightarrow> sr_outcome r = StepSkipped \<and> w1 = w"
    using exec_one_records [OF one] by blast
  obtain rs where rs: "lp_records ls' = lp_records l1 @ rs" "mirrors (index + 1) steps rs"
    "lp_short ls' \<longleftrightarrow> lp_short l1 \<or> (\<exists>i<length steps. is_gate (steps ! i) \<and> sr_outcome (rs ! i) = StepFailed)"
    "lp_short l1 \<longrightarrow> (\<forall>r\<in>set rs. sr_outcome r = StepSkipped) \<and> w' = w1"
    using Cons.IH [OF rest] by blast
  have "mirrors index (step # steps) (r # rs)"
    using rs(2) r(2,3) by (auto simp: mirrors_def nth_Cons split: nat.splits)
  moreover have "(\<exists>i<length (step # steps). is_gate ((step # steps) ! i) \<and> sr_outcome ((r # rs) ! i) = StepFailed) \<longleftrightarrow>
      is_gate step \<and> sr_outcome r = StepFailed \<or> (\<exists>i<length steps. is_gate (steps ! i) \<and> sr_outcome (rs ! i) = StepFailed)"
    by (simp add: Ex_less_Suc2)
  ultimately show ?case using r rs by (intro exI [of _ "r # rs"]) auto
qed

section \<open>What the calls of the engine leave alone\<close>

text \<open>A part \<open>f\<close> of the world that no tool, no agent and no reading of the clock changes.\<close>

definition engine_keeps :: "'w wf_env \<Rightarrow> ('w \<Rightarrow> 'a) \<Rightarrow> bool" where
  "engine_keeps env f \<longleftrightarrow> (\<forall>w. f (snd (wf_now env w)) = f w) \<and> (\<forall>name args w. f (snd (call_tool env name args w)) = f w)
     \<and> (\<forall>prompt team w. f (snd (run_agent env prompt team w)) = f w)"

lemma keeps_now: "engine_keeps env f \<Longrightarrow> wf_now env w = (t, w') \<Longrightarrow> f w' = f w"
  by (metis engine_keeps_def snd_conv)

lemma keeps_tool: "engine_keeps env f \<Longrightarrow> call_tool env name args w = (r, w') \<Longrightarrow> f w' = f w"
  by (metis engine_keeps_def snd_conv)

lemma keeps_agent: "engine_keeps env f \<Longrightarrow> run_agent env prompt team w = (r, w') \<Longrightarrow> f w' = f w"
  by (metis engine_keeps_def snd_conv)

lemma keeps_recheck: "engine_keeps env f \<Longrightarrow> recheck_loop env r p tries n nt w = (x, w') \<Longrightarrow> f w' = f w"
  by (induction n arbitrary: nt w) (auto simp: Let_def split: prod.splits if_splits dest: keeps_tool)

lemma keeps_condition:
  assumes "engine_keeps env f" "run_condition env require on_text recheck prior prior_output w = (r, w')"
  shows "f w' = f w"
  using assms(2)
  by (auto simp: run_condition_def Let_def split: option.splits if_splits prod.splits dest: keeps_recheck [OF assms(1)])

lemma keeps_step:
  assumes "engine_keeps env f" "run_step env step prior prior_output w = (r, w')"
  shows "f w' = f w"
  using assms(2)
  by (cases step) (auto simp: run_step_def split: prod.splits sum.splits
      dest: keeps_tool [OF assms(1)] keeps_agent [OF assms(1)] keeps_condition [OF assms(1)])

lemma keeps_exec:
  "engine_keeps env f \<Longrightarrow> exec_steps env ctx index steps ls w = (ls', w') \<Longrightarrow> f w' = f w"
  "engine_keeps env f \<Longrightarrow> exec_items env ctx as_var body i n items acc det w = (r, w') \<Longrightarrow> f w' = f w"
proof (induction env ctx index steps ls w and env ctx as_var body i n items acc det w
    arbitrary: ls' w' and r w' rule: exec_steps_exec_items.induct)
  case (2 env ctx index step steps ls w)
  note keeps = "2.prems"(1)
  show ?case
  proof (cases "lp_short ls")
    case True
    with 2(1) [OF True keeps] "2.prems"(2) show ?thesis by (simp add: exec_steps.simps(2))
  next
    case False
    let ?b = "bind_step env ctx (lp_last_output ls) step"
    obtain oc outp w1 where run: "run_step env ?b (lp_prior ls) (lp_prior_output ls) w = ((oc, outp), w1)"
      by (metis surj_pair)
    note w1 = keeps_step [OF keeps run]
    show ?thesis
    proof (cases ?b)
      case (AgentTask p q)
      with 2(2) [OF False AgentTask run [unfolded AgentTask, symmetric] refl keeps] "2.prems"(2) False run w1
      show ?thesis by (simp add: exec_steps.simps(2))
    next
      case (ToolStep p q)
      with 2(3) [OF False ToolStep run [unfolded ToolStep, symmetric] refl keeps] "2.prems"(2) False run w1
      show ?thesis by (simp add: exec_steps.simps(2))
    next
      case (Connector p q)
      with 2(4) [OF False Connector run [unfolded Connector, symmetric] refl keeps] "2.prems"(2) False run w1
      show ?thesis by (simp add: exec_steps.simps(2))
    next
      case (Condition p q r)
      with 2(5) [OF False Condition run [unfolded Condition, symmetric] refl keeps] "2.prems"(2) False run w1
      show ?thesis by (simp add: exec_steps.simps(2))
    next
      case (ForEach s a b)
      let ?arr = "foreach_items env ctx s (lp_last_output ls)"
      show ?thesis
      proof (cases "?arr = []")
        case True
        with 2(6) [OF False ForEach refl True keeps] False ForEach "2.prems"(2) show ?thesis
          by (simp add: exec_steps.simps(2))
      next
        case arr: False
        obtain l d f y1 where it: "exec_items env ctx a b 1 (length ?arr) ?arr [] (lp_det ls) w = ((l, d, f), y1)"
          by (metis surj_pair)
        note 2(7) [OF False ForEach refl arr keeps it] 2(8) [OF False ForEach refl arr it [symmetric] refl refl keeps]
        then show ?thesis using "2.prems"(2) False ForEach arr it by (simp add: exec_steps.simps(2) Let_def)
      qed
    qed
  qed
next
  case (4 env ctx as_var body i n item items acc det w)
  obtain t0 w0 where t0: "wf_now env w = (t0, w0)" by (metis surj_pair)
  obtain sub w1 where sub: "exec_steps env (child_ctx ctx as_var item) 0 body loop_start w0 = (sub, w1)" by (metis surj_pair)
  obtain t2 w2 where t2: "wf_now env w1 = (t2, w2)" by (metis surj_pair)
  note keeps = "4.prems"(1)
  have "f w2 = f w"
    using 4(1) [OF t0 [symmetric] refl keeps sub] keeps_now [OF keeps t0] keeps_now [OF keeps t2] by simp
  moreover note 4(2) [OF t0 [symmetric] refl sub [symmetric] t2 [symmetric] refl refl refl refl _ keeps]
  ultimately show ?case
    using "4.prems"(2) t0 sub t2 by (auto simp: exec_items.simps(2) Let_def split: if_splits)
qed auto

lemma keeps_execute:
  assumes "engine_keeps env f"
  shows "f (snd (execute_with_context env flow ctx w)) = f w"
  by (auto simp: execute_with_context_def Let_def split: prod.splits
      dest!: keeps_now [OF assms] keeps_exec(1) [OF assms])

lemma execute_mirrors: "mirrors 0 (wf_steps flow) (wr_steps (fst (execute_with_context env flow ctx w)))"
  by (auto simp: execute_with_context_def Let_def loop_start_def split: prod.splits dest!: exec_steps_records)

section \<open>What a condition may do\<close>

text \<open>The world after \<open>k\<close> observations of a recheck.\<close>

definition observe :: "'w wf_env \<Rightarrow> Recheck \<Rightarrow> 'w \<Rightarrow> 'w" where
  "observe env r w = snd (call_tool env (rc_tool r) (rc_args r) w)"

text \<open>The messages a condition can record: none of them carries the output of a tool.\<close>

definition recheck_notes :: "Recheck \<Rightarrow> string list" where
  "recheck_notes r =
     (let tries = max (unat (rc_attempts r)) 1
      in [] # map (clean_note r tries) [1..<Suc tries] @ map (pending_note r tries) [1..<Suc tries])"

definition condition_messages :: "StepOutcome \<Rightarrow> Recheck option \<Rightarrow> StepOutcome option \<Rightarrow> string list" where
  "condition_messages require recheck prior =
     (let notes = (case recheck of Some r \<Rightarrow> recheck_notes r | None \<Rightarrow> [[]])
      in [no_prior_msg, met_msg require]
         @ (case prior of Some oc \<Rightarrow> [mismatch_msg oc require] | None \<Rightarrow> [])
         @ (case recheck of Some r \<Rightarrow> [refused_msg r] | None \<Rightarrow> [])
         @ map (clean_msg require) notes @ map (unsatisfied_msg require) notes)"

lemma recheck_loop_observes:
  assumes "recheck_loop env r p tries n nt w = ((clean, nt'), w')" and "n \<le> tries" and "tries = max (unat (rc_attempts r)) 1"
    and "nt \<in> set (recheck_notes r)"
  shows "(\<exists>k\<le>n. w' = (observe env r ^^ k) w) \<and> nt' \<in> set (recheck_notes r)"
  using assms
proof (induction n arbitrary: nt w)
  case 0
  then show ?case by auto
next
  case (Suc n)
  obtain res w1 where c: "call_tool env (rc_tool r) (rc_args r) w = (res, w1)" by (metis surj_pair)
  then have w1: "w1 = observe env r w" by (simp add: observe_def)
  have att: "tries - n \<in> set [1..<Suc tries]" using Suc.prems(2) by auto
  show ?case
  proof (cases "pred_holds p (case res of Inr out \<Rightarrow> out | Inl e \<Rightarrow> e)")
    case True
    with Suc.prems c have "w' = w1" and "nt' \<in> set (recheck_notes r)"
      using att by (auto simp: recheck_notes_def Let_def)
    with w1 show ?thesis by (auto intro!: exI [of _ 1])
  next
    case False
    let ?note = "pending_note r tries (tries - n)"
    have "?note \<in> set (recheck_notes r)" using att Suc.prems(3) by (auto simp: recheck_notes_def Let_def)
    moreover have "recheck_loop env r p tries n ?note w1 = ((clean, nt'), w')"
      using Suc.prems(1) c False by (simp add: Let_def)
    ultimately obtain k where "k \<le> n" "w' = (observe env r ^^ k) w1" "nt' \<in> set (recheck_notes r)"
      using Suc.IH [of ?note w1] Suc.prems by auto
    with w1 show ?thesis by (auto simp: funpow_swap1 intro!: exI [of _ "Suc k"])
  qed
qed

lemma observation_not_outward: "recheck_is_observation_only name args \<Longrightarrow> name \<notin> set OUTWARD_TOOLS"
  by (auto simp: recheck_is_observation_only_def)

lemma condition_observes:
  assumes "run_condition env require on_text recheck prior prior_output w = ((oc, msg), w')"
  shows "(w' = w \<or> (\<exists>r k. recheck = Some r \<and> recheck_is_observation_only (rc_tool r) (rc_args r)
        \<and> rc_tool r \<notin> set OUTWARD_TOOLS \<and> k \<le> max (unat (rc_attempts r)) 1 \<and> w' = (observe env r ^^ k) w))
    \<and> msg \<in> set (condition_messages require recheck prior)"
proof -
  note defs = run_condition_def condition_messages_def recheck_notes_def Let_def
  show ?thesis
  proof (cases "\<exists>r. recheck = Some r \<and> recheck_is_observation_only (rc_tool r) (rc_args r)
      \<and> (w' \<noteq> w \<or> msg \<notin> set (condition_messages require recheck prior))")
    case False
    then show ?thesis using assms
      by (cases prior; cases recheck; cases on_text) (auto simp: defs split: if_splits)
  next
    case True
    then obtain r where r: "recheck = Some r" "recheck_is_observation_only (rc_tool r) (rc_args r)" by blast
    obtain clean nt w1 p where "recheck_loop env r p (max (unat (rc_attempts r)) 1) (max (unat (rc_attempts r)) 1) [] w = ((clean, nt), w1)"
      and w1: "w' = w1" "msg = clean_msg require nt \<or> msg = unsatisfied_msg require nt"
      using True assms r by (cases prior; cases on_text) (auto simp: defs split: if_splits prod.splits)
    from recheck_loop_observes [OF this(1)] obtain k where "k \<le> max (unat (rc_attempts r)) 1" "w1 = (observe env r ^^ k) w"
      "nt \<in> set (recheck_notes r)" by (auto simp: recheck_notes_def Let_def)
    with r w1 show ?thesis using observation_not_outward [OF r(2)]
      by (auto simp: condition_messages_def Let_def)
  qed
qed

section \<open>Properties\<close>

text \<open>A log of tool calls as the world, for concrete runs: every tool answers \<open>done\<close>.\<close>

definition demo_wf_env :: "string list wf_env" where
  "demo_wf_env = \<lparr>call_tool = (\<lambda>name args w. (Inr ''done'', w @ [name])), run_agent = (\<lambda>p t w. ((True, ''drafted''), w)),
     parse_array = (\<lambda>_. None), json_text = (\<lambda>_. []), wf_now = (\<lambda>w. (0, w))\<rparr>"

definition demo_flow :: Workflow where
  "demo_flow = \<lparr>wf_id = ''pay'', wf_name = ''Pay'', wf_steps =
     [ToolStep ''read'' JNull,
      Condition StepOk (Some \<lparr>contains_all = [''PASS''], contains_none = []\<rparr>)
        (Some \<lparr>rc_tool = ''read'', rc_args = JNull, rc_attempts = 2, rc_settle_ms = 0\<rparr>),
      AgentTask ''draft'' None, ToolStep ''pay'' JNull]\<rparr>"

text \<open>
  C37. A gate that does not pass stops the run: once a condition or a fan-out has failed, every
  later step is recorded as skipped, the run is reported as failed, and the world is the one
  the steps up to that gate leave behind.
\<close>

theorem failed_gate_halts:
  assumes run: "execute_with_context env flow ctx w = (run, w')"
    and i: "i < length (wf_steps flow)" "is_gate (wf_steps flow ! i)" "sr_outcome (wr_steps run ! i) = StepFailed"
  shows "wr_status run = RunFailed \<and> length (wr_steps run) = length (wf_steps flow)
    \<and> (\<forall>j. i < j \<and> j < length (wf_steps flow) \<longrightarrow> sr_outcome (wr_steps run ! j) = StepSkipped)
    \<and> w' = snd (execute_with_context env (flow\<lparr>wf_steps := take (Suc i) (wf_steps flow)\<rparr>) ctx w)"
proof -
  let ?xs = "take (Suc i) (wf_steps flow)" and ?ys = "drop (Suc i) (wf_steps flow)"
  obtain t0 w0 where t0: "wf_now env w = (t0, w0)" by (metis surj_pair)
  obtain l1 w1 where one: "exec_steps env ctx 0 ?xs loop_start w0 = (l1, w1)" by (metis surj_pair)
  obtain l2 w2 where two: "exec_steps env ctx (Suc i) ?ys l1 w1 = (l2, w2)" by (metis surj_pair)
  have all: "exec_steps env ctx 0 (wf_steps flow) loop_start w0 = (l2, w2)"
    using exec_steps_append [of env ctx 0 ?xs ?ys loop_start w0] one two i(1) by simp
  obtain rs1 where rs1: "lp_records l1 = rs1" "mirrors 0 ?xs rs1"
    "lp_short l1 \<longleftrightarrow> (\<exists>j<length ?xs. is_gate (?xs ! j) \<and> sr_outcome (rs1 ! j) = StepFailed)"
    using exec_steps_records [OF one] by (auto simp: loop_start_def)
  obtain rs2 where rs2: "lp_records l2 = rs1 @ rs2" "mirrors (Suc i) ?ys rs2"
    "lp_short l1 \<longrightarrow> (\<forall>r\<in>set rs2. sr_outcome r = StepSkipped) \<and> w2 = w1"
    using exec_steps_records [OF two] rs1(1) by auto
  have len: "length rs1 = Suc i" "length rs2 = length (wf_steps flow) - Suc i"
    using rs1(2) rs2(2) i(1) by (auto simp: mirrors_def)
  have steps: "wr_steps run = rs1 @ rs2" "wr_status run = run_status_of (rs1 @ rs2)"
    using run t0 all rs2(1) by (auto simp: execute_with_context_def split: prod.splits)
  have "sr_outcome (rs1 ! i) = StepFailed" using i(3) steps len by (simp add: nth_append)
  with rs1(3) i(1,2) have short: "lp_short l1" by auto
  have "wr_status run = RunFailed"
    using steps(2) \<open>sr_outcome (rs1 ! i) = StepFailed\<close> len(1)
    by (auto simp: run_status_of_def list_ex_iff intro: nth_mem)
  moreover have "sr_outcome (wr_steps run ! j) = StepSkipped" if "i < j" "j < length (wf_steps flow)" for j
    using that steps(1) len rs2(3) short by (simp add: nth_append)
  moreover have "w' = snd (execute_with_context env (flow\<lparr>wf_steps := ?xs\<rparr>) ctx w)"
    using run t0 all one rs2(3) short by (auto simp: execute_with_context_def split: prod.splits)
  ultimately show ?thesis using steps(1) len i(1) by simp
qed

theorem failed_gate_halts_witness:
  "sr_outcome (wr_steps (fst (execute_with_context demo_wf_env demo_flow JNull [])) ! 3) = StepSkipped
   \<and> snd (execute_with_context demo_wf_env demo_flow JNull []) = [''read'', ''read'', ''read'']"
proof -
  have ev: "snd (execute_with_context demo_wf_env (demo_flow\<lparr>wf_steps := take (Suc 1) (wf_steps demo_flow)\<rparr>) JNull []) =
      [''read'', ''read'', ''read'']"
    "1 < length (wf_steps demo_flow) \<and> 3 < length (wf_steps demo_flow) \<and> is_gate (wf_steps demo_flow ! 1)"
    "sr_outcome (wr_steps (fst (execute_with_context demo_wf_env demo_flow JNull [])) ! 1) = StepFailed"
    by code_simp+
  from failed_gate_halts [of demo_wf_env demo_flow JNull "[]" "fst (execute_with_context demo_wf_env demo_flow JNull [])"
      "snd (execute_with_context demo_wf_env demo_flow JNull [])" 1] ev
  show ?thesis by simp
qed

text \<open>
  A condition never acts: it leaves the world alone, or repeats a recheck that is
  observation-only (so no tool on the outward list) at most \<open>max attempts 1\<close> times; and
  the message it records is one of a fixed set that carries no output of any tool.
\<close>

theorem condition_only_observes:
  assumes "run_condition env require on_text recheck prior prior_output w = ((oc, msg), w')"
  shows "(w' = w \<or> (\<exists>r k. recheck = Some r \<and> recheck_is_observation_only (rc_tool r) (rc_args r)
        \<and> rc_tool r \<notin> set OUTWARD_TOOLS \<and> k \<le> max (unat (rc_attempts r)) 1 \<and> w' = (observe env r ^^ k) w))
    \<and> msg \<in> set (condition_messages require recheck prior)"
  using assms by (rule condition_observes)

theorem condition_only_observes_witness:
  "snd (run_condition demo_wf_env StepOk (Some \<lparr>contains_all = [''PASS''], contains_none = []\<rparr>)
      (Some \<lparr>rc_tool = ''read'', rc_args = JNull, rc_attempts = 2, rc_settle_ms = 0\<rparr>) (Some StepOk) (Some ''done'') [])
    = [''read'', ''read'']
   \<and> snd (fst (run_condition demo_wf_env StepOk (Some \<lparr>contains_all = [''PASS''], contains_none = []\<rparr>)
      (Some \<lparr>rc_tool = ''read'', rc_args = JNull, rc_attempts = 2, rc_settle_ms = 0\<rparr>) (Some StepOk) (Some ''done'') []))
    \<in> set (condition_messages StepOk (Some \<lparr>rc_tool = ''read'', rc_args = JNull, rc_attempts = 2, rc_settle_ms = 0\<rparr>) (Some StepOk))"
  (is "snd ?run = _ \<and> _")
proof -
  have "snd ?run = [''read'', ''read'']" by code_simp
  moreover have "?run = ((fst (fst ?run), snd (fst ?run)), snd ?run)" by simp
  ultimately show ?thesis using condition_only_observes [of demo_wf_env StepOk _ _ "Some StepOk" "Some ''done''" "[]"] by blast
qed

section \<open>Metering\<close>

text \<open>An environment that counts the calls of the headless agent beside the world.\<close>

definition counting :: "'w wf_env \<Rightarrow> ('w \<times> nat) wf_env" where
  "counting env =
     \<lparr>call_tool = (\<lambda>name args (w, k). case call_tool env name args w of (r, w') \<Rightarrow> (r, (w', k))),
      run_agent = (\<lambda>prompt team (w, k). case run_agent env prompt team w of (r, w') \<Rightarrow> (r, (w', k + 1))),
      parse_array = parse_array env, json_text = json_text env,
      wf_now = (\<lambda>(w, k). case wf_now env w of (t, w') \<Rightarrow> (t, (w', k)))\<rparr>"

lemma counting_now: "wf_now (counting env) x = (t, y) \<Longrightarrow> snd y = snd x"
  by (auto simp: counting_def split: prod.splits)

lemma counting_tool: "call_tool (counting env) name args x = (r, y) \<Longrightarrow> snd y = snd x"
  by (auto simp: counting_def split: prod.splits)

lemma counting_agent: "run_agent (counting env) prompt team x = (r, y) \<Longrightarrow> snd y = snd x + 1"
  by (auto simp: counting_def split: prod.splits)

lemma counting_condition:
  assumes "run_condition (counting env) require on_text recheck prior prior_output x = (r, y)"
  shows "snd y = snd x"
proof -
  have "snd ((observe (counting env) r ^^ k) x) = snd x" for r k
    by (induction k) (auto simp: observe_def counting_def split: prod.splits)
  then show ?thesis
    using condition_observes [of "counting env" require on_text recheck prior prior_output x "fst r" "snd r" y] assms
    by auto
qed

definition agent_cost :: "WorkflowStep \<Rightarrow> nat" where
  "agent_cost step = (case step of AgentTask _ _ \<Rightarrow> 1 | _ \<Rightarrow> 0)"

lemma det_tally_agents: "agent_steps (det_tally step d) = agent_steps d + agent_cost step"
  by (auto simp: det_tally_def agent_cost_def split: WorkflowStep.splits)

lemma det_finish: "agent_steps (lp_det (finish_step index step oc outp d ls)) = agent_steps d + agent_cost step"
  by (simp add: finish_step_def det_tally_agents)

lemma counting_step:
  assumes "run_step (counting env) step prior prior_output x = (r, y)"
  shows "snd y = snd x + agent_cost step"
  using assms
  by (cases step)
    (auto simp: run_step_def agent_cost_def split: prod.splits sum.splits
      dest: counting_tool counting_agent counting_condition)

lemma counting_exec:
  "exec_steps (counting env) ctx index steps ls x = (ls', y) \<Longrightarrow>
     snd y + agent_steps (lp_det ls) = snd x + agent_steps (lp_det ls')"
  "exec_items (counting env) ctx as_var body i n items acc det x = ((l, det', f), y) \<Longrightarrow>
     snd y + agent_steps det = snd x + agent_steps det'"
proof (induction "counting env" ctx index steps ls x and "counting env" ctx as_var body i n items acc det x
    arbitrary: ls' y and l det' f y rule: exec_steps_exec_items.induct)
  case (2 ctx index step steps ls w)
  show ?case
  proof (cases "lp_short ls")
    case True
    with 2 show ?thesis by (simp add: exec_steps.simps(2) skip_step_def)
  next
    case False
    let ?b = "bind_step (counting env) ctx (lp_last_output ls) step"
    obtain oc outp y1 where run: "run_step (counting env) ?b (lp_prior ls) (lp_prior_output ls) w = ((oc, outp), y1)"
      by (metis surj_pair)
    show ?thesis
    proof (cases ?b)
      case (AgentTask p q)
      with 2(2) [OF False AgentTask run [unfolded AgentTask, symmetric] refl, of ls' y] show ?thesis
        using "2.prems" False run counting_step [OF run] by (simp add: exec_steps.simps(2) det_finish)
    next
      case (ToolStep p q)
      with 2(3) [OF False ToolStep run [unfolded ToolStep, symmetric] refl, of ls' y] show ?thesis
        using "2.prems" False run counting_step [OF run] by (simp add: exec_steps.simps(2) det_finish)
    next
      case (Connector p q)
      with 2(4) [OF False Connector run [unfolded Connector, symmetric] refl, of ls' y] show ?thesis
        using "2.prems" False run counting_step [OF run] by (simp add: exec_steps.simps(2) det_finish)
    next
      case (Condition p q r)
      with 2(5) [OF False Condition run [unfolded Condition, symmetric] refl, of ls' y] show ?thesis
        using "2.prems" False run counting_step [OF run] by (simp add: exec_steps.simps(2) det_finish)
    next
      case (ForEach s a b)
      then have st: "step = ForEach s a b" by (simp add: bind_step_foreach)
      let ?arr = "foreach_items (counting env) ctx s (lp_last_output ls)"
      show ?thesis
      proof (cases "?arr = []")
        case True
        with 2(6) [OF False ForEach refl True, of ls' y] False ForEach "2.prems" st show ?thesis
          by (simp add: exec_steps.simps(2) det_finish agent_cost_def)
      next
        case arr: False
        obtain l d f y1 where it: "exec_items (counting env) ctx a b 1 (length ?arr) ?arr [] (lp_det ls) w = ((l, d, f), y1)"
          by (metis surj_pair)
        have "snd y1 + agent_steps (lp_det ls) = snd w + agent_steps d"
          using 2(7) [OF False ForEach refl arr it] .
        moreover note 2(8) [OF False ForEach refl arr it [symmetric] refl refl, of ls' y]
        ultimately show ?thesis using "2.prems" False ForEach arr it st
          by (simp add: exec_steps.simps(2) Let_def det_finish agent_cost_def)
      qed
    qed
  qed
next
  case (4 ctx as_var body i n item items acc det w)
  then show ?case
    by (auto simp: exec_items.simps(2) det_merge_def loop_start_def det_default_def Let_def
        split: prod.splits if_splits dest!: counting_now)
qed auto

text \<open>
  The metering is exact: \<open>agent_steps\<close> of a run is the number of times the run
  called the headless agent, including every call made by the bodies of fan-outs, whatever the
  tools answer and wherever a gate stops the run.
\<close>

theorem agent_metering_exact:
  assumes "execute_with_context (counting env) flow ctx (w, k) = (run, (w', k'))"
  shows "k' = k + agent_steps (wr_determinism run)"
  using assms
  by (auto simp: execute_with_context_def loop_start_def det_default_def split: prod.splits
      dest!: counting_now counting_exec(1))

theorem agent_metering_exact_witness:
  "snd (snd (execute_with_context (counting demo_wf_env)
      (demo_flow\<lparr>wf_steps := [AgentTask ''draft'' None, ForEach ''xs'' ''x'' [AgentTask ''post'' None]]\<rparr>)
      (JObj [(''xs'', JArr [JNull, JNull])]) ([], 0))) = 3
   \<and> agent_steps (wr_determinism (fst (execute_with_context (counting demo_wf_env)
      (demo_flow\<lparr>wf_steps := [AgentTask ''draft'' None, ForEach ''xs'' ''x'' [AgentTask ''post'' None]]\<rparr>)
      (JObj [(''xs'', JArr [JNull, JNull])]) ([], 0)))) = 3"
  (is "snd (snd ?run) = 3 \<and> _")
proof -
  have "snd (snd ?run) = 3" by code_simp
  moreover have "?run = (fst ?run, (fst (snd ?run), snd (snd ?run)))" by simp
  ultimately show ?thesis using agent_metering_exact by fastforce
qed

section \<open>The limits of the observation check\<close>

text \<open>
  The outward list is a list of refused names: a tool that is not on it counts as an
  observation, also the one that signs and resumes a gated action.
\<close>

lemma signing_tool_passes_as_observation:
  "recheck_is_observation_only ''approve_and_resume_org_action'' args
   \<and> recheck_is_observation_only ''rotate_org_resource_credential'' args
   \<and> recheck_is_observation_only ''grant_capability'' args"
  by (simp add: recheck_is_observation_only_def OUTWARD_TOOLS_def GUARDED_TOOLS_def)

section \<open>Placeholders keep the shape of the arguments\<close>

text \<open>A placeholder is only ever replaced inside a string, and the result is a string.\<close>

lemma substitute_json_get:
  "json_get k (substitute_ctx js ctx lo v) = map_option (substitute_ctx js ctx lo) (json_get k v)"
  by (cases v) (auto simp: map_of_map)

lemma substitute_keeps_str: "as_f64 (substitute_ctx js ctx lo v) = as_f64 v"
  by (cases v) auto

end
