(* ===== verification/Company_Org.thy ===== *)
theory Company_Org
  imports Workflow_Engine
begin

text \<open>
  The organisation document and its permission engine
  (\<open>velocity-mcp/src/editor/company_org.rs\<close>): capabilities, resources, roles, grants and
  approval policies, and \<open>check_permission\<close>, the deterministic decision every gate asks.
  Amounts are \<open>f64\<close>; rendering one is the parameter \<open>sf\<close>.
\<close>

section \<open>Enumerations\<close>

datatype Capability =
    Read | Write | Communicate | Spend | Deploy | Approve | Manage | Collaborate | DispatchTo

fun cap_as_str :: "Capability \<Rightarrow> string" where
  "cap_as_str Read = ''read''"
| "cap_as_str Write = ''write''"
| "cap_as_str Communicate = ''communicate''"
| "cap_as_str Spend = ''spend''"
| "cap_as_str Deploy = ''deploy''"
| "cap_as_str Approve = ''approve''"
| "cap_as_str Manage = ''manage''"
| "cap_as_str Collaborate = ''collaborate''"
| "cap_as_str DispatchTo = ''dispatch_to''"

definition cap_parse :: "string \<Rightarrow> Capability option" where
  "cap_parse s =
     (let t = to_lowercase (trim s) in
      if t \<in> set [''read'', ''view'', ''readonly''] then Some Read
      else if t \<in> set [''write'', ''edit'', ''commit''] then Some Write
      else if t \<in> set [''communicate'', ''send'', ''post'', ''message''] then Some Communicate
      else if t \<in> set [''spend'', ''pay'', ''purchase'', ''disburse''] then Some Spend
      else if t \<in> set [''deploy'', ''release'', ''infra''] then Some Deploy
      else if t \<in> set [''approve'', ''signoff'', ''sign_off''] then Some Approve
      else if t \<in> set [''manage'', ''orchestrate'', ''direct''] then Some Manage
      else if t \<in> set [''collaborate'', ''engage''] then Some Collaborate
      else if t \<in> set [''dispatch'', ''dispatch_to'', ''staff''] then Some DispatchTo
      else None)"

definition is_outward :: "Capability \<Rightarrow> bool" where
  "is_outward c \<longleftrightarrow> (case c of Write \<Rightarrow> True | Communicate \<Rightarrow> True | Spend \<Rightarrow> True | Deploy \<Rightarrow> True
     | DispatchTo \<Rightarrow> True | _ \<Rightarrow> False)"

datatype ResourceKind =
    SourceControl | Email | Chat | Banking | Social | Cloud | Analytics | Credentials | OtherKind

fun kind_as_str :: "ResourceKind \<Rightarrow> string" where
  "kind_as_str SourceControl = ''source_control''"
| "kind_as_str Email = ''email''"
| "kind_as_str Chat = ''chat''"
| "kind_as_str Banking = ''banking''"
| "kind_as_str Social = ''social''"
| "kind_as_str Cloud = ''cloud''"
| "kind_as_str Analytics = ''analytics''"
| "kind_as_str Credentials = ''credentials''"
| "kind_as_str OtherKind = ''other''"

definition kind_parse :: "string \<Rightarrow> ResourceKind" where
  "kind_parse s =
     (let t = to_lowercase (trim s) in
      if t \<in> set [''source_control'', ''git'', ''github'', ''scm''] then SourceControl
      else if t \<in> set [''email'', ''mail'', ''smtp''] then Email
      else if t \<in> set [''chat'', ''im'', ''slack'', ''discord''] then Chat
      else if t \<in> set [''banking'', ''bank'', ''payments'', ''stripe'', ''finance''] then Banking
      else if t \<in> set [''social'', ''social_media'', ''twitter'', ''linkedin'', ''reddit''] then Social
      else if t \<in> set [''cloud'', ''infra'', ''hosting'', ''deploy''] then Cloud
      else if t \<in> set [''analytics'', ''metrics'', ''telemetry''] then Analytics
      else if t \<in> set [''credentials'', ''vault'', ''secrets'', ''keys''] then Credentials
      else OtherKind)"

definition default_sensitive :: "ResourceKind \<Rightarrow> bool" where
  "default_sensitive k \<longleftrightarrow> (case k of Banking \<Rightarrow> True | SourceControl \<Rightarrow> True | Cloud \<Rightarrow> True
     | Email \<Rightarrow> True | Credentials \<Rightarrow> True | _ \<Rightarrow> False)"

datatype AutonomyTier = Assisted | Standard | Trusted

section \<open>The document\<close>

record Department =
  dp_id :: string
  dp_name :: string
  dp_charter :: string

record Role =
  ro_id :: string
  ro_title :: string
  ro_department_id :: string
  ro_reports_to :: "string option"
  ro_tier :: AutonomyTier
  ro_agent_team :: string
  ro_humans :: "string list"

record Resource =
  re_id :: string
  re_name :: string
  re_kind :: "ResourceKind option"
  re_secret_ref :: string
  re_sensitive :: bool

record CredentialGrant =
  cg_role_id :: string
  cg_resource_id :: string
  cg_capabilities :: "Capability list"
  cg_spend_limit :: fp

record ApprovalPolicy =
  po_id :: string
  po_resource_id :: string
  po_capability :: Capability
  po_threshold :: "fp option"
  po_required_approvers :: "string list"
  po_quorum :: nat
  po_description :: string

text \<open>A playbook; its steps are those of the workflow engine.\<close>

record Playbook =
  pb_id :: string
  pb_name :: string
  pb_role_id :: string
  pb_resource_id :: string
  pb_capability :: Capability
  pb_amount :: fp
  pb_description :: string
  pb_steps :: "WorkflowStep list"
  pb_on_success_handoff :: "string option"

record CompanyOrg =
  og_id :: string
  og_name :: string
  og_departments :: "Department list"
  og_roles :: "Role list"
  og_resources :: "Resource list"
  og_grants :: "CredentialGrant list"
  og_policies :: "ApprovalPolicy list"
  og_playbooks :: "Playbook list"

definition find_role :: "CompanyOrg \<Rightarrow> string \<Rightarrow> Role option" where
  "find_role org i = List.find (\<lambda>r. ro_id r = i) (og_roles org)"

definition find_resource :: "CompanyOrg \<Rightarrow> string \<Rightarrow> Resource option" where
  "find_resource org i = List.find (\<lambda>r. re_id r = i) (og_resources org)"

definition find_department :: "CompanyOrg \<Rightarrow> string \<Rightarrow> Department option" where
  "find_department org i = List.find (\<lambda>d. dp_id d = i) (og_departments org)"

section \<open>The permission engine\<close>

datatype Decision =
    Allowed
  | RequiresApproval (dc_policy_ids: "string list") (dc_approvers: "string list") (dc_quorum: nat) (dc_reason: string)
  | Denied (dc_denied_reason: string)

definition covers :: "CredentialGrant \<Rightarrow> string \<Rightarrow> string \<Rightarrow> Capability \<Rightarrow> bool" where
  "covers g role_id resource_id cap \<longleftrightarrow>
     cg_role_id g = role_id \<and> cg_resource_id g = resource_id \<and> cap \<in> set (cg_capabilities g)"

definition policy_matches :: "ApprovalPolicy \<Rightarrow> string \<Rightarrow> Capability \<Rightarrow> bool" where
  "policy_matches p resource_id cap \<longleftrightarrow>
     po_capability p = cap \<and> (po_resource_id p = [] \<or> po_resource_id p = resource_id)"

definition policy_fires :: "ApprovalPolicy \<Rightarrow> fp \<Rightarrow> bool" where
  "policy_fires p amount \<longleftrightarrow> (case po_threshold p of None \<Rightarrow> True | Some t \<Rightarrow> fp_le t amount)"

definition add_approver :: "string \<Rightarrow> string list \<Rightarrow> string list" where
  "add_approver a approvers = (if a \<in> set approvers then approvers else approvers @ [a])"

text \<open>The loop over the policies: the ids that fire, the approvers and the quorum.\<close>

definition apply_policy ::
  "fp \<Rightarrow> ApprovalPolicy \<Rightarrow> string list \<times> string list \<times> nat \<Rightarrow> string list \<times> string list \<times> nat" where
  "apply_policy amount p acc =
     (case acc of (policy_ids, approvers, quorum) \<Rightarrow>
        if policy_fires p amount
        then (policy_ids @ [po_id p], fold add_approver (po_required_approvers p) approvers,
              max quorum (max (po_quorum p) 1))
        else acc)"

text \<open>\<open>f64::max\<close>: the other operand when one is not a number.\<close>

definition fp_max :: "fp \<Rightarrow> fp \<Rightarrow> fp" where
  "fp_max x y = (if x = NaN then y else if y = NaN then x else if fp_less x y then y else x)"

definition forced_reasons ::
  "(fp \<Rightarrow> string) \<Rightarrow> Resource option \<Rightarrow> CredentialGrant \<Rightarrow> Capability \<Rightarrow> fp \<Rightarrow> string list" where
  "forced_reasons sf resource grant cap amount =
     (case resource of
        Some r \<Rightarrow>
          if re_sensitive r \<and> is_outward cap
          then [[CHR 0x27] @ re_name r @ [CHR 0x27] @ '' is a sensitive resource; outward '' @ [CHR 0x27]
                @ cap_as_str cap @ [CHR 0x27] @ '' requires sign-off'']
          else []
      | None \<Rightarrow> [])
     @ (if cap = Spend \<and> fp_less (fp_max (cg_spend_limit grant) (Fin 0)) amount
        then [''spend '' @ sf amount @ '' exceeds role limit '' @ sf (cg_spend_limit grant)]
        else [])"

definition check_permission ::
  "(fp \<Rightarrow> string) \<Rightarrow> CompanyOrg \<Rightarrow> string \<Rightarrow> string \<Rightarrow> Capability \<Rightarrow> fp \<Rightarrow> Decision" where
  "check_permission sf org role_id resource_id cap amount =
     (case List.find (\<lambda>g. covers g role_id resource_id cap) (og_grants org) of
        None \<Rightarrow>
          Denied (''role '' @ [CHR 0x27] @ role_id @ [CHR 0x27] @ '' has no '' @ [CHR 0x27] @ cap_as_str cap
            @ [CHR 0x27] @ '' grant on resource '' @ [CHR 0x27] @ resource_id @ [CHR 0x27])
      | Some grant \<Rightarrow>
          (let resource = find_resource org resource_id;
               (policy_ids, approvers, quorum) =
                 fold (apply_policy amount) (filter (\<lambda>p. policy_matches p resource_id cap) (og_policies org)) ([], [], 1);
               forced = forced_reasons sf resource grant cap amount
           in if policy_ids \<noteq> [] \<or> forced \<noteq> []
              then RequiresApproval policy_ids approvers quorum
                (if forced = [] then ''matched '' @ show_nat (length policy_ids) @ '' approval policy(ies)''
                 else join ''; '' forced)
              else Allowed))"

section \<open>Which policies apply\<close>

definition firing :: "CompanyOrg \<Rightarrow> string \<Rightarrow> Capability \<Rightarrow> fp \<Rightarrow> ApprovalPolicy list" where
  "firing org resource_id cap amount =
     filter (\<lambda>p. policy_matches p resource_id cap \<and> policy_fires p amount) (og_policies org)"

lemma set_fold_add_approver: "set (fold add_approver as acc) = set acc \<union> set as"
  by (induction as arbitrary: acc) (auto simp: add_approver_def)

lemma distinct_fold_add_approver: "distinct acc \<Longrightarrow> distinct (fold add_approver as acc)"
  by (induction as arbitrary: acc) (auto simp: add_approver_def)

lemma fold_apply_policy:
  "fold (apply_policy amount) ps (ids, as, q) =
     (let fs = filter (\<lambda>p. policy_fires p amount) ps in
      (ids @ map po_id fs, fold (\<lambda>p. fold add_approver (po_required_approvers p)) fs as,
       fold (\<lambda>p q. max q (max (po_quorum p) 1)) fs q))"
  by (induction ps arbitrary: ids as q) (auto simp: apply_policy_def Let_def)

definition required_approvers_of :: "ApprovalPolicy list \<Rightarrow> string list" where
  "required_approvers_of fs = fold (\<lambda>p. fold add_approver (po_required_approvers p)) fs []"

definition required_quorum_of :: "ApprovalPolicy list \<Rightarrow> nat" where
  "required_quorum_of fs = fold (\<lambda>p q. max q (max (po_quorum p) 1)) fs 1"

lemma set_required_approvers:
  "set (required_approvers_of fs) = (\<Union>p\<in>set fs. set (po_required_approvers p))"
proof -
  have "set (fold (\<lambda>p. fold add_approver (po_required_approvers p)) fs as) =
      set as \<union> (\<Union>p\<in>set fs. set (po_required_approvers p))" for as
    by (induction fs arbitrary: as) (auto simp: set_fold_add_approver)
  then show ?thesis by (simp add: required_approvers_of_def)
qed

lemma distinct_required_approvers: "distinct (required_approvers_of fs)"
proof -
  have "distinct as \<Longrightarrow> distinct (fold (\<lambda>p. fold add_approver (po_required_approvers p)) fs as)" for as
    by (induction fs arbitrary: as) (auto simp: distinct_fold_add_approver)
  then show ?thesis by (simp add: required_approvers_of_def)
qed

lemma required_quorum:
  "1 \<le> required_quorum_of fs" "p \<in> set fs \<Longrightarrow> po_quorum p \<le> required_quorum_of fs"
  "required_quorum_of fs = 1 \<or> (\<exists>p\<in>set fs. required_quorum_of fs = po_quorum p)"
proof -
  let ?f = "\<lambda>p q. max q (max (po_quorum p) 1)"
  have ge: "q \<le> fold ?f fs q" for q and fs :: "ApprovalPolicy list"
  proof (induction fs arbitrary: q)
    case (Cons x fs)
    from Cons.IH [of "?f x q"] show ?case by simp
  qed simp
  then show "1 \<le> required_quorum_of fs" by (simp add: required_quorum_of_def)
  have "p \<in> set fs \<Longrightarrow> po_quorum p \<le> fold ?f fs q" for q
  proof (induction fs arbitrary: q)
    case (Cons x fs)
    from ge [of "?f x q" fs] Cons show ?case by auto
  qed simp
  then show "p \<in> set fs \<Longrightarrow> po_quorum p \<le> required_quorum_of fs" by (simp add: required_quorum_of_def)
  have "1 \<le> q \<Longrightarrow> fold ?f fs q = q \<or> (\<exists>p\<in>set fs. fold ?f fs q = po_quorum p)" for q
  proof (induction fs arbitrary: q)
    case (Cons x fs)
    have "?f x q = q \<or> ?f x q = po_quorum x" using Cons.prems by (auto simp: max_def)
    with Cons.IH [of "?f x q"] Cons.prems show ?case by auto
  qed simp
  from this [of 1] show "required_quorum_of fs = 1 \<or> (\<exists>p\<in>set fs. required_quorum_of fs = po_quorum p)"
    by (auto simp: required_quorum_of_def)
qed

text \<open>The decision in closed form.\<close>

lemma check_permission_ungranted:
  "List.find (\<lambda>g. covers g role_id resource_id cap) (og_grants org) = None \<Longrightarrow>
     \<exists>r. check_permission sf org role_id resource_id cap amount = Denied r"
  by (simp add: check_permission_def)

lemma check_permission_granted:
  assumes "List.find (\<lambda>g. covers g role_id resource_id cap) (og_grants org) = Some grant"
  shows "\<exists>r. check_permission sf org role_id resource_id cap amount =
    (let fs = firing org resource_id cap amount;
         forced = forced_reasons sf (find_resource org resource_id) grant cap amount
     in if fs = [] \<and> forced = [] then Allowed
        else RequiresApproval (map po_id fs) (required_approvers_of fs) (required_quorum_of fs) r)"
proof -
  have "filter (\<lambda>p. policy_fires p amount) (filter (\<lambda>p. policy_matches p resource_id cap) (og_policies org)) =
      firing org resource_id cap amount"
    by (simp add: firing_def conj_commute)
  then show ?thesis using assms
    by (auto simp: check_permission_def fold_apply_policy Let_def required_approvers_of_def required_quorum_of_def)
qed

lemma requires_approval_closed:
  assumes "check_permission sf org role_id resource_id cap amount = RequiresApproval ids as q r"
  shows "as = required_approvers_of (firing org resource_id cap amount)"
    "q = required_quorum_of (firing org resource_id cap amount)"
  using assms check_permission_ungranted [of role_id resource_id cap org sf amount]
    check_permission_granted [of role_id resource_id cap org _ sf amount]
  by (cases "List.find (\<lambda>g. covers g role_id resource_id cap) (og_grants org)";
      fastforce simp: Let_def split: if_splits)+

lemma granted_iff:
  "(\<exists>g. List.find (\<lambda>g. covers g r x c) (og_grants org) = Some g) \<longleftrightarrow> (\<exists>g\<in>set (og_grants org). covers g r x c)"
  by (metis find_None_iff not_None_eq)

section \<open>Properties\<close>

text \<open>A small organisation, for concrete runs.\<close>

definition demo_org :: CompanyOrg where
  "demo_org = \<lparr>og_id = ''org-1'', og_name = ''Demo'', og_departments = [],
     og_roles = [\<lparr>ro_id = ''cfo'', ro_title = ''CFO'', ro_department_id = ''fin'', ro_reports_to = None,
        ro_tier = Standard, ro_agent_team = [], ro_humans = []\<rparr>],
     og_resources = [\<lparr>re_id = ''bank'', re_name = ''Bank'', re_kind = Some Banking, re_secret_ref = ''T'', re_sensitive = True\<rparr>,
        \<lparr>re_id = ''ads'', re_name = ''Ads'', re_kind = Some Social, re_secret_ref = ''A'', re_sensitive = False\<rparr>],
     og_grants = [\<lparr>cg_role_id = ''cfo'', cg_resource_id = ''bank'', cg_capabilities = [Read, Spend, Approve], cg_spend_limit = Fin 10\<rparr>,
        \<lparr>cg_role_id = ''cfo'', cg_resource_id = ''ads'', cg_capabilities = [Spend], cg_spend_limit = Fin 10\<rparr>],
     og_policies = [\<lparr>po_id = ''gate'', po_resource_id = ''bank'', po_capability = Spend, po_threshold = Some (Fin 0),
        po_required_approvers = [''cfo''], po_quorum = 1, po_description = []\<rparr>],
     og_playbooks = []\<rparr>"

text \<open>
  C35. The decision is deny by default and exact: an action is denied exactly when no grant
  covers it; it is allowed exactly when a grant covers it, no policy on the capability and the
  resource fires for the amount, the resource is not sensitive or the capability is not
  outward, and a spend is within the limit of the first covering grant.
\<close>

theorem check_permission_exact:
  "((\<exists>r. check_permission sf org role_id resource_id cap amount = Denied r) \<longleftrightarrow>
      \<not> (\<exists>g\<in>set (og_grants org). covers g role_id resource_id cap))
   \<and> (check_permission sf org role_id resource_id cap amount = Allowed \<longleftrightarrow>
      (\<exists>g. List.find (\<lambda>g. covers g role_id resource_id cap) (og_grants org) = Some g
        \<and> \<not> (\<exists>p\<in>set (og_policies org). policy_matches p resource_id cap \<and> policy_fires p amount)
        \<and> \<not> (\<exists>x. find_resource org resource_id = Some x \<and> re_sensitive x \<and> is_outward cap)
        \<and> \<not> (cap = Spend \<and> fp_less (fp_max (cg_spend_limit g) (Fin 0)) amount)))"
proof (cases "List.find (\<lambda>g. covers g role_id resource_id cap) (og_grants org)")
  case None
  then have "\<exists>r. check_permission sf org role_id resource_id cap amount = Denied r"
    by (simp add: check_permission_def)
  then show ?thesis using None granted_iff [of role_id resource_id cap org] by auto
next
  case (Some g)
  have "firing org resource_id cap amount = [] \<longleftrightarrow>
      \<not> (\<exists>p\<in>set (og_policies org). policy_matches p resource_id cap \<and> policy_fires p amount)"
    by (auto simp: firing_def filter_empty_conv)
  moreover have "forced_reasons sf (find_resource org resource_id) g cap amount = [] \<longleftrightarrow>
      \<not> (\<exists>x. find_resource org resource_id = Some x \<and> re_sensitive x \<and> is_outward cap)
      \<and> \<not> (cap = Spend \<and> fp_less (fp_max (cg_spend_limit g) (Fin 0)) amount)"
    by (auto simp: forced_reasons_def split: option.splits)
  moreover obtain r where "check_permission sf org role_id resource_id cap amount =
      (if firing org resource_id cap amount = [] \<and> forced_reasons sf (find_resource org resource_id) g cap amount = []
       then Allowed
       else RequiresApproval (map po_id (firing org resource_id cap amount))
         (required_approvers_of (firing org resource_id cap amount)) (required_quorum_of (firing org resource_id cap amount)) r)"
    using check_permission_granted [OF Some, of sf amount] by (auto simp: Let_def)
  ultimately show ?thesis
    using Some granted_iff [of role_id resource_id cap org] by (simp split: if_splits)
qed

text \<open>
  An approval collects exactly the approvers of the policies that fire, each once, and its
  quorum is the largest quorum among them and at least one.
\<close>

theorem required_approval_exact:
  assumes "check_permission sf org role_id resource_id cap amount = RequiresApproval ids as q r"
  shows "set as = (\<Union>p\<in>{p \<in> set (og_policies org). policy_matches p resource_id cap \<and> policy_fires p amount}.
      set (po_required_approvers p))
    \<and> distinct as \<and> 1 \<le> q
    \<and> (\<forall>p\<in>set (og_policies org). policy_matches p resource_id cap \<and> policy_fires p amount \<longrightarrow> po_quorum p \<le> q)
    \<and> (q = 1 \<or> (\<exists>p\<in>set (og_policies org). policy_matches p resource_id cap \<and> policy_fires p amount \<and> q = po_quorum p))"
proof -
  let ?fs = "firing org resource_id cap amount"
  note requires_approval_closed [OF assms]
  moreover have "set ?fs = {p \<in> set (og_policies org). policy_matches p resource_id cap \<and> policy_fires p amount}"
    by (auto simp: firing_def)
  ultimately show ?thesis
    using set_required_approvers [of ?fs] distinct_required_approvers [of ?fs] required_quorum [where fs = ?fs] by auto
qed

theorem required_approval_exact_witness:
  "check_permission (\<lambda>_. []) demo_org ''cfo'' ''bank'' Spend (Fin 5) =
     RequiresApproval [''gate''] [''cfo''] 1 (dc_reason (check_permission (\<lambda>_. []) demo_org ''cfo'' ''bank'' Spend (Fin 5)))
   \<and> set [''cfo''] = (\<Union>p\<in>{p \<in> set (og_policies demo_org). policy_matches p ''bank'' Spend \<and> policy_fires p (Fin 5)}.
      set (po_required_approvers p))"
proof -
  have "check_permission (\<lambda>_. []) demo_org ''cfo'' ''bank'' Spend (Fin 5) =
     RequiresApproval [''gate''] [''cfo''] 1 (dc_reason (check_permission (\<lambda>_. []) demo_org ''cfo'' ''bank'' Spend (Fin 5)))"
    by code_simp
  with required_approval_exact [OF this] show ?thesis by blast
qed

text \<open>An amount that is not a number passes every threshold and every spend limit.\<close>

lemma nan_evades_limits:
  "(po_threshold p = Some t \<longrightarrow> \<not> policy_fires p NaN) \<and> \<not> fp_less (fp_max (cg_spend_limit g) (Fin 0)) NaN"
proof -
  have "\<not> fp_less x NaN" for x by (cases x) auto
  then show ?thesis by (simp add: policy_fires_def fp_le_def)
qed

end
