(* ===== verification/Approval_Ledger.thy ===== *)
theory Approval_Ledger
  imports Company_Org
begin

text \<open>
  The queue of proposed actions (\<open>ActionRequest\<close>, \<open>submit_action\<close>,
  \<open>approve_action\<close>, \<open>reject_action\<close>, \<open>mark_executed\<close> of
  \<open>velocity-mcp/src/editor/company_org.rs\<close>) on the workspace store that holds every ledger
  of the organisation.  A ledger is one sealed JSON file, rewritten as a whole: the store keeps
  what a load of each file would read (\<open>None\<close> for a missing or unreadable file), each
  write draws its fate from \<open>os_disk\<close>, and the serializer together with the sealing is the
  parameter \<open>codec\<close>.  Every reading of the clock draws from \<open>os_clock\<close>.
\<close>

section \<open>Records\<close>

datatype ActionStatus = Pending | Approved | Rejected | Executed

fun show_status :: "ActionStatus \<Rightarrow> string" where
  "show_status Pending = ''Pending''"
| "show_status Approved = ''Approved''"
| "show_status Rejected = ''Rejected''"
| "show_status Executed = ''Executed''"

record ActionRequest =
  ar_id :: string
  ar_role_id :: string
  ar_resource_id :: string
  ar_capability :: Capability
  ar_amount :: fp
  ar_description :: string
  ar_status :: ActionStatus
  ar_required_approvers :: "string list"
  ar_quorum :: nat
  ar_approvals :: "string list"
  ar_decision_reason :: string
  ar_created_at :: u64
  ar_playbook_id :: "string option"

record ElevationGrant =
  el_id :: string
  el_role_id :: string
  el_resource_id :: string
  el_capability :: Capability
  el_request_id :: string
  el_granted_at :: u64
  el_expires_at :: u64
  el_consumed :: bool

datatype AuditOutcome = AuditGranted | AuditUsed | AuditDenied | AuditExpired

record CredentialAudit =
  au_seq :: nat
  au_at :: u64
  au_role_id :: string
  au_resource_id :: string
  au_capability :: Capability
  au_request_id :: string
  au_outcome :: AuditOutcome
  au_detail :: string

record PlaybookVerdict =
  vd_seq :: nat
  vd_at :: u64
  vd_playbook_id :: string
  vd_request_id :: string
  vd_outcome :: string
  vd_step_index :: nat
  vd_step_kind :: string
  vd_detail :: string

record SopHandoff =
  ho_seq :: nat
  ho_at :: u64
  ho_from_playbook :: string
  ho_to_playbook :: string
  ho_source_request_id :: string
  ho_spawned_request_id :: string
  ho_outcome :: string
  ho_chain_depth :: nat

record SopSchedule =
  sc_playbook_id :: string
  sc_every_secs :: u64
  sc_next_due_at :: u64
  sc_last_run_at :: u64
  sc_enabled :: bool

definition HUMAN_OPERATOR :: string where
  "HUMAN_OPERATOR = ''human-operator''"

section \<open>The workspace store\<close>

text \<open>A write of a ledger file lands, is refused, or leaves a file that no longer parses.\<close>

datatype disk_write = Landed | Refused | Torn

record org_store =
  os_requests :: "ActionRequest list option"
  os_elevations :: "ElevationGrant list option"
  os_audits :: "CredentialAudit list option"
  os_verdicts :: "PlaybookVerdict list option"
  os_handoffs :: "SopHandoff list option"
  os_schedules :: "SopSchedule list option"
  os_disk :: "nat \<Rightarrow> disk_write"
  os_writes :: nat
  os_clock :: "nat \<Rightarrow> u64 \<times> u32"
  os_ticks :: nat

record codec =
  cd_requests :: "ActionRequest list \<Rightarrow> ActionRequest list option"
  cd_elevations :: "ElevationGrant list \<Rightarrow> ElevationGrant list option"
  cd_audits :: "CredentialAudit list \<Rightarrow> CredentialAudit list option"
  cd_verdicts :: "PlaybookVerdict list \<Rightarrow> PlaybookVerdict list option"
  cd_handoffs :: "SopHandoff list \<Rightarrow> SopHandoff list option"
  cd_schedules :: "SopSchedule list \<Rightarrow> SopSchedule list option"

text \<open>What a load reads after a save of \<open>new\<close> over \<open>old\<close>, and whether the save reports success.\<close>

definition write_file :: "disk_write \<Rightarrow> ('a list \<Rightarrow> 'a list option) \<Rightarrow> 'a list option \<Rightarrow> 'a list \<Rightarrow> 'a list option \<times> bool" where
  "write_file d img old new = (case d of Landed \<Rightarrow> (img new, True) | Refused \<Rightarrow> (old, False) | Torn \<Rightarrow> (None, False))"

definition read_file :: "'a list option \<Rightarrow> 'a list" where
  "read_file f = (case f of Some l \<Rightarrow> l | None \<Rightarrow> [])"

definition next_write :: "org_store \<Rightarrow> disk_write" where
  "next_write st = os_disk st (os_writes st)"

definition now_secs :: "org_store \<Rightarrow> u64 \<times> org_store" where
  "now_secs st = (fst (os_clock st (os_ticks st)), st\<lparr>os_ticks := os_ticks st + 1\<rparr>)"

definition now_nanos :: "org_store \<Rightarrow> u32 \<times> org_store" where
  "now_nanos st = (snd (os_clock st (os_ticks st)), st\<lparr>os_ticks := os_ticks st + 1\<rparr>)"

definition load_requests :: "org_store \<Rightarrow> ActionRequest list" where
  "load_requests st = read_file (os_requests st)"

definition save_requests :: "codec \<Rightarrow> ActionRequest list \<Rightarrow> org_store \<Rightarrow> bool \<times> org_store" where
  "save_requests c reqs st =
     (let (f, ok) = write_file (next_write st) (cd_requests c) (os_requests st) reqs
      in (ok, st\<lparr>os_requests := f, os_writes := os_writes st + 1\<rparr>))"

section \<open>Operations on the queue\<close>

definition gen_request_id :: "CompanyOrg \<Rightarrow> string \<Rightarrow> string \<Rightarrow> org_store \<Rightarrow> string \<times> org_store" where
  "gen_request_id org role_id resource_id st =
     (let (nanos, st1) = now_nanos st;
          (secs, st2) = now_secs st1
      in (''req_'' @ trim_matches (\<lambda>ch. ch = CHR ''_'') (replace_char CHR ''-'' CHR ''_'' (og_id org)) @ ''_''
            @ show_hex (unat secs)
            @ show_hex (unat (xor nanos (of_nat (length role_id * 31 + length resource_id)))), st2))"

definition submit_fields :: "Decision \<Rightarrow> ActionStatus \<times> string list \<times> nat \<times> string" where
  "submit_fields decision = (case decision of
     Allowed \<Rightarrow> (Approved, [], 0, ''allowed by policy'')
   | Denied reason \<Rightarrow> (Rejected, [], 0, reason)
   | RequiresApproval _ approvers quorum reason \<Rightarrow>
       (Pending, if approvers = [] then [HUMAN_OPERATOR] else approvers, quorum, reason))"

definition submit_action_for_playbook ::
  "(fp \<Rightarrow> string) \<Rightarrow> codec \<Rightarrow> CompanyOrg \<Rightarrow> string \<Rightarrow> string \<Rightarrow> Capability \<Rightarrow> fp \<Rightarrow> string \<Rightarrow> string option
     \<Rightarrow> org_store \<Rightarrow> ActionRequest \<times> org_store" where
  "submit_action_for_playbook sf c org role_id resource_id cap amount desc playbook_id st =
     (let (status, required_approvers, quorum, reason) =
            submit_fields (check_permission sf org role_id resource_id cap amount);
          (i, st1) = gen_request_id org role_id resource_id st;
          (created, st2) = now_secs st1;
          request = \<lparr>ar_id = i, ar_role_id = role_id, ar_resource_id = resource_id, ar_capability = cap,
            ar_amount = amount, ar_description = desc, ar_status = status,
            ar_required_approvers = required_approvers, ar_quorum = quorum, ar_approvals = [],
            ar_decision_reason = reason, ar_created_at = created, ar_playbook_id = playbook_id\<rparr>
      in (request, snd (save_requests c (load_requests st2 @ [request]) st2)))"

definition submit_action ::
  "(fp \<Rightarrow> string) \<Rightarrow> codec \<Rightarrow> CompanyOrg \<Rightarrow> string \<Rightarrow> string \<Rightarrow> Capability \<Rightarrow> fp \<Rightarrow> string \<Rightarrow> org_store
     \<Rightarrow> ActionRequest \<times> org_store" where
  "submit_action sf c org role_id resource_id cap amount desc st =
     submit_action_for_playbook sf c org role_id resource_id cap amount desc None st"

definition has_id :: "string \<Rightarrow> ActionRequest \<Rightarrow> bool" where
  "has_id i r \<longleftrightarrow> ar_id r = i"

text \<open>The authority of an approver: a role must hold Approve on the resource.\<close>

definition lacks_authority :: "CompanyOrg \<Rightarrow> string \<Rightarrow> string \<Rightarrow> bool" where
  "lacks_authority org approver_id resource_id \<longleftrightarrow>
     approver_id \<noteq> HUMAN_OPERATOR \<and> find_role org approver_id \<noteq> None
     \<and> \<not> list_ex (\<lambda>g. covers g approver_id resource_id Approve) (og_grants org)"

definition sign :: "string \<Rightarrow> ActionRequest \<Rightarrow> ActionRequest" where
  "sign approver_id req =
     (let approvals = add_approver approver_id (ar_approvals req);
          needed = max (ar_quorum req) 1;
          req1 = req\<lparr>ar_approvals := approvals\<rparr>
      in if needed \<le> length approvals
         then req1\<lparr>ar_status := Approved,
           ar_decision_reason := ''quorum reached ('' @ show_nat (length approvals) @ ''/'' @ show_nat needed @ '')''\<rparr>
         else req1)"

definition not_found :: "string \<Rightarrow> string" where
  "not_found request_id = ''request '' @ quoted request_id @ '' not found''"

definition wrong_status :: "string \<Rightarrow> ActionRequest \<Rightarrow> string \<Rightarrow> string" where
  "wrong_status request_id req wanted =
     ''request '' @ quoted request_id @ '' is '' @ show_status (ar_status req) @ '', not '' @ wanted"

definition approve_action ::
  "codec \<Rightarrow> CompanyOrg \<Rightarrow> string \<Rightarrow> string \<Rightarrow> org_store \<Rightarrow> (string + ActionRequest) \<times> org_store" where
  "approve_action c org request_id approver_id st =
     (let all = load_requests st in
      case List.find (has_id request_id) all of
        None \<Rightarrow> (Inl (not_found request_id), st)
      | Some req \<Rightarrow>
          if ar_status req \<noteq> Pending then (Inl (wrong_status request_id req ''pending''), st)
          else if approver_id \<notin> set (ar_required_approvers req)
          then (Inl (quoted approver_id @ '' is not a designated approver for '' @ quoted request_id), st)
          else if lacks_authority org approver_id (ar_resource_id req)
          then (Inl (''approver '' @ quoted approver_id @ '' lacks Approve authority on '' @ quoted (ar_resource_id req)), st)
          else (Inr (sign approver_id req),
                snd (save_requests c (update_first (has_id request_id) (sign approver_id) all) st)))"

definition reject_action ::
  "codec \<Rightarrow> string \<Rightarrow> string \<Rightarrow> string \<Rightarrow> org_store \<Rightarrow> (string + ActionRequest) \<times> org_store" where
  "reject_action c request_id by_whom reason st =
     (let all = load_requests st;
          refuse = (\<lambda>r. r\<lparr>ar_status := Rejected, ar_decision_reason := ''rejected by '' @ by_whom @ '': '' @ reason\<rparr>)
      in case List.find (has_id request_id) all of
        None \<Rightarrow> (Inl (not_found request_id), st)
      | Some req \<Rightarrow>
          if ar_status req \<noteq> Pending then (Inl (wrong_status request_id req ''pending''), st)
          else (Inr (refuse req), snd (save_requests c (update_first (has_id request_id) refuse all) st)))"

definition mark_executed :: "codec \<Rightarrow> string \<Rightarrow> org_store \<Rightarrow> (string + ActionRequest) \<times> org_store" where
  "mark_executed c request_id st =
     (let all = load_requests st;
          close = (\<lambda>r. r\<lparr>ar_status := Executed\<rparr>)
      in case List.find (has_id request_id) all of
        None \<Rightarrow> (Inl (not_found request_id), st)
      | Some req \<Rightarrow>
          if ar_status req \<noteq> Approved then (Inl (wrong_status request_id req ''approved''), st)
          else (Inr (close req), snd (save_requests c (update_first (has_id request_id) close all) st)))"

definition pending_for_approver :: "string \<Rightarrow> org_store \<Rightarrow> ActionRequest list" where
  "pending_for_approver approver_id st =
     filter (\<lambda>a. approver_id \<in> set (ar_required_approvers a)) (filter (\<lambda>a. ar_status a = Pending) (load_requests st))"

text \<open>The approvers that still owe a decision, in the order the roster lists them.\<close>

definition roster_owed :: "org_store \<Rightarrow> string list" where
  "roster_owed st =
     fold (\<lambda>a. fold (\<lambda>r owed. if r \<notin> set (ar_approvals a) \<and> r \<notin> set owed then owed @ [r] else owed) (ar_required_approvers a))
       (filter (\<lambda>a. ar_status a = Pending) (load_requests st)) []"

definition upstream_of :: "CompanyOrg \<Rightarrow> string \<Rightarrow> Playbook option" where
  "upstream_of org target = List.find (\<lambda>p. pb_on_success_handoff p = Some target) (og_playbooks org)"

section \<open>Loads after saves\<close>

text \<open>
  The documented contract of the serializer: what a load reads back is what was saved, up to
  the last digits of an amount (JSON numbers are re-read to the nearest representable value).
\<close>

definition forget :: "ActionRequest \<Rightarrow> ActionRequest" where
  "forget r = r\<lparr>ar_amount := Fin 0\<rparr>"

definition codec_faithful :: "codec \<Rightarrow> bool" where
  "codec_faithful c \<longleftrightarrow> (\<forall>xs ys. cd_requests c xs = Some ys \<longrightarrow> map forget ys = map forget xs)"

lemma forget_sel [simp]:
  "ar_id (forget r) = ar_id r" "ar_role_id (forget r) = ar_role_id r" "ar_resource_id (forget r) = ar_resource_id r"
  "ar_capability (forget r) = ar_capability r" "ar_status (forget r) = ar_status r"
  "ar_required_approvers (forget r) = ar_required_approvers r" "ar_quorum (forget r) = ar_quorum r"
  "ar_approvals (forget r) = ar_approvals r" "ar_description (forget r) = ar_description r"
  "ar_playbook_id (forget r) = ar_playbook_id r" "ar_created_at (forget r) = ar_created_at r"
  by (simp_all add: forget_def)

lemma forget_eq_iff:
  "forget r = forget s \<longleftrightarrow> ar_id r = ar_id s \<and> ar_role_id r = ar_role_id s \<and> ar_resource_id r = ar_resource_id s
     \<and> ar_capability r = ar_capability s \<and> ar_description r = ar_description s \<and> ar_status r = ar_status s
     \<and> ar_required_approvers r = ar_required_approvers s \<and> ar_quorum r = ar_quorum s \<and> ar_approvals r = ar_approvals s
     \<and> ar_decision_reason r = ar_decision_reason s \<and> ar_created_at r = ar_created_at s
     \<and> ar_playbook_id r = ar_playbook_id s \<and> ActionRequest.more r = ActionRequest.more s"
  by (cases r; cases s) (auto simp: forget_def)

lemma clock_keeps [simp]:
  "os_requests (snd (now_secs st)) = os_requests st" "os_requests (snd (now_nanos st)) = os_requests st"
  "os_disk (snd (now_secs st)) = os_disk st" "os_disk (snd (now_nanos st)) = os_disk st"
  by (simp_all add: now_secs_def now_nanos_def)

lemma gen_request_id_keeps [simp]:
  "load_requests (snd (gen_request_id org role_id resource_id st)) = load_requests st"
  "os_requests (snd (gen_request_id org role_id resource_id st)) = os_requests st"
  "os_disk (snd (gen_request_id org role_id resource_id st)) = os_disk st"
  by (simp_all add: gen_request_id_def load_requests_def now_secs_def now_nanos_def Let_def)

lemma load_after_save:
  assumes "codec_faithful c"
  shows "load_requests (snd (save_requests c new st)) = []
    \<or> load_requests (snd (save_requests c new st)) = load_requests st
    \<or> map forget (load_requests (snd (save_requests c new st))) = map forget new"
  using assms
  by (cases "next_write st"; cases "cd_requests c new")
    (auto simp: save_requests_def write_file_def load_requests_def read_file_def codec_faithful_def)

lemma invariant_after_save:
  assumes "codec_faithful c" and "\<And>r s. forget r = forget s \<Longrightarrow> P r \<Longrightarrow> P s"
    and "\<forall>r\<in>set (load_requests st). P r" and "\<forall>r\<in>set new. P r"
  shows "\<forall>r\<in>set (load_requests (snd (save_requests c new st))). P r"
proof -
  have "\<forall>s\<in>set ys. P s" if "map forget ys = map forget new" for ys
  proof
    fix s assume "s \<in> set ys"
    then have "forget s \<in> forget ` set new" using that by (metis image_eqI image_set)
    then show "P s" using assms(2,4) by (metis imageE)
  qed
  then show ?thesis using load_after_save [OF assms(1), of new st] assms(3) by auto
qed

section \<open>Histories of the queue\<close>

datatype queue_cmd =
    SubmitCmd string string Capability fp string "string option"
  | ApproveCmd string string
  | RejectCmd string string string
  | ExecuteCmd string

fun queue_exec :: "(fp \<Rightarrow> string) \<Rightarrow> codec \<Rightarrow> CompanyOrg \<Rightarrow> queue_cmd \<Rightarrow> org_store \<Rightarrow> org_store" where
  "queue_exec sf c org (SubmitCmd role_id resource_id cap amount desc pb) st =
     snd (submit_action_for_playbook sf c org role_id resource_id cap amount desc pb st)"
| "queue_exec sf c org (ApproveCmd i a) st = snd (approve_action c org i a st)"
| "queue_exec sf c org (RejectCmd i b reason) st = snd (reject_action c i b reason st)"
| "queue_exec sf c org (ExecuteCmd i) st = snd (mark_executed c i st)"

definition queue_run :: "(fp \<Rightarrow> string) \<Rightarrow> codec \<Rightarrow> CompanyOrg \<Rightarrow> queue_cmd list \<Rightarrow> org_store \<Rightarrow> org_store" where
  "queue_run sf c org cmds st = fold (queue_exec sf c org) cmds st"

text \<open>
  A request in the ledger is explained by the history: a submission with its scope, the
  decision taken then, and the signatures given since.
\<close>

fun follows :: "CompanyOrg \<Rightarrow> queue_cmd set \<Rightarrow> Decision \<Rightarrow> ActionRequest \<Rightarrow> bool" where
  "follows org h Allowed r \<longleftrightarrow> ar_status r \<in> {Approved, Executed}"
| "follows org h (Denied _) r \<longleftrightarrow> ar_status r = Rejected"
| "follows org h (RequiresApproval _ as q _) r \<longleftrightarrow>
     ar_required_approvers r = (if as = [] then [HUMAN_OPERATOR] else as) \<and> ar_quorum r = q
     \<and> distinct (ar_approvals r) \<and> set (ar_approvals r) \<subseteq> set (ar_required_approvers r)
     \<and> (\<forall>a\<in>set (ar_approvals r). ApproveCmd (ar_id r) a \<in> h \<and> \<not> lacks_authority org a (ar_resource_id r))
     \<and> (ar_status r \<in> {Approved, Executed} \<longrightarrow> max q 1 \<le> length (ar_approvals r))"

definition explained :: "(fp \<Rightarrow> string) \<Rightarrow> CompanyOrg \<Rightarrow> queue_cmd set \<Rightarrow> ActionRequest \<Rightarrow> bool" where
  "explained sf org h r \<longleftrightarrow> (\<exists>amount desc pb.
     SubmitCmd (ar_role_id r) (ar_resource_id r) (ar_capability r) amount desc pb \<in> h
     \<and> follows org h (check_permission sf org (ar_role_id r) (ar_resource_id r) (ar_capability r) amount) r)"

lemma follows_mono: "follows org h d r \<Longrightarrow> h \<subseteq> h' \<Longrightarrow> follows org h' d r"
  by (cases d) auto

lemma follows_forget: "forget r = forget s \<Longrightarrow> follows org h d r \<Longrightarrow> follows org h d s"
  by (cases d) (auto simp: forget_eq_iff)

lemma explained_mono: "explained sf org h r \<Longrightarrow> h \<subseteq> h' \<Longrightarrow> explained sf org h' r"
  unfolding explained_def using follows_mono by blast

lemma explained_forget: "forget r = forget s \<Longrightarrow> explained sf org h r \<Longrightarrow> explained sf org h s"
  unfolding explained_def by (metis follows_forget forget_eq_iff)

lemma explained_after_save:
  assumes "codec_faithful c" and "\<forall>r\<in>set (load_requests st). explained sf org h r" and "\<forall>r\<in>set new. explained sf org h r"
  shows "\<forall>r\<in>set (load_requests (snd (save_requests c new st))). explained sf org h r"
  using assms(1) explained_forget assms(2,3) by (rule invariant_after_save)

lemma explained_submit:
  assumes "SubmitCmd role_id resource_id cap amount desc pb \<in> h"
  shows "\<exists>r. load_requests (snd (submit_action_for_playbook sf c org role_id resource_id cap amount desc pb st)) =
      load_requests (snd (save_requests c (load_requests st @ [r])
        (snd (now_secs (snd (gen_request_id org role_id resource_id st))))))
    \<and> explained sf org h r"
proof -
  obtain s as q rs where f: "submit_fields (check_permission sf org role_id resource_id cap amount) = (s, as, q, rs)"
    by (metis prod_cases4)
  obtain i st1 where i: "gen_request_id org role_id resource_id st = (i, st1)" by (metis surj_pair)
  obtain t st2 where t: "now_secs st1 = (t, st2)" by (metis surj_pair)
  let ?r = "\<lparr>ar_id = i, ar_role_id = role_id, ar_resource_id = resource_id, ar_capability = cap,
            ar_amount = amount, ar_description = desc, ar_status = s, ar_required_approvers = as, ar_quorum = q,
            ar_approvals = [], ar_decision_reason = rs, ar_created_at = t, ar_playbook_id = pb\<rparr>"
  have "explained sf org h ?r" using assms f
    by (cases "check_permission sf org role_id resource_id cap amount")
      (auto simp: explained_def submit_fields_def intro!: exI [of _ amount])
  moreover have "load_requests st2 = load_requests st"
    using gen_request_id_keeps(2) [of org role_id resource_id st] clock_keeps(1) [of st1] i t
    by (simp add: load_requests_def)
  ultimately show ?thesis using f i t by (auto simp: submit_action_for_playbook_def Let_def)
qed

lemma distinct_add_approver: "distinct xs \<Longrightarrow> distinct (add_approver a xs)"
  by (simp add: add_approver_def)

lemma set_add_approver: "set (add_approver a xs) = insert a (set xs)"
  by (auto simp: add_approver_def)

lemma sign_sel [simp]:
  "ar_id (sign a r) = ar_id r" "ar_role_id (sign a r) = ar_role_id r" "ar_resource_id (sign a r) = ar_resource_id r"
  "ar_capability (sign a r) = ar_capability r" "ar_required_approvers (sign a r) = ar_required_approvers r"
  "ar_quorum (sign a r) = ar_quorum r" "ar_approvals (sign a r) = add_approver a (ar_approvals r)"
  "ar_amount (sign a r) = ar_amount r"
  by (simp_all add: sign_def Let_def)

lemma sign_status:
  "ar_status (sign a r) = (if max (ar_quorum r) 1 \<le> length (add_approver a (ar_approvals r)) then Approved else ar_status r)"
  by (simp add: sign_def Let_def)

lemma follows_sign:
  assumes "follows org h d r" and "ar_status r = Pending" and "a \<in> set (ar_required_approvers r)"
    and "\<not> lacks_authority org a (ar_resource_id r)" and "ApproveCmd (ar_id r) a \<in> h"
  shows "follows org h d (sign a r)"
  using assms by (cases d) (auto simp: sign_status set_add_approver distinct_add_approver)

lemma explained_sign:
  assumes "explained sf org h r" and "ar_status r = Pending" and "a \<in> set (ar_required_approvers r)"
    and "\<not> lacks_authority org a (ar_resource_id r)" and "ApproveCmd (ar_id r) a \<in> h"
  shows "explained sf org h (sign a r)"
  using assms(1) follows_sign [OF _ assms(2-5)] unfolding explained_def by auto

text \<open>Closing a request keeps it explained: the status moves only along the lifecycle.\<close>

lemma follows_close:
  assumes "follows org h d r"
  shows "ar_status r = Pending \<Longrightarrow> follows org h d (r\<lparr>ar_status := Rejected, ar_decision_reason := x\<rparr>)"
    and "ar_status r = Approved \<Longrightarrow> follows org h d (r\<lparr>ar_status := Executed\<rparr>)"
  using assms by (cases d; simp)+

lemma explained_close:
  assumes "explained sf org h r"
  shows "ar_status r = Pending \<Longrightarrow> explained sf org h (r\<lparr>ar_status := Rejected, ar_decision_reason := x\<rparr>)"
    and "ar_status r = Approved \<Longrightarrow> explained sf org h (r\<lparr>ar_status := Executed\<rparr>)"
  using assms unfolding explained_def by (auto dest: follows_close)

lemma update_first_invariant:
  assumes "\<forall>r\<in>set all. P r" and "List.find Q all = Some x" and "P (f x)"
  shows "\<forall>r\<in>set (update_first Q f all). P r"
  using assms set_update_first(1) [OF assms(2), of f] by auto

lemma explained_update:
  assumes "codec_faithful c" and "\<forall>r\<in>set (load_requests st). explained sf org h r"
    and "List.find (has_id i) (load_requests st) = Some req" and "explained sf org h (f req)"
  shows "\<forall>r\<in>set (load_requests (snd (save_requests c (update_first (has_id i) f (load_requests st)) st))). explained sf org h r"
  using explained_after_save [OF assms(1,2)]
    update_first_invariant [where P = "explained sf org h" and f = f, OF assms(2-4)] .

lemma submit_explained:
  assumes "codec_faithful c" and "\<forall>r\<in>set (load_requests st). explained sf org h r"
    and "SubmitCmd role_id resource_id cap amount desc pb \<in> h"
  shows "\<forall>r\<in>set (load_requests (snd (submit_action_for_playbook sf c org role_id resource_id cap amount desc pb st))). explained sf org h r"
proof -
  let ?st = "snd (now_secs (snd (gen_request_id org role_id resource_id st)))"
  from explained_submit [OF assms(3), of sf c org st]
  obtain r where r: "load_requests (snd (submit_action_for_playbook sf c org role_id resource_id cap amount desc pb st)) =
      load_requests (snd (save_requests c (load_requests st @ [r]) ?st))" "explained sf org h r" by (elim exE conjE)
  have "load_requests ?st = load_requests st" by (simp add: load_requests_def)
  then have old: "\<forall>r\<in>set (load_requests ?st). explained sf org h r" using assms(2) by (rule ssubst)
  show ?thesis unfolding r(1) by (rule explained_after_save [OF assms(1) old]) (use r(2) assms(2) in simp)
qed

lemma approve_explained:
  assumes "codec_faithful c" and "\<forall>r\<in>set (load_requests st). explained sf org h r" and "ApproveCmd i a \<in> h"
  shows "\<forall>r\<in>set (load_requests (snd (approve_action c org i a st))). explained sf org h r"
proof (cases "\<exists>req. List.find (has_id i) (load_requests st) = Some req \<and> ar_status req = Pending
    \<and> a \<in> set (ar_required_approvers req) \<and> \<not> lacks_authority org a (ar_resource_id req)")
  case True
  then obtain req where f: "List.find (has_id i) (load_requests st) = Some req"
    and g: "ar_status req = Pending" "a \<in> set (ar_required_approvers req)" "\<not> lacks_authority org a (ar_resource_id req)"
    by blast
  from find_Some_mem [OF f] have "req \<in> set (load_requests st)" "ar_id req = i" by (auto simp: has_id_def)
  with assms(2,3) g have "explained sf org h (sign a req)" by (intro explained_sign) auto
  then have "\<forall>r\<in>set (load_requests (snd (save_requests c (update_first (has_id i) (sign a) (load_requests st)) st))). explained sf org h r"
    by (rule explained_update [where f = "sign a", OF assms(1,2) f])
  moreover have "snd (approve_action c org i a st) = snd (save_requests c (update_first (has_id i) (sign a) (load_requests st)) st)"
    using f g by (simp add: approve_action_def Let_def)
  ultimately show ?thesis by (rule ssubst [rotated])
next
  case False
  then have "snd (approve_action c org i a st) = st" by (auto simp: approve_action_def Let_def split: option.splits)
  then show ?thesis using assms(2) by simp
qed

lemma reject_explained:
  assumes "codec_faithful c" and "\<forall>r\<in>set (load_requests st). explained sf org h r"
  shows "\<forall>r\<in>set (load_requests (snd (reject_action c i b reason st))). explained sf org h r"
proof (cases "\<exists>req. List.find (has_id i) (load_requests st) = Some req \<and> ar_status req = Pending")
  case True
  then obtain req where f: "List.find (has_id i) (load_requests st) = Some req" and g: "ar_status req = Pending" by blast
  with assms(2) find_Some_mem [OF f] have "explained sf org h req" by blast
  let ?f = "\<lambda>r. r\<lparr>ar_status := Rejected, ar_decision_reason := ''rejected by '' @ b @ '': '' @ reason\<rparr>"
  have "\<forall>r\<in>set (load_requests (snd (save_requests c (update_first (has_id i) ?f (load_requests st)) st))). explained sf org h r"
    using explained_close(1) [OF \<open>explained sf org h req\<close> g] by (rule explained_update [where f = ?f, OF assms(1,2) f])
  moreover have "snd (reject_action c i b reason st) = snd (save_requests c (update_first (has_id i) ?f (load_requests st)) st)"
    using f g by (simp add: reject_action_def Let_def)
  ultimately show ?thesis by (rule ssubst [rotated])
next
  case False
  then have "snd (reject_action c i b reason st) = st" by (auto simp: reject_action_def Let_def split: option.splits)
  then show ?thesis using assms(2) by simp
qed

lemma executed_explained:
  assumes "codec_faithful c" and "\<forall>r\<in>set (load_requests st). explained sf org h r"
  shows "\<forall>r\<in>set (load_requests (snd (mark_executed c i st))). explained sf org h r"
proof (cases "\<exists>req. List.find (has_id i) (load_requests st) = Some req \<and> ar_status req = Approved")
  case True
  then obtain req where f: "List.find (has_id i) (load_requests st) = Some req" and g: "ar_status req = Approved" by blast
  with assms(2) find_Some_mem [OF f] have "explained sf org h req" by blast
  let ?f = "\<lambda>r. r\<lparr>ar_status := Executed\<rparr>"
  have "\<forall>r\<in>set (load_requests (snd (save_requests c (update_first (has_id i) ?f (load_requests st)) st))). explained sf org h r"
    using explained_close(2) [OF \<open>explained sf org h req\<close> g] by (rule explained_update [where f = ?f, OF assms(1,2) f])
  moreover have "snd (mark_executed c i st) = snd (save_requests c (update_first (has_id i) ?f (load_requests st)) st)"
    using f g by (simp add: mark_executed_def Let_def)
  ultimately show ?thesis by (rule ssubst [rotated])
next
  case False
  then have "snd (mark_executed c i st) = st" by (auto simp: mark_executed_def Let_def split: option.splits)
  then show ?thesis using assms(2) by simp
qed

lemma queue_exec_explained:
  assumes "codec_faithful c" and "\<forall>r\<in>set (load_requests st). explained sf org h r" and "cmd \<in> h"
  shows "\<forall>r\<in>set (load_requests (queue_exec sf c org cmd st)). explained sf org h r"
proof (cases cmd)
  case (SubmitCmd role_id resource_id cap amount desc pb)
  then show ?thesis using submit_explained [OF assms(1,2)] assms(3) by (simp only: queue_exec.simps)
next
  case (ApproveCmd i a)
  then show ?thesis using approve_explained [OF assms(1,2)] assms(3) by (simp only: queue_exec.simps)
next
  case (RejectCmd i b reason)
  then show ?thesis using reject_explained [OF assms(1,2)] by (simp only: queue_exec.simps)
next
  case (ExecuteCmd i)
  then show ?thesis using executed_explained [OF assms(1,2)] by (simp only: queue_exec.simps)
qed

lemma queue_run_explained:
  assumes "codec_faithful c" and "\<forall>r\<in>set (load_requests st). explained sf org (set cmds) r"
  shows "\<forall>r\<in>set (load_requests (queue_run sf c org cmds st)). explained sf org (set cmds) r"
proof -
  have "set xs \<subseteq> h \<Longrightarrow> \<forall>r\<in>set (load_requests st). explained sf org h r \<Longrightarrow>
      \<forall>r\<in>set (load_requests (fold (queue_exec sf c org) xs st)). explained sf org h r" for xs h st
  proof (induction xs arbitrary: st)
    case (Cons x xs)
    from Cons.prems(1) have "x \<in> h" "set xs \<subseteq> h" by auto
    from Cons.IH [OF this(2) queue_exec_explained [OF assms(1) Cons.prems(2) this(1)]] show ?case
      by (simp only: fold_simps)
  qed (simp only: fold_simps id_apply)
  from this [of cmds "set cmds" st] assms(2) show ?thesis by (simp add: queue_run_def)
qed

section \<open>The lifecycle\<close>

text \<open>How a stored request may change while it stays in the ledger.\<close>

definition advances :: "ActionRequest \<Rightarrow> ActionRequest \<Rightarrow> bool" where
  "advances r s \<longleftrightarrow> ar_id s = ar_id r \<and> ar_role_id s = ar_role_id r \<and> ar_resource_id s = ar_resource_id r
     \<and> ar_capability s = ar_capability r \<and> ar_required_approvers s = ar_required_approvers r \<and> ar_quorum s = ar_quorum r
     \<and> ar_playbook_id s = ar_playbook_id r \<and> ar_description s = ar_description r
     \<and> (if ar_status r = Pending then ar_status s \<noteq> Executed \<and> (\<exists>more. ar_approvals s = ar_approvals r @ more)
        else ar_approvals s = ar_approvals r
          \<and> (ar_status s = ar_status r \<or> ar_status r = Approved \<and> ar_status s = Executed))"

lemma advances_refl: "advances r r"
  by (auto simp: advances_def)

lemma advances_forget: "advances r s \<Longrightarrow> forget s = forget t \<Longrightarrow> advances r t"
  by (auto simp: advances_def forget_eq_iff split: if_splits)

lemma advances_sign: "ar_status r = Pending \<Longrightarrow> advances r (sign a r)"
  by (auto simp: advances_def sign_def Let_def add_approver_def)

definition ledger_advances :: "ActionRequest list \<Rightarrow> ActionRequest list \<Rightarrow> bool" where
  "ledger_advances xs ys \<longleftrightarrow> length xs \<le> length ys \<and> (\<forall>i<length xs. advances (xs ! i) (ys ! i))"

lemma ledger_advances_refl: "ledger_advances xs (xs @ zs)"
  by (simp add: ledger_advances_def nth_append advances_refl)

lemma ledger_advances_update:
  assumes "List.find P xs = Some x" and "advances x (f x)"
  shows "ledger_advances xs (update_first P f xs)"
  using assms
proof (induction xs)
  case (Cons y ys)
  show ?case
  proof (cases "P y")
    case True
    with Cons.prems show ?thesis by (auto simp: ledger_advances_def nth_Cons advances_refl split: nat.splits)
  next
    case False
    with Cons have "ledger_advances ys (update_first P f ys)" by simp
    with False show ?thesis by (auto simp: ledger_advances_def nth_Cons advances_refl split: nat.splits)
  qed
qed simp

lemma ledger_advances_forget:
  assumes "ledger_advances xs ys" and "map forget zs = map forget ys"
  shows "ledger_advances xs zs"
proof -
  have len: "length zs = length ys" using assms(2) by (metis length_map)
  have "forget (ys ! i) = forget (zs ! i)" if "i < length ys" for i
    using assms(2) that len by (metis nth_map)
  with assms(1) len show ?thesis by (auto simp: ledger_advances_def intro: advances_forget)
qed

lemma advances_after_save:
  assumes "codec_faithful c" and "ledger_advances (load_requests st) new"
  shows "load_requests (snd (save_requests c new st)) = []
    \<or> ledger_advances (load_requests st) (load_requests (snd (save_requests c new st)))"
  using load_after_save [OF assms(1), of new st] ledger_advances_forget [OF assms(2)]
    ledger_advances_refl [of "load_requests st" "[]"] by auto

lemma submit_saves:
  "\<exists>r st'. snd (submit_action_for_playbook sf c org role_id resource_id cap amount desc pb st) =
       snd (save_requests c (load_requests st @ [r]) st') \<and> load_requests st' = load_requests st"
proof -
  obtain i st1 where i: "gen_request_id org role_id resource_id st = (i, st1)" by (metis surj_pair)
  obtain t st2 where t: "now_secs st1 = (t, st2)" by (metis surj_pair)
  have "load_requests st2 = load_requests st"
    using gen_request_id_keeps(2) [of org role_id resource_id st] clock_keeps(1) [of st1] i t
    by (simp add: load_requests_def)
  then show ?thesis using i t
    by (auto simp: submit_action_for_playbook_def Let_def split: prod.splits)
qed

lemma ledger_step:
  assumes "codec_faithful c"
  shows "load_requests (queue_exec sf c org cmd st) = []
    \<or> ledger_advances (load_requests st) (load_requests (queue_exec sf c org cmd st))"
proof -
  have same: "ledger_advances (load_requests st) (load_requests st)"
    using ledger_advances_refl [of "load_requests st" "[]"] by simp
  have upd: "load_requests (snd (save_requests c (update_first P f (load_requests st)) st)) = []
      \<or> ledger_advances (load_requests st) (load_requests (snd (save_requests c (update_first P f (load_requests st)) st)))"
    if "List.find P (load_requests st) = Some x" "advances x (f x)" for P f x
    using advances_after_save [OF assms ledger_advances_update [of P "load_requests st" x f, OF that]] .
  show ?thesis
  proof (cases cmd)
    case (SubmitCmd role_id resource_id cap amount desc pb)
    obtain r st' where "queue_exec sf c org cmd st = snd (save_requests c (load_requests st @ [r]) st')" "load_requests st' = load_requests st"
      using submit_saves [of sf c org role_id resource_id cap amount desc pb st] SubmitCmd by auto
    with advances_after_save [OF assms, of st' "load_requests st @ [r]"] ledger_advances_refl [of "load_requests st" "[r]"]
    show ?thesis by simp
  next
    case (ApproveCmd i a)
    with same upd [of "has_id i" _ "sign a"] advances_sign show ?thesis
      by (auto simp: approve_action_def Let_def split: option.splits)
  next
    case (RejectCmd i b reason)
    let ?f = "\<lambda>r. r\<lparr>ar_status := Rejected, ar_decision_reason := ''rejected by '' @ b @ '': '' @ reason\<rparr>"
    have "advances r (?f r)" if "ar_status r = Pending" for r using that by (simp add: advances_def)
    with RejectCmd same upd [of "has_id i" _ ?f] show ?thesis
      by (auto simp: reject_action_def Let_def split: option.splits)
  next
    case (ExecuteCmd i)
    let ?f = "\<lambda>r. r\<lparr>ar_status := Executed\<rparr>"
    have "advances r (?f r)" if "ar_status r = Approved" for r using that by (simp add: advances_def)
    with ExecuteCmd same upd [of "has_id i" _ ?f] show ?thesis
      by (auto simp: mark_executed_def Let_def split: option.splits)
  qed
qed

section \<open>Properties\<close>

text \<open>A store on a healthy disk and an exact serializer, for concrete runs.\<close>

definition demo_codec :: codec where
  "demo_codec = \<lparr>cd_requests = Some, cd_elevations = Some, cd_audits = Some, cd_verdicts = Some, cd_handoffs = Some, cd_schedules = Some\<rparr>"

definition empty_store :: "(nat \<Rightarrow> disk_write) \<Rightarrow> (nat \<Rightarrow> u64 \<times> u32) \<Rightarrow> org_store" where
  "empty_store disk clock =
     \<lparr>os_requests = None, os_elevations = None, os_audits = None, os_verdicts = None, os_handoffs = None, os_schedules = None,
      os_disk = disk, os_writes = 0, os_clock = clock, os_ticks = 0\<rparr>"

abbreviation demo_store_org :: org_store where
  "demo_store_org \<equiv> empty_store (\<lambda>_. Landed) (\<lambda>n. (of_nat n, 0))"

lemma demo_codec_faithful: "codec_faithful demo_codec"
  by (simp add: codec_faithful_def demo_codec_def)

text \<open>The history of the demonstration: a spend of five is submitted and signed by its approver.\<close>

definition demo_history :: "queue_cmd list" where
  "demo_history = [SubmitCmd ''cfo'' ''bank'' Spend (Fin 5) [] None, ApproveCmd ''req_org_1_161'' ''cfo'']"

text \<open>
  C2. No action clears without its sign-off: whatever commands run, whatever the disk does to
  the ledger file, a request that is approved or executed stems from a submission that the
  policy allowed outright, or from one that required approval and has since been signed by at
  least a quorum of different designated approvers, none of whom lacks the authority.
\<close>

theorem approval_needs_quorum:
  assumes "codec_faithful c" and "os_requests st = None"
    and "r \<in> set (load_requests (queue_run sf c org cmds st))" and "ar_status r \<in> {Approved, Executed}"
  shows "\<exists>amount desc pb. SubmitCmd (ar_role_id r) (ar_resource_id r) (ar_capability r) amount desc pb \<in> set cmds
    \<and> (check_permission sf org (ar_role_id r) (ar_resource_id r) (ar_capability r) amount = Allowed
       \<or> (\<exists>ids as q reason signers.
            check_permission sf org (ar_role_id r) (ar_resource_id r) (ar_capability r) amount = RequiresApproval ids as q reason
            \<and> distinct signers \<and> max q 1 \<le> length signers
            \<and> set signers \<subseteq> set (if as = [] then [HUMAN_OPERATOR] else as)
            \<and> (\<forall>a\<in>set signers. ApproveCmd (ar_id r) a \<in> set cmds \<and> \<not> lacks_authority org a (ar_resource_id r))))"
proof -
  have "\<forall>r\<in>set (load_requests st). explained sf org (set cmds) r"
    using assms(2) by (simp add: load_requests_def read_file_def)
  from queue_run_explained [OF assms(1) this] assms(3) have "explained sf org (set cmds) r" ..
  then obtain amount desc pb where s: "SubmitCmd (ar_role_id r) (ar_resource_id r) (ar_capability r) amount desc pb \<in> set cmds"
    and f: "follows org (set cmds) (check_permission sf org (ar_role_id r) (ar_resource_id r) (ar_capability r) amount) r"
    unfolding explained_def by blast
  show ?thesis
  proof (cases "check_permission sf org (ar_role_id r) (ar_resource_id r) (ar_capability r) amount")
    case Allowed
    with s show ?thesis by blast
  next
    case (Denied x)
    with f assms(4) show ?thesis by auto
  next
    case (RequiresApproval ids as q reason)
    with f assms(4) have "distinct (ar_approvals r)" "max q 1 \<le> length (ar_approvals r)"
      "set (ar_approvals r) \<subseteq> set (if as = [] then [HUMAN_OPERATOR] else as)"
      "\<forall>a\<in>set (ar_approvals r). ApproveCmd (ar_id r) a \<in> set cmds \<and> \<not> lacks_authority org a (ar_resource_id r)"
      by auto
    with s RequiresApproval show ?thesis by blast
  qed
qed

theorem approval_needs_quorum_witness:
  "map ar_status (load_requests (queue_run (\<lambda>_. []) demo_codec demo_org demo_history demo_store_org)) = [Approved]
   \<and> (\<exists>signers. distinct signers \<and> 1 \<le> length signers
        \<and> (\<forall>a\<in>set signers. ApproveCmd (ar_id (hd (load_requests (queue_run (\<lambda>_. []) demo_codec demo_org demo_history demo_store_org)))) a
             \<in> set demo_history))"
  (is "?A \<and> ?B")
proof
  let ?l = "load_requests (queue_run (\<lambda>_. []) demo_codec demo_org demo_history demo_store_org)"
  show A: ?A by code_simp
  then have mem: "hd ?l \<in> set ?l" "ar_status (hd ?l) \<in> {Approved, Executed}" by (auto simp: map_eq_Cons_conv)
  have scope: "ar_role_id (hd ?l) = ''cfo'' \<and> ar_resource_id (hd ?l) = ''bank'' \<and> ar_capability (hd ?l) = Spend" by code_simp
  have amount: "SubmitCmd ''cfo'' ''bank'' Spend amount desc pb \<in> set demo_history \<Longrightarrow> amount = Fin 5" for amount desc pb
    by (simp add: demo_history_def)
  have "check_permission (\<lambda>_. []) demo_org ''cfo'' ''bank'' Spend (Fin 5) \<noteq> Allowed" by code_simp
  with approval_needs_quorum [OF demo_codec_faithful _ mem] scope amount show ?B
    by (fastforce simp: empty_store_def)
qed

text \<open>
  C38. Requests move one way: a command leaves every stored request in its place with its scope,
  approvers and quorum; only a pending request gains signatures or is approved or rejected,
  only an approved one becomes executed, and rejected and executed are final.  The only other
  outcome is a ledger file that no longer parses, which reads as empty.
\<close>

theorem request_lifecycle:
  assumes "codec_faithful c"
  shows "load_requests (queue_exec sf c org cmd st) = []
    \<or> length (load_requests st) \<le> length (load_requests (queue_exec sf c org cmd st))
      \<and> (\<forall>i<length (load_requests st). advances (load_requests st ! i) (load_requests (queue_exec sf c org cmd st) ! i))"
  using ledger_step [OF assms, of sf org cmd st] by (simp add: ledger_advances_def)

theorem request_lifecycle_witness:
  "advances (load_requests (queue_run (\<lambda>_. []) demo_codec demo_org demo_history demo_store_org) ! 0)
     (load_requests (queue_exec (\<lambda>_. []) demo_codec demo_org (ExecuteCmd ''req_org_1_161'')
        (queue_run (\<lambda>_. []) demo_codec demo_org demo_history demo_store_org)) ! 0)
   \<and> map ar_status (load_requests (queue_exec (\<lambda>_. []) demo_codec demo_org (ExecuteCmd ''req_org_1_161'')
        (queue_run (\<lambda>_. []) demo_codec demo_org demo_history demo_store_org))) = [Executed]"
proof -
  let ?st = "queue_run (\<lambda>_. []) demo_codec demo_org demo_history demo_store_org"
  have "map ar_status (load_requests ?st) = [Approved]" by code_simp
  then have "0 < length (load_requests ?st)" by (metis length_map length_Cons zero_less_Suc)
  moreover have ex: "map ar_status (load_requests (queue_exec (\<lambda>_. []) demo_codec demo_org (ExecuteCmd ''req_org_1_161'') ?st)) = [Executed]"
    by code_simp
  then have "load_requests (queue_exec (\<lambda>_. []) demo_codec demo_org (ExecuteCmd ''req_org_1_161'') ?st) \<noteq> []" by auto
  ultimately show ?thesis
    using request_lifecycle [OF demo_codec_faithful, of "\<lambda>_. []" demo_org "ExecuteCmd ''req_org_1_161''" ?st] ex by blast
qed

section \<open>When a request can be approved at all\<close>

text \<open>The approvers whose signature \<open>approve_action\<close> accepts.\<close>

definition eligible :: "CompanyOrg \<Rightarrow> ActionRequest \<Rightarrow> string set" where
  "eligible org r = {a \<in> set (ar_required_approvers r). \<not> lacks_authority org a (ar_resource_id r)}"

definition codec_reads :: "codec \<Rightarrow> bool" where
  "codec_reads c \<longleftrightarrow> (\<forall>xs. (\<forall>r\<in>set xs. \<exists>q. ar_amount r = Fin q) \<longrightarrow>
     (\<exists>ys. cd_requests c xs = Some ys \<and> map forget ys = map forget xs \<and> (\<forall>r\<in>set ys. \<exists>q. ar_amount r = Fin q)))"

definition sign_by :: "codec \<Rightarrow> CompanyOrg \<Rightarrow> string \<Rightarrow> string list \<Rightarrow> org_store \<Rightarrow> org_store" where
  "sign_by c org i signers st = fold (\<lambda>a st. snd (approve_action c org i a st)) signers st"

text \<open>The stored request with an id.\<close>

definition stored :: "string \<Rightarrow> org_store \<Rightarrow> ActionRequest option" where
  "stored i st = List.find (has_id i) (load_requests st)"

definition healthy :: "org_store \<Rightarrow> bool" where
  "healthy st \<longleftrightarrow> os_disk st = (\<lambda>_. Landed) \<and> (\<forall>r\<in>set (load_requests st). \<exists>q. ar_amount r = Fin q)"

lemma find_forget: "map forget ys = map forget xs \<Longrightarrow> map_option forget (List.find (has_id i) ys) = map_option forget (List.find (has_id i) xs)"
proof (induction xs arbitrary: ys)
  case (Cons x xs)
  then obtain y zs where "ys = y # zs" "forget y = forget x" "map forget zs = map forget xs" by auto
  with Cons.IH [of zs] show ?case by (auto simp: has_id_def forget_eq_iff)
qed simp

lemma finite_update_first:
  "\<forall>r\<in>set xs. \<exists>q. ar_amount r = Fin q \<Longrightarrow> (\<And>r. ar_amount (f r) = ar_amount r) \<Longrightarrow>
     \<forall>r\<in>set (update_first P f xs). \<exists>q. ar_amount r = Fin q"
  by (induction xs) auto

lemma forget_sign: "forget r = forget s \<Longrightarrow> forget (sign a r) = forget (sign a s)"
  by (auto simp: forget_eq_iff sign_def Let_def)

text \<open>One call of \<open>approve_action\<close> on a healthy store, up to the digits of the amounts.\<close>

lemma approve_stored:
  assumes "codec_reads c" and "healthy st" and "stored i st = Some r"
  shows "healthy (snd (approve_action c org i a st))
    \<and> map_option forget (stored i (snd (approve_action c org i a st))) =
       Some (forget (if ar_status r = Pending \<and> a \<in> eligible org r then sign a r else r))"
proof (cases "ar_status r = Pending \<and> a \<in> eligible org r")
  case False
  with assms(2,3) show ?thesis by (auto simp: approve_action_def stored_def eligible_def Let_def)
next
  case True
  let ?new = "update_first (has_id i) (sign a) (load_requests st)"
  have "\<forall>r\<in>set ?new. \<exists>q. ar_amount r = Fin q"
    using assms(2) by (intro finite_update_first) (auto simp: healthy_def)
  then obtain ys where ys: "cd_requests c ?new = Some ys" "map forget ys = map forget ?new" "\<forall>r\<in>set ys. \<exists>q. ar_amount r = Fin q"
    using assms(1) unfolding codec_reads_def by blast
  have st: "snd (approve_action c org i a st) = st\<lparr>os_requests := Some ys, os_writes := os_writes st + 1\<rparr>"
    using True assms ys(1)
    by (simp add: approve_action_def stored_def eligible_def Let_def save_requests_def write_file_def next_write_def healthy_def)
  have "has_id i (sign a r)" using find_Some_mem [of "has_id i" "load_requests st" r] assms(3) by (simp add: stored_def has_id_def)
  then have "List.find (has_id i) ?new = Some (sign a r)"
    using find_update_first [of "has_id i" "load_requests st" r "sign a"] assms(3) by (simp add: stored_def)
  with find_forget [OF ys(2), of i] have "map_option forget (List.find (has_id i) ys) = Some (forget (sign a r))" by simp
  then show ?thesis using True assms(2) ys(3) unfolding st
    by (auto simp: healthy_def stored_def load_requests_def read_file_def)
qed

text \<open>The signatures on one request, in order.\<close>

definition sign_one :: "CompanyOrg \<Rightarrow> string \<Rightarrow> ActionRequest \<Rightarrow> ActionRequest" where
  "sign_one org a r = (if ar_status r = Pending \<and> a \<in> eligible org r then sign a r else r)"

lemma sign_one_forget: "forget r = forget s \<Longrightarrow> forget (sign_one org a r) = forget (sign_one org a s)"
  using forget_sign [of r s a] by (auto simp: sign_one_def eligible_def forget_eq_iff)

lemma sign_by_stored:
  assumes "codec_reads c" and "healthy st" and "stored i st = Some r"
  shows "\<exists>r'. stored i (sign_by c org i signers st) = Some r' \<and> forget r' = forget (fold (sign_one org) signers r)"
  using assms(2,3)
proof (induction signers arbitrary: st r)
  case Nil
  then show ?case by (simp add: sign_by_def)
next
  case (Cons a signers)
  let ?st = "snd (approve_action c org i a st)"
  obtain s where s: "healthy ?st" "stored i ?st = Some s" "forget s = forget (sign_one org a r)"
    using approve_stored [OF assms(1) Cons.prems, of org a] by (auto simp: sign_one_def)
  have "forget (fold (sign_one org) signers s) = forget (fold (sign_one org) signers (sign_one org a r))"
    using s(3) by (induction signers arbitrary: s r rule: rev_induct) (auto intro: sign_one_forget)
  with Cons.IH [OF s(1,2)] show ?case by (simp add: sign_by_def)
qed

text \<open>While a request stays pending, its signatures are those given so far and below the quorum.\<close>

lemma sign_one_sel [simp]:
  "ar_required_approvers (sign_one org a r) = ar_required_approvers r" "ar_resource_id (sign_one org a r) = ar_resource_id r"
  "ar_quorum (sign_one org a r) = ar_quorum r" "eligible org (sign_one org a r) = eligible org r"
  by (auto simp: sign_one_def eligible_def)

definition signing :: "CompanyOrg \<Rightarrow> ActionRequest \<Rightarrow> bool" where
  "signing org r \<longleftrightarrow> distinct (ar_approvals r) \<and> set (ar_approvals r) \<subseteq> eligible org r
     \<and> (ar_status r = Pending \<and> length (ar_approvals r) < max (ar_quorum r) 1
        \<or> ar_status r = Approved \<and> max (ar_quorum r) 1 \<le> length (ar_approvals r))"

lemma signing_one: "signing org r \<Longrightarrow> signing org (sign_one org a r)"
  by (auto simp: signing_def sign_one_def sign_status set_add_approver distinct_add_approver eligible_def)

lemma sign_one_step:
  "ar_status (sign_one org a r) = Pending \<Longrightarrow> ar_status r = Pending"
  "a \<in> eligible org r \<Longrightarrow> ar_status r = Pending \<Longrightarrow> a \<in> set (ar_approvals (sign_one org a r))"
  "set (ar_approvals r) \<subseteq> set (ar_approvals (sign_one org a r))"
  by (auto simp: sign_one_def sign_status set_add_approver split: if_splits)

lemma signing_fold:
  assumes "signing org r"
  shows "signing org (fold (sign_one org) xs r) \<and> eligible org (fold (sign_one org) xs r) = eligible org r
    \<and> ar_quorum (fold (sign_one org) xs r) = ar_quorum r
    \<and> (ar_status (fold (sign_one org) xs r) = Pending \<longrightarrow> set xs \<inter> eligible org r \<subseteq> set (ar_approvals (fold (sign_one org) xs r)))"
proof (induction xs rule: rev_induct)
  case (snoc x xs)
  let ?r = "fold (sign_one org) xs r"
  show ?case using snoc signing_one [of org ?r x] sign_one_step [where org = org and a = x and r = ?r] by auto
qed (use assms in simp)

lemma finite_eligible: "finite (eligible org r)"
  by (simp add: eligible_def)

lemma signing_reaches:
  assumes "signing org r"
  shows "(\<exists>xs. ar_status (fold (sign_one org) xs r) = Approved) \<longleftrightarrow> max (ar_quorum r) 1 \<le> card (eligible org r)"
proof
  assume "\<exists>xs. ar_status (fold (sign_one org) xs r) = Approved"
  then obtain xs where a: "ar_status (fold (sign_one org) xs r) = Approved" ..
  let ?r = "fold (sign_one org) xs r"
  have "max (ar_quorum r) 1 \<le> length (ar_approvals ?r)" "distinct (ar_approvals ?r)" "set (ar_approvals ?r) \<subseteq> eligible org r"
    using signing_fold [OF assms, of xs] a by (auto simp: signing_def)
  then show "max (ar_quorum r) 1 \<le> card (eligible org r)"
    using card_mono [OF finite_eligible, of "set (ar_approvals ?r)" org r] by (simp add: distinct_card)
next
  assume q: "max (ar_quorum r) 1 \<le> card (eligible org r)"
  obtain xs where xs: "set xs = eligible org r" using finite_list [OF finite_eligible] by blast
  let ?r = "fold (sign_one org) xs r"
  have "ar_status ?r \<noteq> Pending"
  proof
    assume pend: "ar_status ?r = Pending"
    then have "eligible org r \<subseteq> set (ar_approvals ?r)" "length (ar_approvals ?r) < max (ar_quorum r) 1"
      using signing_fold [OF assms, of xs] xs by (auto simp: signing_def)
    then have "card (eligible org r) \<le> length (ar_approvals ?r)"
      using card_mono [of "set (ar_approvals ?r)" "eligible org r"] card_length [of "ar_approvals ?r"] by simp
    with \<open>length (ar_approvals ?r) < max (ar_quorum r) 1\<close> q show False by linarith
  qed
  then show "\<exists>xs. ar_status (fold (sign_one org) xs r) = Approved"
    using signing_fold [OF assms, of xs] by (auto simp: signing_def)
qed

text \<open>
  A pending request can be brought to approval exactly when the designated approvers whose
  authority holds are at least as many as its quorum; otherwise no sequence of signatures ever
  clears it.
\<close>

theorem approvable_iff:
  assumes "codec_reads c" and "healthy st" and "stored i st = Some r" and "ar_status r = Pending" and "ar_approvals r = []"
  shows "(\<exists>signers r'. stored i (sign_by c org i signers st) = Some r' \<and> ar_status r' = Approved)
    \<longleftrightarrow> max (ar_quorum r) 1 \<le> card {a \<in> set (ar_required_approvers r). \<not> lacks_authority org a (ar_resource_id r)}"
proof -
  have "signing org r" using assms(4,5) by (simp add: signing_def)
  moreover have "(\<exists>r'. stored i (sign_by c org i xs st) = Some r' \<and> ar_status r' = Approved) \<longleftrightarrow>
      ar_status (fold (sign_one org) xs r) = Approved" for xs
    using sign_by_stored [OF assms(1-3), of org xs] by (auto simp: forget_eq_iff)
  ultimately show ?thesis using signing_reaches [of org r] by (simp add: eligible_def)
qed

lemma demo_codec_reads: "codec_reads demo_codec"
  by (simp add: codec_reads_def demo_codec_def)

theorem approvable_iff_witness:
  "(\<exists>signers r'. stored ''req_org_1_161'' (sign_by demo_codec demo_org ''req_org_1_161'' signers
        (queue_run (\<lambda>_. []) demo_codec demo_org [hd demo_history] demo_store_org)) = Some r' \<and> ar_status r' = Approved)"
proof -
  let ?st = "queue_run (\<lambda>_. []) demo_codec demo_org [hd demo_history] demo_store_org"
  let ?r = "the (stored ''req_org_1_161'' ?st)"
  have st: "stored ''req_org_1_161'' ?st \<noteq> None \<and> ar_status ?r = Pending \<and> ar_approvals ?r = []
      \<and> ar_required_approvers ?r = [''cfo''] \<and> ar_quorum ?r = 1 \<and> \<not> lacks_authority demo_org ''cfo'' (ar_resource_id ?r)
      \<and> map ar_amount (load_requests ?st) = [Fin 5]" by code_simp
  have "os_disk ?st = (\<lambda>_. Landed)"
    by (simp add: queue_run_def demo_history_def submit_action_for_playbook_def save_requests_def gen_request_id_def
        now_secs_def now_nanos_def Let_def empty_store_def split: prod.splits)
  with st have "healthy ?st" by (auto simp: healthy_def map_eq_Cons_conv)
  moreover have "stored ''req_org_1_161'' ?st = Some ?r" using st by simp
  moreover have "{a \<in> set (ar_required_approvers ?r). \<not> lacks_authority demo_org a (ar_resource_id ?r)} = {''cfo''}" using st by auto
  ultimately show ?thesis using approvable_iff [OF demo_codec_reads, of ?st "''req_org_1_161''" ?r demo_org] st by simp
qed

end
