(* ===== verification/Elevation.thy ===== *)
theory Elevation
  imports Approval_Ledger
begin

text \<open>
  Just-in-time elevation and the credential vault
  (\<open>velocity-mcp/src/editor/company_org.rs\<close>): minting a time-bounded single-use elevation
  from an approved request, consuming it, the audit ledger of both, and the release of a
  secret.  The environment that holds the secrets is the parameter \<open>env\<close>: the value of a
  \<open>secret_ref\<close> when it is provisioned.
\<close>

section \<open>Ledgers\<close>

definition load_elevations :: "org_store \<Rightarrow> ElevationGrant list" where
  "load_elevations st = read_file (os_elevations st)"

definition save_elevations :: "codec \<Rightarrow> ElevationGrant list \<Rightarrow> org_store \<Rightarrow> bool \<times> org_store" where
  "save_elevations c grants st =
     (let (f, ok) = write_file (next_write st) (cd_elevations c) (os_elevations st) grants
      in (ok, st\<lparr>os_elevations := f, os_writes := os_writes st + 1\<rparr>))"

definition load_audits :: "org_store \<Rightarrow> CredentialAudit list" where
  "load_audits st = read_file (os_audits st)"

definition save_audits :: "codec \<Rightarrow> CredentialAudit list \<Rightarrow> org_store \<Rightarrow> bool \<times> org_store" where
  "save_audits c entries st =
     (let (f, ok) = write_file (next_write st) (cd_audits c) (os_audits st) entries
      in (ok, st\<lparr>os_audits := f, os_writes := os_writes st + 1\<rparr>))"

definition push_audit ::
  "codec \<Rightarrow> string \<Rightarrow> string \<Rightarrow> Capability \<Rightarrow> string \<Rightarrow> AuditOutcome \<Rightarrow> string \<Rightarrow> u64 \<Rightarrow> org_store \<Rightarrow> org_store" where
  "push_audit c role_id resource_id cap request_id oc detail at_time st =
     (let all = load_audits st in
      snd (save_audits c (all @ [\<lparr>au_seq = length all + 1, au_at = at_time, au_role_id = role_id,
        au_resource_id = resource_id, au_capability = cap, au_request_id = request_id, au_outcome = oc,
        au_detail = detail\<rparr>]) st))"

section \<open>Elevations\<close>

definition is_active_at :: "ElevationGrant \<Rightarrow> u64 \<Rightarrow> bool" where
  "is_active_at g now \<longleftrightarrow> \<not> el_consumed g \<and> now < el_expires_at g"

definition clamp_ttl :: "u64 \<Rightarrow> u64" where
  "clamp_ttl ttl_secs = (if ttl_secs < 1 then 1 else if 3600 < ttl_secs then 3600 else ttl_secs)"

definition elevation_of :: "ActionRequest \<Rightarrow> string \<Rightarrow> u64 \<Rightarrow> u64 \<Rightarrow> ElevationGrant" where
  "elevation_of req request_id ttl now =
     \<lparr>el_id = ''elev_'' @ request_id, el_role_id = ar_role_id req, el_resource_id = ar_resource_id req,
      el_capability = ar_capability req, el_request_id = request_id, el_granted_at = now,
      el_expires_at = saturating_add now ttl, el_consumed = False\<rparr>"

definition grant_jit_elevation ::
  "codec \<Rightarrow> string \<Rightarrow> u64 \<Rightarrow> u64 \<Rightarrow> org_store \<Rightarrow> (string + ElevationGrant) \<times> org_store" where
  "grant_jit_elevation c request_id ttl_secs now st =
     (case List.find (has_id request_id) (load_requests st) of
        None \<Rightarrow> (Inl (not_found request_id), st)
      | Some req \<Rightarrow>
          if ar_status req \<noteq> Approved then
            (Inl (wrong_status request_id req (''Approved '' @ em_dash @ '' cannot elevate'')),
             push_audit c (ar_role_id req) (ar_resource_id req) (ar_capability req) request_id AuditDenied
               (''elevation refused: request is '' @ show_status (ar_status req)) now st)
          else
            (let ttl = clamp_ttl ttl_secs;
                 g = elevation_of req request_id ttl now;
                 all = filter (\<lambda>e. el_id e \<noteq> el_id g) (load_elevations st) @ [g];
                 st1 = snd (save_elevations c all st);
                 st2 = push_audit c (el_role_id g) (el_resource_id g) (el_capability g) request_id AuditGranted
                   (''TTL '' @ show_u64 ttl @ ''s until '' @ show_u64 (el_expires_at g)) now st1
             in (Inr g, st2)))"

definition find_active_elevation ::
  "string \<Rightarrow> string \<Rightarrow> Capability \<Rightarrow> u64 \<Rightarrow> org_store \<Rightarrow> ElevationGrant option" where
  "find_active_elevation role_id resource_id cap now st =
     List.find (\<lambda>g. el_role_id g = role_id \<and> el_resource_id g = resource_id \<and> el_capability g = cap \<and> is_active_at g now)
       (load_elevations st)"

definition consume_jit_elevation :: "codec \<Rightarrow> string \<Rightarrow> u64 \<Rightarrow> org_store \<Rightarrow> (string + ElevationGrant) \<times> org_store" where
  "consume_jit_elevation c grant_id now st =
     (let all = load_elevations st in
      case List.find (\<lambda>g. el_id g = grant_id) all of
        None \<Rightarrow> (Inl (''elevation '' @ quoted grant_id @ '' not found''), st)
      | Some g \<Rightarrow>
          if el_consumed g then (Inl (''elevation '' @ quoted grant_id @ '' already consumed''), st)
          else if el_expires_at g \<le> now then
            (Inl (''elevation '' @ quoted grant_id @ '' expired''),
             push_audit c (el_role_id g) (el_resource_id g) (el_capability g) (el_request_id g) AuditExpired
               (''expired at '' @ show_u64 (el_expires_at g) @ '', presented at '' @ show_u64 now) now st)
          else
            (let out = g\<lparr>el_consumed := True\<rparr>;
                 st1 = snd (save_elevations c (update_first (\<lambda>g. el_id g = grant_id) (\<lambda>g. g\<lparr>el_consumed := True\<rparr>) all) st);
                 st2 = push_audit c (el_role_id out) (el_resource_id out) (el_capability out) (el_request_id out) AuditUsed
                   ''single-use elevation consumed'' now st1
             in (Inr out, st2)))"

definition credential_audit_trail :: "nat \<Rightarrow> org_store \<Rightarrow> CredentialAudit list" where
  "credential_audit_trail limit st = (let all = load_audits st in drop (length all - limit) all)"

definition capability_requires_elevation :: "Capability \<Rightarrow> bool" where
  "capability_requires_elevation cap \<longleftrightarrow> cap = Spend \<or> cap = Deploy"

definition approved_awaiting_elevation :: "u64 \<Rightarrow> org_store \<Rightarrow> ActionRequest list" where
  "approved_awaiting_elevation now st =
     filter (\<lambda>r. find_active_elevation (ar_role_id r) (ar_resource_id r) (ar_capability r) now st = None)
       (filter (\<lambda>r. capability_requires_elevation (ar_capability r))
         (filter (\<lambda>r. ar_status r = Approved) (load_requests st)))"

section \<open>The vault\<close>

datatype CredentialBlocked =
    BlockedDenied string
  | NeedsApproval "string list" nat string
  | Missing string

definition reason_line :: "CredentialBlocked \<Rightarrow> string" where
  "reason_line b = (case b of
     BlockedDenied reason \<Rightarrow> ''DENIED: '' @ reason
   | NeedsApproval approvers quorum reason \<Rightarrow>
       ''NEEDS APPROVAL (quorum '' @ show_nat quorum @ '' of ''
         @ (if approvers = [] then HUMAN_OPERATOR else join '', '' approvers) @ ''): '' @ reason
   | Missing secret_ref \<Rightarrow>
       ''MISSING: vault reference '' @ quoted secret_ref
         @ '' is not provisioned; set the environment variable to grant access'')"

record ScopedSecret =
  ss_secret :: "string option"
  ss_label :: string
  ss_resource_name :: string

definition load_secret_into_scope ::
  "(string \<Rightarrow> string option) \<Rightarrow> string \<Rightarrow> string \<Rightarrow> CredentialBlocked + ScopedSecret" where
  "load_secret_into_scope env secret_ref resource_name =
     (if secret_ref = [] then Inr \<lparr>ss_secret = None, ss_label = [], ss_resource_name = resource_name\<rparr>
      else (case env secret_ref of
              Some v \<Rightarrow> Inr \<lparr>ss_secret = Some v, ss_label = secret_ref, ss_resource_name = resource_name\<rparr>
            | None \<Rightarrow> Inl (Missing secret_ref)))"

definition resolve_credential ::
  "(string \<Rightarrow> string option) \<Rightarrow> (fp \<Rightarrow> string) \<Rightarrow> CompanyOrg \<Rightarrow> string \<Rightarrow> string \<Rightarrow> Capability \<Rightarrow> fp
     \<Rightarrow> CredentialBlocked + ScopedSecret" where
  "resolve_credential env sf org role_id resource_id cap amount =
     (case find_resource org resource_id of
        None \<Rightarrow> Inl (BlockedDenied (''unknown resource '' @ quoted resource_id))
      | Some resource \<Rightarrow>
          (case check_permission sf org role_id resource_id cap amount of
             Allowed \<Rightarrow> load_secret_into_scope env (re_secret_ref resource) (re_name resource)
           | Denied reason \<Rightarrow> Inl (BlockedDenied reason)
           | RequiresApproval _ approvers quorum reason \<Rightarrow> Inl (NeedsApproval approvers (max quorum 1) reason)))"

definition resolve_credential_for_request ::
  "(string \<Rightarrow> string option) \<Rightarrow> CompanyOrg \<Rightarrow> ActionRequest \<Rightarrow> CredentialBlocked + ScopedSecret" where
  "resolve_credential_for_request env org request =
     (if ar_status request \<noteq> Approved then
        Inl (NeedsApproval
          (if ar_required_approvers request = [] then [HUMAN_OPERATOR] else ar_required_approvers request)
          (max (ar_quorum request) 1)
          (wrong_status (ar_id request) request ''Approved''))
      else (case find_resource org (ar_resource_id request) of
              None \<Rightarrow> Inl (BlockedDenied (''unknown resource '' @ quoted (ar_resource_id request)))
            | Some resource \<Rightarrow> load_secret_into_scope env (re_secret_ref resource) (re_name resource)))"

definition unelevated_msg :: "ActionRequest \<Rightarrow> string" where
  "unelevated_msg request = ''capability '' @ quoted (cap_as_str (ar_capability request)) @ '' on ''
     @ quoted (ar_resource_id request) @ '' is elevation-gated: request '' @ quoted (ar_id request)
     @ '' is Approved but has no active JIT elevation '' @ em_dash
     @ '' mint one with grant_org_credential_elevation before executing''"

definition ensure_elevation_cleared ::
  "codec \<Rightarrow> ActionRequest \<Rightarrow> u64 \<Rightarrow> org_store \<Rightarrow> (CredentialBlocked + unit) \<times> org_store" where
  "ensure_elevation_cleared c request now st =
     (if \<not> capability_requires_elevation (ar_capability request) then (Inr (), st)
      else (case find_active_elevation (ar_role_id request) (ar_resource_id request) (ar_capability request) now st of
        None \<Rightarrow> (Inl (BlockedDenied (unelevated_msg request)), st)
      | Some grant \<Rightarrow>
          (case consume_jit_elevation c (el_id grant) now st of
             (Inl e, st1) \<Rightarrow> (Inl (BlockedDenied (''elevation '' @ quoted (el_id grant) @ '' could not be spent: '' @ e)), st1)
           | (Inr _, st1) \<Rightarrow> (Inr (), st1))))"

section \<open>Histories of elevations\<close>

datatype elev_cmd =
    QueueStep queue_cmd
  | MintCmd string u64 u64
  | ConsumeCmd string u64
  | ClearCmd ActionRequest u64

datatype elev_event = Minted string | Consumed string | Quiet

text \<open>One command: what it did to the elevations, as it reports it, and the store after it.\<close>

fun elev_exec :: "(fp \<Rightarrow> string) \<Rightarrow> codec \<Rightarrow> CompanyOrg \<Rightarrow> elev_cmd \<Rightarrow> org_store \<Rightarrow> elev_event \<times> org_store" where
  "elev_exec sf c org (QueueStep q) st = (Quiet, queue_exec sf c org q st)"
| "elev_exec sf c org (MintCmd i ttl now) st =
     (case grant_jit_elevation c i ttl now st of (Inr g, st') \<Rightarrow> (Minted (el_id g), st') | (Inl _, st') \<Rightarrow> (Quiet, st'))"
| "elev_exec sf c org (ConsumeCmd g now) st =
     (case consume_jit_elevation c g now st of (Inr e, st') \<Rightarrow> (Consumed (el_id e), st') | (Inl _, st') \<Rightarrow> (Quiet, st'))"
| "elev_exec sf c org (ClearCmd r now) st =
     (case ensure_elevation_cleared c r now st of
        (Inr _, st') \<Rightarrow>
          ((if capability_requires_elevation (ar_capability r)
            then (case find_active_elevation (ar_role_id r) (ar_resource_id r) (ar_capability r) now st of
                    Some g \<Rightarrow> Consumed (el_id g) | None \<Rightarrow> Quiet)
            else Quiet), st')
      | (Inl _, st') \<Rightarrow> (Quiet, st'))"

fun elev_trace :: "(fp \<Rightarrow> string) \<Rightarrow> codec \<Rightarrow> CompanyOrg \<Rightarrow> elev_cmd list \<Rightarrow> org_store \<Rightarrow> elev_event list \<times> org_store" where
  "elev_trace sf c org [] st = ([], st)"
| "elev_trace sf c org (cmd # cmds) st =
     (case elev_exec sf c org cmd st of (e, st1) \<Rightarrow> (case elev_trace sf c org cmds st1 of (es, st2) \<Rightarrow> (e # es, st2)))"

section \<open>What each operation leaves alone\<close>

lemma save_requests_keeps [simp]:
  "os_elevations (snd (save_requests c xs st)) = os_elevations st" "os_disk (snd (save_requests c xs st)) = os_disk st"
  "os_audits (snd (save_requests c xs st)) = os_audits st" "os_writes (snd (save_requests c xs st)) = os_writes st + 1"
  by (simp_all add: save_requests_def split: prod.splits)

lemma push_audit_keeps [simp]:
  "os_elevations (push_audit c a b d e f g h st) = os_elevations st" "os_disk (push_audit c a b d e f g h st) = os_disk st"
  "os_requests (push_audit c a b d e f g h st) = os_requests st" "os_writes (push_audit c a b d e f g h st) = os_writes st + 1"
  by (simp_all add: push_audit_def save_audits_def Let_def split: prod.splits)

lemma clock_keeps_elevations [simp]:
  "os_elevations (snd (now_secs st)) = os_elevations st" "os_elevations (snd (now_nanos st)) = os_elevations st"
  by (simp_all add: now_secs_def now_nanos_def)

lemma queue_exec_keeps [simp]:
  "os_elevations (queue_exec sf c org q st) = os_elevations st" "os_disk (queue_exec sf c org q st) = os_disk st"
  "os_writes st \<le> os_writes (queue_exec sf c org q st)"
  by (cases q; auto simp: submit_action_for_playbook_def gen_request_id_def approve_action_def reject_action_def
      mark_executed_def now_secs_def now_nanos_def Let_def split: prod.splits option.splits)+

lemma save_elevations_keeps [simp]:
  "os_disk (snd (save_elevations c xs st)) = os_disk st" "os_requests (snd (save_elevations c xs st)) = os_requests st"
  "os_writes (snd (save_elevations c xs st)) = os_writes st + 1"
  by (simp_all add: save_elevations_def split: prod.splits)

lemma load_saved_elevations:
  "cd_elevations c = Some \<Longrightarrow> load_elevations (snd (save_elevations c xs st)) =
     (case next_write st of Landed \<Rightarrow> xs | Refused \<Rightarrow> load_elevations st | Torn \<Rightarrow> [])"
  by (cases "next_write st") (simp_all add: save_elevations_def write_file_def load_elevations_def read_file_def)

section \<open>Single use\<close>

definition live :: "string \<Rightarrow> org_store \<Rightarrow> bool" where
  "live g st \<longleftrightarrow> (\<exists>e\<in>set (load_elevations st). el_id e = g \<and> \<not> el_consumed e)"

definition elev_inv :: "codec \<Rightarrow> org_store \<Rightarrow> bool" where
  "elev_inv c st \<longleftrightarrow> cd_elevations c = Some \<and> distinct (map el_id (load_elevations st))"

text \<open>The writes between two states that the disk refused.\<close>

definition refused :: "org_store \<Rightarrow> org_store \<Rightarrow> nat" where
  "refused st st' = length (filter (\<lambda>n. os_disk st n = Refused) [os_writes st..<os_writes st'])"

lemma refused_trans:
  assumes "os_disk st1 = os_disk st" "os_writes st \<le> os_writes st1" "os_writes st1 \<le> os_writes st2"
  shows "refused st st2 = refused st st1 + refused st1 st2"
proof -
  have "[os_writes st..<os_writes st2] = [os_writes st..<os_writes st1] @ [os_writes st1..<os_writes st2]"
    using upt_add_eq_append [OF assms(2), of "os_writes st2 - os_writes st1"] assms(3) by simp
  then show ?thesis by (simp add: refused_def assms(1))
qed

lemma refused_next: "next_write st = Refused \<Longrightarrow> os_writes st < os_writes st' \<Longrightarrow> 0 < refused st st'"
  by (auto simp: refused_def next_write_def upt_conv_Cons)

lemma load_elevations_keeps [simp]:
  "load_elevations (push_audit c a b d e f g h st) = load_elevations st"
  "load_elevations (queue_exec sf c org q st) = load_elevations st"
  by (simp_all add: load_elevations_def)

text \<open>What a step leaves of the store: the disk, and at least as many writes.\<close>

definition later :: "org_store \<Rightarrow> org_store \<Rightarrow> bool" where
  "later st st' \<longleftrightarrow> os_disk st' = os_disk st \<and> os_writes st \<le> os_writes st'"

lemma grant_step:
  assumes "elev_inv c st" and "grant_jit_elevation c i ttl now st = (r, st')"
  shows "elev_inv c st' \<and> later st st' \<and> (case r of Inr e \<Rightarrow> live g st' \<longrightarrow> live g st \<or> el_id e = g | Inl _ \<Rightarrow> live g st' = live g st)"
proof (cases r)
  case (Inl x)
  then have "load_elevations st' = load_elevations st \<and> later st st'" using assms(2)
    by (auto simp: grant_jit_elevation_def later_def Let_def split: option.splits if_splits)
  with assms(1) Inl show ?thesis by (simp add: elev_inv_def live_def)
next
  case (Inr e)
  then have "load_elevations st' = (case next_write st of Landed \<Rightarrow> filter (\<lambda>x. el_id x \<noteq> el_id e) (load_elevations st) @ [e]
      | Refused \<Rightarrow> load_elevations st | Torn \<Rightarrow> [])" "later st st'"
    using assms load_saved_elevations [of c]
    by (auto simp: grant_jit_elevation_def elev_inv_def later_def Let_def split: option.splits if_splits)
  with assms(1) Inr show ?thesis
    by (cases "next_write st") (auto simp: elev_inv_def live_def distinct_map_filter)
qed

lemma consume_step:
  assumes "elev_inv c st" and "consume_jit_elevation c i now st = (r, st')"
  shows "elev_inv c st' \<and> later st st' \<and> (case r of
      Inr e \<Rightarrow> el_id e = i \<and> live i st \<and> (live i st' \<longrightarrow> 0 < refused st st') \<and> (live g st' \<longrightarrow> live g st)
    | Inl _ \<Rightarrow> live g st' = live g st)"
proof (cases r)
  case (Inl x)
  then have "load_elevations st' = load_elevations st \<and> later st st'" using assms(2)
    by (auto simp: consume_jit_elevation_def later_def Let_def split: option.splits if_splits)
  with assms(1) Inl show ?thesis by (simp add: elev_inv_def live_def)
next
  case (Inr e)
  let ?f = "\<lambda>g. g\<lparr>el_consumed := True\<rparr>" and ?P = "\<lambda>g. el_id g = i"
  have codec: "cd_elevations c = Some" using assms(1) by (simp add: elev_inv_def)
  obtain x where x: "List.find ?P (load_elevations st) = Some x" "\<not> el_consumed x" "e = ?f x"
    and st': "load_elevations st' = (case next_write st of Landed \<Rightarrow> update_first ?P ?f (load_elevations st)
      | Refused \<Rightarrow> load_elevations st | Torn \<Rightarrow> [])" "later st st'" "os_writes st < os_writes st'"
    using Inr assms(2) load_saved_elevations [OF codec]
    by (cases "List.find (\<lambda>g. el_id g = i) (load_elevations st)")
      (auto simp: consume_jit_elevation_def later_def Let_def split: if_splits)
  have ids: "map el_id (update_first ?P ?f xs) = map el_id xs" for xs :: "ElevationGrant list" by (rule map_update_first) simp
  have dead: "distinct (map el_id xs) \<Longrightarrow> y \<in> set (update_first ?P ?f xs) \<Longrightarrow> el_id y = i \<Longrightarrow> el_consumed y" for xs and y :: ElevationGrant
    using update_first_unique [of el_id xs y i ?f] by auto
  have old: "y \<in> set (update_first ?P ?f xs) \<Longrightarrow> \<not> el_consumed y \<Longrightarrow> y \<in> set xs" for xs and y :: ElevationGrant
    by (induction xs) (auto split: if_splits)
  have d: "distinct (map el_id (load_elevations st))" using assms(1) by (simp add: elev_inv_def)
  have found: "x \<in> set (load_elevations st)" "el_id x = i" using x(1) find_Some_mem by fastforce+
  with x(2) have "live i st" by (auto simp: live_def)
  moreover have "elev_inv c st'" using st'(1) d codec ids by (cases "next_write st") (simp_all add: elev_inv_def)
  moreover have "live i st' \<longrightarrow> 0 < refused st st'"
  proof (cases "next_write st")
    case Refused
    with refused_next [OF _ st'(3)] show ?thesis by simp
  next
    case Landed
    with st'(1) dead [OF d] show ?thesis by (auto simp: live_def)
  next
    case Torn
    with st'(1) show ?thesis by (simp add: live_def)
  qed
  moreover have "live g st' \<longrightarrow> live g st"
    using st'(1) old [of _ "load_elevations st"] by (cases "next_write st") (auto simp: live_def)
  ultimately show ?thesis using Inr x(3) found st'(2) by simp
qed

lemma elev_exec_step:
  assumes "elev_inv c st" and "elev_exec sf c org cmd st = (e, st')"
  shows "elev_inv c st' \<and> later st st' \<and> (e = Consumed g \<longrightarrow> live g st \<and> (live g st' \<longrightarrow> 0 < refused st st'))
    \<and> (live g st' \<longrightarrow> live g st \<or> e = Minted g)"
proof (cases cmd)
  case (QueueStep q)
  with assms show ?thesis by (auto simp: elev_inv_def live_def later_def)
next
  case (MintCmd i ttl now)
  with assms grant_step [OF assms(1), of i ttl now _ _ g] show ?thesis
    by (fastforce split: prod.splits sum.splits)
next
  case (ConsumeCmd i now)
  with assms consume_step [OF assms(1), of i now _ _ g] show ?thesis
    by (fastforce split: prod.splits sum.splits)
next
  case (ClearCmd r now)
  have same: "later st st" by (simp add: later_def)
  show ?thesis
  proof (cases "capability_requires_elevation (ar_capability r)")
    case True
    show ?thesis
    proof (cases "find_active_elevation (ar_role_id r) (ar_resource_id r) (ar_capability r) now st")
      case None
      with True ClearCmd assms same show ?thesis by (simp add: ensure_elevation_cleared_def)
    next
      case (Some x)
      obtain y st1 where "consume_jit_elevation c (el_id x) now st = (y, st1)" by (metis surj_pair)
      note step = consume_step [OF assms(1) this, of g]
      have "e = (case y of Inr _ \<Rightarrow> Consumed (el_id x) | Inl _ \<Rightarrow> Quiet) \<and> st' = st1"
        using True Some ClearCmd assms(2) \<open>consume_jit_elevation c (el_id x) now st = (y, st1)\<close>
        by (cases y) (simp_all add: ensure_elevation_cleared_def)
      with step show ?thesis by (cases y) auto
    qed
  next
    case False
    with ClearCmd assms same show ?thesis by (simp add: ensure_elevation_cleared_def)
  qed
qed

lemma elev_trace_later:
  "elev_inv c st \<Longrightarrow> elev_trace sf c org cmds st = (es, st') \<Longrightarrow> later st st'"
proof (induction cmds arbitrary: st es)
  case (Cons cmd cmds)
  obtain e st1 where e: "elev_exec sf c org cmd st = (e, st1)" by (metis surj_pair)
  obtain es' where es: "elev_trace sf c org cmds st1 = (es', st')" using Cons.prems(2) e by (auto split: prod.splits)
  have step: "elev_inv c st1" "later st st1" using elev_exec_step [OF Cons.prems(1) e, of "[]"] by blast+
  from Cons.IH [OF step(1) es] step(2) show ?case by (simp add: later_def)
qed (simp add: later_def)

lemma elev_trace_counts:
  assumes "elev_inv c st" and "elev_trace sf c org cmds st = (es, st')"
  shows "count_list es (Consumed g) + (if live g st' then 1 else 0)
    \<le> count_list es (Minted g) + (if live g st then 1 else 0) + refused st st'"
  using assms
proof (induction cmds arbitrary: st es)
  case (Cons cmd cmds)
  obtain e st1 where e: "elev_exec sf c org cmd st = (e, st1)" by (metis surj_pair)
  obtain es' where es: "elev_trace sf c org cmds st1 = (es', st')" "es = e # es'"
    using Cons.prems(2) e by (auto split: prod.splits)
  note step = elev_exec_step [OF Cons.prems(1) e, of g]
  have inv: "elev_inv c st1" using step by blast
  have sum: "refused st st' = refused st st1 + refused st1 st'"
    using refused_trans [of st1 st st'] step elev_trace_later [OF inv es(1)] by (simp add: later_def)
  from Cons.IH [OF inv es(1)] step es(2) sum
  show ?case by (cases "live g st1"; cases "live g st"; cases "e = Consumed g"; cases "e = Minted g") simp_all
qed simp

section \<open>Properties\<close>

text \<open>
  C36. An elevation is single use up to refused writes: in every history of submissions, approvals,
  mints, consumptions and gated executions, with writes that land, are refused or leave a file that
  cannot be read, the consumptions of an elevation never outnumber the times it was minted by more
  than the writes that the disk refused; on a disk that refuses none, one mint is consumed at most
  once.  The allowance is needed: the code does not check the write of the consumed mark
  (\<open>refused_write_keeps_elevation\<close>).
\<close>

theorem elevation_single_use:
  assumes "cd_elevations c = Some" and "os_elevations st = None"
  shows "let (events, st') = elev_trace sf c org cmds st in
    count_list events (Consumed g) \<le> count_list events (Minted g)
      + length (filter (\<lambda>n. os_disk st n = Refused) [os_writes st..<os_writes st'])"
proof -
  have "elev_inv c st" using assms by (simp add: elev_inv_def load_elevations_def read_file_def)
  moreover have "\<not> live g st" using assms(2) by (simp add: live_def load_elevations_def read_file_def)
  ultimately show ?thesis
    using elev_trace_counts [of c st sf org cmds "fst (elev_trace sf c org cmds st)" "snd (elev_trace sf c org cmds st)" g]
    by (simp add: refused_def split_beta)
qed

text \<open>A history in which the minted elevation is presented twice.\<close>

definition demo_elevations :: "elev_cmd list" where
  "demo_elevations = map QueueStep demo_history @ [MintCmd ''req_org_1_161'' 60 100,
     ConsumeCmd ''elev_req_org_1_161'' 110, ConsumeCmd ''elev_req_org_1_161'' 120]"

theorem elevation_single_use_witness:
  "fst (elev_trace (\<lambda>_. []) demo_codec demo_org demo_elevations demo_store_org) =
     [Quiet, Quiet, Minted ''elev_req_org_1_161'', Consumed ''elev_req_org_1_161'', Quiet]
   \<and> count_list (fst (elev_trace (\<lambda>_. []) demo_codec demo_org demo_elevations demo_store_org)) (Consumed ''elev_req_org_1_161'')
     \<le> count_list (fst (elev_trace (\<lambda>_. []) demo_codec demo_org demo_elevations demo_store_org)) (Minted ''elev_req_org_1_161'')"
proof
  show "fst (elev_trace (\<lambda>_. []) demo_codec demo_org demo_elevations demo_store_org) =
     [Quiet, Quiet, Minted ''elev_req_org_1_161'', Consumed ''elev_req_org_1_161'', Quiet]" by code_simp
  have "cd_elevations demo_codec = Some" "os_elevations demo_store_org = None" "os_disk demo_store_org = (\<lambda>_. Landed)"
    by (simp_all add: demo_codec_def empty_store_def)
  with elevation_single_use [of demo_codec demo_store_org "\<lambda>_. []" demo_org demo_elevations "''elev_req_org_1_161''"]
  show "count_list (fst (elev_trace (\<lambda>_. []) demo_codec demo_org demo_elevations demo_store_org)) (Consumed ''elev_req_org_1_161'')
     \<le> count_list (fst (elev_trace (\<lambda>_. []) demo_codec demo_org demo_elevations demo_store_org)) (Minted ''elev_req_org_1_161'')"
    by (simp add: split_beta)
qed

lemma clamp_ttl_bounds: "unat (clamp_ttl t) \<le> 3600"
  by (auto simp: clamp_ttl_def word_less_nat_alt not_less)

text \<open>
  An elevation is narrow: it is minted only from an approved request, with the role, resource
  and capability of that request, it is not consumed, and it is inactive from one hour after the
  mint on, whatever time to live was asked for and also where the clock would overflow.
\<close>

theorem elevation_window_bounded:
  assumes "grant_jit_elevation c i ttl now st = (Inr g, st')"
  shows "(\<exists>r\<in>set (load_requests st). ar_id r = i \<and> ar_status r = Approved
      \<and> el_role_id g = ar_role_id r \<and> el_resource_id g = ar_resource_id r \<and> el_capability g = ar_capability r)
    \<and> now \<le> el_expires_at g \<and> (\<forall>t. unat now + 3600 \<le> unat t \<longrightarrow> \<not> is_active_at g t)"
proof -
  obtain r where r: "List.find (has_id i) (load_requests st) = Some r" "ar_status r = Approved" "g = elevation_of r i (clamp_ttl ttl) now"
    using assms by (auto simp: grant_jit_elevation_def Let_def split: option.splits if_splits)
  from find_Some_mem [OF r(1)] have "r \<in> set (load_requests st)" "ar_id r = i" by (auto simp: has_id_def)
  moreover have "unat (el_expires_at g) \<le> unat now + 3600" "now \<le> el_expires_at g"
    using saturating_add_bounds [of now "clamp_ttl ttl"] clamp_ttl_bounds [of ttl] by (auto simp: r(3) elevation_of_def)
  ultimately show ?thesis using r(2) by (auto simp: r(3) elevation_of_def is_active_at_def word_less_nat_alt)
qed

theorem elevation_window_bounded_witness:
  "\<not> is_active_at (hd (load_elevations (snd (elev_trace (\<lambda>_. []) demo_codec demo_org (butlast (butlast demo_elevations)) demo_store_org)))) 3700"
proof -
  let ?st = "snd (elev_trace (\<lambda>_. []) demo_codec demo_org (map QueueStep demo_history) demo_store_org)"
  let ?m = "grant_jit_elevation demo_codec ''req_org_1_161'' 60 100 ?st"
  let ?e = "hd (load_elevations (snd (elev_trace (\<lambda>_. []) demo_codec demo_org (butlast (butlast demo_elevations)) demo_store_org)))"
  have "fst ?m = Inr ?e" by code_simp
  then have "?m = (Inr ?e, snd ?m)" by (metis prod.collapse)
  from elevation_window_bounded [OF this] show ?thesis by simp
qed

text \<open>
  The write of the consumed mark is not checked: when it is refused, the elevation stays
  spendable although its use was reported.
\<close>

lemma refused_write_keeps_elevation:
  assumes "List.find (\<lambda>g. el_id g = i) (load_elevations st) = Some g" and "is_active_at g now" and "next_write st = Refused"
  shows "fst (consume_jit_elevation c i now st) = Inr (g\<lparr>el_consumed := True\<rparr>)
    \<and> load_elevations (snd (consume_jit_elevation c i now st)) = load_elevations st"
  using assms by (simp add: consume_jit_elevation_def is_active_at_def not_le save_elevations_def write_file_def
      load_elevations_def push_audit_def save_audits_def Let_def split: prod.splits)

text \<open>Presenting a consumed elevation leaves no line in the audit ledger.\<close>

lemma spent_elevation_unaudited:
  "List.find (\<lambda>g. el_id g = i) (load_elevations st) = Some g \<Longrightarrow> el_consumed g \<Longrightarrow> snd (consume_jit_elevation c i now st) = st"
  by (simp add: consume_jit_elevation_def Let_def)

end
