(* ===== verification/Playbooks.thy ===== *)
theory Playbooks
  imports Elevation
begin

text \<open>
  Playbooks of the organisation (\<open>velocity-mcp/src/editor/company_org.rs\<close>): running one
  through the approval gate, resuming it after approval, the ledger of halted runs, the handoff
  from one playbook to the next and the recurring schedules.  The workflow engine acts on the
  workspace store; the tools it calls are the fields of its environment.
\<close>

section \<open>References of the steps\<close>

fun collect_refs :: "nat \<Rightarrow> WorkflowStep list \<Rightarrow> string \<Rightarrow> (string \<times> string \<times> string) list" where
  "collect_refs i [] base = []"
| "collect_refs i (s # steps) base =
     (let loc = (if base = [] then show_nat i else base @ ''['' @ show_nat i @ '']'') in
      (case s of
         ToolStep name _ \<Rightarrow> [(''tool'', loc, name)]
       | Connector cid _ \<Rightarrow> [(''connector'', loc, cid)]
       | ForEach _ _ body \<Rightarrow> collect_refs 0 body (loc @ ''>foreach'')
       | _ \<Rightarrow> []) @ collect_refs (i + 1) steps base)"

text \<open>\<open>connectors\<close> is \<open>None\<close> when no workspace root is given.\<close>

fun check_refs :: "string set \<Rightarrow> string set option \<Rightarrow> string \<Rightarrow> string \<Rightarrow> (string \<times> string \<times> string) list \<Rightarrow> string + unit" where
  "check_refs tools connectors kind i [] = Inr ()"
| "check_refs tools connectors kind i ((ns, loc, name) # refs) =
     (let unknown = (\<lambda>lab. Inl (kind @ '' '' @ quoted i @ '': unknown '' @ lab @ '' '' @ quoted name @ '' at step '' @ loc)) in
      if ns = ''tool'' then (if name \<in> tools then check_refs tools connectors kind i refs else unknown ''tool'')
      else (case connectors of
              None \<Rightarrow> check_refs tools connectors kind i refs
            | Some cs \<Rightarrow> if name \<in> cs then check_refs tools connectors kind i refs else unknown ''connector''))"

definition validate_step_references ::
  "string set \<Rightarrow> string set option \<Rightarrow> string \<Rightarrow> string \<Rightarrow> WorkflowStep list \<Rightarrow> string + unit" where
  "validate_step_references tools connectors kind i steps = check_refs tools connectors kind i (collect_refs 0 steps [])"

definition validate_playbook_tool_names :: "string set \<Rightarrow> Playbook \<Rightarrow> string + unit" where
  "validate_playbook_tool_names tools pb = validate_step_references tools None ''playbook'' (pb_id pb) (pb_steps pb)"

section \<open>The ledger of halted runs\<close>

definition load_verdicts :: "org_store \<Rightarrow> PlaybookVerdict list" where
  "load_verdicts st = read_file (os_verdicts st)"

definition save_verdicts :: "codec \<Rightarrow> PlaybookVerdict list \<Rightarrow> org_store \<Rightarrow> bool \<times> org_store" where
  "save_verdicts c entries st =
     (let (f, ok) = write_file (next_write st) (cd_verdicts c) (os_verdicts st) entries
      in (ok, st\<lparr>os_verdicts := f, os_writes := os_writes st + 1\<rparr>))"

text \<open>The step that stopped a run, its label and the recorded detail; \<open>None\<close> when no step failed.\<close>

definition halt_of :: "WorkflowRun \<Rightarrow> (nat \<times> string \<times> string) option" where
  "halt_of run =
     (case List.find (\<lambda>s. sr_outcome s = StepFailed \<and> starts_with (sr_kind s) ''condition'') (wr_steps run) of
        Some h \<Rightarrow> Some (sr_index h, ''halted'', sr_output h)
      | None \<Rightarrow>
          (case List.find (\<lambda>s. sr_outcome s = StepFailed) (wr_steps run) of
             None \<Rightarrow> None
           | Some f \<Rightarrow> Some (sr_index f, ''failed'',
               ''step '' @ quoted (sr_kind f) @ '' failed (output withheld, secret-free ledger)'')))"

text \<open>
  \<open>run.steps[step]\<close> panics out of range: the outer \<open>None\<close> is a panic, the inner one an
  unrecorded run.
\<close>

definition record_playbook_run_verdict ::
  "codec \<Rightarrow> string \<Rightarrow> string \<Rightarrow> WorkflowRun \<Rightarrow> org_store \<Rightarrow> (PlaybookVerdict option \<times> org_store) option" where
  "record_playbook_run_verdict c playbook_id request_id run st =
     (if wr_status run = RunSuccess then Some (None, st)
      else (case halt_of run of
        None \<Rightarrow> Some (None, st)
      | Some (step, oc, detail) \<Rightarrow>
          if step < length (wr_steps run) then
            (let all = load_verdicts st;
                 (now, st1) = now_secs st;
                 entry = \<lparr>vd_seq = length all + 1, vd_at = now, vd_playbook_id = playbook_id, vd_request_id = request_id,
                   vd_outcome = oc, vd_step_index = step, vd_step_kind = sr_kind (wr_steps run ! step), vd_detail = detail\<rparr>
             in Some (Some entry, snd (save_verdicts c (all @ [entry]) st1)))
          else None))"

definition playbook_verdict_trail :: "nat \<Rightarrow> org_store \<Rightarrow> PlaybookVerdict list" where
  "playbook_verdict_trail limit st = (let all = load_verdicts st in drop (length all - limit) all)"

section \<open>The ledger of handoffs\<close>

definition MAX_SOP_CHAIN_DEPTH :: nat where
  "MAX_SOP_CHAIN_DEPTH = 8"

definition load_handoffs :: "org_store \<Rightarrow> SopHandoff list" where
  "load_handoffs st = read_file (os_handoffs st)"

definition save_handoffs :: "codec \<Rightarrow> SopHandoff list \<Rightarrow> org_store \<Rightarrow> bool \<times> org_store" where
  "save_handoffs c entries st =
     (let (f, ok) = write_file (next_write st) (cd_handoffs c) (os_handoffs st) entries
      in (ok, st\<lparr>os_handoffs := f, os_writes := os_writes st + 1\<rparr>))"

definition record_handoff ::
  "codec \<Rightarrow> string \<Rightarrow> string \<Rightarrow> string \<Rightarrow> string \<Rightarrow> string \<Rightarrow> nat \<Rightarrow> org_store \<Rightarrow> SopHandoff \<times> org_store" where
  "record_handoff c from_pb to_pb source_request spawned_request oc depth st =
     (let all = load_handoffs st;
          (now, st1) = now_secs st;
          entry = \<lparr>ho_seq = length all + 1, ho_at = now, ho_from_playbook = from_pb, ho_to_playbook = to_pb,
            ho_source_request_id = source_request, ho_spawned_request_id = spawned_request, ho_outcome = oc, ho_chain_depth = depth\<rparr>
      in (entry, snd (save_handoffs c (all @ [entry]) st1)))"

definition sop_handoff_trail :: "nat \<Rightarrow> org_store \<Rightarrow> SopHandoff list" where
  "sop_handoff_trail limit st = (let all = load_handoffs st in drop (length all - limit) all)"

section \<open>Running playbooks\<close>

datatype PlaybookOutcome =
    is_ExecutedRun: ExecutedRun (po_request: string) (po_run_status: string) (po_ok_steps: nat) (po_total_steps: nat) (po_handoff: "string option")
  | AwaitingApproval string "string list" nat
  | DeniedRun string

definition sop_run_digest :: "PlaybookOutcome \<Rightarrow> string" where
  "sop_run_digest oc = (case oc of
     ExecutedRun _ status ok_steps total_steps _ \<Rightarrow> status @ '' ('' @ show_nat ok_steps @ ''/'' @ show_nat total_steps @ '' steps ok)''
   | AwaitingApproval _ approvers quorum \<Rightarrow>
       ''queued for approval '' @ em_dash @ '' needs '' @ show_nat quorum @ '' from ['' @ join '', '' approvers @ '']''
   | DeniedRun reason \<Rightarrow> ''denied ('' @ reason @ '')'')"

definition arrow :: string where
  "arrow = [CHR 0xE2, CHR 0x86, CHR 0x92]"

definition chain_pad :: "nat \<Rightarrow> string" where
  "chain_pad depth = concat (replicate (depth + 1) ''  '')"

definition depth_line :: "nat \<Rightarrow> string \<Rightarrow> SopHandoff \<Rightarrow> string" where
  "depth_line depth to_id hop = chain_pad depth @ arrow @ '' '' @ quoted to_id @ '' NOT queued: chain depth ''
     @ show_nat (ho_chain_depth hop) @ '' exceeded (hop #'' @ show_nat (ho_seq hop) @ ''). Break the cycle with chain_org_playbooks.''"

definition dangling_line :: "nat \<Rightarrow> string \<Rightarrow> string" where
  "dangling_line depth to_id =
     chain_pad depth @ arrow @ '' '' @ quoted to_id @ '' NOT queued: no such playbook (dangling handoff)''"

definition ran_line :: "nat \<Rightarrow> Playbook \<Rightarrow> ActionRequest \<Rightarrow> PlaybookOutcome \<Rightarrow> string" where
  "ran_line depth pb req nested =
     chain_pad depth @ arrow @ '' '' @ quoted (pb_id pb) @ '' ran (req='' @ ar_id req @ ''): '' @ sop_run_digest nested
     @ (case nested of ExecutedRun _ _ _ _ (Some deeper) \<Rightarrow> CHR 0x0A # deeper | _ \<Rightarrow> [])"

definition queued_line :: "nat \<Rightarrow> Playbook \<Rightarrow> ActionRequest \<Rightarrow> string" where
  "queued_line depth pb req =
     chain_pad depth @ arrow @ '' '' @ quoted (pb_id pb) @ '' queued, steps did NOT run: awaiting ''
     @ show_nat (max (ar_quorum req) 1) @ '' approval(s) from [''
     @ join '', '' (if ar_required_approvers req = [] then [HUMAN_OPERATOR] else ar_required_approvers req)
     @ ''] (req='' @ ar_id req @ '')''"

definition blocked_line :: "nat \<Rightarrow> Playbook \<Rightarrow> ActionRequest \<Rightarrow> string" where
  "blocked_line depth pb req =
     chain_pad depth @ arrow @ '' '' @ quoted (pb_id pb) @ '' blocked by policy: '' @ ar_decision_reason req"

text \<open>What stays fixed while a chain runs.\<close>

record sop_env =
  se_engine :: "org_store wf_env"
  se_show :: "fp \<Rightarrow> string"
  se_codec :: codec
  se_org :: CompanyOrg

definition submit_playbook :: "sop_env \<Rightarrow> Playbook \<Rightarrow> string \<Rightarrow> org_store \<Rightarrow> ActionRequest \<times> org_store" where
  "submit_playbook e pb desc st =
     submit_action_for_playbook (se_show e) (se_codec e) (se_org e) (pb_role_id pb) (pb_resource_id pb)
       (pb_capability pb) (pb_amount pb) desc (Some (pb_id pb)) st"

definition run_steps :: "sop_env \<Rightarrow> Playbook \<Rightarrow> string \<Rightarrow> org_store \<Rightarrow> WorkflowRun \<times> org_store" where
  "run_steps e pb request_id st =
     execute_with_context (se_engine e) \<lparr>wf_id = pb_id pb, wf_name = pb_name pb, wf_steps = pb_steps pb\<rparr>
       (JObj [(''requestId'', JStr request_id)]) st"

text \<open>\<open>None\<close> is the panic of \<open>record_playbook_run_verdict\<close>.\<close>

function run_playbook_steps :: "sop_env \<Rightarrow> Playbook \<Rightarrow> string \<Rightarrow> nat \<Rightarrow> org_store \<Rightarrow> (PlaybookOutcome \<times> org_store) option"
and fire_sop_handoff :: "sop_env \<Rightarrow> Playbook \<Rightarrow> string \<Rightarrow> nat \<Rightarrow> org_store \<Rightarrow> (string option \<times> org_store) option" where
  "run_playbook_steps e pb request_id depth st =
     (case run_steps e pb request_id st of (run, st1) \<Rightarrow>
      (case record_playbook_run_verdict (se_codec e) (pb_id pb) request_id run st1 of
         None \<Rightarrow> None
       | Some (_, st2) \<Rightarrow>
           (let st3 = snd (mark_executed (se_codec e) request_id st2) in
            case (if wr_status run = RunSuccess then fire_sop_handoff e pb request_id depth st3 else Some (None, st3)) of
              None \<Rightarrow> None
            | Some (handoff, st4) \<Rightarrow>
                Some (ExecutedRun request_id (status_label (wr_status run)) (ok_count run) (length (wr_steps run)) handoff, st4))))"
| "fire_sop_handoff e pb source_request depth st =
     (case pb_on_success_handoff pb of
        None \<Rightarrow> Some (None, st)
      | Some to_id \<Rightarrow>
          if MAX_SOP_CHAIN_DEPTH \<le> depth then
            (case record_handoff (se_codec e) (pb_id pb) to_id source_request [] ''depth-limit'' depth st of
               (hop, st1) \<Rightarrow> Some (Some (depth_line depth to_id hop), st1))
          else
            (case List.find (\<lambda>p. pb_id p = to_id) (og_playbooks (se_org e)) of
               None \<Rightarrow>
                 (case record_handoff (se_codec e) (pb_id pb) to_id source_request [] ''not-found'' depth st of
                    (_, st1) \<Rightarrow> Some (Some (dangling_line depth to_id), st1))
             | Some nxt \<Rightarrow>
                 (case submit_playbook e nxt (''SOP handoff '' @ quoted (pb_id pb) @ '' '' @ arrow @ '' '' @ quoted (pb_id nxt)) st of
                    (req, st1) \<Rightarrow>
                      (case ar_status req of
                         Approved \<Rightarrow>
                           (let st2 = snd (record_handoff (se_codec e) (pb_id pb) to_id source_request (ar_id req) ''ran'' depth st1) in
                            case run_playbook_steps e nxt (ar_id req) (depth + 1) st2 of
                              None \<Rightarrow> None
                            | Some (nested, st3) \<Rightarrow> Some (Some (ran_line depth nxt req nested), st3))
                       | Pending \<Rightarrow>
                           (let st2 = snd (record_handoff (se_codec e) (pb_id pb) to_id source_request (ar_id req) ''awaiting-approval'' depth st1)
                            in Some (Some (queued_line depth nxt req), st2))
                       | _ \<Rightarrow>
                           (let st2 = snd (record_handoff (se_codec e) (pb_id pb) to_id source_request (ar_id req) ''denied'' depth st1)
                            in Some (Some (blocked_line depth nxt req), st2))))))"
  by pat_completeness auto
termination
  by (relation "measure (\<lambda>x. case x of Inl (e, pb, i, depth, st) \<Rightarrow> 2 * (9 - depth) + 1
      | Inr (e, pb, i, depth, st) \<Rightarrow> 2 * (9 - depth))") (auto simp: MAX_SOP_CHAIN_DEPTH_def)

declare run_playbook_steps.simps [simp del] fire_sop_handoff.simps [simp del]

section \<open>Entry points\<close>

definition find_playbook :: "CompanyOrg \<Rightarrow> string \<Rightarrow> Playbook option" where
  "find_playbook org i = List.find (\<lambda>p. pb_id p = i) (og_playbooks org)"

text \<open>\<open>refs\<close> are the registered tools and the configured connectors.\<close>

definition run_playbook ::
  "string set \<times> string set \<Rightarrow> sop_env \<Rightarrow> string \<Rightarrow> org_store \<Rightarrow> ((string + PlaybookOutcome) \<times> org_store) option" where
  "run_playbook refs e playbook_id st =
     (case find_playbook (se_org e) playbook_id of
        None \<Rightarrow> Some (Inl (''playbook '' @ quoted playbook_id @ '' not found''), st)
      | Some pb \<Rightarrow>
          (case validate_step_references (fst refs) (Some (snd refs)) ''playbook'' playbook_id (pb_steps pb) of
             Inl err \<Rightarrow> Some (Inl err, st)
           | Inr _ \<Rightarrow>
               (case submit_playbook e pb (pb_description pb) st of
                  (req, st1) \<Rightarrow>
                    (case ar_status req of
                       Approved \<Rightarrow> map_option (\<lambda>(oc, st2). (Inr oc, st2)) (run_playbook_steps e pb (ar_id req) 0 st1)
                     | Pending \<Rightarrow> Some (Inr (AwaitingApproval (ar_id req) (ar_required_approvers req) (max (ar_quorum req) 1)), st1)
                     | _ \<Rightarrow> Some (Inr (DeniedRun (ar_decision_reason req)), st1)))))"

definition playbook_for_request :: "CompanyOrg \<Rightarrow> ActionRequest \<Rightarrow> Playbook option" where
  "playbook_for_request org req =
     (case ar_playbook_id req of
        Some i \<Rightarrow> find_playbook org i
      | None \<Rightarrow> List.find (\<lambda>p. pb_role_id p = ar_role_id req \<and> pb_resource_id p = ar_resource_id req
          \<and> pb_capability p = ar_capability req) (og_playbooks org))"

definition no_playbook_msg :: "string \<Rightarrow> ActionRequest \<Rightarrow> string" where
  "no_playbook_msg request_id req =
     (case ar_playbook_id req of
        Some i \<Rightarrow> ''request '' @ quoted request_id @ '' names playbook '' @ quoted i @ '', which no longer exists''
      | None \<Rightarrow> ''no playbook matches request '' @ quoted request_id @ '' ('' @ ar_role_id req @ '' -['' @ cap_as_str (ar_capability req)
          @ ''] -> '' @ ar_resource_id req @ '')'')"

definition resume_playbook_after_approval ::
  "sop_env \<Rightarrow> string \<Rightarrow> org_store \<Rightarrow> ((string + PlaybookOutcome) \<times> org_store) option" where
  "resume_playbook_after_approval e request_id st =
     (case List.find (has_id request_id) (load_requests st) of
        None \<Rightarrow> Some (Inl (not_found request_id), st)
      | Some req \<Rightarrow>
          (case playbook_for_request (se_org e) req of
             None \<Rightarrow> Some (Inl (no_playbook_msg request_id req), st)
           | Some pb \<Rightarrow>
               (case ar_status req of
                  Approved \<Rightarrow> map_option (\<lambda>(oc, st2). (Inr oc, st2)) (run_playbook_steps e pb (ar_id req) 0 st)
                | Pending \<Rightarrow> Some (Inr (AwaitingApproval (ar_id req)
                    (if ar_required_approvers req = [] then [HUMAN_OPERATOR] else ar_required_approvers req)
                    (max (ar_quorum req) 1)), st)
                | _ \<Rightarrow> Some (Inr (DeniedRun (ar_decision_reason req)), st))))"

definition chain_trail :: "PlaybookOutcome \<Rightarrow> string" where
  "chain_trail oc = (case oc of ExecutedRun _ _ _ _ (Some trail) \<Rightarrow> CHR 0x0A # ''Chain:'' @ CHR 0x0A # trail | _ \<Rightarrow> [])"

definition approve_and_resume ::
  "sop_env \<Rightarrow> string \<Rightarrow> string \<Rightarrow> org_store \<Rightarrow> ((string + string) \<times> org_store) option" where
  "approve_and_resume e request_id approver_id st =
     (case approve_action (se_codec e) (se_org e) request_id approver_id st of
        (Inl err, st1) \<Rightarrow> Some (Inl err, st1)
      | (Inr req, st1) \<Rightarrow>
          if ar_status req \<noteq> Approved then
            (let needed = max (ar_quorum req) 1;
                 missing = filter (\<lambda>w. w \<notin> set (ar_approvals req)) (ar_required_approvers req)
             in Some (Inr (quoted request_id @ '' signed by '' @ approver_id @ '' ('' @ show_nat (length (ar_approvals req)) @ '' of ''
                  @ show_nat needed @ ''). Still waiting for ['' @ join '', '' missing @ ''] '' @ em_dash @ '' nothing ran.''), st1))
          else (case ar_playbook_id req of
            None \<Rightarrow> Some (Inr (quoted request_id @ '' approved by '' @ approver_id
              @ '' (quorum reached). It was not raised by a playbook, so there are no stored steps to run.''), st1)
          | Some target \<Rightarrow>
              if playbook_for_request (se_org e) req = None then
                Some (Inr (quoted request_id @ '' approved by '' @ approver_id @ '', but playbook '' @ quoted target
                  @ '' no longer exists '' @ em_dash @ '' the steps it was waiting on are gone.''), st1)
              else (case resume_playbook_after_approval e request_id st1 of
                None \<Rightarrow> None
              | Some (Inl err, st2) \<Rightarrow> Some (Inl err, st2)
              | Some (Inr oc, st2) \<Rightarrow>
                  Some (Inr (quoted request_id @ '' approved by '' @ approver_id @ '' (quorum reached). Ran '' @ quoted target
                    @ '': '' @ sop_run_digest oc @ chain_trail oc), st2))))"

definition minted_line :: "ElevationGrant \<Rightarrow> string" where
  "minted_line g = ''Minted elevation '' @ quoted (el_id g) @ '' for '' @ el_role_id g @ '' -['' @ cap_as_str (el_capability g)
     @ '']-> '' @ el_resource_id g @ '' (single-use, active until t='' @ show_u64 (el_expires_at g) @ '').'' @ [CHR 0x0A]"

definition elevate_and_resume ::
  "sop_env \<Rightarrow> string \<Rightarrow> u64 \<Rightarrow> u64 \<Rightarrow> org_store \<Rightarrow> ((string + string) \<times> org_store) option" where
  "elevate_and_resume e request_id ttl_secs now st =
     (case List.find (has_id request_id) (load_requests st) of
        None \<Rightarrow> Some (Inl (not_found request_id), st)
      | Some req \<Rightarrow>
          if ar_status req \<noteq> Approved then
            Some (Inl (wrong_status request_id req
              (''Approved '' @ em_dash @ '' nothing to elevate. Clear the approval gate first.'')), st)
          else
            (case (if capability_requires_elevation (ar_capability req)
                   then (case grant_jit_elevation (se_codec e) request_id ttl_secs now st of
                           (Inl err, st1) \<Rightarrow> (Inl err, st1)
                         | (Inr g, st1) \<Rightarrow> (Inr (minted_line g), st1))
                   else (Inr [], st)) of
               (Inl err, st1) \<Rightarrow> Some (Inl err, st1)
             | (Inr minted, st1) \<Rightarrow>
                 (case resume_playbook_after_approval e request_id st1 of
                    None \<Rightarrow> None
                  | Some (Inl err, st2) \<Rightarrow> Some (Inl err, st2)
                  | Some (Inr oc, st2) \<Rightarrow>
                      Some (Inr (minted @ ''Ran ''
                        @ quoted (case playbook_for_request (se_org e) req of Some p \<Rightarrow> pb_id p | None \<Rightarrow> request_id)
                        @ '': '' @ sop_run_digest oc @ chain_trail oc), st2))))"

text \<open>Declaring a handoff edge; the document is saved by the caller's \<open>save\<close>.\<close>

definition set_handoff :: "string option \<Rightarrow> Playbook \<Rightarrow> Playbook" where
  "set_handoff target p = p\<lparr>pb_on_success_handoff := target\<rparr>"

definition chain_playbooks :: "CompanyOrg \<Rightarrow> string \<Rightarrow> string option \<Rightarrow> (string + string) \<times> CompanyOrg" where
  "chain_playbooks org upstream_id downstream =
     (if find_playbook org upstream_id = None then (Inl (''playbook '' @ quoted upstream_id @ '' not found''), org)
      else (let with_edge = (\<lambda>t. org\<lparr>og_playbooks := update_first (\<lambda>p. pb_id p = upstream_id) (set_handoff t) (og_playbooks org)\<rparr>) in
        case downstream of
          None \<Rightarrow> (Inr (''Uncoupled '' @ quoted upstream_id @ '' '' @ em_dash @ '' it no longer queues a downstream SOP.''), with_edge None)
        | Some target \<Rightarrow>
            if target = upstream_id then (Inl (quoted upstream_id @ '' cannot hand off to itself''), org)
            else if find_playbook org target = None then (Inl (''playbook '' @ quoted target @ '' not found''), org)
            else (Inr (''Chained '' @ quoted upstream_id @ '' '' @ arrow @ '' '' @ quoted target @ '': when '' @ quoted upstream_id
                   @ '' finishes clean, '' @ quoted target @ '' is queued through its own gate.''), with_edge (Some target))))"

section \<open>Recurring schedules\<close>

definition MIN_SOP_INTERVAL_SECS :: u64 where
  "MIN_SOP_INTERVAL_SECS = 60"

definition load_schedules :: "org_store \<Rightarrow> SopSchedule list" where
  "load_schedules st = read_file (os_schedules st)"

definition save_schedules :: "codec \<Rightarrow> SopSchedule list \<Rightarrow> org_store \<Rightarrow> bool \<times> org_store" where
  "save_schedules c entries st =
     (let (f, ok) = write_file (next_write st) (cd_schedules c) (os_schedules st) entries
      in (ok, st\<lparr>os_schedules := f, os_writes := os_writes st + 1\<rparr>))"

definition schedule_sop ::
  "codec \<Rightarrow> CompanyOrg \<Rightarrow> string \<Rightarrow> u64 \<Rightarrow> org_store \<Rightarrow> (string + SopSchedule) \<times> org_store" where
  "schedule_sop c org playbook_id every_secs st =
     (if find_playbook org playbook_id = None then
        (Inl (''No playbook '' @ quoted playbook_id @ '' to schedule '' @ em_dash @ '' add it first (add_org_playbook).''), st)
      else if every_secs < MIN_SOP_INTERVAL_SECS then
        (Inl (''Cadence must be at least '' @ show_u64 MIN_SOP_INTERVAL_SECS @ ''s '' @ em_dash
           @ '' a faster repeat would flood the approval queue.''), st)
      else
        (let (now, st1) = now_secs st;
             entry = \<lparr>sc_playbook_id = playbook_id, sc_every_secs = every_secs, sc_next_due_at = now + every_secs,
               sc_last_run_at = 0, sc_enabled = True\<rparr>
         in (Inr entry,
             snd (save_schedules c (filter (\<lambda>s. sc_playbook_id s \<noteq> playbook_id) (load_schedules st1) @ [entry]) st1))))"

definition unschedule_sop :: "codec \<Rightarrow> string \<Rightarrow> org_store \<Rightarrow> bool \<times> org_store" where
  "unschedule_sop c playbook_id st =
     (let before = load_schedules st;
          after = filter (\<lambda>s. sc_playbook_id s \<noteq> playbook_id) before
      in if length after = length before then (False, st) else (True, snd (save_schedules c after st)))"

definition set_sop_schedule_enabled :: "codec \<Rightarrow> string \<Rightarrow> bool \<Rightarrow> org_store \<Rightarrow> bool \<times> org_store" where
  "set_sop_schedule_enabled c playbook_id enabled st =
     (let all = load_schedules st;
          all' = map (\<lambda>s. if sc_playbook_id s = playbook_id then s\<lparr>sc_enabled := enabled\<rparr> else s) all;
          hit = list_ex (\<lambda>s. sc_playbook_id s = playbook_id) all
      in if hit then save_schedules c all' st else (False, st))"

definition due_sops :: "u64 \<Rightarrow> org_store \<Rightarrow> SopSchedule list" where
  "due_sops now st = filter (\<lambda>s. sc_enabled s \<and> sc_next_due_at s \<le> now) (load_schedules st)"

definition advance_schedule :: "string \<Rightarrow> u64 \<Rightarrow> SopSchedule \<Rightarrow> SopSchedule" where
  "advance_schedule playbook_id now s =
     (if sc_playbook_id s = playbook_id
      then s\<lparr>sc_next_due_at := saturating_add now (sc_every_secs s), sc_last_run_at := now\<rparr> else s)"

fun fire_due ::
  "string set \<times> string set \<Rightarrow> sop_env \<Rightarrow> u64 \<Rightarrow> SopSchedule list \<Rightarrow> org_store \<Rightarrow> ((string \<times> PlaybookOutcome) list \<times> org_store) option" where
  "fire_due refs e now [] st = Some ([], st)"
| "fire_due refs e now (s # ss) st =
     (let st1 = snd (save_schedules (se_codec e) (map (advance_schedule (sc_playbook_id s) now) (load_schedules st)) st) in
      case run_playbook refs e (sc_playbook_id s) st1 of
        None \<Rightarrow> None
      | Some (r, st2) \<Rightarrow>
          (let oc = (case r of Inr x \<Rightarrow> x | Inl reason \<Rightarrow> DeniedRun reason) in
           case fire_due refs e now ss st2 of
             None \<Rightarrow> None
           | Some (fired, st3) \<Rightarrow> Some ((sc_playbook_id s, oc) # fired, st3)))"

definition run_due_sops ::
  "string set \<times> string set \<Rightarrow> sop_env \<Rightarrow> u64 \<Rightarrow> org_store \<Rightarrow> ((string \<times> PlaybookOutcome) list \<times> org_store) option" where
  "run_due_sops refs e now st = fire_due refs e now (due_sops now st) st"

section \<open>Every run returns\<close>

lemma mirrors_index: "mirrors 0 steps rs \<Longrightarrow> r \<in> set rs \<Longrightarrow> sr_index r < length rs \<and> rs ! sr_index r = r"
  by (auto simp: mirrors_def in_set_conv_nth)

lemma halt_of_index:
  assumes "mirrors 0 steps (wr_steps run)" "halt_of run = Some (i, oc, d)"
  shows "i < length (wr_steps run) \<and> sr_outcome (wr_steps run ! i) = StepFailed"
  using assms(2) mirrors_index [OF assms(1)] by (auto simp: halt_of_def split: option.splits dest!: find_Some_mem)

lemma verdict_recorded:
  assumes "mirrors 0 steps (wr_steps run)"
  obtains v st' where "record_playbook_run_verdict c i req run st = Some (v, st')"
proof (cases "wr_status run = RunSuccess \<or> halt_of run = None")
  case True
  then show ?thesis by (intro that [of None st]) (auto simp: record_playbook_run_verdict_def)
next
  case False
  then obtain j oc d where "halt_of run = Some (j, oc, d)" by auto
  then show ?thesis
    using False halt_of_index [OF assms] that
    by (cases "now_secs st") (auto simp: record_playbook_run_verdict_def Let_def)
qed

lemma run_steps_mirrors: "run_steps e pb req st = (run, st') \<Longrightarrow> mirrors 0 (pb_steps pb) (wr_steps run)"
  using execute_mirrors [of "\<lparr>wf_id = pb_id pb, wf_name = pb_name pb, wf_steps = pb_steps pb\<rparr>"]
  by (metis run_steps_def Workflow.select_convs(3) fst_conv)

lemma chain_returns:
  "\<exists>oc st'. run_playbook_steps e pb req depth st = Some (oc, st')"
  "\<exists>h st'. fire_sop_handoff e pb req depth st = Some (h, st')"
proof (induction e pb req depth st and e pb req depth st rule: run_playbook_steps_fire_sop_handoff.induct)
  case (1 e pb req depth st)
  obtain run st1 where run: "run_steps e pb req st = (run, st1)" by (metis surj_pair)
  obtain v st2 where v: "record_playbook_run_verdict (se_codec e) (pb_id pb) req run st1 = Some (v, st2)"
    by (rule verdict_recorded [OF run_steps_mirrors [OF run]])
  show ?case
  proof (cases "wr_status run = RunSuccess")
    case True
    with 1 [OF run [symmetric] v refl refl True] run v show ?thesis by (auto simp: run_playbook_steps.simps)
  next
    case False
    with run v show ?thesis by (simp add: run_playbook_steps.simps)
  qed
next
  case (2 e pb req depth st)
  show ?case
  proof (cases "pb_on_success_handoff pb")
    case None
    then show ?thesis by (simp add: fire_sop_handoff.simps)
  next
    case (Some to_id)
    note edge = this
    show ?thesis
    proof (cases "MAX_SOP_CHAIN_DEPTH \<le> depth")
      case True
      with edge show ?thesis by (simp add: fire_sop_handoff.simps split: prod.splits)
    next
      case shallow: False
      show ?thesis
      proof (cases "List.find (\<lambda>p. pb_id p = to_id) (og_playbooks (se_org e))")
        case None
        with edge shallow show ?thesis by (simp add: fire_sop_handoff.simps split: prod.splits)
      next
        case (Some nxt)
        obtain r st1 where sub: "submit_playbook e nxt (''SOP handoff '' @ quoted (pb_id pb) @ '' '' @ arrow @ '' '' @ quoted (pb_id nxt)) st = (r, st1)"
          by (metis surj_pair)
        show ?thesis
        proof (cases "ar_status r")
          case Approved
          with 2 [OF edge shallow Some sub [symmetric] Approved refl] edge shallow Some sub
          show ?thesis by (auto simp: fire_sop_handoff.simps Let_def)
        qed (use edge shallow Some sub in \<open>auto simp: fire_sop_handoff.simps Let_def\<close>)
      qed
    qed
  qed
qed

lemma chain_not_none [simp]:
  "run_playbook_steps e pb req depth st \<noteq> None" "fire_sop_handoff e pb req depth st \<noteq> None"
  "\<exists>st' oc. run_playbook_steps e pb req depth st = Some (oc, st')"
  using chain_returns by (simp, simp, blast)

lemma run_playbook_returns: "\<exists>r st'. run_playbook refs e i st = Some (r, st')"
proof -
  have "run_playbook refs e i st \<noteq> None"
    by (auto simp: run_playbook_def chain_returns split: option.splits sum.splits prod.splits ActionStatus.splits)
  then show ?thesis by auto
qed

lemma fire_due_returns: "\<exists>fired st'. fire_due refs e now ss st = Some (fired, st') \<and> map fst fired = map sc_playbook_id ss"
proof (induction ss arbitrary: st)
  case (Cons s ss)
  let ?st1 = "snd (save_schedules (se_codec e) (map (advance_schedule (sc_playbook_id s) now) (load_schedules st)) st)"
  obtain r st2 where "run_playbook refs e (sc_playbook_id s) ?st1 = Some (r, st2)" using run_playbook_returns by blast
  with Cons.IH [of st2] show ?case by (auto simp: Let_def)
qed simp

text \<open>
  Playbooks always return, whatever the tools and agents they call do and however the
  playbooks of the organisation are chained (cycles of handoffs included): a run through the
  gate, a resumption after approval and a handoff at any depth give a result, in particular the
  verdict recorder never indexes past the recorded steps; and a scheduler tick reports exactly
  one outcome for each schedule that was due, in their order.
\<close>

theorem playbooks_return:
  "run_playbook refs e i st \<noteq> None \<and> resume_playbook_after_approval e req st \<noteq> None
   \<and> run_playbook_steps e pb req depth st \<noteq> None \<and> fire_sop_handoff e pb req depth st \<noteq> None
   \<and> (\<exists>fired st'. run_due_sops refs e now st = Some (fired, st')
        \<and> map fst fired = map sc_playbook_id (due_sops now st))"
proof -
  have "resume_playbook_after_approval e req st \<noteq> None"
    by (auto simp: resume_playbook_after_approval_def chain_returns split: option.splits ActionStatus.splits)
  then show ?thesis
    using run_playbook_returns [of refs e i st] chain_returns [of e pb req depth st] fire_due_returns [of refs e now "due_sops now st" st]
    by (auto simp: run_due_sops_def)
qed

section \<open>The gate\<close>

lemma submit_status:
  "ar_status (fst (submit_playbook e pb desc st)) = Approved \<longleftrightarrow>
     check_permission (se_show e) (se_org e) (pb_role_id pb) (pb_resource_id pb) (pb_capability pb) (pb_amount pb) = Allowed"
  by (auto simp: submit_playbook_def submit_action_for_playbook_def submit_fields_def Let_def
      split: prod.splits Decision.splits)

lemma submit_playbook_engine [simp]: "submit_playbook (e\<lparr>se_engine := en\<rparr>) pb desc st = submit_playbook e pb desc st"
  by (simp add: submit_playbook_def)

text \<open>The permission a playbook asks for.\<close>

definition cleared :: "sop_env \<Rightarrow> Playbook \<Rightarrow> bool" where
  "cleared e pb \<longleftrightarrow> check_permission (se_show e) (se_org e) (pb_role_id pb) (pb_resource_id pb) (pb_capability pb) (pb_amount pb) = Allowed"

lemma gated_run:
  assumes "find_playbook (se_org e) i = Some pb" "\<not> cleared e pb"
  shows "\<exists>r st'. (\<forall>en. run_playbook refs (e\<lparr>se_engine := en\<rparr>) i st = Some (r, st'))
    \<and> (\<forall>oc. r = Inr oc \<longrightarrow> \<not> is_ExecutedRun oc)
    \<and> (st' = st \<or> st' = snd (submit_playbook e pb (pb_description pb) st))"
proof (cases "validate_step_references (fst refs) (Some (snd refs)) ''playbook'' i (pb_steps pb)")
  case (Inl err)
  with assms show ?thesis by (simp add: run_playbook_def)
next
  case (Inr u)
  obtain r st1 where s: "submit_playbook e pb (pb_description pb) st = (r, st1)" by (metis surj_pair)
  from submit_status [of e pb "pb_description pb" st] s assms(2) have "ar_status r \<noteq> Approved" by (simp add: cleared_def)
  with s Inr assms(1) show ?thesis by (cases "ar_status r") (simp_all add: run_playbook_def)
qed

lemma gated_handoff:
  assumes "pb_on_success_handoff pb = Some to_id" "find_playbook (se_org e) to_id = Some nxt" "\<not> cleared e nxt"
  shows "\<exists>r st'. \<forall>en. fire_sop_handoff (e\<lparr>se_engine := en\<rparr>) pb req depth st = Some (r, st')"
proof (cases "MAX_SOP_CHAIN_DEPTH \<le> depth")
  case True
  with assms show ?thesis by (simp add: fire_sop_handoff.simps split: prod.splits)
next
  case False
  let ?d = "''SOP handoff '' @ quoted (pb_id pb) @ '' '' @ arrow @ '' '' @ quoted (pb_id nxt)"
  obtain r st1 where s: "submit_playbook e nxt ?d st = (r, st1)" by (metis surj_pair)
  from submit_status [of e nxt ?d st] s assms(3) have "ar_status r \<noteq> Approved" by (simp add: cleared_def)
  with s False assms(1,2) show ?thesis
    by (cases "ar_status r") (simp_all add: fire_sop_handoff.simps find_playbook_def Let_def)
qed

lemma gated_resume:
  assumes "List.find (has_id req) (load_requests st) = Some r" "ar_status r \<noteq> Approved"
  shows "\<exists>out. (\<forall>en. resume_playbook_after_approval (e\<lparr>se_engine := en\<rparr>) req st = Some (out, st))
    \<and> (\<forall>oc. out = Inr oc \<longrightarrow> \<not> is_ExecutedRun oc)"
  using assms
  by (cases "playbook_for_request (se_org e) r"; cases "ar_status r")
    (auto simp: resume_playbook_after_approval_def)

text \<open>
  C8. No step of a playbook runs behind the gate.  When the permission engine does not allow a
  playbook outright, running it gives a result that is the same for every workflow engine (so no
  tool or agent is called), is not an executed run, and leaves the store untouched or with the
  new request only; the same playbook reached by a handoff is not run either; and resuming a
  request that is not approved gives a result that is the same for every engine and leaves the
  store untouched.
\<close>

theorem gate_before_steps:
  assumes "find_playbook (se_org e) i = Some pb" "\<not> cleared e pb"
  shows "(\<exists>r st'. (\<forall>en. run_playbook refs (e\<lparr>se_engine := en\<rparr>) i st = Some (r, st'))
      \<and> (\<forall>oc. r = Inr oc \<longrightarrow> \<not> is_ExecutedRun oc)
      \<and> (st' = st \<or> st' = snd (submit_playbook e pb (pb_description pb) st)))
    \<and> (pb_on_success_handoff up = Some i \<longrightarrow>
        (\<exists>r st'. \<forall>en. fire_sop_handoff (e\<lparr>se_engine := en\<rparr>) up req depth st = Some (r, st')))
    \<and> (List.find (has_id req) (load_requests st) = Some r \<and> ar_status r \<noteq> Approved \<longrightarrow>
        (\<exists>out. (\<forall>en. resume_playbook_after_approval (e\<lparr>se_engine := en\<rparr>) req st = Some (out, st))
          \<and> (\<forall>oc. out = Inr oc \<longrightarrow> \<not> is_ExecutedRun oc)))"
  using gated_run [OF assms] gated_handoff [OF _ assms] gated_resume by blast

text \<open>
  A playbook of the demonstration organisation that spends five from the bank, which needs a
  signature; the calls of its steps are not in view.
\<close>

definition demo_playbook :: Playbook where
  "demo_playbook = \<lparr>pb_id = ''pay'', pb_name = ''Pay'', pb_role_id = ''cfo'', pb_resource_id = ''bank'',
     pb_capability = Spend, pb_amount = Fin 5, pb_description = [], pb_steps = [ToolStep ''pay'' JNull], pb_on_success_handoff = Some ''pay''\<rparr>"

definition demo_sop_env :: sop_env where
  "demo_sop_env = \<lparr>se_engine = \<lparr>call_tool = (\<lambda>name args st. (Inr ''done'', st\<lparr>os_requests := None\<rparr>)),
       run_agent = (\<lambda>p t st. ((True, ''drafted''), st)), parse_array = (\<lambda>_. None), json_text = (\<lambda>_. []), wf_now = now_secs\<rparr>,
     se_show = (\<lambda>_. []), se_codec = demo_codec, se_org = demo_org\<lparr>og_playbooks := [demo_playbook]\<rparr>\<rparr>"

theorem gate_before_steps_witness:
  "(\<exists>r st'. run_playbook ({''pay''}, {}) demo_sop_env ''pay'' demo_store_org = Some (r, st') \<and> (\<forall>oc. r = Inr oc \<longrightarrow> \<not> is_ExecutedRun oc))
   \<and> (\<exists>r st'. \<forall>en. fire_sop_handoff (demo_sop_env\<lparr>se_engine := en\<rparr>) demo_playbook ''req'' 0 demo_store_org = Some (r, st'))
   \<and> (\<exists>out. resume_playbook_after_approval demo_sop_env ''req_org_1_161''
        (queue_run (\<lambda>_. []) demo_codec demo_org [hd demo_history] demo_store_org)
       = Some (out, queue_run (\<lambda>_. []) demo_codec demo_org [hd demo_history] demo_store_org))"
proof -
  let ?st = "queue_run (\<lambda>_. []) demo_codec demo_org [hd demo_history] demo_store_org"
  have gate: "find_playbook (se_org demo_sop_env) ''pay'' = Some demo_playbook" "\<not> cleared demo_sop_env demo_playbook"
    "pb_on_success_handoff demo_playbook = Some ''pay''"
    by code_simp+
  have one: "List.find (has_id ''req_org_1_161'') (load_requests ?st) = Some (hd (load_requests ?st))" by code_simp
  have two: "ar_status (hd (load_requests ?st)) \<noteq> Approved" by code_simp
  have same: "demo_sop_env\<lparr>se_engine := se_engine demo_sop_env\<rparr> = demo_sop_env" by simp
  from gate_before_steps [OF gate(1,2), of "({''pay''}, {})" demo_store_org, THEN conjunct1]
  obtain r st' where "\<forall>en. run_playbook ({''pay''}, {}) (demo_sop_env\<lparr>se_engine := en\<rparr>) ''pay'' demo_store_org = Some (r, st')"
    "\<forall>oc. r = Inr oc \<longrightarrow> \<not> is_ExecutedRun oc"
    by blast
  then have A: "\<exists>r st'. run_playbook ({''pay''}, {}) demo_sop_env ''pay'' demo_store_org = Some (r, st') \<and> (\<forall>oc. r = Inr oc \<longrightarrow> \<not> is_ExecutedRun oc)"
    by (metis same)
  from gate_before_steps [OF gate(1,2), of _ demo_store_org demo_playbook "''req''" 0] gate(3)
  have B: "\<exists>r st'. \<forall>en. fire_sop_handoff (demo_sop_env\<lparr>se_engine := en\<rparr>) demo_playbook ''req'' 0 demo_store_org = Some (r, st')"
    by blast
  from gate_before_steps [OF gate(1,2), of _ ?st demo_playbook "''req_org_1_161''" 0 "hd (load_requests ?st)",
    THEN conjunct2, THEN conjunct2, THEN mp, OF conjI, OF one two]
  obtain out where "\<forall>en. resume_playbook_after_approval (demo_sop_env\<lparr>se_engine := en\<rparr>) ''req_org_1_161'' ?st = Some (out, ?st)"
    by blast
  from spec [OF this, of "se_engine demo_sop_env", unfolded same]
  have C: "\<exists>out. resume_playbook_after_approval demo_sop_env ''req_org_1_161'' ?st = Some (out, ?st)" by (rule exI)
  show ?thesis by (rule conjI [OF A conjI [OF B C]])
qed

section \<open>The scheduler\<close>

text \<open>The part of the store the scheduler owns.\<close>

definition sched :: "org_store \<Rightarrow> SopSchedule list option \<times> (nat \<Rightarrow> disk_write)" where
  "sched st = (os_schedules st, os_disk st)"

lemma sched_ledgers [simp]:
  "sched (snd (now_secs st)) = sched st" "sched (snd (gen_request_id org a b st)) = sched st"
  "sched (snd (save_requests c rs st)) = sched st" "sched (snd (save_verdicts c vs st)) = sched st"
  "sched (snd (save_handoffs c hs st)) = sched st"
  by (simp_all add: sched_def now_secs_def now_nanos_def gen_request_id_def save_requests_def save_verdicts_def
      save_handoffs_def split: prod.splits)

lemma sched_submit [simp]: "sched (snd (submit_playbook e pb desc st)) = sched st"
  by (simp add: submit_playbook_def submit_action_for_playbook_def Let_def split_beta)

lemma sched_handoff [simp]: "sched (snd (record_handoff c a b d f g k st)) = sched st"
  by (simp add: record_handoff_def Let_def split_beta)

lemma sched_executed [simp]: "sched (snd (mark_executed c i st)) = sched st"
  by (simp add: mark_executed_def Let_def split: option.splits)

lemma sched_verdict: "record_playbook_run_verdict c i req run st = Some (v, st') \<Longrightarrow> sched st' = sched st"
  by (auto simp: record_playbook_run_verdict_def Let_def split_beta split: if_splits option.splits)

lemma sched_chain:
  "engine_keeps (se_engine e) sched \<Longrightarrow> run_playbook_steps e pb req depth st = Some (oc, st') \<Longrightarrow> sched st' = sched st"
  "engine_keeps (se_engine e) sched \<Longrightarrow> fire_sop_handoff e pb req depth st = Some (h, st') \<Longrightarrow> sched st' = sched st"
proof (induction e pb req depth st and e pb req depth st arbitrary: oc st' and h st'
    rule: run_playbook_steps_fire_sop_handoff.induct)
  case (1 e pb req depth st)
  obtain run st1 where run: "run_steps e pb req st = (run, st1)" by (metis surj_pair)
  have "sched st1 = sched st" using keeps_execute [OF "1.prems"(1)] run by (metis run_steps_def snd_conv)
  obtain v st2 where v: "record_playbook_run_verdict (se_codec e) (pb_id pb) req run st1 = Some (v, st2)"
    by (rule verdict_recorded [OF run_steps_mirrors [OF run]])
  then have st2: "sched st2 = sched st" using sched_verdict \<open>sched st1 = sched st\<close> by metis
  show ?case
  proof (cases "wr_status run = RunSuccess")
    case True
    then obtain h where "fire_sop_handoff e pb req depth (snd (mark_executed (se_codec e) req st2)) = Some (h, st')"
      using "1.prems"(2) run v by (auto simp: run_playbook_steps.simps Let_def split: option.splits)
    from 1(1) [OF run [symmetric] v refl refl True "1.prems"(1) this] st2 show ?thesis by simp
  next
    case False
    with "1.prems"(2) run v st2 show ?thesis by (auto simp: run_playbook_steps.simps Let_def)
  qed
next
  case (2 e pb req depth st)
  show ?case
  proof (cases "pb_on_success_handoff pb")
    case None
    with "2.prems"(2) show ?thesis by (simp add: fire_sop_handoff.simps)
  next
    case (Some to_id)
    note edge = this
    show ?thesis
    proof (cases "MAX_SOP_CHAIN_DEPTH \<le> depth \<or> List.find (\<lambda>p. pb_id p = to_id) (og_playbooks (se_org e)) = None")
      case True
      with edge "2.prems"(2) show ?thesis
        by (auto simp: fire_sop_handoff.simps split_beta split: if_splits)
    next
      case False
      then obtain nxt where shallow: "\<not> MAX_SOP_CHAIN_DEPTH \<le> depth"
        and nxt: "List.find (\<lambda>p. pb_id p = to_id) (og_playbooks (se_org e)) = Some nxt" by auto
      let ?sub = "submit_playbook e nxt (''SOP handoff '' @ quoted (pb_id pb) @ '' '' @ arrow @ '' '' @ quoted (pb_id nxt)) st"
      obtain r st1 where sub: "?sub = (r, st1)" by (metis surj_pair)
      have st1: "sched st1 = sched st" using sched_submit sub by (metis snd_conv)
      show ?thesis
      proof (cases "ar_status r")
        case Approved
        let ?st2 = "snd (record_handoff (se_codec e) (pb_id pb) to_id req (ar_id r) ''ran'' depth st1)"
        obtain nested where "run_playbook_steps e nxt (ar_id r) (depth + 1) ?st2 = Some (nested, st')"
          using "2.prems"(2) edge shallow nxt sub Approved
          by (auto simp: fire_sop_handoff.simps Let_def split: option.splits)
        from 2(1) [OF edge shallow nxt sub [symmetric] Approved refl "2.prems"(1) this] st1 show ?thesis by simp
      qed (use "2.prems"(2) edge shallow nxt sub st1 in \<open>auto simp: fire_sop_handoff.simps Let_def\<close>)
    qed
  qed
qed

lemma sched_run_playbook:
  assumes keeps: "engine_keeps (se_engine e) sched" and run: "run_playbook refs e i st = Some (r, st')"
  shows "sched st' = sched st"
proof (cases "find_playbook (se_org e) i")
  case None
  with run show ?thesis by (simp add: run_playbook_def)
next
  case (Some pb)
  obtain q st1 where sub: "submit_playbook e pb (pb_description pb) st = (q, st1)" by (metis surj_pair)
  have st1: "sched st1 = sched st" using sched_submit sub by (metis snd_conv)
  show ?thesis
  proof (cases "validate_step_references (fst refs) (Some (snd refs)) ''playbook'' i (pb_steps pb)")
    case (Inl err)
    with Some run show ?thesis by (simp add: run_playbook_def)
  next
    case (Inr u)
    with Some run sub st1 show ?thesis
      by (cases "ar_status q") (auto simp: run_playbook_def dest: sched_chain(1) [OF keeps])
  qed
qed

lemma load_schedules_sched: "sched st = sched st' \<Longrightarrow> load_schedules st = load_schedules st'"
  by (simp add: sched_def load_schedules_def)

lemma load_saved_schedules:
  "cd_schedules c = Some \<Longrightarrow> os_disk st = (\<lambda>_. Landed) \<Longrightarrow> load_schedules (snd (save_schedules c xs st)) = xs
     \<and> os_disk (snd (save_schedules c xs st)) = (\<lambda>_. Landed)"
  by (simp add: save_schedules_def write_file_def next_write_def load_schedules_def read_file_def)

text \<open>What a tick does to the schedules: one advance per entry that was due.\<close>

lemma fire_due_schedules:
  assumes keeps: "engine_keeps (se_engine e) sched" and c: "cd_schedules (se_codec e) = Some"
  shows "os_disk st = (\<lambda>_. Landed) \<Longrightarrow> fire_due refs e now ss st = Some (fired, st') \<Longrightarrow>
    load_schedules st' = fold (\<lambda>s. map (advance_schedule (sc_playbook_id s) now)) ss (load_schedules st)"
proof (induction ss arbitrary: st fired)
  case (Cons s ss)
  let ?st1 = "snd (save_schedules (se_codec e) (map (advance_schedule (sc_playbook_id s) now) (load_schedules st)) st)"
  note saved = load_saved_schedules [OF c Cons.prems(1), of "map (advance_schedule (sc_playbook_id s) now) (load_schedules st)"]
  obtain r st2 where run: "run_playbook refs e (sc_playbook_id s) ?st1 = Some (r, st2)" using run_playbook_returns by blast
  note st2 = sched_run_playbook [OF keeps run]
  then have "os_disk st2 = (\<lambda>_. Landed)" using saved by (simp add: sched_def)
  moreover obtain fired' where "fire_due refs e now ss st2 = Some (fired', st')"
    using Cons.prems(2) run by (auto simp: Let_def split: option.splits)
  ultimately show ?case using Cons.IH [of st2 fired'] load_schedules_sched [OF st2] saved by simp
qed simp

lemma fold_advance:
  "fold (\<lambda>s. map (advance_schedule (sc_playbook_id s) now)) ss xs =
     map (\<lambda>x. if sc_playbook_id x \<in> sc_playbook_id ` set ss
       then x\<lparr>sc_next_due_at := saturating_add now (sc_every_secs x), sc_last_run_at := now\<rparr> else x) xs"
  by (induction ss arbitrary: xs) (auto simp: advance_schedule_def)

lemma saturating_add_gt: "0 < b \<Longrightarrow> a < - 1 \<Longrightarrow> a < saturating_add a (b :: u64)"
  by (auto simp: saturating_add_def not_less le_less)

text \<open>
  A tick of the scheduler serves everything that is due and leaves nothing due.  When the
  tools of the playbooks leave the schedules alone and the disk takes the writes, every entry
  that shares its playbook with a due one is moved one cadence past the tick and stamped with
  it, every other entry is untouched, and no entry is due any more at the time of the tick,
  however late it was: a backlog does not replay one run per missed interval.
\<close>

theorem tick_serves_due:
  assumes "run_due_sops refs e now st = Some (fired, st')"
    and "engine_keeps (se_engine e) sched" "cd_schedules (se_codec e) = Some" "os_disk st = (\<lambda>_. Landed)"
    and "now < - 1" "\<forall>s\<in>set (load_schedules st). 0 < sc_every_secs s"
  shows "load_schedules st' = map (\<lambda>s. if sc_playbook_id s \<in> set (map sc_playbook_id (due_sops now st))
      then s\<lparr>sc_next_due_at := saturating_add now (sc_every_secs s), sc_last_run_at := now\<rparr> else s) (load_schedules st)
    \<and> due_sops now st' = []"
proof -
  have l: "load_schedules st' = map (\<lambda>s. if sc_playbook_id s \<in> set (map sc_playbook_id (due_sops now st))
      then s\<lparr>sc_next_due_at := saturating_add now (sc_every_secs s), sc_last_run_at := now\<rparr> else s) (load_schedules st)"
    using fire_due_schedules [OF assms(2,3,4) assms(1) [unfolded run_due_sops_def]] by (simp add: fold_advance)
  moreover have "\<not> (sc_enabled s \<and> sc_next_due_at s \<le> now)" if "s \<in> set (load_schedules st')" for s
    using that assms(6) saturating_add_gt [OF _ assms(5)]
    by (auto simp: l due_sops_def not_le split: if_splits)
  ultimately show ?thesis by (auto simp: due_sops_def [of now st'] filter_empty_conv)
qed

definition demo_scheduled :: org_store where
  "demo_scheduled = demo_store_org\<lparr>os_schedules := Some
     [\<lparr>sc_playbook_id = ''pay'', sc_every_secs = 60, sc_next_due_at = 100, sc_last_run_at = 0, sc_enabled = True\<rparr>,
      \<lparr>sc_playbook_id = ''report'', sc_every_secs = 60, sc_next_due_at = 900, sc_last_run_at = 0, sc_enabled = True\<rparr>]\<rparr>"

theorem tick_serves_due_witness:
  "\<exists>fired st'. run_due_sops ({''pay''}, {}) demo_sop_env 500 demo_scheduled = Some (fired, st')
     \<and> map fst fired = [''pay''] \<and> map sc_next_due_at (load_schedules st') = [560, 900] \<and> due_sops 500 st' = []"
proof -
  obtain fired st' where run: "run_due_sops ({''pay''}, {}) demo_sop_env 500 demo_scheduled = Some (fired, st')"
    and ids: "map fst fired = map sc_playbook_id (due_sops 500 demo_scheduled)"
    using fire_due_returns by (metis run_due_sops_def)
  have "engine_keeps (se_engine demo_sop_env) sched" "cd_schedules (se_codec demo_sop_env) = Some" "os_disk demo_scheduled = (\<lambda>_. Landed)"
    by (simp_all add: demo_sop_env_def demo_codec_def demo_scheduled_def engine_keeps_def sched_def now_secs_def empty_store_def)
  note tick = tick_serves_due [OF run this, simplified]
  have due: "map sc_playbook_id (due_sops 500 demo_scheduled) = [''pay'']" by code_simp
  have "\<forall>s\<in>set (load_schedules demo_scheduled). 0 < sc_every_secs s" by code_simp
  then have moved: "load_schedules st' = map (\<lambda>s. if sc_playbook_id s \<in> set (map sc_playbook_id (due_sops 500 demo_scheduled))
      then s\<lparr>sc_next_due_at := saturating_add 500 (sc_every_secs s), sc_last_run_at := 500\<rparr> else s) (load_schedules demo_scheduled)"
    and none: "due_sops 500 st' = []"
    using tick by simp_all
  have "map sc_next_due_at (load_schedules st') = [560, 900]" unfolding moved due by code_simp
  then show ?thesis using run ids none due by auto
qed

end
