(* ===== verification/Org_Preset.thy ===== *)
theory Org_Preset
  imports Approval_Ledger
begin

text \<open>
  The built-in organisation (\<open>default_company_org\<close> of
  \<open>velocity-mcp/src/editor/company_org.rs\<close>): its departments, roles, resources, grants and
  approval policies, row by row.  The seeded playbooks are a parameter.
\<close>

section \<open>The rows\<close>

definition preset_res :: "string \<Rightarrow> string \<Rightarrow> ResourceKind \<Rightarrow> string \<Rightarrow> Resource" where
  "preset_res i n kind secret_ref =
     \<lparr>re_id = i, re_name = n, re_kind = Some kind, re_secret_ref = secret_ref, re_sensitive = default_sensitive kind\<rparr>"

definition preset_role :: "string \<Rightarrow> string \<Rightarrow> string \<Rightarrow> string option \<Rightarrow> AutonomyTier \<Rightarrow> Role" where
  "preset_role i title dept reports_to tier =
     \<lparr>ro_id = i, ro_title = title, ro_department_id = dept, ro_reports_to = reports_to, ro_tier = tier,
      ro_agent_team = [], ro_humans = []\<rparr>"

definition preset_grant :: "string \<Rightarrow> string \<Rightarrow> Capability list \<Rightarrow> fp \<Rightarrow> CredentialGrant" where
  "preset_grant role_id resource_id caps spend_limit =
     \<lparr>cg_role_id = role_id, cg_resource_id = resource_id, cg_capabilities = caps, cg_spend_limit = spend_limit\<rparr>"

definition preset_policy ::
  "string \<Rightarrow> string \<Rightarrow> Capability \<Rightarrow> fp option \<Rightarrow> string list \<Rightarrow> nat \<Rightarrow> string \<Rightarrow> ApprovalPolicy" where
  "preset_policy i resource_id cap threshold approvers quorum desc =
     \<lparr>po_id = i, po_resource_id = resource_id, po_capability = cap, po_threshold = threshold,
      po_required_approvers = approvers, po_quorum = quorum, po_description = desc\<rparr>"

definition preset_resources :: "Resource list" where
  "preset_resources =
    [preset_res ''github'' ''UnitBuilds GitHub org'' SourceControl ''UNITBUILDS_GITHUB_TOKEN'',
     preset_res ''email'' ''support@unitbuilds.com mailbox'' Email ''UNITBUILDS_EMAIL_TOKEN'',
     preset_res ''chat'' ''Live user chat / Discord'' Chat ''UNITBUILDS_CHAT_TOKEN'',
     preset_res ''banking'' ''Banking / payment provider'' Banking ''UNITBUILDS_BANKING_TOKEN'',
     preset_res ''social_x'' ''X / Twitter account'' Social ''UNITBUILDS_X_TOKEN'',
     preset_res ''social_linkedin'' ''LinkedIn company page'' Social ''UNITBUILDS_LINKEDIN_TOKEN'',
     preset_res ''cloud'' ''Cloud / hosting control plane'' Cloud ''UNITBUILDS_CLOUD_TOKEN'',
     preset_res ''analytics'' ''Product & revenue analytics'' Analytics [],
     preset_res ''credentials'' ''Credential vault (secret_ref pointers)'' Credentials ''UNITBUILDS_VAULT_MASTER_KEY'']"

definition preset_departments :: "Department list" where
  "preset_departments =
    [\<lparr>dp_id = ''executive'', dp_name = ''Executive'', dp_charter = ''Business direction, strategy, final sign-off.''\<rparr>,
     \<lparr>dp_id = ''management'', dp_name = ''Management'', dp_charter = ''Orchestrate departments, keep work in line and on schedule.''\<rparr>,
     \<lparr>dp_id = ''engineering'', dp_name = ''Engineering'', dp_charter = ''Build and ship patches and new features continuously.''\<rparr>,
     \<lparr>dp_id = ''testing'', dp_name = ''Testing'', dp_charter = ''Verify features and patches are stable; record demos.''\<rparr>,
     \<lparr>dp_id = ''scouting'', dp_name = ''Scouting'', dp_charter = ''Research candidate features and high-traction highlights.''\<rparr>,
     \<lparr>dp_id = ''marketing'', dp_name = ''Marketing'', dp_charter = ''Advertise and write about capabilities across platforms.''\<rparr>,
     \<lparr>dp_id = ''support'', dp_name = ''Support'', dp_charter = ''Answer email and chat, support users.''\<rparr>,
     \<lparr>dp_id = ''finance'', dp_name = ''Finance'', dp_charter = ''Keep margins healthy without stifling experimentation.''\<rparr>,
     \<lparr>dp_id = ''legal'', dp_name = ''Legal'', dp_charter = ''Ensure lawful operation and compliant marketing.''\<rparr>,
     \<lparr>dp_id = ''operations'', dp_name = ''Operations'', dp_charter = ''Key rotation, uptime, reporting, running the business.''\<rparr>]"

definition preset_roles :: "Role list" where
  "preset_roles =
    [preset_role ''ceo'' ''CEO'' ''executive'' None Trusted,
     preset_role ''cto'' ''CTO'' ''executive'' (Some ''ceo'') Trusted,
     preset_role ''coo'' ''Chief of Staff'' ''management'' (Some ''ceo'') Trusted,
     preset_role ''pm'' ''Program Manager'' ''management'' (Some ''coo'') Standard,
     preset_role ''dev_lead'' ''Engineering Lead'' ''engineering'' (Some ''cto'') Trusted,
     preset_role ''dev_backend'' ''Backend Developer'' ''engineering'' (Some ''dev_lead'') Standard,
     preset_role ''dev_frontend'' ''Frontend Developer'' ''engineering'' (Some ''dev_lead'') Standard,
     preset_role ''dev_platform'' ''Platform / Release Engineer'' ''engineering'' (Some ''dev_lead'') Standard,
     preset_role ''qa_lead'' ''QA Lead'' ''testing'' (Some ''cto'') Standard,
     preset_role ''qa_engineer'' ''QA Engineer'' ''testing'' (Some ''qa_lead'') Standard,
     preset_role ''demo_recorder'' ''Demo Recorder'' ''testing'' (Some ''qa_lead'') Standard,
     preset_role ''scout'' ''Product Scout'' ''scouting'' (Some ''cto'') Standard,
     preset_role ''researcher'' ''Market Researcher'' ''scouting'' (Some ''scout'') Standard,
     preset_role ''mkt_lead'' ''Marketing Lead'' ''marketing'' (Some ''ceo'') Standard,
     preset_role ''writer'' ''Content Writer'' ''marketing'' (Some ''mkt_lead'') Assisted,
     preset_role ''social_operator'' ''Social Media Operator'' ''marketing'' (Some ''mkt_lead'') Assisted,
     preset_role ''support_lead'' ''Support Lead'' ''support'' (Some ''coo'') Standard,
     preset_role ''support_agent'' ''Support Agent'' ''support'' (Some ''support_lead'') Assisted,
     preset_role ''cfo'' ''CFO'' ''finance'' (Some ''ceo'') Trusted,
     preset_role ''accountant'' ''Accountant'' ''finance'' (Some ''cfo'') Standard,
     preset_role ''counsel'' ''General Counsel'' ''legal'' (Some ''ceo'') Trusted,
     preset_role ''compliance'' ''Compliance Reviewer'' ''legal'' (Some ''counsel'') Standard,
     preset_role ''ops_lead'' ''Operations Lead'' ''operations'' (Some ''coo'') Trusted,
     preset_role ''sysadmin'' ''Systems Administrator'' ''operations'' (Some ''ops_lead'') Standard,
     preset_role ''analyst'' ''Reporting Analyst'' ''operations'' (Some ''ops_lead'') Standard]"

definition preset_grants :: "CredentialGrant list" where
  "preset_grants =
    [preset_grant ''ceo'' ''banking'' [Read, Spend, Approve] (Fin 25000),
     preset_grant ''ceo'' ''github'' [Read, Approve] (Fin 0),
     preset_grant ''ceo'' ''email'' [Read, Communicate] (Fin 0),
     preset_grant ''cto'' ''github'' [Read, Write, Deploy, Approve] (Fin 0),
     preset_grant ''cto'' ''cloud'' [Read, Deploy, Approve] (Fin 0),
     preset_grant ''cto'' ''analytics'' [Read] (Fin 0),
     preset_grant ''coo'' ''email'' [Read, Communicate] (Fin 0),
     preset_grant ''coo'' ''analytics'' [Read] (Fin 0),
     preset_grant ''coo'' ''github'' [Read] (Fin 0),
     preset_grant ''pm'' ''email'' [Read, Communicate] (Fin 0),
     preset_grant ''pm'' ''github'' [Read] (Fin 0),
     preset_grant ''dev_lead'' ''github'' [Read, Write, Deploy, Approve] (Fin 0),
     preset_grant ''dev_lead'' ''cloud'' [Read, Deploy] (Fin 0),
     preset_grant ''dev_backend'' ''github'' [Read, Write] (Fin 0),
     preset_grant ''dev_frontend'' ''github'' [Read, Write] (Fin 0),
     preset_grant ''dev_platform'' ''github'' [Read, Write] (Fin 0),
     preset_grant ''dev_platform'' ''cloud'' [Read, Deploy] (Fin 0),
     preset_grant ''dev_backend'' ''analytics'' [Read] (Fin 0),
     preset_grant ''dev_frontend'' ''analytics'' [Read] (Fin 0),
     preset_grant ''qa_lead'' ''github'' [Read, Write] (Fin 0),
     preset_grant ''qa_engineer'' ''github'' [Read, Write] (Fin 0),
     preset_grant ''qa_engineer'' ''analytics'' [Read] (Fin 0),
     preset_grant ''qa_engineer'' ''cloud'' [Read] (Fin 0),
     preset_grant ''demo_recorder'' ''github'' [Read] (Fin 0),
     preset_grant ''demo_recorder'' ''analytics'' [Read] (Fin 0),
     preset_grant ''scout'' ''analytics'' [Read] (Fin 0),
     preset_grant ''scout'' ''social_x'' [Read] (Fin 0),
     preset_grant ''researcher'' ''analytics'' [Read] (Fin 0),
     preset_grant ''mkt_lead'' ''social_x'' [Read, Write, Communicate] (Fin 0),
     preset_grant ''mkt_lead'' ''social_linkedin'' [Read, Write, Communicate] (Fin 0),
     preset_grant ''writer'' ''social_x'' [Read, Write] (Fin 0),
     preset_grant ''writer'' ''social_linkedin'' [Read, Write] (Fin 0),
     preset_grant ''social_operator'' ''social_x'' [Read, Communicate] (Fin 0),
     preset_grant ''social_operator'' ''social_linkedin'' [Read, Communicate] (Fin 0),
     preset_grant ''mkt_lead'' ''banking'' [Read, Spend] (Fin 5000),
     preset_grant ''support_lead'' ''email'' [Read, Communicate] (Fin 0),
     preset_grant ''support_lead'' ''chat'' [Read, Communicate] (Fin 0),
     preset_grant ''support_agent'' ''email'' [Read, Communicate] (Fin 0),
     preset_grant ''support_agent'' ''chat'' [Read, Communicate] (Fin 0),
     preset_grant ''cfo'' ''banking'' [Read, Spend, Approve] (Fin 10000),
     preset_grant ''cfo'' ''analytics'' [Read] (Fin 0),
     preset_grant ''accountant'' ''banking'' [Read] (Fin 0),
     preset_grant ''accountant'' ''analytics'' [Read] (Fin 0),
     preset_grant ''counsel'' ''social_x'' [Read, Approve] (Fin 0),
     preset_grant ''counsel'' ''email'' [Read, Approve] (Fin 0),
     preset_grant ''compliance'' ''social_x'' [Read] (Fin 0),
     preset_grant ''compliance'' ''social_linkedin'' [Read] (Fin 0),
     preset_grant ''ops_lead'' ''cloud'' [Read, Deploy] (Fin 0),
     preset_grant ''ops_lead'' ''github'' [Read] (Fin 0),
     preset_grant ''ops_lead'' ''analytics'' [Read] (Fin 0),
     preset_grant ''ops_lead'' ''credentials'' [Read, Deploy] (Fin 0),
     preset_grant ''ceo'' ''credentials'' [Read, Approve] (Fin 0),
     preset_grant ''cto'' ''credentials'' [Read, Approve] (Fin 0),
     preset_grant ''sysadmin'' ''cloud'' [Read, Deploy] (Fin 0),
     preset_grant ''sysadmin'' ''github'' [Read] (Fin 0),
     preset_grant ''analyst'' ''analytics'' [Read] (Fin 0),
     preset_grant ''analyst'' ''banking'' [Read] (Fin 0)]"

definition preset_policies :: "ApprovalPolicy list" where
  "preset_policies =
    [preset_policy ''spend_cfo_gate'' ''banking'' Spend (Some (Fin 0)) [''cfo''] 1 ''Any banking spend needs CFO sign-off.'',
     preset_policy ''spend_ceo_gate'' ''banking'' Spend (Some (Fin 1000)) [''cfo'', ''ceo''] 2 ''Spend at/above 1,000 needs CFO and CEO (two approvals).'',
     preset_policy ''prod_deploy_gate'' ''cloud'' Deploy (Some (Fin 0)) [''cto''] 1 ''Production deploys need CTO sign-off.'',
     preset_policy ''github_deploy_gate'' ''github'' Deploy (Some (Fin 0)) [''dev_lead'', ''cto''] 1 ''Release/deploy tags need Engineering Lead or CTO.'',
     preset_policy ''social_comms_gate'' ''social_x'' Communicate (Some (Fin 0)) [''counsel''] 1 ''Public posts need Legal review for compliance.'',
     preset_policy ''linkedin_comms_gate'' ''social_linkedin'' Communicate (Some (Fin 0)) [''counsel''] 1 ''Public posts need Legal review for compliance.'',
     preset_policy ''email_broadcast_gate'' ''email'' Communicate (Some (Fin 50)) [''counsel''] 1 ''Broadcasts to many recipients need Legal review.'',
     preset_policy ''credential_rotation_gate'' ''credentials'' Deploy (Some (Fin 0)) [''ceo'', ''cto''] 2 ''Rotating a stored credential needs both CEO and CTO (two approvals).'']"


definition default_company_org :: "Playbook list \<Rightarrow> CompanyOrg" where
  "default_company_org playbooks =
     \<lparr>og_id = ''unitbuilds-cc'', og_name = ''UnitBuilds CC'', og_departments = preset_departments,
      og_roles = preset_roles, og_resources = preset_resources, og_grants = preset_grants,
      og_policies = preset_policies, og_playbooks = playbooks\<rparr>"

section \<open>Integrity of the rows\<close>

definition refs_resolve :: "CompanyOrg \<Rightarrow> bool" where
  "refs_resolve org \<longleftrightarrow>
     distinct (map ro_id (og_roles org)) \<and> distinct (map re_id (og_resources org))
     \<and> distinct (map dp_id (og_departments org)) \<and> distinct (map po_id (og_policies org))
     \<and> list_all (\<lambda>r. find_department org (ro_department_id r) \<noteq> None
          \<and> (case ro_reports_to r of None \<Rightarrow> True | Some m \<Rightarrow> find_role org m \<noteq> None)) (og_roles org)
     \<and> list_all (\<lambda>g. find_role org (cg_role_id g) \<noteq> None \<and> find_resource org (cg_resource_id g) \<noteq> None) (og_grants org)
     \<and> list_all (\<lambda>p. find_resource org (po_resource_id p) \<noteq> None
          \<and> list_all (\<lambda>a. find_role org a \<noteq> None) (po_required_approvers p)
          \<and> po_quorum p \<le> length (po_required_approvers p)) (og_policies org)"

lemma preset_refs_resolve: "refs_resolve (default_company_org playbooks)"
  by code_simp

section \<open>Which gates of the preset can be passed\<close>

text \<open>The policies of the preset by resource and capability.\<close>

lemma preset_og:
  "og_policies (default_company_org pbs) = preset_policies" "og_grants (default_company_org pbs) = preset_grants"
  "og_roles (default_company_org pbs) = preset_roles" "og_resources (default_company_org pbs) = preset_resources"
  by (simp_all add: default_company_org_def)

lemma preset_authority:
  "\<not> lacks_authority (default_company_org pbs) ''cfo'' ''banking'' \<and> \<not> lacks_authority (default_company_org pbs) ''ceo'' ''banking''
   \<and> \<not> lacks_authority (default_company_org pbs) ''cto'' ''cloud'' \<and> \<not> lacks_authority (default_company_org pbs) ''dev_lead'' ''github''
   \<and> \<not> lacks_authority (default_company_org pbs) ''cto'' ''github'' \<and> \<not> lacks_authority (default_company_org pbs) ''counsel'' ''social_x''
   \<and> \<not> lacks_authority (default_company_org pbs) ''counsel'' ''email'' \<and> \<not> lacks_authority (default_company_org pbs) ''ceo'' ''credentials''
   \<and> \<not> lacks_authority (default_company_org pbs) ''cto'' ''credentials''
   \<and> lacks_authority (default_company_org pbs) ''counsel'' ''social_linkedin''"
  by code_simp

lemma human_has_authority: "\<not> lacks_authority org HUMAN_OPERATOR x"
  by (simp add: lacks_authority_def)

lemma preset_firing:
  "firing (default_company_org pbs) x cap amount =
    (if x = ''banking'' \<and> cap = Spend then
       (if fp_le (Fin 0) amount then [preset_policies ! 0] else []) @ (if fp_le (Fin 1000) amount then [preset_policies ! 1] else [])
     else if x = ''cloud'' \<and> cap = Deploy \<and> fp_le (Fin 0) amount then [preset_policies ! 2]
     else if x = ''github'' \<and> cap = Deploy \<and> fp_le (Fin 0) amount then [preset_policies ! 3]
     else if x = ''social_x'' \<and> cap = Communicate \<and> fp_le (Fin 0) amount then [preset_policies ! 4]
     else if x = ''social_linkedin'' \<and> cap = Communicate \<and> fp_le (Fin 0) amount then [preset_policies ! 5]
     else if x = ''email'' \<and> cap = Communicate \<and> fp_le (Fin 50) amount then [preset_policies ! 6]
     else if x = ''credentials'' \<and> cap = Deploy \<and> fp_le (Fin 0) amount then [preset_policies ! 7]
     else [])"
  unfolding firing_def preset_og
  by (auto simp: preset_policies_def preset_policy_def policy_matches_def policy_fires_def)

lemma card_filter: "card {a \<in> set xs. P a} = length (remdups (filter P xs))"
  by (metis length_remdups_card_conv set_filter)

lemma preset_passable:
  assumes "fs = [] \<or> fs = [preset_policies ! 0] \<and> x = ''banking'' \<or> fs = [preset_policies ! 1] \<and> x = ''banking''
      \<or> fs = [preset_policies ! 0, preset_policies ! 1] \<and> x = ''banking'' \<or> fs = [preset_policies ! 2] \<and> x = ''cloud''
      \<or> fs = [preset_policies ! 3] \<and> x = ''github'' \<or> fs = [preset_policies ! 4] \<and> x = ''social_x''
      \<or> fs = [preset_policies ! 6] \<and> x = ''email'' \<or> fs = [preset_policies ! 7] \<and> x = ''credentials''"
  shows "max (required_quorum_of fs) 1 \<le> card {a \<in> set (if required_approvers_of fs = [] then [HUMAN_OPERATOR] else required_approvers_of fs).
        \<not> lacks_authority (default_company_org pbs) a x}"
proof -
  note ev = required_approvers_of_def required_quorum_of_def preset_policies_def preset_policy_def add_approver_def
  from assms show ?thesis
    by (elim disjE conjE; simp only: card_filter)
      (simp_all add: ev preset_authority human_has_authority)
qed

text \<open>
  In the built-in organisation every gate can be passed by its own approvers but one: an
  action that needs sign-off can collect its quorum from designated approvers who hold the
  authority, except a post to LinkedIn, whose only approver does not hold Approve on that
  resource and whose requests therefore stay pending for ever.
\<close>

theorem preset_gates_passable:
  assumes "check_permission sf (default_company_org pbs) role_id x cap amount = RequiresApproval ids as q reason"
  shows "max q 1 \<le> card {a \<in> set (if as = [] then [HUMAN_OPERATOR] else as). \<not> lacks_authority (default_company_org pbs) a x}
    \<longleftrightarrow> \<not> (x = ''social_linkedin'' \<and> cap = Communicate \<and> fp_le (Fin 0) amount)"
proof (cases "x = ''social_linkedin'' \<and> cap = Communicate \<and> fp_le (Fin 0) amount")
  case True
  then have "firing (default_company_org pbs) x cap amount = [preset_policies ! 5]" by (simp add: preset_firing)
  then have "as = [''counsel'']" using requires_approval_closed(1) [OF assms]
    by (simp add: required_approvers_of_def preset_policies_def preset_policy_def add_approver_def)
  then show ?thesis using True preset_authority [of pbs] by (simp only: card_filter) simp
next
  case False
  let ?fs = "firing (default_company_org pbs) x cap amount"
  have "?fs = [] \<or> ?fs = [preset_policies ! 0] \<and> x = ''banking'' \<or> ?fs = [preset_policies ! 1] \<and> x = ''banking''
      \<or> ?fs = [preset_policies ! 0, preset_policies ! 1] \<and> x = ''banking'' \<or> ?fs = [preset_policies ! 2] \<and> x = ''cloud''
      \<or> ?fs = [preset_policies ! 3] \<and> x = ''github'' \<or> ?fs = [preset_policies ! 4] \<and> x = ''social_x''
      \<or> ?fs = [preset_policies ! 6] \<and> x = ''email'' \<or> ?fs = [preset_policies ! 7] \<and> x = ''credentials''"
    using False unfolding preset_firing by (simp split: if_splits)
  from preset_passable [OF this] False show ?thesis
    unfolding requires_approval_closed [OF assms] by blast
qed

theorem preset_gates_passable_witness:
  "dc_approvers (check_permission (\<lambda>_. []) (default_company_org []) ''social_operator'' ''social_linkedin'' Communicate (Fin 0)) = [''counsel'']
   \<and> \<not> max 1 1 \<le> card {a \<in> set [''counsel'']. \<not> lacks_authority (default_company_org []) a ''social_linkedin''}"
proof -
  let ?d = "check_permission (\<lambda>_. []) (default_company_org []) ''social_operator'' ''social_linkedin'' Communicate (Fin 0)"
  have d: "?d = RequiresApproval (dc_policy_ids ?d) [''counsel''] 1 (dc_reason ?d)" by code_simp
  then have "dc_approvers ?d = [''counsel'']" by (metis Decision.sel(2))
  moreover have "fp_le (Fin 0) (Fin 0)" by code_simp
  ultimately show ?thesis using preset_gates_passable [OF d] by simp
qed

text \<open>A negative amount fires none of the gates of the preset, so a public post needs no review.\<close>

lemma negative_amount_skips_review:
  "check_permission sf (default_company_org pbs) ''social_operator'' ''social_x'' Communicate (Fin (- 1)) = Allowed"
  by code_simp

end
