(* ===== verification/Rotation.thy ===== *)
theory Rotation
  imports Org_Preset Elevation
begin

text \<open>
  Rotation of the pointer of a stored credential
  (\<open>velocity-mcp/src/editor/company_org.rs\<close>): the proposal through the permission engine,
  the payload it leaves in the description of the queued request, and the replay of that
  payload once the request is approved.  The organisation document is part of the state: only
  the \<open>secret_ref\<close> of a resource changes.
\<close>

record RotationApplied =
  ra_resource_id :: string
  ra_previous_ref :: string
  ra_new_ref :: string

datatype RotationResult =
    Sealed RotationApplied
  | RotationPending string "string list" nat
  | RotationDenied string

definition self_rotate_msg :: string where
  "self_rotate_msg = ''the credentials meta-resource cannot self-rotate; rotate a concrete resource (banking/github/cloud/''
     @ [CHR 0xE2, CHR 0x80, CHR 0xA6] @ '')''"

definition empty_ref_msg :: string where
  "empty_ref_msg = ''new_secret_ref is empty '' @ em_dash @ '' refusing to clear a live credential pointer''"

definition set_ref :: "string \<Rightarrow> Resource \<Rightarrow> Resource" where
  "set_ref new_ref res = res\<lparr>re_secret_ref := new_ref\<rparr>"

definition apply_rotation :: "CompanyOrg \<Rightarrow> string \<Rightarrow> string \<Rightarrow> (string + RotationApplied) \<times> CompanyOrg" where
  "apply_rotation org resource_id new_secret_ref =
     (case find_resource org resource_id of
        None \<Rightarrow> (Inl (''unknown resource '' @ quoted resource_id), org)
      | Some res \<Rightarrow>
          (Inr \<lparr>ra_resource_id = resource_id, ra_previous_ref = re_secret_ref res, ra_new_ref = new_secret_ref\<rparr>,
           org\<lparr>og_resources := update_first (\<lambda>r. re_id r = resource_id) (set_ref new_secret_ref) (og_resources org)\<rparr>))"

definition rotation_payload :: "string \<Rightarrow> string \<Rightarrow> string" where
  "rotation_payload resource_id new_secret_ref = ''rotate:'' @ resource_id @ ''|'' @ new_secret_ref"

definition split_once :: "char \<Rightarrow> string \<Rightarrow> (string \<times> string) option" where
  "split_once ch s = (if ch \<in> set s then Some (takeWhile (\<lambda>x. x \<noteq> ch) s, tl (dropWhile (\<lambda>x. x \<noteq> ch) s)) else None)"

definition parse_rotation_payload :: "string \<Rightarrow> (string \<times> string) option" where
  "parse_rotation_payload desc =
     (case strip_prefix desc ''rotate:'' of
        None \<Rightarrow> None
      | Some rest \<Rightarrow>
          (case split_once CHR ''|'' rest of
             None \<Rightarrow> None
           | Some (rid, nr) \<Rightarrow> if rid = [] \<or> nr = [] then None else Some (rid, nr)))"

definition propose_credential_rotation ::
  "(fp \<Rightarrow> string) \<Rightarrow> codec \<Rightarrow> string \<Rightarrow> string \<Rightarrow> string \<Rightarrow> CompanyOrg \<Rightarrow> org_store \<Rightarrow> RotationResult \<times> CompanyOrg \<times> org_store" where
  "propose_credential_rotation sf c role_id resource_id new_secret_ref org st =
     (if resource_id = ''credentials'' then (RotationDenied self_rotate_msg, org, st)
      else if find_resource org resource_id = None then (RotationDenied (''unknown resource '' @ quoted resource_id), org, st)
      else if new_secret_ref = [] then (RotationDenied empty_ref_msg, org, st)
      else (case check_permission sf org role_id ''credentials'' Deploy (Fin 0) of
          Denied reason \<Rightarrow> (RotationDenied reason, org, st)
        | RequiresApproval _ _ _ _ \<Rightarrow>
            (case submit_action sf c org role_id ''credentials'' Deploy (Fin 0) (rotation_payload resource_id new_secret_ref) st of
               (req, st1) \<Rightarrow>
                 (case ar_status req of
                    Pending \<Rightarrow> (RotationPending (ar_id req) (ar_required_approvers req) (max (ar_quorum req) 1), org, st1)
                  | Rejected \<Rightarrow> (RotationDenied (ar_decision_reason req), org, st1)
                  | s \<Rightarrow> (RotationDenied (''unexpected post-submit status: '' @ show_status s), org, st1)))
        | Allowed \<Rightarrow>
            (case apply_rotation org resource_id new_secret_ref of
               (Inr applied, org1) \<Rightarrow> (Sealed applied, org1, st)
             | (Inl reason, org1) \<Rightarrow> (RotationDenied reason, org1, st))))"

fun show_capability :: "Capability \<Rightarrow> string" where
  "show_capability Read = ''Read''"
| "show_capability Write = ''Write''"
| "show_capability Communicate = ''Communicate''"
| "show_capability Spend = ''Spend''"
| "show_capability Deploy = ''Deploy''"
| "show_capability Approve = ''Approve''"
| "show_capability Manage = ''Manage''"
| "show_capability Collaborate = ''Collaborate''"
| "show_capability DispatchTo = ''DispatchTo''"

definition execute_rotation_after_approval ::
  "codec \<Rightarrow> string \<Rightarrow> CompanyOrg \<Rightarrow> org_store \<Rightarrow> (string + RotationApplied) \<times> CompanyOrg \<times> org_store" where
  "execute_rotation_after_approval c request_id org st =
     (let all = load_requests st in
      case List.find (has_id request_id) all of
        None \<Rightarrow> (Inl (''no request '' @ quoted request_id), org, st)
      | Some req \<Rightarrow>
          if ar_status req \<noteq> Approved then (Inl (wrong_status request_id req ''Approved''), org, st)
          else if ar_capability req \<noteq> Deploy \<or> ar_resource_id req \<noteq> ''credentials''
          then (Inl (''request '' @ quoted request_id @ '' is not a credential rotation ('' @ ar_resource_id req @ ''/''
                  @ show_capability (ar_capability req) @ '')''), org, st)
          else (case parse_rotation_payload (ar_description req) of
              None \<Rightarrow> (Inl (''request '' @ quoted request_id @ '' has no valid rotation payload''), org, st)
            | Some (rid, new_ref) \<Rightarrow>
                (case apply_rotation org rid new_ref of
                   (Inl e, org1) \<Rightarrow> (Inl e, org1, st)
                 | (Inr applied, org1) \<Rightarrow>
                     (Inr applied, org1,
                      snd (save_requests c (update_first (has_id request_id) (\<lambda>r. r\<lparr>ar_status := Executed\<rparr>) all) st)))))"

section \<open>The payload\<close>

lemma split_once_sep: "ch \<notin> set a \<Longrightarrow> split_once ch (a @ ch # b) = Some (a, b)"
  by (auto simp: split_once_def takeWhile_append dropWhile_append)

lemma parse_payload:
  "CHR ''|'' \<notin> set rid \<Longrightarrow> rid \<noteq> [] \<Longrightarrow> nr \<noteq> [] \<Longrightarrow> parse_rotation_payload (rotation_payload rid nr) = Some (rid, nr)"
  using split_once_sep [of "CHR ''|''" rid nr]
  by (simp add: parse_rotation_payload_def rotation_payload_def strip_prefix_def starts_with_def)

text \<open>A resource id with the separator inside is read back as another resource.\<close>

lemma separator_in_id_redirects: "parse_rotation_payload (rotation_payload ''bank|x'' ''NEW'') = Some (''bank'', ''x|NEW'')"
  by code_simp

section \<open>Rotations do not move permissions\<close>

lemma find_set_ref:
  "List.find (\<lambda>r. re_id r = x) (update_first (\<lambda>r. re_id r = y) (set_ref n) rs) =
     map_option (\<lambda>r. if x = y then set_ref n r else r) (List.find (\<lambda>r. re_id r = x) rs)"
  by (induction rs) (auto simp: set_ref_def option.map_ident)

lemma rotation_keeps_permissions:
  "check_permission sf (snd (apply_rotation org x n)) role_id y cap amount = check_permission sf org role_id y cap amount
   \<and> lacks_authority (snd (apply_rotation org x n)) a y = lacks_authority org a y"
proof (cases "find_resource org x")
  case None
  then show ?thesis by (simp add: apply_rotation_def)
next
  case (Some res)
  let ?org = "org\<lparr>og_resources := update_first (\<lambda>r. re_id r = x) (set_ref n) (og_resources org)\<rparr>"
  have "find_resource ?org y = map_option (\<lambda>r. if y = x then set_ref n r else r) (find_resource org y)"
    by (simp add: find_resource_def find_set_ref)
  then have "forced_reasons sf (find_resource ?org y) g cap amount = forced_reasons sf (find_resource org y) g cap amount" for g
    by (cases "find_resource org y") (simp_all add: forced_reasons_def set_ref_def)
  with Some show ?thesis 
    by (cases "List.find (\<lambda>g. covers g role_id y cap) (og_grants org)")
      (simp_all add: apply_rotation_def check_permission_def lacks_authority_def find_role_def Let_def split_beta)
qed

section \<open>Properties\<close>

lemma fresh_find:
  assumes "ledger_advances (xs @ [r]) ys" "\<forall>x\<in>set xs. ar_id x \<noteq> ar_id r"
  shows "List.find (has_id (ar_id r)) ys = Some (ys ! length xs) \<and> advances r (ys ! length xs)"
proof -
  have adv: "length xs < length ys" "\<And>i. i \<le> length xs \<Longrightarrow> advances ((xs @ [r]) ! i) (ys ! i)"
    using assms(1) by (auto simp: ledger_advances_def le_imp_less_Suc)
  have "\<not> has_id (ar_id r) (ys ! i)" if "i < length xs" for i
  proof -
    have "ar_id (ys ! i) = ar_id (xs ! i)" using adv(2) [of i] that by (simp add: advances_def nth_append)
    then show ?thesis using assms(2) that by (simp add: has_id_def)
  qed
  moreover have "advances r (ys ! length xs)" using adv(2) [of "length xs"] by simp
  moreover from this have "has_id (ar_id r) (ys ! length xs)" by (simp add: has_id_def advances_def)
  ultimately show ?thesis using adv(1) by (auto simp: find_Some_iff intro!: exI [of _ "length xs"])
qed

lemma submit_action_fields:
  assumes "submit_action sf c org role_id x cap amount desc st = (r, st1)" "cd_requests c = Some" "os_disk st = (\<lambda>_. Landed)"
  shows "load_requests st1 = load_requests st @ [r]" "ar_description r = desc" "ar_resource_id r = x" "ar_capability r = cap"
proof -
  obtain i st2 where i: "gen_request_id org role_id x st = (i, st2)" by (metis surj_pair)
  obtain n st3 where n: "now_secs st2 = (n, st3)" by (metis surj_pair)
  have "os_requests st3 = os_requests st" "os_disk st3 = (\<lambda>_. Landed)"
    using gen_request_id_keeps(2,3) [of org role_id x st] clock_keeps(1,3) [of st2] i n assms(3) by simp_all
  then show "load_requests st1 = load_requests st @ [r]" "ar_description r = desc" "ar_resource_id r = x" "ar_capability r = cap"
    using assms(1,2) i n
    by (auto simp: submit_action_def submit_action_for_playbook_def save_requests_def write_file_def next_write_def
        load_requests_def read_file_def Let_def split: prod.splits)
qed

lemma pending_proposal:
  assumes "propose_credential_rotation sf c role_id rid new_ref org st = (RotationPending i as q, org1, st1)"
  obtains r res where "submit_action sf c org role_id ''credentials'' Deploy (Fin 0) (rotation_payload rid new_ref) st = (r, st1)"
    "ar_id r = i" "org1 = org" "new_ref \<noteq> []" "find_resource org rid = Some res"
proof -
  obtain r st2 where s: "submit_action sf c org role_id ''credentials'' Deploy (Fin 0) (rotation_payload rid new_ref) st = (r, st2)"
    by (metis surj_pair)
  show thesis
    using assms s by (intro that [of r "the (find_resource org rid)"])
      (auto simp: propose_credential_rotation_def split: if_splits Decision.splits ActionStatus.splits sum.splits prod.splits)
qed

text \<open>
  What is executed is what was proposed.  A queued proposal leaves the document alone; and
  whatever the queue does afterwards, executing the request is refused with nothing changed
  unless it is approved, and otherwise moves exactly the pointer of the proposed resource from
  its current value to the proposed one.
\<close>

theorem rotation_replays_proposal:
  assumes proposed: "propose_credential_rotation sf c role_id rid new_ref org st = (RotationPending i as q, org1, st1)"
    and disk: "cd_requests c = Some" "os_disk st = (\<lambda>_. Landed)"
    and rid: "rid \<noteq> []" "CHR ''|'' \<notin> set rid"
    and fresh: "\<forall>x\<in>set (load_requests st). ar_id x \<noteq> i"
    and afterwards: "ledger_advances (load_requests st1) (load_requests st2)"
  shows "org1 = org \<and> (\<exists>r res. List.find (has_id i) (load_requests st2) = Some r \<and> find_resource org rid = Some res
    \<and> (if ar_status r = Approved
       then \<exists>st3. execute_rotation_after_approval c i org st2 =
         (Inr \<lparr>ra_resource_id = rid, ra_previous_ref = re_secret_ref res, ra_new_ref = new_ref\<rparr>,
          org\<lparr>og_resources := update_first (\<lambda>r. re_id r = rid) (set_ref new_ref) (og_resources org)\<rparr>, st3)
       else \<exists>e. execute_rotation_after_approval c i org st2 = (Inl e, org, st2)))"
proof -
  obtain r res where sub: "submit_action sf c org role_id ''credentials'' Deploy (Fin 0) (rotation_payload rid new_ref) st = (r, st1)"
    and i: "ar_id r = i" and o: "org1 = org" and new: "new_ref \<noteq> []" and res: "find_resource org rid = Some res"
    by (rule pending_proposal [OF proposed])
  note r = submit_action_fields [OF sub disk]
  let ?s = "load_requests st2 ! length (load_requests st)"
  have f: "List.find (has_id i) (load_requests st2) = Some ?s" and adv: "advances r ?s"
    using fresh_find [OF afterwards [unfolded r(1)]] fresh i by simp_all
  from adv r(2-4) have "ar_capability ?s = Deploy" "ar_resource_id ?s = ''credentials''"
    "parse_rotation_payload (ar_description ?s) = Some (rid, new_ref)"
    using parse_payload [OF rid(2,1) new] by (simp_all add: advances_def)
  with f res o show ?thesis
    by (auto simp: execute_rotation_after_approval_def apply_rotation_def Let_def)
qed

text \<open>The operations lead proposes a new pointer for the bank account and both officers sign.\<close>

abbreviation demo_preset :: CompanyOrg where
  "demo_preset \<equiv> default_company_org []"

definition demo_rotation :: "queue_cmd list" where
  "demo_rotation = [SubmitCmd ''ops_lead'' ''credentials'' Deploy (Fin 0) (rotation_payload ''banking'' ''NEW'') None,
     ApproveCmd ''req_unitbuilds_cc_1103'' ''ceo'', ApproveCmd ''req_unitbuilds_cc_1103'' ''cto'']"

abbreviation demo_signed :: org_store where
  "demo_signed \<equiv> queue_run (\<lambda>_. []) demo_codec demo_preset demo_rotation demo_store_org"

definition demo_proposed :: org_store where
  "demo_proposed = snd (snd (propose_credential_rotation (\<lambda>_. []) demo_codec ''ops_lead'' ''banking'' ''NEW'' demo_preset demo_store_org))"

theorem rotation_replays_proposal_witness:
  "\<exists>res st3. find_resource demo_preset ''banking'' = Some res
     \<and> execute_rotation_after_approval demo_codec ''req_unitbuilds_cc_1103'' demo_preset demo_signed =
       (Inr \<lparr>ra_resource_id = ''banking'', ra_previous_ref = re_secret_ref res, ra_new_ref = ''NEW''\<rparr>,
        demo_preset\<lparr>og_resources := update_first (\<lambda>r. re_id r = ''banking'') (set_ref ''NEW'') (og_resources demo_preset)\<rparr>, st3)"
proof -
  have "fst (propose_credential_rotation (\<lambda>_. []) demo_codec ''ops_lead'' ''banking'' ''NEW'' demo_preset demo_store_org) =
      RotationPending ''req_unitbuilds_cc_1103'' [''ceo'', ''cto''] 2" by code_simp
  moreover have "fst (snd (propose_credential_rotation (\<lambda>_. []) demo_codec ''ops_lead'' ''banking'' ''NEW'' demo_preset demo_store_org)) = demo_preset"
    by code_simp
  ultimately have p: "propose_credential_rotation (\<lambda>_. []) demo_codec ''ops_lead'' ''banking'' ''NEW'' demo_preset demo_store_org =
      (RotationPending ''req_unitbuilds_cc_1103'' [''ceo'', ''cto''] 2, demo_preset, demo_proposed)"
    by (metis demo_proposed_def prod.collapse)
  have one: "load_requests demo_proposed = [hd (load_requests demo_proposed)]" "load_requests demo_signed = [hd (load_requests demo_signed)]"
    by code_simp+
  have "hd (load_requests demo_signed) = sign ''cto'' (sign ''ceo'' (hd (load_requests demo_proposed)))" by code_simp
  moreover have "advances x (sign b (sign a x))" if "ar_status x = Pending" "ar_status (sign a x) = Pending" for a b x
    using that by (auto simp: advances_def sign_def Let_def add_approver_def split: if_splits)
  moreover have "ar_status (hd (load_requests demo_proposed)) = Pending" "ar_status (sign ''ceo'' (hd (load_requests demo_proposed))) = Pending"
    by code_simp+
  ultimately have "advances (hd (load_requests demo_proposed)) (hd (load_requests demo_signed))" by simp
  then have adv: "ledger_advances (load_requests demo_proposed) (load_requests demo_signed)"
    by (subst one(1), subst one(2)) (simp add: ledger_advances_def)
  have disk: "cd_requests demo_codec = Some" "os_disk demo_store_org = (\<lambda>_. Landed)" by (simp_all add: demo_codec_def empty_store_def)
  have fresh: "\<forall>x\<in>set (load_requests demo_store_org). ar_id x \<noteq> ''req_unitbuilds_cc_1103''"
    by (simp add: load_requests_def read_file_def empty_store_def)
  have "ar_status (hd (load_requests demo_signed)) = Approved" by code_simp
  moreover have "List.find (has_id ''req_unitbuilds_cc_1103'') (load_requests demo_signed) = Some (hd (load_requests demo_signed))" by code_simp
  moreover have rid: "''banking'' \<noteq> []" "CHR ''|'' \<notin> set ''banking''" by code_simp+
  note rotation_replays_proposal [OF p disk rid fresh adv]
  ultimately show ?thesis by auto
qed

text \<open>The gate of the built-in organisation: the chief executive and the chief technology officer.\<close>

lemma preset_rotation_approvers:
  assumes "check_permission sf (default_company_org pbs) role_id ''credentials'' Deploy amount = RequiresApproval ids as q reason"
  shows "fp_le (Fin 0) amount \<Longrightarrow> as = [''ceo'', ''cto''] \<and> q = 2" "\<not> fp_le (Fin 0) amount \<Longrightarrow> as = []"
  using requires_approval_closed [OF assms]
  by (simp_all add: preset_firing required_approvers_of_def required_quorum_of_def preset_policies_def preset_policy_def add_approver_def)

lemma preset_rotation_gated: "check_permission sf (default_company_org pbs) role_id ''credentials'' Deploy amount \<noteq> Allowed"
proof (cases "List.find (\<lambda>g. covers g role_id ''credentials'' Deploy) (og_grants (default_company_org pbs))")
  case None
  from check_permission_ungranted [OF None, of sf amount] show ?thesis by auto
next
  case (Some g)
  have "map_option re_sensitive (find_resource (default_company_org pbs) ''credentials'') = Some True" by code_simp
  then have "forced_reasons sf (find_resource (default_company_org pbs) ''credentials'') g Deploy amount \<noteq> []"
    by (cases "find_resource (default_company_org pbs) ''credentials''") (simp_all add: forced_reasons_def is_outward_def)
  with check_permission_granted [OF Some, of sf amount] show ?thesis by (auto simp: Let_def)
qed

lemma two_signers: "distinct xs \<Longrightarrow> 2 \<le> length xs \<Longrightarrow> set xs \<subseteq> {a, b} \<Longrightarrow> a \<in> set xs \<and> b \<in> set xs"
proof -
  assume d: "distinct xs" "2 \<le> length xs" and s: "set xs \<subseteq> {a, b}"
  have "card (set xs) = length xs" using d(1) by (rule distinct_card)
  with d(2) s show "a \<in> set xs \<and> b \<in> set xs"
    using card_mono [of "{a}" "set xs"] card_mono [of "{b}" "set xs"] by fastforce
qed

text \<open>
  C7. Rotation is under dual control in the built-in organisation.  No role can seal a rotation
  directly: a proposal is denied or waits for both the chief executive and the chief technology
  officer.  And after any history of the queue, on any disk, a rotation that executes stems from
  a request that both have signed, or from one that was submitted to the queue with an amount
  below zero (or not a number), which escapes the policy and was signed by the human operator.
\<close>

theorem rotation_dual_control:
  assumes "codec_faithful c" "os_requests st = None"
    and "execute_rotation_after_approval c i (default_company_org pbs) (queue_run sf c (default_company_org pbs) cmds st) = (Inr applied, org', st')"
  shows "(case fst (propose_credential_rotation sf c role_id rid new_ref (default_company_org pbs) st) of
        Sealed _ \<Rightarrow> False | RotationPending _ as q \<Rightarrow> as = [''ceo'', ''cto''] \<and> q = 2 | RotationDenied _ \<Rightarrow> True)
    \<and> (\<exists>role amount desc pb. SubmitCmd role ''credentials'' Deploy amount desc pb \<in> set cmds
      \<and> (if fp_le (Fin 0) amount then ApproveCmd i ''ceo'' \<in> set cmds \<and> ApproveCmd i ''cto'' \<in> set cmds
         else ApproveCmd i HUMAN_OPERATOR \<in> set cmds))"
proof
  let ?org = "default_company_org pbs"
  have "fp_le (Fin 0) (Fin 0)" by code_simp
  note zero = preset_rotation_approvers(1) [OF _ this]
  obtain q st1 where "submit_action sf c ?org role_id ''credentials'' Deploy (Fin 0) (rotation_payload rid new_ref) st = (q, st1)"
    by (metis surj_pair)
  then show "case fst (propose_credential_rotation sf c role_id rid new_ref ?org st) of
        Sealed _ \<Rightarrow> False | RotationPending _ as q \<Rightarrow> as = [''ceo'', ''cto''] \<and> q = 2 | RotationDenied _ \<Rightarrow> True"
    using preset_rotation_gated [of sf pbs role_id "Fin 0"]
    by (auto simp: propose_credential_rotation_def submit_action_def submit_action_for_playbook_def submit_fields_def Let_def
        split: Decision.splits ActionStatus.splits prod.splits dest!: zero)
  let ?st = "queue_run sf c ?org cmds st"
  obtain r where f: "List.find (has_id i) (load_requests ?st) = Some r"
    and r: "ar_status r = Approved" "ar_capability r = Deploy" "ar_resource_id r = ''credentials''"
    using assms(3) by (auto simp: execute_rotation_after_approval_def Let_def split: option.splits if_splits)
  have "\<forall>r\<in>set (load_requests st). explained sf ?org (set cmds) r"
    using assms(2) by (simp add: load_requests_def read_file_def)
  from queue_run_explained [OF assms(1) this] find_Some_mem [OF f] have ex: "explained sf ?org (set cmds) r" "ar_id r = i"
    by (auto simp: has_id_def)
  then obtain amount desc pb where s: "SubmitCmd (ar_role_id r) ''credentials'' Deploy amount desc pb \<in> set cmds"
    and fo: "follows ?org (set cmds) (check_permission sf ?org (ar_role_id r) ''credentials'' Deploy amount) r"
    using r unfolding explained_def by auto
  let ?d = "check_permission sf ?org (ar_role_id r) ''credentials'' Deploy amount"
  have "\<not> (\<exists>x. ?d = Denied x)" using fo r(1) by auto
  with preset_rotation_gated [of sf pbs "ar_role_id r" amount] obtain ids as q reason
    where d: "?d = RequiresApproval ids as q reason" by (cases ?d) auto
  note signers = fo [unfolded d, simplified, simplified r(1) ex(2)]
  have "if fp_le (Fin 0) amount then ApproveCmd i ''ceo'' \<in> set cmds \<and> ApproveCmd i ''cto'' \<in> set cmds
         else ApproveCmd i HUMAN_OPERATOR \<in> set cmds"
  proof (cases "fp_le (Fin 0) amount")
    case True
    with preset_rotation_approvers(1) [OF d True] signers two_signers [of "ar_approvals r" "''ceo''" "''cto''"] show ?thesis by auto
  next
    case False
    with preset_rotation_approvers(2) [OF d False] signers show ?thesis
      by (cases "ar_approvals r") auto
  qed
  with s show "\<exists>role amount desc pb. SubmitCmd role ''credentials'' Deploy amount desc pb \<in> set cmds
      \<and> (if fp_le (Fin 0) amount then ApproveCmd i ''ceo'' \<in> set cmds \<and> ApproveCmd i ''cto'' \<in> set cmds
         else ApproveCmd i HUMAN_OPERATOR \<in> set cmds)" by blast
qed

theorem rotation_dual_control_witness:
  "ApproveCmd ''req_unitbuilds_cc_1103'' ''ceo'' \<in> set demo_rotation \<and> ApproveCmd ''req_unitbuilds_cc_1103'' ''cto'' \<in> set demo_rotation"
proof -
  let ?x = "execute_rotation_after_approval demo_codec ''req_unitbuilds_cc_1103'' demo_preset demo_signed"
  have "fst ?x = Inr \<lparr>ra_resource_id = ''banking'', ra_previous_ref = ra_previous_ref (projr (fst ?x)), ra_new_ref = ''NEW''\<rparr>" by code_simp
  then obtain a org' st' where x: "?x = (Inr a, org', st')" by (metis prod.collapse)
  have st: "os_requests demo_store_org = None" by (simp add: empty_store_def)
  have "fp_le (Fin 0) (Fin 0)" by code_simp
  moreover have "amount = Fin 0" if "SubmitCmd role ''credentials'' Deploy amount desc pb \<in> set demo_rotation" for role amount desc pb
    using that by (simp add: demo_rotation_def)
  moreover note rotation_dual_control [OF demo_codec_faithful st x, THEN conjunct2]
  ultimately show ?thesis by fastforce
qed

text \<open>The way around the policy: an amount below zero, signed by the human operator alone.\<close>

lemma negative_amount_evades_dual_control:
  "\<exists>ids reason. check_permission sf demo_preset ''ops_lead'' ''credentials'' Deploy (Fin (- 1)) = RequiresApproval ids [] 1 reason"
proof -
  have "\<exists>g. List.find (\<lambda>g. covers g ''ops_lead'' ''credentials'' Deploy) (og_grants demo_preset) = Some g"
    unfolding granted_iff by code_simp
  then obtain g where g: "List.find (\<lambda>g. covers g ''ops_lead'' ''credentials'' Deploy) (og_grants demo_preset) = Some g" ..
  have "\<not> fp_le (Fin 0) (Fin (- 1))" by code_simp
  then have "firing demo_preset ''credentials'' Deploy (Fin (- 1)) = []" by (simp add: preset_firing)
  with check_permission_granted [OF g, of sf "Fin (- 1)"] preset_rotation_gated [of sf "[]" "''ops_lead''" "Fin (- 1)"]
  show ?thesis by (auto simp: Let_def required_approvers_of_def required_quorum_of_def split: if_splits)
qed

end
