(* ===== verification/Task_Graph.thy ===== *)
theory Task_Graph
  imports Rust_Std
begin

text \<open>
  The orchestrator's plan (\<open>velocity-mcp/src/orchestrator\<close>): the graph of work packages
  (\<open>blueprint.rs\<close>), the phases of its execution plan (\<open>scheduler.rs\<close>), the
  status registry that dispatches ready tasks (\<open>registry.rs\<close>) and the reconciliation of
  their outputs (\<open>reconcile.rs\<close>).  The map of tasks is an association list in its
  iteration order, which the theorems do not constrain.
\<close>

section \<open>Tasks\<close>

type_synonym TaskId = u64

record Task =
  ts_id :: TaskId
  ts_title :: string
  ts_description :: string
  ts_scope :: "string list"
  ts_dependencies :: "TaskId list"
  ts_output :: "string option"
  ts_priority :: u32
  ts_estimated_weight :: u32

record TaskGraph =
  tg_tasks :: "(TaskId \<times> Task) list"
  tg_root :: TaskId

definition task_ids :: "TaskGraph \<Rightarrow> TaskId list" where
  "task_ids g = map fst (tg_tasks g)"

definition task_get :: "TaskGraph \<Rightarrow> TaskId \<Rightarrow> Task option" where
  "task_get g i = map_of (tg_tasks g) i"

definition weight_of :: "TaskGraph \<Rightarrow> TaskId \<Rightarrow> u32" where
  "weight_of g i = (case task_get g i of Some t \<Rightarrow> ts_estimated_weight t | None \<Rightarrow> 1)"

definition graph_len :: "TaskGraph \<Rightarrow> nat" where
  "graph_len g = length (tg_tasks g)"

definition dependents :: "TaskGraph \<Rightarrow> TaskId \<Rightarrow> Task list" where
  "dependents g i = filter (\<lambda>t. i \<in> set (ts_dependencies t)) (map snd (tg_tasks g))"

definition leaves :: "TaskGraph \<Rightarrow> Task list" where
  "leaves g =
     (let all_deps = set (concat (map (\<lambda>p. ts_dependencies (snd p)) (tg_tasks g)))
      in filter (\<lambda>t. ts_id t \<notin> all_deps) (map snd (tg_tasks g)))"

definition ready :: "TaskGraph \<Rightarrow> TaskId set \<Rightarrow> Task list" where
  "ready g completed =
     sort_key (\<lambda>t. - uint (ts_priority t))
       (filter (\<lambda>t. ts_id t \<notin> completed \<and> list_all (\<lambda>d. d \<in> completed) (ts_dependencies t)) (map snd (tg_tasks g)))"

definition new_task :: "TaskId \<Rightarrow> string \<Rightarrow> string \<Rightarrow> string list \<Rightarrow> TaskId list \<Rightarrow> Task" where
  "new_task i title desc scope deps =
     \<lparr>ts_id = i, ts_title = title, ts_description = desc, ts_scope = scope, ts_dependencies = deps,
      ts_output = None, ts_priority = 0, ts_estimated_weight = 1\<rparr>"

definition add_dependency :: "TaskId \<Rightarrow> Task \<Rightarrow> Task" where
  "add_dependency i t = (if i \<in> set (ts_dependencies t) then t else t\<lparr>ts_dependencies := ts_dependencies t @ [i]\<rparr>)"

definition graph_add ::
  "TaskId \<Rightarrow> string \<Rightarrow> string \<Rightarrow> string list \<Rightarrow> TaskId list \<Rightarrow> TaskId option \<Rightarrow> TaskGraph \<Rightarrow> TaskGraph" where
  "graph_add i title desc scope deps parent g =
     (let g1 = g\<lparr>tg_tasks := AList.update i (new_task i title desc scope deps) (tg_tasks g)\<rparr> in
      case parent of
        None \<Rightarrow> g1
      | Some p \<Rightarrow>
          if p = i then g1
          else (case task_get g1 p of
              None \<Rightarrow> g1
            | Some t \<Rightarrow> g1\<lparr>tg_tasks := AList.update p (add_dependency i t) (tg_tasks g1)\<rparr>))"

section \<open>Scopes\<close>

definition normalize_scope :: "string \<Rightarrow> string" where
  "normalize_scope entry = to_lowercase (trim_matches (\<lambda>c. c = CHR ''/'') (replace_char CHR 0x5C CHR ''/'' entry))"

definition path_overlaps :: "string \<Rightarrow> string \<Rightarrow> bool" where
  "path_overlaps x y =
     (let a = normalize_scope x; b = normalize_scope y in
      if a = [] \<or> b = [] then False
      else a = b \<or> starts_with a (b @ ''/'') \<or> starts_with b (a @ ''/''))"

definition touches_group :: "string list \<Rightarrow> string list \<Rightarrow> bool" where
  "touches_group scope files = list_ex (\<lambda>e. list_ex (\<lambda>f. path_overlaps e f) files) scope"

definition scopes_conflict :: "string list \<Rightarrow> string list \<Rightarrow> string list list \<Rightarrow> bool" where
  "scopes_conflict a b groups =
     (if a = [] \<or> b = [] then False
      else list_ex (\<lambda>x. list_ex (\<lambda>y. path_overlaps x y) b) a
        \<or> list_ex (\<lambda>g. touches_group a g \<and> touches_group b g) groups)"

definition scope_of :: "TaskGraph \<Rightarrow> TaskId \<Rightarrow> string list" where
  "scope_of g i = (case task_get g i of Some t \<Rightarrow> ts_scope t | None \<Rightarrow> [])"

section \<open>The plan\<close>

text \<open>A task joins the first sub-wave it collides with nobody in, or opens a new one.\<close>

fun place :: "TaskGraph \<Rightarrow> string list list \<Rightarrow> TaskId \<Rightarrow> TaskId list list \<Rightarrow> TaskId list list" where
  "place g groups i [] = [[i]]"
| "place g groups i (w # ws) =
     (if \<not> list_ex (\<lambda>other. scopes_conflict (scope_of g other) (scope_of g i) groups) w then (w @ [i]) # ws
      else w # place g groups i ws)"

definition split_conflict_free :: "TaskGraph \<Rightarrow> TaskId list \<Rightarrow> string list list \<Rightarrow> TaskId list list" where
  "split_conflict_free g wave groups = fold (place g groups) wave []"

lemma ready_progress:
  assumes "ready g completed \<noteq> []"
  shows "length (filter (\<lambda>p. ts_id (snd p) \<notin> completed \<union> set (map ts_id (ready g completed))) (tg_tasks g)) <
     length (filter (\<lambda>p. ts_id (snd p) \<notin> completed) (tg_tasks g))"
proof -
  obtain t where t: "t \<in> set (ready g completed)" using assms by (meson last_in_set)
  then obtain k where k: "(k, t) \<in> set (tg_tasks g)" and nc: "ts_id t \<notin> completed" by (auto simp: ready_def)
  have "filter (\<lambda>p. ts_id (snd p) \<notin> completed \<union> set (map ts_id (ready g completed))) (tg_tasks g) =
      filter (\<lambda>p. ts_id (snd p) \<notin> set (map ts_id (ready g completed))) (filter (\<lambda>p. ts_id (snd p) \<notin> completed) (tg_tasks g))"
    by (auto intro: filter_cong)
  moreover have "(k, t) \<in> set (filter (\<lambda>p. ts_id (snd p) \<notin> completed) (tg_tasks g))" using k nc by simp
  moreover have "\<not> ts_id (snd (k, t)) \<notin> set (map ts_id (ready g completed))" using t by simp
  ultimately show ?thesis using length_filter_less [of "(k, t)" "filter (\<lambda>p. ts_id (snd p) \<notin> completed) (tg_tasks g)"] by simp
qed

function plan_loop :: "TaskGraph \<Rightarrow> string list list \<Rightarrow> TaskId set \<Rightarrow> TaskId list list \<Rightarrow> TaskId list list" where
  "plan_loop g groups completed phases =
     (if card completed < length (tg_tasks g) then
        (let wave = map ts_id (ready g completed) in
         if wave = [] then phases
         else plan_loop g groups (completed \<union> set wave) (phases @ split_conflict_free g wave groups))
      else phases)"
  by pat_completeness auto
termination
  by (relation "measure (\<lambda>(g, groups, completed, phases). length (filter (\<lambda>p. ts_id (snd p) \<notin> completed) (tg_tasks g)))")
    (use ready_progress in auto)

declare plan_loop.simps [simp del]

definition plan_with_conflicts :: "TaskGraph \<Rightarrow> string list list \<Rightarrow> TaskId list list" where
  "plan_with_conflicts g groups = plan_loop g groups {} []"

definition plan :: "TaskGraph \<Rightarrow> TaskId list list" where
  "plan g = plan_with_conflicts g []"

definition bfs :: "TaskGraph \<Rightarrow> TaskId list" where
  "bfs g = concat (plan g)"

section \<open>What the plan promises\<close>

text \<open>Every task is stored under its own id, once.\<close>

definition graph_ok :: "TaskGraph \<Rightarrow> bool" where
  "graph_ok g \<longleftrightarrow> distinct (task_ids g) \<and> (\<forall>(k, t)\<in>set (tg_tasks g). ts_id t = k)"

definition deps_of :: "TaskGraph \<Rightarrow> TaskId \<Rightarrow> TaskId list" where
  "deps_of g i = (case task_get g i of Some t \<Rightarrow> ts_dependencies t | None \<Rightarrow> [])"

text \<open>A dependency edge, from what is needed to the task that needs it.\<close>

definition dep_rel :: "TaskGraph \<Rightarrow> (TaskId \<times> TaskId) set" where
  "dep_rel g = {(d, i). d \<in> set (deps_of g i)}"

lemma deps_of_absent: "i \<notin> set (task_ids g) \<Longrightarrow> deps_of g i = []"
  by (simp add: deps_of_def task_get_def task_ids_def map_of_eq_None_iff [THEN iffD2])

lemma finite_dep_rel: "finite (dep_rel g)"
proof -
  have "dep_rel g \<subseteq> (\<Union>i\<in>set (task_ids g). set (deps_of g i) \<times> {i})"
    using deps_of_absent by (force simp: dep_rel_def)
  then show ?thesis by (rule finite_subset) simp
qed

text \<open>A task can be scheduled when it exists and all it depends on can be scheduled.\<close>

inductive schedulable :: "TaskGraph \<Rightarrow> TaskId \<Rightarrow> bool" for g where
  schedule: "i \<in> set (task_ids g) \<Longrightarrow> (\<And>d. d \<in> set (deps_of g i) \<Longrightarrow> schedulable g d) \<Longrightarrow> schedulable g i"

definition conflict_free :: "TaskGraph \<Rightarrow> string list list \<Rightarrow> TaskId list \<Rightarrow> bool" where
  "conflict_free g groups w \<longleftrightarrow> (\<forall>i\<in>set w. \<forall>j\<in>set w. i \<noteq> j \<longrightarrow> \<not> scopes_conflict (scope_of g i) (scope_of g j) groups)"

lemma set_update_mem: "(k', v') \<in> set (AList.update k v al) \<Longrightarrow> (k', v') \<in> set al \<or> k' = k \<and> v' = v"
  by (induction al) (auto split: if_splits)

lemma graph_add_ok: "graph_ok g \<Longrightarrow> graph_ok (graph_add i title desc scope deps parent g)"
proof -
  assume ok: "graph_ok g"
  have upd: "graph_ok (g\<lparr>tg_tasks := AList.update k t (tg_tasks g)\<rparr>)" if "graph_ok g" "ts_id t = k" for g k t
    using that by (auto simp: graph_ok_def task_ids_def distinct_update dest: set_update_mem)
  let ?g1 = "g\<lparr>tg_tasks := AList.update i (new_task i title desc scope deps) (tg_tasks g)\<rparr>"
  have g1: "graph_ok ?g1" by (rule upd [OF ok]) (simp add: new_task_def)
  have "ts_id t = p" if "task_get ?g1 p = Some t" for p t
    using g1 map_of_SomeD [of "tg_tasks ?g1" p t] that by (auto simp: graph_ok_def task_get_def)
  then have "graph_ok (?g1\<lparr>tg_tasks := AList.update p (add_dependency i t) (tg_tasks ?g1)\<rparr>)" if "task_get ?g1 p = Some t" for p t
    using upd [OF g1, of "add_dependency i t" p] that by (simp add: add_dependency_def)
  with g1 show ?thesis by (auto simp: graph_add_def Let_def split: option.splits)
qed

lemma path_overlaps_sym: "path_overlaps x y = path_overlaps y x"
  by (auto simp: path_overlaps_def Let_def)

lemma scopes_conflict_sym: "scopes_conflict a b groups = scopes_conflict b a groups"
  unfolding scopes_conflict_def list_ex_iff using path_overlaps_sym by (auto simp: conj_commute)

lemma mset_place: "mset (concat (place g groups i ws)) = add_mset i (mset (concat ws))"
  by (induction ws) auto

lemma mset_split: "mset (concat (split_conflict_free g wave groups)) = mset wave"
proof -
  have "mset (concat (fold (place g groups) wave ws)) = mset wave + mset (concat ws)" for ws
    by (induction wave arbitrary: ws) (auto simp: mset_place)
  then show ?thesis by (simp add: split_conflict_free_def)
qed

lemma set_split [simp]: "set (concat (split_conflict_free g wave groups)) = set wave"
  by (metis mset_split set_mset_mset)

lemma conflict_free_snoc:
  assumes "conflict_free g groups w" "\<not> list_ex (\<lambda>o'. scopes_conflict (scope_of g o') (scope_of g i) groups) w"
  shows "conflict_free g groups (w @ [i])"
proof -
  have "\<not> scopes_conflict (scope_of g j) (scope_of g i) groups" if "j \<in> set w" for j
    using assms(2) that by (simp add: list_ex_iff)
  moreover from this have "\<not> scopes_conflict (scope_of g i) (scope_of g j) groups" if "j \<in> set w" for j
    using that by (subst scopes_conflict_sym)
  ultimately show ?thesis using assms(1) by (simp add: conflict_free_def)
qed

lemma place_free: "list_all (conflict_free g groups) ws \<Longrightarrow> list_all (conflict_free g groups) (place g groups i ws)"
proof (induction ws)
  case (Cons w ws)
  then show ?case using conflict_free_snoc [of g groups w i] by simp
qed (simp add: conflict_free_def)

lemma split_free: "list_all (conflict_free g groups) (split_conflict_free g wave groups)"
proof -
  have "list_all (conflict_free g groups) ws \<Longrightarrow> list_all (conflict_free g groups) (fold (place g groups) wave ws)" for ws
    by (induction wave arbitrary: ws) (auto simp: place_free)
  then show ?thesis by (simp add: split_conflict_free_def)
qed

lemma graph_ok_get: "graph_ok g \<Longrightarrow> (k, t) \<in> set (tg_tasks g) \<Longrightarrow> task_get g (ts_id t) = Some t \<and> ts_id t = k"
  by (auto simp: graph_ok_def task_get_def task_ids_def intro: map_of_is_SomeI)

lemma graph_ok_id:
  assumes "graph_ok g" "i \<in> set (task_ids g)"
  obtains t where "(i, t) \<in> set (tg_tasks g)" "ts_id t = i" "task_get g i = Some t" "deps_of g i = ts_dependencies t"
proof -
  obtain t where "(i, t) \<in> set (tg_tasks g)" using assms(2) by (auto simp: task_ids_def)
  with graph_ok_get [OF assms(1) this] show thesis by (intro that) (auto simp: deps_of_def)
qed

lemma map_of_ids: "graph_ok g \<Longrightarrow> map (\<lambda>p. ts_id (snd p)) (tg_tasks g) = task_ids g"
  by (auto simp: graph_ok_def task_ids_def)

lemma set_wave:
  assumes "graph_ok g"
  shows "set (map ts_id (ready g completed)) = {i \<in> set (task_ids g). i \<notin> completed \<and> set (deps_of g i) \<subseteq> completed}"
proof -
  have "i \<in> set (map ts_id (ready g completed)) \<longleftrightarrow> i \<in> set (task_ids g) \<and> i \<notin> completed \<and> set (deps_of g i) \<subseteq> completed" for i
  proof
    assume "i \<in> set (map ts_id (ready g completed))"
    then obtain t where "t \<in> set (ready g completed)" "i = ts_id t" by auto
    then obtain k where t: "(k, t) \<in> set (tg_tasks g)" "i = ts_id t" "ts_id t \<notin> completed" "set (ts_dependencies t) \<subseteq> completed"
      by (auto simp: ready_def list_all_iff subset_iff)
    with graph_ok_get [OF assms t(1)] show "i \<in> set (task_ids g) \<and> i \<notin> completed \<and> set (deps_of g i) \<subseteq> completed"
      by (force simp: task_ids_def deps_of_def)
  next
    assume a: "i \<in> set (task_ids g) \<and> i \<notin> completed \<and> set (deps_of g i) \<subseteq> completed"
    then obtain t where "(i, t) \<in> set (tg_tasks g)" "ts_id t = i" "deps_of g i = ts_dependencies t"
      using graph_ok_id [OF assms] by metis
    with a show "i \<in> set (map ts_id (ready g completed))" by (force simp: ready_def list_all_iff)
  qed
  then show ?thesis by blast
qed

lemma distinct_wave: "graph_ok g \<Longrightarrow> distinct (map ts_id (ready g completed))"
proof -
  assume ok: "graph_ok g"
  have "distinct (map ts_id (map snd (tg_tasks g)))" using map_of_ids [OF ok] ok by (simp add: graph_ok_def comp_def)
  then have "distinct (map ts_id (filter P (map snd (tg_tasks g))))" for P by (rule distinct_map_filter)
  then show ?thesis by (simp add: ready_def distinct_map)
qed

text \<open>The waves planned so far: each task after everything it depends on, no collision within a wave.\<close>

definition layered :: "TaskGraph \<Rightarrow> TaskId list list \<Rightarrow> bool" where
  "layered g phases \<longleftrightarrow> (\<forall>n<length phases. \<forall>i\<in>set (phases ! n). set (deps_of g i) \<subseteq> set (concat (take n phases)))"

lemma layered_append:
  assumes "layered g phases" "\<And>i. i \<in> set (concat ws) \<Longrightarrow> set (deps_of g i) \<subseteq> set (concat phases)"
  shows "layered g (phases @ ws)"
  unfolding layered_def
proof (intro allI impI ballI)
  fix n i assume n: "n < length (phases @ ws)" and i: "i \<in> set ((phases @ ws) ! n)"
  show "set (deps_of g i) \<subseteq> set (concat (take n (phases @ ws)))"
  proof (cases "n < length phases")
    case True
    with i assms(1) show ?thesis by (auto simp: layered_def nth_append)
  next
    case False
    with n i have "i \<in> set (concat ws)" by (auto simp: nth_append intro!: bexI [of _ "ws ! (n - length phases)"])
    with assms(2) [OF this] False show ?thesis by auto
  qed
qed

definition plan_inv :: "TaskGraph \<Rightarrow> string list list \<Rightarrow> TaskId set \<Rightarrow> TaskId list list \<Rightarrow> bool" where
  "plan_inv g groups completed phases \<longleftrightarrow> set (concat phases) = completed \<and> distinct (concat phases)
     \<and> completed \<subseteq> Collect (schedulable g) \<and> layered g phases \<and> list_all (conflict_free g groups) phases"

lemma schedulable_id: "schedulable g i \<Longrightarrow> i \<in> set (task_ids g)"
  by (cases rule: schedulable.cases) auto

lemma plan_inv_step:
  assumes ok: "graph_ok g" and inv: "plan_inv g groups completed phases" and wave: "wave = map ts_id (ready g completed)"
  shows "plan_inv g groups (completed \<union> set wave) (phases @ split_conflict_free g wave groups)"
proof -
  have w: "set wave = {i \<in> set (task_ids g). i \<notin> completed \<and> set (deps_of g i) \<subseteq> completed}" "distinct wave"
    using set_wave [OF ok] distinct_wave [OF ok] wave by simp_all
  have "distinct (concat (split_conflict_free g wave groups))" using w(2) mset_split by (metis mset_eq_imp_distinct_iff)
  then have "distinct (concat (phases @ split_conflict_free g wave groups))"
    using inv w(1) set_split [of g wave groups] by (auto simp: plan_inv_def)
  moreover have "schedulable g i" if "i \<in> set wave" for i
  proof (rule schedule)
    show "i \<in> set (task_ids g)" using that w(1) by simp
    show "schedulable g d" if "d \<in> set (deps_of g i)" for d
    proof -
      have "set (deps_of g i) \<subseteq> completed" using \<open>i \<in> set wave\<close> w(1) by simp
      then show ?thesis using that inv unfolding plan_inv_def by blast
    qed
  qed
  moreover have "layered g (phases @ split_conflict_free g wave groups)"
    using inv w(1) set_split [of g wave groups] by (intro layered_append) (auto simp: plan_inv_def)
  moreover have "set (concat (phases @ split_conflict_free g wave groups)) = completed \<union> set wave"
    using inv set_split [of g wave groups] unfolding plan_inv_def concat_append set_append by simp
  moreover have "list_all (conflict_free g groups) (phases @ split_conflict_free g wave groups)"
    using inv split_free [of g groups wave] by (simp add: plan_inv_def)
  moreover have "completed \<subseteq> Collect (schedulable g)" using inv by (simp add: plan_inv_def)
  ultimately show ?thesis unfolding plan_inv_def by blast
qed

lemma plan_inv_done:
  assumes ok: "graph_ok g" and inv: "plan_inv g groups completed phases"
    and stop: "length (tg_tasks g) \<le> card completed \<or> ready g completed = []"
  shows "completed = Collect (schedulable g)"
proof -
  have sub: "completed \<subseteq> Collect (schedulable g)" using inv by (simp add: plan_inv_def)
  moreover have "Collect (schedulable g) \<subseteq> set (task_ids g)" using schedulable_id by auto
  moreover have "card (set (task_ids g)) = length (tg_tasks g)"
    using ok by (metis graph_ok_def distinct_card length_map task_ids_def)
  ultimately have full: "completed = Collect (schedulable g)" if "length (tg_tasks g) \<le> card completed"
    using that card_seteq [of "set (task_ids g)" completed] by auto
  have "i \<in> completed" if "schedulable g i" "ready g completed = []" for i
    using that(1)
  proof induction
    case (schedule i)
    then have "set (deps_of g i) \<subseteq> completed" by auto
    with schedule(1) set_wave [OF ok, of completed] that(2) show ?case by auto
  qed
  with full stop sub show ?thesis by auto
qed

lemma plan_loop_correct:
  "plan_inv g groups completed phases \<Longrightarrow> graph_ok g \<Longrightarrow> plan_inv g groups (Collect (schedulable g)) (plan_loop g groups completed phases)"
proof (induction g groups completed phases rule: plan_loop.induct)
  case (1 g groups completed phases)
  let ?wave = "map ts_id (ready g completed)"
  show ?case
  proof (cases "card completed < length (tg_tasks g) \<and> ?wave \<noteq> []")
    case True
    with 1(1) [OF _ refl] plan_inv_step [OF 1(3,2) refl] 1(3) show ?thesis
      by (simp add: plan_loop.simps [of g groups completed phases] Let_def)
  next
    case False
    with plan_inv_done [OF 1(3,2)] 1(2) show ?thesis
      by (auto simp: plan_loop.simps [of g groups completed phases] Let_def)
  qed
qed

lemma plan_inv_plan:
  assumes "graph_ok g"
  shows "plan_inv g groups (Collect (schedulable g)) (plan_with_conflicts g groups)"
proof -
  have "plan_inv g groups {} []" by (simp add: plan_inv_def layered_def)
  from plan_loop_correct [OF this assms] show ?thesis by (simp add: plan_with_conflicts_def)
qed

lemma plan_covers: "graph_ok g \<Longrightarrow> set (concat (plan_with_conflicts g groups)) = {i. schedulable g i}"
  using plan_inv_plan [of g groups] unfolding plan_inv_def by blast

section \<open>Properties of the plan\<close>

definition demo_graph :: TaskGraph where
  "demo_graph = graph_add 3 ''c'' [] [''src/a/lib.rs''] [1] None
     (graph_add 2 ''b'' [] [''src/a''] [1] None (graph_add 1 ''a'' [] [] [] None \<lparr>tg_tasks = [], tg_root = 1\<rparr>))"

lemma empty_graph_ok: "graph_ok \<lparr>tg_tasks = [], tg_root = r\<rparr>"
  by (simp add: graph_ok_def task_ids_def)

lemma demo_graph_ok: "graph_ok demo_graph"
  unfolding demo_graph_def by (intro graph_add_ok empty_graph_ok)

text \<open>
  C6. The plan is a correct parallel schedule: whatever the graph (cycles and missing
  dependencies included), planning ends, plans every task at most once, and plans exactly the
  tasks that can run at all; every dependency of a task is in a strictly earlier phase; and no
  two tasks of one phase have scopes that collide, directly or through a group of files that
  conflicted before.
\<close>

theorem plan_correct:
  assumes "graph_ok g"
  shows "distinct (concat (plan_with_conflicts g groups))
    \<and> set (concat (plan_with_conflicts g groups)) = {i. schedulable g i}
    \<and> (\<forall>n<length (plan_with_conflicts g groups). \<forall>i\<in>set (plan_with_conflicts g groups ! n). \<forall>d\<in>set (deps_of g i).
         \<exists>m<n. d \<in> set (plan_with_conflicts g groups ! m))
    \<and> (\<forall>w\<in>set (plan_with_conflicts g groups). \<forall>i\<in>set w. \<forall>j\<in>set w. i \<noteq> j \<longrightarrow>
         \<not> scopes_conflict (scope_of g i) (scope_of g j) groups)"
proof -
  let ?p = "plan_with_conflicts g groups"
  note inv = plan_inv_plan [OF assms, of groups]
  have "\<exists>m<n. d \<in> set (?p ! m)" if "n < length ?p" "i \<in> set (?p ! n)" "d \<in> set (deps_of g i)" for n i d
  proof -
    have "set (deps_of g i) \<subseteq> set (concat (take n ?p))" using inv that(1,2) unfolding plan_inv_def layered_def by blast
    then have "d \<in> set (concat (take n ?p))" using that(3) by blast
    then obtain w where "w \<in> set (take n ?p)" "d \<in> set w" by auto
    moreover from this obtain m where "m < n" "w = ?p ! m" using that(1) by (auto simp: in_set_conv_nth [of w])
    ultimately show ?thesis by blast
  qed
  with inv show ?thesis by (auto simp: plan_inv_def conflict_free_def list_all_iff)
qed

theorem plan_correct_witness:
  "plan demo_graph = [[1], [2], [3]] \<and> {i. schedulable demo_graph i} = {1, 2, 3}"
proof -
  have p: "plan demo_graph = [[1], [2], [3]]" by code_simp
  from plan_correct [OF demo_graph_ok, of "[]", THEN conjunct2, THEN conjunct1] p
  have "{i. schedulable demo_graph i} = set (concat [[1], [2], [3]])" by (simp only: plan_def)
  also have "\<dots> = {1, 2, 3}" by simp
  finally show ?thesis using p by blast
qed

end
