(* ===== verification/Cycle_Check.thy ===== *)
theory Cycle_Check
  imports Task_Graph
begin

text \<open>
  Cycles of the task graph (\<open>velocity-mcp/src/orchestrator/scheduler.rs\<close>): the
  recursive search \<open>detect_cycle\<close>, the iterative search \<open>find_back_edge\<close> with
  colours and an explicit stack, and the repair \<open>break_cycles\<close>.  Both searches are total:
  the recursive one by the nodes not visited yet, the iterative one by the white nodes and the
  work left on its stack.  The repair is shown to end within its budget, and what it takes out.
\<close>

section \<open>The recursive search\<close>

definition nodes :: "TaskGraph \<Rightarrow> TaskId set" where
  "nodes g = set (task_ids g) \<union> set (concat (map (deps_of g) (task_ids g)))"

lemma finite_nodes [simp]: "finite (nodes g)"
  by (simp add: nodes_def)

lemma deps_in_nodes: "set (deps_of g i) \<subseteq> nodes g"
proof (cases "i \<in> set (task_ids g)")
  case True
  then show ?thesis by (auto simp: nodes_def)
qed (simp add: deps_of_absent)

function (sequential)
  dfs :: "TaskGraph \<Rightarrow> TaskId \<Rightarrow> TaskId set \<Rightarrow> TaskId set \<Rightarrow> bool \<times> TaskId set \<times> TaskId set"
and dfs_deps :: "TaskGraph \<Rightarrow> TaskId list \<Rightarrow> TaskId set \<Rightarrow> TaskId set \<Rightarrow> bool \<times> TaskId set \<times> TaskId set" where
  "dfs g i visited stack =
     (case dfs_deps g (deps_of g i) (insert i visited) (insert i stack) of
        (found, v, s) \<Rightarrow> if found then (True, v, s) else (False, v, s - {i}))"
| "dfs_deps g [] visited stack = (False, visited, stack)"
| "dfs_deps g (d # ds) visited stack =
     (if d \<notin> visited then
        (case dfs g d visited stack of
           (found, v, s) \<Rightarrow> if found \<or> d \<in> s then (True, v, s) else dfs_deps g ds v s)
      else if d \<in> stack then (True, visited, stack)
      else dfs_deps g ds visited stack)"
  by pat_completeness auto

text \<open>The visited set only grows, which the termination of the nested recursion needs.\<close>

lemma dfs_visited_grows:
  "dfs_dfs_deps_dom (Inl (g, i, v, s)) \<Longrightarrow> v \<subseteq> fst (snd (dfs g i v s))"
  "dfs_dfs_deps_dom (Inr (g, ds, v, s)) \<Longrightarrow> v \<subseteq> fst (snd (dfs_deps g ds v s))"
proof (induction rule: dfs_dfs_deps.pinduct)
  case (1 g i v s)
  then show ?case by (auto simp: dfs.psimps split: prod.splits)
next
  case (2 g v s)
  then show ?case by (simp add: dfs_deps.psimps)
next
  case (3 g d ds v s)
  show ?case
  proof (cases "d \<in> v")
    case True
    with 3 show ?thesis by (auto simp: dfs_deps.psimps)
  next
    case False
    obtain f v1 s1 where d: "dfs g d v s = (f, v1, s1)" by (metis prod_cases3)
    with 3(2) [OF False] have "v \<subseteq> v1" by simp
    with 3(1) 3(3) [OF False d [symmetric] refl] d False show ?thesis by (auto simp: dfs_deps.psimps)
  qed
qed

termination dfs
proof (relation "inv_image (less_than <*lex*> less_than)
    (\<lambda>x. case x of Inl (g, i, v, s) \<Rightarrow> (card ((nodes g \<union> {i}) - insert i v), Suc (length (deps_of g i)))
       | Inr (g, ds, v, s) \<Rightarrow> (card ((nodes g \<union> set ds) - v), length ds))", goal_cases)
  case 1
  show ?case by (intro wf_inv_image wf_lex_prod wf_less_than)
next
  case (2 g i v s)
  have "(nodes g \<union> set (deps_of g i)) - insert i v \<subseteq> (nodes g \<union> {i}) - insert i v" using deps_in_nodes by auto
  then have "card ((nodes g \<union> set (deps_of g i)) - insert i v) \<le> card ((nodes g \<union> {i}) - insert i v)"
    by (intro card_mono) auto
  then show ?case by auto
next
  case (3 g d ds v s)
  have "(nodes g \<union> {d}) - insert d v \<subset> (nodes g \<union> set (d # ds)) - v" using 3 by auto
  then have "card ((nodes g \<union> {d}) - insert d v) < card ((nodes g \<union> set (d # ds)) - v)" by (intro psubset_card_mono) auto
  then show ?case by simp
next
  case (4 g d ds v s x f v1 s1)
  have "v \<subseteq> v1" using dfs_visited_grows(1) 4 by (metis fst_conv snd_conv)
  then have "card ((nodes g \<union> set ds) - v1) \<le> card ((nodes g \<union> set (d # ds)) - v)" by (intro card_mono) auto
  then show ?case by auto
next
  case (5 g d ds v s)
  have "card ((nodes g \<union> set ds) - v) \<le> card ((nodes g \<union> set (d # ds)) - v)" by (intro card_mono) auto
  then show ?case by auto
qed

declare dfs.simps [simp del]

fun detect_loop :: "TaskGraph \<Rightarrow> TaskId list \<Rightarrow> TaskId set \<Rightarrow> TaskId set \<Rightarrow> bool" where
  "detect_loop g [] visited stack = False"
| "detect_loop g (i # is) visited stack =
     (if i \<notin> visited
      then (case dfs g i visited stack of (found, v, s) \<Rightarrow> if found then True else detect_loop g is v s)
      else detect_loop g is visited stack)"

definition detect_cycle :: "TaskGraph \<Rightarrow> bool" where
  "detect_cycle g = detect_loop g (task_ids g) {} {}"

section \<open>What the recursive search decides\<close>

abbreviation cyclic :: "TaskGraph \<Rightarrow> bool" where
  "cyclic g \<equiv> \<not> acyclic (dep_rel g)"

text \<open>A set that holds the dependencies of its members holds everything they depend on.\<close>

lemma closed_rtrancl:
  assumes "\<forall>x\<in>F. set (deps_of g x) \<subseteq> F" "(y, x) \<in> (dep_rel g)\<^sup>*" "x \<in> F"
  shows "y \<in> F"
  using assms(2,3)
proof (induction rule: converse_rtrancl_induct)
  case (step y z)
  then show ?case using assms(1) by (auto simp: dep_rel_def)
qed simp

lemma off_cycle:
  assumes "\<forall>x\<in>F. set (deps_of g x) \<subseteq> F" "set (deps_of g i) \<subseteq> F" "i \<notin> F"
  shows "(i, i) \<notin> (dep_rel g)\<^sup>+"
proof
  assume "(i, i) \<in> (dep_rel g)\<^sup>+"
  then obtain d where "(i, d) \<in> (dep_rel g)\<^sup>*" "(d, i) \<in> dep_rel g" by (metis tranclD2)
  with assms(2) closed_rtrancl [OF assms(1)] assms(3) show False by (auto simp: dep_rel_def)
qed

definition dfs_inv :: "TaskGraph \<Rightarrow> TaskId set \<Rightarrow> TaskId set \<Rightarrow> bool" where
  "dfs_inv g v s \<longleftrightarrow> s \<subseteq> v \<and> (\<forall>x\<in>v - s. set (deps_of g x) \<subseteq> v - s \<and> (x, x) \<notin> (dep_rel g)\<^sup>+)"

lemma cyclicI: "(x, x) \<in> (dep_rel g)\<^sup>+ \<Longrightarrow> cyclic g"
  by (auto simp: acyclic_def)

lemma dfs_spec:
  "i \<notin> v \<Longrightarrow> dfs_inv g v s \<Longrightarrow> \<forall>x\<in>s. (i, x) \<in> (dep_rel g)\<^sup>+ \<Longrightarrow> dfs g i v s = (found, v', s') \<Longrightarrow>
     (if found then cyclic g else s' = s \<and> insert i v \<subseteq> v' \<and> dfs_inv g v' s)"
  "dfs_inv g v s \<Longrightarrow> \<forall>x\<in>s. \<forall>d\<in>set ds. (d, x) \<in> (dep_rel g)\<^sup>+ \<Longrightarrow> dfs_deps g ds v s = (found, v', s') \<Longrightarrow>
     (if found then cyclic g else s' = s \<and> v \<subseteq> v' \<and> set ds \<subseteq> v' - s \<and> dfs_inv g v' s)"
proof (induction g i v s and g ds v s arbitrary: found v' s' and found v' s' rule: dfs_dfs_deps.induct)
  case (1 g i v s)
  obtain f v1 s1 where r: "dfs_deps g (deps_of g i) (insert i v) (insert i s) = (f, v1, s1)" by (metis prod_cases3)
  have s: "i \<notin> s" "insert i v - insert i s = v - s" using 1(2,3) by (auto simp: dfs_inv_def)
  have "dfs_inv g (insert i v) (insert i s)" using 1(3) s(2) by (auto simp: dfs_inv_def)
  moreover have "\<forall>x\<in>insert i s. \<forall>d\<in>set (deps_of g i). (d, x) \<in> (dep_rel g)\<^sup>+"
    using 1(4) by (auto simp: dep_rel_def intro: trancl_into_trancl2)
  ultimately have post: "if f then cyclic g else s1 = insert i s \<and> insert i v \<subseteq> v1 \<and> set (deps_of g i) \<subseteq> v1 - insert i s
      \<and> dfs_inv g v1 (insert i s)" by (rule 1(1) [OF _ _ r])
  show ?case
  proof (cases f)
    case True
    with post r 1(5) show ?thesis by (auto simp: dfs.simps)
  next
    case False
    with post have p: "s1 = insert i s" "insert i v \<subseteq> v1" "set (deps_of g i) \<subseteq> v1 - insert i s" "dfs_inv g v1 (insert i s)" by auto
    have closed: "\<forall>x\<in>v1 - insert i s. set (deps_of g x) \<subseteq> v1 - insert i s" using p(4) by (simp add: dfs_inv_def)
    have "(i, i) \<notin> (dep_rel g)\<^sup>+" using off_cycle [OF closed p(3)] by simp
    moreover have "v1 - s = insert i (v1 - insert i s)" using s(1) p(2) by auto
    ultimately have "dfs_inv g v1 s" using p(3,4) unfolding dfs_inv_def by auto
    with False r 1(5) p s(1) show ?thesis by (auto simp: dfs.simps)
  qed
next
  case (3 g d ds v s)
  show ?case
  proof (cases "d \<in> v")
    case True
    show ?thesis
    proof (cases "d \<in> s")
      case d: True
      then have "cyclic g" using 3(5) by (intro cyclicI [of d]) auto
      with True d 3(6) show ?thesis by auto
    next
      case d: False
      with 3(3) [OF _ d, of found v' s'] 3(4-6) True show ?thesis by (auto simp: subset_iff)
    qed
  next
    case False
    obtain f v1 s1 where r: "dfs g d v s = (f, v1, s1)" by (metis prod_cases3)
    have post: "if f then cyclic g else s1 = s \<and> insert d v \<subseteq> v1 \<and> dfs_inv g v1 s"
      using 3(1) [OF False False 3(4) _ r] 3(5) by auto
    show ?thesis
    proof (cases f)
      case True
      with post r False 3(6) show ?thesis by auto
    next
      case f: False
      with post have p: "s1 = s" "insert d v \<subseteq> v1" "dfs_inv g v1 s" by auto
      have d: "d \<notin> s" using False 3(4) by (auto simp: dfs_inv_def)
      then have "dfs_deps g ds v1 s = (found, v', s')" using 3(6) False r f p(1) by simp
      from 3(2) [OF False r [symmetric] refl _ _ _ this [folded p(1)]] f d p 3(5)
      show ?thesis by (auto simp: subset_iff split: if_splits)
    qed
  qed
qed (auto split: if_splits)

lemma detect_loop_spec:
  "dfs_inv g v {} \<Longrightarrow> \<exists>v'. (if detect_loop g is v {} then cyclic g else dfs_inv g v' {} \<and> v \<union> set is \<subseteq> v')"
proof (induction "is" arbitrary: v)
  case (Cons i "is")
  show ?case
  proof (cases "i \<in> v")
    case True
    with Cons.IH [OF Cons.prems] show ?thesis by (auto split: if_splits)
  next
    case False
    obtain f v1 s1 where r: "dfs g i v {} = (f, v1, s1)" by (metis prod_cases3)
    have post: "if f then cyclic g else s1 = {} \<and> insert i v \<subseteq> v1 \<and> dfs_inv g v1 {}"
      using dfs_spec(1) [OF False Cons.prems _ r] by simp
    show ?thesis
    proof (cases f)
      case True
      with post r False show ?thesis by simp
    next
      case f: False
      with post have p: "s1 = {}" "insert i v \<subseteq> v1" "dfs_inv g v1 {}" by auto
      from Cons.IH [OF p(3)] p(1,2) r f False show ?thesis by (auto split: if_splits)
    qed
  qed
qed auto

lemma on_cycle_in_graph: "(x, x) \<in> (dep_rel g)\<^sup>+ \<Longrightarrow> x \<in> set (task_ids g)"
proof -
  assume "(x, x) \<in> (dep_rel g)\<^sup>+"
  then obtain d where "(d, x) \<in> dep_rel g" by (metis tranclD2)
  then show ?thesis using deps_of_absent [of x g] by (cases "x \<in> set (task_ids g)") (auto simp: dep_rel_def)
qed

lemma detect_cycle_iff: "detect_cycle g \<longleftrightarrow> cyclic g"
proof -
  have "dfs_inv g {} {}" by (simp add: dfs_inv_def)
  from detect_loop_spec [OF this, of "task_ids g"] obtain v where
    v: "if detect_cycle g then cyclic g else dfs_inv g v {} \<and> set (task_ids g) \<subseteq> v" unfolding detect_cycle_def by (metis sup_bot_left)
  show ?thesis
  proof (cases "detect_cycle g")
    case False
    with v have "(x, x) \<notin> (dep_rel g)\<^sup>+" for x using on_cycle_in_graph [of x g] by (auto simp: dfs_inv_def)
    then have "acyclic (dep_rel g)" by (simp add: acyclic_def)
    with False show ?thesis by simp
  qed (use v in simp)
qed

text \<open>Without a cycle everything whose dependencies exist can be scheduled.\<close>

lemma schedulable_all:
  assumes "acyclic (dep_rel g)" "\<forall>i\<in>set (task_ids g). set (deps_of g i) \<subseteq> set (task_ids g)" "i \<in> set (task_ids g)"
  shows "schedulable g i"
proof -
  have "wf (dep_rel g)" using finite_acyclic_wf finite_dep_rel assms(1) by blast
  then show ?thesis using assms(3)
  proof (induction i)
    case (less i)
    show ?case
    proof (rule schedule)
      show "schedulable g d" if "d \<in> set (deps_of g i)" for d
        using less assms(2) that by (auto simp: dep_rel_def)
    qed (rule less.prems)
  qed
qed

lemma schedulable_off_cycle: "schedulable g i \<Longrightarrow> (i, i) \<notin> (dep_rel g)\<^sup>+ \<and> set (deps_of g i) \<subseteq> set (task_ids g)"
proof (induction rule: schedulable.induct)
  case (schedule i)
  have "(i, i) \<notin> (dep_rel g)\<^sup>+"
  proof
    assume c: "(i, i) \<in> (dep_rel g)\<^sup>+"
    then obtain d where d: "(i, d) \<in> (dep_rel g)\<^sup>*" "(d, i) \<in> dep_rel g" by (metis tranclD2)
    then have "(d, d) \<in> (dep_rel g)\<^sup>+" by (metis rtrancl_into_trancl2)
    with schedule(3) [of d] d(2) show False by (simp add: dep_rel_def)
  qed
  with schedule schedulable_id show ?case by blast
qed

text \<open>
  C12. The cycle check decides exactly whether the dependencies have a cycle; and it is the right
  test before planning: a plan covers every task precisely when the check finds no cycle and
  every dependency names a task of the graph.
\<close>

theorem cycle_check_exact:
  assumes "graph_ok g"
  shows "(detect_cycle g \<longleftrightarrow> (\<exists>i. (i, i) \<in> (dep_rel g)\<^sup>+))
    \<and> (set (concat (plan_with_conflicts g groups)) = set (task_ids g) \<longleftrightarrow>
        \<not> detect_cycle g \<and> (\<forall>i\<in>set (task_ids g). set (deps_of g i) \<subseteq> set (task_ids g)))"
proof
  show "detect_cycle g \<longleftrightarrow> (\<exists>i. (i, i) \<in> (dep_rel g)\<^sup>+)" by (simp add: detect_cycle_iff acyclic_def)
  have p: "set (concat (plan_with_conflicts g groups)) = {i. schedulable g i}" by (rule plan_covers [OF assms])
  show "set (concat (plan_with_conflicts g groups)) = set (task_ids g) \<longleftrightarrow>
        \<not> detect_cycle g \<and> (\<forall>i\<in>set (task_ids g). set (deps_of g i) \<subseteq> set (task_ids g))"
  proof
    assume "set (concat (plan_with_conflicts g groups)) = set (task_ids g)"
    with p have all: "\<forall>i\<in>set (task_ids g). schedulable g i" by auto
    have "(i, i) \<notin> (dep_rel g)\<^sup>+" for i using all on_cycle_in_graph [of i g] schedulable_off_cycle [of g i] by blast
    with all schedulable_off_cycle show "\<not> detect_cycle g \<and> (\<forall>i\<in>set (task_ids g). set (deps_of g i) \<subseteq> set (task_ids g))"
      unfolding detect_cycle_iff acyclic_def by blast
  next
    assume "\<not> detect_cycle g \<and> (\<forall>i\<in>set (task_ids g). set (deps_of g i) \<subseteq> set (task_ids g))"
    with schedulable_all [of g] schedulable_id [of g] p show "set (concat (plan_with_conflicts g groups)) = set (task_ids g)"
      unfolding detect_cycle_iff by auto
  qed
qed

theorem cycle_check_exact_witness: "\<not> detect_cycle demo_graph \<and> set (concat (plan_with_conflicts demo_graph [])) = set (task_ids demo_graph)"
proof -
  have "\<not> detect_cycle demo_graph" by code_simp
  moreover have "\<forall>i\<in>set (task_ids demo_graph). set (deps_of demo_graph i) \<subseteq> set (task_ids demo_graph)" by code_simp
  ultimately show ?thesis using cycle_check_exact [OF demo_graph_ok, of "[]"] by blast
qed

section \<open>The iterative search\<close>

datatype color = White | Grey | Black

definition stack_work :: "TaskGraph \<Rightarrow> (TaskId \<times> nat) list \<Rightarrow> nat" where
  "stack_work g stack = sum_list (map (\<lambda>(n, k). Suc (length (deps_of g n) - k)) stack)"

definition whites :: "TaskGraph \<Rightarrow> (TaskId \<rightharpoonup> color) \<Rightarrow> TaskId set" where
  "whites g color = {x \<in> nodes g. color x = Some White}"

text \<open>The walk from one root: the closing edge, or the colours when the stack is empty.\<close>

function walk :: "TaskGraph \<Rightarrow> (TaskId \<rightharpoonup> color) \<Rightarrow> (TaskId \<times> nat) list \<Rightarrow> (TaskId \<rightharpoonup> color) + TaskId \<times> TaskId" where
  "walk g color [] = Inl color"
| "walk g color ((node, k) # stack) =
     (if k < length (deps_of g node) then
        (let dep = deps_of g node ! k in
         case color dep of
           Some Grey \<Rightarrow> Inr (node, dep)
         | Some White \<Rightarrow> walk g (color(dep \<mapsto> Grey)) ((dep, 0) # (node, k + 1) # stack)
         | _ \<Rightarrow> walk g color ((node, k + 1) # stack))
      else walk g (color(node \<mapsto> Black)) stack)"
  by pat_completeness auto

lemma whites_grey: "dep \<in> nodes g \<Longrightarrow> color dep = Some White \<Longrightarrow> whites g (color(dep \<mapsto> Grey)) \<subset> whites g color"
  by (auto simp: whites_def)

lemma whites_black: "whites g (color(dep \<mapsto> Black)) \<subseteq> whites g color"
  by (auto simp: whites_def split: if_splits)

lemma finite_whites [simp]: "finite (whites g color)"
  by (rule finite_subset [of _ "nodes g"]) (auto simp: whites_def)

termination walk
proof (relation "inv_image (less_than <*lex*> less_than) (\<lambda>(g, color, stack). (card (whites g color), stack_work g stack))", goal_cases)
  case 1
  show ?case by (intro wf_inv_image wf_lex_prod wf_less_than)
next
  case (2 g color node k stack)
  then show ?case by (auto simp: stack_work_def)
next
  case (3 g color node k stack dep c)
  then have "dep \<in> nodes g" "color dep = Some White" using deps_in_nodes [of g node] nth_mem [of k "deps_of g node"] by (cases c; auto)+
  from psubset_card_mono [OF _ whites_grey [of dep g color, OF this]] show ?case by simp
next
  case (4 g color node k stack)
  then show ?case by (auto simp: stack_work_def)
next
  case (5 g color node k stack)
  have "card (whites g (color(node \<mapsto> Black))) \<le> card (whites g color)" by (intro card_mono whites_black) simp
  then show ?case by (auto simp: stack_work_def)
qed

declare walk.simps(2) [simp del]

fun roots_loop :: "TaskGraph \<Rightarrow> TaskId list \<Rightarrow> (TaskId \<rightharpoonup> color) \<Rightarrow> (TaskId \<times> TaskId) option" where
  "roots_loop g [] color = None"
| "roots_loop g (r # rs) color =
     (if color r \<noteq> Some White then roots_loop g rs color
      else (case walk g (color(r \<mapsto> Grey)) [(r, 0)] of
              Inr edge \<Rightarrow> Some edge
            | Inl color1 \<Rightarrow> roots_loop g rs color1))"

definition find_back_edge :: "TaskGraph \<Rightarrow> (TaskId \<times> TaskId) option" where
  "find_back_edge g = roots_loop g (sort (task_ids g)) (map_of (map (\<lambda>i. (i, White)) (task_ids g)))"

definition drop_edge :: "TaskId \<Rightarrow> TaskId \<Rightarrow> TaskGraph \<Rightarrow> TaskGraph" where
  "drop_edge node dep g =
     (case task_get g node of
        None \<Rightarrow> g
      | Some t \<Rightarrow> g\<lparr>tg_tasks := AList.update node (t\<lparr>ts_dependencies := filter (\<lambda>d. d \<noteq> dep) (ts_dependencies t)\<rparr>) (tg_tasks g)\<rparr>)"

function break_loop :: "nat \<Rightarrow> TaskGraph \<Rightarrow> (TaskId \<times> TaskId) list \<Rightarrow> (TaskId \<times> TaskId) list \<times> TaskGraph" where
  "break_loop budget g removed =
     (if length removed < budget then
        (case find_back_edge g of
           None \<Rightarrow> (removed, g)
         | Some (node, dep) \<Rightarrow> break_loop budget (drop_edge node dep g) (removed @ [(node, dep)]))
      else (removed, g))"
  by pat_completeness auto
termination
  by (relation "measure (\<lambda>(budget, g, removed). budget - length removed)") auto

declare break_loop.simps [simp del]

definition edge_budget :: "TaskGraph \<Rightarrow> nat" where
  "edge_budget g = sum_list (map (\<lambda>p. length (ts_dependencies (snd p))) (tg_tasks g)) + 1"

definition break_cycles :: "TaskGraph \<Rightarrow> (TaskId \<times> TaskId) list \<times> TaskGraph" where
  "break_cycles g = break_loop (edge_budget g) g []"

section \<open>What the iterative search finds\<close>

definition finished :: "(TaskId \<rightharpoonup> color) \<Rightarrow> TaskId set" where
  "finished color = {x. color x = Some Black \<or> color x = None}"

text \<open>
  Below the top of the stack, the dependencies already walked are finished, except the one
  that leads to the node above.
\<close>

fun walked :: "TaskGraph \<Rightarrow> (TaskId \<rightharpoonup> color) \<Rightarrow> TaskId option \<Rightarrow> (TaskId \<times> nat) list \<Rightarrow> bool" where
  "walked g color over [] = True"
| "walked g color over ((n, k) # stack) \<longleftrightarrow>
     (\<forall>d\<in>set (take k (deps_of g n)). d \<in> finished color \<or> Some d = over) \<and> walked g color (Some n) stack"

fun path_stack :: "TaskGraph \<Rightarrow> (TaskId \<times> nat) list \<Rightarrow> bool" where
  "path_stack g ((a, k) # (b, m) # stack) \<longleftrightarrow> (a, b) \<in> dep_rel g \<and> path_stack g ((b, m) # stack)"
| "path_stack g _ = True"

definition walk_inv :: "TaskGraph \<Rightarrow> (TaskId \<rightharpoonup> color) \<Rightarrow> (TaskId \<times> nat) list \<Rightarrow> bool" where
  "walk_inv g color stack \<longleftrightarrow> dom color = set (task_ids g) \<and> {x. color x = Some Grey} = fst ` set stack
     \<and> distinct (map fst stack) \<and> path_stack g stack \<and> walked g color None stack
     \<and> (\<forall>x. color x = Some Black \<longrightarrow> set (deps_of g x) \<subseteq> finished color \<and> (x, x) \<notin> (dep_rel g)\<^sup>+)"

lemma path_stack_top: "path_stack g ((a, k) # stack) \<Longrightarrow> x \<in> fst ` set ((a, k) # stack) \<Longrightarrow> (a, x) \<in> (dep_rel g)\<^sup>*"
proof (induction stack arbitrary: a k)
  case (Cons p stack)
  obtain b m where p: "p = (b, m)" by (metis surj_pair)
  with Cons.prems(1) have e: "(a, b) \<in> dep_rel g" "path_stack g ((b, m) # stack)" by auto
  show ?case
  proof (cases "x = a")
    case False
    then have "x \<in> fst ` set ((b, m) # stack)" using Cons.prems(2) p by auto
    with Cons.IH [OF e(2)] e(1) show ?thesis by (metis converse_rtrancl_into_rtrancl)
  qed simp
qed simp

lemma walked_mono: "walked g color over stack \<Longrightarrow> finished color \<subseteq> finished color' \<Longrightarrow> walked g color' over stack"
  by (induction g color over stack rule: walked.induct) auto

lemma walked_above: "walked g color (Some n) stack \<Longrightarrow> n \<in> finished color \<Longrightarrow> walked g color None stack"
  by (cases stack) auto

lemma walk_inv_grey: "walk_inv g color stack \<Longrightarrow> color x = Some Grey \<longleftrightarrow> x \<in> fst ` set stack"
  unfolding walk_inv_def by blast

lemma walk_inv_black: "walk_inv g color stack \<Longrightarrow> color x = Some Black \<Longrightarrow> set (deps_of g x) \<subseteq> finished color"
  unfolding walk_inv_def by blast

lemma finished_closed:
  assumes "walk_inv g color stack"
  shows "\<forall>x\<in>finished color. set (deps_of g x) \<subseteq> finished color"
proof
  fix x assume "x \<in> finished color"
  moreover have "deps_of g x = []" if "color x = None"
    using that assms deps_of_absent [of x g] by (auto simp: walk_inv_def)
  ultimately show "set (deps_of g x) \<subseteq> finished color"
    using walk_inv_black [OF assms, of x] by (cases "color x") (simp_all add: finished_def [of color])
qed

text \<open>The three moves of the walk that do not end it.\<close>

lemma walk_push:
  assumes inv: "walk_inv g color ((node, k) # stack)" and k: "k < length (deps_of g node)"
    and dep: "deps_of g node ! k = dep" "color dep = Some White"
  shows "walk_inv g (color(dep \<mapsto> Grey)) ((dep, 0) # (node, k + 1) # stack)"
proof -
  have fin: "finished (color(dep \<mapsto> Grey)) = finished color" using dep(2) by (auto simp: finished_def)
  have "dep \<notin> fst ` set ((node, k) # stack)" using walk_inv_grey [OF inv, of dep] dep(2) by simp
  moreover have "(dep, node) \<in> dep_rel g" using k dep(1) by (auto simp: dep_rel_def)
  moreover have "dom (color(dep \<mapsto> Grey)) = set (task_ids g)" using inv dep(2) by (auto simp: walk_inv_def)
  moreover have "{x. (color(dep \<mapsto> Grey)) x = Some Grey} = insert dep (fst ` set ((node, k) # stack))"
    using inv by (auto simp: walk_inv_def)
  moreover have "walked g (color(dep \<mapsto> Grey)) None ((dep, 0) # (node, k + 1) # stack)"
    using inv k dep(1) walked_mono [of g color "Some node" stack "color(dep \<mapsto> Grey)"]
    by (auto simp: walk_inv_def fin take_Suc_conv_app_nth)
  moreover have "path_stack g ((node, k + 1) # stack)" using inv by (cases stack) (auto simp: walk_inv_def)
  ultimately show ?thesis using inv dep(2) by (auto simp: walk_inv_def fin split: if_splits)
qed

lemma walk_skip:
  assumes inv: "walk_inv g color ((node, k) # stack)" and k: "k < length (deps_of g node)"
    and dep: "deps_of g node ! k \<in> finished color"
  shows "walk_inv g color ((node, k + 1) # stack)"
proof -
  have "path_stack g ((node, k + 1) # stack)" using inv by (cases stack) (auto simp: walk_inv_def)
  with inv k dep show ?thesis by (auto simp: walk_inv_def take_Suc_conv_app_nth)
qed

lemma walk_pop:
  assumes inv: "walk_inv g color ((node, k) # stack)" and k: "\<not> k < length (deps_of g node)"
  shows "walk_inv g (color(node \<mapsto> Black)) stack"
proof -
  let ?c = "color(node \<mapsto> Black)"
  have grey: "color node = Some Grey" using walk_inv_grey [OF inv, of node] by simp
  have deps: "set (deps_of g node) \<subseteq> finished color" using inv k by (auto simp: walk_inv_def)
  have off: "(node, node) \<notin> (dep_rel g)\<^sup>+"
    by (rule off_cycle [OF finished_closed [OF inv] deps]) (use grey in \<open>simp add: finished_def\<close>)
  have fin: "finished ?c = insert node (finished color)" using grey by (auto simp: finished_def)
  have "walked g ?c (Some node) stack" using inv walked_mono [of g color "Some node" stack ?c] by (auto simp: walk_inv_def fin)
  then have "walked g ?c None stack" using walked_above fin by blast
  moreover have "{x. ?c x = Some Grey} = fst ` set stack" using inv by (auto simp: walk_inv_def split: if_splits)
  moreover have "path_stack g stack" using inv by (cases stack) (auto simp: walk_inv_def)
  moreover have "dom ?c = set (task_ids g)" using inv grey by (auto simp: walk_inv_def)
  ultimately show ?thesis using inv deps off by (auto simp: walk_inv_def fin)
qed

lemma grown_colors:
  assumes "case r of Inr (node, dep) \<Rightarrow> P node dep | Inl color' \<Rightarrow> Q color' \<and> (\<forall>x. c1 x \<noteq> Some White \<longrightarrow> color' x \<noteq> Some White)"
    and "\<And>x. c0 x \<noteq> Some White \<Longrightarrow> c1 x \<noteq> Some White"
  shows "case r of Inr (node, dep) \<Rightarrow> P node dep | Inl color' \<Rightarrow> Q color' \<and> (\<forall>x. c0 x \<noteq> Some White \<longrightarrow> color' x \<noteq> Some White)"
  using assms by (auto split: sum.splits)

lemma walk_spec:
  "walk_inv g color stack \<Longrightarrow>
     (case walk g color stack of
        Inr (node, dep) \<Rightarrow> (dep, node) \<in> dep_rel g \<and> (dep, dep) \<in> (dep_rel g)\<^sup>+
      | Inl color' \<Rightarrow> walk_inv g color' [] \<and> (\<forall>x. color x \<noteq> Some White \<longrightarrow> color' x \<noteq> Some White))"
proof (induction g color stack rule: walk.induct)
  case (2 g color node k stack)
  show ?case
  proof (cases "k < length (deps_of g node)")
    case True
    let ?d = "deps_of g node ! k"
    have e: "(?d, node) \<in> dep_rel g" using True by (auto simp: dep_rel_def)
    consider "color ?d = Some Grey" | "color ?d = Some White" | "?d \<in> finished color"
      by (cases "color ?d") (auto simp: finished_def intro: color.exhaust)
    then show ?thesis
    proof cases
      case 1
      then have "?d \<in> fst ` set ((node, k) # stack)" using walk_inv_grey [OF 2(5), of ?d] by simp
      moreover have "path_stack g ((node, k) # stack)" using 2(5) by (simp add: walk_inv_def)
      ultimately have "(node, ?d) \<in> (dep_rel g)\<^sup>*" by (intro path_stack_top)
      with e have "(?d, ?d) \<in> (dep_rel g)\<^sup>+" by (metis rtrancl_into_trancl2)
      with 1 True e show ?thesis by (simp add: walk.simps(2))
    next
      case w: 2
      have eq: "walk g color ((node, k) # stack) = walk g (color(?d \<mapsto> Grey)) ((?d, 0) # (node, k + 1) # stack)"
        using w True by (simp add: walk.simps(2) [of g color node k stack] Let_def)
      show ?thesis unfolding eq
        by (rule grown_colors [OF 2(2) [OF True refl w refl walk_push [OF 2(5) True refl w]]]) simp
    next
      case f: 3
      note inv = walk_skip [OF 2(5) True f]
      show ?thesis
      proof (cases "color ?d")
        case None
        from 2(1) [OF True refl None inv] None True show ?thesis by (simp add: walk.simps(2))
      next
        case (Some c)
        with f have "c = Black" by (simp add: finished_def)
        from 2(3) [OF True refl Some this inv] Some this True show ?thesis by (simp add: walk.simps(2))
      qed
    qed
  next
    case False
    have eq: "walk g color ((node, k) # stack) = walk g (color(node \<mapsto> Black)) stack"
      using False by (simp add: walk.simps(2) [of g color node k stack])
    show ?thesis unfolding eq by (rule grown_colors [OF 2(4) [OF False walk_pop [OF 2(5) False]]]) simp
  qed
qed simp

lemma roots_spec:
  assumes "walk_inv g color []"
  shows "case roots_loop g rs color of
      Some (node, dep) \<Rightarrow> (dep, node) \<in> dep_rel g \<and> (dep, dep) \<in> (dep_rel g)\<^sup>+
    | None \<Rightarrow> \<exists>color'. walk_inv g color' [] \<and> (\<forall>x. color x \<noteq> Some White \<or> x \<in> set rs \<longrightarrow> color' x \<noteq> Some White)"
  using assms
proof (induction rs arbitrary: color)
  case (Cons r rs)
  show ?case
  proof (cases "color r = Some White")
    case False
    with Cons.IH [OF Cons.prems] show ?thesis by (auto split: option.splits)
  next
    case True
    have "walk_inv g (color(r \<mapsto> Grey)) [(r, 0)]"
    proof -
      have fin: "finished (color(r \<mapsto> Grey)) = finished color" using True by (auto simp: finished_def)
      show ?thesis using Cons.prems True by (auto simp: walk_inv_def fin split: if_splits)
    qed
    note w = walk_spec [OF this]
    show ?thesis
    proof (cases "walk g (color(r \<mapsto> Grey)) [(r, 0)]")
      case (Inr e)
      with w True show ?thesis by (auto split: prod.splits)
    next
      case (Inl c1)
      with w have c1: "walk_inv g c1 []" "\<forall>x. (color(r \<mapsto> Grey)) x \<noteq> Some White \<longrightarrow> c1 x \<noteq> Some White" by auto
      have eq: "roots_loop g (r # rs) color = roots_loop g rs c1" using True Inl by simp
      show ?thesis
      proof (cases "roots_loop g rs c1")
        case None
        with Cons.IH [OF c1(1)] obtain c2 where "walk_inv g c2 []" "\<forall>x. c1 x \<noteq> Some White \<or> x \<in> set rs \<longrightarrow> c2 x \<noteq> Some White" by auto
        with c1(2) None eq show ?thesis by (auto intro!: exI [of _ c2])
      next
        case (Some e)
        with Cons.IH [OF c1(1)] eq show ?thesis by simp
      qed
    qed
  qed
qed auto

lemma map_of_const: "map_of (map (\<lambda>i. (i, c)) xs) x = (if x \<in> set xs then Some c else None)"
  by (induction xs) auto

lemma find_back_edge_spec:
  "case find_back_edge g of
      Some (node, dep) \<Rightarrow> (dep, node) \<in> dep_rel g \<and> (dep, dep) \<in> (dep_rel g)\<^sup>+
    | None \<Rightarrow> acyclic (dep_rel g)"
proof -
  let ?c = "map_of (map (\<lambda>i. (i, White)) (task_ids g))"
  have c: "?c x = (if x \<in> set (task_ids g) then Some White else None)" for x
    by (rule map_of_const)
  have inv: "walk_inv g ?c []" by (auto simp: walk_inv_def c dom_def)
  show ?thesis
  proof (cases "find_back_edge g")
    case None
    with roots_spec [OF inv, of "sort (task_ids g)"] obtain c' where c': "walk_inv g c' []"
      "\<forall>x. ?c x \<noteq> Some White \<or> x \<in> set (task_ids g) \<longrightarrow> c' x \<noteq> Some White" by (auto simp: find_back_edge_def)
    have "(x, x) \<notin> (dep_rel g)\<^sup>+" for x
    proof
      assume cyc: "(x, x) \<in> (dep_rel g)\<^sup>+"
      then have x: "x \<in> set (task_ids g)" by (rule on_cycle_in_graph)
      then have "x \<in> dom c'" using c'(1) by (simp add: walk_inv_def)
      moreover have "c' x \<noteq> Some White" using c'(2) x by blast
      moreover have "c' x \<noteq> Some Grey" using walk_inv_grey [OF c'(1), of x] by simp
      ultimately obtain y where "c' x = Some y" "y \<noteq> White" "y \<noteq> Grey" by auto
      then have "c' x = Some Black" by (cases y) simp_all
      then show False using c'(1) cyc by (auto simp: walk_inv_def)
    qed
    with None show ?thesis by (simp add: acyclic_def)
  next
    case (Some e)
    with roots_spec [OF inv, of "sort (task_ids g)"] show ?thesis by (simp add: find_back_edge_def)
  qed
qed

section \<open>What the repair does\<close>

lemma deps_drop_edge: "deps_of (drop_edge node dep g) i = (if i = node then filter (\<lambda>d. d \<noteq> dep) (deps_of g i) else deps_of g i)"
  by (auto simp: deps_of_def drop_edge_def task_get_def update_conv' split: option.splits)

lemma dep_rel_drop_edge: "dep_rel (drop_edge node dep g) = dep_rel g - {(dep, node)}"
  by (auto simp: dep_rel_def deps_drop_edge split: if_splits)

lemma drop_edge_ok: "graph_ok g \<Longrightarrow> graph_ok (drop_edge node dep g) \<and> task_ids (drop_edge node dep g) = task_ids g"
proof (cases "task_get g node")
  case (Some t)
  assume ok: "graph_ok g"
  have "(node, t) \<in> set (tg_tasks g)" using Some by (simp add: task_get_def map_of_SomeD)
  then have id: "ts_id t = node" "node \<in> fst ` set (tg_tasks g)" using graph_ok_get [OF ok] by (auto intro: rev_image_eqI)
  let ?t = "t\<lparr>ts_dependencies := filter (\<lambda>d. d \<noteq> dep) (ts_dependencies t)\<rparr>"
  have "map fst (AList.update node ?t (tg_tasks g)) = map fst (tg_tasks g)"
    using id(2) by (simp add: update_keys)
  moreover have "ts_id t' = k" if "(k, t') \<in> set (AList.update node ?t (tg_tasks g))" for k t'
    using set_update_mem [OF that] ok id(1) by (auto simp: graph_ok_def)
  ultimately show ?thesis using Some ok by (auto simp: drop_edge_def graph_ok_def task_ids_def)
qed (simp add: drop_edge_def)

definition edge_count :: "TaskGraph \<Rightarrow> nat" where
  "edge_count g = card (dep_rel g)"

lemma edge_budget_bound: "graph_ok g \<Longrightarrow> edge_count g < edge_budget g"
proof -
  assume ok: "graph_ok g"
  have d: "deps_of g (fst p) = ts_dependencies (snd p)" if "p \<in> set (tg_tasks g)" for p
    using that graph_ok_get [OF ok, of "fst p" "snd p"] by (auto simp: deps_of_def dest: sym)
  have "dep_rel g \<subseteq> (\<Union>i\<in>set (task_ids g). (\<lambda>d. (d, i)) ` set (deps_of g i))"
    using deps_of_absent [of _ g] by (force simp: dep_rel_def)
  then have "card (dep_rel g) \<le> card (\<Union>i\<in>set (task_ids g). (\<lambda>d. (d, i)) ` set (deps_of g i))" by (intro card_mono) auto
  also have "\<dots> \<le> (\<Sum>i\<in>set (task_ids g). card ((\<lambda>d. (d, i)) ` set (deps_of g i)))" by (rule card_UN_le) simp
  also have "\<dots> \<le> (\<Sum>i\<in>set (task_ids g). length (deps_of g i))"
    by (intro sum_mono) (metis card_image_le card_length finite_set le_trans)
  also have "\<dots> = sum_list (map (\<lambda>i. length (deps_of g i)) (task_ids g))"
    using ok by (simp add: graph_ok_def sum_list_distinct_conv_sum_set)
  also have "\<dots> = sum_list (map (\<lambda>p. length (ts_dependencies (snd p))) (tg_tasks g))"
    using d by (simp add: task_ids_def comp_def cong: map_cong)
  finally show ?thesis by (simp add: edge_budget_def edge_count_def)
qed

text \<open>What is left of a graph when the dependencies \<open>gone\<close> are taken out of it.\<close>

definition without_edges :: "(TaskId \<times> TaskId) list \<Rightarrow> TaskId \<Rightarrow> Task \<Rightarrow> Task" where
  "without_edges gone i t = t\<lparr>ts_dependencies := filter (\<lambda>d. (i, d) \<notin> set gone) (ts_dependencies t)\<rparr>"

lemma without_no_edges [simp]: "map_option (without_edges [] i) x = x"
  by (cases x) (simp_all add: without_edges_def)

lemma task_get_drop_edge: "task_get (drop_edge n d g) i = map_option (without_edges [(n, d)] i) (task_get g i)"
  by (cases "i = n"; cases "task_get g i") (auto simp: drop_edge_def task_get_def update_conv' without_edges_def split: option.splits)

lemma without_edges_more: "without_edges es i (without_edges [e] i t) = without_edges (e # es) i t"
  by (auto simp: without_edges_def intro: filter_cong)

lemma dep_rel_without:
  assumes "\<forall>i. task_get g' i = map_option (without_edges gone i) (task_get g i)"
  shows "dep_rel g' = dep_rel g - {(d, n). (n, d) \<in> set gone}"
proof -
  have "deps_of g' n = filter (\<lambda>d. (n, d) \<notin> set gone) (deps_of g n)" for n
    using assms by (cases "task_get g n") (simp_all add: deps_of_def without_edges_def)
  then show ?thesis by (auto simp: dep_rel_def)
qed

lemma break_loop_spec:
  assumes "graph_ok g" "edge_count g + length removed < budget" "break_loop budget g removed = (removed', g')"
  shows "acyclic (dep_rel g') \<and> graph_ok g' \<and> task_ids g' = task_ids g \<and> tg_root g' = tg_root g
    \<and> (\<exists>more. removed' = removed @ more \<and> (\<forall>i. task_get g' i = map_option (without_edges more i) (task_get g i))
        \<and> dep_rel g' = dep_rel g - {(d, n). (n, d) \<in> set more}
        \<and> (\<forall>(n, d)\<in>set more. (d, n) \<in> dep_rel g \<and> (d, d) \<in> (dep_rel g)\<^sup>+)
        \<and> (acyclic (dep_rel g) \<longrightarrow> more = []))"
  using assms
proof (induction budget g removed rule: break_loop.induct)
  case (1 budget g removed)
  show ?case
  proof (cases "find_back_edge g")
    case None
    then have "removed' = removed" "g' = g" using 1(3,4) by (auto simp: break_loop.simps [of budget g removed])
    with None find_back_edge_spec [of g] 1(2) show ?thesis by auto
  next
    case (Some e)
    obtain n d where e: "e = (n, d)" by (metis surj_pair)
    have edge: "(d, n) \<in> dep_rel g" "(d, d) \<in> (dep_rel g)\<^sup>+" using find_back_edge_spec [of g] Some e by auto
    let ?g = "drop_edge n d g"
    have less: "edge_count ?g < edge_count g"
      unfolding edge_count_def dep_rel_drop_edge using edge(1) finite_dep_rel by (intro psubset_card_mono) auto
    have "break_loop budget ?g (removed @ [(n, d)]) = (removed', g')"
      using 1(3,4) Some e by (simp add: break_loop.simps [of budget g removed])
    moreover have "edge_count ?g + length (removed @ [(n, d)]) < budget" using 1(3) less by simp
    ultimately obtain more where m: "acyclic (dep_rel g')" "graph_ok g'" "task_ids g' = task_ids ?g" "tg_root g' = tg_root ?g"
      "removed' = (removed @ [(n, d)]) @ more" "\<forall>i. task_get g' i = map_option (without_edges more i) (task_get ?g i)"
      "\<forall>(n, d)\<in>set more. (d, n) \<in> dep_rel ?g \<and> (d, d) \<in> (dep_rel ?g)\<^sup>+"
      using 1(1) [OF _ Some e [symmetric]] 1(3) drop_edge_ok [OF 1(2), of n d] by auto
    have "(dep_rel ?g)\<^sup>+ \<subseteq> (dep_rel g)\<^sup>+" unfolding dep_rel_drop_edge by (rule trancl_mono_subset) auto
    then have "\<forall>(n, d)\<in>set ((n, d) # more). (d, n) \<in> dep_rel g \<and> (d, d) \<in> (dep_rel g)\<^sup>+"
      using edge m(7) by (auto simp: dep_rel_drop_edge)
    moreover have "\<forall>i. task_get g' i = map_option (without_edges ((n, d) # more) i) (task_get g i)"
      using m(6) by (simp add: task_get_drop_edge option.map_comp comp_def without_edges_more)
    moreover note dep_rel_without [OF this]
    moreover have "\<not> acyclic (dep_rel g)" using edge(2) by (auto simp: acyclic_def)
    moreover have "tg_root ?g = tg_root g" by (simp add: drop_edge_def split: option.split)
    ultimately show ?thesis using m(1-5) drop_edge_ok [OF 1(2), of n d] by (intro conjI exI [of _ "(n, d) # more"]) auto
  qed
qed


text \<open>A ring of three tasks.\<close>

definition demo_ring :: TaskGraph where
  "demo_ring = graph_add 3 [] [] [] [1] None (graph_add 2 [] [] [] [3] None (graph_add 1 [] [] [] [2] None \<lparr>tg_tasks = [], tg_root = 1\<rparr>))"


end
