(* ===== verification/Task_Registry.thy ===== *)
theory Task_Registry
  imports Cycle_Check
begin

text \<open>
  The runtime side of the orchestrator: the results of workers
  (\<open>orchestrator/worker/types.rs\<close>), the status registry
  (\<open>orchestrator/registry.rs\<close>), the reconciliation of outputs
  (\<open>orchestrator/reconcile.rs\<close>), their validation (\<open>orchestrator/validator.rs\<close>)
  and the propagation of failures along dependencies
  (\<open>editor/orchestrator/types.rs\<close>).  The result of the build check is a parameter.
\<close>

section \<open>Results and statuses\<close>

record WorkerAttempt =
  wa_provider_label :: string
  wa_model_label :: string
  wa_model_id :: string
  wa_success :: bool
  wa_message :: string

record WorkerResult =
  wk_success :: bool
  wk_task_id :: TaskId
  wk_outputs :: "string list"
  wk_duration :: nat
  wk_message :: string
  wk_provider_label :: string
  wk_model_label :: string
  wk_transcript :: string
  wk_status_updates :: "string list"
  wk_attempts :: "WorkerAttempt list"
  wk_created_files :: "string list"
  wk_deleted_files :: "string list"
  wk_out_of_scope_created_files :: "string list"
  wk_run_summary_path :: "PathBuf option"
  wk_run_facts_path :: "PathBuf option"
  wk_wa_run_path :: "string option"
  wk_wa_run_id :: "string option"
  wk_is_read_only :: bool

definition worker_result_empty :: "TaskId \<Rightarrow> WorkerResult" where
  "worker_result_empty i =
     \<lparr>wk_success = True, wk_task_id = i, wk_outputs = [], wk_duration = 0, wk_message = [], wk_provider_label = [],
      wk_model_label = [], wk_transcript = [], wk_status_updates = [], wk_attempts = [], wk_created_files = [],
      wk_deleted_files = [], wk_out_of_scope_created_files = [], wk_run_summary_path = None, wk_run_facts_path = None,
      wk_wa_run_path = None, wk_wa_run_id = None, wk_is_read_only = False\<rparr>"

definition worker_result_new :: "Task \<Rightarrow> WorkerResult" where
  "worker_result_new t = (worker_result_empty (ts_id t))\<lparr>wk_message := ''ok''\<rparr>"

definition detached_msg :: string where
  "detached_msg = ''worker thread exited without reporting a result''"

definition worker_result_detached :: "TaskId \<Rightarrow> WorkerResult" where
  "worker_result_detached i =
     (worker_result_empty i)\<lparr>wk_success := False, wk_message := detached_msg, wk_status_updates := [detached_msg]\<rparr>"

datatype TaskStatus = TPending | TRunning | TDone WorkerResult | TFailed WorkerResult | TBlocked WorkerResult

record OrchestratorRegistry =
  rg_statuses :: "(TaskId \<times> TaskStatus) list"
  rg_outputs :: "(TaskId \<times> string list) list"

definition registry_new :: "TaskGraph \<Rightarrow> OrchestratorRegistry" where
  "registry_new g = \<lparr>rg_statuses = map (\<lambda>i. (i, TPending)) (task_ids g), rg_outputs = []\<rparr>"

definition status_of :: "OrchestratorRegistry \<Rightarrow> TaskId \<Rightarrow> TaskStatus option" where
  "status_of reg i = map_of (rg_statuses reg) i"

definition set_status :: "TaskId \<Rightarrow> TaskStatus \<Rightarrow> OrchestratorRegistry \<Rightarrow> OrchestratorRegistry" where
  "set_status i s reg = reg\<lparr>rg_statuses := AList.update i s (rg_statuses reg)\<rparr>"

section \<open>Dispatch\<close>

definition is_done :: "TaskStatus option \<Rightarrow> bool" where
  "is_done s \<longleftrightarrow> (case s of Some (TDone _) \<Rightarrow> True | _ \<Rightarrow> False)"

definition is_settled_bad :: "TaskStatus option \<Rightarrow> bool" where
  "is_settled_bad s \<longleftrightarrow> (case s of Some (TFailed _) \<Rightarrow> True | Some (TBlocked _) \<Rightarrow> True | _ \<Rightarrow> False)"

definition is_waiting :: "TaskStatus option \<Rightarrow> bool" where
  "is_waiting s \<longleftrightarrow> s = Some TPending \<or> s = None"

definition is_complete :: "OrchestratorRegistry \<Rightarrow> bool" where
  "is_complete reg \<longleftrightarrow> list_all (\<lambda>(_, s). is_done (Some s) \<or> is_settled_bad (Some s)) (rg_statuses reg)"

definition ready_ids :: "OrchestratorRegistry \<Rightarrow> TaskGraph \<Rightarrow> TaskId list" where
  "ready_ids reg g =
     (let completed = set (map fst (filter (\<lambda>(_, s). is_done (Some s)) (rg_statuses reg)))
      in map ts_id (filter (\<lambda>t. is_waiting (status_of reg (ts_id t))) (ready g completed)))"

fun accept_free :: "TaskGraph \<Rightarrow> string list list \<Rightarrow> TaskId list \<Rightarrow> TaskId list \<Rightarrow> TaskId list" where
  "accept_free g groups accepted [] = accepted"
| "accept_free g groups accepted (i # is) =
     (if list_all (\<lambda>a. \<not> scopes_conflict (scope_of g a) (scope_of g i) groups) accepted
      then accept_free g groups (accepted @ [i]) is
      else accept_free g groups accepted is)"

definition ready_ids_conflict_aware :: "OrchestratorRegistry \<Rightarrow> TaskGraph \<Rightarrow> string list list \<Rightarrow> TaskId list" where
  "ready_ids_conflict_aware reg g groups = accept_free g groups [] (ready_ids reg g)"

section \<open>Reconciliation of outputs\<close>

record Collision =
  co_path :: string
  co_task_a :: TaskId
  co_task_b :: TaskId

fun push_owner :: "string \<Rightarrow> TaskId \<Rightarrow> (string \<times> TaskId list) list \<Rightarrow> (string \<times> TaskId list) list" where
  "push_owner f i [] = [(f, [i])]"
| "push_owner f i ((f', is) # m) = (if f = f' then (f', is @ [i]) # m else (f', is) # push_owner f i m)"

definition files_to_tasks :: "(TaskId \<times> string list) list \<Rightarrow> (string \<times> TaskId list) list" where
  "files_to_tasks outputs = fold (\<lambda>(i, files). fold (\<lambda>f. push_owner f i) files) outputs []"

fun all_pairs :: "'a list \<Rightarrow> ('a \<times> 'a) list" where
  "all_pairs [] = []"
| "all_pairs (x # xs) = map (\<lambda>y. (x, y)) xs @ all_pairs xs"

definition detect_collisions :: "TaskGraph \<Rightarrow> (TaskId \<times> string list) list \<Rightarrow> Collision list" where
  "detect_collisions g outputs =
     concat (map (\<lambda>(path, tasks). map (\<lambda>(a, b). \<lparr>co_path = path, co_task_a = a, co_task_b = b\<rparr>) (all_pairs tasks))
       (files_to_tasks outputs))"

definition path_under_prefix :: "string \<Rightarrow> string \<Rightarrow> bool" where
  "path_under_prefix file prefix =
     starts_with (replace_char CHR 0x5C CHR ''/'' file) (replace_char CHR 0x5C CHR ''/'' prefix)"

text \<open>The files of one task outside the scope it declared.\<close>

definition violations_of :: "TaskGraph \<Rightarrow> TaskId \<Rightarrow> string list \<Rightarrow> (TaskId \<times> string) list" where
  "violations_of g i files =
     (case task_get g i of
        None \<Rightarrow> []
      | Some t \<Rightarrow>
          map (\<lambda>f. (i, f)) (filter (\<lambda>f. ts_scope t \<noteq> [] \<and> \<not> list_ex (\<lambda>p. path_under_prefix f p) (ts_scope t)) files))"

definition scope_violations :: "TaskGraph \<Rightarrow> (TaskId \<times> string list) list \<Rightarrow> (TaskId \<times> string) list" where
  "scope_violations g outputs = concat (map (\<lambda>(i, files). violations_of g i files) outputs)"

definition outside_scope_msg :: "string list \<Rightarrow> string" where
  "outside_scope_msg violations =
     ''Reconciliation blocked: task touched files outside its declared scope: '' @ join '', '' violations"

definition overlap_msg :: "string list \<Rightarrow> string" where
  "overlap_msg collisions = ''Reconciliation blocked: overlapping outputs detected for '' @ join '', '' collisions"

definition reconciliation_error ::
  "TaskGraph \<Rightarrow> (TaskId \<times> string list) list \<Rightarrow> TaskId \<Rightarrow> string list \<Rightarrow> string option" where
  "reconciliation_error g existing_outputs i outputs =
     (let candidate = AList.update i outputs existing_outputs;
          violations = map snd (filter (\<lambda>(j, _). j = i) (scope_violations g candidate))
      in if violations \<noteq> [] then
           Some (outside_scope_msg violations)
         else
           (let collisions = map (\<lambda>c. co_path c @ '' with task ''
                  @ show_u64 (if co_task_a c = i then co_task_b c else co_task_a c))
                (filter (\<lambda>c. co_task_a c = i \<or> co_task_b c = i) (detect_collisions g candidate))
            in if collisions \<noteq> [] then
                 Some (overlap_msg collisions)
               else None))"

definition task_result_outputs :: "WorkerResult \<Rightarrow> string list" where
  "task_result_outputs r = remdups_adj (sort (wk_outputs r @ wk_created_files r @ wk_deleted_files r))"

section \<open>Validation\<close>

record ValidationReport =
  vr_ok :: bool
  vr_messages :: "string list"

definition report_ok :: ValidationReport where
  "report_ok = \<lparr>vr_ok = True, vr_messages = []\<rparr>"

definition report_fail :: "string \<Rightarrow> ValidationReport" where
  "report_fail reason = \<lparr>vr_ok = False, vr_messages = [reason]\<rparr>"

definition report_and :: "ValidationReport \<Rightarrow> ValidationReport \<Rightarrow> ValidationReport" where
  "report_and r other = \<lparr>vr_ok = (vr_ok r \<and> vr_ok other), vr_messages = vr_messages r @ vr_messages other\<rparr>"

definition validate_result :: "WorkerResult \<Rightarrow> ValidationReport" where
  "validate_result r =
     (if \<not> wk_success r then report_fail (''Worker failed: '' @ wk_message r)
      else if \<not> wk_is_read_only r \<and> wk_outputs r = [] \<and> wk_created_files r = [] \<and> wk_deleted_files r = []
      then report_and report_ok (report_fail ''Task produced no scoped file changes.'')
      else report_ok)"

record BuildDiagnostics =
  bd_timestamp_ms :: u64
  bd_success :: bool
  bd_errors :: "string list"
  bd_warnings :: "string list"
  bd_summary :: string
  bd_skipped :: bool

definition runtime_report :: "BuildDiagnostics \<Rightarrow> ValidationReport" where
  "runtime_report d =
     (if bd_success d \<or> bd_skipped d then report_ok
      else \<lparr>vr_ok = False, vr_messages = bd_summary d # bd_errors d\<rparr>)"

definition validate_with_workspace :: "WorkerResult \<Rightarrow> BuildDiagnostics \<Rightarrow> ValidationReport" where
  "validate_with_workspace r cargo_check =
     (let base = validate_result r in
      if \<not> vr_ok base then base
      else if wk_is_read_only r then base
      else report_and base (runtime_report cargo_check))"

section \<open>Settling a finished task\<close>

definition requires_follow_up :: "WorkerResult \<Rightarrow> bool" where
  "requires_follow_up r \<longleftrightarrow>
     wk_out_of_scope_created_files r \<noteq> []
     \<or> list_ex (\<lambda>s. str_contains ''MEDIATION CONTRACT:'' s \<or> str_contains ''Reconciliation blocked:'' s
          \<or> str_contains ''cancelled by operator'' s) (wk_message r # wk_status_updates r)"

definition dependency_prefix :: string where
  "dependency_prefix = ''Follow-up required before this task can run because dependency task(s)''"

definition is_dependency_blocked_message :: "string \<Rightarrow> bool" where
  "is_dependency_blocked_message message \<longleftrightarrow> starts_with message dependency_prefix"

definition is_stale_plan_blocked_result :: "WorkerResult \<Rightarrow> bool" where
  "is_stale_plan_blocked_result r \<longleftrightarrow> list_ex (str_contains ''stale routed plan:'') (wk_message r # wk_status_updates r)"

definition is_retryable_blocked_result :: "WorkerResult \<Rightarrow> bool" where
  "is_retryable_blocked_result r \<longleftrightarrow>
     \<not> is_stale_plan_blocked_result r \<and> (requires_follow_up r \<or> is_dependency_blocked_message (wk_message r))"

definition append_message :: "string \<Rightarrow> WorkerResult \<Rightarrow> WorkerResult" where
  "append_message extra r = r\<lparr>wk_status_updates := wk_status_updates r @ [extra],
     wk_message := (if trim (wk_message r) = [] then extra else wk_message r @ '' | '' @ extra)\<rparr>"

definition set_output :: "string \<Rightarrow> TaskGraph \<Rightarrow> TaskId \<Rightarrow> TaskGraph" where
  "set_output text g i = (case task_get g i of
     None \<Rightarrow> g
   | Some t \<Rightarrow> g\<lparr>tg_tasks := AList.update i (t\<lparr>ts_output := Some text\<rparr>) (tg_tasks g)\<rparr>)"

definition settle_result ::
  "BuildDiagnostics \<Rightarrow> TaskId \<Rightarrow> WorkerResult \<Rightarrow> TaskGraph \<Rightarrow> OrchestratorRegistry \<Rightarrow> TaskGraph \<times> OrchestratorRegistry" where
  "settle_result cargo_check i result g reg =
     (let outputs = task_result_outputs result;
          report = validate_with_workspace result cargo_check;
          recon = reconciliation_error g (rg_outputs reg) i outputs;
          needs_follow_up = (recon \<noteq> None \<or> requires_follow_up result)
      in if wk_success result \<and> vr_ok report \<and> recon = None \<and> \<not> needs_follow_up then
           (set_output (if trim (wk_message result) = [] then join '', '' outputs else wk_message result) g i,
            set_status i (TDone result) (reg\<lparr>rg_outputs := AList.update i outputs (rg_outputs reg)\<rparr>))
         else
           (let result' =
                  (case recon of
                     Some err \<Rightarrow> append_message err (result\<lparr>wk_success := False\<rparr>)
                   | None \<Rightarrow>
                       if \<not> vr_ok report \<and> vr_messages report \<noteq> [] then append_message (join '' | '' (vr_messages report)) result
                       else result)
            in (g, set_status i (if needs_follow_up then TBlocked result' else TFailed result') reg)))"

section \<open>Propagation of failures\<close>

definition blocking_dependencies :: "OrchestratorRegistry \<Rightarrow> Task \<Rightarrow> TaskId list" where
  "blocking_dependencies reg t = filter (\<lambda>d. is_settled_bad (status_of reg d)) (ts_dependencies t)"

definition dependency_message :: "TaskId list \<Rightarrow> string" where
  "dependency_message ds = dependency_prefix @ '' '' @ join '', '' (map show_u64 ds) @ '' did not complete cleanly.''"

definition blocked_by :: "Task \<Rightarrow> string \<Rightarrow> WorkerResult" where
  "blocked_by t message = (worker_result_new t)\<lparr>wk_success := False, wk_message := message,
     wk_status_updates := wk_status_updates (worker_result_new t) @ [message]\<rparr>"

text \<open>One task of a pass over the graph: the new registry and whether it changed.\<close>

definition visit :: "Task \<Rightarrow> OrchestratorRegistry \<Rightarrow> bool \<times> OrchestratorRegistry" where
  "visit t reg =
     (let current = (case status_of reg (ts_id t) of Some s \<Rightarrow> s | None \<Rightarrow> TPending);
          go_on = (\<lambda>dependency_blocked unchanged_msg.
            let blocking = blocking_dependencies reg t in
            if blocking = [] then
              (if dependency_blocked then (True, set_status (ts_id t) TPending reg) else (False, reg))
            else
              (let message = dependency_message blocking in
               if unchanged_msg = Some message then (False, reg)
               else (True, set_status (ts_id t) (TBlocked (blocked_by t message)) reg)))
      in case current of
           TPending \<Rightarrow> go_on False None
         | TBlocked r \<Rightarrow>
             if is_dependency_blocked_message (wk_message r) then go_on True (Some (wk_message r)) else (False, reg)
         | _ \<Rightarrow> (False, reg))"

fun visit_all :: "Task list \<Rightarrow> OrchestratorRegistry \<Rightarrow> bool \<times> OrchestratorRegistry" where
  "visit_all [] reg = (False, reg)"
| "visit_all (t # ts) reg =
     (case visit t reg of (c1, reg1) \<Rightarrow> (case visit_all ts reg1 of (c2, reg2) \<Rightarrow> (c1 \<or> c2, reg2)))"

text \<open>The loop: \<open>None\<close> when it never ends.\<close>

partial_function (option) propagate_loop :: "Task list \<Rightarrow> OrchestratorRegistry \<Rightarrow> OrchestratorRegistry option" where
  "propagate_loop ts reg =
     (case visit_all ts reg of (changed, reg1) \<Rightarrow> if changed then propagate_loop ts reg1 else Some reg1)"

definition propagate_blocked_dependents :: "TaskGraph \<Rightarrow> OrchestratorRegistry \<Rightarrow> OrchestratorRegistry option" where
  "propagate_blocked_dependents g reg = propagate_loop (map snd (tg_tasks g)) reg"

definition reconcile_message :: "nat \<Rightarrow> string" where
  "reconcile_message n = ''Reconciliation complete across '' @ show_nat n @ '' routed task(s).''"

definition complete_reconcile_root :: "TaskGraph \<Rightarrow> OrchestratorRegistry \<Rightarrow> TaskGraph \<times> OrchestratorRegistry" where
  "complete_reconcile_root g reg =
     (case task_get g (tg_root g) of
        None \<Rightarrow> (g, reg)
      | Some root_task \<Rightarrow>
          if \<not> is_waiting (status_of reg (tg_root g)) then (g, reg)
          else if ts_dependencies root_task = [] then (g, reg)
          else if \<not> list_all (\<lambda>d. is_done (status_of reg d)) (ts_dependencies root_task) then (g, reg)
          else
            (let message = reconcile_message (length (ts_dependencies root_task));
                 result = (worker_result_new root_task)\<lparr>wk_message := message,
                   wk_status_updates := wk_status_updates (worker_result_new root_task) @ [message]\<rparr>
             in (set_output message g (tg_root g), set_status (tg_root g) (TDone result) reg)))"

section \<open>What propagation computes\<close>

lemma status_set [simp]: "status_of (set_status i s reg) j = (if j = i then Some s else status_of reg j)"
  by (simp add: status_of_def set_status_def update_conv')

text \<open>A task the propagation may move: it waits, or is blocked for its dependencies only.\<close>

definition soft :: "OrchestratorRegistry \<Rightarrow> TaskId \<Rightarrow> bool" where
  "soft reg i \<longleftrightarrow> (case status_of reg i of
     None \<Rightarrow> True | Some TPending \<Rightarrow> True | Some (TBlocked r) \<Rightarrow> is_dependency_blocked_message (wk_message r) | _ \<Rightarrow> False)"

definition movable :: "TaskGraph \<Rightarrow> OrchestratorRegistry \<Rightarrow> TaskId \<Rightarrow> bool" where
  "movable g reg i \<longleftrightarrow> i \<in> set (task_ids g) \<and> soft reg i"

text \<open>A task is stuck when it failed or was blocked for a reason of its own, or depends on a stuck task.\<close>

inductive stuck :: "TaskGraph \<Rightarrow> OrchestratorRegistry \<Rightarrow> TaskId \<Rightarrow> bool" for g reg where
  own: "\<not> movable g reg i \<Longrightarrow> is_settled_bad (status_of reg i) \<Longrightarrow> stuck g reg i"
| dependency: "movable g reg i \<Longrightarrow> d \<in> set (deps_of g i) \<Longrightarrow> stuck g reg d \<Longrightarrow> stuck g reg i"

inductive_simps stuck_simps: "stuck g reg i"

definition settled :: "TaskGraph \<Rightarrow> OrchestratorRegistry \<Rightarrow> OrchestratorRegistry \<Rightarrow> TaskId \<Rightarrow> bool" where
  "settled g reg0 reg i \<longleftrightarrow>
     (if movable g reg0 i then
        (if stuck g reg0 i
         then \<exists>r. status_of reg i = Some (TBlocked r) \<and> wk_message r = dependency_message (filter (stuck g reg0) (deps_of g i))
         else is_waiting (status_of reg i))
      else status_of reg i = status_of reg0 i)"

lemma settled_bad: "settled g reg0 reg i \<Longrightarrow> is_settled_bad (status_of reg i) \<longleftrightarrow> stuck g reg0 i"
  by (auto simp: settled_def is_settled_bad_def is_waiting_def stuck_simps [of g reg0 i] split: if_splits)

text \<open>What every pass keeps: the movable tasks stay movable, the others keep their status.\<close>

definition keeps :: "TaskGraph \<Rightarrow> OrchestratorRegistry \<Rightarrow> OrchestratorRegistry \<Rightarrow> bool" where
  "keeps g reg0 reg \<longleftrightarrow> (\<forall>i. if movable g reg0 i then soft reg i else status_of reg i = status_of reg0 i)"

lemma dependency_message_prefix: "is_dependency_blocked_message (dependency_message ds)"
  by (simp add: is_dependency_blocked_message_def dependency_message_def starts_with_append)

lemma visit_other: "j \<noteq> ts_id t \<Longrightarrow> status_of (snd (visit t reg)) j = status_of reg j"
  by (auto simp: visit_def Let_def split: option.splits TaskStatus.splits)

lemma visit_hard: "\<not> soft reg (ts_id t) \<Longrightarrow> visit t reg = (False, reg)"
  by (auto simp: visit_def soft_def Let_def split: option.splits TaskStatus.splits)

lemma visit_soft: "soft reg (ts_id t) \<Longrightarrow> soft (snd (visit t reg)) (ts_id t)"
  by (auto simp: visit_def soft_def Let_def dependency_message_prefix blocked_by_def split: option.splits TaskStatus.splits)

lemma visit_keeps:
  assumes "graph_ok g" "(k, t) \<in> set (tg_tasks g)" "keeps g reg0 reg"
  shows "keeps g reg0 (snd (visit t reg))"
  unfolding keeps_def
proof (intro allI)
  fix i
  have id: "ts_id t \<in> set (task_ids g)" using graph_ok_get [OF assms(1,2)] assms(2) by (force simp: task_ids_def)
  show "if movable g reg0 i then soft (snd (visit t reg)) i else status_of (snd (visit t reg)) i = status_of reg0 i"
  proof (cases "i = ts_id t")
    case True
    show ?thesis
    proof (cases "movable g reg0 i")
      case m: True
      then have "soft reg (ts_id t)" using assms(3) True by (auto simp: keeps_def dest: spec [of _ i])
      with visit_soft m True show ?thesis by simp
    next
      case m: False
      have "status_of reg i = status_of reg0 i" using assms(3) m by (auto simp: keeps_def dest: spec [of _ i])
      moreover have "\<not> soft reg0 i" using m id True by (simp add: movable_def)
      ultimately have "\<not> soft reg (ts_id t)" using True by (simp add: soft_def)
      with visit_hard m \<open>status_of reg i = status_of reg0 i\<close> show ?thesis by simp
    qed
  next
    case False
    with assms(3) visit_other [OF False] show ?thesis by (auto simp: keeps_def soft_def dest: spec [of _ i])
  qed
qed

lemma visit_settles:
  assumes ok: "graph_ok g" "(k, t) \<in> set (tg_tasks g)" and keeps: "keeps g reg0 reg"
    and deps: "\<forall>d\<in>set (deps_of g (ts_id t)). settled g reg0 reg d"
  shows "settled g reg0 (snd (visit t reg)) (ts_id t)" "settled g reg0 reg (ts_id t) \<Longrightarrow> visit t reg = (False, reg)"
proof -
  let ?i = "ts_id t"
  have d: "deps_of g ?i = ts_dependencies t" using graph_ok_get [OF ok, THEN conjunct1] by (simp add: deps_of_def)
  have b: "blocking_dependencies reg t = filter (stuck g reg0) (deps_of g ?i)"
    unfolding blocking_dependencies_def d using deps settled_bad d by (intro filter_cong) auto
  have "settled g reg0 (snd (visit t reg)) ?i \<and> (settled g reg0 reg ?i \<longrightarrow> visit t reg = (False, reg))"
  proof (cases "movable g reg0 ?i")
    case True
    then have soft: "soft reg ?i" using keeps by (auto simp: keeps_def dest: spec [of _ ?i])
    have st: "stuck g reg0 ?i \<longleftrightarrow> blocking_dependencies reg t \<noteq> []"
      using True by (auto simp: stuck_simps [of g reg0 ?i] b filter_empty_conv)
    show ?thesis
    proof (cases "status_of reg ?i")
      case None
      with True st b show ?thesis by (auto simp: settled_def visit_def Let_def is_waiting_def blocked_by_def)
    next
      case (Some s)
      with soft True st b show ?thesis
        by (cases s) (auto simp: soft_def settled_def visit_def Let_def is_waiting_def blocked_by_def)
    qed
  next
    case False
    then have same: "status_of reg ?i = status_of reg0 ?i" using keeps by (auto simp: keeps_def dest: spec [of _ ?i])
    have "?i \<in> set (task_ids g)" using graph_ok_get [OF ok] ok(2) by (force simp: task_ids_def)
    with False same have "\<not> soft reg ?i" by (simp add: movable_def soft_def)
    with visit_hard same False show ?thesis by (simp add: settled_def)
  qed
  then show "settled g reg0 (snd (visit t reg)) ?i" "settled g reg0 reg ?i \<Longrightarrow> visit t reg = (False, reg)" by simp_all
qed

section \<open>Passes converge on acyclic graphs\<close>

definition all_settled :: "TaskGraph \<Rightarrow> OrchestratorRegistry \<Rightarrow> TaskId set \<Rightarrow> OrchestratorRegistry \<Rightarrow> bool" where
  "all_settled g reg0 S reg \<longleftrightarrow> keeps g reg0 reg \<and> (\<forall>i\<in>S. settled g reg0 reg i \<and> set (deps_of g i) \<subseteq> S)"

lemma settled_status: "status_of reg i = status_of reg' i \<Longrightarrow> settled g reg0 reg i = settled g reg0 reg' i"
  by (simp add: settled_def)

lemma visit_all_settled:
  assumes "graph_ok g" "(k, t) \<in> set (tg_tasks g)" "all_settled g reg0 S reg"
  shows "all_settled g reg0 S (snd (visit t reg))"
    and "set (deps_of g (ts_id t)) \<subseteq> S \<Longrightarrow> all_settled g reg0 (insert (ts_id t) S) (snd (visit t reg))"
    and "ts_id t \<in> S \<Longrightarrow> visit t reg = (False, reg)"
proof -
  have keeps: "keeps g reg0 reg" using assms(3) by (simp add: all_settled_def)
  note keeps' = visit_keeps [OF assms(1,2) keeps]
  have deps: "\<forall>d\<in>set (deps_of g (ts_id t)). settled g reg0 reg d" if "set (deps_of g (ts_id t)) \<subseteq> S"
    using assms(3) that by (auto simp: all_settled_def)
  show same: "visit t reg = (False, reg)" if "ts_id t \<in> S"
    using visit_settles(2) [OF assms(1,2) keeps deps] assms(3) that by (auto simp: all_settled_def)
  have other: "settled g reg0 (snd (visit t reg)) i" if "i \<in> S" for i
  proof (cases "i = ts_id t")
    case True
    with same that assms(3) show ?thesis by (simp add: all_settled_def)
  next
    case False
    with visit_other [OF False] that assms(3) settled_status show ?thesis by (metis all_settled_def)
  qed
  with keeps' assms(3) show "all_settled g reg0 S (snd (visit t reg))" by (simp add: all_settled_def)
  show "all_settled g reg0 (insert (ts_id t) S) (snd (visit t reg))" if "set (deps_of g (ts_id t)) \<subseteq> S"
    using that other keeps' visit_settles(1) [OF assms(1,2) keeps deps [OF that]] assms(3)
    by (auto simp: all_settled_def)
qed

lemma all_settled_subset: "all_settled g reg0 S reg \<Longrightarrow> T \<subseteq> S \<Longrightarrow> \<forall>i\<in>T. set (deps_of g i) \<subseteq> T \<Longrightarrow> all_settled g reg0 T reg"
  unfolding all_settled_def by blast

lemma pass_settled:
  assumes "graph_ok g" "set ts \<subseteq> snd ` set (tg_tasks g)" "all_settled g reg0 S reg"
  shows "all_settled g reg0 (S \<union> {i \<in> ts_id ` set ts. set (deps_of g i) \<subseteq> S}) (snd (visit_all ts reg))"
    and "ts_id ` set ts \<subseteq> S \<Longrightarrow> visit_all ts reg = (False, reg)"
proof -
  have "all_settled g reg0 (S \<union> {i \<in> ts_id ` set ts. set (deps_of g i) \<subseteq> S}) (snd (visit_all ts reg))
      \<and> (ts_id ` set ts \<subseteq> S \<longrightarrow> visit_all ts reg = (False, reg))"
    using assms(2,3)
  proof (induction ts arbitrary: S reg)
    case (Cons t ts)
    then obtain k where k: "(k, t) \<in> set (tg_tasks g)" by auto
    note one = visit_all_settled [OF assms(1) k Cons.prems(2)]
    obtain c reg1 where v: "visit t reg = (c, reg1)" by (metis surj_pair)
    let ?S = "if set (deps_of g (ts_id t)) \<subseteq> S then insert (ts_id t) S else S"
    have "all_settled g reg0 ?S reg1" using one(1,2) v by simp
    then have IH: "all_settled g reg0 (?S \<union> {i \<in> ts_id ` set ts. set (deps_of g i) \<subseteq> ?S}) (snd (visit_all ts reg1))"
      "ts_id ` set ts \<subseteq> ?S \<longrightarrow> visit_all ts reg1 = (False, reg1)"
      using Cons.IH [of ?S reg1] Cons.prems(1) by auto
    let ?T = "S \<union> {i \<in> ts_id ` set (t # ts). set (deps_of g i) \<subseteq> S}"
    have "?T \<subseteq> ?S \<union> {i \<in> ts_id ` set ts. set (deps_of g i) \<subseteq> ?S}" by auto
    moreover have "set (deps_of g i) \<subseteq> S" if "i \<in> ?T" for i
      using that Cons.prems(2) unfolding all_settled_def by blast
    then have "\<forall>i\<in>?T. set (deps_of g i) \<subseteq> ?T" by (meson Un_upper1 subset_trans)
    ultimately have "all_settled g reg0 ?T (snd (visit_all ts reg1))" by (rule all_settled_subset [OF IH(1)])
    moreover have "visit_all (t # ts) reg = (False, reg)" if "ts_id ` set (t # ts) \<subseteq> S"
      using that one(3) IH(2) v by auto
    ultimately show ?case using v by (auto split: prod.splits)
  qed simp
  then show "all_settled g reg0 (S \<union> {i \<in> ts_id ` set ts. set (deps_of g i) \<subseteq> S}) (snd (visit_all ts reg))"
    "ts_id ` set ts \<subseteq> S \<Longrightarrow> visit_all ts reg = (False, reg)" by blast+
qed

lemma visit_unchanged: "\<not> fst (visit t reg) \<Longrightarrow> snd (visit t reg) = reg"
  by (auto simp: visit_def Let_def split: option.splits TaskStatus.splits if_splits)

lemma visit_all_unchanged: "\<not> fst (visit_all ts reg) \<Longrightarrow> snd (visit_all ts reg) = reg"
proof (induction ts arbitrary: reg)
  case (Cons t ts)
  obtain c reg1 where "visit t reg = (c, reg1)" by (metis surj_pair)
  with Cons.prems visit_unchanged [of t reg] Cons.IH [of reg] show ?case by (auto split: prod.splits)
qed simp

definition pass :: "TaskGraph \<Rightarrow> OrchestratorRegistry \<Rightarrow> OrchestratorRegistry" where
  "pass g reg = snd (visit_all (map snd (tg_tasks g)) reg)"

lemma pass_keeps_settled:
  assumes "graph_ok g" "all_settled g reg0 S reg"
  shows "all_settled g reg0 S (pass g reg)"
proof -
  have "set (map snd (tg_tasks g)) \<subseteq> snd ` set (tg_tasks g)" by simp
  from pass_settled(1) [OF assms(1) this assms(2)] show ?thesis
    unfolding pass_def by (rule all_settled_subset) (use assms(2) in \<open>auto simp: all_settled_def\<close>)
qed

lemma passes_keep_settled: "graph_ok g \<Longrightarrow> all_settled g reg0 S ((pass g ^^ n) reg) \<Longrightarrow> n \<le> m \<Longrightarrow> all_settled g reg0 S ((pass g ^^ m) reg)"
  by (induction m) (auto simp: le_Suc_eq pass_keeps_settled)

lemma all_settled_Union:
  "keeps g reg0 reg \<Longrightarrow> \<forall>x\<in>X. all_settled g reg0 (F x) reg \<Longrightarrow> all_settled g reg0 (\<Union>x\<in>X. F x) reg"
  unfolding all_settled_def by blast

lemma ids_of_tasks: "graph_ok g \<Longrightarrow> ts_id ` set (map snd (tg_tasks g)) = set (task_ids g)"
  using arg_cong [OF map_of_ids [of g], of set] by (simp add: image_image)

lemma keeps_passes: "graph_ok g \<Longrightarrow> keeps g reg0 reg \<Longrightarrow> keeps g reg0 ((pass g ^^ n) reg)"
  using passes_keep_settled [of g reg0 "{}" 0 reg n] by (simp add: all_settled_def)

lemma keeps_refl: "keeps g reg reg"
  by (simp add: keeps_def movable_def)

lemma eventually_settled:
  assumes ok: "graph_ok g" and acyclic: "acyclic (dep_rel g)"
  shows "\<exists>S N. i \<in> S \<and> all_settled g reg S ((pass g ^^ N) reg)"
proof -
  have "wf (dep_rel g)" using finite_acyclic_wf finite_dep_rel acyclic by blast
  then show ?thesis
  proof (induction i)
    case (less i)
    then have "\<forall>d\<in>set (deps_of g i). \<exists>S N. d \<in> S \<and> all_settled g reg S ((pass g ^^ N) reg)" by (auto simp: dep_rel_def)
    then obtain F H where F: "\<forall>d\<in>set (deps_of g i). d \<in> F d \<and> all_settled g reg (F d) ((pass g ^^ H d) reg)" by metis
    define N where "N = Max (insert 0 (H ` set (deps_of g i)))"
    define S where "S = (\<Union>d\<in>set (deps_of g i). F d)"
    have "all_settled g reg (F d) ((pass g ^^ N) reg)" if "d \<in> set (deps_of g i)" for d
      using F that passes_keep_settled [OF ok, of reg "F d" "H d" reg N] by (auto simp: N_def)
    then have S: "all_settled g reg S ((pass g ^^ N) reg)"
      unfolding S_def using keeps_passes [OF ok keeps_refl] by (intro all_settled_Union) auto
    have sub: "set (deps_of g i) \<subseteq> S" using F by (auto simp: S_def)
    show ?case
    proof (cases "i \<in> set (task_ids g)")
      case True
      let ?T = "S \<union> {i \<in> set (task_ids g). set (deps_of g i) \<subseteq> S}"
      have "all_settled g reg ?T ((pass g ^^ Suc N) reg)"
        using pass_settled(1) [OF ok _ S, of "map snd (tg_tasks g)"] ids_of_tasks [OF ok] by (simp add: pass_def)
      moreover have "i \<in> ?T" using True sub by simp
      ultimately show ?thesis by (intro exI conjI)
    next
      case False
      then have "deps_of g i = []" by (rule deps_of_absent)
      with False keeps_refl [of g reg] have "all_settled g reg {i} ((pass g ^^ 0) reg)"
        by (simp add: all_settled_def settled_def movable_def)
      then show ?thesis by blast
    qed
  qed
qed

lemma all_tasks_settle:
  assumes "graph_ok g" "acyclic (dep_rel g)"
  shows "\<exists>S N. set (task_ids g) \<subseteq> S \<and> all_settled g reg S ((pass g ^^ N) reg)"
proof -
  have "\<forall>i. \<exists>S N. i \<in> S \<and> all_settled g reg S ((pass g ^^ N) reg)" using eventually_settled [OF assms] by blast
  then obtain F H where F: "\<forall>i. i \<in> F i \<and> all_settled g reg (F i) ((pass g ^^ H i) reg)" by metis
  define N where "N = Max (insert 0 (H ` set (task_ids g)))"
  have "all_settled g reg (F i) ((pass g ^^ N) reg)" if "i \<in> set (task_ids g)" for i
    using F that passes_keep_settled [OF assms(1), of reg "F i" "H i" reg N] by (auto simp: N_def)
  then have "all_settled g reg (\<Union>i\<in>set (task_ids g). F i) ((pass g ^^ N) reg)"
    using keeps_passes [OF assms(1) keeps_refl] by (intro all_settled_Union) auto
  moreover have "set (task_ids g) \<subseteq> (\<Union>i\<in>set (task_ids g). F i)" using F by auto
  ultimately show ?thesis by blast
qed

lemma propagate_reaches:
  assumes ok: "graph_ok g" and S: "set (task_ids g) \<subseteq> S"
  shows "all_settled g reg0 S ((pass g ^^ N) reg) \<Longrightarrow>
    \<exists>reg'. propagate_blocked_dependents g reg = Some reg' \<and> all_settled g reg0 S reg'"
proof (induction N arbitrary: reg)
  case 0
  then have "visit_all (map snd (tg_tasks g)) reg = (False, reg)"
    using pass_settled(2) [OF ok, of "map snd (tg_tasks g)" reg0 S reg] ids_of_tasks [OF ok] S by auto
  with 0 show ?case by (simp add: propagate_blocked_dependents_def propagate_loop.simps)
next
  case (Suc N)
  obtain c reg1 where v: "visit_all (map snd (tg_tasks g)) reg = (c, reg1)" by (metis surj_pair)
  then have p: "pass g reg = reg1" by (simp add: pass_def)
  show ?case
  proof (cases c)
    case True
    from Suc.IH [of reg1] Suc.prems p obtain reg' where "propagate_blocked_dependents g reg1 = Some reg'" "all_settled g reg0 S reg'"
      by (auto simp: funpow_swap1)
    with v True show ?thesis by (simp add: propagate_blocked_dependents_def propagate_loop.simps [of _ reg])
  next
    case False
    then have "reg1 = reg" using visit_all_unchanged [of "map snd (tg_tasks g)" reg] v by simp
    moreover from this p have "(pass g ^^ n) reg = reg" for n by (induction n) auto
    then have "all_settled g reg0 S reg" using Suc.prems by metis
    ultimately show ?thesis using v False
      by (simp add: propagate_blocked_dependents_def propagate_loop.simps [of _ reg])
  qed
qed

section \<open>Properties\<close>

text \<open>The demonstration graph with its first task failed.\<close>

definition demo_failed :: OrchestratorRegistry where
  "demo_failed = set_status 1 (TFailed (worker_result_detached 1)) (registry_new demo_graph)"

text \<open>
  C11. Failures spread exactly along the dependencies.  On a graph that passes the cycle check the
  propagation ends, whatever the statuses it starts from, and leaves this: a task that waits, or
  was blocked only for its dependencies, ends up blocked with the message that names exactly the
  dependencies that are stuck when there are any, and waiting again when there are none; every
  other task keeps its status.
\<close>

theorem propagation_exact:
  assumes "graph_ok g" "\<not> detect_cycle g"
  shows "\<exists>reg'. propagate_blocked_dependents g reg = Some reg'
    \<and> (\<forall>i\<in>set (task_ids g).
         if \<not> soft reg i then status_of reg' i = status_of reg i
         else if filter (stuck g reg) (deps_of g i) = [] then status_of reg' i \<in> {None, Some TPending}
         else \<exists>r. status_of reg' i = Some (TBlocked r)
           \<and> wk_message r = dependency_message (filter (stuck g reg) (deps_of g i)))"
proof -
  have "acyclic (dep_rel g)" using assms(2) by (simp add: detect_cycle_iff)
  from all_tasks_settle [OF assms(1) this]
  obtain S N where S: "set (task_ids g) \<subseteq> S" "all_settled g reg S ((pass g ^^ N) reg)" by blast
  obtain reg' where r: "propagate_blocked_dependents g reg = Some reg'" "all_settled g reg S reg'"
    using propagate_reaches [OF assms(1) S] by blast
  have "if \<not> soft reg i then status_of reg' i = status_of reg i
         else if filter (stuck g reg) (deps_of g i) = [] then status_of reg' i \<in> {None, Some TPending}
         else \<exists>r. status_of reg' i = Some (TBlocked r)
           \<and> wk_message r = dependency_message (filter (stuck g reg) (deps_of g i))" if i: "i \<in> set (task_ids g)" for i
  proof -
    have s: "settled g reg reg' i" using r(2) S(1) i by (auto simp: all_settled_def)
    have "movable g reg i \<longleftrightarrow> soft reg i" using i by (simp add: movable_def)
    moreover have "stuck g reg i \<longleftrightarrow> filter (stuck g reg) (deps_of g i) \<noteq> []" if "soft reg i"
      using that calculation by (auto simp: stuck_simps [of g reg i] filter_empty_conv)
    ultimately show ?thesis using s by (auto simp: settled_def is_waiting_def split: if_splits)
  qed
  with r(1) show ?thesis by blast
qed

theorem propagation_exact_witness:
  "\<exists>reg' r. propagate_blocked_dependents demo_graph demo_failed = Some reg' \<and> status_of reg' 3 = Some (TBlocked r)
     \<and> wk_message r = dependency_message [1]"
proof -
  have "stuck demo_graph demo_failed 1"
    by (rule own) (simp_all add: movable_def soft_def demo_failed_def is_settled_bad_def)
  moreover have "\<not> detect_cycle demo_graph" by code_simp
  moreover have "deps_of demo_graph 3 = [1]" "3 \<in> set (task_ids demo_graph)" "soft demo_failed 3" by code_simp+
  ultimately show ?thesis using propagation_exact [OF demo_graph_ok, of demo_failed] by fastforce
qed

text \<open>
  On a cycle of three tasks the propagation can spin for ever: two passes bring back the
  statuses it started from, one of which is always changed.
\<close>

definition ring_state :: "bool \<Rightarrow> OrchestratorRegistry" where
  "ring_state b =
     (let waiting = (\<lambda>i d. if b then TPending else TBlocked (blocked_by (new_task i [] [] [] [d]) (dependency_message [d])));
          blocked = (\<lambda>i d. if b then TBlocked (blocked_by (new_task i [] [] [] [d]) (dependency_message [d])) else TPending)
      in \<lparr>rg_statuses = [(1, waiting 1 2), (2, blocked 2 3), (3, waiting 3 1)], rg_outputs = []\<rparr>)"

lemma ring_pass: "visit_all (map snd (tg_tasks demo_ring)) (ring_state b) = (True, ring_state (\<not> b))"
proof -
  have "visit_all (map snd (tg_tasks demo_ring)) (ring_state True) = (True, ring_state False)" by code_simp
  moreover have "visit_all (map snd (tg_tasks demo_ring)) (ring_state False) = (True, ring_state True)" by code_simp
  ultimately show ?thesis by (cases b) (simp_all only: not_True_eq_False not_False_eq_True)
qed

lemma cyclic_propagation_diverges: "propagate_blocked_dependents demo_ring (ring_state True) = None"
proof -
  have never: "\<forall>b. ts = map snd (tg_tasks demo_ring) \<longrightarrow> reg \<noteq> ring_state b" if "propagate_loop ts reg = Some reg'" for ts reg reg'
    using _ that
  proof (rule propagate_loop.raw_induct)
    fix rec ts reg y
    assume IH: "\<And>ts reg y. rec ts reg = Some y \<Longrightarrow> \<forall>b. ts = map snd (tg_tasks demo_ring) \<longrightarrow> reg \<noteq> ring_state b"
      and step: "(case visit_all ts reg of (changed, reg1) \<Rightarrow> if changed then rec ts reg1 else Some reg1) = Some y"
    show "\<forall>b. ts = map snd (tg_tasks demo_ring) \<longrightarrow> reg \<noteq> ring_state b"
    proof (intro allI impI notI)
      fix b assume ts: "ts = map snd (tg_tasks demo_ring)" and reg: "reg = ring_state b"
      have "rec ts (ring_state (\<not> b)) = Some y" using step unfolding ts reg ring_pass by simp
      from IH [OF this] ts show False by blast
    qed
  qed
  then have "propagate_loop (map snd (tg_tasks demo_ring)) (ring_state True) \<noteq> Some reg'" for reg' by blast
  then show ?thesis unfolding propagate_blocked_dependents_def by (cases "propagate_loop (map snd (tg_tasks demo_ring)) (ring_state True)") auto
qed

section \<open>Dispatch takes the first wave of the plan\<close>

lemma hd_fold_place: "\<exists>ws'. fold (place g groups) is (w # ws) = accept_free g groups w is # ws'"
proof (induction "is" arbitrary: w ws)
  case (Cons i "is")
  have "list_ex (\<lambda>a. scopes_conflict (scope_of g a) (scope_of g i) groups) w \<longleftrightarrow>
      \<not> list_all (\<lambda>a. \<not> scopes_conflict (scope_of g a) (scope_of g i) groups) w"
    by (auto simp: list_ex_iff list_all_iff)
  with Cons.IH show ?case by simp
qed simp

lemma ready_ids_sound:
  assumes "graph_ok g" "i \<in> set (ready_ids reg g)" "distinct (map fst (rg_statuses reg))"
  shows "i \<in> set (task_ids g) \<and> is_waiting (status_of reg i) \<and> (\<forall>d\<in>set (deps_of g i). is_done (status_of reg d))"
proof -
  let ?c = "set (map fst (filter (\<lambda>(_, s). is_done (Some s)) (rg_statuses reg)))"
  have "i \<in> set (map ts_id (ready g ?c))" and w: "is_waiting (status_of reg i)"
    using assms(2) by (auto simp: ready_ids_def Let_def)
  then have "i \<in> set (task_ids g)" "set (deps_of g i) \<subseteq> ?c" unfolding set_wave [OF assms(1)] by auto
  moreover have "is_done (status_of reg d)" if "d \<in> ?c" for d
    using that assms(3) by (auto simp: status_of_def map_of_is_SomeI)
  ultimately show ?thesis using w by blast
qed

text \<open>
  A tick of the dispatcher starts exactly the first conflict-free wave that the planner would
  make of the ready tasks: the tasks it starts are known to the graph, wait, have every
  dependency done, and no two of them collide.
\<close>

theorem dispatch_is_first_wave:
  assumes "graph_ok g" "distinct (map fst (rg_statuses reg))"
  shows "ready_ids_conflict_aware reg g groups = (case split_conflict_free g (ready_ids reg g) groups of [] \<Rightarrow> [] | w # _ \<Rightarrow> w)
    \<and> (\<forall>i\<in>set (ready_ids_conflict_aware reg g groups).
         i \<in> set (task_ids g) \<and> is_waiting (status_of reg i) \<and> (\<forall>d\<in>set (deps_of g i). is_done (status_of reg d))
         \<and> (\<forall>j\<in>set (ready_ids_conflict_aware reg g groups). i \<noteq> j \<longrightarrow> \<not> scopes_conflict (scope_of g i) (scope_of g j) groups))"
proof (cases "ready_ids reg g")
  case Nil
  then show ?thesis by (simp add: ready_ids_conflict_aware_def split_conflict_free_def)
next
  case (Cons i "is")
  obtain ws where ws: "split_conflict_free g (ready_ids reg g) groups = ready_ids_conflict_aware reg g groups # ws"
    using hd_fold_place [of g groups "is" "[i]" "[]"] Cons by (auto simp: split_conflict_free_def ready_ids_conflict_aware_def)
  have "set (ready_ids_conflict_aware reg g groups) \<subseteq> set (ready_ids reg g)"
    using set_split [of g "ready_ids reg g" groups] ws by auto
  moreover have "conflict_free g groups (ready_ids_conflict_aware reg g groups)"
    using split_free [of g groups "ready_ids reg g"] ws by simp
  ultimately show ?thesis using ready_ids_sound [OF assms(1) _ assms(2)] ws by (auto simp: conflict_free_def)
qed

theorem dispatch_is_first_wave_witness:
  "ready_ids (set_status 1 (TDone (worker_result_empty 1)) (registry_new demo_graph)) demo_graph = [2, 3]
   \<and> ready_ids_conflict_aware (set_status 1 (TDone (worker_result_empty 1)) (registry_new demo_graph)) demo_graph []
     = (case split_conflict_free demo_graph [2, 3] [] of [] \<Rightarrow> [] | w # _ \<Rightarrow> w)"
proof -
  let ?reg = "set_status 1 (TDone (worker_result_empty 1)) (registry_new demo_graph)"
  have r: "ready_ids ?reg demo_graph = [2, 3]" by code_simp
  have "distinct (map fst (rg_statuses ?reg))" by code_simp
  from dispatch_is_first_wave [OF demo_graph_ok this, of "[]", THEN conjunct1] r show ?thesis by simp
qed

section \<open>Accepted outputs do not overlap\<close>

definition owners :: "(TaskId \<times> string list) list \<Rightarrow> string \<Rightarrow> TaskId list" where
  "owners outputs f = concat (map (\<lambda>(i, files). map (\<lambda>_. i) (filter (\<lambda>x. x = f) files)) outputs)"

lemma map_of_push_owner:
  "map_of (push_owner f i m) x = (if x = f then Some ((case map_of m f of Some l \<Rightarrow> l | None \<Rightarrow> []) @ [i]) else map_of m x)"
  by (induction m) auto

lemma fold_push_owner:
  "(case map_of (fold (\<lambda>f. push_owner f i) files m) x of Some l \<Rightarrow> l | None \<Rightarrow> []) =
     (case map_of m x of Some l \<Rightarrow> l | None \<Rightarrow> []) @ map (\<lambda>_. i) (filter (\<lambda>f. f = x) files)"
  by (induction files arbitrary: m) (auto simp: map_of_push_owner)

lemma files_to_tasks_owners: "(case map_of (files_to_tasks outputs) f of Some l \<Rightarrow> l | None \<Rightarrow> []) = owners outputs f"
proof -
  have "(case map_of (fold (\<lambda>(i, files). fold (\<lambda>f. push_owner f i) files) outputs m) f of Some l \<Rightarrow> l | None \<Rightarrow> []) =
      (case map_of m f of Some l \<Rightarrow> l | None \<Rightarrow> []) @ owners outputs f" for m
    by (induction outputs arbitrary: m) (auto simp: owners_def fold_push_owner)
  from this [of "[]"] show ?thesis by (simp add: files_to_tasks_def)
qed

lemma all_pairs_mem: "a \<in> set xs \<Longrightarrow> b \<in> set xs \<Longrightarrow> a \<noteq> b \<Longrightarrow> (a, b) \<in> set (all_pairs xs) \<or> (b, a) \<in> set (all_pairs xs)"
  by (induction xs) auto

lemma owners_mem: "(i, fs) \<in> set outputs \<Longrightarrow> f \<in> set fs \<Longrightarrow> i \<in> set (owners outputs f)"
  by (force simp: owners_def)

text \<open>Two tasks that touched one file collide.\<close>

lemma collision_found:
  assumes "(i, fs) \<in> set outputs" "(j, gs) \<in> set outputs" "i \<noteq> j" "f \<in> set fs" "f \<in> set gs"
  shows "\<exists>c\<in>set (detect_collisions g outputs). co_path c = f \<and> (co_task_a c = i \<and> co_task_b c = j \<or> co_task_a c = j \<and> co_task_b c = i)"
proof -
  have mem: "i \<in> set (owners outputs f)" "j \<in> set (owners outputs f)" using assms owners_mem by blast+
  then obtain l where l: "map_of (files_to_tasks outputs) f = Some l" "l = owners outputs f"
    using files_to_tasks_owners [of outputs f] by (cases "map_of (files_to_tasks outputs) f") auto
  from all_pairs_mem [OF mem assms(3)] l(2) obtain a b where ab: "(a, b) \<in> set (all_pairs l)" "a = i \<and> b = j \<or> a = j \<and> b = i" by auto
  then have "\<lparr>co_path = f, co_task_a = a, co_task_b = b\<rparr> \<in> set (detect_collisions g outputs)"
    using map_of_SomeD [OF l(1)] by (force simp: detect_collisions_def)
  with ab(2) show ?thesis by force
qed

definition in_scope :: "TaskGraph \<Rightarrow> TaskId \<Rightarrow> string \<Rightarrow> bool" where
  "in_scope g i f \<longleftrightarrow> scope_of g i = [] \<or> (\<exists>p\<in>set (scope_of g i). path_under_prefix f p)"

definition outputs_ok :: "TaskGraph \<Rightarrow> (TaskId \<times> string list) list \<Rightarrow> bool" where
  "outputs_ok g outs \<longleftrightarrow> distinct (map fst outs)
     \<and> (\<forall>(i, fs)\<in>set outs. (\<forall>f\<in>set fs. in_scope g i f) \<and> (\<forall>(j, gs)\<in>set outs. i \<noteq> j \<longrightarrow> set fs \<inter> set gs = {}))"

lemma no_error: "(if a \<noteq> [] then Some x else if b \<noteq> [] then Some y else None) = None \<Longrightarrow> a = [] \<and> b = []"
  by (auto split: if_splits)

lemma reconciled:
  assumes "reconciliation_error g outs i files = None"
  shows "\<forall>f\<in>set files. in_scope g i f"
    and "(j, gs) \<in> set (AList.update i files outs) \<Longrightarrow> j \<noteq> i \<Longrightarrow> set files \<inter> set gs = {}"
proof -
  let ?cand = "AList.update i files outs"
  have mem: "(i, files) \<in> set ?cand" by (rule map_of_SomeD) (simp add: update_conv')
  have v: "filter (\<lambda>(j, _). j = i) (scope_violations g ?cand) = []"
    and c: "filter (\<lambda>c. co_task_a c = i \<or> co_task_b c = i) (detect_collisions g ?cand) = []"
    using no_error [OF assms [unfolded reconciliation_error_def Let_def]] unfolding map_is_Nil_conv by (rule conjunct1, rule conjunct2)
  show "\<forall>f\<in>set files. in_scope g i f"
  proof
    fix f assume f: "f \<in> set files"
    show "in_scope g i f"
    proof (rule ccontr)
      assume out: "\<not> in_scope g i f"
      then obtain t where "task_get g i = Some t" "ts_scope t \<noteq> []" "\<not> list_ex (path_under_prefix f) (ts_scope t)"
        by (auto simp: in_scope_def scope_of_def list_ex_iff split: option.splits)
      with f have "(i, f) \<in> set (violations_of g i files)" by (auto simp: violations_of_def)
      with mem have "(i, f) \<in> set (scope_violations g ?cand)" by (auto simp: scope_violations_def intro!: bexI [of _ "(i, files)"])
      with v show False by (auto simp: filter_empty_conv)
    qed
  qed
  show "set files \<inter> set gs = {}" if "(j, gs) \<in> set ?cand" "j \<noteq> i"
  proof (rule ccontr)
    assume "set files \<inter> set gs \<noteq> {}"
    then obtain f where "f \<in> set files" "f \<in> set gs" by blast
    with collision_found [OF mem that(1) that(2) [symmetric]] c show False by (fastforce simp: filter_empty_conv)
  qed
qed

lemma outputs_ok_update:
  assumes "outputs_ok g outs" "reconciliation_error g outs i files = None"
  shows "outputs_ok g (AList.update i files outs)"
proof -
  let ?cand = "AList.update i files outs"
  have d: "distinct (map fst ?cand)" using assms(1) by (simp add: outputs_ok_def distinct_update)
  have new: "fs = files" if "(i, fs) \<in> set ?cand" for fs
    using map_of_is_SomeI [OF d that] by (simp add: update_conv')
  have old: "(j, gs) \<in> set outs" if "(j, gs) \<in> set ?cand" "j \<noteq> i" for j gs
    using set_update_mem that by metis
  note rec = reconciled [OF assms(2)]
  have main: "(\<forall>f\<in>set fs. in_scope g k f) \<and> (\<forall>(j, gs)\<in>set ?cand. k \<noteq> j \<longrightarrow> set fs \<inter> set gs = {})"
    if k: "(k, fs) \<in> set ?cand" for k fs
  proof (cases "k = i")
    case True
    then have "fs = files" using new k by simp
    with rec True show ?thesis by auto
  next
    case False
    have "set fs \<inter> set gs = {}" if "(j, gs) \<in> set ?cand" "k \<noteq> j" for j gs
    proof (cases "j = i")
      case True
      with new that(1) rec(2) [OF k False] show ?thesis by auto
    next
      case j: False
      with old [OF k False] old [OF that(1) j] assms(1) that(2) show ?thesis by (fastforce simp: outputs_ok_def)
    qed
    moreover have "\<forall>f\<in>set fs. in_scope g k f" using old [OF k False] assms(1) by (auto simp: outputs_ok_def)
    ultimately show ?thesis by auto
  qed
  show ?thesis
    unfolding outputs_ok_def
  proof (intro conjI ballI)
    fix x assume "x \<in> set ?cand"
    then show "case x of (i, fs) \<Rightarrow> (\<forall>f\<in>set fs. in_scope g i f) \<and> (\<forall>(j, gs)\<in>set ?cand. i \<noteq> j \<longrightarrow> set fs \<inter> set gs = {})"
      using main [of "fst x" "snd x"] by (simp add: split_beta)
  qed (rule d)
qed

lemma scope_of_set_output [simp]: "scope_of (set_output text g i) j = scope_of g j"
  by (auto simp: scope_of_def set_output_def task_get_def update_conv' split: option.splits)

lemma settle_outputs_ok:
  assumes "outputs_ok g (rg_outputs reg)" "settle_result cargo_check i result g reg = (g', reg')"
  shows "outputs_ok g' (rg_outputs reg') \<and> (\<forall>j. scope_of g' j = scope_of g j)"
proof -
  have same: "outputs_ok (set_output x g i) outs = outputs_ok g outs" for x outs
    by (simp add: outputs_ok_def in_scope_def)
  show ?thesis
    using assms outputs_ok_update [OF assms(1), of i "task_result_outputs result"]
    by (auto simp: settle_result_def Let_def set_status_def same split: if_splits)
qed

text \<open>Settling the results of workers in the order they finish.\<close>

fun settle_all :: "(BuildDiagnostics \<times> TaskId \<times> WorkerResult) list \<Rightarrow> TaskGraph \<Rightarrow> OrchestratorRegistry \<Rightarrow> TaskGraph \<times> OrchestratorRegistry" where
  "settle_all [] g reg = (g, reg)"
| "settle_all ((d, i, r) # rs) g reg = (case settle_result d i r g reg of (g', reg') \<Rightarrow> settle_all rs g' reg')"

text \<open>
  C39. Accepted work never overlaps.  Whatever results the workers report and in whatever order
  they finish, the files on record for two different tasks are disjoint, and every file on
  record for a task lies under an entry of the scope the task declared, when it declared one, by the
  code's test, a prefix of the path as a string (\<open>sibling_passes_scope\<close>).
\<close>

theorem accepted_outputs_disjoint:
  assumes "settle_all rs g (registry_new g) = (g', reg)" "(i, fs) \<in> set (rg_outputs reg)"
  shows "(\<forall>f\<in>set fs. scope_of g i = [] \<or> (\<exists>p\<in>set (scope_of g i). path_under_prefix f p))
    \<and> (\<forall>j gs. (j, gs) \<in> set (rg_outputs reg) \<and> i \<noteq> j \<longrightarrow> set fs \<inter> set gs = {})"
proof -
  have "outputs_ok g1 (rg_outputs reg1) \<Longrightarrow> settle_all rs g1 reg1 = (g2, reg2) \<Longrightarrow>
      outputs_ok g2 (rg_outputs reg2) \<and> (\<forall>j. scope_of g2 j = scope_of g1 j)" for rs g1 reg1 g2 reg2
  proof (induction rs arbitrary: g1 reg1)
    case (Cons x rs)
    obtain d i r where x: "x = (d, i, r)" by (metis prod_cases3)
    obtain g3 reg3 where s: "settle_result d i r g1 reg1 = (g3, reg3)" by (metis surj_pair)
    from settle_outputs_ok [OF Cons.prems(1) s] Cons.IH [of g3 reg3] Cons.prems(2) x s show ?case by simp
  qed simp
  from this [OF _ assms(1)] have "outputs_ok g' (rg_outputs reg)" "scope_of g' i = scope_of g i"
    by (simp_all add: outputs_ok_def registry_new_def)
  with assms(2) show ?thesis by (fastforce simp: outputs_ok_def in_scope_def)
qed

definition demo_check :: BuildDiagnostics where
  "demo_check = \<lparr>bd_timestamp_ms = 0, bd_success = True, bd_errors = [], bd_warnings = [], bd_summary = [], bd_skipped = False\<rparr>"

definition demo_results :: "(BuildDiagnostics \<times> TaskId \<times> WorkerResult) list" where
  "demo_results = map (\<lambda>(i, f). (demo_check, i, (worker_result_empty i)\<lparr>wk_outputs := [f]\<rparr>))
     [(2, ''src/a/x.rs''), (3, ''src/a/lib.rs''), (2, ''src/a/lib.rs'')]"

theorem accepted_outputs_disjoint_witness:
  "\<exists>g' reg. settle_all demo_results demo_graph (registry_new demo_graph) = (g', reg)
     \<and> rg_outputs reg = [(2, [''src/a/x.rs'']), (3, [''src/a/lib.rs''])] \<and> set [''src/a/x.rs''] \<inter> set [''src/a/lib.rs''] = {}"
proof -
  obtain g' reg where s: "settle_all demo_results demo_graph (registry_new demo_graph) = (g', reg)" by (metis surj_pair)
  have "rg_outputs (snd (settle_all demo_results demo_graph (registry_new demo_graph))) = [(2, [''src/a/x.rs'']), (3, [''src/a/lib.rs''])]"
    by code_simp
  then have r: "rg_outputs reg = [(2, [''src/a/x.rs'']), (3, [''src/a/lib.rs''])]" using s by simp
  then have "(2, [''src/a/x.rs'']) \<in> set (rg_outputs reg)" "(3, [''src/a/lib.rs'']) \<in> set (rg_outputs reg)" "(2 :: TaskId) \<noteq> 3"
    by simp_all
  with accepted_outputs_disjoint [OF s] have "set [''src/a/x.rs''] \<inter> set [''src/a/lib.rs''] = {}" by blast
  with s r show ?thesis by blast
qed

text \<open>
  The check of a scope compares strings, not path segments: a sibling whose name starts with
  the scope passes, although the planner treats the two as disjoint territory.
\<close>

lemma sibling_passes_scope:
  "path_under_prefix ''src/auth_admin.rs'' ''src/auth'' \<and> \<not> path_overlaps ''src/auth_admin.rs'' ''src/auth''"
  by code_simp

section \<open>The graph stays well formed\<close>

lemma set_output_ok: "graph_ok g \<Longrightarrow> graph_ok (set_output text g i)"
proof (cases "task_get g i")
  case (Some t)
  assume ok: "graph_ok g"
  have id: "ts_id t = i" using graph_ok_get [OF ok map_of_SomeD [OF Some [unfolded task_get_def]]] by simp
  have "ts_id t' = k" if "(k, t') \<in> set (AList.update i (t\<lparr>ts_output := Some text\<rparr>) (tg_tasks g))" for k t'
    using set_update_mem [OF that] ok id by (auto simp: graph_ok_def)
  then show ?thesis using Some ok by (auto simp: set_output_def graph_ok_def task_ids_def distinct_update)
qed (simp add: set_output_def)

end
