(* ===== verification/Rule_Model.thy ===== *)
theory Rule_Model
  imports Json_Value
begin

text \<open>
  The data model of the runtime rules engine (\<open>rules/model.rs\<close>): rules and their versions,
  change requests, bypass grants and the rule file of one scope.  A \<open>BTreeMap\<close> of parameters is
  its sorted association list; an \<open>i64\<close> is an integer, since the code only compares them.
\<close>

section \<open>Scopes and kinds\<close>

datatype RuleScope = ScopeTask | ScopeWorkspace | ScopeGlobal

definition RULE_SCOPES :: "RuleScope list" where
  "RULE_SCOPES = [ScopeTask, ScopeWorkspace, ScopeGlobal]"

fun scope_label :: "RuleScope \<Rightarrow> string" where
  "scope_label ScopeTask = ''task''"
| "scope_label ScopeWorkspace = ''workspace''"
| "scope_label ScopeGlobal = ''global''"

definition scope_parse :: "string \<Rightarrow> RuleScope option" where
  "scope_parse text = (let s = to_lowercase (trim text) in
     if s \<in> {''task'', ''session''} then Some ScopeTask
     else if s \<in> {''workspace'', ''project''} then Some ScopeWorkspace
     else if s \<in> {''global'', ''user''} then Some ScopeGlobal
     else None)"

fun scope_rank :: "RuleScope \<Rightarrow> nat" where
  "scope_rank ScopeTask = 0"
| "scope_rank ScopeWorkspace = 1"
| "scope_rank ScopeGlobal = 2"

datatype RuleKind = ToolBan | EgressBan | PathBan | CommandPattern | ToolBudget

fun rule_kind_label :: "RuleKind \<Rightarrow> string" where
  "rule_kind_label ToolBan = ''tool ban''"
| "rule_kind_label EgressBan = ''network target ban''"
| "rule_kind_label PathBan = ''path ban''"
| "rule_kind_label CommandPattern = ''command text ban''"
| "rule_kind_label ToolBudget = ''tool-call budget''"

fun rule_kind_id :: "RuleKind \<Rightarrow> string" where
  "rule_kind_id ToolBan = ''tool_ban''"
| "rule_kind_id EgressBan = ''egress_ban''"
| "rule_kind_id PathBan = ''path_ban''"
| "rule_kind_id CommandPattern = ''command_pattern''"
| "rule_kind_id ToolBudget = ''tool_budget''"

definition rule_kind_parse :: "string \<Rightarrow> RuleKind option" where
  "rule_kind_parse text = (let s = to_lowercase (trim text) in
     if s \<in> {''tool_ban'', ''tool''} then Some ToolBan
     else if s \<in> {''egress_ban'', ''egress'', ''network_ban''} then Some EgressBan
     else if s \<in> {''path_ban'', ''path''} then Some PathBan
     else if s \<in> {''command_pattern'', ''command''} then Some CommandPattern
     else if s \<in> {''tool_budget'', ''budget'', ''turn_limit''} then Some ToolBudget
     else None)"

datatype ParamKind = IntParam int int string | ListParam string

record ParamSpec =
  sp_key :: string
  sp_label :: string
  sp_kind :: ParamKind

fun kind_params :: "RuleKind \<Rightarrow> ParamSpec list" where
  "kind_params ToolBan =
     [\<lparr>sp_key = ''tools'', sp_label = ''Banned tools'',
       sp_kind = ListParam ''One tool name per entry, e.g. run_command''\<rparr>]"
| "kind_params EgressBan =
     [\<lparr>sp_key = ''targets'', sp_label = ''Banned targets'',
       sp_kind = ListParam ''IPv4, CIDR (10.0.0.0/8) or hostname''\<rparr>]"
| "kind_params PathBan =
     [\<lparr>sp_key = ''paths'', sp_label = ''Banned paths'',
       sp_kind = ListParam ''Path prefix relative to the workspace''\<rparr>]"
| "kind_params CommandPattern =
     [\<lparr>sp_key = ''patterns'', sp_label = ''Banned text'',
       sp_kind = ListParam ''Case-insensitive fragment of a command''\<rparr>]"
| "kind_params ToolBudget =
     [\<lparr>sp_key = ''tool_calls'', sp_label = ''Tool calls'', sp_kind = IntParam 1 100000 []\<rparr>,
      \<lparr>sp_key = ''window_minutes'', sp_label = ''Window'', sp_kind = IntParam 1 10080 ''min''\<rparr>]"

section \<open>Rules\<close>

datatype ParamValue = PInt int | PText string | PList "string list"

fun as_int :: "ParamValue \<Rightarrow> int option" where
  "as_int (PInt v) = Some v"
| "as_int _ = None"

fun as_list :: "ParamValue \<Rightarrow> string list option" where
  "as_list (PList v) = Some v"
| "as_list _ = None"

type_synonym rule_params = "(string \<times> ParamValue) list"

record WitnessCall =
  wc_tool :: string
  wc_arguments :: Json

record Witnesses =
  wi_allow :: WitnessCall
  wi_deny :: WitnessCall

record Rule =
  ru_id :: string
  ru_name :: string
  ru_description :: string
  ru_kind :: RuleKind
  ru_params :: rule_params
  ru_remedy :: "string option"
  ru_owner :: string
  ru_provenance :: string
  ru_version :: u32
  ru_created_at :: u64
  ru_updated_at :: u64
  ru_witnesses :: "Witnesses option"

definition rule_list :: "Rule \<Rightarrow> string \<Rightarrow> string list" where
  "rule_list r key = (case Option.bind (map_of (ru_params r) key) as_list of Some items \<Rightarrow> items | None \<Rightarrow> [])"

definition rule_int :: "Rule \<Rightarrow> string \<Rightarrow> int option" where
  "rule_int r key = Option.bind (map_of (ru_params r) key) as_int"

record RuleRecord =
  rr_id :: string
  rr_scope :: RuleScope
  rr_current :: Rule
  rr_history :: "Rule list"
  rr_retired_at :: "u64 option"

definition record_new :: "RuleScope \<Rightarrow> Rule \<Rightarrow> RuleRecord" where
  "record_new scope r = \<lparr>rr_id = ru_id r, rr_scope = scope, rr_current = r, rr_history = [], rr_retired_at = None\<rparr>"

definition record_is_active :: "RuleRecord \<Rightarrow> bool" where
  "record_is_active r \<longleftrightarrow> rr_retired_at r = None"

definition supersede :: "Rule \<Rightarrow> RuleRecord \<Rightarrow> RuleRecord" where
  "supersede next_rule r = r\<lparr>rr_current := next_rule, rr_history := rr_history r @ [rr_current r]\<rparr>"

section \<open>Requests and grants\<close>

record RulePatch =
  pa_name :: "string option"
  pa_description :: "string option"
  pa_params :: "rule_params option"
  pa_remedy :: "string option"
  pa_witnesses :: "Witnesses option"

definition patch_is_empty :: "RulePatch \<Rightarrow> bool" where
  "patch_is_empty p \<longleftrightarrow> pa_name p = None \<and> pa_description p = None \<and> pa_params p = None
     \<and> pa_remedy p = None \<and> pa_witnesses p = None"

datatype BypassScope = BypassEvent | BypassSession | BypassWorkspace

definition bypass_scope_parse :: "string \<Rightarrow> BypassScope option" where
  "bypass_scope_parse text = (let s = to_lowercase (trim text) in
     if s \<in> {''event'', ''single'', ''once''} then Some BypassEvent
     else if s = ''session'' then Some BypassSession
     else if s \<in> {''workspace'', ''project''} then Some BypassWorkspace
     else None)"

fun bypass_scope_label :: "BypassScope \<Rightarrow> string" where
  "bypass_scope_label BypassEvent = ''one call''"
| "bypass_scope_label BypassSession = ''session''"
| "bypass_scope_label BypassWorkspace = ''workspace''"

record BypassSpec =
  bs_scope :: BypassScope
  bs_minutes :: u32
  bs_reason :: string

datatype ChangeAction = Adjust RulePatch | Retire | Bypass BypassSpec

record BypassGrant =
  bg_id :: string
  bg_rule_id :: string
  bg_scope :: BypassScope
  bg_expires_at :: "u64 option"
  bg_uses_left :: "u32 option"
  bg_issued_by :: string
  bg_reason :: string
  bg_created_at :: u64

definition grant_is_expired :: "BypassGrant \<Rightarrow> u64 \<Rightarrow> bool" where
  "grant_is_expired g now = (case bg_expires_at g of Some t \<Rightarrow> t \<le> now | None \<Rightarrow> bg_uses_left g = Some 0)"

datatype RequestStatus = RqPending | RqApproved | RqDenied

fun request_status_label :: "RequestStatus \<Rightarrow> string" where
  "request_status_label RqPending = ''pending''"
| "request_status_label RqApproved = ''approved''"
| "request_status_label RqDenied = ''denied''"

record ChangeRequest =
  cr_id :: string
  cr_rule_id :: string
  cr_scope :: RuleScope
  cr_action :: ChangeAction
  cr_requested_by :: string
  cr_reason :: string
  cr_created_at :: u64
  cr_status :: RequestStatus
  cr_decided_by :: "string option"
  cr_decided_at :: "u64 option"

section \<open>The rule file of one scope\<close>

record RuleFile =
  rf_schema_version :: u32
  rf_rules :: "RuleRecord list"
  rf_requests :: "ChangeRequest list"
  rf_grants :: "BypassGrant list"

definition rule_file_default :: RuleFile where
  "rule_file_default = \<lparr>rf_schema_version = 1, rf_rules = [], rf_requests = [], rf_grants = []\<rparr>"

definition file_active :: "RuleFile \<Rightarrow> RuleRecord list" where
  "file_active f = filter record_is_active (rf_rules f)"

definition file_find :: "RuleFile \<Rightarrow> string \<Rightarrow> RuleRecord option" where
  "file_find f i = List.find (\<lambda>r. rr_id r = i) (rf_rules f)"

definition file_find_request :: "RuleFile \<Rightarrow> string \<Rightarrow> ChangeRequest option" where
  "file_find_request f i = List.find (\<lambda>r. cr_id r = i) (rf_requests f)"

text \<open>The mutable look-ups as updates of the element they find.\<close>

definition on_record :: "string \<Rightarrow> (RuleRecord \<Rightarrow> RuleRecord) \<Rightarrow> RuleFile \<Rightarrow> RuleFile" where
  "on_record i u f = f\<lparr>rf_rules := update_first (\<lambda>r. rr_id r = i) u (rf_rules f)\<rparr>"

definition on_request :: "string \<Rightarrow> (ChangeRequest \<Rightarrow> ChangeRequest) \<Rightarrow> RuleFile \<Rightarrow> RuleFile" where
  "on_request i u f = f\<lparr>rf_requests := update_first (\<lambda>r. cr_id r = i) u (rf_requests f)\<rparr>"

definition live_grant :: "RuleFile \<Rightarrow> string \<Rightarrow> u64 \<Rightarrow> BypassGrant option" where
  "live_grant f i now = List.find (\<lambda>g. bg_rule_id g = i \<and> \<not> grant_is_expired g now) (rf_grants f)"

definition on_live_grant :: "string \<Rightarrow> u64 \<Rightarrow> (BypassGrant \<Rightarrow> BypassGrant) \<Rightarrow> RuleFile \<Rightarrow> RuleFile" where
  "on_live_grant i now u f =
     f\<lparr>rf_grants := update_first (\<lambda>g. bg_rule_id g = i \<and> \<not> grant_is_expired g now) u (rf_grants f)\<rparr>"

definition prune_grants :: "u64 \<Rightarrow> RuleFile \<Rightarrow> bool \<times> RuleFile" where
  "prune_grants now f = (let kept = filter (\<lambda>g. \<not> grant_is_expired g now) (rf_grants f)
     in (length (rf_grants f) \<noteq> length kept, f\<lparr>rf_grants := kept\<rparr>))"

section \<open>Ids\<close>

unbundle bit_operations_syntax

text \<open>
  \<open>new_rule_id\<close> hashes a process-wide counter into the nanosecond clock and keeps 32 bits of it,
  in eight hexadecimal digits.
\<close>

definition hex8 :: "u32 \<Rightarrow> string" where
  "hex8 w = map (\<lambda>i. digit_char (unat (drop_bit (4 * (7 - i)) w AND 0xF))) [0..<8]"

definition id_bits :: "u64 \<Rightarrow> u64 \<Rightarrow> u32" where
  "id_bits n nanos = ucast (nanos XOR (n * 0x9e3779b97f4a7c15))"

definition rule_id_of :: "u64 \<Rightarrow> u64 \<Rightarrow> string" where
  "rule_id_of n nanos = ''rule-'' @ hex8 (id_bits n nanos)"

lemma scope_parse_label: "scope_parse (scope_label s) = Some s"
  by (cases s; hypsubst; code_simp)

lemma rule_kind_parse_id: "rule_kind_parse (rule_kind_id k) = Some k"
  by (cases k; hypsubst; code_simp)

lemma file_find_Some: "file_find f i = Some r \<Longrightarrow> r \<in> set (rf_rules f) \<and> rr_id r = i"
  unfolding file_find_def by (drule find_Some_mem) simp

lemma live_grant_Some: "live_grant f i now = Some g \<Longrightarrow> g \<in> set (rf_grants f) \<and> bg_rule_id g = i \<and> \<not> grant_is_expired g now"
  unfolding live_grant_def by (drule find_Some_mem) simp

lemma file_find_None: "file_find f i = None \<longleftrightarrow> i \<notin> rr_id ` set (rf_rules f)"
  by (auto simp: file_find_def find_None_iff)

lemma live_grant_None: "live_grant f i now = None \<longleftrightarrow> (\<forall>g\<in>set (rf_grants f). bg_rule_id g = i \<longrightarrow> grant_is_expired g now)"
  by (auto simp: live_grant_def find_None_iff)

end
