(* ===== verification/Rule_Matcher.thy ===== *)
theory Rule_Matcher
  imports Rule_Model
begin

text \<open>
  Which calls a rule fires on (\<open>rules/matcher.rs\<close>) and the witness pairs that prove it
  (\<open>rules/verify.rs\<close>).  An IPv4 address is the 32-bit word of its octets.  The debug rendering
  of JSON arguments in messages is a parameter.
\<close>

section \<open>IPv4 addresses\<close>

text \<open>
  \<open>Ipv4Addr::from_str\<close>: four decimal octets of at most three digits, without leading zeros;
  \<open>Display\<close> and \<open>u32::from\<close>.
\<close>

definition parse_octet :: "string \<Rightarrow> nat option" where
  "parse_octet s =
     (if s \<noteq> [] \<and> length s \<le> 3 \<and> list_all is_digit s \<and> (hd s = CHR ''0'' \<longrightarrow> s = ''0'') \<and> digits_value s \<le> 255
      then Some (digits_value s) else None)"

definition parse_ipv4 :: "string \<Rightarrow> u32 option" where
  "parse_ipv4 s = (case map parse_octet (split_on CHR ''.'' s) of
     [Some a, Some b, Some c, Some d] \<Rightarrow> Some (((of_nat a * 256 + of_nat b) * 256 + of_nat c) * 256 + of_nat d)
   | _ \<Rightarrow> None)"

definition octet :: "nat \<Rightarrow> u32 \<Rightarrow> nat" where
  "octet i w = unat (ucast (drop_bit (8 * i) w) :: u8)"

definition show_ipv4 :: "u32 \<Rightarrow> string" where
  "show_ipv4 w = join ''.'' [show_nat (octet 3 w), show_nat (octet 2 w), show_nat (octet 1 w), show_nat (octet 0 w)]"

section \<open>Observations\<close>

record ToolCall =
  tc_tool :: string
  tc_arguments :: Json

record Observation =
  ob_key :: string
  ob_display :: string

definition host_junk :: "char \<Rightarrow> bool" where
  "host_junk c \<longleftrightarrow> c \<in> {CHR 0x22, CHR 0x27, CHR '','', CHR '';'', CHR ''('', CHR '')''}"

definition observe_host :: "string \<Rightarrow> Observation option" where
  "observe_host host =
     (let h = rev (dropWhile (\<lambda>c. c = CHR ''.'') (rev (trim_matches host_junk (trim host))))
      in if h = [] then None else Some \<lparr>ob_key = to_lowercase h, ob_display = h\<rparr>)"

definition observe_ip :: "u32 \<Rightarrow> Observation" where
  "observe_ip ip = \<lparr>ob_key = show_ipv4 ip, ob_display = show_ipv4 ip\<rparr>"

definition authority_end :: "char \<Rightarrow> bool" where
  "authority_end c \<longleftrightarrow> c = CHR ''/'' \<or> c = CHR ''?'' \<or> c = CHR ''#'' \<or> is_whitespace c"

definition host_token :: "string \<Rightarrow> Observation option" where
  "host_token raw0 =
     (let raw = trim raw0 in
      if raw = [] then None
      else
        (let without_scheme = (case split_once_str ''://'' raw of Some (_, rest) \<Rightarrow> rest | None \<Rightarrow> raw);
             authority = takeWhile (\<lambda>c. \<not> authority_end c) without_scheme;
             host0 = after_last (CHR ''@'') authority;
             host = (case rsplit_once (CHR '':'') host0 of
                 Some (h, port) \<Rightarrow> if port \<noteq> [] \<and> list_all is_digit port then h else host0
               | None \<Rightarrow> host0)
         in case parse_ipv4 host of Some ip \<Rightarrow> Some (observe_ip ip) | None \<Rightarrow> observe_host host))"

section \<open>Scanning the arguments\<close>

definition ip_char :: "char \<Rightarrow> bool" where
  "ip_char c \<longleftrightarrow> is_digit c \<or> c = CHR ''.''"

definition scan_ipv4 :: "string \<Rightarrow> Observation list" where
  "scan_ipv4 text =
     List.map_filter (\<lambda>token. if CHR ''.'' \<in> set token then map_option observe_ip (parse_ipv4 token) else None)
       (runs ip_char text)"

definition url_host :: "string \<Rightarrow> string" where
  "url_host authority =
     (let host_part = after_last (CHR ''@'') authority in
      case rsplit_once (CHR '':'') host_part of
        Some (h, port) \<Rightarrow> if list_all is_digit port then h else host_part
      | None \<Rightarrow> host_part)"

function scan_urls :: "string \<Rightarrow> Observation list" where
  "scan_urls text =
     (case split_once_str ''://'' text of
        None \<Rightarrow> []
      | Some (_, rest) \<Rightarrow>
          (let authority = takeWhile (\<lambda>c. \<not> authority_end c) rest;
               more = dropWhile (\<lambda>c. \<not> authority_end c) rest
           in (case host_token (url_host authority) of Some ob \<Rightarrow> [ob] | None \<Rightarrow> [])
              @ (if more = [] then [] else scan_urls more)))"
  by pat_completeness auto
termination
proof (relation "measure length", goal_cases)
  case (2 s p front rest authority more)
  then have "length rest < length s" using length_split_once_str [of "''://''" s front rest] by simp
  moreover have "length more \<le> length rest" using 2 by (simp add: length_dropWhile_le)
  ultimately show ?case by simp
qed simp

declare scan_urls.simps [simp del]

definition flag_value :: "string \<Rightarrow> string option \<Rightarrow> string option" where
  "flag_value token following =
     (let lower = to_lowercase token in
      if lower = ''-h'' \<or> lower = ''--host'' then following
      else if starts_with lower ''--host='' then Some (drop 7 token)
      else if starts_with lower ''host='' then Some (drop 5 token)
      else if starts_with lower ''-h'' \<and> 2 < length token then Some (drop 2 token)
      else if starts_with lower ''--host'' \<and> 6 < length token then strip_prefix (drop 6 token) ''=''
      else None)"

fun scan_flag_tokens :: "string list \<Rightarrow> Observation list" where
  "scan_flag_tokens [] = []"
| "scan_flag_tokens (token # tokens) =
     (case Option.bind (flag_value token (case tokens of [] \<Rightarrow> None | t # _ \<Rightarrow> Some t)) host_token of
        Some ob \<Rightarrow> [ob] | None \<Rightarrow> []) @ scan_flag_tokens tokens"

definition scan_flags :: "string \<Rightarrow> Observation list" where
  "scan_flags text = scan_flag_tokens (split_whitespace text)"

definition at_host :: "string \<Rightarrow> Observation option" where
  "at_host token =
     (if starts_with token ''@'' then None
      else (case rsplit_once (CHR ''@'') token of
        None \<Rightarrow> None
      | Some (_, rest) \<Rightarrow>
          (let host = takeWhile (\<lambda>c. c \<notin> {CHR '':'', CHR ''/'', CHR '','', CHR '';''}) rest in
           if CHR ''.'' \<in> set host then host_token host else None)))"

definition scan_at_hosts :: "string \<Rightarrow> Observation list" where
  "scan_at_hosts text = List.map_filter at_host (split_whitespace text)"

definition scan_text :: "string \<Rightarrow> Observation list" where
  "scan_text text = scan_ipv4 text @ scan_urls text @ scan_flags text @ scan_at_hosts text"

fun collect_all_strings :: "Json \<Rightarrow> string list" where
  "collect_all_strings (JStr text) = [text]"
| "collect_all_strings (JArr items) = concat (map collect_all_strings items)"
| "collect_all_strings (JObj m) = concat (map (\<lambda>(_, v). collect_all_strings v) m)"
| "collect_all_strings _ = []"

fun push_strings :: "Json \<Rightarrow> string list" where
  "push_strings (JStr text) = [text]"
| "push_strings (JArr items) = concat (map push_strings items)"
| "push_strings _ = []"

fun collect_at_keys :: "string list \<Rightarrow> Json \<Rightarrow> string list" where
  "collect_at_keys keys (JArr items) = concat (map (collect_at_keys keys) items)"
| "collect_at_keys keys (JObj m) =
     concat (map (\<lambda>(k, v). (if list_ex (eq_ignore_ascii_case k) keys then push_strings v else [])
       @ collect_at_keys keys v) m)"
| "collect_at_keys keys _ = []"

text \<open>\<open>dedup_by\<close> drops an element whose key is that of the last one kept.\<close>

fun dedup_from :: "Observation \<Rightarrow> Observation list \<Rightarrow> Observation list" where
  "dedup_from x [] = [x]"
| "dedup_from x (y # ys) = (if ob_key y = ob_key x then dedup_from x ys else x # dedup_from y ys)"

definition dedup_by_key :: "Observation list \<Rightarrow> Observation list" where
  "dedup_by_key xs = (case xs of [] \<Rightarrow> [] | x # ys \<Rightarrow> dedup_from x ys)"

definition HOST_KEYS :: "string list" where
  "HOST_KEYS = [''host'', ''hostname'', ''domain'', ''base_url'', ''url'', ''endpoint'']"

definition egress_observations :: "Json \<Rightarrow> Observation list" where
  "egress_observations arguments =
     dedup_by_key (sort_key ob_key
       (concat (map scan_text (collect_all_strings arguments))
        @ List.map_filter host_token (collect_at_keys HOST_KEYS arguments)))"

section \<open>Targets and paths\<close>

datatype TargetPattern = TIp u32 | TCidr u32 u32 | THost string

definition cidr_mask :: "u32 \<Rightarrow> u32" where
  "cidr_mask bits = (if bits = 0 then 0 else push_bit (unat (32 - bits)) (- 1))"

definition target_parse :: "string \<Rightarrow> TargetPattern option" where
  "target_parse text0 =
     (let text = trim text0 in
      if text = [] then None
      else (case split_once (CHR ''/'') text of
        Some (addr, bits_text) \<Rightarrow>
          (case (parse_ipv4 addr, parse_u32 bits_text) of
             (Some ip, Some bits) \<Rightarrow>
               if 32 < bits then None else Some (TCidr (ip AND cidr_mask bits) (cidr_mask bits))
           | _ \<Rightarrow> None)
      | None \<Rightarrow>
          (case parse_ipv4 text of Some ip \<Rightarrow> Some (TIp ip) | None \<Rightarrow> Some (THost (to_lowercase text)))))"

fun target_matches :: "TargetPattern \<Rightarrow> Observation \<Rightarrow> bool" where
  "target_matches (TIp ip) ob \<longleftrightarrow> ob_key ob = show_ipv4 ip"
| "target_matches (TCidr network msk) ob \<longleftrightarrow>
     (case parse_ipv4 (ob_key ob) of Some ip \<Rightarrow> ip AND msk = network | None \<Rightarrow> False)"
| "target_matches (THost host) ob \<longleftrightarrow> ob_key ob = host"

fun strip_dot_slash :: "string \<Rightarrow> string" where
  "strip_dot_slash (c # d # s) = (if c = CHR ''.'' \<and> d = CHR ''/'' then strip_dot_slash s else c # d # s)"
| "strip_dot_slash s = s"

fun strip_slashes :: "string \<Rightarrow> string" where
  "strip_slashes (c # d # s) = (if c = CHR ''/'' then strip_slashes (d # s) else c # d # s)"
| "strip_slashes s = s"

text \<open>Trailing separators are removed from the reversed text, down to one character.\<close>

definition normalize_path :: "string \<Rightarrow> string" where
  "normalize_path path =
     rev (strip_slashes (rev (strip_dot_slash (to_lowercase (replace_char (CHR 0x5C) (CHR ''/'') (trim path))))))"

definition path_is_under :: "string \<Rightarrow> string \<Rightarrow> bool" where
  "path_is_under path prefix \<longleftrightarrow>
     prefix = [] \<or> prefix = ''.'' \<or> prefix = ''./'' \<or> path = prefix
     \<or> (case strip_prefix path prefix of Some rest \<Rightarrow> starts_with rest ''/'' | None \<Rightarrow> False)"

section \<open>Matching\<close>

definition dquoted :: "string \<Rightarrow> string" where
  "dquoted s = CHR 0x22 # s @ [CHR 0x22]"

definition PATH_KEYS :: "string list" where
  "PATH_KEYS = [''relativeFilePath'', ''filePath'', ''path'', ''file'', ''dir'', ''directory'', ''paths'',
     ''target'', ''source'', ''outputPath'', ''output'', ''destination'']"

definition COMMAND_KEYS :: "string list" where
  "COMMAND_KEYS = [''command'', ''cmd'', ''script'', ''powershell'', ''shell'', ''commandLine'']"

definition tool_ban :: "Rule \<Rightarrow> ToolCall \<Rightarrow> string option" where
  "tool_ban r call =
     map_option (\<lambda>name. ''tool '' @ dquoted name)
       (List.find (\<lambda>name. eq_ignore_ascii_case name (tc_tool call)) (rule_list r ''tools''))"

definition egress_ban :: "Rule \<Rightarrow> ToolCall \<Rightarrow> string option" where
  "egress_ban r call =
     (let targets = rule_list r ''targets'' in
      if targets = [] then None
      else
        (let observed = egress_observations (tc_arguments call) in
         find_map (\<lambda>target. Option.bind (target_parse target) (\<lambda>pattern.
             map_option (\<lambda>seen. ''server '' @ dquoted (ob_display seen)) (List.find (target_matches pattern) observed)))
           targets))"

definition path_ban :: "Rule \<Rightarrow> ToolCall \<Rightarrow> string option" where
  "path_ban r call =
     find_map (\<lambda>path. find_map (\<lambda>prefix.
         if path_is_under (normalize_path path) (normalize_path prefix) then Some (''path '' @ dquoted path) else None)
       (rule_list r ''paths'')) (collect_at_keys PATH_KEYS (tc_arguments call))"

definition command_pattern :: "Rule \<Rightarrow> ToolCall \<Rightarrow> string option" where
  "command_pattern r call =
     find_map (\<lambda>command. find_map (\<lambda>pattern.
         if pattern \<noteq> [] \<and> str_contains (to_lowercase pattern) (to_lowercase command)
         then Some (''command containing '' @ dquoted pattern) else None)
       (rule_list r ''patterns'')) (collect_at_keys COMMAND_KEYS (tc_arguments call))"

definition rule_matches :: "Rule \<Rightarrow> ToolCall \<Rightarrow> string option" where
  "rule_matches r call = (case ru_kind r of
     ToolBan \<Rightarrow> tool_ban r call
   | EgressBan \<Rightarrow> egress_ban r call
   | PathBan \<Rightarrow> path_ban r call
   | CommandPattern \<Rightarrow> command_pattern r call
   | ToolBudget \<Rightarrow> None)"

section \<open>Witness pairs\<close>

definition to_call :: "WitnessCall \<Rightarrow> ToolCall" where
  "to_call w = \<lparr>tc_tool = wc_tool w, tc_arguments = wc_arguments w\<rparr>"

definition probe_call :: "string \<Rightarrow> WitnessCall" where
  "probe_call host = \<lparr>wc_tool = ''run_command'',
     wc_arguments = JObj [(''command'', JStr (''psql -h '' @ host @ '' -U witness''))]\<rparr>"

definition path_call :: "string \<Rightarrow> WitnessCall" where
  "path_call path = \<lparr>wc_tool = ''read_file'', wc_arguments = JObj [(''relativeFilePath'', JStr path)]\<rparr>"

definition needs_entry_msg :: "Rule \<Rightarrow> string \<Rightarrow> string" where
  "needs_entry_msg r key = ''rule '' @ quoted (ru_name r) @ '' needs at least one entry in `'' @ key @ ''`''"

definition first_list :: "Rule \<Rightarrow> string \<Rightarrow> string + string list" where
  "first_list r key =
     (let key_spec = (case kind_params (ru_kind r) of spec # _ \<Rightarrow> sp_key spec | [] \<Rightarrow> key) in
      case map_of (ru_params r) key_spec of
        Some (PList items) \<Rightarrow> if items \<noteq> [] then Inr items else Inl (needs_entry_msg r key_spec)
      | _ \<Rightarrow> Inl (needs_entry_msg r key_spec))"

definition every_probe_msg :: "string \<Rightarrow> string" where
  "every_probe_msg what = ''every probe '' @ what @ '' is banned; add a witness allow-call explicitly''"

definition needs_witnesses_msg :: string where
  "needs_witnesses_msg = ''a command-text rule needs explicit witnesses: supply `witnesses.deny` (a call the rule blocks) and `witnesses.allow` (a near-miss it allows)''"

definition budget_witness_msg :: string where
  "budget_witness_msg = ''a budget is verified by its parameters, not by a witness pair''"

definition passing_probe :: "Rule \<Rightarrow> (string \<Rightarrow> WitnessCall) \<Rightarrow> string list \<Rightarrow> string option" where
  "passing_probe r call probes = List.find (\<lambda>p. rule_matches r (to_call (call p)) = None) probes"

definition trim_end_separators :: "string \<Rightarrow> string" where
  "trim_end_separators s = rev (dropWhile (\<lambda>c. c = CHR ''/'' \<or> c = CHR 0x5C) (rev s))"

definition auto_witnesses :: "Rule \<Rightarrow> string + Witnesses" where
  "auto_witnesses r = (case ru_kind r of
     ToolBan \<Rightarrow>
       (case first_list r ''tools'' of Inl e \<Rightarrow> Inl e | Inr banned \<Rightarrow>
         (case List.find (\<lambda>probe. \<not> list_ex (\<lambda>b. eq_ignore_ascii_case b probe) banned)
             [''read_file'', ''list_dir'', ''grep_search'', ''fetch_panel_data''] of
            None \<Rightarrow> Inl (every_probe_msg ''tool'')
          | Some allow \<Rightarrow> Inr \<lparr>wi_allow = \<lparr>wc_tool = allow, wc_arguments = JObj []\<rparr>,
              wi_deny = \<lparr>wc_tool = hd banned, wc_arguments = JObj []\<rparr>\<rparr>))
   | EgressBan \<Rightarrow>
       (case first_list r ''targets'' of Inl e \<Rightarrow> Inl e | Inr targets \<Rightarrow>
         (case passing_probe r probe_call [''192.0.2.10'', ''198.51.100.7'', ''203.0.113.9'', ''127.0.0.1''] of
            None \<Rightarrow> Inl (every_probe_msg ''address'')
          | Some allow \<Rightarrow> Inr \<lparr>wi_allow = probe_call allow, wi_deny = probe_call (hd targets)\<rparr>))
   | PathBan \<Rightarrow>
       (case first_list r ''paths'' of Inl e \<Rightarrow> Inl e | Inr paths \<Rightarrow>
         (case passing_probe r path_call [''README.md'', ''docs/witness.md'', ''src/lib.rs'', ''Cargo.toml''] of
            None \<Rightarrow> Inl (every_probe_msg ''path'')
          | Some allow \<Rightarrow> Inr \<lparr>wi_allow = path_call allow,
              wi_deny = path_call (trim_end_separators (hd paths) @ ''/witness.txt'')\<rparr>))
   | CommandPattern \<Rightarrow> Inl needs_witnesses_msg
   | ToolBudget \<Rightarrow> Inl budget_witness_msg)"

definition verify_budget :: "Rule \<Rightarrow> string + unit" where
  "verify_budget r =
     (let calls = (case rule_int r ''tool_calls'' of Some v \<Rightarrow> v | None \<Rightarrow> 0);
          window = (case rule_int r ''window_minutes'' of Some v \<Rightarrow> v | None \<Rightarrow> 0)
      in if calls < 1 then Inl ''tool_calls must be at least 1''
         else if window < 1 then Inl ''window_minutes must be at least 1''
         else Inr ())"

definition no_witness_msg :: "Rule \<Rightarrow> string" where
  "no_witness_msg r = ''rule '' @ quoted (ru_name r) @ '' has no witness calls; a rule that cannot be shown to fire is not stored''"

definition unblocked_msg :: "(Json \<Rightarrow> string) \<Rightarrow> ToolCall \<Rightarrow> string" where
  "unblocked_msg dj call = ''witness is not blocked: '' @ tc_tool call @ '' '' @ dj (tc_arguments call) @ '' does not match this rule''"

definition also_blocked_msg :: "(Json \<Rightarrow> string) \<Rightarrow> string \<Rightarrow> ToolCall \<Rightarrow> string" where
  "also_blocked_msg dj detail call =
     ''witness allow-call is also blocked ('' @ detail @ ''): '' @ tc_tool call @ '' '' @ dj (tc_arguments call) @ '' must pass this rule''"

definition rule_verify :: "(Json \<Rightarrow> string) \<Rightarrow> Rule \<Rightarrow> string + unit" where
  "rule_verify dj r =
     (if ru_kind r = ToolBudget then verify_budget r
      else (case ru_witnesses r of
        None \<Rightarrow> Inl (no_witness_msg r)
      | Some w \<Rightarrow>
          (case rule_matches r (to_call (wi_deny w)) of
             None \<Rightarrow> Inl (unblocked_msg dj (to_call (wi_deny w)))
           | Some _ \<Rightarrow>
               (case rule_matches r (to_call (wi_allow w)) of
                  Some detail \<Rightarrow> Inl (also_blocked_msg dj detail (to_call (wi_allow w)))
                | None \<Rightarrow> Inr ()))))"

definition rule_prepare :: "(Json \<Rightarrow> string) \<Rightarrow> Rule \<Rightarrow> string + Rule" where
  "rule_prepare dj r =
     (case (if ru_kind r \<noteq> ToolBudget \<and> ru_witnesses r = None
            then map_sum id (\<lambda>w. r\<lparr>ru_witnesses := Some w\<rparr>) (auto_witnesses r) else Inr r) of
        Inl e \<Rightarrow> Inl e
      | Inr r' \<Rightarrow> map_sum id (\<lambda>_. r') (rule_verify dj r'))"

section \<open>Addresses are recognised\<close>

lemma octet_round_trip:
  assumes "n < 256"
  shows "parse_octet (show_nat n) = Some n"
proof -
  have "length (show_nat n) \<le> 3" using show_nat_length [of n 3] assms by simp
  moreover have "hd (show_nat n) = CHR ''0'' \<longrightarrow> show_nat n = ''0''" using show_nat_head [of n] by blast
  ultimately show ?thesis using assms by (simp add: parse_octet_def Let_def)
qed

lemma show_nat_no_dot: "CHR ''.'' \<notin> set (show_nat n)"
  using show_nat_digits(1) [of n] by (auto simp: list_all_iff is_digit_def)

lemma octet_less: "octet i w < 256"
  using unsigned_less [of "ucast (drop_bit (8 * i) w) :: u8"] by (simp add: octet_def)

lemma octets_of_u32:
  "((of_nat (octet 3 w) * 256 + of_nat (octet 2 w)) * 256 + of_nat (octet 1 w)) * 256 + of_nat (octet 0 w) = (w :: u32)"
proof -
  let ?n = "unat w"
  have o: "octet i w = ?n div 2 ^ (8 * i) mod 256" for i
    using drop_bit_eq_div [of "8 * i" ?n] by (simp add: octet_def unsigned_ucast_eq take_bit_eq_mod unat_drop_bit_eq)
  have "n div 65536 = n div 16777216 * 256 + n div 65536 mod 256" "n div 256 = n div 65536 * 256 + n div 256 mod 256"
    "n = n div 256 * 256 + n mod 256" for n :: nat
    using div_mult_mod_eq [of "n div 65536" 256] div_mult_mod_eq [of "n div 256" 256] div_mult_mod_eq [of n 256]
    by (simp_all add: div_mult2_eq [symmetric])
  then have "((?n div 16777216 * 256 + ?n div 65536 mod 256) * 256 + ?n div 256 mod 256) * 256 + ?n mod 256 = ?n" by metis
  moreover have "?n < 2 ^ 32" using unsigned_less [of w] by simp
  then have "?n div 16777216 < 256" by simp
  ultimately have "((octet 3 w * 256 + octet 2 w) * 256 + octet 1 w) * 256 + octet 0 w = ?n" by (simp add: o)
  then have "of_nat (((octet 3 w * 256 + octet 2 w) * 256 + octet 1 w) * 256 + octet 0 w) = w" by (simp del: of_nat_add of_nat_mult)
  then show ?thesis by simp
qed

lemma ipv4_round_trip: "parse_ipv4 (show_ipv4 w) = Some w"
  by (simp add: show_ipv4_def parse_ipv4_def split_on_append_sep split_on_no_occ show_nat_no_dot
      octet_round_trip octet_less) (rule octets_of_u32 [simplified])

lemma show_ipv4_chars: "list_all ip_char (show_ipv4 w)" "CHR ''.'' \<in> set (show_ipv4 w)"
proof -
  have d: "list_all ip_char (show_nat n)" for n
    using show_nat_digits(1) [of n] by (auto simp: list_all_iff ip_char_def)
  show "list_all ip_char (show_ipv4 w)" by (simp add: show_ipv4_def d) (simp add: ip_char_def)
  show "CHR ''.'' \<in> set (show_ipv4 w)" by (simp add: show_ipv4_def)
qed

lemma scan_ipv4_found:
  assumes "a = [] \<or> \<not> ip_char (last a)" "b = [] \<or> \<not> ip_char (hd b)"
  shows "observe_ip w \<in> set (scan_ipv4 (a @ show_ipv4 w @ b))"
proof -
  have "show_ipv4 w \<noteq> []" using show_ipv4_chars(2) [of w] by auto
  from runs_found [OF this show_ipv4_chars(1) assms] show ?thesis
    using show_ipv4_chars(2) [of w]
    by (auto simp: scan_ipv4_def set_map_filter ipv4_round_trip intro!: bexI [of _ "show_ipv4 w"])
qed

lemma dedup_from_keys: "ob_key ` set (dedup_from x ys) = insert (ob_key x) (ob_key ` set ys)"
  by (induction ys arbitrary: x) auto

lemma dedup_by_key_keys: "ob_key ` set (dedup_by_key xs) = ob_key ` set xs"
  by (cases xs) (simp_all add: dedup_by_key_def dedup_from_keys)

lemma text_observed:
  assumes "s \<in> set (collect_all_strings args)" "ob \<in> set (scan_text s)"
  shows "\<exists>ob'\<in>set (egress_observations args). ob_key ob' = ob_key ob"
proof -
  have "ob_key ob \<in> ob_key ` set (egress_observations args)"
    unfolding egress_observations_def dedup_by_key_keys using assms by (auto intro!: imageI)
  then show ?thesis by auto
qed

text \<open>A mask of \<open>k\<close> leading ones: the masked test compares the leading \<open>k\<close> bits.\<close>

lemma mask_bits:
  assumes "k \<le> 32"
  shows "x AND cidr_mask (of_nat k) = (y :: u32) AND cidr_mask (of_nat k) \<longleftrightarrow> drop_bit (32 - k) x = drop_bit (32 - k) y"
proof -
  have k: "unat (of_nat k :: u32) = k" using assms by (simp add: unat_of_nat)
  have "unat (32 - of_nat k :: u32) = 32 - k" using assms by (simp add: unat_sub_if' k)
  then have m: "cidr_mask (of_nat k) = (if k = 0 then 0 else push_bit (32 - k) (- 1))"
    using k by (auto simp: cidr_mask_def)
  show ?thesis
  proof (cases "k = 0")
    case True
    have "drop_bit 32 z = 0" for z :: u32 by (rule bit_eqI) (simp add: bit_simps not_le bit_imp_le_length)
    with True m show ?thesis by simp
  next
    case False
    have short: "bit z n \<Longrightarrow> n < 32" for z :: u32 and n using bit_imp_le_length [of z n] by simp
    then have a: "bit (z AND cidr_mask (of_nat k)) n \<longleftrightarrow> bit z n \<and> 32 - k \<le> n" for z :: u32 and n
      using m False by (auto simp: bit_simps)
    have b: "bit (drop_bit (32 - k) z) n \<longleftrightarrow> bit z (32 - k + n)" for z :: u32 and n by (simp add: bit_simps)
    have "(\<forall>n. (bit x n \<and> 32 - k \<le> n) = (bit y n \<and> 32 - k \<le> n)) \<longleftrightarrow> (\<forall>n. bit x (32 - k + n) = bit y (32 - k + n))"
      by (metis le_add1 le_Suc_ex)
    moreover have "u = v \<longleftrightarrow> (\<forall>n. bit u n = bit v n)" for u v :: u32 by (auto intro: bit_eqI)
    ultimately show ?thesis using a b by simp
  qed
qed

lemma split_once_append: "c \<notin> set a \<Longrightarrow> split_once c (a @ c # b) = Some (a, b)"
  by (auto simp: split_once_def takeWhile_append dropWhile_append)

lemma parse_u32_show: "k < 2 ^ 32 \<Longrightarrow> parse_u32 (show_nat k) = Some (of_nat k)"
proof -
  assume k: "k < 2 ^ 32"
  have "\<not> starts_with (show_nat k) ''+''"
    using show_nat_digits [of k] by (cases "show_nat k") (auto simp: starts_with_def is_digit_def)
  then show ?thesis using k by (simp add: parse_u32_def strip_prefix_def)
qed

lemma target_parse_ip: "trim t = show_ipv4 w \<Longrightarrow> target_parse t = Some (TIp w)"
proof -
  assume t: "trim t = show_ipv4 w"
  have "CHR ''/'' \<notin> set (show_ipv4 w)" using show_ipv4_chars(1) [of w] by (auto simp: list_all_iff ip_char_def is_digit_def)
  moreover have "show_ipv4 w \<noteq> []" using show_ipv4_chars(2) [of w] by auto
  ultimately show ?thesis using t by (simp add: target_parse_def split_once_def ipv4_round_trip)
qed

lemma target_parse_cidr:
  assumes "trim t = show_ipv4 net @ ''/'' @ show_nat k" "k \<le> 32"
  shows "target_parse t = Some (TCidr (net AND cidr_mask (of_nat k)) (cidr_mask (of_nat k)))"
proof -
  have "CHR ''/'' \<notin> set (show_ipv4 net)" using show_ipv4_chars(1) [of net] by (auto simp: list_all_iff ip_char_def is_digit_def)
  moreover have "\<not> 32 < (of_nat k :: u32)" using assms(2) by (simp add: word_less_nat_alt unat_of_nat)
  ultimately show ?thesis using assms parse_u32_show [of k]
    by (simp add: target_parse_def split_once_append ipv4_round_trip)
qed

text \<open>
  A banned address is noticed wherever it stands.  When a network ban lists an address, or a
  network in CIDR notation with the same leading bits, and some string of the arguments, at any
  depth, contains the address between characters that are neither digits nor dots, the rule
  fires.
\<close>

theorem banned_address_refused:
  assumes "ru_kind r = EgressBan" and "target \<in> set (rule_list r ''targets'')"
    and "trim target = show_ipv4 ip
      \<or> (\<exists>net k. k \<le> 32 \<and> trim target = show_ipv4 net @ ''/'' @ show_nat k \<and> drop_bit (32 - k) ip = drop_bit (32 - k) net)"
    and "a @ show_ipv4 ip @ b \<in> set (collect_all_strings (tc_arguments call))"
    and "a = [] \<or> \<not> ip_char (last a)" and "b = [] \<or> \<not> ip_char (hd b)"
  shows "\<exists>detail. rule_matches r call = Some detail"
proof -
  obtain ob where ob: "ob \<in> set (egress_observations (tc_arguments call))" "ob_key ob = show_ipv4 ip"
    using text_observed [OF assms(4), of "observe_ip ip"] scan_ipv4_found [OF assms(5,6), of ip]
    by (auto simp: scan_text_def observe_ip_def)
  obtain p where p: "target_parse target = Some p" "target_matches p ob"
    using assms(3)
  proof (elim disjE exE conjE)
    assume "trim target = show_ipv4 ip"
    with that ob(2) show thesis by (simp add: target_parse_ip)
  next
    fix net k
    assume k: "k \<le> 32" and t: "trim target = show_ipv4 net @ ''/'' @ show_nat k"
      and eq: "drop_bit (32 - k) ip = drop_bit (32 - k) net"
    from target_parse_cidr [OF t k] that ob(2) show thesis
      using mask_bits [OF k, of ip net] eq by (simp add: ipv4_round_trip)
  qed
  have "egress_ban r call \<noteq> None"
  proof
    assume "egress_ban r call = None"
    then have "find_map (\<lambda>target. Option.bind (target_parse target) (\<lambda>pattern.
        map_option (\<lambda>seen. ''server '' @ dquoted (ob_display seen))
          (List.find (target_matches pattern) (egress_observations (tc_arguments call))))) (rule_list r ''targets'') = None"
      using assms(2) by (auto simp: egress_ban_def Let_def split: if_splits)
    with assms(2) p ob(1) show False by (auto simp: find_map_None find_None_iff)
  qed
  with assms(1) show ?thesis by (auto simp: rule_matches_def)
qed

definition demo_rule :: Rule where
  "demo_rule = \<lparr>ru_id = ''rule-00000001'', ru_name = ''live-db'', ru_description = ''The live database is off limits.'',
     ru_kind = EgressBan, ru_params = [(''targets'', PList [''192.168.0.0/16''])], ru_remedy = None, ru_owner = ''user'',
     ru_provenance = [], ru_version = 1, ru_created_at = 0, ru_updated_at = 0, ru_witnesses = None\<rparr>"

definition demo_call :: "string \<Rightarrow> ToolCall" where
  "demo_call host = \<lparr>tc_tool = ''run_command'', tc_arguments = JObj [(''command'', JStr (''psql -h '' @ host))]\<rparr>"

theorem banned_address_refused_witness: "\<exists>detail. rule_matches demo_rule (demo_call ''192.168.1.100'') = Some detail"
proof -
  have s: "show_ipv4 0xC0A80164 = ''192.168.1.100''" "show_ipv4 0xC0A80000 = ''192.168.0.0''" by code_simp+
  have k: "ru_kind demo_rule = EgressBan" "''192.168.0.0/16'' \<in> set (rule_list demo_rule ''targets'')" by code_simp+
  have "trim ''192.168.0.0/16'' = show_ipv4 0xC0A80000 @ ''/'' @ show_nat 16" by code_simp
  then have t: "\<exists>net k. k \<le> 32 \<and> trim ''192.168.0.0/16'' = show_ipv4 net @ ''/'' @ show_nat k
      \<and> drop_bit (32 - k) (0xC0A80164 :: u32) = drop_bit (32 - k) net"
    by (intro exI [of _ "0xC0A80000 :: u32"] exI [of _ 16] conjI) (simp, assumption, code_simp)
  have "''psql -h '' @ show_ipv4 0xC0A80164 @ [] \<in> set (collect_all_strings (tc_arguments (demo_call ''192.168.1.100'')))"
    unfolding s by code_simp
  moreover have "\<not> ip_char (last ''psql -h '')" by code_simp
  ultimately show ?thesis using banned_address_refused [OF k disjI2 [OF t]] by blast
qed

text \<open>
  Paths are compared as text: a path that climbs out of a directory and into the banned one
  does not start with the banned prefix, and the ban does not fire.
\<close>

lemma climbing_path_evades_ban:
  "rule_matches (demo_rule\<lparr>ru_kind := PathBan, ru_params := [(''paths'', PList [''secrets''])]\<rparr>)
     \<lparr>tc_tool = ''read_file'', tc_arguments = JObj [(''path'', JStr ''src/../secrets/key.pem'')]\<rparr> = None"
  by code_simp

end
