(* ===== verification/Rule_Store.thy ===== *)
theory Rule_Store
  imports Rule_Matcher
begin

text \<open>
  The persistence of the rules of one workspace (\<open>rules/store.rs\<close>): two durable files and a task
  store in memory, a cache validated by the stamp of the file, and the consumption of bypass
  grants.  Parameters: the JSON reader and printer of a rule file, the display of its path and the
  debug rendering of arguments (\<open>rules_env\<close>), the outcome of each write and the clock (fields of
  the state).  \<open>rules_clock\<close> also holds the counter of \<open>new_rule_id\<close>.
\<close>

section \<open>State\<close>

type_synonym stamp = "u64 \<times> u64"

text \<open>
  What the disk answers for one rule file: there is none; its metadata cannot be read, as in a
  directory without access, and a read fails with the message; the metadata can be read but not the
  text; or both can.
\<close>

datatype rule_disk = Absent | Unreachable string | Unreadable stamp string | Stored stamp string

text \<open>A write fails with a message and leaves the file, or replaces it at a modification time;
  the metadata read after the replacement may fail.\<close>

datatype rule_write = WriteFails string | WriteLands u64 bool

record rules_clock =
  ck_secs :: "nat \<Rightarrow> u64"
  ck_nanos :: "nat \<Rightarrow> u64"
  ck_ticks :: nat
  ck_counter :: u64

record rules_world =
  rw_task :: RuleFile
  rw_task_revision :: u64
  rw_files :: "RuleScope \<Rightarrow> rule_disk"
  rw_cache :: "RuleScope \<Rightarrow> (stamp \<times> RuleFile) option"
  rw_disk :: "nat \<Rightarrow> rule_write"
  rw_writes :: nat
  rw_time :: rules_clock

record rules_env =
  en_read :: "string \<Rightarrow> string + RuleFile"
  en_print :: "RuleFile \<Rightarrow> string + string"
  en_path :: "RuleScope \<Rightarrow> string"
  en_debug :: "Json \<Rightarrow> string"

definition tick_secs :: "rules_clock \<Rightarrow> u64 \<times> rules_clock" where
  "tick_secs ck = (ck_secs ck (ck_ticks ck), ck\<lparr>ck_ticks := ck_ticks ck + 1\<rparr>)"

definition new_rule_id :: "rules_clock \<Rightarrow> string \<times> rules_clock" where
  "new_rule_id ck = (rule_id_of (ck_counter ck) (ck_nanos ck (ck_ticks ck)),
     ck\<lparr>ck_ticks := ck_ticks ck + 1, ck_counter := ck_counter ck + 1\<rparr>)"

text \<open>The hexadecimal digits never start with the prefix, so \<open>trim_start_matches\<close> removes it once.\<close>

definition new_request_id :: "rules_clock \<Rightarrow> string \<times> rules_clock" where
  "new_request_id ck = (case new_rule_id ck of (i, ck') \<Rightarrow> (''req-'' @ drop 5 i, ck'))"

definition new_grant_id :: "rules_clock \<Rightarrow> string \<times> rules_clock" where
  "new_grant_id ck = (case new_rule_id ck of (i, ck') \<Rightarrow> (''byp-'' @ drop 5 i, ck'))"

section \<open>Reading\<close>

fun file_stamp :: "rule_disk \<Rightarrow> stamp option" where
  "file_stamp Absent = None"
| "file_stamp (Unreachable _) = None"
| "file_stamp (Unreadable st _) = Some st"
| "file_stamp (Stored st _) = Some st"

definition strip_bom :: "string \<Rightarrow> string" where
  "strip_bom raw = (case strip_prefix raw [CHR 0xEF, CHR 0xBB, CHR 0xBF] of Some r \<Rightarrow> r | None \<Rightarrow> raw)"

definition cannot_read_msg :: "rules_env \<Rightarrow> RuleScope \<Rightarrow> string \<Rightarrow> string" where
  "cannot_read_msg env scope e = ''cannot read rules file '' @ en_path env scope @ '': '' @ e"

definition invalid_json_msg :: "rules_env \<Rightarrow> RuleScope \<Rightarrow> string \<Rightarrow> string" where
  "invalid_json_msg env scope e = ''rules file '' @ en_path env scope @ '' is not valid JSON: '' @ e"

definition parse_rules :: "rules_env \<Rightarrow> RuleScope \<Rightarrow> string \<Rightarrow> string + RuleFile" where
  "parse_rules env scope raw = map_sum (invalid_json_msg env scope) id (en_read env (strip_bom raw))"

definition cached :: "RuleScope \<Rightarrow> stamp \<Rightarrow> rules_world \<Rightarrow> RuleFile option" where
  "cached scope st w = (case rw_cache w scope of Some (st', f) \<Rightarrow> if st' = st then Some f else None | None \<Rightarrow> None)"

definition load_file :: "rules_env \<Rightarrow> RuleScope \<Rightarrow> rules_world \<Rightarrow> (string + RuleFile) \<times> rules_world" where
  "load_file env scope w =
     (case file_stamp (rw_files w scope) of
        None \<Rightarrow> (Inr rule_file_default, w)
      | Some st \<Rightarrow>
          (case cached scope st w of
             Some f \<Rightarrow> (Inr f, w)
           | None \<Rightarrow>
               (case rw_files w scope of
                  Stored _ raw \<Rightarrow>
                    (case parse_rules env scope raw of
                       Inl e \<Rightarrow> (Inl e, w)
                     | Inr f \<Rightarrow> (Inr f, w\<lparr>rw_cache := (rw_cache w)(scope := Some (st, f))\<rparr>))
                | Unreadable _ e \<Rightarrow> (Inl (cannot_read_msg env scope e), w)
                | _ \<Rightarrow> (Inr rule_file_default, w))))"

definition load_scoped :: "rules_env \<Rightarrow> RuleScope \<Rightarrow> rules_world \<Rightarrow> (string + RuleFile) \<times> rules_world" where
  "load_scoped env scope w = (case scope of ScopeTask \<Rightarrow> (Inr (rw_task w), w) | _ \<Rightarrow> load_file env scope w)"

section \<open>Writing\<close>

definition write_rules :: "rules_env \<Rightarrow> RuleScope \<Rightarrow> RuleFile \<Rightarrow> rules_world \<Rightarrow> (string + unit) \<times> rules_world" where
  "write_rules env scope f w =
     (case en_print env f of
        Inl e \<Rightarrow> (Inl (''cannot serialize rules: '' @ e), w)
      | Inr raw \<Rightarrow>
          (let w1 = w\<lparr>rw_writes := rw_writes w + 1\<rparr> in
           case rw_disk w (rw_writes w) of
             WriteFails e \<Rightarrow> (Inl e, w1)
           | WriteLands mtime seen \<Rightarrow>
               (let st = (mtime, of_nat (length raw)) in
                (Inr (), w1\<lparr>rw_files := (rw_files w)(scope := Stored st raw),
                   rw_cache := (if seen then (rw_cache w)(scope := Some (st, f)) else rw_cache w)\<rparr>))))"

text \<open>What an update starts from: the file on disk, not the cache; blank text is an empty file.\<close>

definition read_for_update :: "rules_env \<Rightarrow> RuleScope \<Rightarrow> rules_world \<Rightarrow> string + RuleFile" where
  "read_for_update env scope w =
     (case rw_files w scope of
        Absent \<Rightarrow> Inr rule_file_default
      | Unreachable e \<Rightarrow> Inl (cannot_read_msg env scope e)
      | Unreadable _ e \<Rightarrow> Inl (cannot_read_msg env scope e)
      | Stored _ raw \<Rightarrow> if trim raw = [] then Inr rule_file_default else parse_rules env scope raw)"

text \<open>
  An edit of a rule file: the closure passed to \<open>update_scoped\<close>, with what it captures as its
  result.  In task scope the file is edited in place, and stays as the closure left it when the
  closure fails.
\<close>

type_synonym 'a rule_edit = "RuleFile \<Rightarrow> rules_clock \<Rightarrow> (string + 'a) \<times> RuleFile \<times> rules_clock"

definition update_scoped :: "rules_env \<Rightarrow> RuleScope \<Rightarrow> 'a rule_edit \<Rightarrow> rules_world \<Rightarrow> (string + 'a) \<times> rules_world" where
  "update_scoped env scope edit w =
     (case scope of
        ScopeTask \<Rightarrow>
          (case edit (rw_task w) (rw_time w) of (r, f, ck) \<Rightarrow>
             (r, w\<lparr>rw_task := f, rw_time := ck,
                rw_task_revision := (case r of Inl _ \<Rightarrow> rw_task_revision w | Inr _ \<Rightarrow> rw_task_revision w + 1)\<rparr>))
      | _ \<Rightarrow>
          (case read_for_update env scope w of
             Inl e \<Rightarrow> (Inl e, w)
           | Inr f0 \<Rightarrow>
               (case edit f0 (rw_time w) of
                  (Inl e, _, ck) \<Rightarrow> (Inl e, w\<lparr>rw_time := ck\<rparr>)
                | (Inr x, f, ck) \<Rightarrow> map_prod (map_sum id (\<lambda>_. x)) id (write_rules env scope f (w\<lparr>rw_time := ck\<rparr>)))))"

section \<open>Bypass grants\<close>

definition spend :: "BypassGrant \<Rightarrow> BypassGrant" where
  "spend g = g\<lparr>bg_uses_left := Some 0\<rparr>"

definition spend_edit :: "string \<Rightarrow> u64 \<Rightarrow> unit rule_edit" where
  "spend_edit rule_id now f ck = (Inr (), on_live_grant rule_id now spend f, ck)"

definition use_grant ::
  "rules_env \<Rightarrow> RuleScope \<Rightarrow> string \<Rightarrow> u64 \<Rightarrow> BypassGrant \<Rightarrow> rules_world \<Rightarrow> (string + bool) \<times> rules_world" where
  "use_grant env scope rule_id now g w =
     (if bg_scope g = BypassEvent
      then map_prod (map_sum id (\<lambda>_. True)) id (update_scoped env scope (spend_edit rule_id now) w)
      else (Inr True, w))"

fun consume_durable ::
  "rules_env \<Rightarrow> string \<Rightarrow> u64 \<Rightarrow> RuleScope list \<Rightarrow> rules_world \<Rightarrow> (string + bool) \<times> rules_world" where
  "consume_durable env rule_id now [] w = (Inr False, w)"
| "consume_durable env rule_id now (scope # scopes) w =
     (case load_scoped env scope w of
        (Inl e, w1) \<Rightarrow> (Inl e, w1)
      | (Inr f, w1) \<Rightarrow>
          (case live_grant f rule_id now of
             Some g \<Rightarrow> use_grant env scope rule_id now g w1
           | None \<Rightarrow> consume_durable env rule_id now scopes w1))"

definition consume_grant :: "rules_env \<Rightarrow> string \<Rightarrow> rules_world \<Rightarrow> (string + bool) \<times> rules_world" where
  "consume_grant env rule_id w =
     (let (now, ck) = tick_secs (rw_time w); w1 = w\<lparr>rw_time := ck\<rparr> in
      case live_grant (rw_task w1) rule_id now of
        Some g \<Rightarrow> use_grant env ScopeTask rule_id now g w1
      | None \<Rightarrow> consume_durable env rule_id now [ScopeWorkspace, ScopeGlobal] w1)"

section \<open>The snapshot of the interface\<close>

record RuleSnapshot =
  sn_task :: RuleFile
  sn_workspace :: RuleFile
  sn_global :: RuleFile
  sn_revision :: u64
  sn_errors :: "string list"

definition rules_revision :: "rules_world \<Rightarrow> u64" where
  "rules_revision w =
     fold (\<lambda>scope hash. let (a, b) = (case file_stamp (rw_files w scope) of Some st \<Rightarrow> st | None \<Rightarrow> (0, 0))
             in hash * 31 + (a XOR word_rotl 17 b))
       [ScopeWorkspace, ScopeGlobal] (rw_task_revision w)"

definition snapshot_part :: "string + RuleFile \<Rightarrow> RuleFile \<times> string list" where
  "snapshot_part r = (case r of Inr f \<Rightarrow> (f, []) | Inl e \<Rightarrow> (rule_file_default, [e]))"

definition rules_snapshot :: "rules_env \<Rightarrow> rules_world \<Rightarrow> RuleSnapshot \<times> rules_world" where
  "rules_snapshot env w =
     (let (r1, w1) = load_file env ScopeWorkspace w; (r2, w2) = load_file env ScopeGlobal w1 in
      (\<lparr>sn_task = rw_task w, sn_workspace = fst (snapshot_part r1), sn_global = fst (snapshot_part r2),
        sn_revision = rules_revision w, sn_errors = snd (snapshot_part r1) @ snd (snapshot_part r2)\<rparr>, w2))"

definition snapshot_files :: "RuleSnapshot \<Rightarrow> (RuleScope \<times> RuleFile) list" where
  "snapshot_files s = [(ScopeTask, sn_task s), (ScopeWorkspace, sn_workspace s), (ScopeGlobal, sn_global s)]"

definition snapshot_active :: "RuleSnapshot \<Rightarrow> (RuleScope \<times> RuleRecord) list" where
  "snapshot_active s = concat (map (\<lambda>(sc, f). map (Pair sc) (filter record_is_active (rf_rules f))) (snapshot_files s))"

definition snapshot_retired :: "RuleSnapshot \<Rightarrow> (RuleScope \<times> RuleRecord) list" where
  "snapshot_retired s = concat (map (\<lambda>(sc, f). map (Pair sc) (filter (\<lambda>r. \<not> record_is_active r) (rf_rules f))) (snapshot_files s))"

definition pending_requests :: "RuleSnapshot \<Rightarrow> (RuleScope \<times> ChangeRequest) list" where
  "pending_requests s = concat (map (\<lambda>(sc, f). map (Pair sc) (filter (\<lambda>r. cr_status r = RqPending) (rf_requests f))) (snapshot_files s))"

definition live_grants :: "RuleSnapshot \<Rightarrow> u64 \<Rightarrow> (RuleScope \<times> BypassGrant) list" where
  "live_grants s now = concat (map (\<lambda>(sc, f). map (Pair sc) (filter (\<lambda>g. \<not> grant_is_expired g now) (rf_grants f))) (snapshot_files s))"

definition snapshot_find :: "RuleSnapshot \<Rightarrow> string \<Rightarrow> (RuleScope \<times> RuleRecord) option" where
  "snapshot_find s i = find_map (\<lambda>(sc, f). map_option (Pair sc) (file_find f i)) (snapshot_files s)"

section \<open>What the store guarantees\<close>

lemma map_result_iff [simp]:
  "map_prod (map_sum id f) id p = (Inr y, w) \<longleftrightarrow> (\<exists>x. p = (Inr x, w) \<and> y = f x)"
  "map_prod (map_sum id f) id p = (Inl e, w) \<longleftrightarrow> p = (Inl e, w)"
  by (cases p; cases "fst p"; auto)+

lemma map_resultD: "map_prod (map_sum id f) id p = (r, w) \<Longrightarrow> \<exists>r'. p = (r', w)"
  by (cases p) simp

text \<open>
  The rules of a scope as the gate loads them past the cache: a file whose metadata cannot be read
  counts as one with no rules, whatever it holds.  Then the cache in step with them, which needs that
  the metadata of a file just written can be read.  The assumption on the serializer: what it prints
  is an object that reads back as the file, and blank text is not valid.
\<close>

definition content :: "rules_env \<Rightarrow> rules_world \<Rightarrow> RuleScope \<Rightarrow> string + RuleFile" where
  "content env w scope = (case scope of
     ScopeTask \<Rightarrow> Inr (rw_task w)
   | _ \<Rightarrow> (case rw_files w scope of
        Absent \<Rightarrow> Inr rule_file_default
      | Unreachable _ \<Rightarrow> Inr rule_file_default
      | Unreadable _ e \<Rightarrow> Inl (cannot_read_msg env scope e)
      | Stored _ raw \<Rightarrow> parse_rules env scope raw))"

definition coherent :: "rules_env \<Rightarrow> rules_world \<Rightarrow> bool" where
  "coherent env w \<longleftrightarrow> (\<forall>scope st f. scope \<noteq> ScopeTask \<longrightarrow> rw_cache w scope = Some (st, f) \<longrightarrow>
     file_stamp (rw_files w scope) = Some st \<longrightarrow> content env w scope = Inr f)
     \<and> (\<forall>n mtime. rw_disk w n \<noteq> WriteLands mtime False)"

definition env_ok :: "rules_env \<Rightarrow> bool" where
  "env_ok env \<longleftrightarrow> (\<forall>f raw. en_print env f = Inr raw \<longrightarrow> en_read env raw = Inr f \<and> starts_with raw ''{'')
     \<and> (\<forall>raw f. en_read env raw = Inr f \<longrightarrow> trim raw \<noteq> [])"

lemma all_dropWhile: "(\<forall>c\<in>set (dropWhile P s). P c) \<longleftrightarrow> (\<forall>c\<in>set s. P c)"
  by (induction s) auto

lemma trim_nonblank: "trim s \<noteq> [] \<longleftrightarrow> (\<exists>c\<in>set s. \<not> is_whitespace c)"
  using all_dropWhile [of is_whitespace s] by (simp add: trim_def trim_matches_def dropWhile_eq_Nil_conv)

lemma parse_printed:
  assumes "env_ok env" "en_print env f = Inr raw"
  shows "parse_rules env scope raw = Inr f"
proof -
  have p: "en_read env raw = Inr f" "starts_with raw ''{''" using assms by (auto simp: env_ok_def)
  have "\<not> starts_with raw [CHR 0xEF, CHR 0xBB, CHR 0xBF]" using p(2) by (auto simp: starts_with_append)
  with p(1) show ?thesis by (simp add: parse_rules_def strip_bom_def strip_prefix_def)
qed

lemma parsed_nonblank:
  assumes "env_ok env" "parse_rules env scope raw = Inr f"
  shows "trim raw \<noteq> []"
proof -
  have "trim (strip_bom raw) \<noteq> []"
    using assms by (cases "en_read env (strip_bom raw)") (auto simp: parse_rules_def env_ok_def)
  moreover have "set (strip_bom raw) \<subseteq> set raw" by (auto simp: strip_bom_def strip_prefix_def dest: in_set_dropD)
  ultimately show ?thesis unfolding trim_nonblank by blast
qed

lemma content_task [simp]: "content env w ScopeTask = Inr (rw_task w)"
  by (simp add: content_def)

lemma content_durable:
  "scope \<noteq> ScopeTask \<Longrightarrow> content env w scope = (case rw_files w scope of
     Absent \<Rightarrow> Inr rule_file_default | Unreachable _ \<Rightarrow> Inr rule_file_default
     | Unreadable _ e \<Rightarrow> Inl (cannot_read_msg env scope e) | Stored _ raw \<Rightarrow> parse_rules env scope raw)"
  by (cases scope; hypsubst; simp add: content_def)

lemma content_cong: "rw_task w = rw_task w' \<Longrightarrow> rw_files w = rw_files w' \<Longrightarrow> content env w = content env w'"
  by (rule ext) (auto simp: content_def split: RuleScope.splits)

definition same_rules :: "rules_world \<Rightarrow> rules_world \<Rightarrow> bool" where
  "same_rules w w' \<longleftrightarrow> rw_task w' = rw_task w \<and> rw_time w' = rw_time w \<and> rw_files w' = rw_files w
     \<and> rw_disk w' = rw_disk w \<and> rw_writes w' = rw_writes w \<and> rw_task_revision w' = rw_task_revision w"

lemma load_file_spec:
  assumes "coherent env w" "load_file env scope w = (r, w')" "scope \<noteq> ScopeTask"
  shows "r = content env w scope \<and> coherent env w' \<and> same_rules w w'"
proof (cases "file_stamp (rw_files w scope)")
  case None
  with assms show ?thesis by (cases "rw_files w scope") (auto simp: load_file_def same_rules_def content_durable)
next
  case (Some st)
  show ?thesis
  proof (cases "cached scope st w")
    case c: (Some f)
    then have "rw_cache w scope = Some (st, f)" by (auto simp: cached_def split: option.splits if_splits)
    with assms(1,3) Some have "content env w scope = Inr f" unfolding coherent_def by blast
    with assms(2) Some c show ?thesis using assms(1) by (auto simp: load_file_def same_rules_def)
  next
    case c: None
    show ?thesis
    proof (cases "rw_files w scope")
      case (Stored st' raw)
      then have st: "st' = st" using Some by simp
      show ?thesis
      proof (cases "parse_rules env scope raw")
        case (Inl e)
        with assms Some c Stored show ?thesis by (auto simp: load_file_def same_rules_def content_durable)
      next
        case (Inr f)
        then have w': "w' = w\<lparr>rw_cache := (rw_cache w)(scope := Some (st, f))\<rparr>" "r = Inr f"
          using assms(2) Some c Stored by (auto simp: load_file_def)
        moreover have "content env w scope = Inr f" using assms(3) Stored Inr by (simp add: content_durable)
        moreover have "content env w' = content env w" using w' by (intro content_cong) simp_all
        ultimately show ?thesis using assms(1) Stored st by (auto simp: coherent_def same_rules_def)
      qed
    qed (use assms Some c in \<open>auto simp: load_file_def same_rules_def content_durable\<close>)
  qed
qed

lemma load_scoped_spec:
  assumes "coherent env w" "load_scoped env scope w = (r, w')"
  shows "r = content env w scope" "coherent env w'" "same_rules w w'" "content env w' = content env w"
proof -
  have all: "r = content env w scope \<and> coherent env w' \<and> same_rules w w'"
  proof (cases "scope = ScopeTask")
    case True
    with assms show ?thesis by (auto simp: load_scoped_def content_def same_rules_def)
  next
    case False
    then have "load_file env scope w = (r, w')" using assms(2) by (cases scope) (auto simp: load_scoped_def)
    from load_file_spec [OF assms(1) this False] show ?thesis .
  qed
  then show "r = content env w scope" "coherent env w'" "same_rules w w'" by simp_all
  then show "content env w' = content env w" by (intro content_cong) (simp_all add: same_rules_def)
qed

text \<open>What an update starts from is the content, and what it leaves is the edited file.\<close>

definition base :: "rules_env \<Rightarrow> rules_world \<Rightarrow> RuleScope \<Rightarrow> string + RuleFile" where
  "base env w scope = (if scope = ScopeTask then Inr (rw_task w) else read_for_update env scope w)"

lemma base_content:
  "env_ok env \<Longrightarrow> content env w scope = Inr f \<Longrightarrow> base env w scope = Inr f0 \<Longrightarrow> f0 = f"
  "env_ok env \<Longrightarrow> content env w scope = Inr f \<Longrightarrow> f \<noteq> rule_file_default \<Longrightarrow> base env w scope = Inr f"
  by (cases "scope = ScopeTask"; cases "rw_files w scope";
      auto simp: base_def content_durable read_for_update_def dest: parsed_nonblank)+

lemma base_or_default: "base env w scope = Inr f \<Longrightarrow> f = rule_file_default \<or> content env w scope = Inr f"
  by (cases "scope = ScopeTask"; cases "rw_files w scope")
    (auto simp: base_def content_durable read_for_update_def split: if_splits)

lemma coherent_disk: "coherent env w \<Longrightarrow> rw_disk w n \<noteq> WriteLands mtime False"
  unfolding coherent_def by blast

lemma write_rules_spec:
  assumes "env_ok env" "coherent env w" "scope \<noteq> ScopeTask" "write_rules env scope f w = (r, w')"
  shows "coherent env w' \<and> rw_task w' = rw_task w \<and> rw_time w' = rw_time w
    \<and> (\<forall>s. s \<noteq> scope \<longrightarrow> content env w' s = content env w s)
    \<and> content env w' scope = (case r of Inr _ \<Rightarrow> Inr f | Inl _ \<Rightarrow> content env w scope)"
proof (cases "en_print env f")
  case (Inl e)
  with assms show ?thesis by (auto simp: write_rules_def)
next
  case (Inr raw)
  show ?thesis
  proof (cases "rw_disk w (rw_writes w)")
    case (WriteFails e)
    with Inr assms(4) have w': "w' = w\<lparr>rw_writes := rw_writes w + 1\<rparr>" "r = Inl e" by (auto simp: write_rules_def)
    have "content env w' = content env w" using w' by (intro content_cong) simp_all
    with w' assms(2) show ?thesis by (auto simp: coherent_def)
  next
    case (WriteLands mtime seen)
    let ?st = "(mtime, of_nat (length raw)) :: stamp"
    have w': "r = Inr ()" "w' = w\<lparr>rw_writes := rw_writes w + 1, rw_files := (rw_files w)(scope := Stored ?st raw),
        rw_cache := (if seen then (rw_cache w)(scope := Some (?st, f)) else rw_cache w)\<rparr>"
      using Inr WriteLands assms(4) by (auto simp: write_rules_def Let_def)
    have c: "content env w' scope = Inr f" using w' assms(3) parse_printed [OF assms(1) Inr] by (simp add: content_durable)
    moreover have o: "content env w' s = content env w s" if "s \<noteq> scope" for s 
      using w'(2) that by (cases "s = ScopeTask") (simp_all add: content_durable)
    moreover have seen: "seen" using coherent_disk [OF assms(2), of "rw_writes w" mtime] WriteLands by (cases seen) simp_all
    moreover have "coherent env w'"
      unfolding coherent_def
    proof (intro conjI allI impI)
      show "rw_disk w' n \<noteq> WriteLands mt False" for n mt using coherent_disk [OF assms(2)] w' by simp
    next
      fix s st g
      assume h: "s \<noteq> ScopeTask" "rw_cache w' s = Some (st, g)" "file_stamp (rw_files w' s) = Some st"
      show "content env w' s = Inr g"
      proof (cases "s = scope")
        case False
        then have "rw_cache w s = Some (st, g)" "file_stamp (rw_files w s) = Some st" using h w'(2) by (simp_all split: if_splits)
        with h(1) assms(2) have "content env w s = Inr g" unfolding coherent_def by blast
        with o [OF False] show ?thesis by simp
      next
        case True
        with h w' c seen show ?thesis by simp
      qed
    qed
    ultimately show ?thesis using w' by simp
  qed
qed

lemma update_scoped_spec:
  assumes "env_ok env" "coherent env w" "update_scoped env scope edit w = (r, w')"
  shows "coherent env w'" "\<And>s. s \<noteq> scope \<Longrightarrow> content env w' s = content env w s"
    "\<And>x. r = Inr x \<Longrightarrow> \<exists>f0 f ck. base env w scope = Inr f0 \<and> edit f0 (rw_time w) = (Inr x, f, ck)
        \<and> content env w' scope = Inr f \<and> rw_time w' = ck"
    "\<And>e. r = Inl e \<Longrightarrow> content env w' scope = content env w scope
        \<or> (\<exists>f ck. scope = ScopeTask \<and> edit (rw_task w) (rw_time w) = (Inl e, f, ck) \<and> content env w' scope = Inr f)"
proof -
  have "coherent env w' \<and> (\<forall>s. s \<noteq> scope \<longrightarrow> content env w' s = content env w s)
    \<and> (\<forall>x. r = Inr x \<longrightarrow> (\<exists>f0 f ck. base env w scope = Inr f0 \<and> edit f0 (rw_time w) = (Inr x, f, ck)
        \<and> content env w' scope = Inr f \<and> rw_time w' = ck))
    \<and> (\<forall>e. r = Inl e \<longrightarrow> content env w' scope = content env w scope
        \<or> (\<exists>f ck. scope = ScopeTask \<and> edit (rw_task w) (rw_time w) = (Inl e, f, ck) \<and> content env w' scope = Inr f))"
  proof (cases "scope = ScopeTask")
    case True
    obtain r1 f ck where e: "edit (rw_task w) (rw_time w) = (r1, f, ck)" by (metis prod_cases3)
    let ?w = "w\<lparr>rw_task := f, rw_time := ck,
        rw_task_revision := (case r1 of Inl _ \<Rightarrow> rw_task_revision w | Inr _ \<Rightarrow> rw_task_revision w + 1)\<rparr>"
    have w': "r = r1" "w' = ?w" using assms(3) True e by (auto simp: update_scoped_def)
    have o: "content env w' s = content env w s" if "s \<noteq> ScopeTask" for s using w' that by (simp add: content_durable)
    have "coherent env w'" unfolding coherent_def
    proof (intro conjI allI impI)
      show "rw_disk w' n \<noteq> WriteLands mt False" for n mt using coherent_disk [OF assms(2)] w' by simp
    next
      fix s st g
      assume h: "s \<noteq> ScopeTask" "rw_cache w' s = Some (st, g)" "file_stamp (rw_files w' s) = Some st"
      then have "rw_cache w s = Some (st, g)" "file_stamp (rw_files w s) = Some st" using w'(2) by simp_all
      then have "content env w s = Inr g" using h(1) assms(2) unfolding coherent_def by blast
      with o h(1) show "content env w' s = Inr g" by simp
    qed
    with w' o e True show ?thesis by (auto simp: base_def)
  next
    case False
    then have u: "update_scoped env scope edit w =
        (case read_for_update env scope w of
             Inl e \<Rightarrow> (Inl e, w)
           | Inr f0 \<Rightarrow>
               (case edit f0 (rw_time w) of
                  (Inl e, _, ck) \<Rightarrow> (Inl e, w\<lparr>rw_time := ck\<rparr>)
                | (Inr x, f, ck) \<Rightarrow> map_prod (map_sum id (\<lambda>_. x)) id (write_rules env scope f (w\<lparr>rw_time := ck\<rparr>))))"
      unfolding update_scoped_def by (cases scope) auto
    have tc: "content env (w\<lparr>rw_time := ck\<rparr>) = content env w" for ck by (intro content_cong) simp_all
    have ch: "coherent env (w\<lparr>rw_time := ck\<rparr>)" for ck using assms(2) by (simp add: coherent_def tc)
    show ?thesis
    proof (cases "read_for_update env scope w")
      case (Inl e)
      with u assms show ?thesis by auto
    next
      case (Inr f0)
      obtain r1 f ck where e: "edit f0 (rw_time w) = (r1, f, ck)" by (metis prod_cases3)
      show ?thesis
      proof (cases r1)
        case (Inl err)
        with u assms(3) Inr e ch tc show ?thesis by auto
      next
        case x: (Inr x)
        obtain r2 w2 where wr: "write_rules env scope f (w\<lparr>rw_time := ck\<rparr>) = (r2, w2)" by (metis surj_pair)
        then have "r = map_sum id (\<lambda>_. x) r2" "w' = w2" using u assms(3) Inr e x by simp_all
        with write_rules_spec [OF assms(1) ch False wr] tc e x Inr False show ?thesis
          by (cases r2) (auto simp: base_def)
      qed
    qed
  qed
  then show "coherent env w'" "\<And>s. s \<noteq> scope \<Longrightarrow> content env w' s = content env w s"
    "\<And>x. r = Inr x \<Longrightarrow> \<exists>f0 f ck. base env w scope = Inr f0 \<and> edit f0 (rw_time w) = (Inr x, f, ck)
        \<and> content env w' scope = Inr f \<and> rw_time w' = ck"
    "\<And>e. r = Inl e \<Longrightarrow> content env w' scope = content env w scope
        \<or> (\<exists>f ck. scope = ScopeTask \<and> edit (rw_task w) (rw_time w) = (Inl e, f, ck) \<and> content env w' scope = Inr f)"
    by blast+
qed

text \<open>The contract of an edit: under its precondition it keeps a well-formed file well-formed.\<close>

definition files_ok :: "(RuleFile \<Rightarrow> bool) \<Rightarrow> rules_env \<Rightarrow> rules_world \<Rightarrow> bool" where
  "files_ok ok env w \<longleftrightarrow> (\<forall>s f. content env w s = Inr f \<longrightarrow> ok f)"

locale file_edit =
  fixes edit :: "'a rule_edit" and pre :: bool and ok :: "RuleFile \<Rightarrow> bool"
  assumes keeps: "pre \<Longrightarrow> ok f \<Longrightarrow> edit f ck = (r, f', ck') \<Longrightarrow> ok f'"
    and ok_default: "ok rule_file_default"
begin

lemma update_keeps:
  assumes "env_ok env" "coherent env w" "files_ok ok env w" "pre" "update_scoped env scope edit w = (r, w')"
  shows "coherent env w' \<and> files_ok ok env w'"
proof -
  note spec = update_scoped_spec [OF assms(1,2,5)]
  have "ok f" if c: "content env w' s = Inr f" for s f
  proof (cases "s = scope")
    case False
    with spec(2) c assms(3) show ?thesis by (auto simp: files_ok_def)
  next
    case True
    show ?thesis
    proof (cases r)
      case (Inr x)
      from spec(3) [OF this] obtain f0 f1 ck where "base env w scope = Inr f0" "edit f0 (rw_time w) = (Inr x, f1, ck)"
        "content env w' scope = Inr f1" by blast
      with c True keeps [OF assms(4), of f0] base_or_default [of env w scope f0] assms(3) ok_default show ?thesis
        by (auto simp: files_ok_def)
    next
      case (Inl e)
      from spec(4) [OF this] show ?thesis
      proof
        assume "content env w' scope = content env w scope"
        with c True assms(3) show ?thesis by (simp add: files_ok_def)
      next
        assume "\<exists>f ck. scope = ScopeTask \<and> edit (rw_task w) (rw_time w) = (Inl e, f, ck) \<and> content env w' scope = Inr f"
        then obtain f1 ck where "scope = ScopeTask" "edit (rw_task w) (rw_time w) = (Inl e, f1, ck)" "f1 = f" using c True by auto
        moreover have "ok (rw_task w)" using assms(3) content_task unfolding files_ok_def by blast
        ultimately show ?thesis using keeps [OF assms(4)] by blast
      qed
    qed
  qed
  with spec(1) show ?thesis by (simp add: files_ok_def)
qed

end

end
