(* ===== verification/Rule_Lifecycle.thy ===== *)
theory Rule_Lifecycle
  imports Rule_Store
begin

text \<open>
  The lifecycle of rules (\<open>rules/lifecycle.rs\<close>): creation, adjustment, retirement and bypass, and
  the requests that separate what an agent may do from what a human must sign off.  Each closure
  passed to \<open>update_scoped\<close> is an edit of its own.
\<close>

section \<open>Validation\<close>

record NewRule =
  nr_name :: string
  nr_description :: string
  nr_kind :: RuleKind
  nr_params :: rule_params
  nr_scope :: RuleScope
  nr_remedy :: "string option"
  nr_witnesses :: "Witnesses option"
  nr_owner :: string
  nr_provenance :: string

definition AGENT :: string where
  "AGENT = ''agent''"

definition USER :: string where
  "USER = ''user''"

definition may_apply_immediately :: "RuleScope \<Rightarrow> string \<Rightarrow> bool" where
  "may_apply_immediately scope actor \<longleftrightarrow> scope = ScopeTask \<or> actor \<noteq> AGENT"

definition ticked :: "string \<Rightarrow> string" where
  "ticked s = ''`'' @ s @ ''`''"

definition unknown_param_msg :: "RuleKind \<Rightarrow> string \<Rightarrow> string" where
  "unknown_param_msg kind key = ticked key @ '' is not a parameter of a '' @ rule_kind_label kind @ '' rule (expected: ''
     @ join '', '' (map sp_key (kind_params kind)) @ '')''"

definition show_int :: "int \<Rightarrow> string" where
  "show_int i = (if i < 0 then CHR ''-'' # show_nat (nat (- i)) else show_nat (nat i))"

definition check_param :: "ParamSpec \<Rightarrow> ParamValue \<Rightarrow> string option" where
  "check_param spec v = (case sp_kind spec of
     IntParam lo hi _ \<Rightarrow>
       (case v of
          PInt i \<Rightarrow> if i < lo \<or> hi < i then Some (ticked (sp_key spec) @ '' must be between '' @ show_int lo @ '' and '' @ show_int hi) else None
        | _ \<Rightarrow> Some (ticked (sp_key spec) @ '' must be a whole number''))
   | ListParam _ \<Rightarrow>
       (case v of
          PList items \<Rightarrow> if filter (\<lambda>i. trim i \<noteq> []) items = []
            then Some (ticked (sp_key spec) @ '' needs at least one non-empty entry'') else None
        | _ \<Rightarrow> Some (ticked (sp_key spec) @ '' must be a list of strings'')))"

definition validate_params :: "RuleKind \<Rightarrow> rule_params \<Rightarrow> string + unit" where
  "validate_params kind params =
     (case List.find (\<lambda>key. \<not> list_ex (\<lambda>spec. sp_key spec = key) (kind_params kind)) (map fst params) of
        Some key \<Rightarrow> Inl (unknown_param_msg kind key)
      | None \<Rightarrow>
          (case find_map (\<lambda>spec. case map_of params (sp_key spec) of
               None \<Rightarrow> Some (rule_kind_label kind @ '' rules need '' @ ticked (sp_key spec))
             | Some v \<Rightarrow> check_param spec v) (kind_params kind) of
             Some e \<Rightarrow> Inl e
           | None \<Rightarrow> Inr ()))"

definition trim_remedy :: "string option \<Rightarrow> string option" where
  "trim_remedy r = (case r of None \<Rightarrow> None | Some s \<Rightarrow> if trim s = [] then None else Some (trim s))"

section \<open>Creation\<close>

definition description_msg :: string where
  "description_msg = ''description is required: it states the intent the refusal will quote''"

definition insert_edit :: "RuleScope \<Rightarrow> Rule \<Rightarrow> unit rule_edit" where
  "insert_edit scope r f ck =
     (if file_find f (ru_id r) \<noteq> None then (Inl ''rule id collision; retry'', f, ck)
      else (Inr (), f\<lparr>rf_rules := rf_rules f @ [record_new scope r]\<rparr>, ck))"

definition new_rule :: "NewRule \<Rightarrow> string \<Rightarrow> u64 \<Rightarrow> Rule" where
  "new_rule req i now =
     \<lparr>ru_id = i, ru_name = trim (nr_name req), ru_description = trim (nr_description req), ru_kind = nr_kind req,
      ru_params = nr_params req, ru_remedy = trim_remedy (nr_remedy req), ru_owner = nr_owner req,
      ru_provenance = trim (nr_provenance req), ru_version = 1, ru_created_at = now, ru_updated_at = now,
      ru_witnesses = nr_witnesses req\<rparr>"

definition create_rule :: "rules_env \<Rightarrow> NewRule \<Rightarrow> rules_world \<Rightarrow> (string + Rule) \<times> rules_world" where
  "create_rule env req w =
     (if trim (nr_name req) = [] then (Inl ''name is required'', w)
      else if trim (nr_description req) = [] then (Inl description_msg, w)
      else (case validate_params (nr_kind req) (nr_params req) of
        Inl e \<Rightarrow> (Inl e, w)
      | Inr _ \<Rightarrow>
          (let (now, ck1) = tick_secs (rw_time w); (i, ck2) = new_rule_id ck1; w1 = w\<lparr>rw_time := ck2\<rparr> in
           case rule_prepare (en_debug env) (new_rule req i now) of
             Inl e \<Rightarrow> (Inl e, w1)
           | Inr r \<Rightarrow> map_prod (map_sum id (\<lambda>_. r)) id (update_scoped env (nr_scope req) (insert_edit (nr_scope req) r) w1))))"

section \<open>Requests\<close>

definition rule_missing :: "string \<Rightarrow> string" where
  "rule_missing i = ''rule '' @ quoted i @ '' not found''"

fun find_scope :: "rules_env \<Rightarrow> (RuleFile \<Rightarrow> bool) \<Rightarrow> string \<Rightarrow> RuleScope list \<Rightarrow> rules_world \<Rightarrow> (string + RuleScope) \<times> rules_world" where
  "find_scope env P missing [] w = (Inl missing, w)"
| "find_scope env P missing (s # ss) w =
     (case load_scoped env s w of
        (Inl e, w1) \<Rightarrow> (Inl e, w1)
      | (Inr f, w1) \<Rightarrow> if P f then (Inr s, w1) else find_scope env P missing ss w1)"

definition find_rule_scope :: "rules_env \<Rightarrow> string \<Rightarrow> rules_world \<Rightarrow> (string + RuleScope) \<times> rules_world" where
  "find_rule_scope env i w = find_scope env (\<lambda>f. file_find f i \<noteq> None) (rule_missing i) RULE_SCOPES w"

definition find_request_scope :: "rules_env \<Rightarrow> string \<Rightarrow> rules_world \<Rightarrow> (string + RuleScope) \<times> rules_world" where
  "find_request_scope env i w =
     find_scope env (\<lambda>f. file_find_request f i \<noteq> None) (''request '' @ quoted i @ '' not found'') RULE_SCOPES w"

definition request_edit :: "string \<Rightarrow> ChangeRequest \<Rightarrow> unit rule_edit" where
  "request_edit rule_id req f ck =
     (if file_find f rule_id = None then (Inl (rule_missing rule_id), f, ck)
      else (Inr (), f\<lparr>rf_requests := rf_requests f @ [req]\<rparr>, ck))"

definition file_request ::
  "rules_env \<Rightarrow> RuleScope \<Rightarrow> string \<Rightarrow> ChangeAction \<Rightarrow> string \<Rightarrow> string \<Rightarrow> rules_world \<Rightarrow> (string + string) \<times> rules_world" where
  "file_request env scope rule_id action actor reason w =
     (let (i, ck1) = new_request_id (rw_time w); (now, ck2) = tick_secs ck1;
          req = \<lparr>cr_id = i, cr_rule_id = rule_id, cr_scope = scope, cr_action = action, cr_requested_by = actor,
            cr_reason = trim reason, cr_created_at = now, cr_status = RqPending, cr_decided_by = None, cr_decided_at = None\<rparr>
      in map_prod (map_sum id (\<lambda>_. i)) id (update_scoped env scope (request_edit rule_id req) (w\<lparr>rw_time := ck2\<rparr>)))"

section \<open>Adjustment and retirement\<close>

datatype ChangeOutcome = Applied RuleRecord | PendingChange string

definition patched :: "RulePatch \<Rightarrow> u64 \<Rightarrow> Rule \<Rightarrow> Rule" where
  "patched patch now current =
     (let params = (case pa_params patch of Some p \<Rightarrow> p | None \<Rightarrow> ru_params current) in
      current\<lparr>ru_name := (case pa_name patch of Some n \<Rightarrow> trim n | None \<Rightarrow> ru_name current),
        ru_description := (case pa_description patch of Some d \<Rightarrow> trim d | None \<Rightarrow> ru_description current),
        ru_params := params,
        ru_remedy := (case pa_remedy patch of Some r \<Rightarrow> trim_remedy (Some r) | None \<Rightarrow> ru_remedy current),
        ru_witnesses := (case pa_witnesses patch of Some w \<Rightarrow> Some w
          | None \<Rightarrow> if params \<noteq> ru_params current then None else ru_witnesses current),
        ru_version := ru_version current + 1, ru_updated_at := now\<rparr>)"

definition candidate_for :: "rules_env \<Rightarrow> RuleRecord \<Rightarrow> RulePatch \<Rightarrow> u64 \<Rightarrow> string + Rule" where
  "candidate_for env rec patch now =
     (if (case pa_name patch of Some n \<Rightarrow> trim n = [] | None \<Rightarrow> False) then Inl ''name cannot be empty''
      else if (case pa_description patch of Some d \<Rightarrow> trim d = [] | None \<Rightarrow> False) then Inl ''description cannot be empty''
      else (case (case pa_params patch of Some p \<Rightarrow> validate_params (ru_kind (rr_current rec)) p | None \<Rightarrow> Inr ()) of
        Inl e \<Rightarrow> Inl e
      | Inr _ \<Rightarrow> rule_prepare (en_debug env) (patched patch now (rr_current rec))))"

definition adjust_edit :: "rules_env \<Rightarrow> string \<Rightarrow> RulePatch \<Rightarrow> string \<Rightarrow> RuleRecord rule_edit" where
  "adjust_edit env rule_id patch missing f ck =
     (case file_find f rule_id of
        None \<Rightarrow> (Inl missing, f, ck)
      | Some rec \<Rightarrow>
          if \<not> record_is_active rec then (Inl (''rule '' @ quoted rule_id @ '' is retired''), f, ck)
          else (let (now, ck1) = tick_secs ck in
            case candidate_for env rec patch now of
              Inl e \<Rightarrow> (Inl e, f, ck1)
            | Inr cand \<Rightarrow> (Inr (supersede cand rec), on_record rule_id (supersede cand) f, ck1)))"

definition drop_grants :: "string \<Rightarrow> RuleFile \<Rightarrow> RuleFile" where
  "drop_grants rule_id f = f\<lparr>rf_grants := filter (\<lambda>g. bg_rule_id g \<noteq> rule_id) (rf_grants f)\<rparr>"

definition tombstone :: "u64 \<Rightarrow> RuleRecord \<Rightarrow> RuleRecord" where
  "tombstone now rec = rec\<lparr>rr_retired_at := Some now\<rparr>"

definition retire_edit :: "string \<Rightarrow> RuleRecord rule_edit" where
  "retire_edit rule_id f ck =
     (case file_find f rule_id of
        None \<Rightarrow> (Inl (rule_missing rule_id), f, ck)
      | Some rec \<Rightarrow>
          if \<not> record_is_active rec then (Inl (''rule '' @ quoted rule_id @ '' is already retired''), f, ck)
          else (let (now, ck1) = tick_secs ck in
            (Inr (tombstone now rec), drop_grants rule_id (on_record rule_id (tombstone now) f), ck1)))"

text \<open>The common shape of \<open>adjust\<close> and \<open>retire\<close>: find the scope, then file a request or apply.\<close>

definition change ::
  "rules_env \<Rightarrow> string \<Rightarrow> ChangeAction \<Rightarrow> string \<Rightarrow> string \<Rightarrow> RuleRecord rule_edit \<Rightarrow> rules_world \<Rightarrow> (string + ChangeOutcome) \<times> rules_world" where
  "change env rule_id action actor reason edit w =
     (case find_rule_scope env rule_id w of
        (Inl e, w1) \<Rightarrow> (Inl e, w1)
      | (Inr scope, w1) \<Rightarrow>
          if \<not> may_apply_immediately scope actor
          then map_prod (map_sum id PendingChange) id (file_request env scope rule_id action actor reason w1)
          else map_prod (map_sum id Applied) id (update_scoped env scope edit w1))"

definition adjust_rule ::
  "rules_env \<Rightarrow> string \<Rightarrow> RulePatch \<Rightarrow> string \<Rightarrow> string \<Rightarrow> rules_world \<Rightarrow> (string + ChangeOutcome) \<times> rules_world" where
  "adjust_rule env rule_id patch actor reason w =
     change env rule_id (Adjust patch) actor reason (adjust_edit env rule_id patch (rule_missing rule_id)) w"

definition retire_rule ::
  "rules_env \<Rightarrow> string \<Rightarrow> string \<Rightarrow> string \<Rightarrow> rules_world \<Rightarrow> (string + ChangeOutcome) \<times> rules_world" where
  "retire_rule env rule_id actor reason w = change env rule_id Retire actor reason (retire_edit rule_id) w"

section \<open>Bypass\<close>

definition MAX_BYPASS_MINUTES :: u32 where
  "MAX_BYPASS_MINUTES = 10080"

definition make_grant :: "string \<Rightarrow> BypassSpec \<Rightarrow> string \<Rightarrow> rules_clock \<Rightarrow> BypassGrant \<times> rules_clock" where
  "make_grant rule_id spec issued_by ck =
     (let (now, ck1) = tick_secs ck; (i, ck2) = new_grant_id ck1 in
      (\<lparr>bg_id = i, bg_rule_id = rule_id, bg_scope = bs_scope spec,
        bg_expires_at = (if bs_scope spec = BypassEvent then None else Some (now + ucast (bs_minutes spec) * 60)),
        bg_uses_left = (if bs_scope spec = BypassEvent then Some 1 else None),
        bg_issued_by = issued_by, bg_reason = trim (bs_reason spec), bg_created_at = now\<rparr>, ck2))"

definition put_grant :: "BypassGrant \<Rightarrow> RuleFile \<Rightarrow> RuleFile" where
  "put_grant g f = (let f1 = drop_grants (bg_rule_id g) f in f1\<lparr>rf_grants := rf_grants f1 @ [g]\<rparr>)"

definition grant_edit :: "string \<Rightarrow> BypassGrant \<Rightarrow> unit rule_edit" where
  "grant_edit rule_id g f ck =
     (if file_find f rule_id = None then (Inl (rule_missing rule_id), f, ck) else (Inr (), put_grant g f, ck))"

datatype BypassOutcome = Granted BypassGrant | PendingBypass string

definition minutes_msg :: string where
  "minutes_msg = ''minutes must be between 1 and 10080 for a timed bypass''"

definition bypass_rule :: "rules_env \<Rightarrow> string \<Rightarrow> BypassSpec \<Rightarrow> string \<Rightarrow> rules_world \<Rightarrow> (string + BypassOutcome) \<times> rules_world" where
  "bypass_rule env rule_id spec actor w =
     (if trim (bs_reason spec) = [] then (Inl ''a bypass needs a reason'', w)
      else if bs_scope spec \<noteq> BypassEvent \<and> (bs_minutes spec < 1 \<or> MAX_BYPASS_MINUTES < bs_minutes spec) then (Inl minutes_msg, w)
      else (case find_rule_scope env rule_id w of
        (Inl e, w1) \<Rightarrow> (Inl e, w1)
      | (Inr scope, w1) \<Rightarrow>
          if \<not> may_apply_immediately scope actor
          then map_prod (map_sum id PendingBypass) id (file_request env scope rule_id (Bypass spec) actor ''bypass requested'' w1)
          else (let (g, ck) = make_grant rule_id spec actor (rw_time w1) in
            map_prod (map_sum id (\<lambda>_. Granted g)) id (update_scoped env scope (grant_edit rule_id g) (w1\<lparr>rw_time := ck\<rparr>)))))"

section \<open>Decisions\<close>

definition rule_gone :: "string \<Rightarrow> string" where
  "rule_gone i = ''rule '' @ quoted i @ '' no longer exists''"

definition apply_request :: "rules_env \<Rightarrow> ChangeRequest \<Rightarrow> string \<Rightarrow> unit rule_edit" where
  "apply_request env req decided_by f ck = (case cr_action req of
     Adjust patch \<Rightarrow> (case adjust_edit env (cr_rule_id req) patch (rule_gone (cr_rule_id req)) f ck of
       (r, f1, ck1) \<Rightarrow> (map_sum id (\<lambda>_. ()) r, f1, ck1))
   | Retire \<Rightarrow>
       if file_find f (cr_rule_id req) = None then (Inl (rule_gone (cr_rule_id req)), f, ck)
       else (let (now, ck1) = tick_secs ck in
         (Inr (), drop_grants (cr_rule_id req) (on_record (cr_rule_id req) (tombstone now) f), ck1))
   | Bypass spec \<Rightarrow>
       if file_find f (cr_rule_id req) = None then (Inl (rule_gone (cr_rule_id req)), f, ck)
       else (let (g, ck1) = make_grant (cr_rule_id req) spec decided_by ck in (Inr (), put_grant g f, ck1)))"

definition decided :: "string \<Rightarrow> bool \<Rightarrow> u64 \<Rightarrow> ChangeRequest \<Rightarrow> ChangeRequest" where
  "decided decided_by approve now req =
     req\<lparr>cr_status := (if approve then RqApproved else RqDenied), cr_decided_by := Some decided_by, cr_decided_at := Some now\<rparr>"

definition decide_edit :: "rules_env \<Rightarrow> string \<Rightarrow> string \<Rightarrow> bool \<Rightarrow> ChangeRequest rule_edit" where
  "decide_edit env request_id decided_by approve f ck =
     (case file_find_request f request_id of
        None \<Rightarrow> (Inl (''request '' @ quoted request_id @ '' not found''), f, ck)
      | Some req \<Rightarrow>
          if cr_status req \<noteq> RqPending
          then (Inl (''request '' @ quoted request_id @ '' is already '' @ request_status_label (cr_status req)), f, ck)
          else (case (if approve then apply_request env req decided_by f ck else (Inr (), f, ck)) of
            (Inl e, f1, ck1) \<Rightarrow> (Inl e, f1, ck1)
          | (Inr _, f1, ck1) \<Rightarrow>
              (let (now, ck2) = tick_secs ck1 in
               (Inr (decided decided_by approve now req), on_request request_id (decided decided_by approve now) f1, ck2))))"

definition decide_request ::
  "rules_env \<Rightarrow> string \<Rightarrow> string \<Rightarrow> bool \<Rightarrow> rules_world \<Rightarrow> (string + ChangeRequest) \<times> rules_world" where
  "decide_request env request_id decided_by approve w =
     (case find_request_scope env request_id w of
        (Inl e, w1) \<Rightarrow> (Inl e, w1)
      | (Inr scope, w1) \<Rightarrow> update_scoped env scope (decide_edit env request_id decided_by approve) w1)"

definition approve_request :: "rules_env \<Rightarrow> string \<Rightarrow> string \<Rightarrow> rules_world \<Rightarrow> (string + ChangeRequest) \<times> rules_world" where
  "approve_request env request_id decided_by w = decide_request env request_id decided_by True w"

definition reject_request :: "rules_env \<Rightarrow> string \<Rightarrow> string \<Rightarrow> rules_world \<Rightarrow> (string + ChangeRequest) \<times> rules_world" where
  "reject_request env request_id decided_by w = decide_request env request_id decided_by False w"

end
