(* ===== verification/Rule_Gate.thy ===== *)
theory Rule_Gate
  imports Rule_Lifecycle
begin

text \<open>
  The rules gate in front of every tool call: evaluation of the active rules and the call budgets
  (\<open>rules/engine.rs\<close>) and the gate itself (\<open>rules/mod.rs\<close>).  An \<open>Instant\<close> is an integer number
  of nanoseconds, not below the earliest one the platform can represent; the readings of the
  monotonic clock are a field of the state.
\<close>

section \<open>Hits and refusals\<close>

record Hit =
  hi_rule :: Rule
  hi_scope :: RuleScope
  hi_detail :: string

definition sentence :: "string \<Rightarrow> string" where
  "sentence s = (let t = trim s in if t \<noteq> [] \<and> last t \<in> {CHR ''.'', CHR ''!'', CHR ''?''} then t else t @ ''.'')"

definition no_remedy_msg :: string where
  "no_remedy_msg = '' No alternative is recorded for this rule.''"

definition refusal :: "Hit \<Rightarrow> string" where
  "refusal h =
     ''action blocked '' @ em_dash @ '' '' @ hi_detail h @ ''; rule '' @ dquoted (ru_name (hi_rule h)) @ '' (''
       @ scope_label (hi_scope h) @ '', '' @ ru_id (hi_rule h) @ ''): '' @ sentence (ru_description (hi_rule h))
       @ (case ru_remedy (hi_rule h) of
            Some remedy \<Rightarrow> if trim remedy \<noteq> [] then '' Remedy: '' @ sentence remedy else no_remedy_msg
          | None \<Rightarrow> no_remedy_msg)"

section \<open>Budgets\<close>

type_synonym Instant = int
type_synonym budget_store = "((string \<times> u32) \<times> Instant list) list"

record gate_state =
  gs_rules :: rules_world
  gs_budgets :: budget_store
  gs_instants :: "nat \<Rightarrow> Instant"
  gs_reads :: nat

definition record_and_check :: "Instant \<Rightarrow> Instant list \<Rightarrow> Instant \<Rightarrow> int \<Rightarrow> int \<Rightarrow> bool \<times> Instant list" where
  "record_and_check earliest queue now limit window =
     (let cutoff = (if earliest \<le> now - window then now - window else now);
          queue' = dropWhile (\<lambda>t. t < cutoff) (queue @ [now])
      in (limit < int (length queue'), queue'))"

definition budget_detail :: "int \<Rightarrow> int \<Rightarrow> int \<Rightarrow> string" where
  "budget_detail window limit calls =
     ''tool-call budget exceeded: '' @ show_int calls @ '' calls in '' @ show_int window @ '' min (limit '' @ show_int limit @ '')''"

text \<open>\<open>window as u64 * 60\<close> seconds, in nanoseconds; the product wraps in a release build.\<close>

definition window_nanos :: "int \<Rightarrow> int" where
  "window_nanos window = uint ((of_int window :: u64) * 60) * 1000000000"

definition budget_hit :: "Instant \<Rightarrow> Rule \<Rightarrow> gate_state \<Rightarrow> string option \<times> gate_state" where
  "budget_hit earliest r gs =
     (let limit = (case rule_int r ''tool_calls'' of Some v \<Rightarrow> v | None \<Rightarrow> 0);
          window = (case rule_int r ''window_minutes'' of Some v \<Rightarrow> v | None \<Rightarrow> 0)
      in if limit < 1 \<or> window < 1 then (Some (''tool-call budget for '' @ dquoted (ru_name r) @ '' is invalid''), gs)
         else
           (let key = (ru_id r, ru_version r);
                now = gs_instants gs (gs_reads gs);
                store = (if 512 < length (gs_budgets gs) then [] else gs_budgets gs);
                queue = (case map_of store key of Some q \<Rightarrow> q | None \<Rightarrow> []);
                (exceeded, queue') = record_and_check earliest queue now limit (window_nanos window)
            in (if exceeded then Some (budget_detail window limit (int (length queue'))) else None,
                gs\<lparr>gs_budgets := AList.update key queue' store, gs_reads := gs_reads gs + 1\<rparr>)))"

section \<open>Evaluation\<close>

definition rule_hit :: "Instant \<Rightarrow> ToolCall \<Rightarrow> Rule \<Rightarrow> gate_state \<Rightarrow> string option \<times> gate_state" where
  "rule_hit earliest call r gs = (if ru_kind r = ToolBudget then budget_hit earliest r gs else (rule_matches r call, gs))"

fun eval_records :: "Instant \<Rightarrow> ToolCall \<Rightarrow> RuleScope \<Rightarrow> RuleRecord list \<Rightarrow> gate_state \<Rightarrow> Hit list \<times> gate_state" where
  "eval_records earliest call scope [] gs = ([], gs)"
| "eval_records earliest call scope (rec # recs) gs =
     (let (d, gs1) = rule_hit earliest call (rr_current rec) gs; (hits, gs2) = eval_records earliest call scope recs gs1 in
      ((case d of Some detail \<Rightarrow> [\<lparr>hi_rule = rr_current rec, hi_scope = scope, hi_detail = detail\<rparr>] | None \<Rightarrow> []) @ hits, gs2))"

fun eval_scopes :: "rules_env \<Rightarrow> Instant \<Rightarrow> ToolCall \<Rightarrow> RuleScope list \<Rightarrow> gate_state \<Rightarrow> (string + Hit list) \<times> gate_state" where
  "eval_scopes env earliest call [] gs = (Inr [], gs)"
| "eval_scopes env earliest call (scope # scopes) gs =
     (case load_scoped env scope (gs_rules gs) of
        (Inl e, w1) \<Rightarrow> (Inl (''rules unavailable: '' @ e), gs\<lparr>gs_rules := w1\<rparr>)
      | (Inr f, w1) \<Rightarrow>
          (let (hits, gs1) = eval_records earliest call scope (sort_key rr_id (file_active f)) (gs\<lparr>gs_rules := w1\<rparr>);
               (more, gs2) = eval_scopes env earliest call scopes gs1
           in (map_sum id (\<lambda>hs. hits @ hs) more, gs2)))"

definition evaluate :: "rules_env \<Rightarrow> Instant \<Rightarrow> ToolCall \<Rightarrow> gate_state \<Rightarrow> (string + Hit list) \<times> gate_state" where
  "evaluate env earliest call gs = eval_scopes env earliest call RULE_SCOPES gs"

section \<open>The gate\<close>

fun gate_hits :: "rules_env \<Rightarrow> Hit list \<Rightarrow> rules_world \<Rightarrow> (string + unit) \<times> rules_world" where
  "gate_hits env [] w = (Inr (), w)"
| "gate_hits env (h # hs) w =
     (case consume_grant env (ru_id (hi_rule h)) w of
        (Inr True, w1) \<Rightarrow> gate_hits env hs w1
      | (_, w1) \<Rightarrow> (Inl (refusal h), w1))"

definition gate_tool_call :: "rules_env \<Rightarrow> Instant \<Rightarrow> string \<Rightarrow> Json \<Rightarrow> gate_state \<Rightarrow> (string + unit) \<times> gate_state" where
  "gate_tool_call env earliest tool arguments gs =
     (case evaluate env earliest \<lparr>tc_tool = tool, tc_arguments = arguments\<rparr> gs of
        (Inl e, gs1) \<Rightarrow> (Inl e, gs1)
      | (Inr hits, gs1) \<Rightarrow>
          (case gate_hits env hits (gs_rules gs1) of (r, w) \<Rightarrow> (r, gs1\<lparr>gs_rules := w\<rparr>)))"

end
