(* ===== verification/Rule_Safety.thy ===== *)
theory Rule_Safety
  imports Rule_Gate
begin

text \<open>
  What the gate guarantees of one call and of an agent: exactly when an unusable rule file closes the
  gate, that a created rule binds the next call, and that through the rules surface an agent can
  tighten but not loosen durable rules.  The effect of a tool that is not a rules tool on the rule
  files is a parameter of the call; what a file tool can do to them is shown on an example.
\<close>

section \<open>Evaluation sees every active rule\<close>

lemma same_rules_trans: "same_rules a b \<Longrightarrow> same_rules b c \<Longrightarrow> same_rules a c"
  by (simp add: same_rules_def)

lemma same_rules_refl [simp]: "same_rules a a"
  by (simp add: same_rules_def)

lemma same_rules_content: "same_rules w w' \<Longrightarrow> content env w' = content env w"
  by (intro content_cong) (simp_all add: same_rules_def)

definition hits_of :: "ToolCall \<Rightarrow> RuleScope \<Rightarrow> RuleRecord list \<Rightarrow> Hit list \<Rightarrow> bool" where
  "hits_of call scope recs hits \<longleftrightarrow>
     (\<forall>rec\<in>set recs. \<forall>d. ru_kind (rr_current rec) \<noteq> ToolBudget \<longrightarrow> rule_matches (rr_current rec) call = Some d \<longrightarrow>
        \<lparr>hi_rule = rr_current rec, hi_scope = scope, hi_detail = d\<rparr> \<in> set hits)"

lemma budget_hit_rules: "gs_rules (snd (budget_hit earliest r gs)) = gs_rules gs"
  by (simp add: budget_hit_def Let_def split: prod.splits)

lemma rule_hit_rules: "rule_hit earliest call r gs = (d, gs1) \<Longrightarrow> gs_rules gs1 = gs_rules gs"
  using budget_hit_rules [of earliest r gs] by (auto simp: rule_hit_def split: if_splits)

lemma eval_records_spec:
  "eval_records earliest call scope recs gs = (hits, gs') \<Longrightarrow> gs_rules gs' = gs_rules gs \<and> hits_of call scope recs hits"
proof (induction recs arbitrary: gs hits gs')
  case (Cons rec recs)
  obtain d gs1 where d: "rule_hit earliest call (rr_current rec) gs = (d, gs1)" by (metis surj_pair)
  obtain hs gs2 where hs: "eval_records earliest call scope recs gs1 = (hs, gs2)" by (metis surj_pair)
  from Cons.IH [OF hs] Cons.prems d hs rule_hit_rules [OF d] show ?case
    by (auto simp: hits_of_def rule_hit_def split: option.splits)
qed (simp add: hits_of_def)

lemma eval_scopes_spec:
  assumes "coherent env (gs_rules gs)" "eval_scopes env earliest call scopes gs = (r, gs')"
  shows "coherent env (gs_rules gs') \<and> same_rules (gs_rules gs) (gs_rules gs')
    \<and> (\<forall>e. r = Inl e \<longrightarrow> (\<exists>s\<in>set scopes. \<exists>e'. content env (gs_rules gs) s = Inl e' \<and> e = ''rules unavailable: '' @ e'))
    \<and> (\<forall>hits. r = Inr hits \<longrightarrow> (\<forall>s\<in>set scopes. \<exists>f. content env (gs_rules gs) s = Inr f \<and> hits_of call s (file_active f) hits))"
  using assms
proof (induction scopes arbitrary: gs r gs')
  case (Cons s ss)
  obtain x w1 where l: "load_scoped env s (gs_rules gs) = (x, w1)" by (metis surj_pair)
  note ls = load_scoped_spec [OF Cons.prems(1) l]
  show ?case
  proof (cases x)
    case (Inl e)
    then have "r = Inl (''rules unavailable: '' @ e)" "gs' = gs\<lparr>gs_rules := w1\<rparr>" using Cons.prems(2) l by simp_all
    moreover have "content env (gs_rules gs) s = Inl e" using ls(1) Inl by simp
    ultimately show ?thesis using ls(2,3) by simp
  next
    case (Inr f)
    let ?gs = "gs\<lparr>gs_rules := w1\<rparr>"
    obtain hits gs1 where h: "eval_records earliest call s (sort_key rr_id (file_active f)) ?gs = (hits, gs1)" by (metis surj_pair)
    obtain more gs2 where m: "eval_scopes env earliest call ss gs1 = (more, gs2)" by (metis surj_pair)
    have g1: "gs_rules gs1 = w1" "hits_of call s (file_active f) hits"
      using eval_records_spec [OF h] by (auto simp: hits_of_def)
    have r: "r = map_sum id (\<lambda>hs. hits @ hs) more" "gs' = gs2" using Cons.prems(2) l Inr h m by simp_all
    note IH = Cons.IH [OF _ m, unfolded g1(1), OF ls(2)]
    have c: "content env w1 = content env (gs_rules gs)" by (rule ls(4))
    show ?thesis
    proof (intro conjI)
      show "coherent env (gs_rules gs')" using IH r by simp
      show "same_rules (gs_rules gs) (gs_rules gs')" using IH r ls(3) by (auto intro: same_rules_trans)
      show "\<forall>e. r = Inl e \<longrightarrow> (\<exists>s\<in>set (s # ss). \<exists>e'. content env (gs_rules gs) s = Inl e' \<and> e = ''rules unavailable: '' @ e')"
        using IH r(1) c by (cases more) auto
      show "\<forall>hits. r = Inr hits \<longrightarrow> (\<forall>s\<in>set (s # ss). \<exists>f. content env (gs_rules gs) s = Inr f \<and> hits_of call s (file_active f) hits)"
      proof (intro allI impI ballI)
        fix hs t
        assume hs: "r = Inr hs" and t: "t \<in> set (s # ss)"
        then obtain ms where ms: "more = Inr ms" "hs = hits @ ms" using r(1) by (cases more) auto
        show "\<exists>f. content env (gs_rules gs) t = Inr f \<and> hits_of call t (file_active f) hs"
        proof (cases "t = s")
          case True
          then have "content env (gs_rules gs) t = Inr f" using ls(1) Inr by simp
          moreover have "hits_of call t (file_active f) hs" using g1(2) ms(2) True by (auto simp: hits_of_def)
          ultimately show ?thesis by blast
        next
          case False
          with t IH ms(1) c obtain f' where "content env (gs_rules gs) t = Inr f'" "hits_of call t (file_active f') ms" by auto
          with ms(2) show ?thesis by (auto simp: hits_of_def)
        qed
      qed
    qed
  qed
qed auto

lemma all_scopes [simp]: "s \<in> set RULE_SCOPES"
  by (cases s) (simp_all add: RULE_SCOPES_def)

lemma evaluate_spec:
  assumes "coherent env (gs_rules gs)" "evaluate env earliest call gs = (r, gs')"
  shows "coherent env (gs_rules gs')" "same_rules (gs_rules gs) (gs_rules gs')"
    "\<And>e. r = Inl e \<Longrightarrow> \<exists>s e'. content env (gs_rules gs) s = Inl e' \<and> e = ''rules unavailable: '' @ e'"
    "\<And>hits. r = Inr hits \<Longrightarrow> \<exists>f. content env (gs_rules gs) s = Inr f \<and> hits_of call s (file_active f) hits"
  using eval_scopes_spec [OF assms(1) assms(2) [unfolded evaluate_def]] all_scopes by blast+

section \<open>Consuming a grant\<close>

text \<open>
  The three ways a look-up of a grant can end: a timed grant is live and nothing changes, an event
  grant is spent in the file it lives in, or no grant is used and nothing changes.
\<close>

definition consumption :: "rules_env \<Rightarrow> string \<Rightarrow> rules_world \<Rightarrow> string + bool \<Rightarrow> rules_world \<Rightarrow> bool" where
  "consumption env i w r w' \<longleftrightarrow>
     (\<exists>s f g now. r = Inr True \<and> content env w s = Inr f \<and> live_grant f i now = Some g
        \<and> (if bg_scope g = BypassEvent then content env w' = (content env w)(s := Inr (on_live_grant i now spend f))
           else content env w' = content env w))
     \<or> r \<noteq> Inr True \<and> content env w' = content env w"

lemma consumption_cong: "content env w1 = content env w \<Longrightarrow> consumption env i w1 r w' \<Longrightarrow> consumption env i w r w'"
  unfolding consumption_def by (simp only:)

lemma use_grant_spec:
  assumes "env_ok env" "coherent env w" "content env w s = Inr f" "live_grant f i now = Some g"
    and u: "use_grant env s i now g w = (r, w')"
  shows "coherent env w' \<and> consumption env i w r w'"
proof (cases "bg_scope g = BypassEvent")
  case True
  obtain r1 w1 where up: "update_scoped env s (spend_edit i now) w = (r1, w1)" by (metis surj_pair)
  note spec = update_scoped_spec [OF assms(1,2) up]
  have w': "w' = w1" "r = map_sum id (\<lambda>_. True) r1" using u True up by (simp_all add: use_grant_def)
  show ?thesis
  proof (cases r1)
    case (Inr x)
    have "f \<noteq> rule_file_default" using assms(4) by (auto simp: live_grant_def rule_file_default_def)
    with base_content(2) [OF assms(1,3)] have b: "base env w s = Inr f" .
    from spec(3) [OF Inr] b have "content env w1 s = Inr (on_live_grant i now spend f)" by (auto simp: spend_edit_def)
    with spec(2) have "content env w1 = (content env w)(s := Inr (on_live_grant i now spend f))" by (auto simp: fun_eq_iff)
    with spec(1) w' Inr True assms(3,4) show ?thesis unfolding consumption_def by auto
  next
    case (Inl e)
    from spec(4) [OF Inl] have "content env w1 s = content env w s" by (auto simp: spend_edit_def)
    with spec(2) have "content env w1 = content env w" by (metis ext)
    with spec(1) w' Inl show ?thesis by (simp add: consumption_def)
  qed
next
  case False
  then have "r = Inr True" "w' = w" using u by (simp_all add: use_grant_def)
  with False assms(2-4) show ?thesis by (auto simp: consumption_def)
qed

lemma consume_durable_spec:
  assumes "env_ok env"
  shows "coherent env w \<Longrightarrow> consume_durable env i now scopes w = (r, w') \<Longrightarrow> coherent env w' \<and> consumption env i w r w'"
proof (induction scopes arbitrary: w)
  case (Cons s ss)
  obtain x w1 where l: "load_scoped env s w = (x, w1)" by (metis surj_pair)
  note ls = load_scoped_spec [OF Cons.prems(1) l]
  show ?case
  proof (cases x)
    case (Inl e)
    then have "r = Inl e" "w' = w1" using Cons.prems(2) l by simp_all
    with ls(2,4) show ?thesis by (simp add: consumption_def)
  next
    case (Inr f)
    then have c: "content env w1 s = Inr f" using ls(1,4) by simp
    show ?thesis
    proof (cases "live_grant f i now")
      case None
      with Cons.prems(2) l Inr have "consume_durable env i now ss w1 = (r, w')" by simp
      from Cons.IH [OF ls(2) this] consumption_cong [OF ls(4)] show ?thesis by blast
    next
      case (Some g)
      with Cons.prems(2) l Inr have "use_grant env s i now g w1 = (r, w')" by simp
      from use_grant_spec [OF assms ls(2) c Some this] consumption_cong [OF ls(4)] show ?thesis by blast
    qed
  qed
qed (auto simp: consumption_def)

lemma coherent_time: "coherent env (w\<lparr>rw_time := ck\<rparr>) \<longleftrightarrow> coherent env w" "content env (w\<lparr>rw_time := ck\<rparr>) = content env w"
proof -
  show c: "content env (w\<lparr>rw_time := ck\<rparr>) = content env w" by (intro content_cong) simp_all
  show "coherent env (w\<lparr>rw_time := ck\<rparr>) \<longleftrightarrow> coherent env w" by (simp add: coherent_def c)
qed

lemma base_time: "base env (w\<lparr>rw_time := ck\<rparr>) = base env w"
  by (rule ext, cases w) (simp add: base_def read_for_update_def)

lemma consume_grant_spec:
  assumes "env_ok env" "coherent env w" "consume_grant env i w = (r, w')"
  shows "coherent env w' \<and> consumption env i w r w'"
proof -
  obtain now ck where t: "tick_secs (rw_time w) = (now, ck)" by (metis surj_pair)
  let ?w = "w\<lparr>rw_time := ck\<rparr>"
  have co: "coherent env ?w" using assms(2) by (simp add: coherent_time)
  have "coherent env w' \<and> consumption env i ?w r w'"
  proof (cases "live_grant (rw_task w) i now")
    case None
    with assms(3) t have "consume_durable env i now [ScopeWorkspace, ScopeGlobal] ?w = (r, w')" by (simp add: consume_grant_def)
    from consume_durable_spec [OF assms(1) co this] show ?thesis .
  next
    case (Some g)
    then have u: "use_grant env ScopeTask i now g ?w = (r, w')" using assms(3) t by (simp add: consume_grant_def)
    have "content env ?w ScopeTask = Inr (rw_task w)" by simp
    from use_grant_spec [OF assms(1) co this Some u] show ?thesis .
  qed
  with consumption_cong [OF coherent_time(2)] show ?thesis by blast
qed

text \<open>A property of files that spending respects survives the gate.\<close>

lemma consume_keeps:
  assumes "env_ok env" "coherent env w" "consume_grant env i w = (r, w')" "files_ok ok env w"
    and "\<And>f now. ok f \<Longrightarrow> ok (on_live_grant i now spend f)"
  shows "files_ok ok env w'"
  using consume_grant_spec [OF assms(1-3)] assms(4,5) unfolding consumption_def files_ok_def
  by (auto split: if_splits)

lemma gate_hits_spec:
  assumes "env_ok env"
  shows "coherent env w \<Longrightarrow> gate_hits env hits w = (r, w') \<Longrightarrow> coherent env w'
    \<and> (\<forall>ok. (\<forall>i f now. ok f \<longrightarrow> ok (on_live_grant i now spend f)) \<longrightarrow> files_ok ok env w \<longrightarrow> files_ok ok env w')"
proof (induction hits arbitrary: w)
  case (Cons h hs)
  obtain x w1 where c: "consume_grant env (ru_id (hi_rule h)) w = (x, w1)" by (metis surj_pair)
  note cs = consume_grant_spec [OF assms Cons.prems(1) c]
  have keep: "files_ok ok env w1" if "\<forall>i f now. ok f \<longrightarrow> ok (on_live_grant i now spend f)" "files_ok ok env w" for ok
    using consume_keeps [OF assms Cons.prems(1) c that(2)] that(1) by blast
  show ?case
  proof (cases "x = Inr True")
    case True
    with Cons.prems(2) c have "gate_hits env hs w1 = (r, w')" by simp
    from Cons.IH [OF conjunct1 [OF cs] this] keep show ?thesis by blast
  next
    case False
    then have "w' = w1" using Cons.prems(2) c by (auto split: sum.splits bool.splits)
    with cs keep show ?thesis by blast
  qed
qed simp

lemma gate_cases:
  assumes "gate_tool_call env earliest tool args gs = (r, gs')"
  obtains e where "evaluate env earliest \<lparr>tc_tool = tool, tc_arguments = args\<rparr> gs = (Inl e, gs')" "r = Inl e"
  | hits gs1 w where "evaluate env earliest \<lparr>tc_tool = tool, tc_arguments = args\<rparr> gs = (Inr hits, gs1)"
      "gate_hits env hits (gs_rules gs1) = (r, w)" "gs' = gs1\<lparr>gs_rules := w\<rparr>"
  using assms that by (auto simp: gate_tool_call_def split: prod.splits sum.splits)

lemma gate_spec:
  assumes "env_ok env" "coherent env (gs_rules gs)" "gate_tool_call env earliest tool args gs = (r, gs')"
  shows "coherent env (gs_rules gs')
    \<and> (\<forall>ok. (\<forall>i f now. ok f \<longrightarrow> ok (on_live_grant i now spend f)) \<longrightarrow> files_ok ok env (gs_rules gs) \<longrightarrow> files_ok ok env (gs_rules gs'))"
  using assms(3)
proof (cases rule: gate_cases)
  case (1 e)
  from evaluate_spec(1,2) [OF assms(2) 1(1)] show ?thesis by (simp add: files_ok_def same_rules_content)
next
  case (2 hits gs1 w)
  note ev = evaluate_spec(1,2) [OF assms(2) 2(1)]
  have "files_ok ok env (gs_rules gs1) = files_ok ok env (gs_rules gs)" for ok
    using ev(2) by (simp add: files_ok_def same_rules_content)
  with gate_hits_spec [OF assms(1) ev(1) 2(2)] 2(3) show ?thesis by simp
qed

section \<open>Fail closed\<close>

text \<open>
  A scope blocks every call when the metadata of its file can be read, the cache does not hold the
  file with that stamp, and the text cannot be read or parsed.
\<close>

definition blocked_scope :: "rules_env \<Rightarrow> rules_world \<Rightarrow> RuleScope \<Rightarrow> bool" where
  "blocked_scope env w s \<longleftrightarrow> s \<noteq> ScopeTask
     \<and> (case file_stamp (rw_files w s) of Some st \<Rightarrow> cached s st w = None | None \<Rightarrow> False)
     \<and> (case content env w s of Inl _ \<Rightarrow> True | Inr _ \<Rightarrow> False)"

lemma load_scoped_blocked:
  "load_scoped env s w = (x, w1) \<Longrightarrow> (\<exists>e. x = Inl e) \<longleftrightarrow> blocked_scope env w s"
  by (cases s; cases "rw_files w s")
    (auto simp: load_scoped_def load_file_def blocked_scope_def content_def split: option.splits sum.splits)

lemma load_scoped_stays:
  "load_scoped env s w = (x, w1) \<Longrightarrow> same_rules w w1 \<and> (\<forall>t. t \<noteq> s \<longrightarrow> rw_cache w1 t = rw_cache w t)"
  by (cases s; cases "rw_files w s")
    (auto simp: load_scoped_def load_file_def same_rules_def split: option.splits sum.splits)

lemma blocked_scope_cong:
  "same_rules w w1 \<Longrightarrow> rw_cache w1 t = rw_cache w t \<Longrightarrow> blocked_scope env w1 t = blocked_scope env w t"
proof -
  assume w1: "same_rules w w1" and c: "rw_cache w1 t = rw_cache w t"
  have "cached t st w1 = cached t st w" for st using c by (simp add: cached_def)
  moreover have "rw_files w1 = rw_files w" using w1 by (simp add: same_rules_def)
  ultimately show ?thesis by (simp add: blocked_scope_def same_rules_content [OF w1] split: option.split)
qed

text \<open>No coherence of the cache is assumed here.\<close>

lemma eval_scopes_blocked:
  assumes "eval_scopes env earliest call scopes gs = (r, gs')" "distinct scopes"
  shows "same_rules (gs_rules gs) (gs_rules gs') \<and> ((\<exists>e. r = Inl e) \<longleftrightarrow> (\<exists>s\<in>set scopes. blocked_scope env (gs_rules gs) s))
    \<and> (\<forall>e. r = Inl e \<longrightarrow> (\<exists>e'. e = ''rules unavailable: '' @ e'))"
  using assms
proof (induction scopes arbitrary: gs r gs')
  case (Cons s ss)
  obtain x w1 where l: "load_scoped env s (gs_rules gs) = (x, w1)" by (metis surj_pair)
  note st = load_scoped_stays [OF l] and bl = load_scoped_blocked [OF l]
  show ?case
  proof (cases x)
    case (Inl e)
    then have "r = Inl (''rules unavailable: '' @ e)" "gs' = gs\<lparr>gs_rules := w1\<rparr>" using Cons.prems(1) l by simp_all
    with Inl st bl show ?thesis by auto
  next
    case (Inr f)
    let ?gs = "gs\<lparr>gs_rules := w1\<rparr>"
    obtain hits gs1 where h: "eval_records earliest call s (sort_key rr_id (file_active f)) ?gs = (hits, gs1)" by (metis surj_pair)
    obtain more gs2 where m: "eval_scopes env earliest call ss gs1 = (more, gs2)" by (metis surj_pair)
    have g1: "gs_rules gs1 = w1" using eval_records_spec [OF h] by simp
    have r: "r = map_sum id (\<lambda>hs. hits @ hs) more" "gs' = gs2" using Cons.prems(1) l Inr h m by simp_all
    have d: "distinct ss" "s \<notin> set ss" using Cons.prems(2) by simp_all
    have same: "blocked_scope env w1 t = blocked_scope env (gs_rules gs) t" if "t \<in> set ss" for t
      using st that d(2) by (intro blocked_scope_cong) auto
    have not: "\<not> blocked_scope env (gs_rules gs) s" using bl Inr by simp
    note IH = Cons.IH [OF m d(1), unfolded g1]
    show ?thesis
    proof (intro conjI)
      show "same_rules (gs_rules gs) (gs_rules gs')" using IH r st by (auto intro: same_rules_trans)
      show "(\<exists>e. r = Inl e) \<longleftrightarrow> (\<exists>s\<in>set (s # ss). blocked_scope env (gs_rules gs) s)"
        using IH r(1) same not by (cases more) auto
      show "\<forall>e. r = Inl e \<longrightarrow> (\<exists>e'. e = ''rules unavailable: '' @ e')" using IH r(1) by (cases more) auto
    qed
  qed
qed simp

lemma evaluate_blocked:
  assumes "evaluate env earliest call gs = (r, gs')"
  shows "same_rules (gs_rules gs) (gs_rules gs')" "(\<exists>e. r = Inl e) \<longleftrightarrow> (\<exists>s. blocked_scope env (gs_rules gs) s)"
    "\<And>e. r = Inl e \<Longrightarrow> \<exists>e'. e = ''rules unavailable: '' @ e'"
proof -
  have "distinct RULE_SCOPES" by (simp add: RULE_SCOPES_def)
  note b = eval_scopes_blocked [OF assms [unfolded evaluate_def] this]
  then show "same_rules (gs_rules gs) (gs_rules gs')" "\<And>e. r = Inl e \<Longrightarrow> \<exists>e'. e = ''rules unavailable: '' @ e'" by blast+
  from b show "(\<exists>e. r = Inl e) \<longleftrightarrow> (\<exists>s. blocked_scope env (gs_rules gs) s)" using all_scopes by blast
qed

text \<open>
  C15. A rule file that is there but cannot be used closes the gate, under the two conditions the code
  puts on noticing it: when the metadata of the file of some durable scope can be read, the cache
  does not still hold the file with the same modification time and length, and its text cannot be
  read or parsed, every call is refused as unavailable, whatever the other rules and grants say, and
  no grant is spent.  These conditions are exact: without such a scope the evaluation of the rules
  does not fail.  So a file whose metadata cannot be read leaves the gate open
  (\<open>unreachable_file_opens_gate\<close>), and one that can no longer be read but keeps its stamp is answered
  from the cache (\<open>cached_file_hides_unreadable\<close>).
\<close>

theorem gate_fails_closed:
  assumes "gate_tool_call env earliest tool args gs = (r, gs')"
  shows "if \<exists>s. blocked_scope env (gs_rules gs) s
    then \<exists>e. r = Inl (''rules unavailable: '' @ e)
      \<and> rw_files (gs_rules gs') = rw_files (gs_rules gs) \<and> rw_task (gs_rules gs') = rw_task (gs_rules gs)
    else \<exists>hits. fst (evaluate env earliest \<lparr>tc_tool = tool, tc_arguments = args\<rparr> gs) = Inr hits"
proof -
  obtain x gs1 where ev: "evaluate env earliest \<lparr>tc_tool = tool, tc_arguments = args\<rparr> gs = (x, gs1)" by (metis surj_pair)
  note b = evaluate_blocked [OF ev]
  show ?thesis
  proof (cases x)
    case (Inl e)
    with assms ev have "r = Inl e" "gs' = gs1" by (simp_all add: gate_tool_call_def)
    with Inl b show ?thesis by (auto simp: same_rules_def)
  next
    case (Inr hits)
    with b(2) ev show ?thesis by simp
  qed
qed

definition demo_clock :: rules_clock where
  "demo_clock = \<lparr>ck_secs = (\<lambda>n. 1000 + of_nat n), ck_nanos = (\<lambda>n. 77 * of_nat n), ck_ticks = 0, ck_counter = 0\<rparr>"

definition demo_world :: "(RuleScope \<Rightarrow> rule_disk) \<Rightarrow> rules_world" where
  "demo_world files = \<lparr>rw_task = rule_file_default, rw_task_revision = 0, rw_files = files, rw_cache = (\<lambda>_. None),
     rw_disk = (\<lambda>n. WriteLands (of_nat n) True), rw_writes = 0, rw_time = demo_clock\<rparr>"

definition demo_gate :: "rules_world \<Rightarrow> gate_state" where
  "demo_gate w = \<lparr>gs_rules = w, gs_budgets = [], gs_instants = (\<lambda>n. int n), gs_reads = 0\<rparr>"

text \<open>An environment whose serializer knows one file, as far as the witnesses need it.\<close>

definition demo_env :: "RuleFile \<Rightarrow> rules_env" where
  "demo_env f = \<lparr>en_read = (\<lambda>raw. if raw = ''{}'' then Inr f else Inl ''expected value''),
     en_print = (\<lambda>g. if g = f then Inr ''{}'' else Inl ''unsupported''),
     en_path = (\<lambda>_. ''rules.json''), en_debug = (\<lambda>_. ''{}'')\<rparr>"

lemma demo_coherent: "coherent env (demo_world files)"
  by (simp add: coherent_def demo_world_def)

lemma demo_env_ok: "env_ok (demo_env f)"
proof -
  have "trim ''{}'' \<noteq> []" "starts_with ''{}'' ''{''" by code_simp+
  then show ?thesis by (auto simp: env_ok_def demo_env_def split: if_splits)
qed

theorem gate_fails_closed_witness:
  "\<exists>e. fst (gate_tool_call (demo_env rule_file_default) 0 ''read_file'' (JObj [])
     (demo_gate (demo_world (\<lambda>_. Stored (1, 8) ''{ broken'')))) = Inl (''rules unavailable: '' @ e)"
proof -
  let ?env = "demo_env rule_file_default" and ?gs = "demo_gate (demo_world (\<lambda>_. Stored (1, 8) ''{ broken''))"
  have b: "blocked_scope ?env (gs_rules ?gs) ScopeWorkspace" by code_simp
  obtain r gs' where g: "gate_tool_call ?env 0 ''read_file'' (JObj []) ?gs = (r, gs')" by (metis surj_pair)
  from gate_fails_closed [OF g] b have "\<exists>e. r = Inl (''rules unavailable: '' @ e)" by (auto split: if_splits)
  with g show ?thesis by simp
qed

text \<open>
  What the two conditions leave out.  A file whose metadata cannot be read holds no rules for the
  gate, whatever is in it; a file that lost its read permission keeps its stamp, and is answered from
  the cache.
\<close>

lemma unreachable_file_opens_gate:
  assumes "\<forall>s. rw_files (gs_rules gs) s = Unreachable e" "rw_task (gs_rules gs) = rule_file_default"
  shows "fst (gate_tool_call env earliest tool args gs) = Inr ()"
proof -
  have "load_scoped env s (gs_rules gs) = (Inr rule_file_default, gs_rules gs)" for s
    using assms by (cases s) (simp_all add: load_scoped_def load_file_def)
  moreover have "file_active rule_file_default = []" by (simp add: file_active_def rule_file_default_def)
  ultimately show ?thesis by (simp add: gate_tool_call_def evaluate_def RULE_SCOPES_def)
qed

lemma cached_file_hides_unreadable:
  "rw_files w s = Unreadable st e \<Longrightarrow> rw_cache w s = Some (st, f) \<Longrightarrow> s \<noteq> ScopeTask \<Longrightarrow> load_scoped env s w = (Inr f, w)"
  by (cases s) (simp_all add: load_scoped_def load_file_def cached_def)

section \<open>A created rule binds the next call\<close>

lemma prepare_verified: "rule_prepare dj r = Inr r' \<Longrightarrow> rule_verify dj r' = Inr () \<and> (\<exists>w. r' = r\<lparr>ru_witnesses := w\<rparr>)"
proof -
  assume p: "rule_prepare dj r = Inr r'"
  let ?x = "if ru_kind r \<noteq> ToolBudget \<and> ru_witnesses r = None
            then map_sum id (\<lambda>w. r\<lparr>ru_witnesses := Some w\<rparr>) (auto_witnesses r) else Inr r"
  obtain r1 where r1: "?x = Inr r1" "rule_verify dj r1 = Inr ()" "r1 = r'"
    using p unfolding rule_prepare_def by (cases ?x; cases "rule_verify dj (projr ?x)") auto
  moreover have "\<exists>w. r1 = r\<lparr>ru_witnesses := w\<rparr>" using r1(1) by (cases "auto_witnesses r") (auto split: if_splits intro: exI [of _ "ru_witnesses r"])
  ultimately show ?thesis by auto
qed

lemma verified_fires:
  "rule_verify dj r = Inr () \<Longrightarrow> ru_kind r \<noteq> ToolBudget \<Longrightarrow>
     \<exists>wit d. ru_witnesses r = Some wit \<and> rule_matches r (to_call (wi_deny wit)) = Some d \<and> rule_matches r (to_call (wi_allow wit)) = None"
  by (auto simp: rule_verify_def split: option.splits if_splits)

definition no_grant :: "string \<Rightarrow> RuleFile \<Rightarrow> bool" where
  "no_grant i f \<longleftrightarrow> (\<forall>g\<in>set (rf_grants f). bg_rule_id g \<noteq> i)"

lemma no_grant_spend: "no_grant i f \<Longrightarrow> no_grant i (on_live_grant j now spend f)"
proof -
  have "map bg_rule_id (rf_grants (on_live_grant j now spend f)) = map bg_rule_id (rf_grants f)"
    unfolding on_live_grant_def by (simp add: map_update_first [where g = bg_rule_id] spend_def)
  moreover have "no_grant i h \<longleftrightarrow> i \<notin> set (map bg_rule_id (rf_grants h))" for h by (auto simp: no_grant_def)
  ultimately show "no_grant i f \<Longrightarrow> no_grant i (on_live_grant j now spend f)" by (simp only: not_False_eq_True)
qed

lemma gate_hits_refused:
  assumes "env_ok env"
  shows "coherent env w \<Longrightarrow> files_ok (no_grant i) env w \<Longrightarrow> h \<in> set hits \<Longrightarrow> ru_id (hi_rule h) = i \<Longrightarrow>
    \<exists>e. fst (gate_hits env hits w) = Inl e"
proof (induction hits arbitrary: w)
  case (Cons k hs)
  obtain x w1 where c: "consume_grant env (ru_id (hi_rule k)) w = (x, w1)" by (metis surj_pair)
  note cs = consume_grant_spec [OF assms Cons.prems(1) c]
  show ?case
  proof (cases "x = Inr True")
    case True
    then obtain s f g now where "content env w s = Inr f" "live_grant f (ru_id (hi_rule k)) now = Some g"
      using cs by (auto simp: consumption_def)
    with Cons.prems(2,4) have "k \<noteq> h" by (auto simp: files_ok_def no_grant_def dest: live_grant_Some)
    then have "h \<in> set hs" using Cons.prems(3) by simp
    moreover have "files_ok (no_grant i) env w1" using consume_keeps [OF assms Cons.prems(1) c Cons.prems(2) no_grant_spend] .
    ultimately show ?thesis using Cons.IH [of w1] cs Cons.prems(4) c True by simp
  next
    case False
    with c show ?thesis by (auto split: sum.splits bool.splits)
  qed
qed simp

interpretation insert_grants: file_edit "insert_edit scope r" True "no_grant i" for scope r i
  by unfold_locales (auto simp: insert_edit_def no_grant_def rule_file_default_def split: if_splits)

lemma create_spec:
  assumes "env_ok env" "coherent env w" "create_rule env req w = (Inr r, w1)"
  obtains f0 ck where "rule_verify (en_debug env) r = Inr ()" "ru_kind r = nr_kind req" "coherent env w1"
    "update_scoped env (nr_scope req) (insert_edit (nr_scope req) r) (w\<lparr>rw_time := ck\<rparr>) = (Inr (), w1)"
    "content env w1 (nr_scope req) = Inr (f0\<lparr>rf_rules := rf_rules f0 @ [record_new (nr_scope req) r]\<rparr>)"
    "base env w (nr_scope req) = Inr f0" "\<And>s. s \<noteq> nr_scope req \<Longrightarrow> content env w1 s = content env w s"
proof -
  obtain now ck1 where t: "tick_secs (rw_time w) = (now, ck1)" by (metis surj_pair)
  obtain i ck2 where n: "new_rule_id ck1 = (i, ck2)" by (metis surj_pair)
  let ?w = "w\<lparr>rw_time := ck2\<rparr>"
  have p: "rule_prepare (en_debug env) (new_rule req i now) = Inr r"
    and up: "update_scoped env (nr_scope req) (insert_edit (nr_scope req) r) ?w = (Inr (), w1)"
    using assms(3) t n unfolding create_rule_def by (auto simp: Let_def split: if_splits sum.splits)
  have co: "coherent env ?w" using assms(2) by (simp add: coherent_time)
  note spec = update_scoped_spec [OF assms(1) co up]
  from spec(3) [OF refl] obtain f0 f ck where f: "base env ?w (nr_scope req) = Inr f0"
    "insert_edit (nr_scope req) r f0 (rw_time ?w) = (Inr (), f, ck)" "content env w1 (nr_scope req) = Inr f" by blast
  have b: "base env w (nr_scope req) = Inr f0" using f(1) by (simp only: base_time)
  have "f = f0\<lparr>rf_rules := rf_rules f0 @ [record_new (nr_scope req) r]\<rparr>" using f(2) by (auto simp: insert_edit_def split: if_splits)
  then have c: "content env w1 (nr_scope req) = Inr (f0\<lparr>rf_rules := rf_rules f0 @ [record_new (nr_scope req) r]\<rparr>)" using f(3) by simp
  have k: "rule_verify (en_debug env) r = Inr ()" "ru_kind r = nr_kind req" using prepare_verified [OF p] by (auto simp: new_rule_def)
  have o: "content env w1 s = content env w s" if "s \<noteq> nr_scope req" for s using spec(2) [OF that] by (simp add: coherent_time(2))
  show thesis by (rule that [OF k spec(1) up c b o])
qed

text \<open>
  C9. A created rule binds the next call.  Once a rule that is not a budget has been created in any
  scope, the gate refuses the call of its deny witness, in whatever order the rules are evaluated
  and whatever bypass grants other rules have, unless a grant for the very id of the rule exists.
\<close>

theorem created_rule_binds:
  assumes "env_ok env" "coherent env w" "create_rule env req w = (Inr r, gs_rules gs)" "nr_kind req \<noteq> ToolBudget"
    and "files_ok (no_grant (ru_id r)) env w"
  shows "\<exists>wit e. ru_witnesses r = Some wit
    \<and> fst (gate_tool_call env earliest (wc_tool (wi_deny wit)) (wc_arguments (wi_deny wit)) gs) = Inl e"
proof -
  obtain f0 ck where c: "rule_verify (en_debug env) r = Inr ()" "ru_kind r = nr_kind req" "coherent env (gs_rules gs)"
    "update_scoped env (nr_scope req) (insert_edit (nr_scope req) r) (w\<lparr>rw_time := ck\<rparr>) = (Inr (), gs_rules gs)"
    "content env (gs_rules gs) (nr_scope req) = Inr (f0\<lparr>rf_rules := rf_rules f0 @ [record_new (nr_scope req) r]\<rparr>)"
    using create_spec [OF assms(1-3)] by metis
  obtain wit d where wit: "ru_witnesses r = Some wit" "rule_matches r (to_call (wi_deny wit)) = Some d"
    using verified_fires [OF c(1)] c(2) assms(4) by auto
  have ng: "files_ok (no_grant (ru_id r)) env (gs_rules gs)"
    using insert_grants.update_keeps [OF assms(1) _ _ _ c(4), of "ru_id r"] assms(2,5) by (simp add: coherent_time files_ok_def)
  obtain x gs1 where ev: "evaluate env earliest (to_call (wi_deny wit)) gs = (x, gs1)" by (metis surj_pair)
  note es = evaluate_spec [OF c(3) ev]
  have "\<exists>e. fst (gate_tool_call env earliest (wc_tool (wi_deny wit)) (wc_arguments (wi_deny wit)) gs) = Inl e"
  proof (cases x)
    case (Inl e)
    with ev show ?thesis by (simp add: gate_tool_call_def to_call_def)
  next
    case (Inr hits)
    have "record_new (nr_scope req) r \<in> set (file_active (f0\<lparr>rf_rules := rf_rules f0 @ [record_new (nr_scope req) r]\<rparr>))"
      by (simp add: file_active_def record_is_active_def record_new_def)
    with es(4) [OF Inr, of "nr_scope req"] c(2,5) assms(4) wit(2)
    have "\<lparr>hi_rule = r, hi_scope = nr_scope req, hi_detail = d\<rparr> \<in> set hits"
      by (auto simp: hits_of_def record_new_def)
    moreover have "files_ok (no_grant (ru_id r)) env (gs_rules gs1)" using ng es(2) by (simp add: files_ok_def same_rules_content)
    ultimately obtain e where "fst (gate_hits env hits (gs_rules gs1)) = Inl e"
      using gate_hits_refused [OF assms(1) es(1)] by (metis Hit.select_convs(1))
    with ev Inr show ?thesis
      by (cases "gate_hits env hits (gs_rules gs1)") (simp add: gate_tool_call_def to_call_def)
  qed
  with wit(1) show ?thesis by blast
qed

definition demo_request :: NewRule where
  "demo_request = \<lparr>nr_name = ''no-shell'', nr_description = ''Shell is off limits here.'', nr_kind = ToolBan,
     nr_params = [(''tools'', PList [''run_command''])], nr_scope = ScopeWorkspace, nr_remedy = None, nr_witnesses = None,
     nr_owner = AGENT, nr_provenance = ''turn 7''\<rparr>"

definition demo_created :: Rule where
  "demo_created = (new_rule demo_request (rule_id_of 0 77) 1000)\<lparr>ru_witnesses :=
     Some \<lparr>wi_allow = \<lparr>wc_tool = ''read_file'', wc_arguments = JObj []\<rparr>, wi_deny = \<lparr>wc_tool = ''run_command'', wc_arguments = JObj []\<rparr>\<rparr>\<rparr>"

definition demo_file :: RuleFile where
  "demo_file = rule_file_default\<lparr>rf_rules := [record_new ScopeWorkspace demo_created]\<rparr>"

lemma demo_create: "fst (create_rule (demo_env demo_file) demo_request (demo_world (\<lambda>_. Absent))) = Inr demo_created"
  by code_simp

theorem created_rule_binds_witness:
  "\<exists>w e. create_rule (demo_env demo_file) demo_request (demo_world (\<lambda>_. Absent)) = (Inr demo_created, w)
     \<and> fst (gate_tool_call (demo_env demo_file) 0 ''run_command'' (JObj []) (demo_gate w)) = Inl e"
proof -
  obtain w where w: "create_rule (demo_env demo_file) demo_request (demo_world (\<lambda>_. Absent)) = (Inr demo_created, gs_rules (demo_gate w))"
    using demo_create by (cases "create_rule (demo_env demo_file) demo_request (demo_world (\<lambda>_. Absent))") (auto simp: demo_gate_def)
  have k: "nr_kind demo_request \<noteq> ToolBudget" by (simp add: demo_request_def)
  have "content (demo_env demo_file) (demo_world (\<lambda>_. Absent)) s = Inr rule_file_default" for s
    by (cases s) (simp_all add: content_def demo_world_def)
  then have "files_ok (no_grant (ru_id demo_created)) (demo_env demo_file) (demo_world (\<lambda>_. Absent))"
    by (simp add: files_ok_def no_grant_def rule_file_default_def)
  from created_rule_binds [OF demo_env_ok demo_coherent w k this] w show ?thesis
    by (auto simp: demo_gate_def demo_created_def)
qed

section \<open>An agent cannot loosen durable rules\<close>

text \<open>
  A file that was only tightened: rules and pending requests were added at the end, and grants may
  have been spent.
\<close>

definition tightened :: "RuleFile \<Rightarrow> RuleFile \<Rightarrow> bool" where
  "tightened f f' \<longleftrightarrow> (\<exists>extra. rf_rules f' = rf_rules f @ extra)
     \<and> list_all2 (\<lambda>g g'. g' = g \<or> g' = spend g) (rf_grants f) (rf_grants f')
     \<and> (\<exists>more. rf_requests f' = rf_requests f @ more \<and> list_all (\<lambda>q. cr_status q = RqPending) more)"

definition durable_tight :: "rules_env \<Rightarrow> rules_world \<Rightarrow> rules_world \<Rightarrow> bool" where
  "durable_tight env w w' \<longleftrightarrow>
     (\<forall>s f. s \<noteq> ScopeTask \<longrightarrow> content env w s = Inr f \<longrightarrow> (\<exists>f'. content env w' s = Inr f' \<and> tightened f f'))"

lemma tightened_refl [simp]: "tightened f f"
  by (auto simp: tightened_def intro: list_all2_refl)

lemma tightened_trans: "tightened a b \<Longrightarrow> tightened b c \<Longrightarrow> tightened a c"
proof -
  assume ab: "tightened a b" and bc: "tightened b c"
  let ?R = "\<lambda>g g'. g' = g \<or> g' = spend g"
  have step: "?R x y \<Longrightarrow> ?R y z \<Longrightarrow> ?R x z" for x y z by (auto simp: spend_def)
  have "list_all2 ?R (rf_grants a) (rf_grants b)" "list_all2 ?R (rf_grants b) (rf_grants c)"
    using ab bc by (simp_all add: tightened_def)
  from list_all2_trans [OF step this] ab bc show ?thesis by (auto simp: tightened_def)
qed

lemma durable_tight_content: "content env w' = content env w \<Longrightarrow> durable_tight env w w'"
  by (auto simp: durable_tight_def)

lemma durable_tight_trans: "durable_tight env a b \<Longrightarrow> durable_tight env b c \<Longrightarrow> durable_tight env a c"
  unfolding durable_tight_def by (meson tightened_trans)

lemma spend_tightens: "tightened f (on_live_grant i now spend f)"
proof -
  have "list_all2 (\<lambda>g g'. g' = g \<or> g' = spend g) gs (update_first P spend gs)" for P gs
    by (induction gs) (auto intro: list_all2_refl)
  then show ?thesis by (auto simp: tightened_def on_live_grant_def)
qed

lemma insert_tightens: "insert_edit scope r f ck = (Inr x, f', ck') \<Longrightarrow> tightened f f'"
  by (auto simp: insert_edit_def tightened_def intro: list_all2_refl split: if_splits)

lemma request_tightens: "cr_status q = RqPending \<Longrightarrow> request_edit i q f ck = (Inr x, f', ck') \<Longrightarrow> tightened f f'"
  by (auto simp: request_edit_def tightened_def intro: list_all2_refl split: if_splits)

lemma update_tightens:
  assumes "env_ok env" "coherent env w" "update_scoped env scope edit w = (r, w')"
    and "scope = ScopeTask \<or> (\<forall>f ck x f' ck'. edit f ck = (Inr x, f', ck') \<longrightarrow> tightened f f')"
  shows "coherent env w' \<and> durable_tight env w w'"
proof -
  note spec = update_scoped_spec [OF assms(1-3)]
  have "\<exists>f'. content env w' s = Inr f' \<and> tightened f f'" if s: "s \<noteq> ScopeTask" and c: "content env w s = Inr f" for s f
  proof (cases "s = scope")
    case False
    with spec(2) c show ?thesis by auto
  next
    case True
    show ?thesis
    proof (cases r)
      case (Inl e)
      with spec(4) [OF Inl] c True s show ?thesis by auto
    next
      case (Inr x)
      from spec(3) [OF Inr] obtain f0 f' ck
        where e: "base env w scope = Inr f0" "edit f0 (rw_time w) = (Inr x, f', ck)" "content env w' scope = Inr f'" by blast
      have "f0 = f" using base_content(1) [OF assms(1) c] e(1) True by simp
      with e True have "edit f (rw_time w) = (Inr x, f', ck)" "content env w' s = Inr f'" by simp_all
      with assms(4) True s show ?thesis by blast
    qed
  qed
  with spec(1) show ?thesis by (simp add: durable_tight_def)
qed

lemma find_scope_spec:
  "coherent env w \<Longrightarrow> find_scope env P missing scopes w = (r, w') \<Longrightarrow> coherent env w' \<and> content env w' = content env w"
proof (induction scopes arbitrary: w)
  case (Cons s ss)
  obtain x w1 where l: "load_scoped env s w = (x, w1)" by (metis surj_pair)
  note ls = load_scoped_spec [OF Cons.prems(1) l]
  from Cons.prems(2) l ls(2,4) Cons.IH [OF ls(2)] show ?case by (cases x) (auto split: if_splits)
qed simp

lemma file_request_tightens:
  assumes "env_ok env" "coherent env w" "file_request env scope i action actor reason w = (r, w')"
  shows "coherent env w' \<and> durable_tight env w w'"
proof -
  obtain j ck1 where j: "new_request_id (rw_time w) = (j, ck1)" by (metis surj_pair)
  obtain now ck2 where t: "tick_secs ck1 = (now, ck2)" by (metis surj_pair)
  let ?q = "\<lparr>cr_id = j, cr_rule_id = i, cr_scope = scope, cr_action = action, cr_requested_by = actor,
    cr_reason = trim reason, cr_created_at = now, cr_status = RqPending, cr_decided_by = None, cr_decided_at = None\<rparr>"
  obtain r1 w1 where u: "update_scoped env scope (request_edit i ?q) (w\<lparr>rw_time := ck2\<rparr>) = (r1, w1)" by (metis surj_pair)
  have "w' = w1" using assms(3) j t u by (simp add: file_request_def)
  moreover have "\<forall>f ck x f' ck'. request_edit i ?q f ck = (Inr x, f', ck') \<longrightarrow> tightened f f'"
    by (intro allI impI) (erule request_tightens [rotated], simp)
  moreover have "coherent env (w\<lparr>rw_time := ck2\<rparr>)" using assms(2) by (simp add: coherent_time)
  ultimately have "coherent env w' \<and> durable_tight env (w\<lparr>rw_time := ck2\<rparr>) w'"
    using update_tightens [OF assms(1) _ u] by blast
  then show ?thesis by (simp add: durable_tight_def coherent_time)
qed

lemma agent_change_tightens:
  assumes "env_ok env" "coherent env w" "change env i action AGENT reason edit w = (r, w')"
  shows "coherent env w' \<and> durable_tight env w w'"
proof -
  obtain x w1 where f: "find_rule_scope env i w = (x, w1)" by (metis surj_pair)
  have fs: "coherent env w1" "content env w1 = content env w"
    using find_scope_spec [OF assms(2) f [unfolded find_rule_scope_def]] by simp_all
  then have same: "durable_tight env w w1" by (simp add: durable_tight_content)
  show ?thesis
  proof (cases x)
    case (Inl e)
    with assms(3) f fs same show ?thesis by (simp add: change_def)
  next
    case (Inr scope)
    show ?thesis
    proof (cases "scope = ScopeTask")
      case False
      obtain r2 w2 where q: "file_request env scope i action AGENT reason w1 = (r2, w2)" by (metis surj_pair)
      then have "w' = w2" using assms(3) f Inr False by (simp add: change_def may_apply_immediately_def)
      with file_request_tightens [OF assms(1) fs(1) q] same show ?thesis by (auto intro: durable_tight_trans)
    next
      case True
      obtain r2 w2 where u: "update_scoped env scope edit w1 = (r2, w2)" by (metis surj_pair)
      then have "w' = w2" using assms(3) f Inr True by (simp add: change_def may_apply_immediately_def)
      with update_tightens [OF assms(1) fs(1) u] True same show ?thesis by (auto intro: durable_tight_trans)
    qed
  qed
qed

lemma agent_bypass_tightens:
  assumes "env_ok env" "coherent env w" "bypass_rule env i spec AGENT w = (r, w')"
  shows "coherent env w' \<and> durable_tight env w w'"
proof -
  obtain x w1 where f: "find_rule_scope env i w = (x, w1)" by (metis surj_pair)
  have fs: "coherent env w1" "content env w1 = content env w"
    using find_scope_spec [OF assms(2) f [unfolded find_rule_scope_def]] by simp_all
  then have same: "durable_tight env w w1" by (simp add: durable_tight_content)
  have refl: "durable_tight env w w" by (simp add: durable_tight_content)
  consider "w' = w" | "w' = w1" | scope r2 where "x = Inr scope" "file_request env scope i (Bypass spec) AGENT ''bypass requested'' w1 = (r2, w')"
    | g ck r2 where "update_scoped env ScopeTask (grant_edit i g) (w1\<lparr>rw_time := ck\<rparr>) = (r2, w')"
    using assms(3) f
    by (auto simp: bypass_rule_def may_apply_immediately_def dest!: map_resultD split: if_splits sum.splits prod.splits)
  then show ?thesis
  proof cases
    case 1
    with assms(2) refl show ?thesis by simp
  next
    case 2
    with fs same show ?thesis by simp
  next
    case (3 scope r2)
    from file_request_tightens [OF assms(1) fs(1) 3(2)] same show ?thesis by (auto intro: durable_tight_trans)
  next
    case (4 g ck r2)
    have "coherent env (w1\<lparr>rw_time := ck\<rparr>)" using fs(1) by (simp add: coherent_time)
    from update_tightens [OF assms(1) this 4] have "coherent env w' \<and> durable_tight env (w1\<lparr>rw_time := ck\<rparr>) w'" by simp
    with same show ?thesis by (auto simp: durable_tight_def coherent_time fs(2))
  qed
qed

lemma agent_create_tightens:
  assumes "env_ok env" "coherent env w" "create_rule env req w = (r, w')"
  shows "coherent env w' \<and> durable_tight env w w'"
proof -
  have refl: "coherent env (w\<lparr>rw_time := ck\<rparr>) \<and> durable_tight env w (w\<lparr>rw_time := ck\<rparr>)" for ck
    using assms(2) by (simp add: coherent_time durable_tight_content)
  consider "w' = w" | ck where "w' = w\<lparr>rw_time := ck\<rparr>"
    | ck ru r2 where "update_scoped env (nr_scope req) (insert_edit (nr_scope req) ru) (w\<lparr>rw_time := ck\<rparr>) = (r2, w')"
    using assms(3) by (auto simp: create_rule_def Let_def dest!: map_resultD split: if_splits sum.splits prod.splits)
  then show ?thesis
  proof cases
    case (3 ck ru r2)
    from update_tightens [OF assms(1) _ 3] refl [of ck] insert_tightens
    have "coherent env w' \<and> durable_tight env (w\<lparr>rw_time := ck\<rparr>) w'" by blast
    with refl [of ck] show ?thesis by (auto intro: durable_tight_trans)
  qed (use assms(2) refl in \<open>auto simp: durable_tight_content\<close>)
qed

lemma gate_hits_tightens:
  assumes "env_ok env"
  shows "coherent env w \<Longrightarrow> gate_hits env hits w = (r, w') \<Longrightarrow> durable_tight env w w'"
proof (induction hits arbitrary: w)
  case (Cons h hs)
  obtain x w1 where c: "consume_grant env (ru_id (hi_rule h)) w = (x, w1)" by (metis surj_pair)
  note cs = consume_grant_spec [OF assms Cons.prems(1) c]
  have one: "durable_tight env w w1"
    using cs spend_tightens unfolding consumption_def durable_tight_def by (auto split: if_splits)
  show ?case
  proof (cases "x = Inr True")
    case True
    with Cons.prems(2) c have "gate_hits env hs w1 = (r, w')" by simp
    from Cons.IH [OF _ this] cs one show ?thesis by (blast intro: durable_tight_trans)
  next
    case False
    then have "w' = w1" using Cons.prems(2) c by (auto split: sum.splits bool.splits)
    with one show ?thesis by simp
  qed
qed (simp add: durable_tight_content)

lemma gate_tightens:
  assumes "env_ok env" "coherent env (gs_rules gs)" "gate_tool_call env earliest tool args gs = (r, gs')"
  shows "coherent env (gs_rules gs') \<and> durable_tight env (gs_rules gs) (gs_rules gs')"
  using assms(3)
proof (cases rule: gate_cases)
  case (1 e)
  from evaluate_spec(1,2) [OF assms(2) 1(1)] show ?thesis by (simp add: durable_tight_content same_rules_content)
next
  case (2 hits gs1 w)
  note ev = evaluate_spec(1,2) [OF assms(2) 2(1)]
  from gate_hits_tightens [OF assms(1) ev(1) 2(2)] gate_hits_spec [OF assms(1) ev(1) 2(2)] ev(2) 2(3)
  show ?thesis by (simp add: durable_tight_def same_rules_content)
qed

text \<open>
  What an agent can do: call a tool.  The gate is asked first, and the tool runs only when the call is
  let through.  What it does is one of the four tools of the rules surface, on a request read from the
  arguments and with \<open>AGENT\<close> as the actor, or the effect of any other tool on the rule files, which
  lie in the file system like others; that effect is a parameter of the call.  The policy gate and the
  hooks, which run around this gate, can only veto a call.
\<close>

datatype agent_tool =
    ToolCreate NewRule
  | ToolAdjust string RulePatch string
  | ToolRetire string string
  | ToolBypass string BypassSpec
  | ToolOther "(RuleScope \<Rightarrow> rule_disk) \<Rightarrow> RuleScope \<Rightarrow> rule_disk"

record agent_call =
  ac_tool :: string
  ac_arguments :: Json
  ac_runs :: agent_tool

fun run_tool :: "rules_env \<Rightarrow> agent_tool \<Rightarrow> rules_world \<Rightarrow> rules_world" where
  "run_tool env (ToolCreate req) w = snd (create_rule env req w)"
| "run_tool env (ToolAdjust i patch reason) w = snd (adjust_rule env i patch AGENT reason w)"
| "run_tool env (ToolRetire i reason) w = snd (retire_rule env i AGENT reason w)"
| "run_tool env (ToolBypass i spec) w = snd (bypass_rule env i spec AGENT w)"
| "run_tool env (ToolOther effect) w = w\<lparr>rw_files := effect (rw_files w)\<rparr>"

definition agent_exec :: "rules_env \<Rightarrow> Instant \<Rightarrow> agent_call \<Rightarrow> gate_state \<Rightarrow> gate_state" where
  "agent_exec env earliest c gs =
     (case gate_tool_call env earliest (ac_tool c) (ac_arguments c) gs of
        (Inl e, gs1) \<Rightarrow> gs1
      | (Inr _, gs1) \<Rightarrow> gs1\<lparr>gs_rules := run_tool env (ac_runs c) (gs_rules gs1)\<rparr>)"

fun leaves_rule_files :: "agent_tool \<Rightarrow> bool" where
  "leaves_rule_files (ToolOther effect) \<longleftrightarrow> (\<forall>files. effect files = files)"
| "leaves_rule_files _ \<longleftrightarrow> True"

lemma run_tool_tightens:
  assumes "env_ok env" "coherent env w" "leaves_rule_files t"
  shows "coherent env (run_tool env t w) \<and> durable_tight env w (run_tool env t w)"
proof (cases t)
  case (ToolCreate req)
  with agent_create_tightens [OF assms(1,2), of req] show ?thesis by simp (metis prod.collapse)
next
  case (ToolAdjust i patch reason)
  then show ?thesis using agent_change_tightens [OF assms(1,2)] by (simp add: adjust_rule_def) (metis prod.collapse)
next
  case (ToolRetire i reason)
  then show ?thesis using agent_change_tightens [OF assms(1,2)] by (simp add: retire_rule_def) (metis prod.collapse)
next
  case (ToolBypass i spec)
  then show ?thesis using agent_bypass_tightens [OF assms(1,2)] by simp (metis prod.collapse)
next
  case (ToolOther effect)
  with assms(3) have "run_tool env t w = w" by simp
  with assms(2) show ?thesis by (simp add: durable_tight_content)
qed

lemma agent_exec_tightens:
  assumes "env_ok env" "coherent env (gs_rules gs)" "leaves_rule_files (ac_runs c)"
  shows "coherent env (gs_rules (agent_exec env earliest c gs)) \<and> durable_tight env (gs_rules gs) (gs_rules (agent_exec env earliest c gs))"
proof -
  obtain r gs1 where g: "gate_tool_call env earliest (ac_tool c) (ac_arguments c) gs = (r, gs1)" by (metis surj_pair)
  note t = gate_tightens [OF assms(1,2) g]
  show ?thesis
  proof (cases r)
    case (Inl e)
    with g t show ?thesis by (simp add: agent_exec_def)
  next
    case (Inr u)
    with g have "gs_rules (agent_exec env earliest c gs) = run_tool env (ac_runs c) (gs_rules gs1)" by (simp add: agent_exec_def)
    with t run_tool_tightens [OF assms(1) conjunct1 [OF t] assms(3)] show ?thesis by (auto intro: durable_tight_trans)
  qed
qed

text \<open>
  C3. Through the rules surface an agent can only tighten durable rules.  Let the cache of the process
  agree with the files it has read.  After any sequence of calls by an agent, each passing the gate first and then creating, adjusting, retiring or bypassing a rule
  or running any other tool that does not itself write the rule files, each durable rule file that
  could be loaded still can, holds all its rules in place with the versions and the retirement marks
  they had, has no grant it did not have before, and gained only rules and pending requests.  The
  condition on the other tools is needed: the file tools may write the rule file of the workspace
  (\<open>delete_file_drops_rules\<close>).
\<close>

theorem agent_cannot_loosen:
  assumes "env_ok env" "coherent env (gs_rules gs)" "s \<noteq> ScopeTask" "content env (gs_rules gs) s = Inr f"
    and "list_all (\<lambda>c. leaves_rule_files (ac_runs c)) calls"
  shows "\<exists>f' extra more. content env (gs_rules (fold (agent_exec env earliest) calls gs)) s = Inr f'
    \<and> rf_rules f' = rf_rules f @ extra
    \<and> list_all2 (\<lambda>g g'. g' = g \<or> g' = g\<lparr>bg_uses_left := Some 0\<rparr>) (rf_grants f) (rf_grants f')
    \<and> rf_requests f' = rf_requests f @ more \<and> list_all (\<lambda>q. cr_status q = RqPending) more"
proof -
  have "coherent env (gs_rules gs) \<Longrightarrow> durable_tight env (gs_rules gs) (gs_rules (fold (agent_exec env earliest) calls gs))" for gs
    using assms(5)
  proof (induction calls arbitrary: gs)
    case (Cons c calls)
    from Cons.prems(2) have l: "leaves_rule_files (ac_runs c)" "list_all (\<lambda>c. leaves_rule_files (ac_runs c)) calls" by simp_all
    note t = agent_exec_tightens [OF assms(1) Cons.prems(1) l(1), of earliest]
    from Cons.IH [OF conjunct1 [OF t] l(2)] t show ?case by (auto intro: durable_tight_trans)
  qed (simp add: durable_tight_content)
  from this [OF assms(2)] assms(3,4) show ?thesis unfolding durable_tight_def tightened_def spend_def by blast
qed

definition demo_retire :: agent_call where
  "demo_retire = \<lparr>ac_tool = ''rule_retire'', ac_arguments = JObj [], ac_runs = ToolRetire ''rule-0000004d'' ''in the way''\<rparr>"

definition demo_shell :: agent_call where
  "demo_shell = \<lparr>ac_tool = ''run_command'', ac_arguments = JObj [], ac_runs = ToolOther (\<lambda>files. files)\<rparr>"

lemma demo_content:
  "content (demo_env demo_file) (gs_rules (demo_gate (demo_world (\<lambda>_. Stored (1, 2) ''{}'')))) ScopeWorkspace = Inr demo_file"
proof -
  have "strip_bom ''{}'' = ''{}''" by code_simp
  then show ?thesis by (simp add: content_def demo_gate_def demo_world_def parse_rules_def demo_env_def)
qed

theorem agent_cannot_loosen_witness:
  "\<exists>f' extra. content (demo_env demo_file)
       (gs_rules (fold (agent_exec (demo_env demo_file) 0) [demo_retire, demo_shell]
         (demo_gate (demo_world (\<lambda>_. Stored (1, 2) ''{}''))))) ScopeWorkspace = Inr f'
     \<and> rf_rules f' = record_new ScopeWorkspace demo_created # extra"
proof -
  let ?gs = "demo_gate (demo_world (\<lambda>_. Stored (1, 2) ''{}''))"
  have c: "coherent (demo_env demo_file) (gs_rules ?gs)" using demo_coherent by (simp add: demo_gate_def)
  have l: "list_all (\<lambda>c. leaves_rule_files (ac_runs c)) [demo_retire, demo_shell]" by (simp add: demo_retire_def demo_shell_def)
  from agent_cannot_loosen [OF demo_env_ok c _ demo_content l, of 0]
  show ?thesis by (auto simp: demo_file_def)
qed

text \<open>
  The file tools do not keep away from \<open>.velocity/rules.json\<close>, which lies in the workspace: an agent
  under a rule that forbids a command deletes the file, the gate lets that pass, and the rule is gone
  for the next call.
\<close>

definition demo_delete :: agent_call where
  "demo_delete = \<lparr>ac_tool = ''delete_file'', ac_arguments = JObj [(''relativeFilePath'', JStr ''.velocity/rules.json'')],
     ac_runs = ToolOther (\<lambda>files. files(ScopeWorkspace := Absent))\<rparr>"

definition demo_guarded :: gate_state where
  "demo_guarded = demo_gate (demo_world ((\<lambda>_. Absent)(ScopeWorkspace := Stored (1, 2) ''{}'')))"

lemma delete_file_drops_rules:
  "\<exists>e. fst (gate_tool_call (demo_env demo_file) 0 ''run_command'' (JObj []) demo_guarded) = Inl e"
  "fst (gate_tool_call (demo_env demo_file) 0 ''run_command'' (JObj []) (agent_exec (demo_env demo_file) 0 demo_delete demo_guarded)) = Inr ()"
proof -
  have "case fst (gate_tool_call (demo_env demo_file) 0 ''run_command'' (JObj []) demo_guarded) of Inl _ \<Rightarrow> True | Inr _ \<Rightarrow> False"
    by code_simp
  then show "\<exists>e. fst (gate_tool_call (demo_env demo_file) 0 ''run_command'' (JObj []) demo_guarded) = Inl e"
    by (auto split: sum.splits)
  show "fst (gate_tool_call (demo_env demo_file) 0 ''run_command'' (JObj []) (agent_exec (demo_env demo_file) 0 demo_delete demo_guarded)) = Inr ()"
    by code_simp
qed

end
