(* ===== verification/Rule_History.thy ===== *)
theory Rule_History
  imports Rule_Safety
begin

text \<open>
  The life of stored rules: an invariant of the rule files, kept by every operation of the engine and
  by calls at the gate, that each record has a gap-free history and a verified current version.
\<close>

section \<open>Every stored version has been shown to fire\<close>

definition record_ok :: "(Json \<Rightarrow> string) \<Rightarrow> RuleRecord \<Rightarrow> bool" where
  "record_ok dj rec \<longleftrightarrow> rule_verify dj (rr_current rec) = Inr ()
     \<and> map ru_version (rr_history rec @ [rr_current rec]) = map of_nat [1..<Suc (Suc (length (rr_history rec)))]
     \<and> (\<forall>r\<in>set (rr_history rec @ [rr_current rec]). ru_id r = rr_id rec)"

definition file_ok :: "(Json \<Rightarrow> string) \<Rightarrow> RuleFile \<Rightarrow> bool" where
  "file_ok dj f \<longleftrightarrow> distinct (map rr_id (rf_rules f)) \<and> (\<forall>rec\<in>set (rf_rules f). record_ok dj rec)"

lemma file_ok_default [simp]: "file_ok dj rule_file_default"
  by (simp add: file_ok_def rule_file_default_def)

lemma record_ok_new: "rule_verify dj r = Inr () \<Longrightarrow> ru_version r = 1 \<Longrightarrow> record_ok dj (record_new scope r)"
  by (simp add: record_ok_def record_new_def)

lemma record_ok_supersede:
  assumes "record_ok dj rec" "rule_verify dj cand = Inr ()" "ru_version cand = ru_version (rr_current rec) + 1" "ru_id cand = ru_id (rr_current rec)"
  shows "record_ok dj (supersede cand rec)"
proof -
  have v: "map ru_version (rr_history rec) @ [ru_version (rr_current rec)] = map of_nat [1..<Suc (length (rr_history rec))] @ [of_nat (Suc (length (rr_history rec)))]"
    using assms(1) by (simp add: record_ok_def)
  then have "ru_version cand = of_nat (Suc (Suc (length (rr_history rec))))" using assms(3) by (simp add: add.commute)
  with assms v show ?thesis by (auto simp: record_ok_def supersede_def)
qed

lemma file_ok_on_record:
  assumes "file_ok dj f" "file_find f i = Some rec" "record_ok dj (u rec)" "\<And>x. rr_id (u x) = rr_id x"
  shows "file_ok dj (on_record i u f)"
proof -
  have m: "map rr_id (update_first (\<lambda>r. rr_id r = i) u (rf_rules f)) = map rr_id (rf_rules f)"
    by (rule map_update_first) (simp add: assms(4))
  have "set (update_first (\<lambda>r. rr_id r = i) u (rf_rules f)) \<subseteq> insert (u rec) (set (rf_rules f))"
    using set_update_first(1) assms(2) unfolding file_find_def by metis
  with assms(1,3) m show ?thesis by (auto simp: file_ok_def on_record_def)
qed

lemma candidate_ok:
  assumes "candidate_for env rec patch now = Inr cand"
  shows "rule_verify (en_debug env) cand = Inr () \<and> ru_version cand = ru_version (rr_current rec) + 1 \<and> ru_id cand = ru_id (rr_current rec)"
proof -
  have "rule_prepare (en_debug env) (patched patch now (rr_current rec)) = Inr cand"
    using assms by (auto simp: candidate_for_def split: if_splits sum.splits option.splits)
  from prepare_verified [OF this] show ?thesis by (auto simp: patched_def Let_def)
qed

lemma adjust_edit_ok:
  assumes "file_ok (en_debug env) f" "adjust_edit env i patch missing f ck = (r, f', ck')"
  shows "file_ok (en_debug env) f'"
proof (cases "file_find f i")
  case (Some rec)
  have rec: "record_ok (en_debug env) rec" using assms(1) file_find_Some [OF Some] by (simp add: file_ok_def)
  have "file_ok (en_debug env) (on_record i (supersede cand) f)" if "candidate_for env rec patch now = Inr cand" for cand now
    using candidate_ok [OF that] by (intro file_ok_on_record [OF assms(1) Some] record_ok_supersede [OF rec]) (auto simp: supersede_def)
  with assms Some show ?thesis by (auto simp: adjust_edit_def split: if_splits sum.splits prod.splits)
qed (use assms in \<open>simp add: adjust_edit_def\<close>)

lemma retired_ok:
  "file_ok dj f \<Longrightarrow> file_find f i \<noteq> None \<Longrightarrow> file_ok dj (drop_grants i (on_record i (tombstone now) f))"
proof -
  assume ok: "file_ok dj f" and "file_find f i \<noteq> None"
  then obtain rec where rec: "file_find f i = Some rec" by auto
  then have "record_ok dj (tombstone now rec)" using ok file_find_Some [OF rec] by (auto simp: file_ok_def record_ok_def tombstone_def)
  from file_ok_on_record [OF ok rec, of "tombstone now", OF this] show ?thesis by (simp add: tombstone_def drop_grants_def file_ok_def)
qed

lemma file_ok_other: "rf_rules f' = rf_rules f \<Longrightarrow> file_ok dj f' = file_ok dj f"
  by (simp add: file_ok_def)

lemma put_grant_ok [simp]: "file_ok dj (put_grant g f) = file_ok dj f"
  by (rule file_ok_other) (simp add: put_grant_def drop_grants_def Let_def)

lemma apply_request_ok:
  assumes "file_ok (en_debug env) f" "apply_request env q by_whom f ck = (r, f', ck')"
  shows "file_ok (en_debug env) f'"
  using assms retired_ok [OF assms(1), of "cr_rule_id q"]
  by (auto simp: apply_request_def Let_def dest: adjust_edit_ok split: ChangeAction.splits prod.splits if_splits)

interpretation insert_ok: file_edit "insert_edit scope r" "rule_verify dj r = Inr () \<and> ru_version r = 1" "file_ok dj" for scope r dj
proof
  fix f ck x f' ck'
  assume "rule_verify dj r = Inr () \<and> ru_version r = 1" "file_ok dj f" "insert_edit scope r f ck = (x, f', ck')"
  then show "file_ok dj f'"
    by (auto simp: insert_edit_def file_ok_def file_find_None record_ok_new split: if_splits) (auto simp: record_new_def)
qed simp

interpretation adjust_ok: file_edit "adjust_edit env i patch missing" True "file_ok (en_debug env)" for env i patch missing
  by unfold_locales (auto dest: adjust_edit_ok)

interpretation retire_ok: file_edit "retire_edit i" True "file_ok dj" for i dj
  by unfold_locales (auto simp: retire_edit_def Let_def retired_ok split: option.splits if_splits prod.splits)

interpretation request_ok: file_edit "request_edit i q" True "file_ok dj" for i q dj
  by unfold_locales (auto simp: request_edit_def file_ok_def rule_file_default_def split: if_splits)

interpretation grant_ok: file_edit "grant_edit i g" True "file_ok dj" for i g dj
  by unfold_locales (auto simp: grant_edit_def split: if_splits)

interpretation decide_ok: file_edit "decide_edit env i by_whom approve" True "file_ok (en_debug env)" for env i by_whom approve
proof
  fix f ck r f' ck'
  assume ok: "file_ok (en_debug env) f" and d: "decide_edit env i by_whom approve f ck = (r, f', ck')"
  have "file_ok (en_debug env) (on_request i u f1) = file_ok (en_debug env) f1" for u f1
    by (rule file_ok_other) (simp add: on_request_def)
  with ok d show "file_ok (en_debug env) f'"
    by (auto simp: decide_edit_def Let_def dest: apply_request_ok split: option.splits if_splits prod.splits sum.splits)
qed simp

lemma spend_ok: "file_ok dj f \<Longrightarrow> file_ok dj (on_live_grant i now spend f)"
  by (simp add: file_ok_def on_live_grant_def)

definition rules_ok :: "rules_env \<Rightarrow> rules_world \<Rightarrow> bool" where
  "rules_ok env w \<longleftrightarrow> coherent env w \<and> files_ok (file_ok (en_debug env)) env w"

lemma rules_ok_time [simp]: "rules_ok env (w\<lparr>rw_time := ck\<rparr>) \<longleftrightarrow> rules_ok env w"
  by (simp add: rules_ok_def files_ok_def coherent_time)

lemma create_ok:
  assumes "env_ok env" "rules_ok env w" "create_rule env req w = (r, w')"
  shows "rules_ok env w'"
proof -
  consider "w' = w" | ck where "w' = w\<lparr>rw_time := ck\<rparr>"
    | ck ru i now r2 where "rule_prepare (en_debug env) (new_rule req i now) = Inr ru"
        "update_scoped env (nr_scope req) (insert_edit (nr_scope req) ru) (w\<lparr>rw_time := ck\<rparr>) = (r2, w')"
    using assms(3) by (auto simp: create_rule_def Let_def dest!: map_resultD split: if_splits sum.splits prod.splits)
  then show ?thesis
  proof cases
    case (3 ck ru i now r2)
    have "rule_verify (en_debug env) ru = Inr () \<and> ru_version ru = 1" using prepare_verified [OF 3(1)] by (auto simp: new_rule_def)
    moreover have "rules_ok env (w\<lparr>rw_time := ck\<rparr>)" using assms(2) by simp
    ultimately show ?thesis using insert_ok.update_keeps [OF assms(1) _ _ _ 3(2)] unfolding rules_ok_def by blast
  qed (use assms(2) in simp_all)
qed

lemma find_rule_scope_ok:
  assumes "rules_ok env w" "find_scope env P missing scopes w = (x, w1)"
  shows "rules_ok env w1"
  using find_scope_spec [OF _ assms(2)] assms(1) by (auto simp: rules_ok_def files_ok_def)

lemma file_request_ok:
  assumes "env_ok env" "rules_ok env w" "file_request env scope i action actor reason w = (r, w')"
  shows "rules_ok env w'"
proof -
  obtain q ck r2 where u: "update_scoped env scope (request_edit i q) (w\<lparr>rw_time := ck\<rparr>) = (r2, w')"
    using assms(3) by (auto simp: file_request_def Let_def dest!: map_resultD split: prod.splits)
  have "rules_ok env (w\<lparr>rw_time := ck\<rparr>)" using assms(2) by simp
  with request_ok.update_keeps [OF assms(1) _ _ _ u] show ?thesis unfolding rules_ok_def by blast
qed

lemma change_ok:
  assumes "env_ok env" "rules_ok env w" "change env i action actor reason edit w = (r, w')"
    and "\<And>scope w1 r1 w2. rules_ok env w1 \<Longrightarrow> update_scoped env scope edit w1 = (r1, w2) \<Longrightarrow> rules_ok env w2"
  shows "rules_ok env w'"
proof -
  obtain x w1 where f: "find_rule_scope env i w = (x, w1)" by (metis surj_pair)
  have ok: "rules_ok env w1" using find_rule_scope_ok [OF assms(2)] f by (simp add: find_rule_scope_def)
  show ?thesis
  proof (cases x)
    case (Inl e)
    with assms(3) f ok show ?thesis by (simp add: change_def)
  next
    case (Inr scope)
    with assms(3) f consider r2 where "file_request env scope i action actor reason w1 = (r2, w')" | r2 where "update_scoped env scope edit w1 = (r2, w')"
      by (auto simp: change_def dest!: map_resultD split: if_splits)
    then show ?thesis using file_request_ok [OF assms(1) ok] assms(4) [OF ok] by cases blast+
  qed
qed

lemma bypass_ok:
  assumes "env_ok env" "rules_ok env w" "bypass_rule env i spec actor w = (r, w')"
  shows "rules_ok env w'"
proof -
  obtain x w1 where f: "find_rule_scope env i w = (x, w1)" by (metis surj_pair)
  have ok: "rules_ok env w1" using find_rule_scope_ok [OF assms(2)] f by (simp add: find_rule_scope_def)
  consider "w' = w" | "w' = w1" | scope r2 where "file_request env scope i (Bypass spec) actor ''bypass requested'' w1 = (r2, w')"
    | scope g ck r2 where "update_scoped env scope (grant_edit i g) (w1\<lparr>rw_time := ck\<rparr>) = (r2, w')"
    using assms(3) f by (auto simp: bypass_rule_def dest!: map_resultD split: if_splits sum.splits prod.splits)
  then show ?thesis
  proof cases
    case (3 scope r2)
    from file_request_ok [OF assms(1) ok 3] show ?thesis .
  next
    case (4 scope g ck r2)
    have "rules_ok env (w1\<lparr>rw_time := ck\<rparr>)" using ok by simp
    with grant_ok.update_keeps [OF assms(1) _ _ _ 4] show ?thesis unfolding rules_ok_def by blast
  qed (use assms(2) ok in simp_all)
qed

lemma decide_ok_world:
  assumes "env_ok env" "rules_ok env w" "decide_request env i by_whom approve w = (r, w')"
  shows "rules_ok env w'"
proof -
  obtain x w1 where f: "find_request_scope env i w = (x, w1)" by (metis surj_pair)
  have ok: "rules_ok env w1" using find_rule_scope_ok [OF assms(2)] f by (simp add: find_request_scope_def)
  show ?thesis
  proof (cases x)
    case (Inl e)
    with assms(3) f ok show ?thesis by (simp add: decide_request_def)
  next
    case (Inr scope)
    with assms(3) f have "update_scoped env scope (decide_edit env i by_whom approve) w1 = (r, w')" by (simp add: decide_request_def)
    with decide_ok.update_keeps [OF assms(1) _ _ _ this] ok show ?thesis unfolding rules_ok_def by blast
  qed
qed

text \<open>
  The operations of the engine as steps, together with another process that replaces a durable
  file by a well-formed one, under a stamp the cache does not hold.
\<close>

inductive rules_step :: "rules_env \<Rightarrow> gate_state \<Rightarrow> gate_state \<Rightarrow> bool" for env where
  create: "create_rule env req (gs_rules gs) = (r, w) \<Longrightarrow> rules_step env gs (gs\<lparr>gs_rules := w\<rparr>)"
| adjust: "adjust_rule env i patch actor reason (gs_rules gs) = (r, w) \<Longrightarrow> rules_step env gs (gs\<lparr>gs_rules := w\<rparr>)"
| retire: "retire_rule env i actor reason (gs_rules gs) = (r, w) \<Longrightarrow> rules_step env gs (gs\<lparr>gs_rules := w\<rparr>)"
| bypass: "bypass_rule env i spec actor (gs_rules gs) = (r, w) \<Longrightarrow> rules_step env gs (gs\<lparr>gs_rules := w\<rparr>)"
| decide: "decide_request env i by_whom approve (gs_rules gs) = (r, w) \<Longrightarrow> rules_step env gs (gs\<lparr>gs_rules := w\<rparr>)"
| call: "gate_tool_call env earliest tool args gs = (r, gs') \<Longrightarrow> rules_step env gs gs'"
| external: "file_ok (en_debug env) f \<Longrightarrow> en_print env f = Inr raw \<Longrightarrow> cached s st (gs_rules gs) = None \<Longrightarrow>
    rules_step env gs (gs\<lparr>gs_rules := (gs_rules gs)\<lparr>rw_files := (rw_files (gs_rules gs))(s := Stored st raw)\<rparr>\<rparr>)"

lemma external_ok:
  assumes "env_ok env" "rules_ok env w" "file_ok (en_debug env) f" "en_print env f = Inr raw" "cached s st w = None"
  shows "rules_ok env (w\<lparr>rw_files := (rw_files w)(s := Stored st raw)\<rparr>)"
proof -
  let ?w = "w\<lparr>rw_files := (rw_files w)(s := Stored st raw)\<rparr>"
  have other: "content env ?w t = content env w t" if "t \<noteq> s \<or> t = ScopeTask" for t
    using that by (cases "t = ScopeTask") (simp_all add: content_durable)
  have "s \<noteq> ScopeTask \<Longrightarrow> content env ?w s = Inr f" by (simp add: content_durable parse_printed [OF assms(1,4)])
  then have "files_ok (file_ok (en_debug env)) env ?w"
    using assms(2,3) other unfolding rules_ok_def files_ok_def by (metis sum.inject(2))
  moreover have "coherent env ?w" unfolding coherent_def
  proof (intro conjI allI impI)
    show "rw_disk ?w n \<noteq> WriteLands mt False" for n mt using assms(2) coherent_disk by (auto simp: rules_ok_def)
  next
    fix t st' g
    assume h: "t \<noteq> ScopeTask" "rw_cache ?w t = Some (st', g)" "file_stamp (rw_files ?w t) = Some st'"
    show "content env ?w t = Inr g"
    proof (cases "t = s")
      case True
      with h assms(5) show ?thesis by (auto simp: cached_def)
    next
      case False
      with h have "rw_cache w t = Some (st', g)" "file_stamp (rw_files w t) = Some st'" by simp_all
      with h(1) assms(2) have "content env w t = Inr g" unfolding rules_ok_def coherent_def by blast
      with other False show ?thesis by simp
    qed
  qed
  ultimately show ?thesis by (simp add: rules_ok_def)
qed

lemma rules_step_ok:
  assumes "env_ok env" "rules_step env gs gs'" "rules_ok env (gs_rules gs)"
  shows "rules_ok env (gs_rules gs')"
  using assms(2,3)
proof cases
  case (adjust i patch actor reason r w)
  have "rules_ok env w"
    using change_ok [OF assms(1,3) adjust(2) [unfolded adjust_rule_def]] adjust_ok.update_keeps [OF assms(1)]
    unfolding rules_ok_def by blast
  with adjust(1) show ?thesis by simp
next
  case (retire i actor reason r w)
  have "rules_ok env w"
    using change_ok [OF assms(1,3) retire(2) [unfolded retire_rule_def]] retire_ok.update_keeps [OF assms(1)]
    unfolding rules_ok_def by blast
  with retire(1) show ?thesis by simp
next
  case (call earliest tool args r)
  with gate_spec [OF assms(1) _ call] assms(3) spend_ok show ?thesis unfolding rules_ok_def by blast
next
  case (create req r w)
  have "rules_ok env w" by (rule create_ok [OF assms(1,3) create(2)])
  with create(1) show ?thesis by simp
next
  case (bypass i spec actor r w)
  have "rules_ok env w" by (rule bypass_ok [OF assms(1,3) bypass(2)])
  with bypass(1) show ?thesis by simp
next
  case (decide i by_whom approve r w)
  have "rules_ok env w" by (rule decide_ok_world [OF assms(1,3) decide(2)])
  with decide(1) show ?thesis by simp
next
  case (external f raw s st)
  have "rules_ok env ((gs_rules gs)\<lparr>rw_files := (rw_files (gs_rules gs))(s := Stored st raw)\<rparr>)"
    by (rule external_ok [OF assms(1,3) external(2-4)])
  with external(1) show ?thesis by simp
qed

lemma verified_budget:
  "rule_verify dj r = Inr () \<Longrightarrow> ru_kind r = ToolBudget \<Longrightarrow>
     \<exists>n m. rule_int r ''tool_calls'' = Some n \<and> rule_int r ''window_minutes'' = Some m \<and> 1 \<le> n \<and> 1 \<le> m"
  by (auto simp: rule_verify_def verify_budget_def Let_def split: option.splits if_splits)

text \<open>
  C10. Every rule in force has been shown to fire.  From rule files in order, after any sequence of
  creations, adjustments, retirements, bypasses, decisions on requests, gated calls and well-formed
  replacements of a file by another process, each stored record keeps the versions 1 to n of one rule
  without a gap, no two records of a file share an id, and the current version of a record denies
  its deny witness and lets its allow witness pass, or is a budget with positive limits.
\<close>

theorem stored_rules_fire:
  assumes "env_ok env" "rules_ok env (gs_rules gs0)" "(rules_step env)\<^sup>*\<^sup>* gs0 gs" "content env (gs_rules gs) s = Inr f"
    and "rec \<in> set (rf_rules f)"
  shows "distinct (map rr_id (rf_rules f))
    \<and> map ru_version (rr_history rec @ [rr_current rec]) = map of_nat [1..<Suc (Suc (length (rr_history rec)))]
    \<and> (\<forall>r\<in>set (rr_history rec @ [rr_current rec]). ru_id r = rr_id rec)
    \<and> (if ru_kind (rr_current rec) = ToolBudget
       then (\<exists>n m. rule_int (rr_current rec) ''tool_calls'' = Some n \<and> rule_int (rr_current rec) ''window_minutes'' = Some m \<and> 1 \<le> n \<and> 1 \<le> m)
       else (\<exists>wit d. ru_witnesses (rr_current rec) = Some wit \<and> rule_matches (rr_current rec) (to_call (wi_deny wit)) = Some d
              \<and> rule_matches (rr_current rec) (to_call (wi_allow wit)) = None))"
proof -
  from assms(3,2) have "rules_ok env (gs_rules gs)"
    by (induction rule: rtranclp_induct) (auto dest: rules_step_ok [OF assms(1)])
  with assms(4,5) have "file_ok (en_debug env) f" and rec: "record_ok (en_debug env) rec"
    by (auto simp: rules_ok_def files_ok_def file_ok_def)
  then show ?thesis using verified_fires [of "en_debug env" "rr_current rec"] verified_budget [of "en_debug env" "rr_current rec"]
    by (auto simp: file_ok_def record_ok_def)
qed

theorem stored_rules_fire_witness:
  "\<exists>w f. create_rule (demo_env demo_file) demo_request (demo_world (\<lambda>_. Absent)) = (Inr demo_created, w)
     \<and> content (demo_env demo_file) w ScopeWorkspace = Inr f \<and> distinct (map rr_id (rf_rules f))"
proof -
  let ?env = "demo_env demo_file" and ?w = "demo_world (\<lambda>_. Absent)"
  obtain w where w: "create_rule ?env demo_request ?w = (Inr demo_created, w)"
    using demo_create by (cases "create_rule ?env demo_request ?w") auto
  have "content ?env ?w s = Inr rule_file_default" for s
    by (cases s) (simp_all add: content_def demo_world_def)
  then have ok: "rules_ok ?env (gs_rules (demo_gate ?w))"
    using demo_coherent by (simp add: rules_ok_def files_ok_def demo_gate_def)
  have "rules_step ?env (demo_gate ?w) ((demo_gate ?w)\<lparr>gs_rules := w\<rparr>)"
    by (rule rules_step.create [of _ demo_request _ "Inr demo_created"]) (simp add: demo_gate_def w)
  then have step: "(rules_step ?env)\<^sup>*\<^sup>* (demo_gate ?w) ((demo_gate ?w)\<lparr>gs_rules := w\<rparr>)" by blast
  obtain f where f: "content ?env w ScopeWorkspace = Inr f" "record_new ScopeWorkspace demo_created \<in> set (rf_rules f)"
  proof (rule create_spec [OF demo_env_ok demo_coherent w])
    fix f0
    assume "content ?env w (nr_scope demo_request) = Inr (f0\<lparr>rf_rules := rf_rules f0 @ [record_new (nr_scope demo_request) demo_created]\<rparr>)"
    then have "content ?env w ScopeWorkspace = Inr (f0\<lparr>rf_rules := rf_rules f0 @ [record_new ScopeWorkspace demo_created]\<rparr>)"
      by (simp add: demo_request_def)
    from that [OF this] show thesis by simp
  qed
  from stored_rules_fire [OF demo_env_ok ok step, of ScopeWorkspace f "record_new ScopeWorkspace demo_created"] f w
  show ?thesis by simp
qed

end
