(* ===== verification/Rule_Limits.thy ===== *)
theory Rule_Limits
  imports Rule_Safety
begin

text \<open>
  Limits the gate enforces over several calls: a one-call bypass lets one call through and a budget
  counts the calls of its window.
\<close>

section \<open>One-call bypasses\<close>

text \<open>Grants of the one-call shape, as \<open>issue_grant\<close> makes them: no expiry time.\<close>

definition one_call_only :: "string \<Rightarrow> RuleFile \<Rightarrow> bool" where
  "one_call_only i f \<longleftrightarrow> (\<forall>g\<in>set (rf_grants f). bg_rule_id g = i \<longrightarrow> bg_scope g = BypassEvent \<and> bg_expires_at g = None)"

definition unspent :: "string \<Rightarrow> BypassGrant \<Rightarrow> bool" where
  "unspent i g \<longleftrightarrow> bg_rule_id g = i \<and> bg_uses_left g \<noteq> Some 0"

definition unspent_in :: "string \<Rightarrow> string + RuleFile \<Rightarrow> nat" where
  "unspent_in i c = (case c of Inl e \<Rightarrow> 0 | Inr f \<Rightarrow> length (filter (unspent i) (rf_grants f)))"

definition calls_left :: "rules_env \<Rightarrow> string \<Rightarrow> rules_world \<Rightarrow> nat" where
  "calls_left env i w = (\<Sum>s\<leftarrow>RULE_SCOPES. unspent_in i (content env w s))"

lemma calls_left_cong: "content env w' = content env w \<Longrightarrow> calls_left env i w' = calls_left env i w"
  by (simp add: calls_left_def)

lemma one_call_spend: "one_call_only i f \<Longrightarrow> one_call_only i (on_live_grant j now spend f)"
proof -
  have "\<forall>g\<in>set gs. bg_rule_id g = i \<longrightarrow> bg_scope g = BypassEvent \<and> bg_expires_at g = None \<Longrightarrow>
    \<forall>g\<in>set (update_first P spend gs). bg_rule_id g = i \<longrightarrow> bg_scope g = BypassEvent \<and> bg_expires_at g = None" for P gs
    by (induction gs) (auto simp: spend_def)
  then show "one_call_only i f \<Longrightarrow> one_call_only i (on_live_grant j now spend f)"
    by (simp add: one_call_only_def on_live_grant_def)
qed

lemma filter_spent:
  "\<forall>g\<in>set gs. P g \<longrightarrow> unspent i g \<Longrightarrow> \<exists>g\<in>set gs. P g \<Longrightarrow>
     Suc (length (filter (unspent i) (update_first P spend gs))) = length (filter (unspent i) gs)"
  by (induction gs) (auto simp: unspent_def spend_def)

lemma filter_unspent_le: "length (filter (unspent i) (update_first P spend gs)) \<le> length (filter (unspent i) gs)"
  by (induction gs) (auto simp: unspent_def spend_def)

lemma spending_counts:
  assumes "one_call_only i f" "live_grant f i now = Some g"
  shows "Suc (unspent_in i (Inr (on_live_grant i now spend f))) = unspent_in i (Inr f)"
proof -
  let ?P = "\<lambda>g. bg_rule_id g = i \<and> \<not> grant_is_expired g now"
  have "\<forall>g\<in>set (rf_grants f). ?P g \<longrightarrow> unspent i g" using assms(1) by (auto simp: one_call_only_def unspent_def grant_is_expired_def)
  moreover have "\<exists>g\<in>set (rf_grants f). ?P g" using live_grant_Some [OF assms(2)] by blast
  ultimately show ?thesis using filter_spent [of "rf_grants f" ?P i] by (simp add: unspent_in_def on_live_grant_def)
qed

lemma calls_left_upd:
  assumes "content env w' = (content env w)(s := c)"
  shows "calls_left env i w' + unspent_in i (content env w s) = calls_left env i w + unspent_in i c"
  using assms by (cases s) (simp_all add: calls_left_def RULE_SCOPES_def)

lemma consume_counts:
  assumes "env_ok env" "coherent env w" "files_ok (one_call_only i) env w" "consume_grant env j w = (r, w')"
  shows "calls_left env i w' \<le> calls_left env i w \<and> (j = i \<longrightarrow> r = Inr True \<longrightarrow> Suc (calls_left env i w') \<le> calls_left env i w)"
proof (cases "r = Inr True")
  case True
  then obtain s f g now where c: "content env w s = Inr f" "live_grant f j now = Some g"
    and u: "if bg_scope g = BypassEvent then content env w' = (content env w)(s := Inr (on_live_grant j now spend f))
            else content env w' = content env w"
    using consume_grant_spec [OF assms(1,2,4)] by (auto simp: consumption_def)
  show ?thesis
  proof (cases "bg_scope g = BypassEvent")
    case True
    with u have w': "content env w' = (content env w)(s := Inr (on_live_grant j now spend f))" by simp
    have "unspent_in i (Inr (on_live_grant j now spend f)) \<le> unspent_in i (Inr f)"
      by (simp add: unspent_in_def on_live_grant_def filter_unspent_le)
    moreover have "j = i \<Longrightarrow> Suc (unspent_in i (Inr (on_live_grant j now spend f))) = unspent_in i (Inr f)"
      using spending_counts assms(3) c by (auto simp: files_ok_def)
    ultimately show ?thesis using calls_left_upd [OF w', of i] c(1) by auto
  next
    case False
    with u have "content env w' = content env w" by simp
    then have "calls_left env i w' = calls_left env i w" by (rule calls_left_cong)
    moreover have "j \<noteq> i" using False assms(3) c live_grant_Some [OF c(2)] by (auto simp: files_ok_def one_call_only_def)
    ultimately show ?thesis by simp
  qed
next
  case False
  with consume_grant_spec [OF assms(1,2,4)] have "content env w' = content env w" by (auto simp: consumption_def)
  then have "calls_left env i w' = calls_left env i w" by (rule calls_left_cong)
  with False show ?thesis by simp
qed

lemma gate_hits_counts:
  assumes "env_ok env"
  shows "coherent env w \<Longrightarrow> files_ok (one_call_only i) env w \<Longrightarrow> gate_hits env hits w = (r, w') \<Longrightarrow>
    calls_left env i w' \<le> calls_left env i w
    \<and> (r = Inr () \<longrightarrow> (\<exists>h\<in>set hits. ru_id (hi_rule h) = i) \<longrightarrow> Suc (calls_left env i w') \<le> calls_left env i w)"
proof (induction hits arbitrary: w)
  case (Cons h hs)
  obtain x w1 where c: "consume_grant env (ru_id (hi_rule h)) w = (x, w1)" by (metis surj_pair)
  note cc = consume_counts [OF assms Cons.prems(1,2) c]
  show ?case
  proof (cases "x = Inr True")
    case True
    with Cons.prems(3) c have g: "gate_hits env hs w1 = (r, w')" by simp
    have "coherent env w1" using consume_grant_spec [OF assms Cons.prems(1) c] by simp
    moreover have "files_ok (one_call_only i) env w1" using consume_keeps [OF assms Cons.prems(1) c Cons.prems(2) one_call_spend] .
    ultimately show ?thesis using Cons.IH [OF _ _ g] cc True by fastforce
  next
    case False
    then have "w' = w1" "r \<noteq> Inr ()" using Cons.prems(3) c by (auto split: sum.splits bool.splits)
    with cc show ?thesis by simp
  qed
qed simp

text \<open>The calls of a session, one after the other, with the answer of the gate to each.\<close>

fun gate_calls :: "rules_env \<Rightarrow> Instant \<Rightarrow> ToolCall list \<Rightarrow> gate_state \<Rightarrow> (string + unit) list" where
  "gate_calls env earliest [] gs = []"
| "gate_calls env earliest (c # cs) gs =
     (case gate_tool_call env earliest (tc_tool c) (tc_arguments c) gs of (r, gs') \<Rightarrow> r # gate_calls env earliest cs gs')"

definition in_force :: "rules_env \<Rightarrow> Rule \<Rightarrow> RuleScope \<Rightarrow> rules_world \<Rightarrow> bool" where
  "in_force env rule s w \<longleftrightarrow> (\<exists>f. content env w s = Inr f \<and> rule \<in> rr_current ` set (file_active f))"

lemma gate_call_counts:
  assumes "env_ok env" "coherent env (gs_rules gs)" "files_ok (one_call_only (ru_id rule)) env (gs_rules gs)"
    and "in_force env rule s (gs_rules gs)" "ru_kind rule \<noteq> ToolBudget" "rule_matches rule c \<noteq> None"
    and "gate_tool_call env earliest (tc_tool c) (tc_arguments c) gs = (r, gs')"
  shows "calls_left env (ru_id rule) (gs_rules gs') + (if isl r then 0 else 1) \<le> calls_left env (ru_id rule) (gs_rules gs)"
  using assms(7)
proof (cases rule: gate_cases)
  case (1 e)
  have "content env (gs_rules gs') = content env (gs_rules gs)"
    using evaluate_spec(2) [OF assms(2) 1(1)] by (rule same_rules_content)
  from calls_left_cong [OF this] 1(2) show ?thesis by simp
next
  case (2 hits gs1 w)
  note ev = evaluate_spec [OF assms(2) 2(1)]
  have same: "content env (gs_rules gs1) = content env (gs_rules gs)" using ev(2) by (rule same_rules_content)
  from assms(4) ev(4) [OF refl, of s] obtain f rec where "content env (gs_rules gs) s = Inr f"
    "rec \<in> set (file_active f)" "rr_current rec = rule" "hits_of \<lparr>tc_tool = tc_tool c, tc_arguments = tc_arguments c\<rparr> s (file_active f) hits"
    by (auto simp: in_force_def)
  moreover have "\<lparr>tc_tool = tc_tool c, tc_arguments = tc_arguments c\<rparr> = c" by simp
  moreover obtain d where "rule_matches rule c = Some d" using assms(6) by blast
  ultimately have "\<lparr>hi_rule = rule, hi_scope = s, hi_detail = d\<rparr> \<in> set hits" using assms(5) by (auto simp: hits_of_def)
  then have "\<exists>h\<in>set hits. ru_id (hi_rule h) = ru_id rule" by force
  moreover have "files_ok (one_call_only (ru_id rule)) env (gs_rules gs1)" using assms(3) same by (simp add: files_ok_def)
  ultimately have "calls_left env (ru_id rule) w + (if isl r then 0 else 1) \<le> calls_left env (ru_id rule) (gs_rules gs1)"
    using gate_hits_counts [OF assms(1) ev(1) _ 2(2)] by (cases r) auto
  with 2(3) calls_left_cong [OF same] show ?thesis by simp
qed

lemma in_force_spend: "rule \<in> rr_current ` set (file_active f) \<Longrightarrow> rule \<in> rr_current ` set (file_active (on_live_grant i now spend f))"
  by (simp add: file_active_def on_live_grant_def)

lemma gate_hits_in_force:
  assumes "env_ok env"
  shows "coherent env w \<Longrightarrow> in_force env rule s w \<Longrightarrow> gate_hits env hits w = (r, w') \<Longrightarrow> in_force env rule s w'"
proof (induction hits arbitrary: w)
  case (Cons h hs)
  obtain x w1 where c: "consume_grant env (ru_id (hi_rule h)) w = (x, w1)" by (metis surj_pair)
  note cs = consume_grant_spec [OF assms Cons.prems(1) c]
  have "in_force env rule s w1" using cs Cons.prems(2) in_force_spend unfolding consumption_def in_force_def
    by (auto split: if_splits)
  with Cons.IH [of w1] cs Cons.prems(3) c show ?case by (auto split: sum.splits bool.splits)
qed simp

lemma gate_in_force:
  assumes "env_ok env" "coherent env (gs_rules gs)" "gate_tool_call env earliest tool args gs = (r, gs')" "in_force env rule s (gs_rules gs)"
  shows "in_force env rule s (gs_rules gs')"
  using assms(3)
proof (cases rule: gate_cases)
  case (1 e)
  with evaluate_spec(2) [OF assms(2) 1(1)] assms(4) show ?thesis by (simp add: in_force_def same_rules_content)
next
  case (2 hits gs1 w)
  note ev = evaluate_spec(1,2) [OF assms(2) 2(1)]
  have "in_force env rule s (gs_rules gs1)" using ev(2) assms(4) by (simp add: in_force_def same_rules_content)
  from gate_hits_in_force [OF assms(1) ev(1) this 2(2)] 2(3) show ?thesis by simp
qed

lemma gate_keeps:
  assumes "env_ok env" "coherent env (gs_rules gs)" "gate_tool_call env earliest tool args gs = (r, gs')"
  shows "coherent env (gs_rules gs')"
    "files_ok (one_call_only i) env (gs_rules gs) \<Longrightarrow> files_ok (one_call_only i) env (gs_rules gs')"
  using gate_spec [OF assms] one_call_spend by blast+

text \<open>
  C14. A one-call bypass lets one call through.  While a rule is in force and its only bypass grants
  are of the one-call kind, of any number of calls the rule matches the gate passes at most as many
  as there are unspent grants for the rule in the three scopes, whatever else is granted, whichever
  writes fail, and however the calls are spaced.
\<close>

theorem one_call_bypass_bounded:
  assumes "env_ok env" "coherent env (gs_rules gs)" "files_ok (one_call_only (ru_id rule)) env (gs_rules gs)"
    and "in_force env rule s (gs_rules gs)" "ru_kind rule \<noteq> ToolBudget" "\<forall>c\<in>set calls. rule_matches rule c \<noteq> None"
  shows "length (filter (\<lambda>r. r = Inr ()) (gate_calls env earliest calls gs)) \<le> calls_left env (ru_id rule) (gs_rules gs)"
  using assms(2-4,6)
proof (induction calls arbitrary: gs)
  case (Cons c cs)
  obtain r gs' where g: "gate_tool_call env earliest (tc_tool c) (tc_arguments c) gs = (r, gs')" by (metis surj_pair)
  note keeps = gate_keeps [OF assms(1) Cons.prems(1) g]
  have "in_force env rule s (gs_rules gs')" by (rule gate_in_force [OF assms(1) Cons.prems(1) g Cons.prems(3)])
  from Cons.IH [OF keeps(1) keeps(2) [OF Cons.prems(2)] this] Cons.prems(4)
  have "length (filter (\<lambda>r. r = Inr ()) (gate_calls env earliest cs gs')) \<le> calls_left env (ru_id rule) (gs_rules gs')" by simp
  moreover have "calls_left env (ru_id rule) (gs_rules gs') + (if isl r then 0 else 1) \<le> calls_left env (ru_id rule) (gs_rules gs)"
    using gate_call_counts [OF assms(1) Cons.prems(1-3) assms(5) _ g] Cons.prems(4) by simp
  ultimately show ?case using g by (cases r) simp_all
qed simp

definition demo_grant :: BypassGrant where
  "demo_grant = \<lparr>bg_id = ''byp-1'', bg_rule_id = ru_id demo_created, bg_scope = BypassEvent, bg_expires_at = None,
     bg_uses_left = Some 1, bg_issued_by = ''user'', bg_reason = ''one build'', bg_created_at = 900\<rparr>"

definition demo_granted :: rules_world where
  "demo_granted = (demo_world (\<lambda>_. Absent))\<lparr>rw_task := demo_file\<lparr>rf_grants := [demo_grant]\<rparr>\<rparr>"

lemma demo_granted_content: "content env demo_granted s = Inr (if s = ScopeTask then demo_file\<lparr>rf_grants := [demo_grant]\<rparr> else rule_file_default)"
  by (cases s) (simp_all add: content_def demo_granted_def demo_world_def)

theorem one_call_bypass_bounded_witness:
  "length (filter (\<lambda>r. r = Inr ()) (gate_calls (demo_env demo_file) 0 (replicate 3 \<lparr>tc_tool = ''run_command'', tc_arguments = JObj []\<rparr>)
     (demo_gate demo_granted))) \<le> 1"
proof -
  let ?env = "demo_env demo_file" and ?c = "\<lparr>tc_tool = ''run_command'', tc_arguments = JObj []\<rparr>"
  have co: "coherent ?env (gs_rules (demo_gate demo_granted))"
    by (simp add: coherent_def demo_gate_def demo_granted_def demo_world_def)
  have grants: "files_ok (one_call_only (ru_id demo_created)) ?env (gs_rules (demo_gate demo_granted))"
    by (simp add: files_ok_def demo_gate_def demo_granted_content one_call_only_def demo_grant_def rule_file_default_def)
  have force: "in_force ?env demo_created ScopeTask (gs_rules (demo_gate demo_granted))"
    by (force simp: in_force_def demo_gate_def demo_granted_def demo_file_def file_active_def record_is_active_def record_new_def)
  have k: "ru_kind demo_created \<noteq> ToolBudget" by (simp add: demo_created_def new_rule_def demo_request_def)
  have "rule_matches demo_created ?c \<noteq> None" by code_simp
  then have m: "\<forall>c\<in>set (replicate 3 ?c). rule_matches demo_created c \<noteq> None" by simp
  have "calls_left ?env (ru_id demo_created) (gs_rules (demo_gate demo_granted)) = 1"
    by (simp add: calls_left_def RULE_SCOPES_def demo_gate_def demo_granted_content unspent_in_def unspent_def demo_grant_def rule_file_default_def)
  with one_call_bypass_bounded [OF demo_env_ok co grants force k m, of 0] show ?thesis by simp
qed

text \<open>The grant does let the first call through.\<close>

lemma one_call_bypass_used:
  "map (\<lambda>r. r = Inr ()) (gate_calls (demo_env demo_file) 0 (replicate 2 \<lparr>tc_tool = ''run_command'', tc_arguments = JObj []\<rparr>)
     (demo_gate demo_granted)) = [True, False]"
  by code_simp

text \<open>
  Grants are consumed hit by hit: when a second rule refuses the call, the grant for the first has
  been spent although no call passed.
\<close>

definition demo_two_rules :: rules_world where
  "demo_two_rules = (demo_world (\<lambda>_. Absent))\<lparr>rw_task := demo_file\<lparr>rf_rules :=
     [record_new ScopeTask demo_created, record_new ScopeTask (demo_created\<lparr>ru_id := ''rule-ffffffff''\<rparr>)], rf_grants := [demo_grant]\<rparr>\<rparr>"

lemma refused_call_burns_grant:
  "(case gate_tool_call (demo_env demo_file) 0 ''run_command'' (JObj []) (demo_gate demo_two_rules) of
      (r, gs) \<Rightarrow> isl r \<and> map bg_uses_left (rf_grants (rw_task (gs_rules gs))) = [Some 0])"
  by code_simp

text \<open>A file another process rewrote under the stamp the cache holds is not read again: the old rules stay in force.\<close>

lemma same_stamp_keeps_old_rules:
  assumes "s \<noteq> ScopeTask" "rw_cache w s = Some (st, f)" "rw_files w s = Stored st raw"
  shows "load_scoped env s w = (Inr f, w)"
  using assms by (cases s) (simp_all add: load_scoped_def load_file_def cached_def)

section \<open>Budgets\<close>

definition budget_key :: "Rule \<Rightarrow> string \<times> u32" where
  "budget_key r = (ru_id r, ru_version r)"

definition budget_limit :: "Rule \<Rightarrow> int" where
  "budget_limit r = (case rule_int r ''tool_calls'' of Some v \<Rightarrow> v | None \<Rightarrow> 0)"

definition budget_minutes :: "Rule \<Rightarrow> int" where
  "budget_minutes r = (case rule_int r ''window_minutes'' of Some v \<Rightarrow> v | None \<Rightarrow> 0)"

definition budget_window :: "Rule \<Rightarrow> int" where
  "budget_window r = window_nanos (budget_minutes r)"

text \<open>The verdicts of budgets checked one after the other, and the reference that rescans the whole history.\<close>

fun budget_run :: "Instant \<Rightarrow> Rule list \<Rightarrow> gate_state \<Rightarrow> bool list" where
  "budget_run earliest [] gs = []"
| "budget_run earliest (r # rs) gs = (case budget_hit earliest r gs of (d, gs') \<Rightarrow> (d \<noteq> None) # budget_run earliest rs gs')"

definition times_of :: "Rule \<Rightarrow> (Rule \<times> Instant) list \<Rightarrow> Instant list" where
  "times_of r hist = map snd (filter (\<lambda>(r', t). budget_key r' = budget_key r) hist)"

fun budget_ref :: "(Rule \<times> Instant) list \<Rightarrow> Rule list \<Rightarrow> (nat \<Rightarrow> Instant) \<Rightarrow> nat \<Rightarrow> bool list" where
  "budget_ref hist [] clock n = []"
| "budget_ref hist (r # rs) clock n =
     (let hist' = hist @ [(r, clock n)] in
      (budget_limit r < int (length (filter (\<lambda>t. clock n - budget_window r \<le> t) (times_of r hist')))) # budget_ref hist' rs clock (Suc n))"

definition queue_of :: "budget_store \<Rightarrow> Rule \<Rightarrow> Instant list" where
  "queue_of store r = (case map_of store (budget_key r) of Some q \<Rightarrow> q | None \<Rightarrow> [])"

definition budgets_track :: "Rule set \<Rightarrow> budget_store \<Rightarrow> (Rule \<times> Instant) list \<Rightarrow> Instant \<Rightarrow> bool" where
  "budgets_track R store hist now \<longleftrightarrow> distinct (map fst store) \<and> fst ` set store \<subseteq> budget_key ` R
     \<and> sorted (map snd hist) \<and> (\<forall>(r, t)\<in>set hist. t \<le> now)
     \<and> (\<forall>r\<in>R. \<exists>c. c \<le> now - budget_window r \<and> queue_of store r = filter (\<lambda>t. c \<le> t) (times_of r hist))"

lemma dropWhile_sorted: "sorted xs \<Longrightarrow> dropWhile (\<lambda>t. t < (c :: int)) xs = filter (\<lambda>t. c \<le> t) xs"
  by (induction xs) (auto simp: not_less intro!: filter_True [symmetric])

lemma times_of_sorted: "sorted (map snd hist) \<Longrightarrow> sorted (times_of r hist)"
  unfolding times_of_def by (induction hist) auto

lemma times_of_snoc: "times_of r (hist @ [(r', t)]) = times_of r hist @ (if budget_key r' = budget_key r then [t] else [])"
  by (simp add: times_of_def)

lemma track_step:
  assumes "budgets_track R store hist now" "r \<in> R" "inj_on budget_key R" "now \<le> t"
    and "q = filter (\<lambda>x. t - budget_window r \<le> x) (queue_of store r @ [t])"
  shows "q = filter (\<lambda>x. t - budget_window r \<le> x) (times_of r (hist @ [(r, t)]))
    \<and> budgets_track R (AList.update (budget_key r) q store) (hist @ [(r, t)]) t"
proof -
  obtain c where c: "c \<le> now - budget_window r" "queue_of store r = filter (\<lambda>x. c \<le> x) (times_of r hist)"
    using assms(1,2) unfolding budgets_track_def by blast
  have "(c \<le> x \<and> t - budget_window r \<le> x) = (t - budget_window r \<le> x)" for x using c(1) assms(4) by auto
  then have q: "q = filter (\<lambda>x. t - budget_window r \<le> x) (times_of r (hist @ [(r, t)]))"
    by (simp add: assms(5) c(2) times_of_snoc)
  have other: "\<exists>c. c \<le> t - budget_window r' \<and> queue_of (AList.update (budget_key r) q store) r' = filter (\<lambda>x. c \<le> x) (times_of r' (hist @ [(r, t)]))"
    if "r' \<in> R" for r'
  proof (cases "r' = r")
    case True
    with q show ?thesis by (intro exI [of _ "t - budget_window r"]) (simp add: queue_of_def update_conv')
  next
    case False
    then have "budget_key r' \<noteq> budget_key r" using assms(2,3) that by (auto dest: inj_onD)
    then have "queue_of (AList.update (budget_key r) q store) r' = queue_of store r'" "times_of r' (hist @ [(r, t)]) = times_of r' hist"
      by (simp_all add: queue_of_def update_conv' times_of_snoc)
    moreover obtain c where "c \<le> now - budget_window r'" "queue_of store r' = filter (\<lambda>x. c \<le> x) (times_of r' hist)"
      using assms(1) \<open>r' \<in> R\<close> unfolding budgets_track_def by blast
    ultimately show ?thesis using assms(4) by (intro exI [of _ c]) simp
  qed
  have "fst ` set (AList.update (budget_key r) q store) \<subseteq> budget_key ` R"
    using assms(1,2) by (auto simp: budgets_track_def dom_update image_iff)
  moreover have "sorted (map snd (hist @ [(r, t)]))" using assms(1,4) by (force simp: budgets_track_def sorted_append)
  moreover have "\<forall>(r, x)\<in>set (hist @ [(r, t)]). x \<le> t" using assms(1,4) by (force simp: budgets_track_def)
  moreover have "distinct (map fst (AList.update (budget_key r) q store))"
    using assms(1) by (simp add: budgets_track_def distinct_update)
  ultimately show ?thesis using q other unfolding budgets_track_def by blast
qed

lemma track_size: "budgets_track R store hist now \<Longrightarrow> finite R \<Longrightarrow> length store \<le> card R"
proof -
  assume t: "budgets_track R store hist now" and fin: "finite R"
  have "length store = card (fst ` set store)" using t distinct_card [of "map fst store"] by (simp add: budgets_track_def)
  also have "\<dots> \<le> card (budget_key ` R)" using t fin by (intro card_mono) (auto simp: budgets_track_def)
  also have "\<dots> \<le> card R" using fin by (rule card_image_le)
  finally show ?thesis .
qed

lemma budget_hit_eq:
  assumes "1 \<le> budget_limit r" "1 \<le> budget_minutes r" "\<not> 512 < length (gs_budgets gs)"
    and "record_and_check earliest (queue_of (gs_budgets gs) r) (gs_instants gs (gs_reads gs)) (budget_limit r) (budget_window r) = (exceeded, q)"
  shows "budget_hit earliest r gs = (if exceeded then Some (budget_detail (budget_minutes r) (budget_limit r) (int (length q))) else None,
    gs\<lparr>gs_budgets := AList.update (budget_key r) q (gs_budgets gs), gs_reads := gs_reads gs + 1\<rparr>)"
  using assms unfolding budget_hit_def budget_key_def queue_of_def budget_limit_def budget_minutes_def budget_window_def
  by (simp add: Let_def not_less)

lemma budget_run_ref:
  assumes "finite R" "card R \<le> 512" "inj_on budget_key R" "mono clock" "\<forall>r\<in>R. 1 \<le> budget_limit r \<and> 1 \<le> budget_minutes r"
    and "\<forall>r\<in>R. \<forall>n. earliest \<le> clock n - budget_window r"
  shows "set rs \<subseteq> R \<Longrightarrow> budgets_track R (gs_budgets gs) hist now \<Longrightarrow> now \<le> clock (gs_reads gs) \<Longrightarrow> gs_instants gs = clock \<Longrightarrow>
    budget_run earliest rs gs = budget_ref hist rs clock (gs_reads gs)"
proof (induction rs arbitrary: gs hist now)
  case (Cons r rs)
  let ?t = "clock (gs_reads gs)"
  define q where q: "q = filter (\<lambda>x. ?t - budget_window r \<le> x) (queue_of (gs_budgets gs) r @ [?t])"
  let ?gs = "gs\<lparr>gs_budgets := AList.update (budget_key r) q (gs_budgets gs), gs_reads := gs_reads gs + 1\<rparr>"
  have r: "r \<in> R" and small: "\<not> 512 < length (gs_budgets gs)"
    using Cons.prems(1) track_size [OF Cons.prems(2) assms(1)] assms(2) by auto
  have "sorted (queue_of (gs_budgets gs) r @ [?t])"
  proof -
    obtain c where c: "queue_of (gs_budgets gs) r = filter (\<lambda>x. c \<le> x) (times_of r hist)"
      using Cons.prems(2) r unfolding budgets_track_def by blast
    have "sorted (times_of r hist)" "\<forall>x\<in>set (times_of r hist). x \<le> now"
      using Cons.prems(2) times_of_sorted by (auto simp: budgets_track_def times_of_def)
    then show ?thesis using c Cons.prems(3) by (force simp: sorted_append sorted_filter [where f = id, simplified])
  qed
  then have check: "record_and_check earliest (queue_of (gs_budgets gs) r) ?t (budget_limit r) (budget_window r) = (budget_limit r < int (length q), q)"
    using assms(6) r by (simp add: record_and_check_def Let_def dropWhile_sorted q)
  note step = track_step [OF Cons.prems(2) r assms(3) Cons.prems(3) q]
  have hit: "budget_hit earliest r gs = (if budget_limit r < int (length q) then Some (budget_detail (budget_minutes r) (budget_limit r) (int (length q))) else None, ?gs)"
    using assms(5) r small check Cons.prems(4) by (intro budget_hit_eq) simp_all
  have "?t \<le> clock (gs_reads ?gs)" using assms(4) by (simp add: monoD)
  have "budget_run earliest rs ?gs = budget_ref (hist @ [(r, ?t)]) rs clock (gs_reads ?gs)"
  proof (rule Cons.IH)
    show "budgets_track R (gs_budgets ?gs) (hist @ [(r, ?t)]) ?t" using conjunct2 [OF step] by simp
    show "?t \<le> clock (gs_reads ?gs)" by fact
  qed (use Cons.prems(1,4) in simp_all)
  moreover have "int (length q) = int (length (filter (\<lambda>x. ?t - budget_window r \<le> x) (times_of r (hist @ [(r, ?t)]))))"
    using arg_cong [OF conjunct1 [OF step], of "\<lambda>q. int (length q)"] .
  ultimately show ?case using hit by (simp add: Let_def)
qed simp

text \<open>
  C16. A budget is an exact rolling window.  For calls counted against any mix of up to 512 budgets
  (rule versions) with positive limits, on a monotonic clock that reaches back a full window, the
  pruned queues give the same verdicts as rescanning the whole history: a call exceeds its budget
  exactly when more than the limit of calls counted against that version, itself included, lie in the
  window that ends with it.
\<close>

theorem budget_is_rolling_window:
  assumes "card (set rs) \<le> 512" "inj_on budget_key (set rs)" "\<forall>r\<in>set rs. 1 \<le> budget_limit r \<and> 1 \<le> budget_minutes r"
    and "mono (gs_instants gs)" "\<forall>r\<in>set rs. \<forall>n. earliest \<le> gs_instants gs n - budget_window r" "gs_budgets gs = []"
  shows "budget_run earliest rs gs = budget_ref [] rs (gs_instants gs) (gs_reads gs)"
proof (rule budget_run_ref [where R = "set rs"])
  show "budgets_track (set rs) (gs_budgets gs) [] (gs_instants gs (gs_reads gs))"
    using assms(6) by (auto simp: budgets_track_def queue_of_def times_of_def)
qed (use assms in simp_all)

definition demo_budget :: Rule where
  "demo_budget = demo_created\<lparr>ru_kind := ToolBudget, ru_params := [(''tool_calls'', PInt 2), (''window_minutes'', PInt 1)]\<rparr>"

theorem budget_is_rolling_window_witness:
  "budget_run (- 60000000000) (replicate 4 demo_budget) (demo_gate (demo_world (\<lambda>_. Absent)))
     = budget_ref [] (replicate 4 demo_budget) int 0"
proof -
  have v: "budget_limit demo_budget = 2" "budget_minutes demo_budget = 1" by code_simp+
  have "window_nanos 1 = 60000000000" by (simp add: window_nanos_def)
  then have w: "budget_window demo_budget = 60000000000" by (simp add: budget_window_def v)
  have "mono int" by (simp add: mono_def)
  with budget_is_rolling_window [of "replicate 4 demo_budget" "demo_gate (demo_world (\<lambda>_. Absent))" "- 60000000000"]
  show ?thesis by (simp add: v w demo_gate_def)
qed

text \<open>
  Where the clock does not reach back a full window (an \<open>Instant\<close> counted from the start of the machine,
  shortly after it), the cutoff is the present: only calls of the same instant are counted, and
  a budget never fires on calls at different instants.
\<close>

lemma young_clock_disables_budget:
  assumes "now - window < earliest" "\<forall>t\<in>set queue. t < now" "1 \<le> limit"
  shows "record_and_check earliest queue now limit window = (False, [now])"
proof -
  have "dropWhile (\<lambda>t. t < now) (queue @ [now]) = [now]" using assms(2) by (simp add: dropWhile_append2)
  with assms show ?thesis by (simp add: record_and_check_def Let_def)
qed

end
