(* ===== verification/Rate_Limit.thy ===== *)
theory Rate_Limit
  imports Velocity_Prelude
begin

text \<open>
  The lock-free token bucket in front of tool calls (\<open>security/rate_limit.rs\<close>).  The bucket is
  shared by threads that only use relaxed atomic operations: a load may return any value that was
  ever stored, or that is out of date, so a load of the model returns an arbitrary value; a
  compare-and-exchange acts on the current value, and the weak form may fail without a reason.
  The monotonic clock is a 64-bit count of milliseconds that does not go back.
\<close>

section \<open>The bucket\<close>

record AtomicRateLimiter =
  tokens_scaled :: u64
  last_refill_ms :: u64
  burst_scaled :: u64
  rl_rate :: u32

definition DEFAULT_BURST :: u32 where
  "DEFAULT_BURST = 100"

definition DEFAULT_RATE :: u32 where
  "DEFAULT_RATE = 20"

definition with_limits :: "u32 \<Rightarrow> u32 \<Rightarrow> u64 \<Rightarrow> AtomicRateLimiter" where
  "with_limits rate burst now =
     \<lparr>tokens_scaled = ucast burst * 1000, last_refill_ms = now, burst_scaled = ucast burst * 1000, rl_rate = rate\<rparr>"

definition limiter_new :: "u64 \<Rightarrow> AtomicRateLimiter" where
  "limiter_new now = with_limits DEFAULT_RATE DEFAULT_BURST now"

text \<open>The limits of the process-wide limiter, from the parsed environment variables.\<close>

fun global_limiter :: "u32 option \<Rightarrow> u32 option \<Rightarrow> u64 \<Rightarrow> AtomicRateLimiter" where
  "global_limiter (Some rate) (Some burst) now = with_limits rate burst now"
| "global_limiter (Some rate) None now = with_limits rate 100 now"
| "global_limiter None (Some burst) now = with_limits 20 burst now"
| "global_limiter None None now = limiter_new now"

definition new_tokens :: "u64 \<Rightarrow> u64 \<Rightarrow> AtomicRateLimiter \<Rightarrow> u64" where
  "new_tokens now last_ms l = saturating_mul (now - last_ms) (ucast (rl_rate l))"

definition refilled :: "u64 \<Rightarrow> u64 \<Rightarrow> AtomicRateLimiter \<Rightarrow> u64" where
  "refilled current fresh l = min (saturating_add current fresh) (burst_scaled l)"

section \<open>One thread\<close>

text \<open>
  The points of \<open>try_acquire\<close> and \<open>available_tokens\<close> between two atomic operations, with the local
  values of the thread: the clock was read, the last refill was loaded, the race was won, the
  tokens were loaded, and the same for the consumption of a token.
\<close>

datatype limiter_op = TryAcquire | AvailableTokens

datatype limiter_pc =
    Ready
  | RefillRead limiter_op u64
  | RefillStamp limiter_op u64 u64
  | RefillLoad limiter_op u64
  | RefillSwap limiter_op u64 u64
  | AcquireLoad
  | AcquireSwap u64
  | AvailableLoad
  | Acquired bool
  | Reported u32

fun after_refill :: "limiter_op \<Rightarrow> limiter_pc" where
  "after_refill TryAcquire = AcquireLoad"
| "after_refill AvailableTokens = AvailableLoad"

fun returned :: "limiter_pc \<Rightarrow> bool" where
  "returned Ready = True"
| "returned (Acquired b) = True"
| "returned (Reported n) = True"
| "returned _ = False"

inductive limiter_step :: "u64 \<Rightarrow> AtomicRateLimiter \<times> limiter_pc \<Rightarrow> AtomicRateLimiter \<times> limiter_pc \<Rightarrow> bool" for clock where
  enter: "returned pc \<Longrightarrow> limiter_step clock (l, pc) (l, RefillRead ope clock)"
| read_last: "limiter_step clock (l, RefillRead ope now)
    (l, if now \<le> seen then after_refill ope else RefillStamp ope now seen)"
| stamp: "last_refill_ms l = seen \<Longrightarrow> limiter_step clock (l, RefillStamp ope now seen)
    (l\<lparr>last_refill_ms := now\<rparr>, RefillLoad ope (new_tokens now seen l))"
| stamp_lost: "last_refill_ms l \<noteq> seen \<Longrightarrow> limiter_step clock (l, RefillStamp ope now seen) (l, after_refill ope)"
| refill_load: "limiter_step clock (l, RefillLoad ope fresh) (l, RefillSwap ope fresh seen)"
| refill_swap: "tokens_scaled l = seen \<Longrightarrow> limiter_step clock (l, RefillSwap ope fresh seen)
    (l\<lparr>tokens_scaled := refilled seen fresh l\<rparr>, after_refill ope)"
| refill_retry: "limiter_step clock (l, RefillSwap ope fresh seen) (l, RefillLoad ope fresh)"
| acquire_load: "limiter_step clock (l, AcquireLoad) (l, if seen < 1000 then Acquired False else AcquireSwap seen)"
| acquire_swap: "tokens_scaled l = seen \<Longrightarrow> limiter_step clock (l, AcquireSwap seen)
    (l\<lparr>tokens_scaled := seen - 1000\<rparr>, Acquired True)"
| acquire_retry: "limiter_step clock (l, AcquireSwap seen) (l, AcquireLoad)"
| available_load: "limiter_step clock (l, AvailableLoad) (l, Reported (ucast ((seen :: u64) div 1000)))"

section \<open>Many threads\<close>

text \<open>The threads interleave; \<open>ls_granted\<close> counts the calls of \<open>try_acquire\<close> that returned true.\<close>

record limiter_system =
  ls_limiter :: AtomicRateLimiter
  ls_clock :: u64
  ls_threads :: "limiter_pc list"
  ls_granted :: nat

definition limiter_start :: "u32 \<Rightarrow> u32 \<Rightarrow> u64 \<Rightarrow> nat \<Rightarrow> limiter_system" where
  "limiter_start rate burst now n =
     \<lparr>ls_limiter = with_limits rate burst now, ls_clock = now, ls_threads = replicate n Ready, ls_granted = 0\<rparr>"

inductive system_step :: "limiter_system \<Rightarrow> limiter_system \<Rightarrow> bool" where
  thread: "i < length (ls_threads s) \<Longrightarrow> limiter_step (ls_clock s) (ls_limiter s, ls_threads s ! i) (l, pc) \<Longrightarrow>
    system_step s (s\<lparr>ls_limiter := l, ls_threads := (ls_threads s)[i := pc],
      ls_granted := ls_granted s + (if pc = Acquired True then 1 else 0)\<rparr>)"
| tick: "ls_clock s \<le> now \<Longrightarrow> system_step s (s\<lparr>ls_clock := now\<rparr>)"

section \<open>The rate holds under every interleaving\<close>

text \<open>Tokens a thread has claimed for the bucket by winning the race and not yet added.\<close>

fun claimed :: "limiter_pc \<Rightarrow> nat" where
  "claimed (RefillLoad ope fresh) = unat fresh"
| "claimed (RefillSwap ope fresh seen) = unat fresh"
| "claimed _ = 0"

fun clock_read :: "limiter_pc \<Rightarrow> u64" where
  "clock_read (RefillRead ope now) = now"
| "clock_read (RefillStamp ope now seen) = now"
| "clock_read _ = 0"

fun later_than_seen :: "limiter_pc \<Rightarrow> bool" where
  "later_than_seen (RefillStamp ope now seen) \<longleftrightarrow> seen < now"
| "later_than_seen (AcquireSwap seen) \<longleftrightarrow> 1000 \<le> seen"
| "later_than_seen _ \<longleftrightarrow> True"

definition pc_ok :: "u64 \<Rightarrow> limiter_pc \<Rightarrow> bool" where
  "pc_ok clock pc \<longleftrightarrow> clock_read pc \<le> clock \<and> later_than_seen pc"

lemma after_refill_facts [simp]:
  "claimed (after_refill ope) = 0" "clock_read (after_refill ope) = 0" "later_than_seen (after_refill ope)"
  "after_refill ope \<noteq> Acquired b"
  by (cases ope; simp)+

lemma refilled_bound: "unat (refilled seen fresh l) \<le> unat seen + unat fresh" "refilled seen fresh l \<le> burst_scaled l"
  using saturating_add_bounds(2) [of seen fresh] by (auto simp: refilled_def min_def word_le_nat_alt)

text \<open>One step of one thread neither mints tokens nor forgets the bounds.\<close>

lemma unat_ucast_u32: "unat (ucast (b :: u32) :: u64) = unat b"
proof -
  have "unat b < 2 ^ 32" using unsigned_less [of b] by simp
  then show ?thesis by (simp add: unsigned_ucast_eq take_bit_nat_eq_self)
qed

lemma new_tokens_bound:
  assumes "seen < now"
  shows "unat (new_tokens now seen l) \<le> unat (rl_rate l) * (unat now - unat seen)"
proof -
  have "unat (now - seen) = unat now - unat seen" using assms by (simp add: unat_sub)
  with saturating_mul_bound [of "now - seen" "ucast (rl_rate l)"] show ?thesis
    by (simp add: new_tokens_def unat_ucast_u32 mult.commute)
qed

lemma step_bounds:
  assumes "limiter_step clock (l, pc) (l', pc')" "pc_ok clock pc" "last_refill_ms l \<le> clock" "tokens_scaled l \<le> burst_scaled l"
  shows "pc_ok clock pc' \<and> last_refill_ms l \<le> last_refill_ms l' \<and> last_refill_ms l' \<le> clock
    \<and> tokens_scaled l' \<le> burst_scaled l' \<and> burst_scaled l' = burst_scaled l \<and> rl_rate l' = rl_rate l"
  using assms(1)
proof cases
  case (acquire_swap seen)
  have "1000 \<le> tokens_scaled l" using assms(2) acquire_swap by (simp add: pc_ok_def)
  then have "tokens_scaled l - 1000 \<le> tokens_scaled l" by (simp add: word_sub_le)
  with acquire_swap assms(3,4) show ?thesis by (auto simp: pc_ok_def)
qed (use assms(2-4) refilled_bound(2) in \<open>auto simp: pc_ok_def not_le not_less\<close>)

lemma step_conserves:
  assumes "limiter_step clock (l, pc) (l', pc')" "pc_ok clock pc"
  shows "(if pc' = Acquired True then 1000 else 0) + unat (tokens_scaled l') + claimed pc'
    \<le> unat (tokens_scaled l) + claimed pc + unat (rl_rate l) * (unat (last_refill_ms l') - unat (last_refill_ms l))"
  using assms(1)
proof cases
  case (stamp seen ope now)
  with new_tokens_bound [of seen now l] assms(2) show ?thesis by (simp add: pc_ok_def)
next
  case (refill_swap seen ope fresh)
  with refilled_bound(1) [of seen fresh l] show ?thesis by (cases ope) auto
next
  case (acquire_swap seen)
  have "1000 \<le> seen" using assms(2) acquire_swap by (simp add: pc_ok_def)
  then have "unat (seen - 1000) = unat seen - 1000" "1000 \<le> unat seen" by (simp_all add: unat_sub word_le_nat_alt)
  with acquire_swap show ?thesis by simp
qed (auto split: if_splits)

definition limiter_inv :: "u32 \<Rightarrow> u32 \<Rightarrow> u64 \<Rightarrow> limiter_system \<Rightarrow> bool" where
  "limiter_inv rate burst t0 s \<longleftrightarrow>
     rl_rate (ls_limiter s) = rate \<and> burst_scaled (ls_limiter s) = ucast burst * 1000
     \<and> tokens_scaled (ls_limiter s) \<le> burst_scaled (ls_limiter s)
     \<and> t0 \<le> last_refill_ms (ls_limiter s) \<and> last_refill_ms (ls_limiter s) \<le> ls_clock s
     \<and> list_all (pc_ok (ls_clock s)) (ls_threads s)
     \<and> 1000 * ls_granted s + unat (tokens_scaled (ls_limiter s)) + (\<Sum>pc\<leftarrow>ls_threads s. claimed pc)
         \<le> 1000 * unat burst + unat rate * (unat (last_refill_ms (ls_limiter s)) - unat t0)"

lemma sum_list_upd: "i < length xs \<Longrightarrow> (\<Sum>x\<leftarrow>xs[i := y]. f x) + f (xs ! i) = (\<Sum>x\<leftarrow>xs. f x) + (f y :: nat)"
proof (induction xs arbitrary: i)
  case (Cons x xs)
  then show ?case by (cases i) (simp_all add: algebra_simps)
qed simp

lemma burst_word: "unat (ucast (b :: u32) * 1000 :: u64) = 1000 * unat b"
proof -
  have "unat b < 2 ^ 32" using unsigned_less [of b] by simp
  then show ?thesis by (simp add: unat_word_ariths unat_ucast_u32)
qed

lemma start_inv: "limiter_inv rate burst t0 (limiter_start rate burst t0 n)"
  by (auto simp: limiter_inv_def limiter_start_def with_limits_def burst_word pc_ok_def list_all_length sum_list_replicate)

lemma system_step_inv:
  assumes "system_step s s'" "limiter_inv rate burst t0 s"
  shows "limiter_inv rate burst t0 s'"
  using assms(1)
proof cases
  case (thread i l pc)
  let ?l = "ls_limiter s" and ?pc = "ls_threads s ! i"
  have ok: "pc_ok (ls_clock s) ?pc" using assms(2) thread(2) by (simp add: limiter_inv_def list_all_length)
  have b: "last_refill_ms ?l \<le> ls_clock s" "tokens_scaled ?l \<le> burst_scaled ?l" using assms(2) by (auto simp only: limiter_inv_def)
  note bounds = step_bounds [OF thread(3) ok b]
  have "t0 \<le> last_refill_ms ?l" using assms(2) by (simp add: limiter_inv_def)
  then have split: "unat rate * (unat (last_refill_ms l) - unat (last_refill_ms ?l)) + unat rate * (unat (last_refill_ms ?l) - unat t0)
    = unat rate * (unat (last_refill_ms l) - unat t0)"
    using bounds by (simp add: word_le_nat_alt flip: distrib_left)
  have sum: "(\<Sum>pc\<leftarrow>(ls_threads s)[i := pc]. claimed pc) + claimed ?pc = (\<Sum>pc\<leftarrow>ls_threads s. claimed pc) + claimed pc"
    by (rule sum_list_upd [OF thread(2)])
  have "list_all (pc_ok (ls_clock s)) ((ls_threads s)[i := pc])"
    using assms(2) bounds set_update_subset_insert [of "ls_threads s" i pc] by (auto simp: limiter_inv_def list_all_iff)
  moreover have "1000 * ls_granted s + unat (tokens_scaled ?l) + (\<Sum>pc\<leftarrow>ls_threads s. claimed pc)
    \<le> 1000 * unat burst + unat rate * (unat (last_refill_ms ?l) - unat t0)" using assms(2) by (simp add: limiter_inv_def)
  moreover have "rl_rate ?l = rate" using assms(2) by (simp add: limiter_inv_def)
  ultimately show ?thesis
    using assms(2) thread(1) bounds step_conserves [OF thread(3) ok] sum split
    by (auto simp: limiter_inv_def split: if_splits)
next
  case (tick now)
  with assms(2) show ?thesis by (auto simp: limiter_inv_def pc_ok_def list_all_iff)
qed

section \<open>A thread on its own\<close>

text \<open>What the calls compute when no other thread interferes and the loads are current.\<close>

definition refill :: "u64 \<Rightarrow> AtomicRateLimiter \<Rightarrow> AtomicRateLimiter" where
  "refill now l =
     (if now \<le> last_refill_ms l then l
      else l\<lparr>last_refill_ms := now, tokens_scaled := refilled (tokens_scaled l) (new_tokens now (last_refill_ms l) l) l\<rparr>)"

definition try_acquire :: "u64 \<Rightarrow> AtomicRateLimiter \<Rightarrow> bool \<times> AtomicRateLimiter" where
  "try_acquire now l0 =
     (let l = refill now l0 in
      if tokens_scaled l < 1000 then (False, l) else (True, l\<lparr>tokens_scaled := tokens_scaled l - 1000\<rparr>))"

definition available_tokens :: "u64 \<Rightarrow> AtomicRateLimiter \<Rightarrow> u32 \<times> AtomicRateLimiter" where
  "available_tokens now l0 = (let l = refill now l0 in (ucast (tokens_scaled l div 1000), l))"

lemma refill_solo: "returned pc \<Longrightarrow> (limiter_step now)\<^sup>*\<^sup>* (l, pc) (refill now l, after_refill ope)"
proof -
  assume r: "returned pc"
  let ?seen = "last_refill_ms l"
  have start: "(limiter_step now)\<^sup>*\<^sup>* (l, pc) (l, RefillRead ope now)" using limiter_step.enter [OF r] by blast
  show ?thesis
  proof (cases "now \<le> ?seen")
    case True
    then have "limiter_step now (l, RefillRead ope now) (l, after_refill ope)" using limiter_step.read_last [of now l ope now ?seen] by simp
    with start True show ?thesis by (simp add: refill_def)
  next
    case False
    let ?l1 = "l\<lparr>last_refill_ms := now\<rparr>" and ?n = "new_tokens now ?seen l"
    have "limiter_step now (l, RefillRead ope now) (l, RefillStamp ope now ?seen)"
      using False limiter_step.read_last [of now l ope now ?seen] by simp
    moreover have "limiter_step now (l, RefillStamp ope now ?seen) (?l1, RefillLoad ope ?n)" by (rule limiter_step.stamp) simp
    moreover have "limiter_step now (?l1, RefillLoad ope ?n) (?l1, RefillSwap ope ?n (tokens_scaled l))" by (rule limiter_step.refill_load)
    moreover have "limiter_step now (?l1, RefillSwap ope ?n (tokens_scaled l)) (refill now l, after_refill ope)"
      using limiter_step.refill_swap [of ?l1 "tokens_scaled l" now ope ?n] False by (simp add: refill_def refilled_def)
    ultimately show ?thesis using start by (meson rtranclp.rtrancl_into_rtrancl)
  qed
qed

lemma try_acquire_solo:
  assumes "returned pc" "try_acquire now l = (b, l')"
  shows "(limiter_step now)\<^sup>*\<^sup>* (l, pc) (l', Acquired b)"
proof -
  let ?l = "refill now l"
  have r: "(limiter_step now)\<^sup>*\<^sup>* (l, pc) (?l, AcquireLoad)" using refill_solo [OF assms(1), of now l TryAcquire] by simp
  show ?thesis
  proof (cases "tokens_scaled ?l < 1000")
    case True
    with assms(2) have "b = False" "l' = ?l" by (simp_all add: try_acquire_def Let_def)
    with r True limiter_step.acquire_load [of now ?l "tokens_scaled ?l"] show ?thesis by (simp add: rtranclp.rtrancl_into_rtrancl)
  next
    case False
    with assms(2) have b: "b = True" "l' = ?l\<lparr>tokens_scaled := tokens_scaled ?l - 1000\<rparr>" by (auto simp: try_acquire_def Let_def)
    have "limiter_step now (?l, AcquireLoad) (?l, AcquireSwap (tokens_scaled ?l))"
      using False limiter_step.acquire_load [of now ?l "tokens_scaled ?l"] by simp
    moreover have "limiter_step now (?l, AcquireSwap (tokens_scaled ?l)) (l', Acquired b)"
      unfolding b by (rule limiter_step.acquire_swap) simp
    ultimately show ?thesis using r by (meson rtranclp.rtrancl_into_rtrancl)
  qed
qed

lemma solo_system:
  assumes "(limiter_step c)\<^sup>*\<^sup>* (l, pc) (l', pc')"
  shows "\<exists>g'. system_step\<^sup>*\<^sup>* \<lparr>ls_limiter = l, ls_clock = c, ls_threads = [pc], ls_granted = g\<rparr>
    \<lparr>ls_limiter = l', ls_clock = c, ls_threads = [pc'], ls_granted = g'\<rparr>"
  using assms
proof (induction "(l', pc')" arbitrary: l' pc' rule: rtranclp_induct)
  case (step y)
  obtain l1 pc1 where y: "y = (l1, pc1)" by fastforce
  from step.hyps(3) [OF y] obtain g1 where "system_step\<^sup>*\<^sup>* \<lparr>ls_limiter = l, ls_clock = c, ls_threads = [pc], ls_granted = g\<rparr>
    \<lparr>ls_limiter = l1, ls_clock = c, ls_threads = [pc1], ls_granted = g1\<rparr>" by blast
  moreover have "system_step \<lparr>ls_limiter = l1, ls_clock = c, ls_threads = [pc1], ls_granted = g1\<rparr>
    \<lparr>ls_limiter = l', ls_clock = c, ls_threads = [pc'], ls_granted = g1 + (if pc' = Acquired True then 1 else 0)\<rparr>"
    using step.hyps(2) y system_step.thread [of 0 "\<lparr>ls_limiter = l1, ls_clock = c, ls_threads = [pc1], ls_granted = g1\<rparr>" l' pc'] by simp
  ultimately show ?case by (meson rtranclp.rtrancl_into_rtrancl)
qed auto

section \<open>The bound\<close>

text \<open>
  C18. The rate limit holds under every interleaving.  However many threads call \<open>try_acquire\<close> and
  \<open>available_tokens\<close>, in whatever order their atomic operations interleave, whatever stale values
  their loads return and however often a weak exchange fails, at any time the calls let through
  since the start are at most the burst and what the rate yields for the time that has passed, and the
  bucket never holds more than the burst.
\<close>

theorem rate_limit_holds:
  assumes "system_step\<^sup>*\<^sup>* (limiter_start rate burst t0 n) s"
  shows "1000 * ls_granted s \<le> 1000 * unat burst + unat rate * (unat (ls_clock s) - unat t0)
    \<and> unat (tokens_scaled (ls_limiter s)) \<le> 1000 * unat burst"
proof -
  have "limiter_inv rate burst t0 s" using assms
    by (induction rule: rtranclp_induct) (auto intro: start_inv system_step_inv)
  then have "1000 * ls_granted s + unat (tokens_scaled (ls_limiter s)) + (\<Sum>pc\<leftarrow>ls_threads s. claimed pc)
      \<le> 1000 * unat burst + unat rate * (unat (last_refill_ms (ls_limiter s)) - unat t0)"
    and c: "last_refill_ms (ls_limiter s) \<le> ls_clock s" and t: "tokens_scaled (ls_limiter s) \<le> burst_scaled (ls_limiter s)"
    and b: "burst_scaled (ls_limiter s) = ucast burst * 1000"
    by (auto simp only: limiter_inv_def)
  moreover have "unat (tokens_scaled (ls_limiter s)) \<le> 1000 * unat burst"
    using t unfolding b by (simp add: word_le_nat_alt burst_word)
  moreover have "unat rate * (unat (last_refill_ms (ls_limiter s)) - unat t0) \<le> unat rate * (unat (ls_clock s) - unat t0)"
    using c by (intro mult_le_mono2 diff_le_mono) (simp add: word_le_nat_alt)
  ultimately show ?thesis by linarith
qed

theorem rate_limit_holds_witness:
  "\<exists>s. system_step\<^sup>*\<^sup>* (limiter_start 20 3 5 1) s \<and> ls_threads s = [Acquired True] \<and> 1000 * ls_granted s \<le> 3000 + 20 * (unat (ls_clock s) - 5)"
proof -
  have "fst (try_acquire 5 (with_limits 20 3 5)) = True" by code_simp
  then obtain l where "try_acquire 5 (with_limits 20 3 5) = (True, l)" by (metis prod.collapse)
  from try_acquire_solo [OF _ this, of Ready] have "(limiter_step 5)\<^sup>*\<^sup>* (with_limits 20 3 5, Ready) (l, Acquired True)" by simp
  from solo_system [OF this, of 0] obtain g where "system_step\<^sup>*\<^sup>* (limiter_start 20 3 5 1)
      \<lparr>ls_limiter = l, ls_clock = 5, ls_threads = [Acquired True], ls_granted = g\<rparr>"
    by (auto simp: limiter_start_def)
  with rate_limit_holds [OF this] show ?thesis by (intro exI conjI) auto
qed

text \<open>Whoever waits for a token gets it: no refill is lost to rounding.\<close>

lemma unat_saturated: "1000 \<le> unat a * unat b \<Longrightarrow> 1000 \<le> unat (saturating_mul a b)" "unat b \<le> unat (saturating_add a b)"
proof -
  have m: "unat (- 1 :: u64) = 2 ^ 64 - 1" by (simp add: unsigned_minus_1_eq_mask mask_eq_exp_minus_1)
  show "1000 \<le> unat a * unat b \<Longrightarrow> 1000 \<le> unat (saturating_mul a b)"
    by (simp add: saturating_mul_def m unat_word_ariths)
  have "unat (a + b) = (if unat a + unat b < 2 ^ 64 then unat a + unat b else unat a + unat b - 2 ^ 64)"
    by (simp add: unat_plus_if')
  then show "unat b \<le> unat (saturating_add a b)" using unat_less_2p [of a] unat_less_2p [of b]
    by (auto simp: saturating_add_def m word_less_nat_alt split: if_splits)
qed

lemma waiting_caller_served:
  assumes "last_refill_ms l < now" "1000 \<le> unat (rl_rate l) * (unat now - unat (last_refill_ms l))" "1000 \<le> burst_scaled l"
  shows "fst (try_acquire now l)"
proof -
  have "unat (now - last_refill_ms l) = unat now - unat (last_refill_ms l)" using assms(1) by (simp add: unat_sub)
  then have "1000 \<le> unat (new_tokens now (last_refill_ms l) l)"
    using assms(2) by (simp add: new_tokens_def unat_ucast_u32 unat_saturated(1) mult.commute)
  then have "1000 \<le> unat (refilled (tokens_scaled l) (new_tokens now (last_refill_ms l) l) l)"
    using unat_saturated(2) [of "new_tokens now (last_refill_ms l) l" "tokens_scaled l"] assms(3)
    by (auto simp: refilled_def min_def word_le_nat_alt)
  then show ?thesis using assms(1) by (simp add: try_acquire_def refill_def word_less_nat_alt word_le_nat_alt Let_def)
qed

end
