(* ===== verification/Event_Store.thy ===== *)
theory Event_Store
  imports Op_Log_Store Json_Value
begin

text \<open>
  The decision trail of a workspace (\<open>registry/event_store.rs\<close>): one serialized event per line of a
  file, numbered from the last line, edited in place and halved when it outgrows its bound.  Every
  operation holds one lock, so operations run one after the other.  The file is its bytes,
  \<open>None\<close> when it does not exist.  The serializer, the check of UTF-8 and its lossy decoding of a
  line are parameters (\<open>event_env\<close>), and so is what the file system does during one operation
  (\<open>event_io\<close>).
\<close>

section \<open>Events\<close>

fun event_outcome_label :: "EventOutcome \<Rightarrow> string" where
  "event_outcome_label Success = ''success''"
| "event_outcome_label Failure = ''failure''"
| "event_outcome_label Revert = ''revert''"
| "event_outcome_label Pending = ''pending''"

record CodebaseEvent =
  ev_sequence :: u64
  ev_timestamp_ms :: u64
  ev_tool_name :: string
  ev_description :: string
  ev_merkle_root_before :: "string option"
  ev_merkle_root_after :: "string option"
  ev_context :: "string option"
  ev_outcome :: EventOutcome
  ev_failure_reason :: "string option"
  ev_affected_files :: "string list"
  ev_metadata :: "Json option"
  ev_actor :: Principal

definition READ_ONLY :: "string list" where
  "READ_ONLY = [''read_file'', ''grep_search'', ''search_'', ''list_'', ''glob'', ''gui_get_state'', ''gui_'',
     ''browser_'', ''event_history'', ''event_timeline'', ''event_context'', ''use_skill'', ''sitemap_query'', ''view_'']"

definition is_read_only_tool :: "string \<Rightarrow> bool" where
  "is_read_only_tool tool \<longleftrightarrow> list_ex (\<lambda>p. starts_with tool p) READ_ONLY"

definition has_metadata :: "string \<Rightarrow> CodebaseEvent \<Rightarrow> bool" where
  "has_metadata key e \<longleftrightarrow> Option.bind (ev_metadata e) (json_get key) \<noteq> None"

definition is_high_signal :: "CodebaseEvent \<Rightarrow> bool" where
  "is_high_signal e \<longleftrightarrow>
     ev_outcome e = Failure \<or> ev_outcome e = Revert
     \<or> has_metadata ''shared_write_conflict'' e \<or> has_metadata ''stale_plan'' e \<or> has_metadata ''worker_task_outcome'' e
     \<or> (case (ev_merkle_root_before e, ev_merkle_root_after e) of (Some b, Some a) \<Rightarrow> b \<noteq> a | _ \<Rightarrow> False)
     \<or> \<not> is_read_only_tool (ev_tool_name e)"

section \<open>The bound of the log\<close>

datatype LimitSetting = DefaultLimit | Unbounded | LimitValue u64

definition UNBOUNDED_WORDS :: "string list" where
  "UNBOUNDED_WORDS = [''0'', ''off'', ''none'', ''unbounded'', ''unlimited'', ''infinite'']"

definition parse_limit_setting :: "string option \<Rightarrow> LimitSetting" where
  "parse_limit_setting raw =
     (case raw of
        None \<Rightarrow> DefaultLimit
      | Some v \<Rightarrow>
          (let normalized = to_lowercase (trim v) in
           if trim v = [] then DefaultLimit
           else if normalized \<in> set UNBOUNDED_WORDS then Unbounded
           else (case parse_u64 normalized of Some n \<Rightarrow> LimitValue n | None \<Rightarrow> DefaultLimit)))"

definition DEFAULT_EVENT_LOG_MAX_BYTES :: u64 where
  "DEFAULT_EVENT_LOG_MAX_BYTES = 8 * 1024 * 1024"

definition RETENTION_FLOOR_EVENTS :: nat where
  "RETENTION_FLOOR_EVENTS = 256"

definition SEQUENCE_TAIL_WINDOW_BYTES :: nat where
  "SEQUENCE_TAIL_WINDOW_BYTES = 64 * 1024"

definition retention_limit :: "string option \<Rightarrow> u64" where
  "retention_limit raw = (case parse_limit_setting raw of
     Unbounded \<Rightarrow> - 1 | LimitValue bytes \<Rightarrow> bytes | DefaultLimit \<Rightarrow> DEFAULT_EVENT_LOG_MAX_BYTES)"

text \<open>The handle of a store is its bound; the directory is left out.\<close>

definition event_store_open :: "string option \<Rightarrow> u64" where
  "event_store_open setting = retention_limit setting"

definition with_max_bytes :: "u64 \<Rightarrow> u64" where
  "with_max_bytes max_bytes = (if max_bytes = 0 then - 1 else max_bytes)"

section \<open>Reading\<close>

record event_env =
  ee_ser :: "CodebaseEvent \<Rightarrow> string option"
  ee_de :: "string \<Rightarrow> CodebaseEvent option"
  ee_utf8 :: "string \<Rightarrow> bool"
  ee_lossy :: "string \<Rightarrow> string"

datatype save_outcome = SaveWorks | SaveRefused | SaveStops nat

text \<open>
  What the file system does during one operation: whether the tail can be read, whether the first
  and the second full read open, whether the last byte can be read, whether the append opens, where its
  write stops, whether it can be flushed, whether the length is known and how a rewrite ends.
\<close>

record event_io =
  eo_tail :: bool
  eo_load :: "nat \<Rightarrow> bool"
  eo_last_byte :: bool
  eo_open :: bool
  eo_write :: "nat option"
  eo_flush :: bool
  eo_stat :: bool
  eo_save :: save_outcome

datatype event_error = EvOpenFailed | EvSerializeFailed | EvAppendFailed | EvWriteFailed | EvFlushFailed | EvSaveFailed

definition looks_like_event :: "string \<Rightarrow> bool" where
  "looks_like_event frag \<longleftrightarrow>
     str_contains ([CHR 0x22] @ ''sequence'' @ [CHR 0x22]) frag \<and> str_contains ([CHR 0x22] @ ''tool_name'' @ [CHR 0x22]) frag"

text \<open>
  The scan of \<open>recover_concatenated\<close>: the bytes left, the depth of braces, whether a string and an
  escape are open, and the bytes since the start of the fragment, in reverse.
\<close>

function recover_scan :: "string \<Rightarrow> int \<Rightarrow> bool \<Rightarrow> bool \<Rightarrow> string \<Rightarrow> string list" where
  "recover_scan [] depth in_string escaped seen = []"
| "recover_scan (b # bs) depth in_string escaped seen =
     (if in_string then
        (if escaped then recover_scan bs depth True False (b # seen)
         else if b = CHR 0x5C then recover_scan bs depth True True (b # seen)
         else recover_scan bs depth (b \<noteq> CHR 0x22) False (b # seen))
      else if b = CHR 0x22 then recover_scan bs depth True escaped (b # seen)
      else if b = CHR ''{'' then recover_scan bs (depth + 1) False escaped (b # seen)
      else if b = CHR ''}'' \<and> depth = 1 then
        (let frag = rev (b # seen); rest = dropWhile is_whitespace bs in
         (if looks_like_event frag then [frag] else []) @ (if rest = [] then [] else recover_scan rest 0 False escaped []))
      else recover_scan bs (if b = CHR ''}'' then depth - 1 else depth) False escaped (b # seen))"
  by pat_completeness auto
termination recover_scan
  by (relation "measure (\<lambda>(s, _). length s)") (auto simp: le_imp_less_Suc length_dropWhile_le)

definition recover_concatenated :: "string \<Rightarrow> string list" where
  "recover_concatenated s = (let fragments = recover_scan s 0 False False [] in if length fragments \<le> 1 then [] else fragments)"

text \<open>The events of one trimmed line, and of one line of the file.\<close>

definition events_of :: "event_env \<Rightarrow> string \<Rightarrow> CodebaseEvent list" where
  "events_of env line =
     (case ee_de env line of Some e \<Rightarrow> [e] | None \<Rightarrow> List.map_filter (ee_de env) (recover_concatenated line))"

definition line_events :: "event_env \<Rightarrow> string \<Rightarrow> CodebaseEvent list" where
  "line_events env line =
     (let trimmed = trim line in if \<not> ee_utf8 env line \<or> trimmed = [] then [] else events_of env trimmed)"

definition file_events :: "event_env \<Rightarrow> string option \<Rightarrow> CodebaseEvent list" where
  "file_events env file = (case file of None \<Rightarrow> [] | Some c \<Rightarrow> concat (map (line_events env) (text_lines c)))"

definition load_all :: "event_env \<Rightarrow> bool \<Rightarrow> string option \<Rightarrow> event_error + CodebaseEvent list" where
  "load_all env opens file = (if file \<noteq> None \<and> \<not> opens then Inl EvOpenFailed else Inr (file_events env file))"

definition query_matches :: "string option \<Rightarrow> EventOutcome option \<Rightarrow> CodebaseEvent \<Rightarrow> bool" where
  "query_matches file_filter outcome_filter e \<longleftrightarrow>
     (case file_filter of Some f \<Rightarrow> list_ex (\<lambda>g. str_contains f g) (ev_affected_files e) | None \<Rightarrow> True)
     \<and> (case outcome_filter of Some oc \<Rightarrow> ev_outcome e = oc | None \<Rightarrow> True)"

definition event_query ::
  "event_env \<Rightarrow> bool \<Rightarrow> string option \<Rightarrow> string option \<Rightarrow> EventOutcome option \<Rightarrow> nat \<Rightarrow> event_error + CodebaseEvent list" where
  "event_query env opens file file_filter outcome_filter limit =
     map_sum id (\<lambda>es. take limit (filter (query_matches file_filter outcome_filter) (rev es))) (load_all env opens file)"

definition event_get :: "event_env \<Rightarrow> bool \<Rightarrow> string option \<Rightarrow> u64 \<Rightarrow> event_error + CodebaseEvent option" where
  "event_get env opens file sequence = map_sum id (List.find (\<lambda>e. ev_sequence e = sequence)) (load_all env opens file)"

definition event_count :: "event_env \<Rightarrow> bool \<Rightarrow> string option \<Rightarrow> event_error + nat" where
  "event_count env opens file = map_sum id length (load_all env opens file)"

definition by_merkle_root :: "event_env \<Rightarrow> bool \<Rightarrow> string option \<Rightarrow> string \<Rightarrow> event_error + CodebaseEvent list" where
  "by_merkle_root env opens file root_hex =
     map_sum id (filter (\<lambda>e. ev_merkle_root_before e = Some root_hex \<or> ev_merkle_root_after e = Some root_hex)) (load_all env opens file)"

section \<open>Numbering\<close>

definition highest_sequence_on_line :: "event_env \<Rightarrow> string \<Rightarrow> u64 option" where
  "highest_sequence_on_line env line =
     (case map ev_sequence (events_of env line) of [] \<Rightarrow> None | s # ss \<Rightarrow> Some (foldl max s ss))"

definition tail_sequence :: "event_env \<Rightarrow> nat \<Rightarrow> string \<Rightarrow> u64 option" where
  "tail_sequence env window c =
     (if c = [] then Some 1
      else
        (let w = min (length c) window;
             complete = butlast (split_on newline (drop (length c - w) c));
             whole = (if w < length c then tl complete else complete)
         in if w < length c \<and> length complete \<le> 1 then None
            else if whole = [] then None
            else
              (let last_line = trim (ee_lossy env (last whole)) in
               if last_line = [] then None else map_option (\<lambda>s. s + 1) (highest_sequence_on_line env last_line))))"

definition next_sequence_from_tail :: "event_env \<Rightarrow> bool \<Rightarrow> string option \<Rightarrow> u64 option" where
  "next_sequence_from_tail env readable file =
     (case file of Some c \<Rightarrow> if readable then tail_sequence env SEQUENCE_TAIL_WINDOW_BYTES c else None | None \<Rightarrow> None)"

definition after_last_event :: "CodebaseEvent list \<Rightarrow> u64" where
  "after_last_event es = (if es = [] then 1 else ev_sequence (last es) + 1)"

definition next_sequence :: "event_env \<Rightarrow> event_io \<Rightarrow> string option \<Rightarrow> event_error + u64" where
  "next_sequence env io file =
     (case next_sequence_from_tail env (eo_tail io) file of
        Some n \<Rightarrow> Inr n
      | None \<Rightarrow> map_sum id after_last_event (load_all env (eo_load io 0) file))"

section \<open>Writing\<close>

definition log_ends_on_a_line_break :: "bool \<Rightarrow> string option \<Rightarrow> bool" where
  "log_ends_on_a_line_break readable file \<longleftrightarrow> (case file of None \<Rightarrow> True | Some c \<Rightarrow> \<not> readable \<or> c = [] \<or> last c = newline)"

definition event_payload :: "bool \<Rightarrow> string \<Rightarrow> string" where
  "event_payload needs_newline line = (if needs_newline then [newline] else []) @ line @ [newline]"

definition append_event :: "event_env \<Rightarrow> event_io \<Rightarrow> CodebaseEvent \<Rightarrow> string option \<Rightarrow> (event_error + unit) \<times> string option" where
  "append_event env io e file =
     (case ee_ser env e of
        None \<Rightarrow> (Inl EvSerializeFailed, file)
      | Some line \<Rightarrow>
          (let payload = event_payload (\<not> log_ends_on_a_line_break (eo_last_byte io) file) line;
               c = (case file of Some c \<Rightarrow> c | None \<Rightarrow> [])
           in if \<not> eo_open io then (Inl EvAppendFailed, file)
              else (case eo_write io of
                  Some n \<Rightarrow> (Inl EvWriteFailed, Some (c @ take n payload))
                | None \<Rightarrow> (if eo_flush io then Inr () else Inl EvFlushFailed, Some (c @ payload)))))"

fun render_events :: "event_env \<Rightarrow> CodebaseEvent list \<Rightarrow> string option" where
  "render_events env [] = Some []"
| "render_events env (e # es) =
     (case (ee_ser env e, render_events env es) of (Some l, Some rest) \<Rightarrow> Some (l @ [newline] @ rest) | _ \<Rightarrow> None)"

definition save_all :: "event_env \<Rightarrow> event_io \<Rightarrow> CodebaseEvent list \<Rightarrow> string option \<Rightarrow> (event_error + unit) \<times> string option" where
  "save_all env io es file =
     (case render_events env es of
        None \<Rightarrow> (Inl EvSerializeFailed, file)
      | Some c \<Rightarrow> (case eo_save io of
            SaveWorks \<Rightarrow> (Inr (), Some c)
          | SaveRefused \<Rightarrow> (Inl EvSaveFailed, file)
          | SaveStops n \<Rightarrow> (Inl EvSaveFailed, Some (take n c))))"

definition enforce_retention :: "event_env \<Rightarrow> event_io \<Rightarrow> u64 \<Rightarrow> string option \<Rightarrow> string option" where
  "enforce_retention env io limit file =
     (case file of
        None \<Rightarrow> None
      | Some c \<Rightarrow>
          if \<not> eo_stat io \<or> length c \<le> unat limit then file
          else (case load_all env (eo_load io 1) file of
              Inl _ \<Rightarrow> file
            | Inr es \<Rightarrow>
                if length es \<le> RETENTION_FLOOR_EVENTS then file
                else snd (save_all env io (drop (length es - max (length es div 2) RETENTION_FLOOR_EVENTS) es) file)))"

text \<open>The arguments of \<open>record_with_metadata\<close>.\<close>

record EventDraft =
  dr_tool_name :: string
  dr_description :: string
  dr_merkle_root_before :: "string option"
  dr_merkle_root_after :: "string option"
  dr_context :: "string option"
  dr_affected_files :: "string list"
  dr_outcome :: EventOutcome
  dr_failure_reason :: "string option"
  dr_metadata :: "Json option"

definition event_of_draft :: "u64 \<Rightarrow> u64 \<Rightarrow> EventDraft \<Rightarrow> CodebaseEvent" where
  "event_of_draft sequence now d =
     \<lparr>ev_sequence = sequence, ev_timestamp_ms = now, ev_tool_name = dr_tool_name d, ev_description = dr_description d,
      ev_merkle_root_before = dr_merkle_root_before d, ev_merkle_root_after = dr_merkle_root_after d,
      ev_context = dr_context d, ev_outcome = dr_outcome d, ev_failure_reason = dr_failure_reason d,
      ev_affected_files = dr_affected_files d, ev_metadata = dr_metadata d, ev_actor = principal_default\<rparr>"

definition record_with_metadata ::
  "event_env \<Rightarrow> event_io \<Rightarrow> u64 \<Rightarrow> u64 \<Rightarrow> EventDraft \<Rightarrow> string option \<Rightarrow> (event_error + u64) \<times> string option" where
  "record_with_metadata env io limit now draft file =
     (case next_sequence env io file of
        Inl e \<Rightarrow> (Inl e, file)
      | Inr n \<Rightarrow>
          (case append_event env io (event_of_draft n now draft) file of
             (Inl e, file') \<Rightarrow> (Inl e, file')
           | (Inr _, file') \<Rightarrow> (Inr n, enforce_retention env io limit file')))"

definition event_record ::
  "event_env \<Rightarrow> event_io \<Rightarrow> u64 \<Rightarrow> u64 \<Rightarrow> string \<Rightarrow> string \<Rightarrow> string option \<Rightarrow> string option \<Rightarrow> string option \<Rightarrow> string list
     \<Rightarrow> string option \<Rightarrow> (event_error + u64) \<times> string option" where
  "event_record env io limit now tool description before after context files file =
     record_with_metadata env io limit now
       \<lparr>dr_tool_name = tool, dr_description = description, dr_merkle_root_before = before, dr_merkle_root_after = after,
        dr_context = context, dr_affected_files = files, dr_outcome = Pending, dr_failure_reason = None, dr_metadata = None\<rparr> file"

definition shared_write_conflict_draft ::
  "string \<Rightarrow> string \<Rightarrow> string \<Rightarrow> string \<Rightarrow> string \<Rightarrow> string list \<Rightarrow> string \<Rightarrow> EventDraft" where
  "shared_write_conflict_draft tool description conflict_kind existing requested files contract =
     \<lparr>dr_tool_name = tool, dr_description = description, dr_merkle_root_before = None, dr_merkle_root_after = None,
      dr_context = Some (''Shared-write conflict ('' @ conflict_kind @ ''): '' @ requested @ '' blocked by '' @ existing),
      dr_affected_files = files, dr_outcome = Failure, dr_failure_reason = Some (''conflict: '' @ conflict_kind),
      dr_metadata = Some (JObj [(''conflict_kind'', JStr conflict_kind), (''existing_agent'', JStr existing),
        (''mediation_contract'', JStr contract), (''requested_agent'', JStr requested), (''shared_write_conflict'', JBool True)])\<rparr>"

definition stale_plan_draft :: "string \<Rightarrow> string \<Rightarrow> string \<Rightarrow> string list \<Rightarrow> EventDraft" where
  "stale_plan_draft description planned actual files =
     \<lparr>dr_tool_name = ''worker_assignment'', dr_description = description, dr_merkle_root_before = Some actual,
      dr_merkle_root_after = None,
      dr_context = Some (''Plan built against site-map root '' @ planned @ '' but the workspace is now '' @ actual
        @ ''; assignment discarded as stale.''),
      dr_affected_files = files, dr_outcome = Failure, dr_failure_reason = Some ''stale plan'',
      dr_metadata = Some (JObj [(''actual_site_map_root'', JStr actual), (''planned_site_map_root'', JStr planned),
        (''stale_plan'', JBool True)])\<rparr>"

definition task_outcome_draft :: "u64 \<Rightarrow> string \<Rightarrow> EventOutcome \<Rightarrow> string \<Rightarrow> string list \<Rightarrow> EventDraft" where
  "task_outcome_draft task_id description outcome summary files =
     \<lparr>dr_tool_name = ''worker_task'', dr_description = description, dr_merkle_root_before = None, dr_merkle_root_after = None,
      dr_context = Some summary, dr_affected_files = files, dr_outcome = outcome, dr_failure_reason = None,
      dr_metadata = Some (JObj [(''task_id'', JNum (PosInt (unat task_id))), (''worker_task_outcome'', JBool True)])\<rparr>"

definition rewrite_record ::
  "event_env \<Rightarrow> event_io \<Rightarrow> u64 \<Rightarrow> (CodebaseEvent \<Rightarrow> CodebaseEvent) \<Rightarrow> string option \<Rightarrow> (event_error + bool) \<times> string option" where
  "rewrite_record env io sequence edit file =
     (case load_all env (eo_load io 0) file of
        Inl e \<Rightarrow> (Inl e, file)
      | Inr es \<Rightarrow>
          if list_ex (\<lambda>e. ev_sequence e = sequence) es
          then map_prod (map_sum id (\<lambda>_. True)) id (save_all env io (update_first (\<lambda>e. ev_sequence e = sequence) edit es) file)
          else (Inr False, file))"

definition set_outcome :: "EventOutcome \<Rightarrow> string option \<Rightarrow> CodebaseEvent \<Rightarrow> CodebaseEvent" where
  "set_outcome outcome reason e = e\<lparr>ev_outcome := outcome, ev_failure_reason := reason\<rparr>"

definition mark_outcome ::
  "event_env \<Rightarrow> event_io \<Rightarrow> u64 \<Rightarrow> EventOutcome \<Rightarrow> string option \<Rightarrow> string option \<Rightarrow> (event_error + bool) \<times> string option" where
  "mark_outcome env io sequence outcome reason file = rewrite_record env io sequence (set_outcome outcome reason) file"

definition update_context :: "event_env \<Rightarrow> event_io \<Rightarrow> u64 \<Rightarrow> string \<Rightarrow> string option \<Rightarrow> (event_error + bool) \<times> string option" where
  "update_context env io sequence context file = rewrite_record env io sequence (\<lambda>e. e\<lparr>ev_context := Some context\<rparr>) file"

definition auto_record_tool_event ::
  "event_env \<Rightarrow> event_io \<Rightarrow> u64 \<Rightarrow> u64 \<Rightarrow> string \<Rightarrow> u64 option \<Rightarrow> u64 option \<Rightarrow> string \<Rightarrow> string option \<Rightarrow> string option \<Rightarrow> string option" where
  "auto_record_tool_event env io limit now tool before after description context file =
     snd (event_record env io limit now tool description (map_option hex16 before) (map_option hex16 after) context [] file)"

section \<open>Pieces of a file\<close>

text \<open>A file is its complete lines followed by an open piece without a line break.\<close>

definition unlines :: "string list \<Rightarrow> string" where
  "unlines ls = concat (map (\<lambda>l. l @ [newline]) ls)"

definition framed :: "string list \<Rightarrow> string \<Rightarrow> bool" where
  "framed ls t \<longleftrightarrow> (\<forall>l\<in>set ls. newline \<notin> set l) \<and> newline \<notin> set t"

lemma unlines_simps [simp]: "unlines [] = []" "unlines (l # ls) = l @ newline # unlines ls" "unlines (ls @ ms) = unlines ls @ unlines ms"
  by (simp_all add: unlines_def)

lemma split_on_unlines: "framed ls t \<Longrightarrow> split_on newline (unlines ls @ t) = ls @ [t]"
  by (induction ls) (auto simp: framed_def split_on_no_occ split_on_append_sep)

lemma file_pieces: obtains ls t where "framed ls t" "c = unlines ls @ t"
proof (induction c arbitrary: thesis)
  case Nil
  show ?case by (rule Nil [of "[]" "[]"]) (simp_all add: framed_def)
next
  case (Cons x c)
  from Cons.IH obtain ls t where IH: "framed ls t" "c = unlines ls @ t" .
  show ?case
  proof (cases "x = newline")
    case True
    with IH show ?thesis by (intro Cons.prems [of "[] # ls" t]) (auto simp: framed_def)
  next
    case False
    show ?thesis
    proof (cases ls)
      case Nil
      with IH False show ?thesis by (intro Cons.prems [of "[]" "x # t"]) (auto simp: framed_def)
    next
      case (Cons l ls')
      with IH False show ?thesis by (intro Cons.prems [of "(x # l) # ls'" t]) (auto simp: framed_def)
    qed
  qed
qed

lemma line_events_Nil [simp]: "line_events env [] = []"
  by (simp add: line_events_def trim_def trim_matches_def Let_def)

lemma file_events_pieces: "framed ls t \<Longrightarrow> file_events env (Some (unlines ls @ t)) = concat (map (line_events env) ls) @ line_events env t"
  by (simp add: file_events_def text_lines_def split_on_unlines Let_def)

lemma suffix_pieces:
  assumes "framed ls t" "d @ e = unlines ls @ t" "split_on newline e = p # ps" "ps \<noteq> []"
  shows "\<exists>pre. ls @ [t] = pre @ ps \<and> pre \<noteq> []"
proof -
  have "\<exists>pre. split_on newline (d @ e) = pre @ ps \<and> pre \<noteq> []"
  proof (induction d)
    case Nil
    with assms(3) show ?case by (intro exI [of _ "[p]"]) simp
  next
    case (Cons x d)
    then obtain q pre where "split_on newline (d @ e) = q # pre @ ps" by (metis append_Cons list.exhaust)
    then show ?case by (intro exI [of _ "if x = newline then [] # q # pre else (x # q) # pre"]) auto
  qed
  then show ?thesis using assms(1,2) by (simp add: split_on_unlines)
qed

section \<open>Numbering from the tail\<close>

text \<open>The events a lossy reading of a line finds.\<close>

definition lossy_events :: "event_env \<Rightarrow> string \<Rightarrow> CodebaseEvent list" where
  "lossy_events env line = (let t = trim (ee_lossy env line) in if t = [] then [] else events_of env t)"

text \<open>
  A log in order: the numbers increase strictly, the open piece holds no event, and no line reads as
  an event only after its invalid bytes were replaced.
\<close>

definition log_ok :: "event_env \<Rightarrow> string option \<Rightarrow> bool" where
  "log_ok env file \<longleftrightarrow> sorted_wrt (<) (map ev_sequence (file_events env file))
     \<and> (\<forall>c. file = Some c \<longrightarrow> line_events env (last (split_on newline c)) = []
          \<and> (\<forall>l\<in>set (split_on newline c). lossy_events env l = line_events env l))"

lemma foldl_max_sorted: "sorted_wrt (<) (x # xs) \<Longrightarrow> foldl max x xs = last (x # xs :: u64 list)"
proof (induction xs arbitrary: x)
  case (Cons y ys)
  from Cons.prems have "sorted_wrt (<) (y # ys)" "max x y = y" by auto
  with Cons.IH [of y] show ?case by simp
qed simp

lemma tail_line:
  assumes "framed ls t" "c = unlines ls @ t" "c \<noteq> []"
  shows "tail_sequence env window c = None
    \<or> ls \<noteq> [] \<and> tail_sequence env window c = (let l = trim (ee_lossy env (last ls)) in
          if l = [] then None else map_option (\<lambda>s. s + 1) (highest_sequence_on_line env l))"
proof -
  define w where "w = min (length c) window"
  define d where "d = drop (length c - w) c"
  have sp: "split_on newline c = ls @ [t]" using assms by (simp add: split_on_unlines)
  show ?thesis
  proof (cases "w < length c")
    case False
    then have "d = c" by (simp add: d_def w_def)
    with False sp assms(3) show ?thesis by (auto simp: tail_sequence_def Let_def w_def d_def)
  next
    case True
    obtain p ps where ps: "split_on newline d = p # ps" by (cases "split_on newline d") auto
    show ?thesis
    proof (cases "length (butlast (p # ps)) \<le> 1")
      case True
      have "tail_sequence env window c = None"
        unfolding tail_sequence_def Let_def w_def [symmetric] d_def [symmetric] ps using True \<open>w < length c\<close> assms(3) by auto
      then show ?thesis ..
    next
      case False
      then have "ps \<noteq> []" "butlast ps \<noteq> []" by (cases ps; simp)+
      moreover have "take (length c - w) c @ d = unlines ls @ t" unfolding d_def append_take_drop_id by (rule assms(2))
      ultimately obtain pre where pre: "ls @ [t] = pre @ ps" using suffix_pieces [OF assms(1) _ ps] by blast
      then have "ls = pre @ butlast ps" using \<open>ps \<noteq> []\<close> by (metis butlast_append butlast_snoc)
      then have "last ls = last (butlast ps)" "ls \<noteq> []" using \<open>butlast ps \<noteq> []\<close> by auto
      moreover have "tail_sequence env window c = (let l = trim (ee_lossy env (last (butlast ps))) in
          if l = [] then None else map_option (\<lambda>s. s + 1) (highest_sequence_on_line env l))"
        unfolding tail_sequence_def Let_def w_def [symmetric] d_def [symmetric] ps
        using False \<open>w < length c\<close> assms(3) \<open>ps \<noteq> []\<close> \<open>butlast ps \<noteq> []\<close> by simp
      ultimately show ?thesis by simp
    qed
  qed
qed

text \<open>On a log in order the tail decides nothing or gives the number of a full read.\<close>

lemma tail_exact:
  assumes "log_ok env (Some c)"
  shows "tail_sequence env window c \<in> {None, Some (after_last_event (file_events env (Some c)))}"
proof (cases "c = []")
  case True
  then show ?thesis by (simp add: tail_sequence_def file_events_def after_last_event_def)
next
  case False
  obtain ls t where p: "framed ls t" "c = unlines ls @ t" by (rule file_pieces)
  have sp: "split_on newline c = ls @ [t]" using p by (simp add: split_on_unlines)
  have ok: "line_events env t = []" "\<And>l. l \<in> set ls \<Longrightarrow> lossy_events env l = line_events env l"
    and sorted: "sorted_wrt (<) (map ev_sequence (file_events env (Some c)))"
    using assms sp by (auto simp: log_ok_def)
  show ?thesis
  proof (cases "tail_sequence env window c")
    case (Some n)
    with tail_line [OF p False, of env window] have ls: "ls \<noteq> []"
      and n: "trim (ee_lossy env (last ls)) \<noteq> []" "map_option (\<lambda>s. s + 1) (highest_sequence_on_line env (trim (ee_lossy env (last ls)))) = Some n"
      by (auto simp: Let_def split: if_splits)
    let ?es = "line_events env (last ls)"
    have es: "events_of env (trim (ee_lossy env (last ls))) = ?es"
      using ok(2) [of "last ls"] ls n(1) by (simp add: lossy_events_def Let_def)
    obtain s ss where ss: "map ev_sequence ?es = s # ss" "n = foldl max s ss + 1"
      using n(2) es by (auto simp: highest_sequence_on_line_def split: list.splits)
    then have ne: "?es \<noteq> []" by auto
    have all: "file_events env (Some c) = concat (map (line_events env) (butlast ls)) @ ?es"
    proof -
      have "concat (map (line_events env) ls) = concat (map (line_events env) (butlast ls @ [last ls]))" using ls by simp
      with file_events_pieces [OF p(1)] p(2) ok(1) show ?thesis by simp
    qed
    have "sorted_wrt (<) (s # ss)" using sorted all ss(1) by (simp add: sorted_wrt_append)
    then have "foldl max s ss = ev_sequence (last ?es)" using foldl_max_sorted ss(1) ne by (metis last_map)
    with ss(2) ne all Some show ?thesis by (simp add: after_last_event_def)
  qed simp
qed

lemma numbering:
  assumes "log_ok env file"
  shows "next_sequence env io file = Inr (after_last_event (file_events env file))
    \<or> next_sequence env io file = Inl EvOpenFailed \<and> file \<noteq> None \<and> \<not> eo_load io 0"
proof (cases "next_sequence_from_tail env (eo_tail io) file")
  case None
  then show ?thesis by (auto simp: next_sequence_def load_all_def)
next
  case (Some n)
  then obtain c where c: "file = Some c" "tail_sequence env SEQUENCE_TAIL_WINDOW_BYTES c = Some n"
    by (auto simp: next_sequence_from_tail_def split: option.splits if_splits)
  from tail_exact [of env c SEQUENCE_TAIL_WINDOW_BYTES] assms c have "n = after_last_event (file_events env file)" by simp
  with Some show ?thesis by (simp add: next_sequence_def)
qed

text \<open>
  The number read from the tail is the number of a full read.  On a log in order, wherever the
  64 kilobyte window cuts the file and whatever the bytes in it are, an event is numbered exactly one
  after the newest event of the whole log, or refused because the log had to be read in full and could
  not be opened.
\<close>

theorem tail_numbering_exact:
  assumes "log_ok env file"
  shows "next_sequence env io file \<in> {Inr (after_last_event (file_events env file)), Inl EvOpenFailed}
    \<and> (eo_load io 0 \<longrightarrow> next_sequence env io file = Inr (after_last_event (file_events env file)))"
  using numbering [OF assms, of io] by auto

theorem tail_numbering_exact_witness:
  "next_sequence \<lparr>ee_ser = (\<lambda>_. None), ee_de = (\<lambda>_. None), ee_utf8 = (\<lambda>_. True), ee_lossy = id\<rparr>
     \<lparr>eo_tail = True, eo_load = (\<lambda>_. True), eo_last_byte = True, eo_open = True, eo_write = None, eo_flush = True, eo_stat = True, eo_save = SaveWorks\<rparr>
     (Some ''half a record'') = Inr 1"
proof -
  let ?env = "\<lparr>ee_ser = (\<lambda>_. None), ee_de = (\<lambda>_. None), ee_utf8 = (\<lambda>_. True), ee_lossy = id\<rparr>"
  have none: "line_events ?env l = []" "lossy_events ?env l = []" for l
    by (simp_all add: line_events_def lossy_events_def events_of_def Let_def map_filter_def)
  then have "file_events ?env (Some ''half a record'') = []" by (simp add: file_events_def)
  moreover from this none have "log_ok ?env (Some ''half a record'')" by (simp add: log_ok_def)
  ultimately show ?thesis using tail_numbering_exact [of ?env "Some ''half a record''"
      "\<lparr>eo_tail = True, eo_load = (\<lambda>_. True), eo_last_byte = True, eo_open = True, eo_write = None, eo_flush = True, eo_stat = True, eo_save = SaveWorks\<rparr>"]
    by (simp add: after_last_event_def)
qed

end
