(* ===== verification/Event_Log.thy ===== *)
theory Event_Log
  imports Event_Store
begin

text \<open>
  What holds of the decision trail under any behaviour of the disk that does not leave a whole record
  without its line break (\<open>step_clean\<close>, a condition on the steps of a run): the numbers of the events
  in the log increase strictly, and an accepted event is numbered after all of them.  The excluded
  case is shown at the end.
\<close>

section \<open>Records on lines\<close>

text \<open>
  What is documented of the serializer for the events of \<open>S\<close>: it succeeds, its compact output is one
  line of valid text without blanks around it, parsing gives the event back, a proper prefix of it
  does not parse, and its braces balance only at its end.
\<close>

definition torn_ok :: "event_env \<Rightarrow> string \<Rightarrow> bool" where
  "torn_ok env p \<longleftrightarrow> ee_de env (trim p) = None \<and> recover_concatenated (trim p) = []"

definition serialized :: "event_env \<Rightarrow> CodebaseEvent \<Rightarrow> string \<Rightarrow> bool" where
  "serialized env e l \<longleftrightarrow> ee_ser env e = Some l \<and> newline \<notin> set l \<and> l \<noteq> [] \<and> trim l = l \<and> ee_utf8 env l \<and> ee_lossy env l = l
     \<and> ee_de env l = Some e \<and> (\<forall>n<length l. torn_ok env (take n l) \<and> torn_ok env (ee_lossy env (take n l)))"

definition event_serde :: "event_env \<Rightarrow> CodebaseEvent set \<Rightarrow> bool" where
  "event_serde env S \<longleftrightarrow> ee_lossy env [] = [] \<and> (\<forall>e\<in>S. \<exists>l. serialized env e l)"

lemma torn_events: "torn_ok env p \<Longrightarrow> line_events env p = []" "torn_ok env (ee_lossy env p) \<Longrightarrow> lossy_events env p = []"
  by (auto simp: torn_ok_def line_events_def lossy_events_def events_of_def Let_def map_filter_simps)

lemma whole_events: "serialized env e l \<Longrightarrow> line_events env l = [e] \<and> lossy_events env l = [e]"
  by (simp add: serialized_def line_events_def lossy_events_def events_of_def Let_def)

lemma piece_events:
  assumes "serialized env e l" "ee_lossy env [] = []"
  shows "lossy_events env (take k l) = line_events env (take k l) \<and> set (line_events env (take k l)) \<subseteq> {e}"
proof (cases "k < length l")
  case True
  with assms(1) have "torn_ok env (take k l)" "torn_ok env (ee_lossy env (take k l))" by (simp_all add: serialized_def)
  with torn_events show ?thesis by simp
next
  case False
  with whole_events [OF assms(1)] show ?thesis by simp
qed

lemma lossy_Nil: "ee_lossy env [] = [] \<Longrightarrow> lossy_events env [] = []"
  by (simp add: lossy_events_def trim_def trim_matches_def)

section \<open>Logs in order\<close>

definition open_clean :: "event_env \<Rightarrow> string option \<Rightarrow> bool" where
  "open_clean env file \<longleftrightarrow> (\<forall>c. file = Some c \<longrightarrow> line_events env (last (split_on newline c)) = [])"

definition log_inv :: "event_env \<Rightarrow> CodebaseEvent set \<Rightarrow> string option \<Rightarrow> bool" where
  "log_inv env S file \<longleftrightarrow> log_ok env file \<and> set (file_events env file) \<subseteq> S"

lemma log_ok_pieces:
  assumes "framed ls t"
  shows "log_ok env (Some (unlines ls @ t)) \<longleftrightarrow> sorted_wrt (<) (map ev_sequence (concat (map (line_events env) ls)))
    \<and> line_events env t = [] \<and> (\<forall>l\<in>set (ls @ [t]). lossy_events env l = line_events env l)"
  using assms by (auto simp: log_ok_def file_events_pieces split_on_unlines)

lemma open_clean_pieces: "framed ls t \<Longrightarrow> open_clean env (Some (unlines ls @ t)) \<longleftrightarrow> line_events env t = []"
  by (simp add: open_clean_def split_on_unlines)

lemma log_inv_pieces:
  assumes "framed ls t" "log_inv env S (Some (unlines ls @ t))"
  shows "sorted_wrt (<) (map ev_sequence (concat (map (line_events env) ls)))" "line_events env t = []"
    "\<And>l. l \<in> set (ls @ [t]) \<Longrightarrow> lossy_events env l = line_events env l" "set (concat (map (line_events env) ls)) \<subseteq> S"
    "file_events env (Some (unlines ls @ t)) = concat (map (line_events env) ls)"
  using assms unfolding log_inv_def log_ok_pieces [OF assms(1)] file_events_pieces [OF assms(1)] by auto

lemma log_inv_Nil: "event_serde env S \<Longrightarrow> log_inv env S None \<and> log_inv env S (Some [])"
  using log_ok_pieces [of "[]" "[]" env] lossy_Nil [of env]
  by (simp add: log_inv_def event_serde_def framed_def log_ok_def file_events_def)

text \<open>The lines a write leaves: the log before it, closed off, and a piece of the record.\<close>

lemma append_event_pieces:
  assumes "framed ls t" "ee_ser env e = Some line" "newline \<notin> set line" "eo_last_byte io"
    and "append_event env io e (Some (unlines ls @ t)) = (r, file')"
  defines "ls1 \<equiv> (if t = [] then ls else ls @ [t])"
  shows "(r \<noteq> Inr () \<and> (file' = Some (unlines ls @ t) \<or> (\<exists>k\<le>length line. file' = Some (unlines ls1 @ take k line))))
    \<or> file' = Some (unlines (ls1 @ [line]))"
proof -
  let ?c = "unlines ls @ t"
  have last: "?c = [] \<or> last ?c = newline \<longleftrightarrow> t = []"
  proof (cases "t = []")
    case True
    then show ?thesis by (cases ls rule: rev_cases) auto
  next
    case False
    then have "last t \<noteq> newline" using assms(1) by (metis framed_def last_in_set)
    with False show ?thesis by simp
  qed
  let ?needs = "t \<noteq> []"
  have needs: "\<not> log_ends_on_a_line_break (eo_last_byte io) (Some ?c) \<longleftrightarrow> ?needs"
    using assms(4) last by (simp add: log_ends_on_a_line_break_def)
  have whole: "?c @ event_payload ?needs line = unlines (ls1 @ [line])" by (simp add: ls1_def event_payload_def)
  have stop: "?c @ take n (event_payload ?needs line) = ?c \<or> (\<exists>k\<le>length line. ?c @ take n (event_payload ?needs line) = unlines ls1 @ take k line)
    \<or> ?c @ take n (event_payload ?needs line) = unlines (ls1 @ [line])" for n
  proof (cases "n = 0 \<or> length (event_payload ?needs line) \<le> n")
    case True
    with whole show ?thesis by auto
  next
    case False
    let ?k = "if ?needs then n - 1 else n"
    have "?k \<le> length line" using False by (auto simp: event_payload_def)
    moreover have "?c @ take n (event_payload ?needs line) = unlines ls1 @ take ?k line"
      using False by (cases n) (auto simp: event_payload_def ls1_def)
    ultimately show ?thesis by blast
  qed
  show ?thesis
  proof (cases "eo_open io")
    case False
    with assms(2,5) show ?thesis by (auto simp: append_event_def Let_def)
  next
    case True
    show ?thesis
    proof (cases "eo_write io")
      case None
      with assms(2,5) needs True whole show ?thesis by (auto simp: append_event_def Let_def)
    next
      case (Some n)
      then have "r \<noteq> Inr ()" "file' = Some (?c @ take n (event_payload ?needs line))"
        using assms(2,5) needs True by (auto simp: append_event_def Let_def)
      with stop [of n] show ?thesis by auto
    qed
  qed
qed

lemma closed_off:
  assumes "event_serde env S" "framed ls t" "log_inv env S (Some (unlines ls @ t))"
  defines "ls1 \<equiv> (if t = [] then ls else ls @ [t])"
  shows "framed ls1 []" "concat (map (line_events env) ls1) = concat (map (line_events env) ls)"
    "\<And>l. l \<in> set ls1 \<Longrightarrow> lossy_events env l = line_events env l"
proof -
  note pieces = log_inv_pieces [OF assms(2,3)]
  show "framed ls1 []" using assms(2) by (auto simp: ls1_def framed_def)
  show "concat (map (line_events env) ls1) = concat (map (line_events env) ls)" using pieces(2) by (simp add: ls1_def)
  show "lossy_events env l = line_events env l" if "l \<in> set ls1" for l
    using that pieces(3) by (auto simp: ls1_def split: if_splits)
qed

lemma log_inv_extend:
  assumes "event_serde env S" "framed ls []" "\<And>l. l \<in> set ls \<Longrightarrow> lossy_events env l = line_events env l"
    and "sorted_wrt (<) (map ev_sequence (concat (map (line_events env) ls)))" "set (concat (map (line_events env) ls)) \<subseteq> S"
    and "serialized env e line" "open_clean env (Some (unlines ls @ take k line))"
  shows "log_inv env S (Some (unlines ls @ take k line))"
    "file_events env (Some (unlines ls @ take k line)) = concat (map (line_events env) ls)"
proof -
  have fr: "framed ls (take k line)" using assms(2,6) in_set_takeD by (fastforce simp: framed_def serialized_def)
  have t: "line_events env (take k line) = []" using assms(7) open_clean_pieces [OF fr] by simp
  have "lossy_events env (take k line) = line_events env (take k line)"
    using piece_events [OF assms(6)] assms(1) by (simp add: event_serde_def)
  with assms(3-5) t show "log_inv env S (Some (unlines ls @ take k line))"
    unfolding log_inv_def log_ok_pieces [OF fr] file_events_pieces [OF fr] by auto
  show "file_events env (Some (unlines ls @ take k line)) = concat (map (line_events env) ls)"
    using t by (simp add: file_events_pieces [OF fr])
qed

lemma append_event_inv:
  assumes serde: "event_serde env S" and inv: "log_inv env S (Some c)" and "e \<in> S" "eo_last_byte io"
    and fresh: "\<forall>x\<in>set (file_events env (Some c)). ev_sequence x < ev_sequence e"
    and app: "append_event env io e (Some c) = (r, file')" and clean: "open_clean env file'"
  shows "log_inv env S file' \<and> file_events env file' \<in> {file_events env (Some c), file_events env (Some c) @ [e]}
    \<and> (r = Inr () \<longrightarrow> file_events env file' = file_events env (Some c) @ [e])"
proof -
  obtain line where l: "serialized env e line" using serde assms(3) by (auto simp: event_serde_def)
  then have ser: "ee_ser env e = Some line" "newline \<notin> set line" by (simp_all add: serialized_def)
  obtain ls t where p: "framed ls t" "c = unlines ls @ t" by (rule file_pieces)
  note pieces = log_inv_pieces [OF p(1) inv [unfolded p(2)]]
  let ?ls = "if t = [] then ls else ls @ [t]"
  note off = closed_off [OF serde p(1) inv [unfolded p(2)]]
  have old: "file_events env (Some c) = concat (map (line_events env) ?ls)" using pieces(5) off(2) p(2) by simp
  have sorted: "sorted_wrt (<) (map ev_sequence (concat (map (line_events env) ?ls)))" and S: "set (concat (map (line_events env) ?ls)) \<subseteq> S"
    using pieces(1,4) off(2) by simp_all
  from append_event_pieces [OF p(1) ser assms(4) app [unfolded p(2)]]
  consider "r \<noteq> Inr ()" "file' = Some c" | k where "r \<noteq> Inr ()" "file' = Some (unlines ?ls @ take k line)"
    | "file' = Some (unlines (?ls @ [line]))" using p(2) by blast
  then show ?thesis
  proof cases
    case 1
    with inv show ?thesis by simp
  next
    case (2 k)
    with log_inv_extend [OF serde off(1) off(3) sorted S l, of k] clean old show ?thesis by simp
  next
    case 3
    have fr: "framed (?ls @ [line]) []" using off(1) ser(2) by (auto simp: framed_def)
    have w: "line_events env line = [e]" "lossy_events env line = [e]" using whole_events [OF l] by simp_all
    have ev: "file_events env file' = file_events env (Some c) @ [e]"
      using file_events_pieces [OF fr, of env] w old 3 by simp
    have "sorted_wrt (<) (map ev_sequence (file_events env file'))"
      using sorted fresh unfolding ev old by (simp add: sorted_wrt_append)
    moreover have "\<forall>x\<in>set ((?ls @ [line]) @ [[]]). lossy_events env x = line_events env x"
      using off(3) w lossy_Nil serde by (auto simp: event_serde_def)
    ultimately have "log_inv env S file'"
      using log_ok_pieces [OF fr, of env] file_events_pieces [OF fr, of env] ev S assms(3) old 3
      unfolding log_inv_def by simp
    with ev show ?thesis by simp
  qed
qed

section \<open>Rewrites\<close>

lemma render_lines:
  assumes "event_serde env S" "set es \<subseteq> S"
  shows "\<exists>ls. render_events env es = Some (unlines ls) \<and> list_all2 (serialized env) es ls"
  using assms(2)
proof (induction es)
  case (Cons e es)
  then obtain ls where ls: "render_events env es = Some (unlines ls)" "list_all2 (serialized env) es ls" by auto
  obtain l where l: "serialized env e l" using assms(1) Cons.prems by (auto simp: event_serde_def)
  then have "ee_ser env e = Some l" by (simp add: serialized_def)
  with l ls show ?case by (intro exI [of _ "l # ls"]) simp
qed simp

lemma rendered_events:
  assumes "list_all2 (serialized env) es ls"
  shows "concat (map (line_events env) ls) = es" "framed ls []" "\<And>l. l \<in> set ls \<Longrightarrow> lossy_events env l = line_events env l"
proof -
  show "concat (map (line_events env) ls) = es" using assms
    by (induction rule: list_all2_induct) (simp_all add: whole_events)
  have l: "\<exists>e. serialized env e l" if "l \<in> set ls" for l using assms that by (metis in_set_conv_nth list_all2_nthD2)
  then show "framed ls []" by (auto simp: framed_def serialized_def)
  show "\<And>l. l \<in> set ls \<Longrightarrow> lossy_events env l = line_events env l" using l whole_events by metis
qed

lemma take_unlines:
  "take n (unlines ls) = unlines ls \<or> (\<exists>j k. j < length ls \<and> take n (unlines ls) = unlines (take j ls) @ take k (ls ! j))"
proof (induction ls arbitrary: n)
  case (Cons l ls)
  show ?case
  proof (cases "n \<le> length l")
    case True
    then show ?thesis by (intro disjI2 exI [of _ 0] exI [of _ n]) simp
  next
    case False
    then obtain m where m: "n = length l + Suc m" by (metis add_Suc_right less_imp_Suc_add not_le)
    from Cons.IH [of m] show ?thesis
    proof
      assume "\<exists>j k. j < length ls \<and> take m (unlines ls) = unlines (take j ls) @ take k (ls ! j)"
      then obtain j k where "j < length ls" "take m (unlines ls) = unlines (take j ls) @ take k (ls ! j)" by blast
      then show ?thesis using m by (intro disjI2 exI [of _ "Suc j"] exI [of _ k]) simp
    qed (simp add: m)
  qed
qed simp

lemma save_all_inv:
  assumes serde: "event_serde env S" and inv: "log_inv env S file" and es: "set es \<subseteq> S" "sorted_wrt (<) (map ev_sequence es)"
    and save: "save_all env io es file = (r, file')" and clean: "open_clean env file'"
  shows "log_inv env S file' \<and> (eo_save io = SaveWorks \<longrightarrow> r = Inr () \<and> file_events env file' = es)
    \<and> (eo_save io = SaveRefused \<longrightarrow> file' = file) \<and> (r = Inr () \<longrightarrow> eo_save io = SaveWorks)"
proof -
  obtain ls where ls: "render_events env es = Some (unlines ls)" "list_all2 (serialized env) es ls"
    using render_lines [OF serde es(1)] by blast
  note rendered = rendered_events [OF ls(2)]
  have whole: "log_inv env S (Some (unlines ls)) \<and> file_events env (Some (unlines ls)) = es"
    using log_ok_pieces [OF rendered(2), of env] file_events_pieces [OF rendered(2), of env] rendered(1,3) es lossy_Nil [of env] serde
    by (auto simp: log_inv_def event_serde_def)
  have part: "log_inv env S (Some (take n (unlines ls)))" if cl: "open_clean env (Some (take n (unlines ls)))" for n
    using take_unlines [of n ls]
  proof
    assume "\<exists>j k. j < length ls \<and> take n (unlines ls) = unlines (take j ls) @ take k (ls ! j)"
    then obtain j k where jk: "j < length ls" "take n (unlines ls) = unlines (take j ls) @ take k (ls ! j)" by blast
    have l: "serialized env (es ! j) (ls ! j)" using ls(2) jk(1) by (simp add: list_all2_nthD2)
    have sub: "list_all2 (serialized env) (take j es) (take j ls)" using ls(2) by (rule list_all2_takeI)
    note tj = rendered_events [OF sub]
    have "sorted_wrt (<) (map ev_sequence (concat (map (line_events env) (take j ls))))" "set (concat (map (line_events env) (take j ls))) \<subseteq> S"
      unfolding tj(1) using es by (auto simp: take_map [symmetric] sorted_wrt_take dest: in_set_takeD)
    from log_inv_extend(1) [OF serde tj(2,3) this l] cl jk(2) show ?thesis by simp
  qed (use whole in simp)
  show ?thesis
  proof (cases "eo_save io")
    case (SaveStops n)
    with save ls(1) clean part [of n] show ?thesis by (auto simp: save_all_def)
  qed (use save ls(1) whole inv in \<open>auto simp: save_all_def\<close>)
qed

section \<open>Operations\<close>

lemma append_event_None:
  "append_event env io e None = (r, file') \<Longrightarrow> file' = None \<and> r \<noteq> Inr () \<or> append_event env io e (Some []) = (r, file')"
  by (auto simp: append_event_def Let_def log_ends_on_a_line_break_def split: option.splits if_splits)

lemma append_event_clean:
  assumes "event_serde env S" "e \<in> S" "eo_last_byte io" "append_event env io e (Some c) = (Inr (), file')"
  shows "open_clean env file'"
proof -
  obtain line where l: "ee_ser env e = Some line" "newline \<notin> set line" using assms(1,2) by (auto simp: event_serde_def serialized_def)
  obtain ls t where p: "framed ls t" "c = unlines ls @ t" by (rule file_pieces)
  let ?ls = "if t = [] then ls else ls @ [t]"
  have "file' = Some (unlines (?ls @ [line]))" using append_event_pieces [OF p(1) l assms(3) assms(4) [unfolded p(2)]] by blast
  moreover have "framed (?ls @ [line]) []" using p(1) l(2) by (auto simp: framed_def)
  ultimately show ?thesis using open_clean_pieces [of "?ls @ [line]" "[]" env] by simp
qed

lemma retention_inv:
  assumes serde: "event_serde env S" and inv: "log_inv env S file" and clean: "open_clean env (enforce_retention env io limit file)"
  shows "log_inv env S (enforce_retention env io limit file)
    \<and> (file_events env file \<noteq> [] \<longrightarrow> (\<forall>n. eo_save io \<noteq> SaveStops n) \<longrightarrow>
         (\<exists>k<length (file_events env file). file_events env (enforce_retention env io limit file) = drop k (file_events env file)))"
proof -
  let ?es = "file_events env file" and ?f = "enforce_retention env io limit file"
  let ?k = "length ?es - max (length ?es div 2) RETENTION_FLOOR_EVENTS"
  show ?thesis
  proof (cases "?f = file")
    case True
    with inv show ?thesis by (auto intro: exI [of _ 0])
  next
    case False
    then have f: "?f = snd (save_all env io (drop ?k ?es) file)" and big: "RETENTION_FLOOR_EVENTS < length ?es"
      by (auto simp: enforce_retention_def load_all_def not_le split: option.splits if_splits)
    obtain r where save: "save_all env io (drop ?k ?es) file = (r, ?f)" using f by (metis prod.collapse)
    have S: "set (drop ?k ?es) \<subseteq> S" using inv set_drop_subset unfolding log_inv_def by fast
    have sorted: "sorted_wrt (<) (map ev_sequence (drop ?k ?es))"
      using inv by (simp add: log_inv_def log_ok_def sorted_wrt_drop flip: drop_map)
    note si = save_all_inv [OF serde inv S sorted save clean]
    have "?k < length ?es" using big by (auto simp: RETENTION_FLOOR_EVENTS_def)
    with si False show ?thesis by (cases "eo_save io") auto
  qed
qed

lemma fresh_number:
  assumes "log_ok env file" "after_last_event (file_events env file) \<noteq> 0"
  shows "\<forall>x\<in>set (file_events env file). ev_sequence x < after_last_event (file_events env file)"
proof (cases "file_events env file" rule: rev_cases)
  case (snoc es e)
  have "ev_sequence e < ev_sequence e + 1" using assms(2) snoc by (intro word_less_bump) (auto simp: after_last_event_def)
  moreover have "\<forall>x\<in>set es. ev_sequence x < ev_sequence e" using assms(1) snoc by (simp add: log_ok_def sorted_wrt_append)
  ultimately show ?thesis using snoc by (auto simp: after_last_event_def)
qed simp

text \<open>The event an accepted or attempted record would store.\<close>

definition drafted :: "event_env \<Rightarrow> u64 \<Rightarrow> EventDraft \<Rightarrow> string option \<Rightarrow> CodebaseEvent" where
  "drafted env now draft file = event_of_draft (after_last_event (file_events env file)) now draft"

lemma record_inv:
  assumes serde: "event_serde env S" and inv: "log_inv env S file" and e: "drafted env now draft file \<in> S"
    and room: "after_last_event (file_events env file) \<noteq> 0" and byte: "eo_last_byte io"
    and rec: "record_with_metadata env io limit now draft file = (r, file')" and clean: "open_clean env file'"
  shows "log_inv env S file'"
    "r = Inr n \<Longrightarrow> n = after_last_event (file_events env file) \<and> ((\<forall>k. eo_save io \<noteq> SaveStops k) \<longrightarrow>
       file_events env file' \<noteq> [] \<and> last (file_events env file') = drafted env now draft file)"
proof -
  let ?e = "drafted env now draft file" and ?n = "after_last_event (file_events env file)"
  have ok: "log_ok env file" using inv by (simp add: log_inv_def)
  have fresh: "\<forall>x\<in>set (file_events env file). ev_sequence x < ev_sequence ?e"
    using fresh_number [OF ok room] by (simp add: drafted_def event_of_draft_def)
  have "log_inv env S file' \<and> (\<forall>n. r = Inr n \<longrightarrow> n = ?n \<and> ((\<forall>k. eo_save io \<noteq> SaveStops k) \<longrightarrow>
       file_events env file' \<noteq> [] \<and> last (file_events env file') = ?e))"
  proof (cases "next_sequence env io file = Inr ?n")
    case False
    with numbering [OF ok, of io] rec inv show ?thesis by (auto simp: record_with_metadata_def)
  next
    case True
    obtain r1 file1 where app: "append_event env io ?e file = (r1, file1)" by (metis surj_pair)
    define c where "c = (case file of Some c \<Rightarrow> c | None \<Rightarrow> [])"
    have c: "log_inv env S (Some c)" "file_events env (Some c) = file_events env file"
      using inv log_inv_Nil [OF serde] by (auto simp: c_def file_events_def split: option.splits)
    have app': "file1 = file \<and> r1 \<noteq> Inr () \<or> append_event env io ?e (Some c) = (r1, file1)"
    proof (cases "file = None")
      case True
      with app have "append_event env io ?e None = (r1, file1)" by simp
      from append_event_None [OF this] True show ?thesis by (auto simp: c_def)
    next
      case False
      with app show ?thesis by (auto simp: c_def)
    qed
    have fresh': "\<forall>x\<in>set (file_events env (Some c)). ev_sequence x < ev_sequence ?e" using fresh c(2) by simp
    show ?thesis
    proof (cases "r1 = Inr ()")
      case False
      then obtain err where "r1 = Inl err" by (cases r1) auto
      then have f': "file' = file1" "r = Inl err" using rec True app by (simp_all add: record_with_metadata_def drafted_def)
      have "log_inv env S file1"
      proof (cases "file1 = file")
        case True
        with inv show ?thesis by simp
      next
        case False
        with app' have "append_event env io ?e (Some c) = (r1, file1)" by blast
        from append_event_inv [OF serde c(1) e byte fresh' this] clean f'(1) show ?thesis by simp
      qed
      with f' show ?thesis by simp
    next
      case True
      with app have "append_event env io (event_of_draft ?n now draft) file = (Inr (), file1)" by (simp add: drafted_def)
      then have "record_with_metadata env io limit now draft file = (Inr ?n, enforce_retention env io limit file1)"
        using \<open>next_sequence env io file = Inr ?n\<close> by (simp add: record_with_metadata_def)
      then have f': "file' = enforce_retention env io limit file1" "r = Inr ?n" using rec by simp_all
      have a: "append_event env io ?e (Some c) = (Inr (), file1)" using app' True by simp
      have cl: "open_clean env file1" using append_event_clean [OF serde e byte a] .
      from append_event_inv [OF serde c(1) e byte fresh' a cl] c(2)
      have i1: "log_inv env S file1" "file_events env file1 = file_events env file @ [?e]" by simp_all
      note ret = retention_inv [OF serde i1(1) clean [unfolded f'(1)]]
      have "file_events env file' \<noteq> [] \<and> last (file_events env file') = ?e" if "\<forall>k. eo_save io \<noteq> SaveStops k"
      proof -
        from ret that i1(2) obtain k where k: "k < length (file_events env file1)" "file_events env file' = drop k (file_events env file1)"
          using f'(1) by auto
        with i1(2) show ?thesis by (simp add: last_drop)
      qed
      with ret f' show ?thesis by simp
    qed
  qed
  then show "log_inv env S file'" "r = Inr n \<Longrightarrow> n = ?n \<and> ((\<forall>k. eo_save io \<noteq> SaveStops k) \<longrightarrow>
       file_events env file' \<noteq> [] \<and> last (file_events env file') = ?e)" by blast+
qed

lemma rewrite_inv:
  assumes serde: "event_serde env S" and inv: "log_inv env S file" and edit: "\<And>e. ev_sequence (edit e) = ev_sequence e" "\<And>e. e \<in> S \<Longrightarrow> edit e \<in> S"
    and rw: "rewrite_record env io sequence edit file = (r, file')" and clean: "open_clean env file'"
  shows "log_inv env S file' \<and> (r = Inr True \<longrightarrow>
    file_events env file' = update_first (\<lambda>e. ev_sequence e = sequence) edit (file_events env file))"
proof -
  let ?es = "file_events env file"
  consider "file' = file" "r \<noteq> Inr True" | r1 where "save_all env io (update_first (\<lambda>e. ev_sequence e = sequence) edit ?es) file = (r1, file')" "r = map_sum id (\<lambda>_. True) r1"
    using rw by (auto simp: rewrite_record_def load_all_def map_prod_def split: if_splits prod.splits)
  then show ?thesis
  proof cases
    case 1
    with inv show ?thesis by simp
  next
    case (2 r1)
    have "map ev_sequence (update_first (\<lambda>e. ev_sequence e = sequence) edit ?es) = map ev_sequence ?es"
      by (rule map_update_first) (rule edit(1))
    then have sorted: "sorted_wrt (<) (map ev_sequence (update_first (\<lambda>e. ev_sequence e = sequence) edit ?es))"
      using inv by (simp add: log_inv_def log_ok_def)
    have "set (update_first P edit es) \<subseteq> S" if "set es \<subseteq> S" for P es using that edit(2) by (induction es) auto
    with inv have S: "set (update_first (\<lambda>e. ev_sequence e = sequence) edit ?es) \<subseteq> S" by (simp add: log_inv_def)
    from save_all_inv [OF serde inv S sorted 2(1) clean] 2(2) show ?thesis by (cases r1) auto
  qed
qed

text \<open>
  A run of the operations on the trail over any behaviour of the disk, with what each step did: the
  events of \<open>S\<close> are those the callers describe, with the outcomes and contexts they attach.  The trace
  holds the disk of each step and the log it left, the newest first.
\<close>

inductive event_run :: "event_env \<Rightarrow> CodebaseEvent set \<Rightarrow> string option \<Rightarrow> (event_io \<times> string option) list \<Rightarrow> bool" for env S where
  start: "event_run env S None []"
| add_event: "event_run env S file past \<Longrightarrow> record_with_metadata env io limit now draft file = (r, file') \<Longrightarrow>
    (\<And>n. next_sequence env io file = Inr n \<Longrightarrow> event_of_draft n now draft \<in> S) \<Longrightarrow> event_run env S file' ((io, file') # past)"
| mark: "event_run env S file past \<Longrightarrow> mark_outcome env io sequence oc reason file = (r, file') \<Longrightarrow>
    (\<And>e. e \<in> S \<Longrightarrow> set_outcome oc reason e \<in> S) \<Longrightarrow> event_run env S file' ((io, file') # past)"
| attach: "event_run env S file past \<Longrightarrow> update_context env io sequence ctx file = (r, file') \<Longrightarrow>
    (\<And>e. e \<in> S \<Longrightarrow> e\<lparr>ev_context := Some ctx\<rparr> \<in> S) \<Longrightarrow> event_run env S file' ((io, file') # past)"

text \<open>
  What the order of the log needs of one step: the last byte of the log could be read, the log does
  not end in a whole record without its line break, and the numbers have not run out.
\<close>

definition step_clean :: "event_env \<Rightarrow> event_io \<times> string option \<Rightarrow> bool" where
  "step_clean env x \<longleftrightarrow> (case x of (io, file) \<Rightarrow>
     eo_last_byte io \<and> open_clean env file \<and> after_last_event (file_events env file) \<noteq> 0)"

lemma event_run_room: "event_run env S file past \<Longrightarrow> list_all (step_clean env) past \<Longrightarrow> after_last_event (file_events env file) \<noteq> 0"
  by (cases rule: event_run.cases) (auto simp: step_clean_def file_events_def after_last_event_def)

lemma event_run_inv:
  assumes "event_serde env S" "event_run env S file past" "list_all (step_clean env) past"
  shows "log_inv env S file"
  using assms(2,3)
proof (induction rule: event_run.induct)
  case start
  with log_inv_Nil [OF assms(1)] show ?case by simp
next
  case (add_event f past io limit now draft r f')
  then have inv: "log_inv env S f" and c: "eo_last_byte io" "open_clean env f'" by (simp_all add: step_clean_def)
  have room: "after_last_event (file_events env f) \<noteq> 0" using event_run_room [OF add_event.hyps(1)] add_event.prems by simp
  show ?case
  proof (cases "next_sequence env io f")
    case (Inl e)
    with add_event.hyps(2) inv show ?thesis by (simp add: record_with_metadata_def)
  next
    case (Inr n)
    with numbering [of env f io] inv have "n = after_last_event (file_events env f)" by (simp add: log_inv_def)
    with add_event.hyps(3) [OF Inr] have S: "drafted env now draft f \<in> S" by (simp add: drafted_def)
    from record_inv(1) [OF assms(1) inv S room c(1) add_event.hyps(2) c(2)] show ?thesis .
  qed
next
  case (mark f past io sequence oc reason r f')
  then have inv: "log_inv env S f" and c: "open_clean env f'" by (simp_all add: step_clean_def)
  from rewrite_inv [OF assms(1) inv _ mark.hyps(3) mark.hyps(2) [unfolded mark_outcome_def] c] show ?case
    by (simp add: set_outcome_def)
next
  case (attach f past io sequence ctx r f')
  then have inv: "log_inv env S f" and c: "open_clean env f'" by (simp_all add: step_clean_def)
  from rewrite_inv [OF assms(1) inv _ attach.hyps(3) attach.hyps(2) [unfolded update_context_def] c] show ?case by simp
qed


section \<open>Concrete runs\<close>

definition demo_draft :: EventDraft where
  "demo_draft = \<lparr>dr_tool_name = ''edit_file'', dr_description = ''edit'', dr_merkle_root_before = None, dr_merkle_root_after = None,
     dr_context = None, dr_affected_files = [''a.rs''], dr_outcome = Success, dr_failure_reason = None, dr_metadata = None\<rparr>"

definition demo_event :: "u64 \<Rightarrow> CodebaseEvent" where
  "demo_event n = event_of_draft n 7 demo_draft"

definition demo_event_env :: event_env where
  "demo_event_env = \<lparr>ee_ser = (\<lambda>e. if e = demo_event 1 then Some ''{a}'' else if e = demo_event 2 then Some ''{b}'' else None),
     ee_de = (\<lambda>s. if s = ''{a}'' then Some (demo_event 1) else if s = ''{b}'' then Some (demo_event 2) else None),
     ee_utf8 = (\<lambda>_. True), ee_lossy = id\<rparr>"

definition demo_io :: event_io where
  "demo_io = \<lparr>eo_tail = True, eo_load = (\<lambda>_. True), eo_last_byte = True, eo_open = True, eo_write = None, eo_flush = True,
     eo_stat = True, eo_save = SaveWorks\<rparr>"

lemma demo_serialized: "serialized demo_event_env (demo_event 1) ''{a}''"
proof -
  have "trim ''{a}'' = ''{a}''" "newline \<notin> set ''{a}''" by code_simp+
  moreover have "torn_ok demo_event_env (take n ''{a}'')" if "n < 3" for n
  proof -
    from that consider "n = 0" | "n = 1" | "n = 2" by linarith
    then show ?thesis by cases (hypsubst, code_simp)+
  qed
  ultimately show ?thesis by (simp add: serialized_def demo_event_env_def)
qed

lemma demo_event_serde: "event_serde demo_event_env {demo_event 1}"
  using demo_serialized by (auto simp: event_serde_def demo_event_env_def)

lemma demo_lines:
  "events_of demo_event_env ''{a}'' = [demo_event 1]" "events_of demo_event_env ''{b}'' = [demo_event 2]"
  "line_events demo_event_env ''{a}'' = [demo_event 1]" "line_events demo_event_env ''{b}'' = [demo_event 2]"
  "trim ''{a}'' = ''{a}''" "split_on newline (''{a}'' @ [newline]) = [''{a}'', []]"
  "split_on newline (''{a}'' @ [newline] @ ''{b}'') = [''{a}'', ''{b}'']"
  "split_on newline (''{a}'' @ [newline] @ ''{b}'' @ [newline] @ ''{b}'' @ [newline]) = [''{a}'', ''{b}'', ''{b}'', []]"
  by code_simp+

lemma demo_lossy [simp]: "ee_lossy demo_event_env = id"
  by (simp add: demo_event_env_def)

lemma demo_numbers [simp]: "ev_sequence (demo_event n) = n" "demo_event 1 \<noteq> demo_event 2" "demo_event 2 \<noteq> demo_event 1"
proof -
  show s: "ev_sequence (demo_event n) = n" for n by (simp add: demo_event_def event_of_draft_def)
  show "demo_event 1 \<noteq> demo_event 2" "demo_event 2 \<noteq> demo_event 1"
    using arg_cong [of "demo_event 1" "demo_event 2" ev_sequence] unfolding s by auto
qed

lemma demo_append:
  assumes "next_sequence demo_event_env io file = Inr n" "n = 1 \<and> line = ''{a}'' \<or> n = 2 \<and> line = ''{b}''" "eo_open io"
    and "c = (case file of Some c \<Rightarrow> c | None \<Rightarrow> [])" "length c \<le> 40"
  shows "snd (record_with_metadata demo_event_env io 100 7 demo_draft file)
    = Some (c @ (case eo_write io of None \<Rightarrow> id | Some k \<Rightarrow> take k) (event_payload (\<not> log_ends_on_a_line_break (eo_last_byte io) file) line))"
proof -
  have "ee_ser demo_event_env (event_of_draft n 7 demo_draft) = Some line"
    using assms(2) by (auto simp: demo_event_env_def simp flip: demo_event_def)
  moreover have "length (event_payload b line) \<le> 5" for b using assms(2) by (auto simp: event_payload_def)
  then have "length (c @ event_payload b line) \<le> unat (100 :: u64)" for b using assms(5) by (simp add: le_trans [of _ 45] add_mono [of _ 40 _ 5, simplified])
  ultimately show ?thesis using assms(1,3,4)
    by (auto simp: record_with_metadata_def append_event_def enforce_retention_def Let_def split: option.splits)
qed

lemma demo_first:
  "record_with_metadata demo_event_env demo_io 100 7 demo_draft None = (Inr 1, Some (''{a}'' @ [newline]))"
proof -
  have n: "next_sequence demo_event_env demo_io None = Inr 1"
    by (simp add: next_sequence_def next_sequence_from_tail_def load_all_def file_events_def after_last_event_def)
  have "ee_ser demo_event_env (event_of_draft 1 7 demo_draft) = Some ''{a}''"
    by (simp add: demo_event_env_def flip: demo_event_def)
  with n show ?thesis
    by (simp add: record_with_metadata_def append_event_def enforce_retention_def Let_def demo_io_def event_payload_def log_ends_on_a_line_break_def)
qed


text \<open>
  The stop that \<open>step_clean\<close> excludes is a real one: a record cut off exactly before its line break is
  read back, but the tail skips it, and the next event takes its number.
\<close>

lemma stop_before_line_break_repeats_number:
  "let file1 = snd (record_with_metadata demo_event_env demo_io 100 7 demo_draft None);
       file2 = snd (record_with_metadata demo_event_env (demo_io\<lparr>eo_write := Some 3\<rparr>) 100 7 demo_draft file1);
       file3 = snd (record_with_metadata demo_event_env demo_io 100 7 demo_draft file2)
   in map ev_sequence (file_events demo_event_env file3) = [1, 2, 2]"
proof -
  have tail: "next_sequence demo_event_env io (Some c) = Inr 2"
    if "split_on newline c = [''{a}'', t]" "eo_tail io" "length c \<le> 40" for io c t
  proof -
    have "c \<noteq> []" using that(1) by auto
    moreover have "min (length c) SEQUENCE_TAIL_WINDOW_BYTES = length c" using that(3) by (simp add: SEQUENCE_TAIL_WINDOW_BYTES_def)
    ultimately have "tail_sequence demo_event_env SEQUENCE_TAIL_WINDOW_BYTES c = Some 2"
      using that(1) by (simp add: tail_sequence_def Let_def highest_sequence_on_line_def demo_lines)
    with that(2) show ?thesis by (simp add: next_sequence_def next_sequence_from_tail_def)
  qed
  let ?io = "demo_io\<lparr>eo_write := Some 3\<rparr>" and ?f1 = "''{a}'' @ [newline]" and ?f2 = "''{a}'' @ [newline] @ ''{b}''"
  have "snd (record_with_metadata demo_event_env ?io 100 7 demo_draft (Some ?f1)) = Some ?f2"
    using demo_append [OF tail [OF demo_lines(6)], of ?io "''{b}''"]
    by (simp add: demo_io_def log_ends_on_a_line_break_def event_payload_def)
  moreover have "snd (record_with_metadata demo_event_env demo_io 100 7 demo_draft (Some ?f2)) = Some (?f2 @ [newline] @ ''{b}'' @ [newline])"
    using demo_append [OF tail [OF demo_lines(7)], of demo_io "''{b}''"]
    by (simp add: demo_io_def log_ends_on_a_line_break_def event_payload_def newline_def)
  moreover have "file_events demo_event_env (Some (?f2 @ [newline] @ ''{b}'' @ [newline])) = [demo_event 1, demo_event 2, demo_event 2]"
    using demo_lines(8) by (simp add: file_events_def text_lines_def Let_def demo_lines)
  ultimately show ?thesis using demo_first by (simp add: Let_def)
qed

text \<open>A rewrite for retention that stops at once leaves an empty log, not the old one.\<close>

lemma stopped_retention_empties_log:
  assumes "event_serde env S" "set (file_events env (Some c)) \<subseteq> S" "eo_stat io" "eo_load io 1" "eo_save io = SaveStops 0"
    and "unat limit < length c" "RETENTION_FLOOR_EVENTS < length (file_events env (Some c))"
  shows "enforce_retention env io limit (Some c) = Some []"
proof -
  let ?es = "file_events env (Some c)"
  let ?kept = "drop (length ?es - max (length ?es div 2) RETENTION_FLOOR_EVENTS) ?es"
  have "set ?kept \<subseteq> S" using assms(2) set_drop_subset by fast
  from render_lines [OF assms(1) this] obtain ls where "render_events env ?kept = Some (unlines ls)" by blast
  then have "snd (save_all env io ?kept (Some c)) = Some []" using assms(5) by (simp add: save_all_def)
  with assms(3,4,6,7) show ?thesis by (simp add: enforce_retention_def load_all_def Let_def)
qed

end
