(* ===== verification/Event_Trail.thy ===== *)
theory Event_Trail
  imports Event_Store
begin

text \<open>
  The decision trail (\<open>registry/event_store.rs\<close>): what a \<open>read_file\<close> result carries of the events of
  its file, how a copied trail is cut from a write again, the history brief of a worker, and the
  tools over the store.  A tool answers with a JSON value; printing it is \<open>serde_json\<close>'s.
\<close>

section \<open>Searching text\<close>

fun rfind :: "string \<Rightarrow> string \<Rightarrow> nat option" where
  "rfind p [] = (if p = [] then Some 0 else None)"
| "rfind p (c # cs) =
     (case rfind p cs of Some i \<Rightarrow> Some (Suc i) | None \<Rightarrow> if starts_with (c # cs) p then Some 0 else None)"

fun find_char :: "char \<Rightarrow> string \<Rightarrow> nat option" where
  "find_char x [] = None"
| "find_char x (c # cs) = (if c = x then Some 0 else map_option Suc (find_char x cs))"

definition trim_start :: "string \<Rightarrow> string" where
  "trim_start s = dropWhile is_whitespace s"

definition to_uppercase :: "string \<Rightarrow> string" where
  "to_uppercase s = map (\<lambda>c. let n = (of_char c :: nat) in if 97 \<le> n \<and> n \<le> 122 then char_of (n - 32) else c) s"

section \<open>The trail\<close>

definition two_rules :: string where
  "two_rules = [CHR 0xE2, CHR 0x94, CHR 0x80, CHR 0xE2, CHR 0x94, CHR 0x80]"

definition DECISION_TRAIL_HEADER :: string where
  "DECISION_TRAIL_HEADER = two_rules @ '' Decision Trail '' @ two_rules"

definition DECISION_TRAIL_BANNER :: string where
  "DECISION_TRAIL_BANNER = two_rules @ '' End of file content.''"

definition MAX_TOOL_RESULT_FOR_CONTEXT :: nat where
  "MAX_TOOL_RESULT_FOR_CONTEXT = 4000"

definition render_trail_entry :: "u64 \<Rightarrow> string \<Rightarrow> string \<Rightarrow> string \<Rightarrow> string" where
  "render_trail_entry n tag tool description = ''  [#'' @ show_u64 n @ ''] '' @ tag @ '' ['' @ tool @ ''] '' @ description"

text \<open>\<open>max_by_key\<close>: the last of the greatest.\<close>

fun newest_of :: "CodebaseEvent list \<Rightarrow> CodebaseEvent option" where
  "newest_of [] = None"
| "newest_of (e # es) =
     Some (foldl (\<lambda>best x. if ev_sequence best \<le> ev_sequence x then x else best) e es)"

definition file_verdict :: "CodebaseEvent list \<Rightarrow> string" where
  "file_verdict events =
     (let signal = filter is_high_signal events;
          failures = length (filter (\<lambda>e. ev_outcome e = Failure) signal);
          reverts = length (filter (\<lambda>e. ev_outcome e = Revert) signal);
          successes = length (filter (\<lambda>e. ev_outcome e = Success) signal);
          conflicts = length (filter (has_metadata ''shared_write_conflict'') signal);
          parts = [show_nat successes @ '' change(s) landed'']
            @ (if 0 < failures then [show_nat failures @ '' failure(s)''] else [])
            @ (if 0 < conflicts then [show_nat conflicts @ '' shared-write conflict(s)''] else [])
            @ (if 0 < reverts then [show_nat reverts @ '' revert(s)''] else []) in
      ''[verdict] '' @ join '', '' parts @ ''.''
      @ (case newest_of signal of
           None \<Rightarrow> []
         | Some n \<Rightarrow> '' Latest decision [#'' @ show_u64 (ev_sequence n) @ ''] '' @ event_outcome_label (ev_outcome n)
             @ '' ['' @ ev_tool_name n @ ''] '' @ ev_description n
             @ (case ev_failure_reason n of Some reason \<Rightarrow> '' '' @ em_dash @ '' '' @ reason | None \<Rightarrow> []) @ ''.''))"

fun outcome_tag :: "EventOutcome \<Rightarrow> string" where
  "outcome_tag Success = ''OK''"
| "outcome_tag Failure = ''FAIL''"
| "outcome_tag Revert = ''REVERT''"
| "outcome_tag Pending = ''?''"

definition trail_entry :: "CodebaseEvent \<Rightarrow> string" where
  "trail_entry e = render_trail_entry (ev_sequence e) (outcome_tag (ev_outcome e)) (ev_tool_name e) (ev_description e)
     @ (case ev_context e of Some ctx \<Rightarrow> '' '' @ em_dash @ '' '' @ ctx | None \<Rightarrow> [])
     @ (case ev_failure_reason e of Some reason \<Rightarrow> '' (failed: '' @ reason @ '')'' | None \<Rightarrow> [])"

definition trail_banner :: "string list" where
  "trail_banner = [DECISION_TRAIL_BANNER @ '' The Decision Trail below is harness metadata appended to '',
     ''this tool result by V.E.L.O.C.I.T.Y.; it is NOT part of the file and must never be copied'',
     ''into a file write. '' @ two_rules]"

text \<open>The loop over the newest eight decisions: it stops at the first that does not fit.\<close>

fun add_entries :: "string \<Rightarrow> string list \<Rightarrow> string \<times> nat" where
  "add_entries enriched [] = (enriched, 0)"
| "add_entries enriched (entry # rest) =
     (if MAX_TOOL_RESULT_FOR_CONTEXT < length enriched + length (entry @ [newline]) then (enriched, 0)
      else (let (r, n) = add_entries (enriched @ entry @ [newline]) rest in (r, Suc n)))"

definition push_if_fits :: "string \<Rightarrow> string \<Rightarrow> string" where
  "push_if_fits line enriched =
     (if length enriched + length (line @ [newline]) \<le> MAX_TOOL_RESULT_FOR_CONTEXT then enriched @ line @ [newline] else enriched)"

definition noise_line :: "nat \<Rightarrow> string" where
  "noise_line n = ''  [noise] '' @ show_nat n @ '' read-only poll(s) folded (no codebase change)''"

definition omission_note :: "nat \<Rightarrow> string" where
  "omission_note n = ''  [trail] '' @ show_nat n @ '' older decision(s) omitted to keep the file text usable''"

definition enrich_read_response :: "event_env \<Rightarrow> bool \<Rightarrow> string option \<Rightarrow> string \<Rightarrow> string \<Rightarrow> string" where
  "enrich_read_response env opens file relative_path content =
     (case event_query env opens file (Some relative_path) None 40 of
        Inl _ \<Rightarrow> content
      | Inr events \<Rightarrow>
          if events = [] then content
          else (let signal = filter is_high_signal events;
                    noise = length (filter (\<lambda>e. \<not> is_high_signal e) events) in
            if signal = [] \<and> noise = 0 then content
            else if MAX_TOOL_RESULT_FOR_CONTEXT \<le> length content then content
            else (let banner = newline # newline # unlines (trail_banner @ [DECISION_TRAIL_HEADER, ''  '' @ file_verdict events]) in
              if MAX_TOOL_RESULT_FOR_CONTEXT < length content + length banner then content
              else (let (enriched, added) = add_entries (content @ banner) (map trail_entry (take 8 signal));
                        omitted = length signal - added;
                        enriched1 = (if 0 < noise then push_if_fits (noise_line noise) enriched else enriched) in
                if 0 < omitted then push_if_fits (omission_note omitted) enriched1 else enriched1))))"

definition trail_marked :: "string \<Rightarrow> bool" where
  "trail_marked line \<longleftrightarrow> (let t = trim_start line in starts_with t ''[#'' \<or> starts_with t ''[verdict]'' \<or> starts_with t ''[noise]'')"

definition strip_decision_trail :: "string \<Rightarrow> string option" where
  "strip_decision_trail content =
     (case rfind DECISION_TRAIL_HEADER content of
        None \<Rightarrow> None
      | Some header_at \<Rightarrow>
          let line_start = (case rfind [newline] (take header_at content) of Some i \<Rightarrow> i + 1 | None \<Rightarrow> 0);
              line_end = (case find_char newline (drop header_at content) of Some i \<Rightarrow> header_at + 1 + i | None \<Rightarrow> length content) in
          if trim (take (line_end - line_start) (drop line_start content)) \<noteq> DECISION_TRAIL_HEADER then None
          else (let entries = filter (\<lambda>line. trim line \<noteq> []) (text_lines (drop line_end content)) in
            if \<not> list_all trail_marked entries \<or> entries = [] then None
            else (let cut = (case rfind DECISION_TRAIL_BANNER (take line_start content) of
                          Some b \<Rightarrow> if (case rfind [newline] (take b content) of None \<Rightarrow> True | Some n \<Rightarrow> n + 1 = b) then b else line_start
                        | None \<Rightarrow> line_start);
                      cleaned = take cut content in
              Some (if ends_with cleaned [newline, newline] then take (length cleaned - 2) cleaned else cleaned))))"

section \<open>The brief of a worker\<close>

definition brief_line :: "CodebaseEvent \<Rightarrow> string" where
  "brief_line e = ''[#'' @ show_u64 (ev_sequence e) @ ''] '' @ to_uppercase (event_outcome_label (ev_outcome e)) @ '' ['' @ ev_tool_name e @ ''] ''
     @ ev_description e
     @ (case ev_failure_reason e of Some reason \<Rightarrow> '' '' @ em_dash @ '' reason: '' @ reason | None \<Rightarrow> [])
     @ (case ev_context e of Some ctx \<Rightarrow> '' '' @ em_dash @ '' why: '' @ ctx | None \<Rightarrow> [])"

definition brief_step :: "CodebaseEvent \<Rightarrow> u64 list \<times> (u64 \<times> string) list \<Rightarrow> u64 list \<times> (u64 \<times> string) list" where
  "brief_step e st =
     (let (seen, collected) = st in
      if \<not> is_high_signal e \<or> ev_sequence e \<in> set seen then st
      else (ev_sequence e # seen, collected @ [(ev_sequence e, brief_line e)]))"

definition brief_file ::
  "event_env \<Rightarrow> bool \<Rightarrow> string option \<Rightarrow> string \<Rightarrow> u64 list \<times> (u64 \<times> string) list \<Rightarrow> u64 list \<times> (u64 \<times> string) list" where
  "brief_file env opens file scope_file st =
     (case event_query env opens file (Some scope_file) None 20 of Inl _ \<Rightarrow> st | Inr events \<Rightarrow> fold brief_step events st)"

definition BRIEF_PREAMBLE :: string where
  "BRIEF_PREAMBLE = ''PRIOR DECISION HISTORY for this scope (from the workspace event store). Failures and '' @ [newline]
     @ ''conflicts below already happened in past sessions '' @ em_dash @ '' do not repeat an approach that failed '' @ [newline]
     @ ''without changing the strategy; if a shared-write conflict is listed, the scope was already held '' @ [newline]
     @ ''by another agent.'' @ [newline]"

definition history_brief :: "event_env \<Rightarrow> bool \<Rightarrow> string option \<Rightarrow> string list \<Rightarrow> nat \<Rightarrow> string" where
  "history_brief env opens file scope_files max_lines =
     (let collected = snd (fold (brief_file env opens file) (take 12 scope_files) ([], [])) in
      if collected = [] then []
      else BRIEF_PREAMBLE @ join [newline] (map (\<lambda>(_, line). ''  '' @ line)
        (take max_lines (sort_key (\<lambda>(n, _). - int (unat n)) collected))))"

section \<open>Finding the header\<close>

lemma starts_with_sep:
  assumes "newline \<notin> set p"
  shows "starts_with (x @ newline # y) p \<longleftrightarrow> starts_with x p"
proof
  assume "starts_with (x @ newline # y) p"
  then obtain z where z: "x @ newline # y = p @ z" by (auto simp: starts_with_append)
  then obtain us where "x = p @ us \<or> x @ us = p \<and> newline # y = us @ z" by (auto simp: append_eq_append_conv2)
  then show "starts_with x p"
  proof
    assume us: "x @ us = p \<and> newline # y = us @ z"
    with assms have "us = []" by (cases us) auto
    with us show ?thesis by auto
  qed (auto simp: starts_with_append)
qed (auto simp: starts_with_append)

lemma contains_sep:
  assumes "newline \<notin> set p" "p \<noteq> []"
  shows "str_contains p (x @ newline # y) \<longleftrightarrow> str_contains p x \<or> str_contains p y"
proof (induction x)
  case Nil
  show ?case using assms starts_with_sep [OF assms(1), of "[]" y] by (simp add: starts_with_def)
next
  case (Cons c x)
  show ?case using Cons starts_with_sep [OF assms(1), of "c # x" y] by simp
qed

lemma contains_length: "str_contains p s \<Longrightarrow> length p \<le> length s"
  by (induction s) (auto simp: starts_with_append dest: arg_cong [where f = length])

lemma rfind_None: "rfind p s = None \<longleftrightarrow> \<not> str_contains p s"
  by (induction s) (auto split: option.splits)

lemma rfind_append: "rfind p b = Some i \<Longrightarrow> rfind p (a @ b) = Some (length a + i)"
  by (induction a) simp_all

text \<open>A line that no later line contains is where the last occurrence is.\<close>

lemma rfind_line:
  assumes "newline \<notin> set p" "p \<noteq> []" "\<not> str_contains p b"
  shows "rfind p (a @ p @ newline # b) = Some (length a)"
proof -
  have "\<not> str_contains p (tl p @ newline # b)"
    using contains_sep [OF assms(1,2), of "tl p" b] contains_length [of p "tl p"] assms(2,3) by (cases p) auto
  then have "rfind p (tl (p @ newline # b)) = None" using assms(2) by (simp add: rfind_None)
  moreover have "starts_with (p @ newline # b) p" by (simp add: starts_with_append)
  ultimately have "rfind p (p @ newline # b) = Some 0" using assms(2) by (cases p) simp_all
  from rfind_append [OF this] show ?thesis by simp
qed

lemma contains_unlines:
  assumes "newline \<notin> set p" "p \<noteq> []"
  shows "str_contains p (unlines ls @ b) \<longleftrightarrow> (\<exists>l\<in>set ls. str_contains p l) \<or> str_contains p b"
  by (induction ls) (simp_all add: contains_sep [OF assms])

lemma rfind_newline:
  assumes "newline \<notin> set b"
  shows "rfind [newline] (a @ newline # b) = Some (length a)"
proof -
  from assms have "\<not> str_contains [newline] b" by (induction b) (auto simp: starts_with_def)
  then have "rfind [newline] (newline # b) = Some 0" by (simp add: rfind_None [symmetric] starts_with_def)
  from rfind_append [OF this] show ?thesis by simp
qed

lemma find_char_append: "x \<notin> set a \<Longrightarrow> find_char x (a @ x # b) = Some (length a)"
  by (induction a) auto

section \<open>Cutting the trail\<close>

definition trail_block :: "string list \<Rightarrow> string" where
  "trail_block ls = newline # newline # unlines (trail_banner @ DECISION_TRAIL_HEADER # ls)"

definition clean_line :: "string \<Rightarrow> bool" where
  "clean_line l \<longleftrightarrow> newline \<notin> set l \<and> \<not> str_contains DECISION_TRAIL_HEADER l"

lemma header_facts:
  "newline \<notin> set DECISION_TRAIL_HEADER" "DECISION_TRAIL_HEADER \<noteq> []" "trim (DECISION_TRAIL_HEADER @ [newline]) = DECISION_TRAIL_HEADER"
  "newline \<notin> set DECISION_TRAIL_BANNER" "DECISION_TRAIL_BANNER \<noteq> []"
  by code_simp+

lemma banner_facts:
  "list_all (\<lambda>l. newline \<notin> set l) trail_banner"
  "\<not> str_contains DECISION_TRAIL_BANNER (tl (DECISION_TRAIL_BANNER @ '' The Decision Trail below is harness metadata appended to ''))"
  "list_all (\<lambda>l. \<not> str_contains DECISION_TRAIL_BANNER l) (tl trail_banner)"
  by code_simp+

lemma banner_found: "rfind DECISION_TRAIL_BANNER (a @ unlines trail_banner) = Some (length a)"
proof -
  let ?l = "hd trail_banner" and ?b = "unlines (tl trail_banner)"
  have l: "?l = DECISION_TRAIL_BANNER @ '' The Decision Trail below is harness metadata appended to ''"
    and u: "unlines trail_banner = ?l @ newline # ?b" by (simp_all add: trail_banner_def)
  have "\<not> str_contains DECISION_TRAIL_BANNER ?b"
    using contains_unlines [OF header_facts(4,5), of "tl trail_banner" "[]"] banner_facts(3) header_facts(5)
    by (simp add: list_all_iff)
  then have "\<not> str_contains DECISION_TRAIL_BANNER (tl ?l @ newline # ?b)"
    using banner_facts(2) by (simp add: contains_sep [OF header_facts(4,5)] flip: l)
  then have "rfind DECISION_TRAIL_BANNER (tl ?l @ newline # ?b) = None" by (simp add: rfind_None)
  moreover have "starts_with (?l @ newline # ?b) DECISION_TRAIL_BANNER" unfolding l by (auto simp: starts_with_append)
  moreover have "?l \<noteq> []" unfolding l using header_facts(5) by simp
  ultimately have "rfind DECISION_TRAIL_BANNER (?l @ newline # ?b) = Some 0" by (cases ?l) simp_all
  from rfind_append [OF this] show ?thesis by (simp add: u)
qed

lemma text_lines_unlines: "list_all (\<lambda>l. newline \<notin> set l) ls \<Longrightarrow> text_lines (unlines ls) = ls"
  using split_on_unlines [of ls "[]"] by (simp add: text_lines_def framed_def list_all_iff)

lemma strip_block:
  assumes "list_all clean_line ls" "list_all (\<lambda>l. trim l \<noteq> []) ls" "ls \<noteq> []"
  shows "strip_decision_trail (c @ trail_block ls) = (if list_all trail_marked ls then Some c else None)"
proof -
  define pre where "pre = c @ newline # newline # unlines trail_banner"
  define s where "s = c @ trail_block ls"
  have s: "s = pre @ DECISION_TRAIL_HEADER @ newline # unlines ls" by (simp add: s_def pre_def trail_block_def)
  have nl: "list_all (\<lambda>l. newline \<notin> set l) ls" using assms(1) by (auto simp: clean_line_def list_all_iff)
  have "\<not> str_contains DECISION_TRAIL_HEADER (unlines ls)"
    using contains_unlines [OF header_facts(1,2), of ls "[]"] assms(1) header_facts(2) by (simp add: clean_line_def list_all_iff)
  from rfind_line [OF header_facts(1,2) this, of pre] have at: "rfind DECISION_TRAIL_HEADER s = Some (length pre)" by (simp add: s)
  obtain q where q: "pre = q @ [newline]" by (simp add: pre_def trail_banner_def)
  have pre: "take (length q + 1) s = c @ newline # newline # unlines trail_banner" using q by (simp add: s) (simp add: pre_def flip: q)
  have ls: "rfind [newline] (take (length pre) s) = Some (length q)" using rfind_newline [of "[]" q] by (simp add: s q)
  have le: "find_char newline (drop (length pre) s) = Some (length DECISION_TRAIL_HEADER)"
    using find_char_append [OF header_facts(1), of "unlines ls"] by (simp add: s)
  have rest: "drop (length pre + 1 + length DECISION_TRAIL_HEADER) s = unlines ls" by (simp add: s)
  have line: "take (length pre + 1 + length DECISION_TRAIL_HEADER - (length q + 1)) (drop (length q + 1) s) = DECISION_TRAIL_HEADER @ [newline]"
    by (simp add: s q)
  have bn: "rfind DECISION_TRAIL_BANNER (take (length q + 1) s) = Some (length c + 2)"
    using banner_found [of "c @ [newline, newline]"] unfolding pre by simp
  have cut: "take (length c + 2) s = c @ [newline, newline]" by (simp add: s_def trail_block_def)
  have two: "rfind [newline] (take (length c + 2) s) = Some (length c + 1)" using rfind_newline [of "[]" "c @ [newline]"] unfolding cut by simp
  have entries: "filter (\<lambda>line. trim line \<noteq> []) (text_lines (unlines ls)) = ls"
    using assms(2) by (simp add: text_lines_unlines [OF nl] list_all_iff)
  have "ends_with (c @ [newline, newline]) [newline, newline]" by (simp add: ends_with_def starts_with_def)
  with assms(3) show ?thesis
    unfolding s_def [symmetric] strip_decision_trail_def at option.case ls le Let_def line rest bn two entries header_facts(3) by (simp add: cut [simplified])
qed

section \<open>What a read carries\<close>

lemma add_entries_shape:
  assumes "add_entries base xs = (r, n)"
  shows "n \<le> length xs \<and> r = base @ unlines (take n xs)
    \<and> (length base \<le> MAX_TOOL_RESULT_FOR_CONTEXT \<longrightarrow> length r \<le> MAX_TOOL_RESULT_FOR_CONTEXT)"
  using assms
proof (induction base xs arbitrary: r n rule: add_entries.induct)
  case (2 base x xs)
  obtain r1 n1 where rec: "add_entries (base @ x @ [newline]) xs = (r1, n1)" by (metis surj_pair)
  show ?case
  proof (cases "MAX_TOOL_RESULT_FOR_CONTEXT < length base + length (x @ [newline])")
    case False
    from "2.IH" [OF False rec] "2.prems" False rec show ?thesis by auto
  qed (use "2.prems" in simp)
qed simp

lemma push_if_fits_shape:
  "\<exists>ls. push_if_fits l s = s @ unlines ls \<and> set ls \<subseteq> {l}
    \<and> (length s \<le> MAX_TOOL_RESULT_FOR_CONTEXT \<longrightarrow> length (push_if_fits l s) \<le> MAX_TOOL_RESULT_FOR_CONTEXT)"
  by (intro exI [of _ "if length s + length (l @ [newline]) \<le> MAX_TOOL_RESULT_FOR_CONTEXT then [l] else []"]) (simp add: push_if_fits_def)

lemma optional_push_shape:
  "\<exists>ls. (if b then push_if_fits l s else s) = s @ unlines ls \<and> set ls \<subseteq> {l}
    \<and> (length s \<le> MAX_TOOL_RESULT_FOR_CONTEXT \<longrightarrow> length (if b then push_if_fits l s else s) \<le> MAX_TOOL_RESULT_FOR_CONTEXT)"
  using push_if_fits_shape [of l s] by (cases b) (auto intro: exI [of _ "[]"])

text \<open>The lines a trail may have: the verdict, then decisions, the count of polls and the note.\<close>

lemma enrich_shape:
  assumes "event_query env opens file (Some path) None 40 = Inr events" "enrich_read_response env opens file path c \<noteq> c"
  shows "\<exists>ls n m k. enrich_read_response env opens file path c = c @ trail_block ((''  '' @ file_verdict events) # ls)
    \<and> set ls \<subseteq> set (take n (map trail_entry (take 8 (filter is_high_signal events)))) \<union> {noise_line m, omission_note k}
    \<and> length (enrich_read_response env opens file path c) \<le> MAX_TOOL_RESULT_FOR_CONTEXT"
proof -
  define signal where "signal = filter is_high_signal events"
  define m where "m = length (filter (\<lambda>e. \<not> is_high_signal e) events)"
  define ban where "ban = newline # newline # unlines (trail_banner @ [DECISION_TRAIL_HEADER, ''  '' @ file_verdict events])"
  let ?e = "enrich_read_response env opens file path c"
  obtain r n where add: "add_entries (c @ ban) (map trail_entry (take 8 signal)) = (r, n)" by (metis surj_pair)
  let ?k = "length signal - n"
  define r1 where "r1 = (if 0 < m then push_if_fits (noise_line m) r else r)"
  have "?e = (if events = [] \<or> signal = [] \<and> m = 0 \<or> MAX_TOOL_RESULT_FOR_CONTEXT \<le> length c \<or> MAX_TOOL_RESULT_FOR_CONTEXT < length c + length ban
      then c else if 0 < ?k then push_if_fits (omission_note ?k) r1 else r1)"
    unfolding enrich_read_response_def assms(1) sum.case Let_def signal_def [symmetric] m_def [symmetric] ban_def [symmetric] add prod.case r1_def
    by simp
  with assms(2) have fits: "length (c @ ban) \<le> MAX_TOOL_RESULT_FOR_CONTEXT"
    and e: "?e = (if 0 < ?k then push_if_fits (omission_note ?k) r1 else r1)"
    by (auto split: if_splits)
  note shape = add_entries_shape [OF add]
  obtain ls1 where ls1: "r1 = r @ unlines ls1" "set ls1 \<subseteq> {noise_line m}" "length r \<le> MAX_TOOL_RESULT_FOR_CONTEXT \<longrightarrow> length r1 \<le> MAX_TOOL_RESULT_FOR_CONTEXT"
    using optional_push_shape [of "0 < m" "noise_line m" r] unfolding r1_def by blast
  obtain ls2 where ls2: "?e = r1 @ unlines ls2" "set ls2 \<subseteq> {omission_note ?k}" "length r1 \<le> MAX_TOOL_RESULT_FOR_CONTEXT \<longrightarrow> length ?e \<le> MAX_TOOL_RESULT_FOR_CONTEXT"
    using optional_push_shape [of "0 < ?k" "omission_note ?k" r1] unfolding e by blast
  have "?e = c @ trail_block ((''  '' @ file_verdict events) # take n (map trail_entry (take 8 signal)) @ ls1 @ ls2)"
    using shape ls1(1) ls2(1) by (simp add: trail_block_def ban_def)
  moreover have "length ?e \<le> MAX_TOOL_RESULT_FOR_CONTEXT" using fits shape ls1(3) ls2(3) by blast
  ultimately show ?thesis using ls1(2) ls2(2) unfolding signal_def [symmetric]
    by (intro exI [of _ "take n (map trail_entry (take 8 signal)) @ ls1 @ ls2"] exI [of _ n] exI [of _ m] exI [of _ ?k]) auto
qed

section \<open>Round trip\<close>

definition trail_clean :: "CodebaseEvent list \<Rightarrow> bool" where
  "trail_clean events \<longleftrightarrow> clean_line (''  '' @ file_verdict events) \<and> list_all (\<lambda>e. clean_line (trail_entry e)) (filter is_high_signal events)"

lemma contains_subset: "str_contains p s \<Longrightarrow> set p \<subseteq> set s"
proof (induction s)
  case (Cons c s)
  have "set p \<subseteq> set (c # s)" if "starts_with (c # s) p" using that set_take_subset [of "length p" "c # s"] by (simp add: starts_with_def)
  with Cons show ?case by auto
qed simp

lemma clean_ascii:
  assumes "newline \<notin> set l" "CHR 0xE2 \<notin> set l"
  shows "clean_line l"
proof -
  have "CHR 0xE2 \<in> set DECISION_TRAIL_HEADER" by (simp add: DECISION_TRAIL_HEADER_def two_rules_def)
  with assms contains_subset show ?thesis by (auto simp: clean_line_def)
qed

lemma show_nat_ascii: "newline \<notin> set (show_nat n)" "CHR 0xE2 \<notin> set (show_nat n)"
  using show_nat_digits(1) [of n] by (auto simp: list_all_iff is_digit_def newline_def)

lemma notes_clean: "clean_line (noise_line n)" "clean_line (omission_note n)"
  using show_nat_ascii by (auto intro!: clean_ascii simp: noise_line_def omission_note_def newline_def)

lemma trim_not_blank: "x \<in> set l \<Longrightarrow> \<not> is_whitespace x \<Longrightarrow> trim l \<noteq> []"
proof
  assume x: "x \<in> set l" "\<not> is_whitespace x" and "trim l = []"
  then have blank: "\<forall>y\<in>set (dropWhile is_whitespace l). is_whitespace y" by (simp add: trim_def trim_matches_def)
  have "x \<in> set (takeWhile is_whitespace l) \<union> set (dropWhile is_whitespace l)"
    using x(1) by (metis set_append takeWhile_dropWhile_id)
  with x(2) blank show False by (auto dest: set_takeWhileD)
qed

lemma whitespace_facts: "is_whitespace CHR '' ''" "\<not> is_whitespace CHR ''[''"
  by (simp_all add: is_whitespace_def)

lemma trail_line_facts:
  "trail_marked (''  '' @ file_verdict es)" "trail_marked (trail_entry e)" "trail_marked (noise_line n)" "\<not> trail_marked (omission_note n)"
  "CHR ''['' \<in> set (''  '' @ file_verdict es)" "CHR ''['' \<in> set (trail_entry e)" "CHR ''['' \<in> set (noise_line n)" "CHR ''['' \<in> set (omission_note n)"
  by (simp_all add: trail_marked_def Let_def trim_start_def file_verdict_def trail_entry_def render_trail_entry_def noise_line_def
    omission_note_def whitespace_facts starts_with_def)

text \<open>
  C31. What a read appends, a write can take off again: when the lines of a trail are single lines
  that do not quote its header, the trail follows the whole content, the result stays within the
  4000 bytes that survive in the context, and cutting the trail of the result gives the content
  back byte for byte, unless the trail ends in the note on omitted decisions, which the cut does
  not recognise and leaves the result as it is.
\<close>

theorem trail_round_trip:
  assumes "event_query env opens file (Some path) None 40 = Inr events" "trail_clean events"
    and "enrich_read_response env opens file path c \<noteq> c"
  shows "\<exists>ls. enrich_read_response env opens file path c = c @ trail_block ls
    \<and> length (enrich_read_response env opens file path c) \<le> 4000
    \<and> strip_decision_trail (enrich_read_response env opens file path c) = (if \<exists>n. omission_note n \<in> set ls then None else Some c)"
proof -
  obtain ls n m k where ls: "enrich_read_response env opens file path c = c @ trail_block ((''  '' @ file_verdict events) # ls)"
      "length (enrich_read_response env opens file path c) \<le> MAX_TOOL_RESULT_FOR_CONTEXT"
      and sub: "set ls \<subseteq> set (take n (map trail_entry (take 8 (filter is_high_signal events)))) \<union> {noise_line m, omission_note k}"
    using enrich_shape [OF assms(1,3)] by blast
  let ?ls = "(''  '' @ file_verdict events) # ls"
  have kinds: "l = ''  '' @ file_verdict events \<or> (\<exists>e\<in>set (filter is_high_signal events). l = trail_entry e) \<or> l = noise_line m \<or> l = omission_note k"
    if "l \<in> set ?ls" for l
  proof -
    have "set (take n (map trail_entry (take 8 (filter is_high_signal events)))) \<subseteq> trail_entry ` set (filter is_high_signal events)"
      by (meson dual_order.trans image_mono list.set_map set_take_subset subset_refl subset_trans
        set_take_subset [of n "map trail_entry (take 8 (filter is_high_signal events))", unfolded list.set_map])
    with that sub show ?thesis by auto
  qed
  have clean: "list_all clean_line ?ls"
    using kinds assms(2) notes_clean unfolding trail_clean_def list_all_iff by blast
  have blank: "list_all (\<lambda>l. trim l \<noteq> []) ?ls"
    unfolding list_all_iff using kinds trail_line_facts(5-8) trim_not_blank [OF _ whitespace_facts(2)] by blast
  have marked: "list_all trail_marked ?ls \<longleftrightarrow> \<not> (\<exists>n. omission_note n \<in> set ?ls)"
    unfolding list_all_iff using kinds trail_line_facts(1-4) by blast
  show ?thesis using ls strip_block [OF clean blank, of c] marked by (intro exI [of _ ?ls]) (auto simp: MAX_TOOL_RESULT_FOR_CONTEXT_def)
qed

definition trail_event :: "u64 \<Rightarrow> CodebaseEvent" where
  "trail_event n = event_of_draft n 0 \<lparr>dr_tool_name = ''patch_file'', dr_description = ''edit'', dr_merkle_root_before = None,
     dr_merkle_root_after = None, dr_context = None, dr_affected_files = [''a.rs''], dr_outcome = Success, dr_failure_reason = None, dr_metadata = None\<rparr>"

definition trail_env :: event_env where
  "trail_env = \<lparr>ee_ser = (\<lambda>_. None), ee_de = (\<lambda>l. if l = ''1'' then Some (trail_event 1) else None), ee_utf8 = (\<lambda>_. True), ee_lossy = id\<rparr>"

lemma demo_query: "event_query trail_env True (Some ''1'') (Some ''a.rs'') None 40 = Inr [trail_event 1]"
  by code_simp

lemma demo_clean: "trail_clean [trail_event 1]"
  by code_simp

lemma trail_event_high: "is_high_signal (trail_event 1)"
  by code_simp

lemma demo_enriched:
  "enrich_read_response trail_env True (Some ''1'') ''a.rs'' ''x''
   = ''x'' @ trail_block [''  '' @ file_verdict [trail_event 1], trail_entry (trail_event 1)]"
  by code_simp

lemma demo_stripped: "strip_decision_trail (enrich_read_response trail_env True (Some ''1'') ''a.rs'' ''x'') = Some ''x''"
  using strip_block [of "[''  '' @ file_verdict [trail_event 1], trail_entry (trail_event 1)]" "''x''"] demo_clean
    trim_not_blank [OF trail_line_facts(5) whitespace_facts(2)] trim_not_blank [OF trail_line_facts(6) whitespace_facts(2)]
  unfolding demo_enriched trail_clean_def by (simp add: trail_line_facts [simplified] trail_event_high)

theorem trail_round_trip_witness:
  "(\<exists>ls. enrich_read_response trail_env True (Some ''1'') ''a.rs'' ''x'' = ''x'' @ trail_block ls
     \<and> length (enrich_read_response trail_env True (Some ''1'') ''a.rs'' ''x'') \<le> 4000
     \<and> strip_decision_trail (enrich_read_response trail_env True (Some ''1'') ''a.rs'' ''x'')
         = (if \<exists>n. omission_note n \<in> set ls then None else Some ''x''))
   \<and> strip_decision_trail (enrich_read_response trail_env True (Some ''1'') ''a.rs'' ''x'') = Some ''x''"
proof -
  have "enrich_read_response trail_env True (Some ''1'') ''a.rs'' ''x'' \<noteq> ''x''" by (simp add: demo_enriched trail_block_def)
  from trail_round_trip [OF demo_query demo_clean this] demo_stripped show ?thesis by blast
qed

text \<open>Nine short decisions are enough for a note, so for a trail that is not cut.\<close>

lemma nine_decisions_enriched:
  "enrich_read_response (trail_env\<lparr>ee_de := (\<lambda>_. Some (trail_event 1))\<rparr>) True (Some (unlines (replicate 9 ''1''))) ''a.rs'' ''x''
   = ''x'' @ trail_block ((''  '' @ file_verdict (replicate 9 (trail_event 1))) # replicate 8 (trail_entry (trail_event 1)) @ [omission_note 1])"
  by code_simp

lemma nine_verdict_clean: "clean_line (''  '' @ file_verdict (replicate 9 (trail_event 1)))"
  by code_simp

lemma nine_decisions_not_stripped:
  "strip_decision_trail (enrich_read_response (trail_env\<lparr>ee_de := (\<lambda>_. Some (trail_event 1))\<rparr>) True (Some (unlines (replicate 9 ''1''))) ''a.rs'' ''x'') = None"
proof -
  let ?ls = "(''  '' @ file_verdict (replicate 9 (trail_event 1))) # replicate 8 (trail_entry (trail_event 1)) @ [omission_note 1]"
  have "clean_line (trail_entry (trail_event 1))" using demo_clean trail_event_high by (simp add: trail_clean_def)
  then have "list_all clean_line ?ls" using nine_verdict_clean notes_clean(2) by (simp add: list_all_iff)
  moreover have "list_all (\<lambda>l. trim l \<noteq> []) ?ls" unfolding list_all_iff
    using trail_line_facts(5-8) trim_not_blank [OF _ whitespace_facts(2)] by auto
  moreover have "\<not> list_all trail_marked ?ls" using trail_line_facts(4) by simp
  ultimately show ?thesis using strip_block [of ?ls "''x''"] by (simp add: nine_decisions_enriched)
qed

end
