(* ===== verification/Event_Tools.thy ===== *)
theory Event_Tools
  imports Event_Log Event_Trail
begin

text \<open>
  The tools over the event store (\<open>handle_event_*\<close> of \<open>registry/event_store.rs\<close>): from the JSON
  arguments of a call to the JSON of its answer.  Printing the answer is \<open>serde_json\<close>'s.
\<close>

section \<open>The tools\<close>

datatype tool_error = ToolRefused string | ToolStore event_error

definition arg :: "Json \<Rightarrow> string \<Rightarrow> Json" where
  "arg v key = (case json_get key v of Some x \<Rightarrow> x | None \<Rightarrow> JNull)"

definition opt_str :: "string option \<Rightarrow> Json" where
  "opt_str s = (case s of Some x \<Rightarrow> JStr x | None \<Rightarrow> JNull)"

definition num :: "u64 \<Rightarrow> Json" where
  "num w = JNum (PosInt (unat w))"

definition count_json :: "nat \<Rightarrow> Json" where
  "count_json n = JNum (PosInt n)"

fun parse_outcome :: "string \<Rightarrow> EventOutcome option" where
  "parse_outcome s =
     (if s = ''success'' then Some Success else if s = ''failure'' then Some Failure
      else if s = ''revert'' then Some Revert else if s = ''pending'' then Some Pending else None)"

declare parse_outcome.simps [simp del]

definition handle_event_record ::
  "event_env \<Rightarrow> event_io \<Rightarrow> u64 \<Rightarrow> u64 \<Rightarrow> Json \<Rightarrow> string option \<Rightarrow> (tool_error + Json) \<times> string option" where
  "handle_event_record env io limit now args file =
     (let tool_name = (case as_str (arg args ''tool_name'') of Some s \<Rightarrow> s | None \<Rightarrow> ''manual'') in
      case as_str (arg args ''description'') of
        None \<Rightarrow> (Inl (ToolRefused ''description is required''), file)
      | Some description \<Rightarrow>
          let context = as_str (arg args ''context'');
              affected_files = (case as_array (arg args ''affected_files'') of Some xs \<Rightarrow> List.map_filter as_str xs | None \<Rightarrow> []) in
          (case event_record env io limit now tool_name description (as_str (arg args ''merkle_root_before''))
              (as_str (arg args ''merkle_root_after'')) context affected_files file of
             (Inl e, file') \<Rightarrow> (Inl (ToolStore e), file')
           | (Inr n, file') \<Rightarrow>
               (Inr (JObj [(''message'', JStr (''Recorded event #'' @ show_u64 n)), (''sequence'', num n), (''success'', JBool True)]), file')))"

definition event_json :: "CodebaseEvent \<Rightarrow> (string \<times> Json) list" where
  "event_json e =
     [(''affected_files'', JArr (map JStr (ev_affected_files e))), (''context'', opt_str (ev_context e)),
      (''description'', JStr (ev_description e)), (''failure_reason'', opt_str (ev_failure_reason e)),
      (''merkle_after'', opt_str (ev_merkle_root_after e)), (''merkle_before'', opt_str (ev_merkle_root_before e)),
      (''outcome'', JStr (event_outcome_label (ev_outcome e))), (''seq'', num (ev_sequence e)),
      (''timestamp_ms'', num (ev_timestamp_ms e)), (''tool'', JStr (ev_tool_name e))]"

definition handle_event_history :: "event_env \<Rightarrow> bool \<Rightarrow> bool \<Rightarrow> Json \<Rightarrow> string option \<Rightarrow> tool_error + Json" where
  "handle_event_history env opens opens_again args file =
     (let file_filter = as_str (arg args ''file'');
          limit = min (case as_u64 (arg args ''limit'') of Some n \<Rightarrow> n | None \<Rightarrow> 20) 200;
          outcome_filter = Option.bind (as_str (arg args ''outcome'')) parse_outcome in
      case event_query env opens file file_filter outcome_filter limit of
        Inl e \<Rightarrow> Inl (ToolStore e)
      | Inr events \<Rightarrow>
          (case event_count env opens_again file of
             Inl e \<Rightarrow> Inl (ToolStore e)
           | Inr all_events \<Rightarrow> Inr (JObj [(''events'', JArr (map (JObj \<circ> event_json) events)),
               (''returned'', count_json (length events)), (''totalEvents'', count_json all_events)])))"

definition event_detail :: "CodebaseEvent \<Rightarrow> Json" where
  "event_detail e =
     JObj (take 6 (event_json e) @ [(''metadata'', case ev_metadata e of Some m \<Rightarrow> m | None \<Rightarrow> JNull)] @ drop 6 (event_json e))"

definition handle_event_context :: "event_env \<Rightarrow> bool \<Rightarrow> Json \<Rightarrow> string option \<Rightarrow> tool_error + Json" where
  "handle_event_context env opens args file =
     (case as_u64 (arg args ''sequence'') of
        None \<Rightarrow> Inl (ToolRefused ''sequence is required'')
      | Some n \<Rightarrow>
          (case event_get env opens file (of_nat n) of
             Inl e \<Rightarrow> Inl (ToolStore e)
           | Inr (Some e) \<Rightarrow> Inr (JObj [(''event'', event_detail e), (''found'', JBool True)])
           | Inr None \<Rightarrow> Inr (JObj [(''found'', JBool False),
               (''message'', JStr (''No event with sequence #'' @ show_nat n)), (''sequence'', count_json n)])))"

definition handle_event_mark_outcome ::
  "event_env \<Rightarrow> event_io \<Rightarrow> Json \<Rightarrow> string option \<Rightarrow> (tool_error + Json) \<times> string option" where
  "handle_event_mark_outcome env io args file =
     (case as_u64 (arg args ''sequence'') of
        None \<Rightarrow> (Inl (ToolRefused ''sequence is required''), file)
      | Some n \<Rightarrow>
          (case as_str (arg args ''outcome'') of
             None \<Rightarrow> (Inl (ToolRefused ''outcome is required (success, failure, revert, pending)''), file)
           | Some outcome_str \<Rightarrow>
               (case parse_outcome outcome_str of
                  None \<Rightarrow> (Inl (ToolRefused (''Unknown outcome '' @ quoted outcome_str @ ''. Expected: success, failure, revert, pending'')), file)
                | Some oc \<Rightarrow>
                    (case mark_outcome env io (of_nat n) oc (as_str (arg args ''failure_reason'')) file of
                       (Inl e, file') \<Rightarrow> (Inl (ToolStore e), file')
                     | (Inr updated, file') \<Rightarrow>
                         (Inr (JObj [(''message'', JStr (if updated then ''Event #'' @ show_nat n @ '' marked as '' @ outcome_str
                             else ''No event with sequence #'' @ show_nat n)), (''outcome'', JStr outcome_str),
                             (''sequence'', count_json n), (''success'', JBool updated)]), file')))))"

definition timeline_entry :: "CodebaseEvent \<Rightarrow> Json" where
  "timeline_entry e =
     JObj ((case ev_context e of Some ctx \<Rightarrow> [(''context'', JStr ctx)] | None \<Rightarrow> [])
       @ [(''description'', JStr (ev_description e))]
       @ (case ev_failure_reason e of Some reason \<Rightarrow> [(''failure_reason'', JStr reason)] | None \<Rightarrow> [])
       @ (if ev_affected_files e = [] then [] else [(''files'', JArr (map JStr (ev_affected_files e)))])
       @ [(''outcome'', JStr (event_outcome_label (ev_outcome e)))]
       @ (case ev_merkle_root_after e of Some after \<Rightarrow> [(''root_after'', JStr after)] | None \<Rightarrow> [])
       @ (case ev_merkle_root_before e of Some before \<Rightarrow> [(''root_before'', JStr before)] | None \<Rightarrow> [])
       @ [(''seq'', num (ev_sequence e)), (''timestamp_ms'', num (ev_timestamp_ms e)), (''tool'', JStr (ev_tool_name e))])"

definition handle_event_timeline :: "event_env \<Rightarrow> bool \<Rightarrow> Json \<Rightarrow> string option \<Rightarrow> tool_error + Json" where
  "handle_event_timeline env opens args file =
     (let limit = min (case as_u64 (arg args ''limit'') of Some n \<Rightarrow> n | None \<Rightarrow> 50) 500 in
      case load_all env opens file of
        Inl e \<Rightarrow> Inl (ToolStore e)
      | Inr events \<Rightarrow>
          let timeline = map timeline_entry (take limit (rev events)) in
          Inr (JObj [(''returned'', count_json (length timeline)), (''timeline'', JArr timeline), (''totalEvents'', count_json (length events))]))"

definition handle_event_attach_context ::
  "event_env \<Rightarrow> event_io \<Rightarrow> Json \<Rightarrow> string option \<Rightarrow> (tool_error + Json) \<times> string option" where
  "handle_event_attach_context env io args file =
     (case as_u64 (arg args ''sequence'') of
        None \<Rightarrow> (Inl (ToolRefused ''sequence is required''), file)
      | Some n \<Rightarrow>
          (case as_str (arg args ''context'') of
             None \<Rightarrow> (Inl (ToolRefused ''context is required''), file)
           | Some context \<Rightarrow>
               (case update_context env io (of_nat n) context file of
                  (Inl e, file') \<Rightarrow> (Inl (ToolStore e), file')
                | (Inr updated, file') \<Rightarrow>
                    (Inr (JObj [(''message'', JStr (if updated then ''Context attached to event #'' @ show_nat n
                        else ''No event with sequence #'' @ show_nat n)), (''sequence'', count_json n), (''success'', JBool updated)]), file'))))"

section \<open>What was recorded can be looked up\<close>

lemma find_append: "List.find P (ys @ zs) = (case List.find P ys of None \<Rightarrow> List.find P zs | Some y \<Rightarrow> Some y)"
  by (induction ys) simp_all

lemma find_last_number:
  assumes "sorted_wrt (<) (map ev_sequence es)" "es \<noteq> []" "ev_sequence (last es) = n"
  shows "List.find (\<lambda>e. ev_sequence e = n) es = Some (last es)"
proof -
  obtain xs x where es: "es = xs @ [x]" using assms(2) by (cases es rule: rev_cases) auto
  have "\<forall>y\<in>set xs. ev_sequence y \<noteq> n" using assms(1,3) by (auto simp: es sorted_wrt_append)
  then have "List.find (\<lambda>e. ev_sequence e = n) xs = None" by (simp add: find_None_iff)
  then show ?thesis using assms(3) by (simp add: es find_append)
qed

text \<open>The draft a call of \<open>event_record\<close> describes.\<close>

definition call_draft :: "Json \<Rightarrow> string \<Rightarrow> EventDraft" where
  "call_draft args description =
     \<lparr>dr_tool_name = (case as_str (arg args ''tool_name'') of Some s \<Rightarrow> s | None \<Rightarrow> ''manual''), dr_description = description,
      dr_merkle_root_before = as_str (arg args ''merkle_root_before''), dr_merkle_root_after = as_str (arg args ''merkle_root_after''),
      dr_context = as_str (arg args ''context''),
      dr_affected_files = (case as_array (arg args ''affected_files'') of Some xs \<Rightarrow> List.map_filter as_str xs | None \<Rightarrow> []),
      dr_outcome = Pending, dr_failure_reason = None, dr_metadata = None\<rparr>"

lemma handle_record_Inr:
  assumes "handle_event_record env io limit now args file = (Inr answer, file')"
  obtains description n where "as_str (arg args ''description'') = Some description"
    "record_with_metadata env io limit now (call_draft args description) file = (Inr n, file')" "json_get ''sequence'' answer = Some (num n)"
  using assms by (auto simp: handle_event_record_def event_record_def call_draft_def Let_def split: option.splits sum.splits prod.splits)

text \<open>
  What the record tool stores, the context tool finds: on any log a clean run of the store reaches, when
  \<open>event_record\<close> answers with a number (below the wrap-around of the counter) and neither the
  append nor the rewrite of the retention was cut off, asking \<open>event_context\<close> for that number
  shows the event that the call described, pending and with the caller's fields.
\<close>

theorem recorded_event_is_found:
  assumes "event_serde env S" "event_run env S file past \<and> list_all (step_clean env) past"
    and "handle_event_record env io limit now args file = (Inr answer, file')"
    and "as_str (arg args ''description'') = Some description" "json_get ''sequence'' answer = Some (num n)" "n \<noteq> 0"
    and "event_of_draft n now (call_draft args description) \<in> S" "eo_last_byte io" "open_clean env file'" "\<forall>k. eo_save io \<noteq> SaveStops k"
  shows "handle_event_context env True (JObj [(''sequence'', num n)]) file'
    = Inr (JObj [(''event'', event_detail (event_of_draft n now (call_draft args description))), (''found'', JBool True)])"
proof -
  let ?e = "event_of_draft n now (call_draft args description)"
  note inv = event_run_inv [OF assms(1) conjunct1 [OF assms(2)] conjunct2 [OF assms(2)]]
  have rec: "record_with_metadata env io limit now (call_draft args description) file = (Inr n, file')"
    by (rule handle_record_Inr [OF assms(3)]) (use assms(4,5) in \<open>auto simp: num_def word_unat_eq_iff\<close>)
  have n: "n = after_last_event (file_events env file)"
    using rec numbering [OF conjunct1 [OF inv [unfolded log_inv_def]], of io] by (auto simp: log_inv_def record_with_metadata_def split: sum.splits prod.splits)
  have dr: "drafted env now (call_draft args description) file = ?e" by (simp add: drafted_def n)
  have room: "after_last_event (file_events env file) \<noteq> 0" using assms(6) n by simp
  have "drafted env now (call_draft args description) file \<in> S" using assms(7) by (simp add: dr)
  note kept = record_inv [OF assms(1) inv this room assms(8) rec assms(9)]
  have last: "file_events env file' \<noteq> []" "last (file_events env file') = ?e" using kept(2) [of n] assms(10) by (simp_all add: dr)
  have "sorted_wrt (<) (map ev_sequence (file_events env file'))" using kept(1) by (simp add: log_inv_def log_ok_def)
  from find_last_number [OF this last(1)] last(2)
  have "List.find (\<lambda>e. ev_sequence e = n) (file_events env file') = Some ?e" by (simp add: event_of_draft_def)
  then show ?thesis by (simp add: handle_event_context_def arg_def num_def event_get_def load_all_def)
qed

definition demo_args :: Json where
  "demo_args = JObj [(''affected_files'', JArr [JStr ''a.rs'']), (''description'', JStr ''edit'')]"

definition called_event :: CodebaseEvent where
  "called_event = event_of_draft 1 7 (call_draft demo_args ''edit'')"

definition called_env :: event_env where
  "called_env = \<lparr>ee_ser = (\<lambda>e. if e = called_event then Some ''{a}'' else None),
     ee_de = (\<lambda>s. if s = ''{a}'' then Some called_event else None), ee_utf8 = (\<lambda>_. True), ee_lossy = id\<rparr>"

lemma called_serde: "event_serde called_env {called_event}"
proof -
  have "trim ''{a}'' = ''{a}''" "newline \<notin> set ''{a}''" by code_simp+
  moreover have "torn_ok called_env (take n ''{a}'')" if "n < 3" for n
  proof -
    from that consider "n = 0" | "n = 1" | "n = 2" by linarith
    then show ?thesis by cases (hypsubst, code_simp)+
  qed
  ultimately have "serialized called_env called_event ''{a}''" by (simp add: serialized_def called_env_def)
  then show ?thesis by (auto simp: event_serde_def called_env_def)
qed

lemma called_recorded:
  "handle_event_record called_env demo_io 100 7 demo_args None
   = (Inr (JObj [(''message'', JStr ''Recorded event #1''), (''sequence'', num 1), (''success'', JBool True)]), Some (''{a}'' @ [newline]))"
proof -
  have n: "next_sequence called_env demo_io None = Inr 1"
    by (simp add: next_sequence_def next_sequence_from_tail_def load_all_def file_events_def after_last_event_def)
  have "ee_ser called_env (event_of_draft 1 7 (call_draft demo_args ''edit'')) = Some ''{a}''"
    by (simp add: called_env_def flip: called_event_def)
  with n have "record_with_metadata called_env demo_io 100 7 (call_draft demo_args ''edit'') None = (Inr 1, Some (''{a}'' @ [newline]))"
    by (simp add: record_with_metadata_def append_event_def enforce_retention_def Let_def demo_io_def event_payload_def log_ends_on_a_line_break_def)
  then have "event_record called_env demo_io 100 7 ''manual'' ''edit'' None None None [''a.rs''] None = (Inr 1, Some (''{a}'' @ [newline]))"
    by (simp add: event_record_def call_draft_def demo_args_def arg_def map_filter_def)
  moreover have "show_u64 1 = ''1''" by code_simp
  ultimately show ?thesis by (simp add: handle_event_record_def demo_args_def arg_def map_filter_def)
qed

theorem recorded_event_is_found_witness:
  "handle_event_context called_env True (JObj [(''sequence'', num 1)]) (Some (''{a}'' @ [newline]))
   = Inr (JObj [(''event'', event_detail called_event), (''found'', JBool True)])"
proof -
  have "open_clean called_env (Some (''{a}'' @ [newline]))"
    using torn_events(1) [of called_env "[]"]
    by (simp add: open_clean_def newline_def line_events_def trim_def trim_matches_def)
  moreover have "as_str (arg demo_args ''description'') = Some ''edit''" by (simp add: demo_args_def arg_def)
  ultimately show ?thesis
    using recorded_event_is_found [OF called_serde _ called_recorded, of "[]" "''edit''" 1]
    by (simp add: demo_io_def event_run.start flip: called_event_def)
qed

end
