(* ===== verification/Conflict_Groups.thy ===== *)
theory Conflict_Groups
  imports Event_Store Task_Graph
begin

text \<open>
  From past conflicts to the plan (\<open>conflict_file_groups\<close> of \<open>registry/event_store.rs\<close>): the files of
  recorded shared-write conflicts are united into groups, and the planner keeps tasks that touch one
  group apart.  A set of files is a list whose order does not matter.
\<close>

section \<open>Groups\<close>

definition is_conflict :: "CodebaseEvent \<Rightarrow> bool" where
  "is_conflict e \<longleftrightarrow> Option.bind (ev_metadata e) (json_get ''shared_write_conflict'') = Some (JBool True)"

definition conflict_files :: "CodebaseEvent \<Rightarrow> string list" where
  "conflict_files e = remdups (filter (\<lambda>f. f \<noteq> []) (map normalize_scope (ev_affected_files e)))"

fun absorb :: "string list \<Rightarrow> string list list \<Rightarrow> string list \<times> string list list" where
  "absorb merged [] = (merged, [])"
| "absorb merged (g # gs) =
     (if list_ex (\<lambda>f. f \<in> set merged) g then absorb (remdups (merged @ g)) gs
      else (let (m, rest) = absorb merged gs in (m, g # rest)))"

definition add_conflict :: "CodebaseEvent \<Rightarrow> string list list \<Rightarrow> string list list" where
  "add_conflict e groups =
     (if \<not> is_conflict e \<or> conflict_files e = [] then groups
      else (let (m, rest) = absorb (conflict_files e) groups in rest @ [m]))"

definition conflict_file_groups :: "event_env \<Rightarrow> bool \<Rightarrow> string option \<Rightarrow> string list list" where
  "conflict_file_groups env opens file =
     (case load_all env opens file of
        Inl _ \<Rightarrow> []
      | Inr es \<Rightarrow> filter (\<lambda>g. 1 < length g) (fold add_conflict (take 2000 (rev es)) []))"

section \<open>Groups are connected components\<close>

text \<open>Two files are linked when one recorded conflict names both.\<close>

definition linked :: "CodebaseEvent list \<Rightarrow> (string \<times> string) set" where
  "linked es = {(a, b). \<exists>e\<in>set es. is_conflict e \<and> a \<in> set (conflict_files e) \<and> b \<in> set (conflict_files e)}"

definition same_group :: "string list list \<Rightarrow> (string \<times> string) set" where
  "same_group gs = {(a, b). \<exists>g\<in>set gs. a \<in> set g \<and> b \<in> set g}"

definition apart :: "string list list \<Rightarrow> bool" where
  "apart gs \<longleftrightarrow> pairwise (\<lambda>g h. set g \<inter> set h = {}) (set gs) \<and> distinct gs \<and> (\<forall>g\<in>set gs. g \<noteq> [] \<and> distinct g)"

lemma absorb_spec:
  assumes "apart gs" "absorb merged gs = (m, rest)" "distinct merged"
  shows "set m = set merged \<union> \<Union> (set ` {g \<in> set gs. set g \<inter> set merged \<noteq> {}})"
    "rest = filter (\<lambda>g. set g \<inter> set merged = {}) gs" "distinct m"
proof -
  have "set m = set merged \<union> \<Union> (set ` {g \<in> set gs. set g \<inter> set merged \<noteq> {}})
    \<and> rest = filter (\<lambda>g. set g \<inter> set merged = {}) gs \<and> distinct m"
    using assms
  proof (induction gs arbitrary: merged m rest)
    case (Cons g gs)
    have gs: "apart gs" using Cons.prems(1) by (auto simp: apart_def pairwise_def)
    have dis: "set h \<inter> set g = {}" if "h \<in> set gs" for h
      using Cons.prems(1) that by (fastforce simp: apart_def pairwise_def)
    have hit: "list_ex (\<lambda>f. f \<in> set merged) g \<longleftrightarrow> set g \<inter> set merged \<noteq> {}" by (auto simp: list_ex_iff)
    show ?case
    proof (cases "set g \<inter> set merged = {}")
      case True
      obtain m1 r1 where a: "absorb merged gs = (m1, r1)" by (metis surj_pair)
      with Cons.IH [OF gs a Cons.prems(3)] Cons.prems(2) True hit show ?thesis by auto
    next
      case False
      have "absorb (remdups (merged @ g)) gs = (m, rest)" using Cons.prems(2) False hit by simp
      note IH = Cons.IH [OF gs this]
      have "set h \<inter> set (merged @ g) = {} \<longleftrightarrow> set h \<inter> set merged = {}" if "h \<in> set gs" for h using dis [OF that] by auto
      then have "filter (\<lambda>h. set h \<inter> set (remdups (merged @ g)) = {}) gs = filter (\<lambda>h. set h \<inter> set merged = {}) gs"
        and "{h \<in> set gs. set h \<inter> set (remdups (merged @ g)) \<noteq> {}} = {h \<in> set gs. set h \<inter> set merged \<noteq> {}}"
        by (auto cong: filter_cong)
      with IH False show ?thesis by auto
    qed
  qed simp
  then show "set m = set merged \<union> \<Union> (set ` {g \<in> set gs. set g \<inter> set merged \<noteq> {}})"
    "rest = filter (\<lambda>g. set g \<inter> set merged = {}) gs" "distinct m" by blast+
qed

lemma apart_snoc:
  assumes "apart gs" "m \<noteq> []" "distinct m" "\<And>g. g \<in> set gs \<Longrightarrow> set g \<inter> set m = {}"
  shows "apart (gs @ [m])"
proof -
  have "m \<notin> set gs" using assms(2,4) by (metis Int_absorb set_empty)
  moreover have "set m \<inter> set g = {}" if "g \<in> set gs" for g using assms(4) [OF that] by blast
  ultimately show ?thesis using assms unfolding apart_def pairwise_def by simp
qed

lemma absorb_apart:
  assumes "apart gs" "absorb files gs = (m, rest)" "distinct files" "files \<noteq> []"
  shows "apart (rest @ [m])"
proof -
  note spec = absorb_spec [OF assms(1,2,3)]
  have clear: "set g \<inter> set m = {}" if "g \<in> set rest" for g
  proof -
    have g: "g \<in> set gs" "set g \<inter> set files = {}" using that by (simp_all add: spec(2))
    have "set g \<inter> set h = {}" if "h \<in> set gs" "set h \<inter> set files \<noteq> {}" for h
    proof -
      have "g \<noteq> h" using g(2) that(2) by blast
      with assms(1) g(1) that(1) show ?thesis by (simp add: apart_def pairwise_def)
    qed
    with g(2) show ?thesis unfolding spec(1) by blast
  qed
  have m: "m \<noteq> []" using spec(1) assms(4) by auto
  have rest: "apart rest" using assms(1) unfolding spec(2) apart_def pairwise_def by simp
  show ?thesis using apart_snoc [OF rest m spec(3)] clear by blast
qed

lemma same_group_trans:
  assumes "apart gs"
  shows "trans (same_group gs)"
proof (rule transI)
  fix a b c assume "(a, b) \<in> same_group gs" "(b, c) \<in> same_group gs"
  then obtain g h where g: "g \<in> set gs" "a \<in> set g" "b \<in> set g" and h: "h \<in> set gs" "b \<in> set h" "c \<in> set h"
    by (auto simp: same_group_def)
  then have "g = h" using assms unfolding apart_def pairwise_def by blast
  with g h show "(a, c) \<in> same_group gs" by (auto simp: same_group_def)
qed

lemma absorb_links:
  assumes "apart gs" "absorb files gs = (m, rest)" "distinct files" "files \<noteq> []" "same_group gs = L\<^sup>+"
  shows "same_group (rest @ [m]) = (L \<union> set files \<times> set files)\<^sup>+"
proof
  let ?N = "(L \<union> set files \<times> set files)\<^sup>+"
  note spec = absorb_spec [OF assms(1,2,3)]
  have old: "(a, b) \<in> ?N" if "(a, b) \<in> same_group gs" for a b using that assms(5) trancl_mono [of "(a, b)" L] by blast
  have near: "\<exists>f\<in>set files. (a, f) \<in> ?N \<and> (f, a) \<in> ?N" if "a \<in> set m" for a
  proof (cases "a \<in> set files")
    case False
    with that obtain g f where "g \<in> set gs" "a \<in> set g" "f \<in> set g" "f \<in> set files" unfolding spec(1) by blast
    moreover from this have "(a, f) \<in> same_group gs" "(f, a) \<in> same_group gs" by (auto simp: same_group_def)
    ultimately show ?thesis using old by blast
  qed blast
  show "same_group (rest @ [m]) \<subseteq> ?N"
  proof (rule subrelI)
    fix a b assume ab: "(a, b) \<in> same_group (rest @ [m])"
    then consider "(a, b) \<in> same_group gs" | "a \<in> set m" "b \<in> set m" by (auto simp: same_group_def spec(2))
    then show "(a, b) \<in> ?N"
    proof cases
      case 2
      then obtain f h where "f \<in> set files" "h \<in> set files" "(a, f) \<in> ?N" "(h, b) \<in> ?N" using near by meson
      then have "(a, f) \<in> ?N" "(f, h) \<in> ?N" "(h, b) \<in> ?N" by blast+
      then show ?thesis by (meson trancl_trans)
    qed (rule old)
  qed
  have "L \<union> set files \<times> set files \<subseteq> same_group (rest @ [m])"
  proof
    fix x assume "x \<in> L \<union> set files \<times> set files"
    then consider "x \<in> same_group gs" | "x \<in> set files \<times> set files" using assms(5) r_into_trancl' [of x L] by auto
    then show "x \<in> same_group (rest @ [m])"
    proof cases
      case 1
      then obtain a b g where x: "x = (a, b)" "g \<in> set gs" "a \<in> set g" "b \<in> set g" by (auto simp: same_group_def)
      then have "g \<in> set rest \<or> set g \<subseteq> set m" unfolding spec(1,2) by auto
      with x show ?thesis by (auto simp: same_group_def)
    qed (auto simp: same_group_def spec(1))
  qed
  then show "?N \<subseteq> same_group (rest @ [m])"
    using trancl_mono same_group_trans [OF absorb_apart [OF assms(1-4)]] by (metis subsetI trancl_id)
qed

lemma linked_Cons:
  "linked (e # es) = linked es \<union> (if is_conflict e then set (conflict_files e) \<times> set (conflict_files e) else {})"
  by (auto simp: linked_def)

lemma linked_append_one:
  "linked (es @ [e]) = linked es \<union> (if is_conflict e then set (conflict_files e) \<times> set (conflict_files e) else {})"
  by (auto simp: linked_def)

lemma add_conflict_step:
  assumes "apart gs" "same_group gs = (linked es)\<^sup>+"
  shows "apart (add_conflict e gs) \<and> same_group (add_conflict e gs) = (linked (es @ [e]))\<^sup>+"
proof (cases "is_conflict e \<and> conflict_files e \<noteq> []")
  case True
  obtain m rest where ab: "absorb (conflict_files e) gs = (m, rest)" by (metis surj_pair)
  have "distinct (conflict_files e)" by (simp add: conflict_files_def)
  with True absorb_apart [OF assms(1) ab] absorb_links [OF assms(1) ab _ _ assms(2)] ab
  show ?thesis by (simp add: add_conflict_def linked_append_one)
next
  case False
  with assms show ?thesis by (auto simp: add_conflict_def linked_append_one)
qed

lemma fold_add_conflict:
  "apart (fold add_conflict es []) \<and> same_group (fold add_conflict es []) = (linked es)\<^sup>+"
proof (induction es rule: rev_induct)
  case Nil
  show ?case by (simp add: apart_def same_group_def linked_def)
next
  case (snoc e es)
  then show ?case using add_conflict_step [of "fold add_conflict es []" es e] by simp
qed

lemma two_in_group: "\<lbrakk>a \<in> set g; b \<in> set g; a \<noteq> b\<rbrakk> \<Longrightarrow> 1 < length g"
  by (cases g; cases "tl g") auto

lemma groups_linked:
  assumes "load_all env opens file = Inr es" "a \<noteq> b"
  shows "(\<exists>g\<in>set (conflict_file_groups env opens file). a \<in> set g \<and> b \<in> set g) \<longleftrightarrow> (a, b) \<in> (linked (take 2000 (rev es)))\<^sup>+"
proof -
  have "(a, b) \<in> same_group (fold add_conflict (take 2000 (rev es)) [])
    \<longleftrightarrow> (\<exists>g\<in>set (conflict_file_groups env opens file). a \<in> set g \<and> b \<in> set g)"
    using two_in_group [OF _ _ assms(2)] by (auto simp: conflict_file_groups_def assms(1) same_group_def)
  then show ?thesis using fold_add_conflict [of "take 2000 (rev es)"] by simp
qed

lemma groups_apart:
  assumes "g \<in> set (conflict_file_groups env opens file)" "h \<in> set (conflict_file_groups env opens file)" "g \<noteq> h"
  shows "set g \<inter> set h = {}"
proof -
  obtain es where es: "load_all env opens file = Inr es" using assms(1) by (cases "load_all env opens file") (auto simp: conflict_file_groups_def)
  then have "g \<in> set (fold add_conflict (take 2000 (rev es)) [])" "h \<in> set (fold add_conflict (take 2000 (rev es)) [])"
    using assms(1,2) by (auto simp: conflict_file_groups_def)
  then show ?thesis using fold_add_conflict [of "take 2000 (rev es)"] assms(3) unfolding apart_def pairwise_def by blast
qed

section \<open>Properties\<close>

text \<open>A record of a shared-write conflict is one the groups are built from.\<close>

lemma recorded_conflict_counts:
  "is_conflict (event_of_draft n now (shared_write_conflict_draft tool description conflict_kind existing requested files contract))"
  by (simp add: is_conflict_def event_of_draft_def shared_write_conflict_draft_def)

definition past_conflict :: "string list \<Rightarrow> CodebaseEvent" where
  "past_conflict files = event_of_draft 1 0 (shared_write_conflict_draft ''patch_file'' [] ''scope'' ''a'' ''b'' files [])"

definition conflict_env :: event_env where
  "conflict_env = \<lparr>ee_ser = (\<lambda>_. None),
     ee_de = (\<lambda>l. if l = ''1'' then Some (past_conflict [''src/A.rs'', ''src/b.rs''])
       else if l = ''2'' then Some (past_conflict [''lib/x.rs'', ''lib/y.rs''])
       else if l = ''3'' then Some (past_conflict [''/src/b.rs'', ''src/c.rs'']) else None),
     ee_utf8 = (\<lambda>_. True), ee_lossy = id\<rparr>"

definition conflict_log :: string where
  "conflict_log = ''1'' @ [CHR 0x0A] @ ''2'' @ [CHR 0x0A] @ ''3'' @ [CHR 0x0A]"

lemma conflict_log_loads:
  "load_all conflict_env True (Some conflict_log)
   = Inr [past_conflict [''src/A.rs'', ''src/b.rs''], past_conflict [''lib/x.rs'', ''lib/y.rs''], past_conflict [''/src/b.rs'', ''src/c.rs'']]"
  by code_simp

lemma conflict_log_groups:
  "conflict_file_groups conflict_env True (Some conflict_log) = [[''lib/x.rs'', ''lib/y.rs''], [''src/a.rs'', ''src/b.rs'', ''src/c.rs'']]"
  by code_simp

text \<open>
  The groups handed to the planner are the connected components of past conflicts: two files
  are in one group exactly when a chain of recorded shared-write conflicts, among the 2000 newest
  events, leads from one to the other (each conflict naming two neighbours of the chain), no file
  is in two groups, and no group has a single file.
\<close>

theorem conflict_groups_are_components:
  assumes "load_all env opens file = Inr es"
  shows "(\<forall>a b. a \<noteq> b \<longrightarrow>
      ((\<exists>g\<in>set (conflict_file_groups env opens file). a \<in> set g \<and> b \<in> set g) \<longleftrightarrow> (a, b) \<in> (linked (take 2000 (rev es)))\<^sup>+))
    \<and> pairwise (\<lambda>g h. set g \<inter> set h = {}) (set (conflict_file_groups env opens file))
    \<and> (\<forall>g\<in>set (conflict_file_groups env opens file). 2 \<le> length g)"
proof (intro conjI)
  show "\<forall>a b. a \<noteq> b \<longrightarrow>
      ((\<exists>g\<in>set (conflict_file_groups env opens file). a \<in> set g \<and> b \<in> set g) \<longleftrightarrow> (a, b) \<in> (linked (take 2000 (rev es)))\<^sup>+)"
    using groups_linked [OF assms] by blast
  show "pairwise (\<lambda>g h. set g \<inter> set h = {}) (set (conflict_file_groups env opens file))"
    using groups_apart by (blast intro: pairwiseI)
  show "\<forall>g\<in>set (conflict_file_groups env opens file). 2 \<le> length g"
    by (auto simp: conflict_file_groups_def assms)
qed

theorem conflict_groups_are_components_witness:
  "(''src/a.rs'', ''src/c.rs'') \<in> (linked (take 2000 (rev (file_events conflict_env (Some conflict_log)))))\<^sup>+
   \<and> (''src/a.rs'', ''lib/x.rs'') \<notin> (linked (take 2000 (rev (file_events conflict_env (Some conflict_log)))))\<^sup>+"
proof -
  have es: "load_all conflict_env True (Some conflict_log) = Inr (file_events conflict_env (Some conflict_log))" by (simp add: load_all_def)
  note exact = conflict_groups_are_components [OF es, THEN conjunct1, rule_format]
  show ?thesis using exact [of "''src/a.rs''" "''src/c.rs''"] exact [of "''src/a.rs''" "''lib/x.rs''"]
    by (simp add: conflict_log_groups)
qed

text \<open>
  C19. Lessons of past conflicts reach the schedule: in a plan built over the groups of the event
  log, no two tasks of one phase have scopes that reach files a chain of the conflicts recorded among
  the newest 2000 events connects, even when their scopes do not overlap.
\<close>

theorem conflicting_files_planned_apart:
  assumes "graph_ok g" "load_all env opens file = Inr es" "w \<in> set (plan_with_conflicts g (conflict_file_groups env opens file))"
    and "i \<in> set w" "j \<in> set w" "i \<noteq> j" "x \<in> set (scope_of g i)" "y \<in> set (scope_of g j)"
    and "path_overlaps x a" "path_overlaps y b" "a \<noteq> b"
  shows "(a, b) \<notin> (linked (take 2000 (rev es)))\<^sup>+"
proof
  assume "(a, b) \<in> (linked (take 2000 (rev es)))\<^sup>+"
  then obtain h where h: "h \<in> set (conflict_file_groups env opens file)" "a \<in> set h" "b \<in> set h"
    using groups_linked [OF assms(2,11)] by blast
  have "touches_group (scope_of g i) h" "touches_group (scope_of g j) h"
    using h(2,3) assms(7-10) by (auto simp: touches_group_def list_ex_iff)
  moreover have "scope_of g i \<noteq> []" "scope_of g j \<noteq> []" using assms(7,8) by auto
  ultimately have "scopes_conflict (scope_of g i) (scope_of g j) (conflict_file_groups env opens file)"
    using h(1) by (auto simp: scopes_conflict_def list_ex_iff)
  moreover have "conflict_free g (conflict_file_groups env opens file) w"
    using plan_inv_plan [OF assms(1), of "conflict_file_groups env opens file"] assms(3) by (simp add: plan_inv_def list_all_iff)
  ultimately show False using assms(4-6) by (simp add: conflict_free_def)
qed

definition conflict_graph :: TaskGraph where
  "conflict_graph = graph_add 2 ''b'' [] [''src/c.rs''] [] None (graph_add 3 ''c'' [] [''lib/x.rs''] [] None
     (graph_add 1 ''a'' [] [''src/a.rs''] [] None \<lparr>tg_tasks = [], tg_root = 1\<rparr>))"

lemma conflict_graph_ok: "graph_ok conflict_graph"
  unfolding conflict_graph_def by (intro graph_add_ok empty_graph_ok)

lemma conflict_graph_plan: "plan_with_conflicts conflict_graph (conflict_file_groups conflict_env True (Some conflict_log)) = [[1, 3], [2]]"
  unfolding conflict_log_groups by code_simp

theorem conflicting_files_planned_apart_witness:
  "(''src/a.rs'', ''lib/x.rs'')
   \<notin> (linked (take 2000 (rev [past_conflict [''src/A.rs'', ''src/b.rs''], past_conflict [''lib/x.rs'', ''lib/y.rs''],
        past_conflict [''/src/b.rs'', ''src/c.rs'']])))\<^sup>+"
proof (rule conflicting_files_planned_apart [OF conflict_graph_ok conflict_log_loads, where w = "[1, 3]" and i = 1 and j = 3
      and x = "''src/a.rs''" and y = "''lib/x.rs''"])
  show "[1, 3] \<in> set (plan_with_conflicts conflict_graph (conflict_file_groups conflict_env True (Some conflict_log)))"
    by (simp add: conflict_graph_plan)
  show "''src/a.rs'' \<in> set (scope_of conflict_graph 1)" "''lib/x.rs'' \<in> set (scope_of conflict_graph 3)" by code_simp+
  show "path_overlaps ''src/a.rs'' ''src/a.rs''" "path_overlaps ''lib/x.rs'' ''lib/x.rs''" by code_simp+
qed simp_all

end
