(* ===== verification/Circuit_Breaker.thy ===== *)
theory Circuit_Breaker
  imports Velocity_Prelude Rust_Std "HOL-Library.Sublist" "HOL-Library.AList"
begin

text \<open>
  The circuit breakers of the model providers (\<open>agent/executor/circuit_breaker.rs\<close>): one breaker per
  provider stops calls after repeated failures and probes the provider after a timeout.  An
  \<open>Instant\<close> is the number of nanoseconds since some start, and every operation takes the instant it
  runs at.  The map of the registry is an association list in an arbitrary order.
\<close>

section \<open>One breaker\<close>

datatype CircuitState = Closed | Open | HalfOpen

fun circuit_state_fmt :: "CircuitState \<Rightarrow> string" where
  "circuit_state_fmt Closed = ''Closed''"
| "circuit_state_fmt Open = ''Open''"
| "circuit_state_fmt HalfOpen = ''HalfOpen''"

record CircuitBreakerError =
  ce_provider :: string
  ce_state :: CircuitState
  ce_message :: string

definition breaker_error_new :: "string \<Rightarrow> CircuitState \<Rightarrow> CircuitBreakerError" where
  "breaker_error_new provider state =
     \<lparr>ce_provider = provider, ce_state = state, ce_message = ''calls are blocked while circuit is '' @ circuit_state_fmt state\<rparr>"

definition breaker_error_fmt :: "CircuitBreakerError \<Rightarrow> string" where
  "breaker_error_fmt e = ''circuit breaker open for provider '' @ quoted (ce_provider e) @ '': '' @ ce_message e
     @ '' (state='' @ circuit_state_fmt (ce_state e) @ '')''"

record CircuitBreaker =
  cb_state :: CircuitState
  cb_failure_count :: u32
  cb_success_count :: u32
  cb_failure_threshold :: u32
  cb_success_threshold :: u32
  cb_timeout :: nat
  cb_last_failure :: "nat option"
  cb_last_state_change :: nat

definition DEFAULT_FAILURE_THRESHOLD :: u32 where
  "DEFAULT_FAILURE_THRESHOLD = 5"

definition DEFAULT_SUCCESS_THRESHOLD :: u32 where
  "DEFAULT_SUCCESS_THRESHOLD = 2"

definition DEFAULT_TIMEOUT :: nat where
  "DEFAULT_TIMEOUT = 30 * 1000000000"

definition breaker_new :: "u32 \<Rightarrow> u32 \<Rightarrow> nat \<Rightarrow> nat \<Rightarrow> CircuitBreaker" where
  "breaker_new failure_threshold success_threshold timeout now =
     \<lparr>cb_state = Closed, cb_failure_count = 0, cb_success_count = 0, cb_failure_threshold = failure_threshold,
      cb_success_threshold = success_threshold, cb_timeout = timeout, cb_last_failure = None, cb_last_state_change = now\<rparr>"

definition breaker_with_defaults :: "nat \<Rightarrow> CircuitBreaker" where
  "breaker_with_defaults now = breaker_new DEFAULT_FAILURE_THRESHOLD DEFAULT_SUCCESS_THRESHOLD DEFAULT_TIMEOUT now"

fun transition_to :: "nat \<Rightarrow> CircuitState \<Rightarrow> CircuitBreaker \<Rightarrow> CircuitBreaker" where
  "transition_to now Closed b = b\<lparr>cb_state := Closed, cb_last_state_change := now, cb_failure_count := 0, cb_success_count := 0\<rparr>"
| "transition_to now Open b = b\<lparr>cb_state := Open, cb_last_state_change := now, cb_success_count := 0\<rparr>"
| "transition_to now HalfOpen b = b\<lparr>cb_state := HalfOpen, cb_last_state_change := now, cb_success_count := 0, cb_failure_count := 0\<rparr>"

definition can_execute :: "nat \<Rightarrow> CircuitBreaker \<Rightarrow> bool \<times> CircuitBreaker" where
  "can_execute now b =
     (case cb_state b of
        Closed \<Rightarrow> (True, b)
      | Open \<Rightarrow> if cb_timeout b \<le> now - cb_last_state_change b then (True, transition_to now HalfOpen b) else (False, b)
      | HalfOpen \<Rightarrow> (True, b))"

definition record_success :: "nat \<Rightarrow> CircuitBreaker \<Rightarrow> CircuitBreaker" where
  "record_success now b =
     (case cb_state b of
        HalfOpen \<Rightarrow>
          (let b1 = b\<lparr>cb_success_count := cb_success_count b + 1\<rparr> in
           if cb_success_threshold b1 \<le> cb_success_count b1 then transition_to now Closed b1 else b1)
      | Closed \<Rightarrow> b\<lparr>cb_failure_count := 0\<rparr>
      | Open \<Rightarrow>
          (let b1 = (transition_to now HalfOpen b)\<lparr>cb_success_count := 1\<rparr> in
           if cb_success_threshold b1 \<le> cb_success_count b1 then transition_to now Closed b1 else b1))"

definition record_failure :: "nat \<Rightarrow> CircuitBreaker \<Rightarrow> CircuitBreaker" where
  "record_failure now b =
     (let b0 = b\<lparr>cb_last_failure := Some now\<rparr> in
      case cb_state b0 of
        HalfOpen \<Rightarrow> transition_to now Open b0
      | Closed \<Rightarrow>
          (let b1 = b0\<lparr>cb_failure_count := cb_failure_count b0 + 1\<rparr> in
           if cb_failure_threshold b1 \<le> cb_failure_count b1 then transition_to now Open b1 else b1)
      | Open \<Rightarrow> b0\<lparr>cb_last_state_change := now\<rparr>)"

definition breaker_reset :: "nat \<Rightarrow> CircuitBreaker \<Rightarrow> CircuitBreaker" where
  "breaker_reset now b = transition_to now Closed b"

section \<open>The registry\<close>

record CircuitBreakerRegistry =
  cr_breakers :: "(string \<times> CircuitBreaker) list"
  cr_failure_threshold :: u32
  cr_success_threshold :: u32
  cr_timeout :: nat

definition registry_with_defaults :: "u32 \<Rightarrow> u32 \<Rightarrow> nat \<Rightarrow> CircuitBreakerRegistry" where
  "registry_with_defaults failure_threshold success_threshold timeout =
     \<lparr>cr_breakers = [], cr_failure_threshold = failure_threshold, cr_success_threshold = success_threshold, cr_timeout = timeout\<rparr>"

definition breakers_new :: CircuitBreakerRegistry where
  "breakers_new = registry_with_defaults DEFAULT_FAILURE_THRESHOLD DEFAULT_SUCCESS_THRESHOLD DEFAULT_TIMEOUT"

definition get_or_create :: "nat \<Rightarrow> string \<Rightarrow> CircuitBreakerRegistry \<Rightarrow> CircuitBreaker \<times> CircuitBreakerRegistry" where
  "get_or_create now provider r =
     (case map_of (cr_breakers r) provider of
        Some b \<Rightarrow> (b, r)
      | None \<Rightarrow>
          (let b = breaker_new (cr_failure_threshold r) (cr_success_threshold r) (cr_timeout r) now in
           (b, r\<lparr>cr_breakers := AList.update provider b (cr_breakers r)\<rparr>)))"

text \<open>What a call through the returned reference leaves.\<close>

definition put_breaker :: "string \<Rightarrow> CircuitBreaker \<Rightarrow> CircuitBreakerRegistry \<Rightarrow> CircuitBreakerRegistry" where
  "put_breaker provider b r = r\<lparr>cr_breakers := AList.update provider b (cr_breakers r)\<rparr>"

definition registry_can_execute :: "nat \<Rightarrow> string \<Rightarrow> CircuitBreakerRegistry \<Rightarrow> bool \<times> CircuitBreakerRegistry" where
  "registry_can_execute now provider r =
     (let (b, r1) = get_or_create now provider r; (ok, b1) = can_execute now b in (ok, put_breaker provider b1 r1))"

definition registry_record_success :: "nat \<Rightarrow> string \<Rightarrow> CircuitBreakerRegistry \<Rightarrow> CircuitBreakerRegistry" where
  "registry_record_success now provider r =
     (let (b, r1) = get_or_create now provider r in put_breaker provider (record_success now b) r1)"

definition registry_record_failure :: "nat \<Rightarrow> string \<Rightarrow> CircuitBreakerRegistry \<Rightarrow> CircuitBreakerRegistry" where
  "registry_record_failure now provider r =
     (let (b, r1) = get_or_create now provider r in put_breaker provider (record_failure now b) r1)"

definition get_state :: "nat \<Rightarrow> string \<Rightarrow> CircuitBreakerRegistry \<Rightarrow> CircuitState \<times> CircuitBreakerRegistry" where
  "get_state now provider r = (let (b, r1) = get_or_create now provider r in (cb_state b, r1))"

definition all_states :: "CircuitBreakerRegistry \<Rightarrow> (string \<times> CircuitState) list" where
  "all_states r = map (\<lambda>(p, b). (p, cb_state b)) (cr_breakers r)"

definition registry_reset :: "nat \<Rightarrow> string \<Rightarrow> CircuitBreakerRegistry \<Rightarrow> CircuitBreakerRegistry" where
  "registry_reset now provider r =
     (case map_of (cr_breakers r) provider of Some b \<Rightarrow> put_breaker provider (breaker_reset now b) r | None \<Rightarrow> r)"

definition reset_all :: "nat \<Rightarrow> CircuitBreakerRegistry \<Rightarrow> CircuitBreakerRegistry" where
  "reset_all now r = r\<lparr>cr_breakers := map (\<lambda>(p, b). (p, breaker_reset now b)) (cr_breakers r)\<rparr>"

definition registry_len :: "CircuitBreakerRegistry \<Rightarrow> nat" where
  "registry_len r = length (cr_breakers r)"

section \<open>Counters\<close>

definition breaker_ok :: "CircuitBreaker \<Rightarrow> bool" where
  "breaker_ok b \<longleftrightarrow> (cb_state b = Closed \<longrightarrow> unat (cb_failure_count b) < max 1 (unat (cb_failure_threshold b)))
     \<and> (cb_state b = HalfOpen \<longrightarrow> unat (cb_success_count b) < max 1 (unat (cb_success_threshold b)))"

text \<open>Below its threshold a counter does not wrap around.\<close>

lemma count_bump:
  fixes c k :: u32
  assumes "unat c < max 1 (unat k)"
  shows "unat (c + 1) = Suc (unat c)" "k \<le> c + 1 \<longleftrightarrow> max 1 (unat k) \<le> Suc (unat c)"
proof -
  have "unat k < 2 ^ 32" using unsigned_less [of k] by simp
  then have "Suc (unat c) < 2 ^ 32" using assms by (auto simp: max_def split: if_splits)
  then show s: "unat (c + 1) = Suc (unat c)" by (simp add: unat_word_ariths)
  show "k \<le> c + 1 \<longleftrightarrow> max 1 (unat k) \<le> Suc (unat c)" by (simp add: word_le_nat_alt s)
qed

lemma breaker_new_ok: "breaker_ok (breaker_new k s timeout now)"
  by (simp add: breaker_ok_def breaker_new_def)

lemma record_failure_ok: "breaker_ok b \<Longrightarrow> breaker_ok (record_failure now b)"
  using count_bump [of "cb_failure_count b" "cb_failure_threshold b"]
  by (cases "cb_state b") (auto simp: breaker_ok_def record_failure_def Let_def not_le)

lemma record_success_ok: "breaker_ok b \<Longrightarrow> breaker_ok (record_success now b)"
  using count_bump [of "cb_success_count b" "cb_success_threshold b"] count_bump [of 0 "cb_success_threshold b"]
  by (cases "cb_state b") (auto simp: breaker_ok_def record_success_def Let_def not_le)

lemma can_execute_ok: "breaker_ok b \<Longrightarrow> breaker_ok (snd (can_execute now b))"
  by (cases "cb_state b") (auto simp: breaker_ok_def can_execute_def)

lemma breaker_reset_ok: "breaker_ok (breaker_reset now b)"
  by (simp add: breaker_ok_def breaker_reset_def)

lemmas breaker_ok_intros = breaker_new_ok record_failure_ok record_success_ok can_execute_ok breaker_reset_ok

lemma thresholds_kept [simp]:
  "cb_failure_threshold (transition_to now s b) = cb_failure_threshold b" "cb_success_threshold (transition_to now s b) = cb_success_threshold b"
  "cb_timeout (transition_to now s b) = cb_timeout b" "cb_state (transition_to now s b) = s"
  by (cases s; simp)+

section \<open>Runs of the registry\<close>

datatype registry_op = AskOp string | SuccessOp string | FailureOp string | StateOp string | ResetOp string | ResetAllOp

fun run_op :: "nat \<Rightarrow> registry_op \<Rightarrow> CircuitBreakerRegistry \<Rightarrow> bool \<times> CircuitBreakerRegistry" where
  "run_op now (AskOp p) r = registry_can_execute now p r"
| "run_op now (SuccessOp p) r = (True, registry_record_success now p r)"
| "run_op now (FailureOp p) r = (True, registry_record_failure now p r)"
| "run_op now (StateOp p) r = (True, snd (get_state now p r))"
| "run_op now (ResetOp p) r = (True, registry_reset now p r)"
| "run_op now ResetAllOp r = (True, reset_all now r)"

fun run_ops :: "(nat \<times> registry_op) list \<Rightarrow> CircuitBreakerRegistry \<Rightarrow> bool list \<times> CircuitBreakerRegistry" where
  "run_ops [] r = ([], r)"
| "run_ops ((now, x) # xs) r =
     (let (ok, r1) = run_op now x r; (oks, r2) = run_ops xs r1 in (ok # oks, r2))"

definition state_of :: "CircuitBreakerRegistry \<Rightarrow> string \<Rightarrow> CircuitState" where
  "state_of r p = (case map_of (cr_breakers r) p of Some b \<Rightarrow> cb_state b | None \<Rightarrow> Closed)"

text \<open>Whether an operation reports an outcome of a provider or resets it.\<close>

fun reports :: "string \<Rightarrow> registry_op \<Rightarrow> bool list" where
  "reports p (SuccessOp q) = (if p = q then [True] else [])"
| "reports p (FailureOp q) = (if p = q then [False] else [])"
| "reports p _ = []"

fun resets :: "string \<Rightarrow> registry_op \<Rightarrow> bool" where
  "resets p (ResetOp q) = (p = q)"
| "resets p ResetAllOp = True"
| "resets p _ = False"

text \<open>What an operation does to the breaker of a provider.\<close>

fun op_effect_on :: "nat \<Rightarrow> string \<Rightarrow> registry_op \<Rightarrow> CircuitBreaker \<Rightarrow> CircuitBreaker" where
  "op_effect_on now p (AskOp q) b = (if p = q then snd (can_execute now b) else b)"
| "op_effect_on now p (SuccessOp q) b = (if p = q then record_success now b else b)"
| "op_effect_on now p (FailureOp q) b = (if p = q then record_failure now b else b)"
| "op_effect_on now p (StateOp q) b = b"
| "op_effect_on now p (ResetOp q) b = (if p = q then breaker_reset now b else b)"
| "op_effect_on now p ResetAllOp b = breaker_reset now b"

lemma map_of_reset_all: "map_of (cr_breakers (reset_all now r)) p = map_option (breaker_reset now) (map_of (cr_breakers r) p)"
  by (simp add: reset_all_def map_of_map)

lemmas registry_defs = registry_can_execute_def registry_record_success_def registry_record_failure_def get_state_def registry_reset_def
  get_or_create_def put_breaker_def Let_def

lemma run_op_existing:
  assumes "map_of (cr_breakers r) p = Some b"
  shows "map_of (cr_breakers (snd (run_op now x r))) p = Some (op_effect_on now p x b)"
  using assms by (cases x) (auto simp: registry_defs map_of_reset_all AList.update_conv' split: option.splits prod.splits)

lemma run_op_ask:
  "map_of (cr_breakers r) p = Some b \<Longrightarrow> fst (run_op now (AskOp p) r) = fst (can_execute now b)"
  by (auto simp: registry_defs split: prod.splits)

lemma run_op_absent:
  assumes "map_of (cr_breakers r) p = None"
  shows "map_of (cr_breakers (snd (run_op now x r))) p = None \<and> reports p x = []
    \<or> map_of (cr_breakers (snd (run_op now x r))) p
        = Some (op_effect_on now p x (breaker_new (cr_failure_threshold r) (cr_success_threshold r) (cr_timeout r) now))"
  using assms by (cases x) (auto simp: registry_defs map_of_reset_all AList.update_conv' can_execute_def breaker_new_def split: option.splits prod.splits)

lemma run_op_defaults:
  "cr_failure_threshold (snd (run_op now x r)) = cr_failure_threshold r" "cr_success_threshold (snd (run_op now x r)) = cr_success_threshold r"
  "cr_timeout (snd (run_op now x r)) = cr_timeout r"
  by (cases x; auto simp: registry_defs reset_all_def split: option.splits prod.splits)+

text \<open>So no counter of a registry ever wraps around.\<close>

definition breakers_ok :: "CircuitBreakerRegistry \<Rightarrow> bool" where
  "breakers_ok r \<longleftrightarrow> (\<forall>p b. map_of (cr_breakers r) p = Some b \<longrightarrow> breaker_ok b)"

lemma op_effect_ok: "breaker_ok b \<Longrightarrow> breaker_ok (op_effect_on now p x b)"
  by (cases x) (auto intro: breaker_ok_intros)

lemma run_op_ok:
  assumes "breakers_ok r"
  shows "breakers_ok (snd (run_op now x r))"
  unfolding breakers_ok_def
proof (intro allI impI)
  fix p b assume b: "map_of (cr_breakers (snd (run_op now x r))) p = Some b"
  show "breaker_ok b"
  proof (cases "map_of (cr_breakers r) p")
    case None
    then show ?thesis using run_op_absent [OF None, of now x] b op_effect_ok [OF breaker_new_ok] by auto
  next
    case (Some c)
    then show ?thesis using run_op_existing [OF Some, of now x] b op_effect_ok assms by (auto simp: breakers_ok_def)
  qed
qed

lemma run_ops_ok: "breakers_ok r \<Longrightarrow> breakers_ok (snd (run_ops tr r))"
proof (induction tr arbitrary: r)
  case (Cons y tr)
  then show ?case using run_op_ok [of r "fst y" "snd y"] by (cases y) (auto simp: case_prod_beta Let_def)
qed simp

section \<open>An open breaker blocks\<close>

lemma open_step:
  assumes "cb_state b = Open" "t0 \<le> cb_last_state_change b" "cb_last_state_change b < t0 + cb_timeout b"
    and "t0 \<le> now" "now < t0 + cb_timeout b" "\<not> resets p x" "reports p x \<noteq> [True]"
  shows "cb_state (op_effect_on now p x b) = Open" "t0 \<le> cb_last_state_change (op_effect_on now p x b)"
    "cb_last_state_change (op_effect_on now p x b) < t0 + cb_timeout (op_effect_on now p x b)"
    "cb_timeout (op_effect_on now p x b) = cb_timeout b" "\<not> fst (can_execute now b)"
  using assms by (cases x; auto simp: can_execute_def record_failure_def Let_def)+

lemma open_run:
  assumes "map_of (cr_breakers r) p = Some b" "cb_state b = Open" "t0 \<le> cb_last_state_change b" "cb_last_state_change b < t0 + cb_timeout b"
    and "\<forall>(now, x)\<in>set tr. t0 \<le> now \<and> now < t0 + cb_timeout b \<and> \<not> resets p x \<and> reports p x \<noteq> [True]"
  shows "state_of (snd (run_ops tr r)) p = Open \<and> (\<forall>n<length tr. snd (tr ! n) = AskOp p \<longrightarrow> \<not> fst (run_ops tr r) ! n)"
  using assms
proof (induction tr arbitrary: r b)
  case Nil
  then show ?case by (simp add: state_of_def)
next
  case (Cons y tr)
  obtain now x where y: "y = (now, x)" by fastforce
  let ?b = "op_effect_on now p x b" and ?r = "snd (run_op now x r)"
  have now: "t0 \<le> now" "now < t0 + cb_timeout b" "\<not> resets p x" "reports p x \<noteq> [True]" using Cons.prems(5) y by auto
  note step = open_step [OF Cons.prems(2-4) now]
  have IH: "state_of (snd (run_ops tr ?r)) p = Open \<and> (\<forall>n<length tr. snd (tr ! n) = AskOp p \<longrightarrow> \<not> fst (run_ops tr ?r) ! n)"
    using Cons.IH [OF run_op_existing [OF Cons.prems(1)] step(1-3)] Cons.prems(5) step(4) by auto
  have "\<not> fst (run_op now x r)" if "x = AskOp p" using step(5) run_op_ask [OF Cons.prems(1)] that by simp
  with IH show ?case by (auto simp: y less_Suc_eq_0_disj split: prod.splits)
qed

section \<open>Failures in a row\<close>

definition trailing :: "bool list \<Rightarrow> nat" where
  "trailing bs = length (takeWhile Not (rev bs))"

lemma trailing_simps [simp]: "trailing [] = 0" "trailing (bs @ [True]) = 0" "trailing (bs @ [False]) = Suc (trailing bs)"
  by (simp_all add: trailing_def)

lemma prefix_replicate: "prefix (replicate k False) zs \<longleftrightarrow> k \<le> length (takeWhile Not zs)"
proof (induction k arbitrary: zs)
  case (Suc k)
  then show ?case by (cases zs) auto
qed simp

lemma row_snoc:
  assumes "0 < k"
  shows "sublist (replicate k False) (bs @ [b]) \<longleftrightarrow> sublist (replicate k False) bs \<or> k \<le> trailing (bs @ [b])"
proof -
  have "suffix (replicate k False) (bs @ [b]) \<longleftrightarrow> k \<le> trailing (bs @ [b])"
    unfolding suffix_to_prefix trailing_def by (simp add: prefix_replicate del: takeWhile.simps)
  moreover have "sublist (replicate k False) (bs @ [b]) \<longleftrightarrow> suffix (replicate k False) (bs @ [b]) \<or> sublist (replicate k False) bs"
    using sublist_Cons_right [of "rev (replicate k False)" b "rev bs"]
    by (simp add: sublist_rev_right suffix_to_prefix flip: sublist_rev [of "replicate k False" "bs @ [b]"])
  ultimately show ?thesis by blast
qed

definition all_reports :: "string \<Rightarrow> (nat \<times> registry_op) list \<Rightarrow> bool list" where
  "all_reports p tr = concat (map (reports p \<circ> snd) tr)"

lemma run_ops_snoc: "snd (run_ops (tr @ [(now, x)]) r) = snd (run_op now x (snd (run_ops tr r)))"
proof (induction tr arbitrary: r)
  case (Cons y tr)
  show ?case using Cons.IH [of "snd (run_op (fst y) (snd y) r)"] by (cases y) (simp add: case_prod_beta Let_def)
qed (simp add: case_prod_beta Let_def)

text \<open>A closed breaker has counted the failures since the last success.\<close>

definition counted :: "CircuitBreakerRegistry \<Rightarrow> u32 \<Rightarrow> string \<Rightarrow> bool list \<Rightarrow> bool" where
  "counted r k p bs \<longleftrightarrow> cr_failure_threshold r = k \<and>
     (case map_of (cr_breakers r) p of
        None \<Rightarrow> bs = []
      | Some b \<Rightarrow> cb_failure_threshold b = k \<and> cb_state b = Closed \<and> unat (cb_failure_count b) = trailing bs)"

lemma closed_op:
  fixes now :: nat
  assumes "cb_failure_threshold b = k" "cb_state b = Closed" "unat (cb_failure_count b) = trailing bs" "trailing bs < unat k" "\<not> resets p x"
  defines "b' \<equiv> op_effect_on now p x b"
  shows "cb_state b' = (if trailing (bs @ reports p x) < unat k then Closed else Open)" "cb_failure_threshold b' = k"
    "cb_state b' = Closed \<Longrightarrow> unat (cb_failure_count b') = trailing (bs @ reports p x)"
proof -
  have "unat (cb_failure_count b) < max 1 (unat k)" using assms(3,4) by simp
  note bump = count_bump [OF this]
  show "cb_state b' = (if trailing (bs @ reports p x) < unat k then Closed else Open)" "cb_failure_threshold b' = k"
    "cb_state b' = Closed \<Longrightarrow> unat (cb_failure_count b') = trailing (bs @ reports p x)"
    using assms bump by (cases x; auto simp: can_execute_def record_success_def record_failure_def Let_def split: if_splits)+
qed

lemma counted_step:
  assumes "counted r k p bs" "trailing bs < unat k" "\<not> resets p x"
  shows "state_of (snd (run_op now x r)) p = (if trailing (bs @ reports p x) < unat k then Closed else Open)"
    "trailing (bs @ reports p x) < unat k \<Longrightarrow> counted (snd (run_op now x r)) k p (bs @ reports p x)"
proof -
  have thr: "cr_failure_threshold (snd (run_op now x r)) = k" using assms(1) by (simp add: counted_def run_op_defaults)
  have "(state_of (snd (run_op now x r)) p = (if trailing (bs @ reports p x) < unat k then Closed else Open))
    \<and> (trailing (bs @ reports p x) < unat k \<longrightarrow> counted (snd (run_op now x r)) k p (bs @ reports p x))"
  proof (cases "map_of (cr_breakers r) p")
    case None
    let ?b = "breaker_new (cr_failure_threshold r) (cr_success_threshold r) (cr_timeout r) now"
    have bs: "bs = []" and k: "cr_failure_threshold r = k" using assms(1) None by (simp_all add: counted_def)
    have "cb_failure_threshold ?b = k" "cb_state ?b = Closed" "unat (cb_failure_count ?b) = trailing []" by (simp_all add: breaker_new_def k)
    note new = closed_op [OF this _ assms(3)]
    from run_op_absent [OF None, of now x] show ?thesis using new assms(2) thr
      by (auto simp: state_of_def counted_def bs split: if_splits)
  next
    case (Some b)
    have b: "cb_failure_threshold b = k" "cb_state b = Closed" "unat (cb_failure_count b) = trailing bs"
      using assms(1) Some by (simp_all add: counted_def)
    note old = closed_op [OF b assms(2,3), of now]
    show ?thesis using old thr by (auto simp: state_of_def counted_def run_op_existing [OF Some])
  qed
  then show "state_of (snd (run_op now x r)) p = (if trailing (bs @ reports p x) < unat k then Closed else Open)"
    "trailing (bs @ reports p x) < unat k \<Longrightarrow> counted (snd (run_op now x r)) k p (bs @ reports p x)" by blast+
qed

lemma closed_run:
  assumes "0 < k" "counted r k p []" "\<forall>y\<in>set tr. \<not> resets p (snd y)"
  shows "(\<forall>n\<le>length tr. state_of (snd (run_ops (take n tr) r)) p = Closed) \<longleftrightarrow> \<not> sublist (replicate (unat k) False) (all_reports p tr)"
    "\<not> sublist (replicate (unat k) False) (all_reports p tr) \<Longrightarrow>
       counted (snd (run_ops tr r)) k p (all_reports p tr) \<and> trailing (all_reports p tr) < unat k"
proof -
  have k: "0 < unat k" using assms(1) by (simp add: word_less_nat_alt)
  have "((\<forall>n\<le>length tr. state_of (snd (run_ops (take n tr) r)) p = Closed) \<longleftrightarrow> \<not> sublist (replicate (unat k) False) (all_reports p tr))
    \<and> (\<not> sublist (replicate (unat k) False) (all_reports p tr) \<longrightarrow>
       counted (snd (run_ops tr r)) k p (all_reports p tr) \<and> trailing (all_reports p tr) < unat k)"
    using assms(3)
  proof (induction tr rule: rev_induct)
    case Nil
    have "state_of r p = Closed" using assms(2) by (auto simp: counted_def state_of_def split: option.splits)
    then show ?case using assms(2) k by (auto simp: all_reports_def)
  next
    case (snoc y tr)
    obtain now x where y: "y = (now, x)" by fastforce
    have x: "\<not> resets p x" using snoc.prems y by simp
    let ?bs = "all_reports p tr" and ?row = "sublist (replicate (unat k) False)"
    have bs: "all_reports p (tr @ [y]) = ?bs @ reports p x" by (simp add: all_reports_def y)
    have closed: "(\<forall>n\<le>length (tr @ [y]). state_of (snd (run_ops (take n (tr @ [y])) r)) p = Closed)
        \<longleftrightarrow> \<not> ?row ?bs \<and> state_of (snd (run_ops (tr @ [y]) r)) p = Closed"
      using snoc by (auto simp: le_Suc_eq)
    have row: "?row (?bs @ reports p x) \<longleftrightarrow> ?row ?bs \<or> unat k \<le> trailing (?bs @ reports p x)" if "trailing ?bs < unat k"
    proof (cases "reports p x = []")
      case False
      then obtain b where "reports p x = [b]" by (cases x) (auto split: if_splits)
      then show ?thesis using row_snoc [OF k, of ?bs b] by simp
    qed (use that in simp)
    have mono: "?row (?bs @ reports p x)" if "?row ?bs" using that by (metis append.assoc sublist_def)
    show ?case
    proof (cases "?row ?bs")
      case True
      then show ?thesis using closed mono by (simp add: bs)
    next
      case False
      then have c: "counted (snd (run_ops tr r)) k p ?bs" "trailing ?bs < unat k" using snoc by auto
      let ?below = "trailing (?bs @ reports p x) < unat k"
      have s: "state_of (snd (run_ops (tr @ [y]) r)) p = Closed \<longleftrightarrow> ?below"
        using counted_step(1) [OF c x, of now] by (simp add: y run_ops_snoc)
      have c': "counted (snd (run_ops (tr @ [y]) r)) k p (?bs @ reports p x)" if ?below
        using counted_step(2) [OF c x that, of now] by (simp add: y run_ops_snoc)
      have "?row (?bs @ reports p x) \<longleftrightarrow> \<not> ?below" using row [OF c(2)] False by (simp add: not_less)
      with closed s c' False show ?thesis unfolding bs by blast
    qed
  qed
  then show "(\<forall>n\<le>length tr. state_of (snd (run_ops (take n tr) r)) p = Closed) \<longleftrightarrow> \<not> sublist (replicate (unat k) False) (all_reports p tr)"
    "\<not> sublist (replicate (unat k) False) (all_reports p tr) \<Longrightarrow>
       counted (snd (run_ops tr r)) k p (all_reports p tr) \<and> trailing (all_reports p tr) < unat k" by blast+
qed

section \<open>Properties\<close>

text \<open>
  C21. A breaker opens on exactly the failures its threshold names.  Whatever calls, questions and
  reports of other providers come in between, the breaker of a provider is closed all along a run
  without resets if and only if the reports on that provider have no row of \<open>k\<close> failures without
  a success between them, \<open>k\<close> being the positive threshold of the registry.
\<close>

theorem breaker_opens_exactly:
  assumes "0 < k" "\<forall>y\<in>set tr. \<not> resets p (snd y)"
  shows "(\<forall>n\<le>length tr. state_of (snd (run_ops (take n tr) (registry_with_defaults k s timeout))) p = Closed)
    \<longleftrightarrow> \<not> sublist (replicate (unat k) False) (all_reports p tr)"
  by (rule closed_run(1) [OF assms(1) _ assms(2)]) (simp add: counted_def registry_with_defaults_def)

theorem breaker_opens_exactly_witness:
  "state_of (snd (run_ops [(1, FailureOp ''a''), (2, SuccessOp ''a''), (3, FailureOp ''b''), (4, FailureOp ''a'')]
      (registry_with_defaults 2 1 50))) ''a'' = Closed
   \<and> (\<exists>n. state_of (snd (run_ops (take n [(1, FailureOp ''a''), (2, FailureOp ''a'')]) (registry_with_defaults 2 1 50))) ''a'' \<noteq> Closed)"
proof -
  let ?good = "[(1, FailureOp ''a''), (2, SuccessOp ''a''), (3, FailureOp ''b''), (4, FailureOp ''a'')]"
  let ?bad = "[(1, FailureOp ''a''), (2, FailureOp ''a'')]"
  have unat_two: "unat (2 :: u32) = 2" by simp
  have two: "replicate (unat (2 :: u32)) False = [False, False]" by (simp only: unat_two) (simp add: numeral_2_eq_2)
  have "all_reports ''a'' ?good = [False, True, False]" "all_reports ''a'' ?bad = [False, False]" by (simp_all add: all_reports_def)
  then have rows: "\<not> sublist (replicate (unat (2 :: u32)) False) (all_reports ''a'' ?good)" "sublist (replicate (unat (2 :: u32)) False) (all_reports ''a'' ?bad)"
    unfolding two by (simp_all add: sublist_Cons_right)
  have "\<forall>y\<in>set ?good. \<not> resets ''a'' (snd y)" "\<forall>y\<in>set ?bad. \<not> resets ''a'' (snd y)" by simp_all
  from breaker_opens_exactly [of 2 ?good "''a''" 1 50, OF _ this(1)] breaker_opens_exactly [of 2 ?bad "''a''" 1 50, OF _ this(2)] rows
  have "\<forall>n\<le>length ?good. state_of (snd (run_ops (take n ?good) (registry_with_defaults 2 1 50))) ''a'' = Closed"
    "\<not> (\<forall>n\<le>length ?bad. state_of (snd (run_ops (take n ?bad) (registry_with_defaults 2 1 50))) ''a'' = Closed)" by simp_all
  then show ?thesis by (metis le_refl take_all)
qed

text \<open>
  An open breaker keeps calls away: from the moment a provider is reported failing and its
  breaker is open, every question whether the provider may be called is answered no until the
  timeout has passed, whatever further failures and whatever events of other providers come in
  between, as long as nobody reports a success of the provider or resets it.
\<close>

theorem breaker_blocks_until_timeout:
  assumes "map_of (cr_breakers r) p = Some b" "cb_state (record_failure t0 b) = Open"
    and "\<forall>(now, x)\<in>set tr. t0 \<le> now \<and> now < t0 + cb_timeout b \<and> \<not> resets p x \<and> reports p x \<noteq> [True]"
    and "0 < cb_timeout b" "n < length tr" "snd (tr ! n) = AskOp p"
  shows "\<not> fst (run_ops tr (registry_record_failure t0 p r)) ! n"
proof -
  let ?b = "record_failure t0 b"
  have "map_of (cr_breakers (registry_record_failure t0 p r)) p = Some ?b"
    using assms(1) by (simp add: registry_defs AList.update_conv')
  moreover have "cb_last_state_change ?b = t0" using assms(2) by (auto simp: record_failure_def Let_def split: CircuitState.splits if_splits)
  moreover have "cb_timeout ?b = cb_timeout b" by (auto simp: record_failure_def Let_def split: CircuitState.splits)
  ultimately show ?thesis using open_run [of _ p ?b t0 tr] assms(2-6) by simp
qed

theorem breaker_blocks_until_timeout_witness:
  "fst (run_ops [(7, AskOp ''a''), (8, FailureOp ''a''), (9, AskOp ''a'')]
      (registry_record_failure 5 ''a'' (snd (get_state 0 ''a'' (registry_with_defaults 1 1 10))))) = [False, True, False]"
proof -
  let ?tr = "[(7, AskOp ''a''), (8, FailureOp ''a''), (9, AskOp ''a'')]" and ?r = "snd (get_state 0 ''a'' (registry_with_defaults 1 1 10))"
  have b: "map_of (cr_breakers ?r) ''a'' = Some (breaker_new 1 1 10 0)" by code_simp
  have o: "cb_state (record_failure 5 (breaker_new 1 1 10 0)) = Open" "0 < cb_timeout (breaker_new 1 1 10 0)" by code_simp+
  have tr: "\<forall>(now, x)\<in>set ?tr. 5 \<le> now \<and> now < 5 + cb_timeout (breaker_new 1 1 10 0) \<and> \<not> resets ''a'' x \<and> reports ''a'' x \<noteq> [True]"
    by (simp add: breaker_new_def)
  note blocked = breaker_blocks_until_timeout [OF b o(1) tr o(2)]
  obtain a0 a1 a2 where run: "fst (run_ops ?tr (registry_record_failure 5 ''a'' ?r)) = [a0, a1, a2]" and a1: a1
    by (simp add: case_prod_beta Let_def)
  from blocked [of 0] blocked [of 2] run a1 show ?thesis by simp
qed

text \<open>
  A provider that has recovered is served again: after the timeout the next question is
  answered yes, and the breaker closes after as many successes as its threshold asks (one, if it
  asks none), while a failure before that opens it again.
\<close>

theorem breaker_recovers:
  assumes "cb_state b = Open" "cb_last_state_change b + cb_timeout b \<le> now"
  shows "fst (can_execute now b)
    \<and> cb_state (fold record_success ts (snd (can_execute now b)))
        = (if max 1 (unat (cb_success_threshold b)) \<le> length ts then Closed else HalfOpen)
    \<and> (length ts < max 1 (unat (cb_success_threshold b)) \<longrightarrow>
        cb_state (record_failure t (fold record_success ts (snd (can_execute now b)))) = Open)"
proof -
  let ?b = "snd (can_execute now b)"
  define m where "m = max 1 (unat (cb_success_threshold b))"
  have m: "0 < m" by (simp add: m_def)
  have to: "cb_timeout b \<le> now - cb_last_state_change b" using assms(2) by linarith
  have start: "fst (can_execute now b)" "cb_state ?b = HalfOpen" "cb_success_count ?b = 0" "cb_success_threshold ?b = cb_success_threshold b"
    using assms to by (simp_all add: can_execute_def)
  have run: "cb_success_threshold (fold record_success ts ?b) = cb_success_threshold b
    \<and> (if m \<le> length ts then cb_state (fold record_success ts ?b) = Closed
       else cb_state (fold record_success ts ?b) = HalfOpen \<and> unat (cb_success_count (fold record_success ts ?b)) = length ts)"
  proof (induction ts rule: rev_induct)
    case (snoc t ts)
    let ?c = "fold record_success ts ?b"
    have "cb_success_threshold (record_success t ?c) = cb_success_threshold ?c"
      by (auto simp: record_success_def Let_def split: CircuitState.splits)
    moreover have "cb_state (record_success t ?c) = Closed" if "cb_state ?c = Closed" using that by (simp add: record_success_def)
    moreover have "if m \<le> Suc (length ts) then cb_state (record_success t ?c) = Closed
        else cb_state (record_success t ?c) = HalfOpen \<and> unat (cb_success_count (record_success t ?c)) = Suc (length ts)"
      if c: "cb_state ?c = HalfOpen" "unat (cb_success_count ?c) = length ts" "length ts < m" "cb_success_threshold ?c = cb_success_threshold b"
    proof -
      have "unat (cb_success_count ?c) < max 1 (unat (cb_success_threshold ?c))" using c by (simp add: m_def)
      note bump = count_bump [OF this]
      show ?thesis using c bump by (auto simp: record_success_def Let_def m_def)
    qed
    ultimately show ?case using snoc by (auto split: if_splits)
  qed (use start m in auto)
  moreover have "cb_state (record_failure t c) = Open" if "cb_state c = HalfOpen" for c using that by (simp add: record_failure_def)
  ultimately show ?thesis using start(1) unfolding m_def [symmetric] by (auto split: if_splits)
qed

theorem breaker_recovers_witness:
  "fst (can_execute 90 (record_failure 5 (breaker_new 1 2 50 0)))
   \<and> cb_state (fold record_success [91, 92] (snd (can_execute 90 (record_failure 5 (breaker_new 1 2 50 0))))) = Closed"
proof -
  have "cb_state (record_failure 5 (breaker_new 1 2 50 0)) = Open"
    "cb_last_state_change (record_failure 5 (breaker_new 1 2 50 0)) + cb_timeout (record_failure 5 (breaker_new 1 2 50 0)) \<le> 90"
    "cb_success_threshold (record_failure 5 (breaker_new 1 2 50 0)) = 2" by code_simp+
  with breaker_recovers [of "record_failure 5 (breaker_new 1 2 50 0)" 90 "[91, 92]"] show ?thesis by simp
qed

end
