(* ===== verification/Attribution.thy ===== *)
theory Attribution
  imports Op_Log_Store Site_Map Company_Org
begin

text \<open>
  The producers of the operation log: changes attributed to a principal
  (\<open>automation/change_attribution.rs\<close>) and denials of the governor (\<open>automation/governor.rs\<close>).  Both read
  the durable log, advance its clock and append one operation, without a lock between the read and
  the append.  The locale \<open>op_producer\<close> is what their operations have in common.
  An append may be refused or stop anywhere, also inside a record, which the next append then
  continues.
\<close>

section \<open>Attributed changes\<close>

record attr_env =
  ae_ser :: "Op \<Rightarrow> string option"
  ae_de :: "string \<Rightarrow> Op option"
  ae_sha :: "string \<Rightarrow> u8 list"
  ae_de_triples :: "string \<Rightarrow> VcTriple list option"

record Attribution =
  at_op :: Op
  at_reflagged :: "u64 list"

record ChangeAttributor =
  ca_principal :: Principal
  ca_clock :: VectorClock
  ca_seen :: "(string \<times> string) list"

definition text_key :: "Op \<Rightarrow> (string \<times> string) option" where
  "text_key op = (case op_effect op of Text path digest \<Rightarrow> Some (path, digest) | _ \<Rightarrow> None)"

definition log_ops :: "attr_env \<Rightarrow> string option \<Rightarrow> Op list" where
  "log_ops env file = ops (load (ae_de env) file)"

definition merged_clock :: "attr_env \<Rightarrow> string option \<Rightarrow> VectorClock \<Rightarrow> VectorClock" where
  "merged_clock env file c = fold (\<lambda>op c. vc_merge c (op_clock op)) (log_ops env file) c"

definition refresh_from_log :: "attr_env \<Rightarrow> string option \<Rightarrow> ChangeAttributor \<Rightarrow> ChangeAttributor" where
  "refresh_from_log env file a =
     a\<lparr>ca_clock := merged_clock env file (ca_clock a), ca_seen := List.map_filter text_key (log_ops env file)\<rparr>"

definition attributor_open :: "attr_env \<Rightarrow> string option \<Rightarrow> Principal \<Rightarrow> ChangeAttributor" where
  "attributor_open env file p = refresh_from_log env file \<lparr>ca_principal = p, ca_clock = vc_new, ca_seen = []\<rparr>"

definition attributor_open_human :: "attr_env \<Rightarrow> string option \<Rightarrow> string \<Rightarrow> ChangeAttributor" where
  "attributor_open_human env file user_id = attributor_open env file (principal_human (''human/'' @ user_id) user_id None)"

definition digest_of_content :: "attr_env \<Rightarrow> string \<Rightarrow> string" where
  "digest_of_content env content = ''sha:'' @ hex16 (hash_str (ae_sha env) content)"

definition callers_step :: "attr_env \<Rightarrow> u64 \<Rightarrow> u64 \<Rightarrow> u64 list \<times> SiteMap \<Rightarrow> u64 list \<times> SiteMap" where
  "callers_step env file_hash member st =
     (let (callers, sm) = get_callers (ae_sha env) (ae_de_triples env) (snd st) member in
      (fst st @ filter (\<lambda>c. c \<noteq> file_hash) callers, sm))"

definition reflag_dependents :: "attr_env \<Rightarrow> SiteMap \<Rightarrow> string \<Rightarrow> u64 list \<times> SiteMap" where
  "reflag_dependents env sm rel_path =
     (let file_hash = hash_str (ae_sha env) rel_path;
          (ts, sm1) = find_live_triples (ae_sha env) (ae_de_triples env) sm (Some file_hash) None None;
          (dependents, sm2) = fold (callers_step env file_hash) (map object_hash ts) ([], sm1) in
      (sort (remdups dependents), sm2))"

definition record_inner ::
  "attr_env \<Rightarrow> io \<Rightarrow> SiteMap option \<Rightarrow> string \<Rightarrow> string \<Rightarrow> string \<Rightarrow> ChangeAttributor \<Rightarrow> string option
     \<Rightarrow> Attribution option \<times> ChangeAttributor \<times> string option \<times> SiteMap option" where
  "record_inner env d site_map rel_path digest intent a file =
     (let a1 = refresh_from_log env file a in
      if (rel_path, digest) \<in> set (ca_seen a1) then (None, a1, file, site_map)
      else (let (reflagged, site_map1) =
                  (case site_map of
                     Some sm \<Rightarrow> (let (hs, sm1) = reflag_dependents env sm rel_path in (hs, Some sm1))
                   | None \<Rightarrow> ([], None));
                op = new_text (ca_clock a1) (ca_principal a1) rel_path digest intent;
                (_, file1) = store_append (ae_ser env) d file op in
            (Some \<lparr>at_op = op, at_reflagged = reflagged\<rparr>,
             a1\<lparr>ca_clock := op_clock op, ca_seen := (rel_path, digest) # ca_seen a1\<rparr>, file1, site_map1)))"

definition attr_record ::
  "attr_env \<Rightarrow> io \<Rightarrow> string \<Rightarrow> string \<Rightarrow> string \<Rightarrow> ChangeAttributor \<Rightarrow> string option
     \<Rightarrow> Attribution option \<times> ChangeAttributor \<times> string option" where
  "attr_record env d rel_path digest intent a file =
     (let (r, a1, file1, _) = record_inner env d None rel_path digest intent a file in (r, a1, file1))"

definition record_with_site_map ::
  "attr_env \<Rightarrow> io \<Rightarrow> SiteMap \<Rightarrow> string \<Rightarrow> string \<Rightarrow> string \<Rightarrow> ChangeAttributor \<Rightarrow> string option
     \<Rightarrow> Attribution option \<times> ChangeAttributor \<times> string option \<times> SiteMap option" where
  "record_with_site_map env d sm rel_path digest intent a file = record_inner env d (Some sm) rel_path digest intent a file"

section \<open>The governor\<close>

definition slug_step :: "char \<Rightarrow> string \<times> bool \<Rightarrow> string \<times> bool" where
  "slug_step ch st =
     (let (out, last_dash) = st; n = (of_char ch :: nat) in
      if 48 \<le> n \<and> n \<le> 57 \<or> 65 \<le> n \<and> n \<le> 90 \<or> 97 \<le> n \<and> n \<le> 122 then (out @ [to_lower ch], False)
      else if \<not> last_dash \<and> out \<noteq> [] then (out @ ''-'', True) else st)"

definition slugify :: "string \<Rightarrow> string" where
  "slugify s = trim_matches (\<lambda>c. c = CHR ''-'') (fst (fold slug_step s ([], False)))"

definition org_team_slug :: "CompanyOrg \<Rightarrow> string" where
  "org_team_slug org = slugify (og_name org)"

definition WORKSPACE_RESOURCE :: string where
  "WORKSPACE_RESOURCE = ''workspace''"

definition team_resource :: "string \<Rightarrow> string" where
  "team_resource team_id = ''team/'' @ slugify team_id"

text \<open>A governor is the organisation document of its workspace, if there is one.\<close>

type_synonym Governor = "CompanyOrg option"

definition governed :: "Governor \<Rightarrow> bool" where
  "governed g \<longleftrightarrow> g \<noteq> None"

definition staffs :: "CompanyOrg \<Rightarrow> string \<Rightarrow> Role \<Rightarrow> bool" where
  "staffs org team_id r \<longleftrightarrow>
     (let bound = (if ro_agent_team r = [] then org_team_slug org else ro_agent_team r) in
      bound = slugify team_id \<or> bound = team_id)"

definition principal_for_team :: "Governor \<Rightarrow> string \<Rightarrow> Principal" where
  "principal_for_team g team_id =
     principal_agent node_local 0
       (Option.bind g (\<lambda>org. map_option ro_id (List.find (staffs org team_id) (og_roles org)))) (Some team_id)"

definition principal_for_human :: "Governor \<Rightarrow> string \<Rightarrow> NodeId \<Rightarrow> Principal" where
  "principal_for_human g user_id node =
     principal_human node user_id
       (Option.bind g (\<lambda>org. map_option ro_id (List.find (\<lambda>r. user_id \<in> set (ro_humans r)) (og_roles org))))"

definition governor_check :: "(fp \<Rightarrow> string) \<Rightarrow> Governor \<Rightarrow> Principal \<Rightarrow> string \<Rightarrow> Capability \<Rightarrow> fp \<Rightarrow> Decision" where
  "governor_check sf g p resource_id cap amount =
     (case g of
        None \<Rightarrow> Allowed
      | Some org \<Rightarrow>
          (case pr_role_id p of
             None \<Rightarrow> Denied (''principal on node '' @ quoted (pr_node_id p) @ '' (kind '' @ kind_label (pr_kind p)
               @ '') carries no org role_id; a governed workspace admits only identified roles'')
           | Some role_id \<Rightarrow> check_permission sf org role_id resource_id cap amount))"

definition denial_op :: "Principal \<Rightarrow> string \<Rightarrow> Capability \<Rightarrow> string \<Rightarrow> VectorClock \<Rightarrow> Op" where
  "denial_op p resource_id cap reason c =
     (let (clock, counter) = vc_increment c (pr_node_id p) in
      \<lparr>op_id = OpId (pr_node_id p) counter, op_clock = clock, op_principal = p, op_causal_deps = [],
       op_intent = ''rbac-deny: '' @ cap_as_str cap @ '' on '' @ resource_id @ '' '' @ em_dash @ '' '' @ reason,
       op_effect = Legacy, op_outcome = Failure, op_authorized_by = None\<rparr>)"

definition record_denial ::
  "attr_env \<Rightarrow> io \<Rightarrow> Principal \<Rightarrow> string \<Rightarrow> Capability \<Rightarrow> string \<Rightarrow> string option \<Rightarrow> string option" where
  "record_denial env d p resource_id cap reason file =
     snd (store_append (ae_ser env) d file (denial_op p resource_id cap reason (merged_clock env file vc_new)))"

definition check_recorded ::
  "(fp \<Rightarrow> string) \<Rightarrow> attr_env \<Rightarrow> io \<Rightarrow> Governor \<Rightarrow> Principal \<Rightarrow> string \<Rightarrow> Capability \<Rightarrow> fp \<Rightarrow> string option \<Rightarrow> Decision \<times> string option" where
  "check_recorded sf env d g p resource_id cap amount file =
     (let decision = governor_check sf g p resource_id cap amount in
      case decision of
        Denied reason \<Rightarrow> (decision, record_denial env d p resource_id cap reason file)
      | _ \<Rightarrow> (decision, file))"

text \<open>The debug form of the list of approvers in a message is the standard library's: \<open>dbg\<close>.\<close>

definition require_dispatch ::
  "(string list \<Rightarrow> string) \<Rightarrow> (fp \<Rightarrow> string) \<Rightarrow> attr_env \<Rightarrow> io \<Rightarrow> Governor \<Rightarrow> string \<Rightarrow> string option \<Rightarrow> (string + unit) \<times> string option" where
  "require_dispatch dbg sf env d g team_id file =
     (let (decision, file1) = check_recorded sf env d g (principal_for_team g team_id) (team_resource team_id) DispatchTo (Fin 0) file in
      (case decision of
         Allowed \<Rightarrow> Inr ()
       | Denied reason \<Rightarrow> Inl (''rbac: dispatch to team '' @ quoted team_id @ '' denied '' @ em_dash @ '' '' @ reason)
       | RequiresApproval _ approvers quorum reason \<Rightarrow>
           Inl (''rbac: dispatch to team '' @ quoted team_id @ '' requires org approval '' @ em_dash @ '' '' @ reason
             @ '' (approvers '' @ dbg approvers @ '', quorum '' @ show_nat quorum
             @ ''); clear an approval request in the org, or run dry_run=true to preview without spending.''),
       file1))"

definition require_write ::
  "(string list \<Rightarrow> string) \<Rightarrow> (fp \<Rightarrow> string) \<Rightarrow> attr_env \<Rightarrow> io \<Rightarrow> Governor \<Rightarrow> Principal \<Rightarrow> string option \<Rightarrow> (string + unit) \<times> string option" where
  "require_write dbg sf env d g p file =
     (let (decision, file1) = check_recorded sf env d g p WORKSPACE_RESOURCE Write (Fin 0) file in
      (case decision of
         Allowed \<Rightarrow> Inr ()
       | Denied reason \<Rightarrow> Inl (''rbac: write to the workspace denied '' @ em_dash @ '' '' @ reason)
       | RequiresApproval _ approvers quorum reason \<Rightarrow>
           Inl (''rbac: write to the workspace requires org approval '' @ em_dash @ '' '' @ reason
             @ '' (approvers '' @ dbg approvers @ '', quorum '' @ show_nat quorum
             @ ''); clear an approval request in the org to proceed.''),
       file1))"

section \<open>Fresh operation ids\<close>

text \<open>The counter of an operation is covered by its own clock.\<close>

definition self_stamped :: "Op \<Rightarrow> bool" where
  "self_stamped op \<longleftrightarrow> vc_ok (op_clock op) \<and> oi_counter (op_id op) \<le> vc_get (op_clock op) (oi_node (op_id op))"

lemma merged_clock_bounds:
  assumes "\<forall>op\<in>set (log_ops env file). vc_ok (op_clock op)" "vc_ok c"
  shows "vc_ok (merged_clock env file c)" "vc_get c n \<le> vc_get (merged_clock env file c) n"
    "op \<in> set (log_ops env file) \<Longrightarrow> vc_get (op_clock op) n \<le> vc_get (merged_clock env file c) n"
proof -
  have "vc_ok (fold (\<lambda>op c. vc_merge c (op_clock op)) xs c) \<and> vc_get c n \<le> vc_get (fold (\<lambda>op c. vc_merge c (op_clock op)) xs c) n
    \<and> (\<forall>op\<in>set xs. vc_get (op_clock op) n \<le> vc_get (fold (\<lambda>op c. vc_merge c (op_clock op)) xs c) n)"
    if "\<forall>op\<in>set xs. vc_ok (op_clock op)" "vc_ok c" for xs c
    using that
  proof (induction xs arbitrary: c)
    case (Cons x xs)
    have m: "vc_get (vc_merge c (op_clock x)) n = max (vc_get c n) (vc_get (op_clock x) n)" using Cons.prems(1) by (simp add: vc_get_merge)
    show ?case using Cons.IH [of "vc_merge c (op_clock x)"] Cons.prems m by (auto simp: max_def split: if_splits)
  qed simp
  from this [OF assms] show "vc_ok (merged_clock env file c)" "vc_get c n \<le> vc_get (merged_clock env file c) n"
    "op \<in> set (log_ops env file) \<Longrightarrow> vc_get (op_clock op) n \<le> vc_get (merged_clock env file c) n"
    by (auto simp: merged_clock_def)
qed

locale op_producer =
  fixes make :: "VectorClock \<Rightarrow> Op" and node :: NodeId
  assumes make_id: "op_id (make c) = OpId node (vc_get c node + 1)"
    and make_clock: "op_clock (make c) = fst (vc_increment c node)"
begin

lemma make_stamped: "vc_ok c \<Longrightarrow> self_stamped (make c)"
  by (simp add: self_stamped_def make_id make_clock)

lemma make_fresh:
  assumes "\<forall>op\<in>set (log_ops env file). self_stamped op" "vc_ok c" "vc_get (merged_clock env file c) node + 1 \<noteq> 0"
  shows "op_id (make (merged_clock env file c)) \<notin> op_id ` set (log_ops env file)"
proof
  let ?m = "merged_clock env file c"
  assume "op_id (make ?m) \<in> op_id ` set (log_ops env file)"
  then obtain op where op: "op \<in> set (log_ops env file)" "op_id op = OpId node (vc_get ?m node + 1)" by (auto simp: make_id)
  then have "vc_get ?m node + 1 \<le> vc_get (op_clock op) node" using assms(1) by (auto simp: self_stamped_def)
  moreover have "vc_get (op_clock op) node \<le> vc_get ?m node" using merged_clock_bounds(3) [OF _ assms(2) op(1)] assms(1) by (simp add: self_stamped_def)
  moreover have "vc_get ?m node \<noteq> - 1" using assms(3) by auto
  ultimately show False using word_less_bump [of "vc_get ?m node"] by simp
qed

end

interpretation change: op_producer "\<lambda>c. new_text c p path digest intent" "pr_node_id p" for p path digest intent
  by unfold_locales (simp_all add: new_text_def case_prod_beta Let_def)

interpretation denial: op_producer "denial_op p resource_id cap reason" "pr_node_id p" for p resource_id cap reason
  by unfold_locales (simp_all add: denial_op_def case_prod_beta Let_def)

section \<open>Appending one operation\<close>

lemma append_one:
  assumes "serde_ok ser de S" "op \<in> S" "line_aligned file"
  shows "ops (load de (snd (store_append ser d file op))) \<in> {ops (load de file), ops (load de file) @ [op]}
    \<and> (fst (store_append ser d file op) = Inr () \<longrightarrow> ops (load de (snd (store_append ser d file op))) = ops (load de file) @ [op])"
proof -
  have "serde_ok ser de (set [op])" using assms(1,2) by (simp add: serde_ok_def)
  from append_many_result [OF this assms(3), of d] obtain k where "k \<le> 1"
      "ops (load de (snd (store_append ser d file op))) = ops (load de file) @ take k [op]"
      "fst (store_append ser d file op) = Inr () \<longrightarrow> k = 1"
    by (auto simp: store_append_def)
  then show ?thesis by (cases k) auto
qed

section \<open>Logs of the producers\<close>

definition producers_ok :: "attr_env \<Rightarrow> Op set \<Rightarrow> string option \<Rightarrow> bool" where
  "producers_ok env S file \<longleftrightarrow> torn_form (ae_ser env) S file \<and> (\<forall>op\<in>set (log_ops env file). self_stamped op)
     \<and> distinct (map op_id (log_ops env file)) \<and> distinct (List.map_filter text_key (log_ops env file))"

text \<open>
  A step of a producer: an attributor with any memory records a change, or the governor records a
  denial, with any disk: the append may be refused, or stop after any number of bytes, inside the
  record as well.  A step reads the log and appends; no other step comes in between.  \<open>S\<close> holds the
  operations the producers make.
\<close>

inductive producer_step :: "attr_env \<Rightarrow> Op set \<Rightarrow> string option \<Rightarrow> string option \<Rightarrow> bool" for env S where
  change: "record_inner env d sm rel_path digest intent a file = (r, a', file', sm') \<Longrightarrow> vc_ok (ca_clock a) \<Longrightarrow>
    (\<And>att. r = Some att \<Longrightarrow> at_op att \<in> S) \<Longrightarrow> producer_step env S file file'"
| denial: "file' = record_denial env d p resource_id cap reason file \<Longrightarrow>
    denial_op p resource_id cap reason (merged_clock env file vc_new) \<in> S \<Longrightarrow> producer_step env S file file'"

lemma distinct_map_filter_butlast: "distinct (List.map_filter f xs) \<Longrightarrow> distinct (List.map_filter f (butlast xs))"
  by (cases xs rule: rev_cases) (simp_all add: map_filter_append)

lemma producers_append:
  assumes "serde_ok (ae_ser env) (ae_de env) S" "splice_ok (ae_ser env) (ae_de env) S" "producers_ok env S file"
    and "op \<in> S" "self_stamped op" "op_id op \<notin> op_id ` set (log_ops env file)"
    and "\<And>key. text_key op = Some key \<Longrightarrow> key \<notin> set (List.map_filter text_key (log_ops env file))"
    and "file' = snd (store_append (ae_ser env) d file op)"
  shows "producers_ok env S file'"
proof -
  have form: "torn_form (ae_ser env) S file" and st: "\<forall>op\<in>set (log_ops env file). self_stamped op"
    and d: "distinct (map op_id (log_ops env file))" "distinct (List.map_filter text_key (log_ops env file))"
    using assms(3) by (simp_all add: producers_ok_def)
  note a = append_one_torn [OF assms(1,2,4) form assms(8)]
  then consider "log_ops env file' = log_ops env file" | "log_ops env file' = log_ops env file @ [op]"
    | "log_ops env file' = butlast (log_ops env file)" by (auto simp: log_ops_def)
  then show ?thesis
  proof cases
    case 1
    with a st d show ?thesis by (simp add: producers_ok_def)
  next
    case 2
    with a st d assms(5-7) show ?thesis
      by (auto simp: producers_ok_def map_filter_append map_filter_simps split: option.splits)
  next
    case 3
    have "\<forall>op\<in>set (butlast (log_ops env file)). self_stamped op" using st in_set_butlastD by fast
    moreover have "distinct (map op_id (butlast (log_ops env file)))" using d(1) by (simp add: map_butlast distinct_butlast)
    ultimately show ?thesis using a 3 distinct_map_filter_butlast [OF d(2)] by (simp add: producers_ok_def)
  qed
qed

lemma producer_step_ok:
  assumes serde: "serde_ok (ae_ser env) (ae_de env) S" "splice_ok (ae_ser env) (ae_de env) S"
    and nowrap: "\<forall>op\<in>S. oi_counter (op_id op) \<noteq> 0"
    and ok: "producers_ok env S file" and step: "producer_step env S file file'"
  shows "producers_ok env S file'"
  using step
proof cases
  case (change d sm rel_path digest intent a r a' sm')
  let ?m = "merged_clock env file (ca_clock a)"
  let ?op = "new_text ?m (ca_principal a) rel_path digest intent"
  have st: "\<forall>op\<in>set (log_ops env file). self_stamped op" using ok by (simp add: producers_ok_def)
  show ?thesis
  proof (cases "(rel_path, digest) \<in> set (List.map_filter text_key (log_ops env file))")
    case True
    then show ?thesis using change(1) ok by (simp add: record_inner_def refresh_from_log_def Let_def)
  next
    case False
    have r: "file' = snd (store_append (ae_ser env) d file ?op)" "\<exists>hs. r = Some \<lparr>at_op = ?op, at_reflagged = hs\<rparr>"
      using change(1) False by (auto simp: record_inner_def refresh_from_log_def Let_def split: prod.splits option.splits)
    then have S: "?op \<in> S" using change(3) by auto
    with nowrap have room: "vc_get ?m (pr_node_id (ca_principal a)) + 1 \<noteq> 0" by (metis change.make_id OpId.sel(2))
    have vc: "vc_ok ?m" using merged_clock_bounds(1) [OF _ change(2)] st by (simp add: self_stamped_def)
    have key: "text_key ?op = Some (rel_path, digest)" by (simp add: text_key_def new_text_def case_prod_beta Let_def)
    show ?thesis using producers_append [OF serde ok S change.make_stamped [OF vc] change.make_fresh [OF st change(2) room] _ r(1)] False key
      by simp
  qed
next
  case (denial d p resource_id cap reason)
  let ?m = "merged_clock env file vc_new"
  let ?op = "denial_op p resource_id cap reason ?m"
  have st: "\<forall>op\<in>set (log_ops env file). self_stamped op" using ok by (simp add: producers_ok_def)
  have vc: "vc_ok ?m" using merged_clock_bounds(1) [OF _ vc_ok_new] st by (simp add: self_stamped_def)
  have room: "vc_get ?m (pr_node_id p) + 1 \<noteq> 0" using nowrap denial(2) by (metis denial.make_id OpId.sel(2))
  have "text_key ?op = None" by (simp add: text_key_def denial_op_def case_prod_beta Let_def)
  then show ?thesis
    using producers_append [OF serde ok denial(2) denial.make_stamped [OF vc] denial.make_fresh [OF st _ room] _ denial(1) [unfolded record_denial_def]]
    by simp
qed

section \<open>Properties\<close>

text \<open>
  C20. Producers do not collide.  Starting from an absent log, after any sequence of changes
  recorded by any attributors, whatever they remember from earlier, and of denials recorded by the
  governor, one after the other, with appends that are refused or stop after any number of bytes, no
  two operations of the log share an id, and no content of a file is recorded twice.  This is for
  operations on which the serializer behaves as documented, where two starts of records spliced
  together do not parse, and whose counters have not wrapped around.  A stopped append may cost this
  log operations, whose ids are then given out again; that two producers do not interleave is needed
  (\<open>racing_producers_collide\<close>).
\<close>

theorem producers_never_collide:
  assumes "serde_ok (ae_ser env) (ae_de env) S" "splice_ok (ae_ser env) (ae_de env) S"
    and "\<forall>op\<in>S. oi_counter (op_id op) \<noteq> 0" "(producer_step env S)\<^sup>*\<^sup>* None file"
  shows "distinct (map op_id (log_ops env file)) \<and> distinct (List.map_filter text_key (log_ops env file))"
proof -
  have "producers_ok env S None" by (simp add: producers_ok_def log_ops_def ops_load map_filter_simps)
  with assms(4) have "producers_ok env S file"
    by (induction rule: rtranclp_induct) (use producer_step_ok [OF assms(1-3)] in blast)+
  then show ?thesis by (simp add: producers_ok_def)
qed

text \<open>
  The read of the log and the append are two steps: two producers of one node that read the same
  log before either appends mint the same id.
\<close>

lemma racing_producers_collide:
  "pr_node_id p = pr_node_id q \<Longrightarrow>
   op_id (new_text (merged_clock env file vc_new) p path digest intent) = op_id (denial_op q resource_id cap reason (merged_clock env file vc_new))"
  by (simp add: change.make_id denial.make_id)

text \<open>An attribution is returned even when its operation could not be appended.\<close>

lemma attribution_without_record:
  assumes "(rel_path, digest) \<notin> set (List.map_filter text_key (log_ops env file))" "\<not> io_open d"
  shows "\<exists>att a'. attr_record env d rel_path digest intent a file = (Some att, a', file)"
  using assms by (simp add: attr_record_def record_inner_def refresh_from_log_def store_append_def append_many_def Let_def)

lemma materialize_Legacy: "op_effect op = Legacy \<Longrightarrow> materialize (OpSet (xs @ [op])) = materialize (OpSet xs)"
  by (simp add: materialize_def materialize_op_def case_prod_beta)

lemma check_recorded_denied:
  assumes "serde_ok (ae_ser env) (ae_de env) S" "line_aligned file" "governor_check sf g p resource_id cap amount = Denied reason"
    and "denial_op p resource_id cap reason (merged_clock env file vc_new) \<in> S"
  defines "file' \<equiv> snd (check_recorded sf env io_perfect g p resource_id cap amount file)"
  shows "log_ops env file' = log_ops env file @ [denial_op p resource_id cap reason (merged_clock env file vc_new)]"
    "store_materialize (ae_de env) file' = store_materialize (ae_de env) file"
    "List.map_filter text_key (log_ops env file') = List.map_filter text_key (log_ops env file)"
proof -
  let ?op = "denial_op p resource_id cap reason (merged_clock env file vc_new)"
  have f: "file' = snd (store_append (ae_ser env) io_perfect file ?op)"
    using assms(3) by (simp add: file'_def check_recorded_def record_denial_def)
  obtain l where l: "ae_ser env ?op = Some l" using assms(1,4) by (auto simp: serde_ok_def)
  then have fst: "fst (store_append (ae_ser env) io_perfect file ?op) = Inr ()"
    by (simp add: store_append_def append_many_def io_perfect_def Let_def)
  show ops: "log_ops env file' = log_ops env file @ [?op]"
    using append_one [OF assms(1,4,2)] fst by (simp add: log_ops_def f)
  have eff: "op_effect ?op = Legacy" by (simp add: denial_op_def case_prod_beta Let_def)
  have set: "load (ae_de env) h = OpSet (log_ops env h)" for h by (simp add: log_ops_def)
  show "store_materialize (ae_de env) file' = store_materialize (ae_de env) file"
    unfolding store_materialize_def set ops by (rule materialize_Legacy [OF eff])
  show "List.map_filter text_key (log_ops env file') = List.map_filter text_key (log_ops env file)"
    using eff by (simp add: ops map_filter_append map_filter_simps text_key_def)
qed

text \<open>
  C25. Dispatch in a governed workspace is deny by default and leaves a trail: it passes only when
  a role that staffs the team holds a dispatch grant on the resource of the team, and then writes
  nothing; without such a role it is refused, and on a working disk the refusal is the last
  operation of the log, under the principal of the team, without changing the materialized state
  or the contents the log has recorded.
\<close>

theorem dispatch_needs_granted_role:
  assumes "require_dispatch dbg sf env io_perfect (Some org) team_id file = (r, file')"
    and "serde_ok (ae_ser env) (ae_de env) S" "line_aligned file"
    and "\<forall>reason. governor_check sf (Some org) (principal_for_team (Some org) team_id) (team_resource team_id) DispatchTo (Fin 0) = Denied reason \<longrightarrow>
          denial_op (principal_for_team (Some org) team_id) (team_resource team_id) DispatchTo reason (merged_clock env file vc_new) \<in> S"
  defines "granted \<equiv> \<exists>role\<in>set (og_roles org). staffs org team_id role
      \<and> (\<exists>gr\<in>set (og_grants org). covers gr (ro_id role) (team_resource team_id) DispatchTo)"
  shows "(r = Inr () \<longrightarrow> granted \<and> file' = file)
    \<and> (\<not> granted \<longrightarrow> (\<exists>message reason. r = Inl message
        \<and> log_ops env file' = log_ops env file @ [denial_op (principal_for_team (Some org) team_id) (team_resource team_id) DispatchTo reason (merged_clock env file vc_new)]
        \<and> store_materialize (ae_de env) file' = store_materialize (ae_de env) file
        \<and> List.map_filter text_key (log_ops env file') = List.map_filter text_key (log_ops env file)))"
proof -
  let ?p = "principal_for_team (Some org) team_id" and ?res = "team_resource team_id"
  let ?d = "governor_check sf (Some org) ?p ?res DispatchTo (Fin 0)"
  have role: "pr_role_id ?p = map_option ro_id (List.find (staffs org team_id) (og_roles org))"
    by (simp add: principal_for_team_def principal_agent_def)
  have grant: granted if open_gate: "\<forall>reason. ?d \<noteq> Denied reason"
  proof -
    obtain i where i: "pr_role_id ?p = Some i" using open_gate by (auto simp: governor_check_def split: option.splits)
    then obtain x where x: "List.find (staffs org team_id) (og_roles org) = Some x" "i = ro_id x" using role by auto
    have "\<exists>gr\<in>set (og_grants org). covers gr i ?res DispatchTo"
      using open_gate i granted_iff [of i ?res DispatchTo org]
      by (auto simp: governor_check_def check_permission_def split: option.splits)
    with x show ?thesis unfolding granted_def by (auto simp: find_Some_iff)
  qed
  have snd: "file' = snd (check_recorded sf env io_perfect (Some org) ?p ?res DispatchTo (Fin 0) file)"
    and res: "r = Inr () \<longleftrightarrow> ?d = Allowed"
    using assms(1) by (auto simp: require_dispatch_def check_recorded_def Let_def split: prod.splits Decision.splits)
  show ?thesis
  proof (cases "\<exists>reason. ?d = Denied reason")
    case True
    then obtain reason where d: "?d = Denied reason" by blast
    note trail = check_recorded_denied [OF assms(2,3) d assms(4) [rule_format, OF d], folded snd]
    have "r \<noteq> Inr ()" using res d by simp
    then obtain message where "r = Inl message" by (cases r) auto
    with trail show ?thesis by blast
  next
    case False
    then have "file' = file" using snd by (auto simp: check_recorded_def Let_def split: Decision.splits)
    with False grant show ?thesis by blast
  qed
qed

definition one_op_env :: "Op \<Rightarrow> attr_env" where
  "one_op_env op = \<lparr>ae_ser = (\<lambda>x. if x = op then Some ''{a}'' else None), ae_de = (\<lambda>s. if s = ''{a}'' then Some op else None),
     ae_sha = (\<lambda>_. [0, 0, 0, 0, 0, 0, 0, 0]), ae_de_triples = (\<lambda>_. None)\<rparr>"

lemma one_op_serde: "serde_ok (ae_ser (one_op_env op)) (ae_de (one_op_env op)) {op}"
proof -
  have short: "ae_de (one_op_env op) (trim (take n ''{a}'')) = None" if "n < 3" for n
  proof -
    have "length (trim (take n ''{a}'')) \<noteq> 3" using length_trim [of "take n ''{a}''"] that by (simp add: min_def split: if_splits)
    then show ?thesis by (auto simp: one_op_env_def)
  qed
  have "trim ''{a}'' = ''{a}''" "newline \<notin> set ''{a}''" by code_simp+
  with short show ?thesis unfolding serde_ok_def
    by (intro ballI exI [of _ "''{a}''"]) (auto simp: one_op_env_def)
qed

lemma one_op_log: "log_ops (one_op_env op) None = []" "merged_clock (one_op_env op) None c = c"
  by (simp_all add: log_ops_def ops_load merged_clock_def)

lemma filter_trim: "(\<And>c. is_whitespace c \<Longrightarrow> \<not> P c) \<Longrightarrow> filter P (trim s) = filter P s"
proof -
  assume P: "\<And>c. is_whitespace c \<Longrightarrow> \<not> P c"
  have d: "filter P (dropWhile is_whitespace xs) = filter P xs" for xs by (induction xs) (auto simp: P)
  show ?thesis by (simp add: trim_def trim_matches_def d rev_filter [symmetric])
qed

lemma one_op_splice: "splice_ok (ae_ser (one_op_env op)) (ae_de (one_op_env op)) {op}"
  unfolding splice_ok_def
proof (intro allI impI)
  fix ps assume p: "pieces (ae_ser (one_op_env op)) {op} ps" and "2 \<le> length ps"
  let ?P = "\<lambda>c. c = CHR ''{''"
  have one: "1 \<le> length (filter ?P q)" if "q \<in> set ps" for q
  proof -
    from p that obtain n where "q = take n ''{a}''" "q \<noteq> []" by (auto simp: pieces_def one_op_env_def)
    then show ?thesis by (cases n) auto
  qed
  have "length qs \<le> length (filter ?P (concat qs))" if "set qs \<subseteq> set ps" for qs
    using that
  proof (induction qs)
    case (Cons q qs)
    then show ?case using one [of q] by simp
  qed simp
  from this [of ps] \<open>2 \<le> length ps\<close> have "2 \<le> length (filter ?P (concat ps))" by simp
  moreover have "filter ?P (trim (concat ps)) = filter ?P (concat ps)" by (rule filter_trim) (auto simp: is_whitespace_def)
  ultimately have two: "2 \<le> length (filter ?P (trim (concat ps)))" by simp
  have "trim (concat ps) \<noteq> ''{a}''"
  proof
    assume "trim (concat ps) = ''{a}''"
    from two [unfolded this] show False by simp
  qed
  then show "ae_de (one_op_env op) (trim (concat ps)) = None" by (simp add: one_op_env_def)
qed

definition demo_change :: Op where
  "demo_change = new_text vc_new (principal_agent node_local 7 None None) ''a.rs'' ''sha:1'' ''edit''"

theorem producers_never_collide_witness:
  "(producer_step (one_op_env demo_change) {demo_change})\<^sup>*\<^sup>* None (Some (''{a}'' @ [newline]))
   \<and> distinct (map op_id (log_ops (one_op_env demo_change) (Some (''{a}'' @ [newline]))))"
proof -
  let ?p = "principal_agent node_local 7 None None"
  let ?a = "\<lparr>ca_principal = ?p, ca_clock = vc_new, ca_seen = []\<rparr>"
  have rec: "record_inner (one_op_env demo_change) io_perfect None ''a.rs'' ''sha:1'' ''edit'' ?a None
    = (Some \<lparr>at_op = demo_change, at_reflagged = []\<rparr>, ?a\<lparr>ca_clock := op_clock demo_change, ca_seen := [(''a.rs'', ''sha:1'')]\<rparr>,
       Some (''{a}'' @ [newline]), None)"
    by (simp add: record_inner_def refresh_from_log_def one_op_log map_filter_simps store_append_def append_many_def io_perfect_def Let_def
        flip: demo_change_def) (simp add: one_op_env_def)
  have nowrap: "\<forall>op\<in>{demo_change}. oi_counter (op_id op) \<noteq> 0" unfolding demo_change_def by (simp add: change.make_id)
  have "producer_step (one_op_env demo_change) {demo_change} None (Some (''{a}'' @ [newline]))"
    by (intro producer_step.change [OF rec]) auto
  then have step: "(producer_step (one_op_env demo_change) {demo_change})\<^sup>*\<^sup>* None (Some (''{a}'' @ [newline]))" by blast
  from producers_never_collide [OF one_op_serde one_op_splice nowrap step] step show ?thesis by blast
qed

definition ghost_denial :: Op where
  "ghost_denial = denial_op (principal_for_team (Some demo_org) ''ghost'') (team_resource ''ghost'') DispatchTo
     ''principal on node 'local' (kind agent) carries no org role_id; a governed workspace admits only identified roles'' vc_new"

theorem dispatch_needs_granted_role_witness:
  "\<exists>message reason. fst (require_dispatch (\<lambda>_. []) (\<lambda>_. []) (one_op_env ghost_denial) io_perfect (Some demo_org) ''ghost'' None) = Inl message
    \<and> log_ops (one_op_env ghost_denial) (snd (require_dispatch (\<lambda>_. []) (\<lambda>_. []) (one_op_env ghost_denial) io_perfect (Some demo_org) ''ghost'' None))
      = [denial_op (principal_for_team (Some demo_org) ''ghost'') (team_resource ''ghost'') DispatchTo reason vc_new]"
proof -
  have slug: "slugify ''ghost'' = ''ghost''" "slugify ''Demo'' = ''demo''" by code_simp+
  have nobody: "\<not> (\<exists>role\<in>set (og_roles demo_org). staffs demo_org ''ghost'' role
      \<and> (\<exists>gr\<in>set (og_grants demo_org). covers gr (ro_id role) (team_resource ''ghost'') DispatchTo))"
    by (simp add: demo_org_def staffs_def org_team_slug_def slug Let_def)
  have "governor_check (\<lambda>_. []) (Some demo_org) (principal_for_team (Some demo_org) ''ghost'') (team_resource ''ghost'') DispatchTo (Fin 0)
    = Denied ''principal on node 'local' (kind agent) carries no org role_id; a governed workspace admits only identified roles''"
    by (simp add: governor_check_def principal_for_team_def principal_agent_def demo_org_def staffs_def org_team_slug_def slug
        node_local_def quoted_def Let_def)
  then have S: "\<forall>reason. governor_check (\<lambda>_. []) (Some demo_org) (principal_for_team (Some demo_org) ''ghost'') (team_resource ''ghost'') DispatchTo (Fin 0)
      = Denied reason \<longrightarrow> denial_op (principal_for_team (Some demo_org) ''ghost'') (team_resource ''ghost'') DispatchTo reason
        (merged_clock (one_op_env ghost_denial) None vc_new) \<in> {ghost_denial}"
    by (simp add: ghost_denial_def one_op_log)
  have "line_aligned None" by (simp add: line_aligned_def)
  from dispatch_needs_granted_role [OF surjective_pairing one_op_serde this S, of "\<lambda>_. []"] nobody show ?thesis
    by (auto simp: one_op_log)
qed

end
