(* ===== verification/Security_Policy.thy ===== *)
theory Security_Policy
  imports Velocity_Prelude Rust_Std "HOL-Library.AList"
begin

text \<open>
  The policy enforcer (\<open>security/policy.rs\<close>): checks of paths, processes, sizes, URLs and environment
  variables, and the violations it keeps.  An \<open>Instant\<close> is a number of nanoseconds, the instant of a
  check is an argument, and so is the standard library's debug form of a string (\<open>dbg\<close>).
\<close>

section \<open>The policy\<close>

datatype ViolationKind =
  PathTraversal | ProcessBlocked | FileTooLarge | RequestTooLarge | UrlSchemeBlocked | EnvVarLeak | WorkspaceEscape

fun violation_kind_fmt :: "ViolationKind \<Rightarrow> string" where
  "violation_kind_fmt PathTraversal = ''PathTraversal''"
| "violation_kind_fmt ProcessBlocked = ''ProcessBlocked''"
| "violation_kind_fmt FileTooLarge = ''FileTooLarge''"
| "violation_kind_fmt RequestTooLarge = ''RequestTooLarge''"
| "violation_kind_fmt UrlSchemeBlocked = ''UrlSchemeBlocked''"
| "violation_kind_fmt EnvVarLeak = ''EnvVarLeak''"
| "violation_kind_fmt WorkspaceEscape = ''WorkspaceEscape''"

record PolicyViolation =
  pv_kind :: ViolationKind
  pv_details :: string
  pv_timestamp :: nat

definition violation_fmt :: "PolicyViolation \<Rightarrow> string" where
  "violation_fmt v = ''['' @ violation_kind_fmt (pv_kind v) @ ''] '' @ pv_details v"

record SecurityPolicy =
  sp_allowed_workspace_paths :: "PathBuf list"
  sp_blocked_process_names :: "string list"
  sp_max_file_size_bytes :: u64
  sp_max_request_size_bytes :: u64
  sp_allowed_url_schemes :: "string list"
  sp_blocked_env_vars :: "string list"
  sp_require_workspace_containment :: bool

definition default_policy :: SecurityPolicy where
  "default_policy =
     \<lparr>sp_allowed_workspace_paths = [],
      sp_blocked_process_names = [''format'', ''fdisk'', ''diskpart'', ''eval'', ''nc'', ''ncat'', ''netcat''],
      sp_max_file_size_bytes = 50 * 1024 * 1024, sp_max_request_size_bytes = 10 * 1024 * 1024,
      sp_allowed_url_schemes = [''http'', ''https''],
      sp_blocked_env_vars = [''AWS_SECRET_ACCESS_KEY'', ''AWS_SESSION_TOKEN'', ''AZURE_CLIENT_SECRET'', ''GITHUB_TOKEN'',
        ''GITLAB_TOKEN'', ''NPM_TOKEN'', ''CARGO_REGISTRY_TOKEN'', ''DATABASE_URL'', ''DB_PASSWORD'', ''PRIVATE_KEY'',
        ''SSH_PASSPHRASE'', ''API_SECRET'', ''ENCRYPTION_KEY'', ''MASTER_KEY''],
      sp_require_workspace_containment = True\<rparr>"

record PolicyEnforcer =
  pe_policy :: SecurityPolicy
  pe_violations :: "PolicyViolation list"
  pe_start_time :: nat

definition enforcer_new :: "SecurityPolicy \<Rightarrow> nat \<Rightarrow> PolicyEnforcer" where
  "enforcer_new policy now = \<lparr>pe_policy = policy, pe_violations = [], pe_start_time = now\<rparr>"

section \<open>The checks\<close>

definition record_violation :: "PolicyViolation \<Rightarrow> PolicyEnforcer \<Rightarrow> PolicyEnforcer" where
  "record_violation v e = e\<lparr>pe_violations := pe_violations e @ [v]\<rparr>"

definition refuse :: "ViolationKind \<Rightarrow> string \<Rightarrow> nat \<Rightarrow> PolicyEnforcer \<Rightarrow> (PolicyViolation + unit) \<times> PolicyEnforcer" where
  "refuse kind details now e =
     (let v = \<lparr>pv_kind = kind, pv_details = details, pv_timestamp = now\<rparr> in (Inl v, record_violation v e))"

definition path_starts_with :: "PathBuf \<Rightarrow> PathBuf \<Rightarrow> bool" where
  "path_starts_with path base \<longleftrightarrow> path_strip_prefix path base \<noteq> None"

definition validate_file_path :: "PathBuf \<Rightarrow> nat \<Rightarrow> PolicyEnforcer \<Rightarrow> (PolicyViolation + unit) \<times> PolicyEnforcer" where
  "validate_file_path path now e =
     (if ParentDir \<in> set (components path)
      then refuse PathTraversal (''path contains traversal component (..): '' @ path) now e
      else if sp_require_workspace_containment (pe_policy e) \<and> sp_allowed_workspace_paths (pe_policy e) \<noteq> []
        \<and> \<not> list_ex (path_starts_with path) (sp_allowed_workspace_paths (pe_policy e))
      then refuse WorkspaceEscape (''path '' @ path @ '' is not within any allowed workspace path'') now e
      else (Inr (), e))"

definition command_base :: "string \<Rightarrow> string" where
  "command_base command =
     (let command_name = (case file_name command of Some n \<Rightarrow> n | None \<Rightarrow> command) in
      case strip_suffix command_name ''.exe'' of
        Some b \<Rightarrow> b
      | None \<Rightarrow>
          (case strip_suffix command_name ''.cmd'' of
             Some b \<Rightarrow> b
           | None \<Rightarrow> (case strip_suffix command_name ''.bat'' of Some b \<Rightarrow> b | None \<Rightarrow> command_name)))"

definition debug_list :: "(string \<Rightarrow> string) \<Rightarrow> string list \<Rightarrow> string" where
  "debug_list dbg xs = ''['' @ join '', '' (map dbg xs) @ '']''"

definition validate_process_spawn ::
  "(string \<Rightarrow> string) \<Rightarrow> string \<Rightarrow> string list \<Rightarrow> nat \<Rightarrow> PolicyEnforcer \<Rightarrow> (PolicyViolation + unit) \<times> PolicyEnforcer" where
  "validate_process_spawn dbg command args now e =
     (if list_ex (\<lambda>blocked. eq_ignore_ascii_case blocked (command_base command)) (sp_blocked_process_names (pe_policy e))
      then refuse ProcessBlocked (''process '' @ dbg command @ '' is blocked (args: '' @ debug_list dbg args @ '')'') now e
      else (Inr (), e))"

definition validate_file_size :: "u64 \<Rightarrow> nat \<Rightarrow> PolicyEnforcer \<Rightarrow> (PolicyViolation + unit) \<times> PolicyEnforcer" where
  "validate_file_size bytes now e =
     (if sp_max_file_size_bytes (pe_policy e) < bytes
      then refuse FileTooLarge (''file size '' @ show_u64 bytes @ '' bytes exceeds maximum ''
        @ show_u64 (sp_max_file_size_bytes (pe_policy e)) @ '' bytes'') now e
      else (Inr (), e))"

definition validate_request_size :: "u64 \<Rightarrow> nat \<Rightarrow> PolicyEnforcer \<Rightarrow> (PolicyViolation + unit) \<times> PolicyEnforcer" where
  "validate_request_size bytes now e =
     (if sp_max_request_size_bytes (pe_policy e) < bytes
      then refuse RequestTooLarge (''request size '' @ show_u64 bytes @ '' bytes exceeds maximum ''
        @ show_u64 (sp_max_request_size_bytes (pe_policy e)) @ '' bytes'') now e
      else (Inr (), e))"

text \<open>A URL without a scheme is refused before anything is recorded.\<close>

definition validate_url :: "(string \<Rightarrow> string) \<Rightarrow> string \<Rightarrow> nat \<Rightarrow> PolicyEnforcer \<Rightarrow> (PolicyViolation + unit) \<times> PolicyEnforcer" where
  "validate_url dbg url now e =
     (case split_once_str ''://'' url of
        None \<Rightarrow> (Inl \<lparr>pv_kind = UrlSchemeBlocked, pv_details = ''URL missing scheme: '' @ dbg url, pv_timestamp = now\<rparr>, e)
      | Some (prefix, _) \<Rightarrow>
          let scheme = to_lowercase prefix in
          if \<not> list_ex (\<lambda>allowed. eq_ignore_ascii_case allowed scheme) (sp_allowed_url_schemes (pe_policy e))
          then refuse UrlSchemeBlocked (''URL scheme '' @ dbg scheme @ '' is not allowed (allowed: ''
            @ debug_list dbg (sp_allowed_url_schemes (pe_policy e)) @ '')'') now e
          else (Inr (), e))"

fun validate_env_vars :: "(string \<Rightarrow> string) \<Rightarrow> string list \<Rightarrow> nat \<Rightarrow> PolicyEnforcer \<Rightarrow> (PolicyViolation + unit) \<times> PolicyEnforcer" where
  "validate_env_vars dbg [] now e = (Inr (), e)"
| "validate_env_vars dbg (var # vars) now e =
     (let var_name = hd (split_on (CHR ''='') var) in
      if list_ex (\<lambda>blocked. eq_ignore_ascii_case blocked var_name) (sp_blocked_env_vars (pe_policy e))
      then refuse EnvVarLeak (''environment variable '' @ dbg var_name @ '' is blocked from propagation'') now e
      else validate_env_vars dbg vars now e)"

section \<open>The report\<close>

record SecurityReport =
  sr_total_violations :: nat
  sr_violations_by_kind :: "(ViolationKind \<times> nat) list"
  sr_last_violation :: "PolicyViolation option"
  sr_uptime_seconds :: nat

definition count_kind :: "PolicyViolation \<Rightarrow> (ViolationKind \<times> nat) list \<Rightarrow> (ViolationKind \<times> nat) list" where
  "count_kind v m = AList.update (pv_kind v) ((case map_of m (pv_kind v) of Some n \<Rightarrow> n | None \<Rightarrow> 0) + 1) m"

definition generate_report :: "nat \<Rightarrow> PolicyEnforcer \<Rightarrow> SecurityReport" where
  "generate_report now e =
     \<lparr>sr_total_violations = length (pe_violations e), sr_violations_by_kind = fold count_kind (pe_violations e) [],
      sr_last_violation = (if pe_violations e = [] then None else Some (last (pe_violations e))),
      sr_uptime_seconds = (now - pe_start_time e) div 1000000000\<rparr>"

definition violation_count :: "PolicyEnforcer \<Rightarrow> nat" where
  "violation_count e = length (pe_violations e)"

section \<open>Sequences of checks\<close>

datatype check =
  PathCheck PathBuf | SpawnCheck string "string list" | FileSizeCheck u64 | RequestSizeCheck u64 | UrlCheck string | EnvCheck "string list"

fun run_check :: "(string \<Rightarrow> string) \<Rightarrow> check \<Rightarrow> nat \<Rightarrow> PolicyEnforcer \<Rightarrow> (PolicyViolation + unit) \<times> PolicyEnforcer" where
  "run_check dbg (PathCheck p) now e = validate_file_path p now e"
| "run_check dbg (SpawnCheck c args) now e = validate_process_spawn dbg c args now e"
| "run_check dbg (FileSizeCheck n) now e = validate_file_size n now e"
| "run_check dbg (RequestSizeCheck n) now e = validate_request_size n now e"
| "run_check dbg (UrlCheck u) now e = validate_url dbg u now e"
| "run_check dbg (EnvCheck vars) now e = validate_env_vars dbg vars now e"

fun run_checks :: "(string \<Rightarrow> string) \<Rightarrow> (nat \<times> check) list \<Rightarrow> PolicyEnforcer \<Rightarrow> (PolicyViolation + unit) list \<times> PolicyEnforcer" where
  "run_checks dbg [] e = ([], e)"
| "run_checks dbg ((now, c) # cs) e =
     (let (r, e1) = run_check dbg c now e; (rs, e2) = run_checks dbg cs e1 in (r # rs, e2))"

section \<open>Properties\<close>

text \<open>The names a path leads through when no link is followed.\<close>

fun enter :: "component \<Rightarrow> string list \<Rightarrow> string list" where
  "enter (Normal s) names = names @ [s]"
| "enter ParentDir names = butlast names"
| "enter RootDir names = names"
| "enter CurDir names = names"

definition resolve :: "PathBuf \<Rightarrow> string list" where
  "resolve p = fold enter (components p) []"

lemma fold_enter: "ParentDir \<notin> set cs \<Longrightarrow> \<exists>more. fold enter cs names = names @ more"
proof (induction cs arbitrary: names)
  case (Cons c cs)
  have names: "\<exists>more. enter c names = names @ more" using Cons.prems by (cases c) auto
  with Cons.IH [of "enter c names"] Cons.prems show ?case by auto
qed simp

lemma starts_with_components: "path_starts_with p base \<longleftrightarrow> (\<exists>rest. components p = components base @ rest)"
  by (auto simp: path_starts_with_def path_strip_prefix_def Let_def) (metis append_take_drop_id)

lemma resolve_below:
  assumes "path_starts_with p base" "ParentDir \<notin> set (components p)"
  shows "\<exists>more. resolve p = resolve base @ more"
proof -
  obtain rest where r: "components p = components base @ rest" using assms(1) by (auto simp: starts_with_components)
  with assms(2) fold_enter [of rest "resolve base"] show ?thesis by (auto simp: resolve_def)
qed

text \<open>
  The path check is exact: a path is accepted if and only if it has no \<open>..\<close> component and,
  when containment is required and the policy names workspace paths, begins with the components of
  one of them; an accepted path then leads, as written, to that workspace or to something below it.
\<close>

theorem path_check_exact:
  "(fst (validate_file_path p now e) = Inr () \<longleftrightarrow> ParentDir \<notin> set (components p)
     \<and> (sp_require_workspace_containment (pe_policy e) \<and> sp_allowed_workspace_paths (pe_policy e) \<noteq> [] \<longrightarrow>
          (\<exists>base\<in>set (sp_allowed_workspace_paths (pe_policy e)). \<exists>rest. components p = components base @ rest)))
   \<and> (fst (validate_file_path p now e) = Inr () \<longrightarrow> sp_require_workspace_containment (pe_policy e) \<longrightarrow> sp_allowed_workspace_paths (pe_policy e) \<noteq> [] \<longrightarrow>
        (\<exists>base\<in>set (sp_allowed_workspace_paths (pe_policy e)). \<exists>more. resolve p = resolve base @ more))"
proof -
  have "fst (validate_file_path p now e) = Inr () \<longleftrightarrow> ParentDir \<notin> set (components p)
     \<and> (sp_require_workspace_containment (pe_policy e) \<and> sp_allowed_workspace_paths (pe_policy e) \<noteq> [] \<longrightarrow>
          (\<exists>base\<in>set (sp_allowed_workspace_paths (pe_policy e)). path_starts_with p base))"
    by (auto simp: validate_file_path_def refuse_def Let_def list_ex_iff)
  then show ?thesis using resolve_below starts_with_components by meson
qed

theorem path_check_exact_witness:
  "\<not> (\<exists>base\<in>set [''/work/repo'']. \<exists>rest. components ''/work/repository/a.rs'' = components base @ rest)
   \<and> fst (validate_file_path ''/work/repository/a.rs'' 1 (enforcer_new (default_policy\<lparr>sp_allowed_workspace_paths := [''/work/repo'']\<rparr>) 0)) \<noteq> Inr ()
   \<and> resolve ''/work/repo/src/./a.rs'' = resolve ''/work/repo'' @ [''src'', ''a.rs'']"
proof -
  let ?e = "enforcer_new (default_policy\<lparr>sp_allowed_workspace_paths := [''/work/repo'']\<rparr>) 0"
  have "fst (validate_file_path ''/work/repo/src/./a.rs'' 1 ?e) = Inr ()" by code_simp
  then have "\<exists>more. resolve ''/work/repo/src/./a.rs'' = resolve ''/work/repo'' @ more"
    using path_check_exact [of "''/work/repo/src/./a.rs''" 1 ?e] by (simp add: enforcer_new_def default_policy_def)
  moreover have "resolve ''/work/repo/src/./a.rs'' = [''work'', ''repo'', ''src'', ''a.rs'']" "resolve ''/work/repo'' = [''work'', ''repo'']"
    by code_simp+
  moreover have refused: "fst (validate_file_path ''/work/repository/a.rs'' 1 ?e) \<noteq> Inr ()" by code_simp
  moreover have "ParentDir \<notin> set (components ''/work/repository/a.rs'')" by code_simp
  then have "\<not> (\<exists>base\<in>set [''/work/repo'']. \<exists>rest. components ''/work/repository/a.rs'' = components base @ rest)"
    using path_check_exact [of "''/work/repository/a.rs''" 1 ?e] refused by (auto simp: enforcer_new_def default_policy_def)
  ultimately show ?thesis by simp
qed

text \<open>What the log keeps of a refusal.\<close>

definition recorded :: "check \<Rightarrow> PolicyViolation + unit \<Rightarrow> PolicyViolation list" where
  "recorded c r =
     (case r of
        Inr _ \<Rightarrow> []
      | Inl v \<Rightarrow> (case c of UrlCheck u \<Rightarrow> if split_once_str ''://'' u = None then [] else [v] | _ \<Rightarrow> [v]))"

lemma validate_env_vars_log:
  "pe_violations (snd (validate_env_vars dbg vars now e)) = pe_violations e
     @ (case fst (validate_env_vars dbg vars now e) of Inl v \<Rightarrow> [v] | Inr _ \<Rightarrow> [])"
  by (induction vars) (auto simp: refuse_def record_violation_def Let_def)

lemma run_check_log: "pe_violations (snd (run_check dbg c now e)) = pe_violations e @ recorded c (fst (run_check dbg c now e))"
  by (cases c)
    (auto simp: validate_env_vars_log recorded_def validate_file_path_def validate_process_spawn_def validate_file_size_def
      validate_request_size_def validate_url_def refuse_def record_violation_def Let_def split: sum.splits option.splits)

lemma run_checks_log:
  "pe_violations (snd (run_checks dbg cs e)) = pe_violations e @ concat (map2 (\<lambda>c r. recorded (snd c) r) cs (fst (run_checks dbg cs e)))"
proof (induction cs arbitrary: e)
  case (Cons y cs)
  obtain now c where y: "y = (now, c)" by fastforce
  show ?case using Cons.IH [of "snd (run_check dbg c now e)"] run_check_log [of dbg c now e] by (simp add: y case_prod_beta Let_def)
qed simp

lemma fold_count_kind:
  "map_of (fold count_kind vs m) k = (let n = (case map_of m k of Some n \<Rightarrow> n | None \<Rightarrow> 0) + length (filter (\<lambda>v. pv_kind v = k) vs) in
     if map_of m k = None \<and> filter (\<lambda>v. pv_kind v = k) vs = [] then None else Some n)"
  by (induction vs arbitrary: m) (auto simp: count_kind_def AList.update_conv' Let_def split: option.splits)

text \<open>
  The security report is complete but for one case: after any sequence of checks on a new
  enforcer, the report counts the refusals, in total and by kind, and shows the last of them, where
  the only refusals left out are those of a URL without a scheme.
\<close>

theorem report_counts_refusals:
  assumes "run_checks dbg cs (enforcer_new policy t0) = (rs, e)"
  defines "kept \<equiv> concat (map2 (\<lambda>c r. recorded (snd c) r) cs rs)"
  shows "sr_total_violations (generate_report now e) = length kept
    \<and> (\<forall>k. (case map_of (sr_violations_by_kind (generate_report now e)) k of Some n \<Rightarrow> n | None \<Rightarrow> 0) = length (filter (\<lambda>v. pv_kind v = k) kept))
    \<and> sr_last_violation (generate_report now e) = (if kept = [] then None else Some (last kept))"
proof -
  have kept: "pe_violations e = kept"
    using run_checks_log [of dbg cs "enforcer_new policy t0"] assms by (simp add: enforcer_new_def)
  show ?thesis by (auto simp: generate_report_def kept fold_count_kind Let_def split: option.splits)
qed

theorem report_counts_refusals_witness:
  "sr_total_violations (generate_report 9 (snd (run_checks id [(1, UrlCheck ''localhost''), (2, SpawnCheck ''/usr/bin/nc'' []),
      (3, UrlCheck ''file://x'')] (enforcer_new default_policy 0)))) = 2"
proof -
  let ?cs = "[(1, UrlCheck ''localhost''), (2, SpawnCheck ''/usr/bin/nc'' []), (3, UrlCheck ''file://x'')]"
  let ?run = "run_checks id ?cs (enforcer_new default_policy 0)"
  have "length (concat (map2 (\<lambda>c r. recorded (snd c) r) ?cs (fst ?run))) = 2" by code_simp
  moreover have "?run = (fst ?run, snd ?run)" by (rule surjective_pairing)
  ultimately show ?thesis by (simp only: report_counts_refusals [THEN conjunct1])
qed

text \<open>
  The suffix of a command is compared with its case, the name without: a blocked program whose
  suffix is written in capitals is not recognised.
\<close>

lemma upper_case_suffix_not_blocked:
  "fst (validate_process_spawn dbg ''C/format.exe'' [] 1 (enforcer_new default_policy 0)) \<noteq> Inr ()"
  "fst (validate_process_spawn dbg ''C/FORMAT.EXE'' [] 1 (enforcer_new default_policy 0)) = Inr ()"
  by code_simp+

text \<open>The default policy names no workspace, so containment, which it requires, holds of every path.\<close>

lemma default_policy_contains_nothing:
  "fst (validate_file_path ''/etc/shadow'' 1 (enforcer_new default_policy 0)) = Inr ()"
  by code_simp

end
