(* ===== verification/Load_Balancer.thy ===== *)
theory Load_Balancer
  imports Velocity_Prelude Rust_Std "HOL-Library.AList" "HOL-Library.Multiset"
begin

text \<open>
  The seats of the workers (\<open>orchestrator/load_balancer.rs\<close>): who gets the next task, what is counted
  of a worker, and which tasks to move.  The map of the workers is an association list in an
  arbitrary order.  The operations of \<open>f64\<close> are those of the machine, the record \<open>fops\<close>; what is
  proved holds for any of them.
\<close>

section \<open>Workers\<close>

record fops =
  fo_of_nat :: "nat \<Rightarrow> fp"
  fo_add :: "fp \<Rightarrow> fp \<Rightarrow> fp"
  fo_sub :: "fp \<Rightarrow> fp \<Rightarrow> fp"
  fo_mul :: "fp \<Rightarrow> fp \<Rightarrow> fp"
  fo_div :: "fp \<Rightarrow> fp \<Rightarrow> fp"
  fo_sqrt :: "fp \<Rightarrow> fp"
  fo_ema_alpha :: fp

datatype BalanceStrategy = LeastLoaded | WeightedRoundRobin | AffinityFirst

record WorkerLoad =
  wl_worker_id :: u64
  wl_active_tasks :: nat
  wl_max_capacity :: nat
  wl_avg_task_duration_ms :: fp
  wl_specializations :: "string list"
  wl_last_task_completed :: "nat option"
  wl_success_rate :: fp
  wl_total_completed :: u64

definition worker_load_new :: "u64 \<Rightarrow> nat \<Rightarrow> string list \<Rightarrow> WorkerLoad" where
  "worker_load_new i capacity specializations =
     \<lparr>wl_worker_id = i, wl_active_tasks = 0, wl_max_capacity = capacity, wl_avg_task_duration_ms = Fin 0,
      wl_specializations = specializations, wl_last_task_completed = None, wl_success_rate = Fin 1, wl_total_completed = 0\<rparr>"

definition utilization :: "fops \<Rightarrow> WorkerLoad \<Rightarrow> fp" where
  "utilization f w =
     (if wl_max_capacity w = 0 then Fin 1 else fo_div f (fo_of_nat f (wl_active_tasks w)) (fo_of_nat f (wl_max_capacity w)))"

definition has_capacity :: "WorkerLoad \<Rightarrow> bool" where
  "has_capacity w \<longleftrightarrow> wl_active_tasks w < wl_max_capacity w"

record LoadBalancer =
  lb_workers :: "(u64 \<times> WorkerLoad) list"
  lb_strategy :: BalanceStrategy
  lb_rr_counter :: u64

definition balancer_new :: "BalanceStrategy \<Rightarrow> LoadBalancer" where
  "balancer_new strategy = \<lparr>lb_workers = [], lb_strategy = strategy, lb_rr_counter = 0\<rparr>"

definition register_worker :: "u64 \<Rightarrow> nat \<Rightarrow> string list \<Rightarrow> LoadBalancer \<Rightarrow> LoadBalancer" where
  "register_worker i capacity specializations lb =
     lb\<lparr>lb_workers := AList.update i (worker_load_new i capacity specializations) (lb_workers lb)\<rparr>"

definition unregister_worker :: "u64 \<Rightarrow> LoadBalancer \<Rightarrow> LoadBalancer" where
  "unregister_worker i lb = lb\<lparr>lb_workers := AList.delete i (lb_workers lb)\<rparr>"

definition balancer_reset :: "LoadBalancer \<Rightarrow> LoadBalancer" where
  "balancer_reset lb = lb\<lparr>lb_workers := [], lb_rr_counter := 0\<rparr>"

section \<open>Assignment\<close>

definition worker_values :: "LoadBalancer \<Rightarrow> WorkerLoad list" where
  "worker_values lb = map snd (lb_workers lb)"

text \<open>\<open>min_by\<close> the active tasks, then the id: the first of the least.\<close>

definition loaded_before :: "WorkerLoad \<Rightarrow> WorkerLoad \<Rightarrow> bool" where
  "loaded_before a b \<longleftrightarrow>
     wl_active_tasks a < wl_active_tasks b \<or> wl_active_tasks a = wl_active_tasks b \<and> wl_worker_id a < wl_worker_id b"

fun least_loaded :: "WorkerLoad list \<Rightarrow> WorkerLoad option" where
  "least_loaded [] = None"
| "least_loaded (w # ws) = Some (foldl (\<lambda>best x. if loaded_before x best then x else best) w ws)"

definition assign_least_loaded :: "LoadBalancer \<Rightarrow> u64 option" where
  "assign_least_loaded lb = map_option wl_worker_id (least_loaded (filter has_capacity (worker_values lb)))"

definition assign_weighted_rr :: "LoadBalancer \<Rightarrow> u64 option \<times> LoadBalancer" where
  "assign_weighted_rr lb =
     (let eligible = filter has_capacity (worker_values lb) in
      if eligible = [] then (None, lb)
      else (Some (wl_worker_id (sort_key wl_worker_id eligible ! (unat (lb_rr_counter lb) mod length eligible))),
            lb\<lparr>lb_rr_counter := lb_rr_counter lb + 1\<rparr>))"

definition assign_affinity_first :: "string \<Rightarrow> LoadBalancer \<Rightarrow> u64 option" where
  "assign_affinity_first task_kind lb =
     (case least_loaded (filter (\<lambda>w. has_capacity w \<and> task_kind \<in> set (wl_specializations w)) (worker_values lb)) of
        Some w \<Rightarrow> Some (wl_worker_id w)
      | None \<Rightarrow> assign_least_loaded lb)"

definition assign_task :: "string \<Rightarrow> LoadBalancer \<Rightarrow> u64 option \<times> LoadBalancer" where
  "assign_task task_kind lb =
     (case lb_strategy lb of
        LeastLoaded \<Rightarrow> (assign_least_loaded lb, lb)
      | WeightedRoundRobin \<Rightarrow> assign_weighted_rr lb
      | AffinityFirst \<Rightarrow> (assign_affinity_first task_kind lb, lb))"

definition on_worker :: "u64 \<Rightarrow> (WorkerLoad \<Rightarrow> WorkerLoad) \<Rightarrow> LoadBalancer \<Rightarrow> LoadBalancer" where
  "on_worker i f lb =
     (case map_of (lb_workers lb) i of Some w \<Rightarrow> lb\<lparr>lb_workers := AList.update i (f w) (lb_workers lb)\<rparr> | None \<Rightarrow> lb)"

definition record_task_start :: "u64 \<Rightarrow> LoadBalancer \<Rightarrow> LoadBalancer" where
  "record_task_start i lb = on_worker i (\<lambda>w. w\<lparr>wl_active_tasks := wl_active_tasks w + 1\<rparr>) lb"

definition complete_worker :: "fops \<Rightarrow> nat \<Rightarrow> fp \<Rightarrow> bool \<Rightarrow> WorkerLoad \<Rightarrow> WorkerLoad" where
  "complete_worker f now duration_ms success w =
     (let total = fo_of_nat f (unat (wl_total_completed w));
          ema = (if wl_total_completed w = 0 then duration_ms
                 else fo_add f (fo_mul f (fo_ema_alpha f) duration_ms)
                   (fo_mul f (fo_sub f (Fin 1) (fo_ema_alpha f)) (wl_avg_task_duration_ms w)));
          new_successes = fo_add f (fo_mul f (wl_success_rate w) total) (if success then Fin 1 else Fin 0) in
      w\<lparr>wl_active_tasks := wl_active_tasks w - 1, wl_last_task_completed := Some now, wl_avg_task_duration_ms := ema,
        wl_success_rate := fo_div f new_successes (fo_add f total (Fin 1)), wl_total_completed := wl_total_completed w + 1\<rparr>)"

definition record_task_complete :: "fops \<Rightarrow> nat \<Rightarrow> u64 \<Rightarrow> fp \<Rightarrow> bool \<Rightarrow> LoadBalancer \<Rightarrow> LoadBalancer" where
  "record_task_complete f now i duration_ms success lb = on_worker i (complete_worker f now duration_ms success) lb"

definition get_worker_load :: "u64 \<Rightarrow> LoadBalancer \<Rightarrow> WorkerLoad option" where
  "get_worker_load i lb = map_of (lb_workers lb) i"

definition worker_ids :: "LoadBalancer \<Rightarrow> u64 list" where
  "worker_ids lb = sort (map fst (lb_workers lb))"

section \<open>Health\<close>

record ClusterHealth =
  ch_total_workers :: nat
  ch_active_workers :: nat
  ch_avg_utilization :: fp
  ch_max_utilization :: fp
  ch_min_utilization :: fp
  ch_imbalance_score :: fp

definition f64_max :: "fp \<Rightarrow> fp \<Rightarrow> fp" where
  "f64_max a b = (if a = NaN then b else if fp_less a b then b else a)"

definition f64_min :: "fp \<Rightarrow> fp \<Rightarrow> fp" where
  "f64_min a b = (if a = NaN then b else if fp_less b a then b else a)"

definition cluster_health :: "fops \<Rightarrow> LoadBalancer \<Rightarrow> ClusterHealth" where
  "cluster_health f lb =
     (let total = length (lb_workers lb) in
      if total = 0
      then \<lparr>ch_total_workers = 0, ch_active_workers = 0, ch_avg_utilization = Fin 0, ch_max_utilization = Fin 0,
            ch_min_utilization = Fin 0, ch_imbalance_score = Fin 0\<rparr>
      else (let utils = map (utilization f) (worker_values lb);
                avg = fo_div f (foldl (fo_add f) (Fin 0) utils) (fo_of_nat f total);
                variance = fo_div f (foldl (fo_add f) (Fin 0) (map (\<lambda>u. fo_mul f (fo_sub f u avg) (fo_sub f u avg)) utils)) (fo_of_nat f total);
                stddev = fo_sqrt f variance in
        \<lparr>ch_total_workers = total, ch_active_workers = length (filter (\<lambda>w. 0 < wl_active_tasks w) (worker_values lb)),
         ch_avg_utilization = avg, ch_max_utilization = foldl f64_max NInf utils, ch_min_utilization = foldl f64_min PInf utils,
         ch_imbalance_score = (if fp_less (Fin 0) avg then f64_min (fo_div f stddev avg) (Fin 1) else Fin 0)\<rparr>))"

section \<open>Rebalancing\<close>

text \<open>A stable sort by utilization, as \<open>sort_by\<close> does for values that are numbers.\<close>

fun insert_by_util :: "fops \<Rightarrow> WorkerLoad \<Rightarrow> WorkerLoad list \<Rightarrow> WorkerLoad list" where
  "insert_by_util f w [] = [w]"
| "insert_by_util f w (x # xs) =
     (if fp_less (utilization f x) (utilization f w) then x # insert_by_util f w xs else w # x # xs)"

definition sort_by_util :: "fops \<Rightarrow> WorkerLoad list \<Rightarrow> WorkerLoad list" where
  "sort_by_util f ws = foldr (insert_by_util f) ws []"

definition virtual_util :: "fops \<Rightarrow> nat \<Rightarrow> nat \<Rightarrow> fp" where
  "virtual_util f active cap = (if 0 < cap then fo_div f (fo_of_nat f active) (fo_of_nat f cap) else Fin 1)"

text \<open>
  The loop of \<open>rebalance\<close> over two pointers into the sorted workers, with the virtual counts of
  their tasks and the moves found so far.
\<close>

partial_function (option) rebalance_loop ::
  "fops \<Rightarrow> WorkerLoad list \<Rightarrow> nat \<Rightarrow> nat \<Rightarrow> (u64 \<Rightarrow> nat) \<Rightarrow> (u64 \<times> u64) list \<Rightarrow> (u64 \<times> u64) list option" where
  "rebalance_loop f ws lo hi active moves =
     (if \<not> lo < hi then Some moves
      else (let l = ws ! lo; h = ws ! hi; lo_id = wl_worker_id l; hi_id = wl_worker_id h;
                lo_cap = wl_max_capacity l; hi_cap = wl_max_capacity h in
        if fp_less (fo_sub f (virtual_util f (active hi_id) hi_cap) (virtual_util f (active lo_id) lo_cap)) (Fin (1 / 4)) then Some moves
        else if active hi_id = 0 \<or> lo_cap \<le> active lo_id
        then rebalance_loop f ws (if lo_cap \<le> active lo_id then lo + 1 else lo) (if active hi_id = 0 then hi - 1 else hi) active moves
        else (let active1 = active(hi_id := active hi_id - 1); active2 = active1(lo_id := active1 lo_id + 1) in
          rebalance_loop f ws (if lo_cap \<le> active2 lo_id then lo + 1 else lo) (if active2 hi_id = 0 then hi - 1 else hi) active2
            (moves @ [(hi_id, lo_id)]))))"

definition active_of :: "LoadBalancer \<Rightarrow> u64 \<Rightarrow> nat" where
  "active_of lb i = (case map_of (lb_workers lb) i of Some w \<Rightarrow> wl_active_tasks w | None \<Rightarrow> 0)"

definition rebalance :: "fops \<Rightarrow> LoadBalancer \<Rightarrow> (u64 \<times> u64) list option" where
  "rebalance f lb =
     (if length (lb_workers lb) < 2 then Some []
      else if sum_list (map wl_max_capacity (worker_values lb)) = 0 \<or> sum_list (map wl_active_tasks (worker_values lb)) = 0 then Some []
      else rebalance_loop f (sort_by_util f (worker_values lb)) 0 (length (lb_workers lb) - 1) (active_of lb) [])"

section \<open>The map of the workers\<close>

definition balancer_ok :: "LoadBalancer \<Rightarrow> bool" where
  "balancer_ok lb \<longleftrightarrow> distinct (map fst (lb_workers lb)) \<and> (\<forall>(i, w)\<in>set (lb_workers lb). wl_worker_id w = i)"

lemma balancer_ok_map_of: "balancer_ok lb \<Longrightarrow> w \<in> set (worker_values lb) \<longleftrightarrow> map_of (lb_workers lb) (wl_worker_id w) = Some w"
  by (force simp: balancer_ok_def worker_values_def)

lemma balancer_ok_ids: "balancer_ok lb \<Longrightarrow> map wl_worker_id (worker_values lb) = map fst (lb_workers lb)"
  by (auto simp: balancer_ok_def worker_values_def)

lemma update_ok:
  assumes "balancer_ok lb" "wl_worker_id w = i"
  shows "balancer_ok (lb\<lparr>lb_workers := AList.update i w (lb_workers lb)\<rparr>)"
proof -
  have "set (AList.update i w xs) \<subseteq> insert (i, w) (set xs)" for xs :: "(u64 \<times> WorkerLoad) list" by (induction xs) auto
  with assms show ?thesis by (fastforce simp: balancer_ok_def distinct_update)
qed

lemma balancer_ops_ok:
  "balancer_ok (balancer_new strategy)" "balancer_ok (balancer_reset lb)"
  "balancer_ok lb \<Longrightarrow> balancer_ok (register_worker i cap sp lb)" "balancer_ok lb \<Longrightarrow> balancer_ok (unregister_worker i lb)"
  "balancer_ok lb \<Longrightarrow> balancer_ok (record_task_start i lb)" "balancer_ok lb \<Longrightarrow> balancer_ok (record_task_complete f now i d s lb)"
proof -
  show "balancer_ok (balancer_new strategy)" "balancer_ok (balancer_reset lb)" by (simp_all add: balancer_ok_def balancer_new_def balancer_reset_def)
  assume ok: "balancer_ok lb"
  show "balancer_ok (register_worker i cap sp lb)" unfolding register_worker_def by (rule update_ok [OF ok]) (simp add: worker_load_new_def)
  show "balancer_ok (unregister_worker i lb)" using ok
    by (auto simp: balancer_ok_def unregister_worker_def distinct_delete) (auto simp: AList.delete_eq)
  have keep: "balancer_ok (on_worker i g lb)" if "\<And>w. wl_worker_id (g w) = wl_worker_id w" for g
  proof (cases "map_of (lb_workers lb) i")
    case (Some w)
    then have "wl_worker_id (g w) = i" using ok that map_of_SomeD [OF Some] by (auto simp: balancer_ok_def)
    from update_ok [OF ok this] Some show ?thesis by (simp add: on_worker_def)
  qed (use ok in \<open>simp add: on_worker_def\<close>)
  show "balancer_ok (record_task_start i lb)" unfolding record_task_start_def by (rule keep) simp
  show "balancer_ok (record_task_complete f now i d s lb)" unfolding record_task_complete_def by (rule keep) (simp add: complete_worker_def Let_def)
qed

section \<open>Who gets the task\<close>

lemma least_loaded_None [simp]: "least_loaded ws = None \<longleftrightarrow> ws = []"
  by (cases ws) auto

lemma loaded_before_trans: "\<not> loaded_before b a \<Longrightarrow> \<not> loaded_before c b \<Longrightarrow> \<not> loaded_before c a"
  by (auto simp: loaded_before_def not_less)

lemma loaded_before_asym: "loaded_before a b \<Longrightarrow> \<not> loaded_before b a"
  by (auto simp: loaded_before_def)

lemma least_loaded_min:
  assumes "least_loaded ws = Some w"
  shows "w \<in> set ws" "x \<in> set ws \<Longrightarrow> \<not> loaded_before x w"
proof -
  have "foldl (\<lambda>best x. if loaded_before x best then x else best) b xs \<in> insert b (set xs)
    \<and> (\<forall>x\<in>insert b (set xs). \<not> loaded_before x (foldl (\<lambda>best x. if loaded_before x best then x else best) b xs))" for b xs
  proof (induction xs arbitrary: b)
    case Nil
    show ?case by (simp add: loaded_before_def)
  next
    case (Cons x xs)
    show ?case
    proof (cases "loaded_before x b")
      case True
      then show ?thesis using Cons.IH [of x] loaded_before_trans [of x _ b] loaded_before_asym [OF True] by auto
    next
      case False
      then show ?thesis using Cons.IH [of b] loaded_before_trans [of b _ x] by auto
    qed
  qed
  with assms show "w \<in> set ws" "x \<in> set ws \<Longrightarrow> \<not> loaded_before x w" by (cases ws; fastforce)+
qed

text \<open>
  Admission is exact: with any strategy a task is refused only when every worker is at its
  capacity, and otherwise goes to a registered worker with room; the least-loaded strategy picks
  one with the fewest tasks, and the affinity strategy a specialist of the kind whenever one has
  room.
\<close>

theorem assign_task_exact:
  assumes "balancer_ok lb"
  shows "(fst (assign_task kind lb) = None \<longleftrightarrow> (\<forall>w\<in>set (worker_values lb). wl_max_capacity w \<le> wl_active_tasks w))
    \<and> (\<forall>i. fst (assign_task kind lb) = Some i \<longrightarrow> (\<exists>w. get_worker_load i lb = Some w \<and> has_capacity w
         \<and> (lb_strategy lb = LeastLoaded \<longrightarrow>
              (\<forall>x\<in>set (worker_values lb). has_capacity x \<longrightarrow> wl_active_tasks w \<le> wl_active_tasks x))
         \<and> (lb_strategy lb = AffinityFirst \<longrightarrow>
              (\<exists>x\<in>set (worker_values lb). has_capacity x \<and> kind \<in> set (wl_specializations x)) \<longrightarrow> kind \<in> set (wl_specializations w))))"
proof -
  let ?room = "filter has_capacity (worker_values lb)"
  let ?best = "\<lambda>i. \<exists>w. get_worker_load i lb = Some w \<and> has_capacity w \<and> (\<forall>x\<in>set ?room. wl_active_tasks w \<le> wl_active_tasks x)"
  have known: "get_worker_load (wl_worker_id w) lb = Some w" if "w \<in> set (worker_values lb)" for w
    using balancer_ok_map_of [OF assms] that by (simp add: get_worker_load_def)
  have full: "?room = [] \<longleftrightarrow> (\<forall>w\<in>set (worker_values lb). wl_max_capacity w \<le> wl_active_tasks w)"
    by (auto simp: filter_empty_conv has_capacity_def not_less)
  have least: "?best i" if assigned: "assign_least_loaded lb = Some i" for i
  proof -
    obtain w where w: "least_loaded ?room = Some w" "i = wl_worker_id w" using assigned by (auto simp: assign_least_loaded_def)
    have "wl_active_tasks w \<le> wl_active_tasks x" if "x \<in> set ?room" for x
      using least_loaded_min(2) [OF w(1) that] by (auto simp: loaded_before_def)
    with least_loaded_min(1) [OF w(1)] known w(2) show ?thesis by auto
  qed
  have none: "assign_least_loaded lb = None \<longleftrightarrow> ?room = []" by (simp add: assign_least_loaded_def)
  show ?thesis
  proof (cases "lb_strategy lb")
    case LeastLoaded
    then show ?thesis using least none full by (fastforce simp: assign_task_def)
  next
    case WeightedRoundRobin
    show ?thesis
    proof (cases "?room = []")
      case False
      let ?n = "unat (lb_rr_counter lb) mod length ?room"
      have "?n < length (sort_key wl_worker_id ?room)" using False by simp
      then have "sort_key wl_worker_id ?room ! ?n \<in> set ?room" by (metis nth_mem set_sort)
      then show ?thesis using False full known WeightedRoundRobin
        by (auto simp: assign_task_def assign_weighted_rr_def Let_def)
    qed (use full WeightedRoundRobin in \<open>auto simp: assign_task_def assign_weighted_rr_def Let_def\<close>)
  next
    case AffinityFirst
    let ?special = "filter (\<lambda>w. has_capacity w \<and> kind \<in> set (wl_specializations w)) (worker_values lb)"
    show ?thesis
    proof (cases "least_loaded ?special")
      case None
      then have "\<not> (\<exists>x\<in>set (worker_values lb). has_capacity x \<and> kind \<in> set (wl_specializations x))" by (auto simp: filter_empty_conv)
      with None show ?thesis using least none full AffinityFirst by (fastforce simp: assign_task_def assign_affinity_first_def)
    next
      case (Some w)
      then have "w \<in> set (worker_values lb)" "has_capacity w" "kind \<in> set (wl_specializations w)" using least_loaded_min(1) [OF Some] by auto
      moreover from this have "?room \<noteq> []" by (auto simp: filter_empty_conv)
      ultimately show ?thesis using full known AffinityFirst Some by (auto simp: assign_task_def assign_affinity_first_def)
    qed
  qed
qed

definition demo_balancer :: LoadBalancer where
  "demo_balancer = record_task_start 1 (register_worker 2 1 [''test''] (register_worker 1 4 [''lint''] (balancer_new AffinityFirst)))"

lemma demo_balancer_ok: "balancer_ok demo_balancer"
  unfolding demo_balancer_def by (intro balancer_ops_ok)

lemma demo_balancer_assigns: "fst (assign_task ''lint'' demo_balancer) = Some 1" "fst (assign_task ''doc'' demo_balancer) = Some 2"
  by code_simp+

theorem assign_task_exact_witness:
  "\<exists>w. get_worker_load 1 demo_balancer = Some w \<and> has_capacity w \<and> ''lint'' \<in> set (wl_specializations w)"
proof -
  have "\<exists>x\<in>set (worker_values demo_balancer). has_capacity x \<and> ''lint'' \<in> set (wl_specializations x)" by code_simp
  moreover have "lb_strategy demo_balancer = AffinityFirst" by code_simp
  ultimately show ?thesis using assign_task_exact [OF demo_balancer_ok, of "''lint''"] demo_balancer_assigns(1) by auto
qed

text \<open>
  The weighted round robin does not weigh: a worker with room for ten tasks and one with room for
  one are picked in turn.
\<close>

definition uneven_balancer :: LoadBalancer where
  "uneven_balancer = register_worker 2 1 [] (register_worker 1 10 [] (balancer_new WeightedRoundRobin))"

lemma round_robin_ignores_capacity:
  "fst (assign_task kind uneven_balancer) = Some 1
   \<and> fst (assign_task kind (snd (assign_task kind uneven_balancer))) = Some 2"
proof -
  have "assign_task kind uneven_balancer = assign_weighted_rr uneven_balancer"
    "assign_task kind (snd (assign_weighted_rr uneven_balancer)) = assign_weighted_rr (snd (assign_weighted_rr uneven_balancer))"
    by (simp_all add: assign_task_def assign_weighted_rr_def Let_def uneven_balancer_def balancer_new_def register_worker_def)
  moreover have "fst (assign_weighted_rr uneven_balancer) = Some 1"
    "fst (assign_weighted_rr (snd (assign_weighted_rr uneven_balancer))) = Some 2" by code_simp+
  ultimately show ?thesis by simp
qed

section \<open>Moves\<close>

definition move_task :: "u64 \<times> u64 \<Rightarrow> (u64 \<Rightarrow> nat) \<Rightarrow> u64 \<Rightarrow> nat" where
  "move_task m active = (let active1 = active(fst m := active (fst m) - 1) in active1(snd m := active1 (snd m) + 1))"

text \<open>Every move takes a task that is there to a worker with room for it.\<close>

fun moves_ok :: "(u64 \<Rightarrow> nat option) \<Rightarrow> (u64 \<Rightarrow> nat) \<Rightarrow> (u64 \<times> u64) list \<Rightarrow> bool" where
  "moves_ok cap active [] \<longleftrightarrow> True"
| "moves_ok cap active (m # ms) \<longleftrightarrow>
     fst m \<noteq> snd m \<and> cap (fst m) \<noteq> None \<and> 0 < active (fst m)
     \<and> (\<exists>c. cap (snd m) = Some c \<and> active (snd m) < c) \<and> moves_ok cap (move_task m active) ms"

lemma moves_ok_append: "moves_ok cap active (ms @ ns) \<longleftrightarrow> moves_ok cap active ms \<and> moves_ok cap (fold move_task ms active) ns"
  by (induction ms arbitrary: active) auto

lemma rebalance_loop_move:
  assumes "lo < hi" "hi_id = wl_worker_id (ws ! hi)" "lo_id = wl_worker_id (ws ! lo)" "c = wl_max_capacity (ws ! lo)"
    and "\<not> fp_less (fo_sub f (virtual_util f (active hi_id) (wl_max_capacity (ws ! hi))) (virtual_util f (active lo_id) c)) (Fin (1 / 4))"
    and "\<not> (active hi_id = 0 \<or> c \<le> active lo_id)" "active2 = move_task (hi_id, lo_id) active"
  shows "rebalance_loop f ws lo hi active moves =
    rebalance_loop f ws (if c \<le> active2 lo_id then lo + 1 else lo) (if active2 hi_id = 0 then hi - 1 else hi) active2 (moves @ [(hi_id, lo_id)])"
  using assms by (subst rebalance_loop.simps) (simp only: Let_def if_False if_True not_True_eq_False simp_thms move_task_def fst_conv snd_conv)

lemma rebalance_loop_ok:
  assumes "distinct (map wl_worker_id ws)" "hi < length ws" "\<And>w. w \<in> set ws \<Longrightarrow> cap (wl_worker_id w) = Some (wl_max_capacity w)"
    and "moves_ok cap start moves" "active = fold move_task moves start"
  shows "\<exists>ms. rebalance_loop f ws lo hi active moves = Some ms \<and> moves_ok cap start ms"
  using assms(2,4,5)
proof (induction "(hi - lo, active (wl_worker_id (ws ! hi)))" arbitrary: lo hi active moves
    rule: wf_induct_rule [OF wf_lex_prod [OF wf_less_than wf_less_than]])
  case less: (1 lo hi active moves)
  let ?l = "ws ! lo" and ?h = "ws ! hi"
  let ?lo_id = "wl_worker_id ?l" and ?hi_id = "wl_worker_id ?h" and ?c = "wl_max_capacity ?l"
  show ?case
  proof (cases "lo < hi")
    case lh: True
    have in_ws: "?l \<in> set ws" "?h \<in> set ws" using lh less.prems(1) by simp_all
    have ids: "?lo_id \<noteq> ?hi_id" using lh less.prems(1) assms(1) by (auto simp: distinct_conv_nth)
    let ?stop = "fp_less (fo_sub f (virtual_util f (active ?hi_id) (wl_max_capacity ?h)) (virtual_util f (active ?lo_id) ?c)) (Fin (1 / 4))"
    let ?stuck = "active ?hi_id = 0 \<or> ?c \<le> active ?lo_id"
    consider ?stop | "\<not> ?stop" ?stuck | "\<not> ?stop" "\<not> ?stuck" by blast
    then show ?thesis
    proof cases
      case 1
      with lh less.prems show ?thesis by (subst rebalance_loop.simps) (simp add: Let_def)
    next
      case 2
      let ?lo = "if ?c \<le> active ?lo_id then lo + 1 else lo" and ?hi = "if active ?hi_id = 0 then hi - 1 else hi"
      have "?hi - ?lo < hi - lo" using 2(2) lh by auto
      then have "((?hi - ?lo, active (wl_worker_id (ws ! ?hi))), (hi - lo, active ?hi_id)) \<in> less_than <*lex*> less_than" by simp
      moreover have "?hi < length ws" using less.prems(1) by auto
      ultimately have "\<exists>ms. rebalance_loop f ws ?lo ?hi active moves = Some ms \<and> moves_ok cap start ms"
        by (rule less.hyps [OF _ _ less.prems(2,3)])
      with 2 lh show ?thesis by (subst rebalance_loop.simps) (simp add: Let_def)
    next
      case 3
      let ?active = "move_task (?hi_id, ?lo_id) active"
      let ?lo = "if ?c \<le> ?active ?lo_id then lo + 1 else lo" and ?hi = "if ?active ?hi_id = 0 then hi - 1 else hi"
      have dec: "?active ?hi_id < active ?hi_id" using 3(2) ids by (simp add: move_task_def Let_def)
      have "?hi - ?lo < hi - lo \<or> ?hi - ?lo = hi - lo \<and> ?hi = hi" using lh by auto
      then have "((?hi - ?lo, ?active (wl_worker_id (ws ! ?hi))), (hi - lo, active ?hi_id)) \<in> less_than <*lex*> less_than"
        using dec by auto
      moreover have "?hi < length ws" using less.prems(1) by auto
      moreover have "moves_ok cap start (moves @ [(?hi_id, ?lo_id)])"
        using less.prems(2,3) 3(2) ids assms(3) in_ws by (simp add: moves_ok_append)
      moreover have "?active = fold move_task (moves @ [(?hi_id, ?lo_id)]) start" using less.prems(3) by simp
      ultimately have "\<exists>ms. rebalance_loop f ws ?lo ?hi ?active (moves @ [(?hi_id, ?lo_id)]) = Some ms \<and> moves_ok cap start ms"
        by (rule less.hyps)
      then show ?thesis unfolding rebalance_loop_move [OF lh refl refl refl 3 refl, of moves] .
    qed
  qed (use less.prems in \<open>subst rebalance_loop.simps, simp\<close>)
qed

lemma moves_keep_capacity:
  "moves_ok cap active ms \<Longrightarrow> cap i = Some c \<Longrightarrow> fold move_task ms active i \<le> max (active i) c"
proof (induction ms arbitrary: active)
  case (Cons m ms)
  then have "fold move_task ms (move_task m active) i \<le> max (move_task m active i) c" by simp
  moreover have "move_task m active i \<le> max (active i) c" using Cons.prems by (auto simp: move_task_def Let_def)
  ultimately show ?case by simp
qed simp

lemma mset_insert_by_util: "mset (insert_by_util f w ws) = add_mset w (mset ws)"
  by (induction ws) auto

lemma mset_sort_by_util: "mset (sort_by_util f ws) = mset ws"
  unfolding sort_by_util_def by (induction ws) (simp_all add: mset_insert_by_util)

text \<open>
  C28. Rebalancing ends and plans only what can be done: whatever the arithmetic of the utilizations
  says, the loop over the two pointers returns, every move it proposes takes a task that is there
  from one known worker to another that has room for it at that point, and a worker never ends up
  above the larger of its capacity and what it already had.
\<close>

theorem rebalance_returns_safe:
  assumes "balancer_ok lb"
  shows "\<exists>ms. rebalance f lb = Some ms
    \<and> moves_ok (\<lambda>i. map_option wl_max_capacity (get_worker_load i lb)) (active_of lb) ms
    \<and> (\<forall>i w. get_worker_load i lb = Some w \<longrightarrow> fold move_task ms (active_of lb) i \<le> max (wl_active_tasks w) (wl_max_capacity w))"
proof -
  define cap where "cap = (\<lambda>i. map_option wl_max_capacity (get_worker_load i lb))"
  let ?ws = "sort_by_util f (worker_values lb)"
  have perm: "mset ?ws = mset (worker_values lb)" by (rule mset_sort_by_util)
  have len: "length ?ws = length (lb_workers lb)" using mset_eq_length [OF perm] by (simp add: worker_values_def)
  have "mset (map wl_worker_id ?ws) = mset (map fst (lb_workers lb))"
    using perm balancer_ok_ids [OF assms] by (metis mset_map)
  then have distinct: "distinct (map wl_worker_id ?ws)"
    using assms by (metis balancer_ok_def mset_eq_imp_distinct_iff)
  have cap: "cap (wl_worker_id w) = Some (wl_max_capacity w)" if "w \<in> set ?ws" for w
    using that balancer_ok_map_of [OF assms, of w] mset_eq_setD [OF perm] by (simp add: cap_def get_worker_load_def)
  have "\<exists>ms. rebalance f lb = Some ms \<and> moves_ok cap (active_of lb) ms"
  proof (cases "length (lb_workers lb) < 2 \<or> sum_list (map wl_max_capacity (worker_values lb)) = 0
      \<or> sum_list (map wl_active_tasks (worker_values lb)) = 0")
    case False
    then have "length (lb_workers lb) - 1 < length ?ws" using len by linarith
    from rebalance_loop_ok [OF distinct this cap, of "active_of lb" "[]" "active_of lb" f 0] False
    show ?thesis by (simp add: rebalance_def)
  qed (auto simp: rebalance_def)
  then obtain ms where ms: "rebalance f lb = Some ms" "moves_ok cap (active_of lb) ms" by blast
  have "fold move_task ms (active_of lb) i \<le> max (wl_active_tasks w) (wl_max_capacity w)"
    if "get_worker_load i lb = Some w" for i w
    using moves_keep_capacity [OF ms(2), of i "wl_max_capacity w"] that by (simp add: cap_def active_of_def get_worker_load_def)
  with ms show ?thesis by (auto simp: cap_def)
qed

text \<open>Three tasks of four on the first of two workers, with the arithmetic done exactly.\<close>

definition exact_ops :: fops where
  "exact_ops = \<lparr>fo_of_nat = (\<lambda>n. Fin (of_nat n)), fo_add = (\<lambda>a b. a),
     fo_sub = (\<lambda>a b. case (a, b) of (Fin x, Fin y) \<Rightarrow> Fin (x - y) | _ \<Rightarrow> NaN), fo_mul = (\<lambda>a b. a),
     fo_div = (\<lambda>a b. case (a, b) of (Fin x, Fin y) \<Rightarrow> Fin (x / y) | _ \<Rightarrow> NaN), fo_sqrt = (\<lambda>a. a), fo_ema_alpha = Fin (3 / 10)\<rparr>"

definition busy_balancer :: LoadBalancer where
  "busy_balancer = record_task_start 1 (record_task_start 1 (record_task_start 1
     (register_worker 2 4 [] (register_worker 1 4 [] (balancer_new LeastLoaded)))))"

lemma busy_balancer_ok: "balancer_ok busy_balancer"
  unfolding busy_balancer_def by (intro balancer_ops_ok)

theorem rebalance_returns_safe_witness:
  "\<exists>ms. rebalance exact_ops busy_balancer = Some ms \<and> fold move_task ms (active_of busy_balancer) 1 \<le> 4"
proof -
  have "get_worker_load 1 busy_balancer = Some ((worker_load_new 1 4 [])\<lparr>wl_active_tasks := 3\<rparr>)" by code_simp
  moreover have "max (wl_active_tasks ((worker_load_new 1 4 [])\<lparr>wl_active_tasks := 3\<rparr>))
      (wl_max_capacity ((worker_load_new 1 4 [])\<lparr>wl_active_tasks := 3\<rparr>)) = 4" by (simp add: worker_load_new_def)
  ultimately show ?thesis using rebalance_returns_safe [OF busy_balancer_ok, of exact_ops] by metis
qed

end
