(* ===== verification/Panel_Plan.thy ===== *)
theory Panel_Plan
  imports Task_Registry Load_Balancer
begin

text \<open>
  The plan of the orchestrator panel (\<open>editor/orchestrator/panel/struct_def.rs\<close>, \<open>authoring.rs\<close> of the
  same directory, \<open>build_routed_graph\<close> of \<open>editor/orchestrator/types.rs\<close> and the enums it uses): tasks
  typed by a person or routed by the planner, their bindings, and the edits of the plan.  The
  handles of running workers stand for threads; the model keeps the ids of the tasks they run.  Fields
  that only the rendering reads (what is expanded, the cache of conflict groups) are left out.
\<close>

section \<open>Routes and bindings\<close>

datatype AgentTaskKind = Refactor | BugFix | Test | Documentation | Analysis | Planning | Merge | DesktopAutomation

fun task_kind_as_str :: "AgentTaskKind \<Rightarrow> string" where
  "task_kind_as_str Refactor = ''refactor''"
| "task_kind_as_str BugFix = ''bug_fix''"
| "task_kind_as_str Test = ''test''"
| "task_kind_as_str Documentation = ''documentation''"
| "task_kind_as_str Analysis = ''analysis''"
| "task_kind_as_str Planning = ''planning''"
| "task_kind_as_str Merge = ''merge''"
| "task_kind_as_str DesktopAutomation = ''desktop_automation''"

datatype DecompositionStyle = IsolatedFiles | CoupledComponents | SequentialPipeline

datatype AiProvider =
  CloudflareWorkersAi | OpenRouter | AzureOpenAi | LocalOllama | LocalLlama | OpenAI | Anthropic | GoogleVertex
| Deepseek | AlibabaQwen | AwsBedrock | Groq | Mistral | TogetherAi | FireworksAi | Perplexity | Cerebras

record RoutedModelRoute =
  mr_provider :: AiProvider
  mr_model_id :: string
  mr_model_label :: string
  mr_thinking :: bool
  mr_score :: int

record RoutedSubAgentTask =
  rt_task_id :: string
  rt_files :: "PathBuf list"
  rt_task_kind :: AgentTaskKind
  rt_planned_site_map_root :: u64
  rt_provider :: AiProvider
  rt_model_id :: string
  rt_model_label :: string
  rt_thinking :: bool
  rt_fallback_chain :: "RoutedModelRoute list"
  rt_execution_contract :: string
  rt_summary :: string
  rt_rationale :: string
  rt_decomposition_policy_id :: string
  rt_decomposition_style :: DecompositionStyle

record ExecutionDefaults =
  ed_provider :: AiProvider
  ed_model_id :: string
  ed_model_label :: string
  ed_thinking :: bool
  ed_task_kind :: AgentTaskKind

definition PLACEHOLDER_MODEL :: string where
  "PLACEHOLDER_MODEL = ''not selected''"

definition execution_defaults :: ExecutionDefaults where
  "execution_defaults = \<lparr>ed_provider = CloudflareWorkersAi, ed_model_id = [], ed_model_label = PLACEHOLDER_MODEL,
     ed_thinking = False, ed_task_kind = Refactor\<rparr>"

definition has_model :: "ExecutionDefaults \<Rightarrow> bool" where
  "has_model d \<longleftrightarrow> trim (ed_model_id d) \<noteq> [] \<and> ed_model_label d \<noteq> PLACEHOLDER_MODEL"

section \<open>Drafts\<close>

record TaskDraft =
  td_open :: bool
  td_title :: string
  td_description :: string
  td_scope :: string
  td_dependencies :: string
  td_kind :: AgentTaskKind
  td_error :: string

definition draft_default :: TaskDraft where
  "draft_default = \<lparr>td_open = False, td_title = [], td_description = [], td_scope = [], td_dependencies = [],
     td_kind = Refactor, td_error = []\<rparr>"

definition slashed :: "string \<Rightarrow> string" where
  "slashed path = replace_char CHR 0x5C CHR ''/'' path"

definition parse_list :: "string \<Rightarrow> string list" where
  "parse_list raw =
     map slashed (filter (\<lambda>item. item \<noteq> []) (map trim (concat (map (split_on CHR 0x0A) (split_on CHR '','' raw)))))"

fun parse_ids :: "string list \<Rightarrow> string + TaskId list" where
  "parse_ids [] = Inr []"
| "parse_ids (item # rest) =
     (case parse_u64 (dropWhile (\<lambda>c. c = CHR ''#'') item) of
        Some i \<Rightarrow> if 0 < i then (case parse_ids rest of Inl e \<Rightarrow> Inl e | Inr is \<Rightarrow> Inr (i # is))
                  else Inl (quoted item @ '' is not a task id (try '' @ quoted ''#3'' @ '')'')
      | None \<Rightarrow> Inl (quoted item @ '' is not a task id (try '' @ quoted ''#3'' @ '')''))"

definition parse_dependencies :: "string \<Rightarrow> string + TaskId list" where
  "parse_dependencies raw = parse_ids (parse_list raw)"

definition task_fmt :: "TaskId \<Rightarrow> string" where
  "task_fmt i = ''#'' @ show_u64 i"

definition manual_execution_contract :: "Task \<Rightarrow> string" where
  "manual_execution_contract t =
     join [CHR 0x0A]
       ([''Task: '' @ ts_title t]
        @ (if trim (ts_description t) = [] then [] else [trim (ts_description t)])
        @ (if ts_scope t = [] then []
           else [''Declared scope (change nothing outside it): '' @ join '', '' (ts_scope t)])
        @ (if ts_dependencies t = [] then []
           else [''Runs after task(s): '' @ join '', '' (map task_fmt (ts_dependencies t))]))"

definition manual_binding :: "Task \<Rightarrow> AgentTaskKind \<Rightarrow> ExecutionDefaults \<Rightarrow> u64 \<Rightarrow> RoutedSubAgentTask" where
  "manual_binding t kind defaults site_map_root =
     \<lparr>rt_task_id = ''manual-'' @ show_u64 (ts_id t), rt_files = ts_scope t, rt_task_kind = kind,
      rt_planned_site_map_root = site_map_root, rt_provider = ed_provider defaults, rt_model_id = ed_model_id defaults,
      rt_model_label = ed_model_label defaults, rt_thinking = ed_thinking defaults, rt_fallback_chain = [],
      rt_execution_contract = manual_execution_contract t, rt_summary = ts_description t,
      rt_rationale = ''Hand-authored in the Orchestrator panel; not model-routed.'',
      rt_decomposition_policy_id = ''manual'', rt_decomposition_style = IsolatedFiles\<rparr>"

section \<open>The panel\<close>

record WorkerWatchdog =
  wd_started :: nat
  wd_last_activity :: nat
  wd_last_event_count :: nat
  wd_cancel_sent_at :: "nat option"
  wd_reason :: "string option"

record RoutedPlanState =
  rp_goal :: string
  rp_kind :: AgentTaskKind
  rp_scope_count :: nat
  rp_tasks :: "RoutedSubAgentTask list"

record OrchestratorPanel =
  pn_graph :: TaskGraph
  pn_registry :: "OrchestratorRegistry option"
  pn_routed_plan :: "RoutedPlanState option"
  pn_policy_kind :: AgentTaskKind
  pn_loaded_policy_id :: string
  pn_planning_status :: string
  pn_runtime_status :: string
  pn_execution_running :: bool
  pn_running_workers :: "TaskId list"
  pn_load_balancer :: LoadBalancer
  pn_max_concurrent_workers :: u64
  pn_worker_seats :: "(TaskId \<times> u64) list"
  pn_worker_watchdog :: "(TaskId \<times> WorkerWatchdog) list"
  pn_bindings :: "(TaskId \<times> RoutedSubAgentTask) list"
  pn_authored_kinds :: "(TaskId \<times> AgentTaskKind) list"
  pn_defaults :: ExecutionDefaults
  pn_draft :: TaskDraft
  pn_last_issued_task_id :: u64
  pn_reconcile_root :: "TaskId option"
  pn_route_request :: "string option"
  pn_goal_input_open :: bool
  pn_goal_draft :: string
  pn_repair_report :: string
  pn_max_worker_wall_secs :: u64

definition DEFAULT_MAX_CONCURRENT_WORKERS :: u64 where
  "DEFAULT_MAX_CONCURRENT_WORKERS = 8"

definition DEFAULT_MAX_WORKER_WALL_SECS :: u64 where
  "DEFAULT_MAX_WORKER_WALL_SECS = 90 * 60"

definition graph_empty :: TaskGraph where
  "graph_empty = \<lparr>tg_tasks = [], tg_root = 0\<rparr>"

definition no_plan_status :: string where
  "no_plan_status = ''No routed sub-agent plan yet.''"

definition panel_new :: OrchestratorPanel where
  "panel_new =
     \<lparr>pn_graph = graph_empty, pn_registry = Some (registry_new graph_empty), pn_routed_plan = None, pn_policy_kind = Refactor,
      pn_loaded_policy_id = [], pn_planning_status = no_plan_status, pn_runtime_status = ''Idle'', pn_execution_running = False,
      pn_running_workers = [], pn_load_balancer = balancer_new LeastLoaded,
      pn_max_concurrent_workers = DEFAULT_MAX_CONCURRENT_WORKERS, pn_worker_seats = [], pn_worker_watchdog = [], pn_bindings = [],
      pn_authored_kinds = [], pn_defaults = execution_defaults, pn_draft = draft_default, pn_last_issued_task_id = 0,
      pn_reconcile_root = None, pn_route_request = None, pn_goal_input_open = False, pn_goal_draft = [],
      pn_repair_report = [], pn_max_worker_wall_secs = DEFAULT_MAX_WORKER_WALL_SECS\<rparr>"

definition max_id :: "u64 \<Rightarrow> TaskGraph \<Rightarrow> u64" where
  "max_id none g = (case task_ids g of [] \<Rightarrow> none | i # is \<Rightarrow> fold max is i)"

definition next_task_id :: "OrchestratorPanel \<Rightarrow> TaskId \<times> OrchestratorPanel" where
  "next_task_id p =
     (let i = max (pn_last_issued_task_id p) (max_id 0 (pn_graph p)) + 1 in (i, p\<lparr>pn_last_issued_task_id := i\<rparr>))"

definition plan_is_empty :: "OrchestratorPanel \<Rightarrow> bool" where
  "plan_is_empty p \<longleftrightarrow> tg_tasks (pn_graph p) = []"

definition graph_remove :: "TaskId \<Rightarrow> TaskGraph \<Rightarrow> TaskGraph" where
  "graph_remove i g = g\<lparr>tg_tasks := AList.delete i (tg_tasks g)\<rparr>"

definition with_registry :: "OrchestratorPanel \<Rightarrow> OrchestratorPanel" where
  "with_registry p =
     (case pn_registry p of None \<Rightarrow> p\<lparr>pn_registry := Some (registry_new (pn_graph p))\<rparr> | Some _ \<Rightarrow> p)"

definition set_task_status :: "TaskId \<Rightarrow> TaskStatus \<Rightarrow> OrchestratorPanel \<Rightarrow> OrchestratorPanel" where
  "set_task_status i s p = p\<lparr>pn_registry := map_option (set_status i s) (pn_registry p)\<rparr>"

definition add_task ::
  "string \<Rightarrow> string \<Rightarrow> string list \<Rightarrow> TaskId list \<Rightarrow> AgentTaskKind option \<Rightarrow> OrchestratorPanel \<Rightarrow> (string + TaskId) \<times> OrchestratorPanel" where
  "add_task title description scope deps kind p =
     (if trim title = [] then (Inl ''A task needs a title.'', p)
      else case List.find (\<lambda>d. d \<notin> set (task_ids (pn_graph p))) deps of
        Some d \<Rightarrow> (Inl (''Task '' @ task_fmt d @ '' does not exist to depend on.''), p)
      | None \<Rightarrow>
          (let (i, p1) = next_task_id p;
               g = graph_add i (trim title) description (map slashed scope) deps None (pn_graph p1) in
           if detect_cycle g
           then (Inl (''Adding '' @ task_fmt i @ '' would create a dependency cycle, so it was not added.''),
                 p1\<lparr>pn_graph := graph_remove i g,
                    pn_last_issued_task_id := (if pn_last_issued_task_id p1 = 0 then 0 else pn_last_issued_task_id p1 - 1)\<rparr>)
           else
             (let p2 = p1\<lparr>pn_graph := g\<rparr>;
                  p3 = (case kind of Some k \<Rightarrow> p2\<lparr>pn_authored_kinds := AList.update i k (pn_authored_kinds p2)\<rparr> | None \<Rightarrow> p2);
                  p4 = set_task_status i TPending (with_registry p3) in
              (Inr i, p4\<lparr>pn_runtime_status := ''Added task '' @ task_fmt i, pn_repair_report := []\<rparr>))))"

definition add_draft_task :: "OrchestratorPanel \<Rightarrow> (string + TaskId) \<times> OrchestratorPanel" where
  "add_draft_task p =
     (let d = pn_draft p in
      if trim (td_title d) = [] then (Inl ''Give the task a title.'', p)
      else case parse_dependencies (td_dependencies d) of
        Inl e \<Rightarrow> (Inl e, p)
      | Inr deps \<Rightarrow>
          (case add_task (trim (td_title d)) (trim (td_description d)) (parse_list (td_scope d)) deps (Some (td_kind d)) p of
             (Inl e, p1) \<Rightarrow> (Inl e, p1)
           | (Inr i, p1) \<Rightarrow> (Inr i, p1\<lparr>pn_draft := draft_default\<rparr>)))"

definition strip_dependency :: "TaskId \<Rightarrow> TaskGraph \<Rightarrow> TaskGraph" where
  "strip_dependency i g =
     g\<lparr>tg_tasks := map (\<lambda>(k, t). (k, t\<lparr>ts_dependencies := filter (\<lambda>d. d \<noteq> i) (ts_dependencies t)\<rparr>)) (tg_tasks g)\<rparr>"

definition remove_task :: "TaskId \<Rightarrow> OrchestratorPanel \<Rightarrow> bool \<times> OrchestratorPanel" where
  "remove_task i p =
     (if i \<notin> set (task_ids (pn_graph p)) then (False, p)
      else if Some i = pn_reconcile_root p then (False, p)
      else (let running = filter (\<lambda>j. j \<noteq> i) (pn_running_workers p) in
        (True,
         p\<lparr>pn_running_workers := running,
           pn_graph := strip_dependency i (graph_remove i (pn_graph p)),
           pn_bindings := AList.delete i (pn_bindings p),
           pn_authored_kinds := AList.delete i (pn_authored_kinds p),
           pn_registry := map_option (\<lambda>reg. reg\<lparr>rg_statuses := AList.delete i (rg_statuses reg),
             rg_outputs := AList.delete i (rg_outputs reg)\<rparr>) (pn_registry p),
           pn_execution_running := running \<noteq> [],
           pn_runtime_status := ''Removed task '' @ task_fmt i,
           pn_repair_report := []\<rparr>)))"

definition clear_plan :: "OrchestratorPanel \<Rightarrow> OrchestratorPanel" where
  "clear_plan p =
     p\<lparr>pn_running_workers := [], pn_graph := graph_empty, pn_registry := Some (registry_new graph_empty), pn_bindings := [],
       pn_authored_kinds := [], pn_reconcile_root := None, pn_routed_plan := None, pn_execution_running := False,
       pn_planning_status := no_plan_status, pn_runtime_status := ''Idle'', pn_repair_report := []\<rparr>"

definition binding_for :: "TaskId \<Rightarrow> OrchestratorPanel \<Rightarrow> RoutedSubAgentTask option" where
  "binding_for i p = map_of (pn_bindings p) i"

definition is_authored :: "TaskId \<Rightarrow> OrchestratorPanel \<Rightarrow> bool" where
  "is_authored i p \<longleftrightarrow> map_of (pn_authored_kinds p) i \<noteq> None"

definition is_removable :: "TaskId \<Rightarrow> OrchestratorPanel \<Rightarrow> bool" where
  "is_removable i p \<longleftrightarrow> Some i \<noteq> pn_reconcile_root p"

definition has_dispatchable_work :: "OrchestratorPanel \<Rightarrow> bool" where
  "has_dispatchable_work p \<longleftrightarrow> list_ex (\<lambda>i. Some i \<noteq> pn_reconcile_root p) (task_ids (pn_graph p))"

definition execution_blocker :: "OrchestratorPanel \<Rightarrow> string option" where
  "execution_blocker p =
     (if pn_execution_running p then Some ''Execution is already running.''
      else if plan_is_empty p then Some ''The plan is empty. Add a task, or route a goal.''
      else if \<not> has_dispatchable_work p then Some ''The plan holds only its reconcile step, so there is nothing to run.''
      else if detect_cycle (pn_graph p) then Some ''Resolve the dependency cycle first.''
      else if \<not> has_model (pn_defaults p)
        \<and> list_ex (\<lambda>i. Some i \<noteq> pn_reconcile_root p \<and> map_of (pn_bindings p) i = None) (task_ids (pn_graph p))
      then Some ''No model selected. Pick one in Settings or Chat first.''
      else None)"

definition repair_cycles_action :: "OrchestratorPanel \<Rightarrow> (TaskId \<times> TaskId) list \<times> OrchestratorPanel" where
  "repair_cycles_action p =
     (let (removed, g) = break_cycles (pn_graph p);
          report = (if removed = [] then ''Nothing to repair: the plan has no dependency cycle.''
            else ''Removed '' @ show_nat (length removed) @ '' back-edge(s) and kept all '' @ show_nat (graph_len g)
              @ '' task(s): '' @ join ''; '' (map (\<lambda>(n, d). task_fmt n @ '' depends on '' @ task_fmt d) removed)) in
      (removed, p\<lparr>pn_graph := g, pn_repair_report := report,
         pn_runtime_status := (if removed = [] then pn_runtime_status p else ''Cycle repaired'')\<rparr>))"

definition request_route_goal :: "string \<Rightarrow> OrchestratorPanel \<Rightarrow> OrchestratorPanel" where
  "request_route_goal goal p =
     (if trim goal = [] then p
      else p\<lparr>pn_goal_draft := trim goal, pn_goal_input_open := False, pn_repair_report := [],
             pn_runtime_status := ''Routing goal...'', pn_route_request := Some (trim goal)\<rparr>)"

text \<open>The root of the site map is read from the disk, or the reason why it could not be opened.\<close>

definition bind_unbound_tasks :: "string + u64 \<Rightarrow> OrchestratorPanel \<Rightarrow> (string + unit) \<times> OrchestratorPanel" where
  "bind_unbound_tasks site_map p =
     (let pending = filter (\<lambda>i. map_of (pn_bindings p) i = None \<and> Some i \<noteq> pn_reconcile_root p) (task_ids (pn_graph p)) in
      if pending = [] then (Inr (), p)
      else if \<not> has_model (pn_defaults p)
      then (Inl ''No model selected: pick one in Settings or Chat before launching authored tasks.'', p)
      else (let site_map_root = (case site_map of Inr r \<Rightarrow> r | Inl _ \<Rightarrow> 0);
                bind = (\<lambda>i bs. case task_get (pn_graph p) i of
                  None \<Rightarrow> bs
                | Some t \<Rightarrow>
                    (let kind = (case map_of (pn_authored_kinds p) i of Some k \<Rightarrow> k | None \<Rightarrow> ed_task_kind (pn_defaults p)) in
                     AList.update i (manual_binding t kind (pn_defaults p) site_map_root) bs)) in
            (Inr (), p\<lparr>pn_bindings := fold bind pending (pn_bindings p)\<rparr>)))"

section \<open>Routed plans\<close>

definition routed_title :: "nat \<Rightarrow> RoutedSubAgentTask \<Rightarrow> string" where
  "routed_title idx t =
     (let file_label = (case rt_files t of [] \<Rightarrow> [] | f # _ \<Rightarrow> (case file_name f of Some n \<Rightarrow> n | None \<Rightarrow> []));
          base = task_kind_as_str (rt_task_kind t) @ '' #'' @ show_nat (idx + 1) in
      if file_label = [] then base else base @ '': '' @ file_label)"

definition routed_ids :: "nat \<Rightarrow> TaskId list" where
  "routed_ids n = map (\<lambda>idx. of_nat idx + 2) [0..<n]"

definition add_routed :: "nat \<times> RoutedSubAgentTask \<Rightarrow> TaskGraph \<Rightarrow> TaskGraph" where
  "add_routed entry g =
     (let (idx, t) = entry in
      graph_add (of_nat idx + 2) (routed_title idx t) (rt_summary t @ [CHR 0x0A] @ rt_rationale t) (rt_files t) [] (Some 1) g)"

definition build_routed_graph :: "string \<Rightarrow> RoutedSubAgentTask list \<Rightarrow> TaskGraph" where
  "build_routed_graph goal tasks =
     fold add_routed (enumerate 0 tasks)
       (graph_add 1 ''Reconcile routed plan'' (''Reconcile sub-agent outputs for goal: '' @ goal) [''.velocity/agentic''] [] None
          (graph_empty\<lparr>tg_root := 1\<rparr>))"

definition set_routed_tasks ::
  "string \<Rightarrow> AgentTaskKind \<Rightarrow> nat \<Rightarrow> RoutedSubAgentTask list \<Rightarrow> OrchestratorPanel \<Rightarrow> OrchestratorPanel" where
  "set_routed_tasks goal kind scope_count tasks p =
     (let g = build_routed_graph goal tasks in
      p\<lparr>pn_planning_status :=
          (if tasks = [] then ''No routed tasks were produced for the requested goal.''
           else ''Planned '' @ show_nat (length tasks) @ '' routed task(s) from '' @ show_nat scope_count @ '' scoped file(s).''),
        pn_routed_plan := Some \<lparr>rp_goal = goal, rp_kind = kind, rp_scope_count = scope_count, rp_tasks = tasks\<rparr>,
        pn_policy_kind := kind, pn_loaded_policy_id := [], pn_graph := g, pn_registry := Some (registry_new g),
        pn_runtime_status := ''Plan ready'', pn_execution_running := False, pn_running_workers := [],
        pn_authored_kinds := [], pn_reconcile_root := Some (tg_root g),
        pn_bindings := fold (\<lambda>(i, t). AList.update i t) (zip (routed_ids (length tasks)) tasks) [],
        pn_last_issued_task_id := max_id (pn_last_issued_task_id p) g\<rparr>)"

section \<open>Graphs that can be run\<close>

text \<open>A graph is runnable when it is well formed and every task of it can be scheduled.\<close>

definition runnable :: "TaskGraph \<Rightarrow> bool" where
  "runnable g \<longleftrightarrow> graph_ok g \<and> (\<forall>i\<in>set (task_ids g). schedulable g i)"

lemma schedulable_deps: "schedulable g i \<Longrightarrow> i \<in> set (task_ids g) \<and> (\<forall>d\<in>set (deps_of g i). schedulable g d)"
  by (induction rule: schedulable.induct) auto

lemma runnable_closed: "runnable g \<Longrightarrow> i \<in> set (task_ids g) \<Longrightarrow> set (deps_of g i) \<subseteq> set (task_ids g)"
  using schedulable_off_cycle [of g i] by (simp add: runnable_def)

lemma runnable_acyclic: "runnable g \<Longrightarrow> \<not> detect_cycle g"
proof -
  assume ok: "runnable g"
  have "(i, i) \<notin> (dep_rel g)\<^sup>+" for i
    using ok on_cycle_in_graph [of i g] schedulable_off_cycle [of g i] unfolding runnable_def by blast
  then show ?thesis by (simp add: detect_cycle_iff acyclic_def)
qed

lemma runnableI:
  "graph_ok g \<Longrightarrow> \<not> detect_cycle g \<Longrightarrow> (\<And>i. i \<in> set (task_ids g) \<Longrightarrow> set (deps_of g i) \<subseteq> set (task_ids g)) \<Longrightarrow> runnable g"
  using schedulable_all [of g] by (simp add: runnable_def detect_cycle_iff)

lemma runnable_plan: "runnable g \<Longrightarrow> set (concat (plan_with_conflicts g groups)) = set (task_ids g)"
proof -
  assume ok: "runnable g"
  then have "set (concat (plan_with_conflicts g groups)) = {i. schedulable g i}" by (intro plan_covers) (simp add: runnable_def)
  moreover have "schedulable g i \<longleftrightarrow> i \<in> set (task_ids g)" for i using ok schedulable_deps [of g i] unfolding runnable_def by blast
  ultimately show ?thesis by simp
qed

lemma runnable_empty: "runnable \<lparr>tg_tasks = [], tg_root = r\<rparr>"
  by (simp add: runnable_def graph_ok_def task_ids_def)

text \<open>Schedulability only needs the same dependencies among at least the same tasks.\<close>

lemma schedulable_mono:
  "schedulable g i \<Longrightarrow> (\<And>j. j \<in> set (task_ids g) \<Longrightarrow> j \<in> set (task_ids h) \<and> set (deps_of h j) \<subseteq> set (deps_of g j)) \<Longrightarrow> schedulable h i"
proof (induction rule: schedulable.induct)
  case (schedule i)
  have i: "i \<in> set (task_ids h)" "set (deps_of h i) \<subseteq> set (deps_of g i)" using schedule.prems [OF schedule.hyps(1)] by blast+
  show ?case
  proof (rule schedulable.schedule [OF i(1)])
    show "schedulable h d" if "d \<in> set (deps_of h i)" for d
      by (rule schedule.IH [OF _ schedule.prems]) (use i(2) that in auto)
  qed
qed

lemma graph_add_sel:
  "task_ids (graph_add i title desc scope deps None g) = (if i \<in> set (task_ids g) then task_ids g else task_ids g @ [i])"
  "deps_of (graph_add i title desc scope deps None g) j = (if j = i then deps else deps_of g j)"
  "task_get (graph_add i title desc scope deps None g) j = (if j = i then Some (new_task i title desc scope deps) else task_get g j)"
  by (simp_all add: graph_add_def Let_def task_ids_def deps_of_def task_get_def update_conv' new_task_def update_keys)

lemma add_fresh_runnable:
  assumes "runnable g" "i \<notin> set (task_ids g)" "set deps \<subseteq> set (task_ids g)"
  shows "runnable (graph_add i title desc scope deps None g)"
proof -
  let ?h = "graph_add i title desc scope deps None g"
  have old: "schedulable ?h j" if "j \<in> set (task_ids g)" for j
  proof (rule schedulable_mono)
    show "schedulable g j" using assms(1) that by (simp add: runnable_def)
    show "k \<in> set (task_ids ?h) \<and> set (deps_of ?h k) \<subseteq> set (deps_of g k)" if "k \<in> set (task_ids g)" for k
      using that assms(2) by (auto simp: graph_add_sel)
  qed
  moreover have "schedulable ?h i"
  proof (rule schedulable.schedule)
    show "schedulable ?h d" if "d \<in> set (deps_of ?h i)" for d
      using that assms(3) old [of d] by (auto simp: graph_add_sel(2))
  qed (simp add: graph_add_sel)
  moreover have "graph_ok ?h" using assms(1) by (simp add: runnable_def graph_add_ok)
  ultimately show ?thesis using assms(2) by (auto simp: runnable_def graph_add_sel)
qed

lemma graph_remove_sel:
  "task_ids (graph_remove i g) = filter (\<lambda>j. j \<noteq> i) (task_ids g)"
  "task_get (graph_remove i g) j = (if j = i then None else task_get g j)"
proof -
  show "task_ids (graph_remove i g) = filter (\<lambda>j. j \<noteq> i) (task_ids g)"
    by (auto simp: graph_remove_def task_ids_def delete_keys removeAll_filter_not_eq intro: filter_cong)
  show "task_get (graph_remove i g) j = (if j = i then None else task_get g j)"
    by (simp add: graph_remove_def task_get_def delete_conv')
qed

lemma strip_dependency_sel:
  "task_ids (strip_dependency i g) = task_ids g"
  "task_get (strip_dependency i g) j = map_option (\<lambda>t. t\<lparr>ts_dependencies := filter (\<lambda>d. d \<noteq> i) (ts_dependencies t)\<rparr>) (task_get g j)"
proof -
  show "task_ids (strip_dependency i g) = task_ids g" by (simp add: strip_dependency_def task_ids_def comp_def split_def)
  have "map_of (map (\<lambda>(k, t). (k, f t)) xs) j = map_option f (map_of xs j)" for f :: "Task \<Rightarrow> Task" and xs
    by (induction xs) auto
  then show "task_get (strip_dependency i g) j = map_option (\<lambda>t. t\<lparr>ts_dependencies := filter (\<lambda>d. d \<noteq> i) (ts_dependencies t)\<rparr>) (task_get g j)"
    by (simp add: strip_dependency_def task_get_def)
qed

lemma remove_runnable:
  assumes "runnable g"
  shows "runnable (strip_dependency i (graph_remove i g))"
proof -
  let ?h = "strip_dependency i (graph_remove i g)"
  have ids: "set (task_ids ?h) = set (task_ids g) - {i}" by (auto simp: strip_dependency_sel graph_remove_sel)
  have deps: "set (deps_of ?h j) \<subseteq> set (deps_of g j) - {i}" for j
    by (auto simp: deps_of_def strip_dependency_sel graph_remove_sel split: option.splits)
  have "schedulable ?h j" if "schedulable g j" "j \<noteq> i" for j
    using that
  proof (induction rule: schedulable.induct)
    case (schedule j)
    show ?case
    proof (rule schedulable.schedule)
      show "j \<in> set (task_ids ?h)" using schedule.hyps(1) schedule.prems ids by simp
      show "schedulable ?h d" if "d \<in> set (deps_of ?h j)" for d using that deps [of j] schedule.IH [of d] by auto
    qed
  qed
  moreover have "graph_ok ?h"
  proof -
    have "distinct (task_ids ?h)" using assms by (simp add: runnable_def graph_ok_def strip_dependency_sel graph_remove_sel)
    moreover have "ts_id t = k" if kt: "(k, t) \<in> set (tg_tasks ?h)" for k t
    proof -
      obtain u where u: "(k, u) \<in> set (AList.delete i (tg_tasks g))" "ts_id t = ts_id u"
        using kt by (auto simp: strip_dependency_def graph_remove_def)
      then have "(k, u) \<in> set (tg_tasks g)" by (auto simp: AList.delete_eq)
      with assms u(2) show ?thesis by (auto simp: runnable_def graph_ok_def)
    qed
    ultimately show ?thesis by (auto simp: graph_ok_def)
  qed
  ultimately show ?thesis using assms ids by (auto simp: runnable_def)
qed

section \<open>Adding a task\<close>

lemma max_id_upper: "i \<in> set (task_ids g) \<Longrightarrow> i \<le> max_id none g"
proof -
  have low: "a \<le> fold max xs a" for a :: u64 and xs
  proof (induction xs arbitrary: a)
    case (Cons x xs)
    show ?case using order_trans [OF max.cobounded2 [of a x] Cons.IH [of "max x a"]] by simp
  qed simp
  have "x \<le> fold max xs a" if "x \<in> set xs" for x a :: u64 and xs
    using that
  proof (induction xs arbitrary: a)
    case (Cons y ys)
    show ?case
    proof (cases "x = y")
      case True
      then show ?thesis using order_trans [OF max.cobounded1 [of x a] low [of "max x a" ys]] by simp
    next
      case False
      with Cons show ?thesis by simp
    qed
  qed simp
  with low show "i \<in> set (task_ids g) \<Longrightarrow> i \<le> max_id none g" by (auto simp: max_id_def split: list.splits)
qed

lemma next_task_id_fresh:
  assumes "fst (next_task_id p) \<noteq> 0"
  shows "pn_last_issued_task_id p < fst (next_task_id p)" "fst (next_task_id p) \<notin> set (task_ids (pn_graph p))"
proof -
  define m where "m = max (pn_last_issued_task_id p) (max_id 0 (pn_graph p))"
  have fst_next: "fst (next_task_id p) = m + 1" by (simp add: next_task_id_def Let_def m_def)
  have "m \<noteq> - 1" using assms unfolding fst_next by auto
  then have up: "m < m + 1" by (rule word_less_bump)
  have "pn_last_issued_task_id p \<le> m" by (simp add: m_def)
  with up show "pn_last_issued_task_id p < fst (next_task_id p)" unfolding fst_next by (rule le_less_trans [rotated])
  have "i < fst (next_task_id p)" if "i \<in> set (task_ids (pn_graph p))" for i
  proof -
    have "i \<le> m" using max_id_upper [OF that, of 0] by (simp add: m_def le_max_iff_disj)
    then show ?thesis unfolding fst_next using up by (rule le_less_trans)
  qed
  then show "fst (next_task_id p) \<notin> set (task_ids (pn_graph p))" by blast
qed

lemma next_task_id_sel:
  "snd (next_task_id p) = p\<lparr>pn_last_issued_task_id := fst (next_task_id p)\<rparr>"
  by (simp add: next_task_id_def Let_def)

lemma find_missing: "List.find (\<lambda>d. d \<notin> A) ds = None \<longleftrightarrow> set ds \<subseteq> A"
  by (auto simp: find_None_iff)

text \<open>
  Adding a task is all or nothing.  On a plan that can be run, and while an id is left, a task is accepted if and only if its title is not blank and it depends on tasks of
  the plan; a refusal changes nothing, and in particular the refusal for a cycle never happens.  An
  accepted task gets an id that no task had, is pending with the declared dependencies and the
  normalised scope, leaves the other tasks as they are, and the plan can still be run.
\<close>

theorem add_task_exact:
  assumes "runnable (pn_graph p)" "fst (next_task_id p) \<noteq> 0"
    and "add_task title description scope deps kind p = (r, p')"
  shows "(case r of
      Inl message \<Rightarrow> (trim title = [] \<or> \<not> set deps \<subseteq> set (task_ids (pn_graph p))) \<and> p' = p
    | Inr i \<Rightarrow> trim title \<noteq> [] \<and> set deps \<subseteq> set (task_ids (pn_graph p))
        \<and> pn_last_issued_task_id p < i \<and> i \<notin> set (task_ids (pn_graph p)) \<and> pn_last_issued_task_id p' = i
        \<and> runnable (pn_graph p') \<and> task_ids (pn_graph p') = task_ids (pn_graph p) @ [i]
        \<and> task_get (pn_graph p') i = Some (new_task i (trim title) description (map slashed scope) deps)
        \<and> (\<forall>j\<in>set (task_ids (pn_graph p)). task_get (pn_graph p') j = task_get (pn_graph p) j)
        \<and> (\<exists>reg. pn_registry p' = Some reg \<and> status_of reg i = Some TPending))"
proof (cases "trim title = [] \<or> \<not> set deps \<subseteq> set (task_ids (pn_graph p))")
  case True
  show ?thesis
  proof (cases "trim title = []")
    case False
    with True obtain d where "List.find (\<lambda>d. d \<notin> set (task_ids (pn_graph p))) deps = Some d"
      using find_missing [of "set (task_ids (pn_graph p))" deps] by blast
    with assms(3) False have "r = Inl (''Task '' @ task_fmt d @ '' does not exist to depend on.'')" "p' = p" by (simp_all add: add_task_def)
    with True show ?thesis by simp
  qed (use assms(3) in \<open>auto simp: add_task_def\<close>)
next
  case False
  let ?i = "fst (next_task_id p)"
  let ?g = "graph_add ?i (trim title) description (map slashed scope) deps None (pn_graph p)"
  have known: "List.find (\<lambda>d. d \<notin> set (task_ids (pn_graph p))) deps = None" using False by (simp add: find_missing)
  note fresh = next_task_id_fresh [OF assms(2)]
  have ok: "runnable ?g" using False by (intro add_fresh_runnable [OF assms(1) fresh(2)]) simp
  define p2 where "p2 = p\<lparr>pn_last_issued_task_id := ?i, pn_graph := ?g\<rparr>"
  define p3 where "p3 = (case kind of Some k \<Rightarrow> p2\<lparr>pn_authored_kinds := AList.update ?i k (pn_authored_kinds p2)\<rparr> | None \<Rightarrow> p2)"
  have sel: "pn_graph p3 = ?g" "pn_last_issued_task_id p3 = ?i" by (simp_all add: p3_def p2_def split: option.splits)
  have res: "r = Inr ?i" "p' = (set_task_status ?i TPending (with_registry p3))\<lparr>pn_runtime_status := ''Added task '' @ task_fmt ?i, pn_repair_report := []\<rparr>"
    using assms(3) False known runnable_acyclic [OF ok]
    by (auto simp: add_task_def split_beta next_task_id_sel Let_def p3_def p2_def split: option.splits)
  have g': "pn_graph p' = ?g" "pn_last_issued_task_id p' = ?i"
    using sel by (simp_all add: res(2) set_task_status_def with_registry_def split: option.splits)
  have "\<exists>reg. pn_registry p' = Some reg \<and> status_of reg ?i = Some TPending"
    by (cases "pn_registry p3") (simp_all add: res(2) set_task_status_def with_registry_def)
  with g' ok fresh False show ?thesis by (simp add: res(1) graph_add_sel)
qed

theorem add_task_exact_witness:
  "\<exists>i p'. add_task '' Fix it '' [] [''a.rs''] [] None panel_new = (Inr i, p') \<and> 0 < i \<and> runnable (pn_graph p')"
proof -
  have ok: "runnable (pn_graph panel_new)" by (simp add: panel_new_def graph_empty_def runnable_empty)
  have ids: "fst (next_task_id panel_new) \<noteq> 0" by code_simp
  obtain r p' where run: "add_task '' Fix it '' [] [''a.rs''] [] None panel_new = (r, p')" by (metis surj_pair)
  have "trim '' Fix it '' \<noteq> []" by code_simp
  with add_task_exact [OF ok ids run] obtain i where "r = Inr i" by (cases r) auto
  with add_task_exact [OF ok ids run] run show ?thesis by (auto simp: panel_new_def)
qed

section \<open>Routed and repaired plans\<close>

text \<open>The shape of a routed graph: only the reconcile node has dependencies.\<close>

definition star :: "TaskGraph \<Rightarrow> bool" where
  "star g \<longleftrightarrow> graph_ok g \<and> 1 \<in> set (task_ids g) \<and> (\<forall>j. j \<noteq> 1 \<longrightarrow> deps_of g j = []) \<and> set (deps_of g 1) \<subseteq> set (task_ids g) - {1}"

lemma star_runnable: "star g \<Longrightarrow> runnable g"
proof -
  assume g: "star g"
  have leaf: "schedulable g j" if "j \<in> set (task_ids g)" "j \<noteq> 1" for j
    by (rule schedulable.schedule [OF that(1)]) (use that(2) g in \<open>simp add: star_def\<close>)
  moreover have "schedulable g 1"
  proof (rule schedulable.schedule)
    show "schedulable g d" if "d \<in> set (deps_of g 1)" for d by (rule leaf) (use g that in \<open>auto simp: star_def\<close>)
  qed (use g in \<open>simp add: star_def\<close>)
  ultimately have "\<forall>i\<in>set (task_ids g). schedulable g i" by metis
  with g show ?thesis by (simp add: runnable_def star_def)
qed

lemma star_add:
  assumes "star g" "i \<noteq> 1"
  shows "star (graph_add i title desc scope [] (Some 1) g)"
proof -
  let ?g1 = "g\<lparr>tg_tasks := AList.update i (new_task i title desc scope []) (tg_tasks g)\<rparr>"
  let ?h = "graph_add i title desc scope [] (Some 1) g"
  obtain t where t: "task_get g 1 = Some t"
    using assms(1) unfolding star_def task_ids_def task_get_def by (metis not_None_eq map_of_eq_None_iff set_map)
  then have t1: "task_get ?g1 1 = Some t" using assms(2) by (simp add: task_get_def update_conv')
  then have h: "?h = ?g1\<lparr>tg_tasks := AList.update 1 (add_dependency i t) (tg_tasks ?g1)\<rparr>"
    using assms(2) by (simp add: graph_add_def Let_def)
  have ids: "set (task_ids ?h) = insert i (set (task_ids g))"
    using assms(1) unfolding h by (auto simp: task_ids_def star_def update_keys split: if_splits)
  have deps: "deps_of ?h j = (if j = 1 then ts_dependencies (add_dependency i t) else if j = i then [] else deps_of g j)" for j
    unfolding h by (simp add: deps_of_def task_get_def update_conv' new_task_def)
  have "set (ts_dependencies (add_dependency i t)) = insert i (set (deps_of g 1))"
    using t by (auto simp: add_dependency_def deps_of_def)
  moreover have "graph_ok ?h" using assms(1) by (simp add: star_def graph_add_ok)
  ultimately show ?thesis using assms ids by (auto simp: star_def deps)
qed

lemma routed_id: "n + 2 < 2 ^ 64 \<Longrightarrow> (of_nat n + 2 :: u64) \<noteq> 1"
proof
  assume n: "n + 2 < 2 ^ 64" and eq: "(of_nat n + 2 :: u64) = 1"
  have "LENGTH(64) = 64" by simp
  with n have "n + 2 < 2 ^ LENGTH(64)" by presburger
  then have u: "unat (of_nat (n + 2) :: u64) = n + 2" by (simp only: unat_of_nat mod_less)
  have "(of_nat (n + 2) :: u64) = 1" using eq by (simp only: of_nat_add of_nat_numeral)
  then have "unat (of_nat (n + 2) :: u64) = unat (1 :: u64)" by (rule arg_cong)
  with u have "n + 2 = unat (1 :: u64)" by (rule trans [OF sym])
  then show False by simp
qed

lemma routed_runnable:
  assumes "length tasks + 2 < 2 ^ 64"
  shows "runnable (build_routed_graph goal tasks)"
proof -
  have "star (fold add_routed es g)" if "star g" "\<forall>e\<in>set es. fst e + 2 < 2 ^ 64" for es g
    using that by (induction es arbitrary: g) (auto simp: add_routed_def split_beta star_add routed_id)
  moreover have "\<forall>e\<in>set (enumerate 0 tasks). fst e + 2 < 2 ^ 64"
    using assms by (auto simp: in_set_enumerate_eq)
  moreover have "star (graph_add 1 title desc scope [] None (graph_empty\<lparr>tg_root := 1\<rparr>))" for title desc scope
    by (auto simp: star_def graph_add_ok graph_empty_def graph_ok_def task_ids_def graph_add_def deps_of_def task_get_def new_task_def)
  ultimately have "star (build_routed_graph goal tasks)" unfolding build_routed_graph_def by blast
  then show ?thesis by (rule star_runnable)
qed

lemma repair_runnable:
  assumes "runnable (pn_graph p)" "repair_cycles_action p = (removed, p')"
  shows "runnable (pn_graph p') \<and> task_ids (pn_graph p') = task_ids (pn_graph p)"
proof -
  have ok: "graph_ok (pn_graph p)" using assms(1) by (simp add: runnable_def)
  obtain g where g: "break_cycles (pn_graph p) = (removed, g)" "pn_graph p' = g"
    using assms(2) by (cases "break_cycles (pn_graph p)") (auto simp: repair_cycles_action_def Let_def)
  have "edge_count (pn_graph p) + length [] < edge_budget (pn_graph p)" using edge_budget_bound [OF ok] by simp
  from break_loop_spec [OF ok this g(1) [unfolded break_cycles_def]]
  have res: "graph_ok g" "task_ids g = task_ids (pn_graph p)" "acyclic (dep_rel g)" "dep_rel g \<subseteq> dep_rel (pn_graph p)" by auto
  have "set (deps_of g i) \<subseteq> set (task_ids g)" if "i \<in> set (task_ids g)" for i
    using runnable_closed [OF assms(1), of i] res(2,4) that by (auto simp: dep_rel_def)
  with res show ?thesis unfolding g(2) by (intro conjI runnableI) (simp_all add: detect_cycle_iff)
qed

end
