(* ===== verification/Panel_Runtime.thy ===== *)
theory Panel_Runtime
  imports Panel_Plan
begin

text \<open>
  Execution from the orchestrator panel (\<open>editor/orchestrator/panel/execution.rs\<close>): the seats that
  bound the running workers, the poll that settles finished workers, watches the others and
  dispatches ready tasks, and the actions on tasks.  What the poll reads of the threads and of the
  disk is the record \<open>poll_env\<close>; instants and durations are nanoseconds.
\<close>

section \<open>Seats\<close>

record poll_env =
  pe_now :: nat
  pe_poll :: "TaskId \<Rightarrow> WorkerResult option"
  pe_events :: "TaskId \<Rightarrow> nat"
  pe_check :: "TaskId \<Rightarrow> BuildDiagnostics"
  pe_site_map_root :: "TaskId \<Rightarrow> string + u64"
  pe_bind_root :: "string + u64"
  pe_groups :: "string list list"
  pe_ops :: fops
  pe_millis :: "nat \<Rightarrow> fp"

definition secs :: "nat \<Rightarrow> nat" where
  "secs n = n * 1000000000"

definition WORKER_STALL_TIMEOUT :: nat where
  "WORKER_STALL_TIMEOUT = secs (10 * 60)"

definition WORKER_CANCEL_GRACE :: nat where
  "WORKER_CANCEL_GRACE = secs 60"

definition DURATION_MAX :: nat where
  "DURATION_MAX = secs (2 ^ 64 - 1) + 999999999"

definition hard_timeout_for :: "u64 \<Rightarrow> nat" where
  "hard_timeout_for max_secs = (if max_secs = 0 then DURATION_MAX else secs (unat max_secs))"

definition desired_seats :: "OrchestratorPanel \<Rightarrow> u64" where
  "desired_seats p = max (pn_max_concurrent_workers p) 1"

definition add_seat :: "u64 \<Rightarrow> LoadBalancer \<Rightarrow> LoadBalancer" where
  "add_seat i lb = (if get_worker_load i lb = None then register_worker i 1 [] lb else lb)"

definition stale_seat :: "u64 \<Rightarrow> LoadBalancer \<Rightarrow> u64 \<Rightarrow> bool" where
  "stale_seat desired lb i \<longleftrightarrow>
     desired \<le> i \<and> (case get_worker_load i lb of Some w \<Rightarrow> wl_active_tasks w = 0 | None \<Rightarrow> False)"

definition sync_seat_pool :: "OrchestratorPanel \<Rightarrow> OrchestratorPanel" where
  "sync_seat_pool p =
     (let desired = desired_seats p;
          lb1 = fold add_seat (map of_nat [0..<unat desired]) (pn_load_balancer p);
          stale = filter (stale_seat desired lb1) (worker_ids lb1) in
      p\<lparr>pn_load_balancer := fold unregister_worker stale lb1\<rparr>)"

definition release_seat :: "fops \<Rightarrow> nat \<Rightarrow> TaskId \<Rightarrow> fp \<Rightarrow> bool \<Rightarrow> OrchestratorPanel \<Rightarrow> OrchestratorPanel" where
  "release_seat f now i ms success p =
     (case map_of (pn_worker_seats p) i of
        Some seat \<Rightarrow> p\<lparr>pn_worker_seats := AList.delete i (pn_worker_seats p),
          pn_load_balancer := record_task_complete f now seat ms success (pn_load_balancer p)\<rparr>
      | None \<Rightarrow> p)"

section \<open>Statuses\<close>

definition count_status :: "(TaskStatus \<Rightarrow> bool) \<Rightarrow> OrchestratorPanel \<Rightarrow> nat" where
  "count_status P p = (case pn_registry p of Some reg \<Rightarrow> length (filter (\<lambda>(_, s). P s) (rg_statuses reg)) | None \<Rightarrow> 0)"

definition blocked_task_count :: "OrchestratorPanel \<Rightarrow> nat" where
  "blocked_task_count p = count_status (\<lambda>s. case s of TBlocked _ \<Rightarrow> True | _ \<Rightarrow> False) p"

definition is_retryable :: "TaskStatus \<Rightarrow> bool" where
  "is_retryable s \<longleftrightarrow> (case s of TBlocked r \<Rightarrow> is_retryable_blocked_result r | _ \<Rightarrow> False)"

definition retryable_blocked_task_count :: "OrchestratorPanel \<Rightarrow> nat" where
  "retryable_blocked_task_count p = count_status is_retryable p"

definition stale_plan_blocked_task_count :: "OrchestratorPanel \<Rightarrow> nat" where
  "stale_plan_blocked_task_count p =
     count_status (\<lambda>s. case s of TBlocked r \<Rightarrow> is_stale_plan_blocked_result r | _ \<Rightarrow> False) p"

definition refresh_runtime_status :: "OrchestratorPanel \<Rightarrow> OrchestratorPanel" where
  "refresh_runtime_status p =
     (let blocked = blocked_task_count p; retryable = retryable_blocked_task_count p; stale_plan = stale_plan_blocked_task_count p in
      p\<lparr>pn_runtime_status :=
          (if pn_execution_running p
           then ''Running '' @ show_nat (length (pn_running_workers p)) @ '' of '' @ show_u64 (pn_max_concurrent_workers p) @ '' worker slot(s)''
           else if 0 < blocked \<and> retryable = blocked then ''Waiting for retry on '' @ show_nat retryable @ '' blocked task(s)''
           else if 0 < blocked \<and> stale_plan = blocked
           then ''Waiting for routed plan refresh on '' @ show_nat stale_plan @ '' blocked task(s)''
           else if 0 < blocked \<and> 0 < retryable
           then ''Waiting on '' @ show_nat blocked @ '' blocked task(s) ('' @ show_nat retryable @ '' retryable)''
           else if 0 < blocked then ''Waiting for follow-up on '' @ show_nat blocked @ '' blocked task(s)''
           else if (case pn_registry p of Some reg \<Rightarrow> is_complete reg | None \<Rightarrow> False) then ''Execution complete''
           else ''Waiting for executable routed tasks'')\<rparr>)"

section \<open>The poll\<close>

definition settle_finished :: "poll_env \<Rightarrow> TaskId \<times> WorkerResult \<Rightarrow> OrchestratorPanel \<Rightarrow> OrchestratorPanel" where
  "settle_finished env fin p =
     (let (i, r) = fin;
          p1 = p\<lparr>pn_running_workers := filter (\<lambda>j. j \<noteq> i) (pn_running_workers p)\<rparr>;
          p2 = release_seat (pe_ops env) (pe_now env) i (pe_millis env (wk_duration r)) (wk_success r) p1 in
      case pn_registry p2 of
        None \<Rightarrow> p2
      | Some reg \<Rightarrow>
          (let (g, reg1) = settle_result (pe_check env i) i r (pn_graph p2) reg in p2\<lparr>pn_graph := g, pn_registry := Some reg1\<rparr>))"

definition finished_workers :: "poll_env \<Rightarrow> OrchestratorPanel \<Rightarrow> (TaskId \<times> WorkerResult) list" where
  "finished_workers env p = List.map_filter (\<lambda>i. map_option (Pair i) (pe_poll env i)) (pn_running_workers p)"

definition watchdog_new :: "nat \<Rightarrow> nat \<Rightarrow> WorkerWatchdog" where
  "watchdog_new now event_count = \<lparr>wd_started = now, wd_last_activity = now, wd_last_event_count = event_count,
     wd_cancel_sent_at = None, wd_reason = None\<rparr>"

definition observe :: "nat \<Rightarrow> nat \<Rightarrow> nat \<Rightarrow> WorkerWatchdog \<Rightarrow> WorkerWatchdog" where
  "observe hard now event_count w =
     (let w1 = (if wd_last_event_count w < event_count
                then w\<lparr>wd_last_event_count := event_count, wd_last_activity := now\<rparr> else w);
          silent = now - wd_last_activity w1; total = now - wd_started w1 in
      if wd_reason w1 \<noteq> None then w1
      else if WORKER_STALL_TIMEOUT < silent
      then w1\<lparr>wd_reason := Some (''no progress for '' @ show_nat (silent div secs 1) @ ''s'')\<rparr>
      else if hard < total then w1\<lparr>wd_reason := Some (''exceeded '' @ show_nat (total div secs 1) @ ''s hard limit'')\<rparr>
      else w1)"

text \<open>One running worker: the first request to stop it, and its time out after the grace.\<close>

definition judge :: "nat \<Rightarrow> TaskId \<Rightarrow> WorkerWatchdog \<Rightarrow> WorkerWatchdog \<times> (TaskId \<times> string) list" where
  "judge now i w =
     (case wd_reason w of
        None \<Rightarrow> (w, [])
      | Some reason \<Rightarrow>
          (case wd_cancel_sent_at w of
             None \<Rightarrow> (w\<lparr>wd_cancel_sent_at := Some now\<rparr>, [])
           | Some sent \<Rightarrow> (w, if WORKER_CANCEL_GRACE < now - sent then [(i, reason)] else [])))"

definition watch_one ::
  "poll_env \<Rightarrow> nat \<Rightarrow> TaskId \<Rightarrow> (TaskId \<times> WorkerWatchdog) list \<times> (TaskId \<times> string) list
     \<Rightarrow> (TaskId \<times> WorkerWatchdog) list \<times> (TaskId \<times> string) list" where
  "watch_one env hard i st =
     (let (dogs, timed_out) = st;
          w = (case map_of dogs i of Some w \<Rightarrow> w | None \<Rightarrow> watchdog_new (pe_now env) (pe_events env i));
          (w1, out) = judge (pe_now env) i (observe hard (pe_now env) (pe_events env i) w) in
      (AList.update i w1 dogs, timed_out @ out))"

definition watch_workers :: "poll_env \<Rightarrow> OrchestratorPanel \<Rightarrow> (TaskId \<times> string) list \<times> OrchestratorPanel" where
  "watch_workers env p =
     (let running = pn_running_workers p;
          dogs = filter (\<lambda>(i, _). i \<in> set running) (pn_worker_watchdog p);
          (dogs1, timed_out) = fold (watch_one env (hard_timeout_for (pn_max_worker_wall_secs p))) running (dogs, []) in
      (timed_out, p\<lparr>pn_worker_watchdog := dogs1\<rparr>))"

definition fail_hung :: "poll_env \<Rightarrow> TaskId \<times> string \<Rightarrow> OrchestratorPanel \<Rightarrow> OrchestratorPanel" where
  "fail_hung env hung p =
     (let (i, reason) = hung;
          p1 = p\<lparr>pn_running_workers := filter (\<lambda>j. j \<noteq> i) (pn_running_workers p),
                 pn_worker_watchdog := AList.delete i (pn_worker_watchdog p)\<rparr>;
          p2 = release_seat (pe_ops env) (pe_now env) i (Fin 0) False p1 in
      case task_get (pn_graph p2) i of
        None \<Rightarrow> p2
      | Some t \<Rightarrow>
          set_task_status i (TFailed (blocked_by t (''worker hung: '' @ reason @ ''; cancelled by watchdog''))) p2)"

definition dispatch_wave :: "poll_env \<Rightarrow> OrchestratorPanel \<Rightarrow> TaskId list" where
  "dispatch_wave env p =
     (case pn_registry p of
        None \<Rightarrow> []
      | Some reg \<Rightarrow>
          (let all_ready = ready_ids reg (pn_graph p) in
           if 1 < length all_ready then ready_ids_conflict_aware reg (pn_graph p) (pe_groups env) else all_ready))"

definition stale_message :: "u64 \<Rightarrow> u64 \<Rightarrow> string" where
  "stale_message planned current =
     ''stale routed plan: planned SiteMap root '' @ hex16 planned @ '' but current root is '' @ hex16 current"

definition dispatch_one :: "poll_env \<Rightarrow> TaskId \<Rightarrow> OrchestratorPanel \<Rightarrow> OrchestratorPanel" where
  "dispatch_one env i p =
     (if i \<in> set (pn_running_workers p) then p
      else if Some i = pn_reconcile_root p then p
      else case task_get (pn_graph p) i of
        None \<Rightarrow> p
      | Some t \<Rightarrow>
          (case pe_site_map_root env i of
             Inl err \<Rightarrow> set_task_status i (TBlocked (blocked_by t (''failed to open site map for freshness check: '' @ err))) p
           | Inr current \<Rightarrow>
               (case binding_for i p of
                  None \<Rightarrow> p
                | Some routed \<Rightarrow>
                    if current \<noteq> rt_planned_site_map_root routed
                    then set_task_status i (TBlocked (blocked_by t (stale_message (rt_planned_site_map_root routed) current))) p
                    else
                      (case assign_task (task_kind_as_str (rt_task_kind routed)) (pn_load_balancer p) of
                         (None, lb) \<Rightarrow> p\<lparr>pn_load_balancer := lb\<rparr>
                       | (Some seat, lb) \<Rightarrow>
                           (set_task_status i TRunning (p\<lparr>pn_load_balancer := record_task_start seat lb\<rparr>))
                             \<lparr>pn_worker_seats := AList.update i seat (pn_worker_seats p),
                              pn_running_workers := pn_running_workers p @ [i]\<rparr>))))"

definition dispatch_phase :: "poll_env \<Rightarrow> OrchestratorPanel \<Rightarrow> OrchestratorPanel" where
  "dispatch_phase env p =
     (let wave = dispatch_wave env p;
          p1 = fold (dispatch_one env) wave (sync_seat_pool (snd (bind_unbound_tasks (pe_bind_root env) p))) in
      refresh_runtime_status (p1\<lparr>pn_execution_running := pn_running_workers p1 \<noteq> []\<rparr>))"

definition watchdog_phase :: "poll_env \<Rightarrow> OrchestratorPanel \<Rightarrow> OrchestratorPanel" where
  "watchdog_phase env p = (let (timed_out, p1) = watch_workers env p in fold (fail_hung env) timed_out p1)"

text \<open>\<open>None\<close> when the propagation of blocked tasks does not end.\<close>

definition poll_live_workers :: "poll_env \<Rightarrow> OrchestratorPanel \<Rightarrow> OrchestratorPanel option" where
  "poll_live_workers env p =
     (let p0 = with_registry p;
          p1 = fold (settle_finished env) (finished_workers env p0) p0 in
      case pn_registry p1 of
        None \<Rightarrow> None
      | Some reg \<Rightarrow>
          (case propagate_blocked_dependents (pn_graph p1) reg of
             None \<Rightarrow> None
           | Some reg1 \<Rightarrow>
               (let (g, reg2) = complete_reconcile_root (pn_graph p1) reg1 in
                Some (dispatch_phase env (watchdog_phase env (p1\<lparr>pn_graph := g, pn_registry := Some reg2\<rparr>))))))"

section \<open>Actions\<close>

definition start_execution :: "poll_env \<Rightarrow> OrchestratorPanel \<Rightarrow> OrchestratorPanel option" where
  "start_execution env p =
     poll_live_workers env
       ((with_registry p)\<lparr>pn_execution_running := True, pn_runtime_status := ''Dispatching routed tasks''\<rparr>)"

definition reset_runtime :: "OrchestratorPanel \<Rightarrow> OrchestratorPanel" where
  "reset_runtime p =
     p\<lparr>pn_execution_running := False, pn_running_workers := [], pn_worker_watchdog := [], pn_worker_seats := [],
       pn_load_balancer := balancer_reset (pn_load_balancer p),
       pn_registry := map_option (\<lambda>reg. reg\<lparr>rg_statuses := map (\<lambda>(i, _). (i, TPending)) (rg_statuses reg), rg_outputs := []\<rparr>) (pn_registry p),
       pn_bindings := filter (\<lambda>(i, _). \<not> is_authored i p) (pn_bindings p),
       pn_runtime_status := ''Idle''\<rparr>"

definition retry_blocked_tasks :: "poll_env \<Rightarrow> OrchestratorPanel \<Rightarrow> OrchestratorPanel option" where
  "retry_blocked_tasks env p =
     (let p0 = with_registry p;
          retried = retryable_blocked_task_count p0;
          p1 = p0\<lparr>pn_registry := map_option (\<lambda>reg. reg\<lparr>rg_statuses :=
                      map (\<lambda>(i, s). (i, if is_retryable s then TPending else s)) (rg_statuses reg)\<rparr>) (pn_registry p0),
                  pn_running_workers := [], pn_worker_watchdog := [], pn_execution_running := 0 < retried,
                  pn_runtime_status := (if 0 < retried then ''Retrying '' @ show_nat retried @ '' blocked task(s)''
                    else ''No retryable blocked tasks'')\<rparr> in
      if 0 < retried then poll_live_workers env p1 else Some p1)"

definition drop_worker :: "TaskId \<Rightarrow> OrchestratorPanel \<Rightarrow> OrchestratorPanel" where
  "drop_worker i p =
     p\<lparr>pn_running_workers := filter (\<lambda>j. j \<noteq> i) (pn_running_workers p), pn_worker_watchdog := AList.delete i (pn_worker_watchdog p)\<rparr>"

definition retry_task :: "poll_env \<Rightarrow> TaskId \<Rightarrow> OrchestratorPanel \<Rightarrow> (bool \<times> OrchestratorPanel) option" where
  "retry_task env i p =
     (let p0 = with_registry p in
      case Option.bind (pn_registry p0) (\<lambda>reg. status_of reg i) of
        None \<Rightarrow> Some (False, p0)
      | Some s \<Rightarrow>
          if \<not> is_retryable s then Some (False, p0)
          else map_option (Pair True)
            (poll_live_workers env ((drop_worker i (set_task_status i TPending p0))
               \<lparr>pn_execution_running := True, pn_runtime_status := ''Retrying task '' @ show_u64 i\<rparr>)))"

definition reset_task :: "TaskId \<Rightarrow> OrchestratorPanel \<Rightarrow> bool \<times> OrchestratorPanel" where
  "reset_task i p =
     (let p0 = with_registry p in
      if i \<notin> set (task_ids (pn_graph p0)) then (False, p0)
      else (let p1 = drop_worker i (p0\<lparr>pn_registry := map_option (\<lambda>reg. (set_status i TPending reg)
                       \<lparr>rg_outputs := AList.delete i (rg_outputs reg)\<rparr>) (pn_registry p0)\<rparr>) in
            (True, p1\<lparr>pn_execution_running := pn_running_workers p1 \<noteq> [],
                     pn_runtime_status := ''Reset task '' @ show_u64 i @ '' to pending''\<rparr>)))"

text \<open>Whether the thread took the request is the answer of its handle.\<close>

definition stop_task :: "bool \<Rightarrow> TaskId \<Rightarrow> OrchestratorPanel \<Rightarrow> bool \<times> OrchestratorPanel" where
  "stop_task cancelled i p =
     (if i \<notin> set (pn_running_workers p) then (False, p)
      else (cancelled, if cancelled then p\<lparr>pn_runtime_status := ''Stopping task '' @ show_u64 i\<rparr> else p))"

definition send_task_note :: "bool \<Rightarrow> TaskId \<Rightarrow> OrchestratorPanel \<Rightarrow> bool \<times> OrchestratorPanel" where
  "send_task_note sent i p =
     (if i \<notin> set (pn_running_workers p) then (False, p)
      else (sent, if sent then p\<lparr>pn_runtime_status := ''Sent operator note to task '' @ show_u64 i\<rparr> else p))"

end
