(* ===== verification/Panel_Seats.thy ===== *)
theory Panel_Seats
  imports Panel_Runtime
begin

text \<open>
  What the seats of the orchestrator panel guarantee, over every sequence of its actions: distinct
  running tasks hold distinct busy seats; and what a seat costs whose worker was dropped without
  being released.
\<close>

section \<open>The pool\<close>

lemma get_worker_load_ops [simp]:
  "get_worker_load s (register_worker i c sp lb) = (if s = i then Some (worker_load_new i c sp) else get_worker_load s lb)"
  "get_worker_load s (unregister_worker i lb) = (if s = i then None else get_worker_load s lb)"
  "get_worker_load s (on_worker i f lb) = (if s = i then map_option f (get_worker_load i lb) else get_worker_load s lb)"
  "get_worker_load s (balancer_reset lb) = None" "get_worker_load s (balancer_new strategy) = None"
  by (auto simp: get_worker_load_def register_worker_def unregister_worker_def on_worker_def balancer_reset_def balancer_new_def
      update_conv' delete_conv' split: option.splits)

lemma strategy_kept [simp]:
  "lb_strategy (register_worker i c sp lb) = lb_strategy lb" "lb_strategy (unregister_worker i lb) = lb_strategy lb"
  "lb_strategy (record_task_start i lb) = lb_strategy lb" "lb_strategy (record_task_complete f now i d s lb) = lb_strategy lb"
  "lb_strategy (balancer_reset lb) = lb_strategy lb" "lb_strategy (add_seat i lb) = lb_strategy lb"
  by (auto simp: register_worker_def unregister_worker_def on_worker_def record_task_start_def record_task_complete_def
      balancer_reset_def add_seat_def split: option.splits)

definition seat_ok :: "u64 \<Rightarrow> u64 \<times> WorkerLoad \<Rightarrow> bool" where
  "seat_ok peak e \<longleftrightarrow> fst e < peak \<and> wl_max_capacity (snd e) = 1 \<and> wl_active_tasks (snd e) \<le> 1"

definition pool_ok :: "u64 \<Rightarrow> LoadBalancer \<Rightarrow> bool" where
  "pool_ok peak lb \<longleftrightarrow> balancer_ok lb \<and> lb_strategy lb = LeastLoaded
     \<and> (\<forall>s w. get_worker_load s lb = Some w \<longrightarrow> seat_ok peak (s, w))"

definition busy :: "LoadBalancer \<Rightarrow> u64 \<Rightarrow> bool" where
  "busy lb s \<longleftrightarrow> map_option wl_active_tasks (get_worker_load s lb) = Some 1"

lemma pool_seat: "pool_ok peak lb \<Longrightarrow> get_worker_load s lb = Some w \<Longrightarrow> seat_ok peak (s, w)"
  by (simp add: pool_ok_def)

lemma busy_below: "pool_ok peak lb \<Longrightarrow> busy lb s \<Longrightarrow> s < peak"
  by (auto simp: pool_ok_def busy_def seat_ok_def)

text \<open>A seat that is handed out was idle.\<close>

lemma assigned_idle:
  assumes "pool_ok peak lb" "assign_task kind lb = (Some s, lb')"
  shows "lb' = lb" "\<not> busy lb s" "\<exists>w. get_worker_load s lb = Some w \<and> wl_active_tasks w = 0"
proof -
  have a: "lb' = lb" "assign_least_loaded lb = Some s" using assms by (auto simp: assign_task_def pool_ok_def)
  then obtain w where w: "least_loaded (filter has_capacity (worker_values lb)) = Some w" "s = wl_worker_id w"
    by (auto simp: assign_least_loaded_def)
  have bo: "balancer_ok lb" using assms(1) by (simp add: pool_ok_def)
  from least_loaded_min(1) [OF w(1)] balancer_ok_map_of [OF bo, of w] w(2)
  have "get_worker_load s lb = Some w" "has_capacity w" by (auto simp: get_worker_load_def)
  then show "\<exists>w. get_worker_load s lb = Some w \<and> wl_active_tasks w = 0" "\<not> busy lb s"
    using pool_seat [OF assms(1), of s w] by (auto simp: seat_ok_def has_capacity_def busy_def)
  show "lb' = lb" by (rule a(1))
qed

lemma start_pool:
  assumes "pool_ok peak lb" "get_worker_load s lb = Some w" "wl_active_tasks w = 0"
  shows "pool_ok peak (record_task_start s lb)" "busy (record_task_start s lb) t \<longleftrightarrow> t = s \<or> busy lb t"
proof -
  have bo: "balancer_ok (record_task_start s lb)" using assms(1) by (simp add: pool_ok_def balancer_ops_ok)
  have load: "get_worker_load t (record_task_start s lb) = (if t = s then Some (w\<lparr>wl_active_tasks := 1\<rparr>) else get_worker_load t lb)" for t
    using assms(2,3) by (simp add: record_task_start_def)
  show "pool_ok peak (record_task_start s lb)" unfolding pool_ok_def
    using bo assms(1) pool_seat [OF assms(1,2)] pool_seat [OF assms(1)] by (auto simp: load pool_ok_def seat_ok_def)
  show "busy (record_task_start s lb) t \<longleftrightarrow> t = s \<or> busy lb t" by (simp add: busy_def load)
qed

lemma complete_pool:
  assumes "pool_ok peak lb"
  shows "pool_ok peak (record_task_complete f now s d ok lb)" "t \<noteq> s \<Longrightarrow> busy (record_task_complete f now s d ok lb) t = busy lb t"
proof -
  have bo: "balancer_ok (record_task_complete f now s d ok lb)" using assms by (simp add: pool_ok_def balancer_ops_ok)
  have load: "get_worker_load t (record_task_complete f now s d ok lb) =
      (if t = s then map_option (complete_worker f now d ok) (get_worker_load s lb) else get_worker_load t lb)" for t
    by (simp add: record_task_complete_def)
  have "seat_ok peak (s, complete_worker f now d ok w)" if "get_worker_load s lb = Some w" for w
    using pool_seat [OF assms that] by (simp add: seat_ok_def complete_worker_def Let_def)
  then show "pool_ok peak (record_task_complete f now s d ok lb)" unfolding pool_ok_def
    using bo assms by (auto simp: load pool_ok_def)
  show "t \<noteq> s \<Longrightarrow> busy (record_task_complete f now s d ok lb) t = busy lb t" by (simp add: busy_def load)
qed

lemma add_seat_pool:
  assumes "pool_ok peak lb" "i < peak"
  shows "pool_ok peak (add_seat i lb)" "busy (add_seat i lb) t = busy lb t"
  using assms by (auto simp: add_seat_def pool_ok_def busy_def balancer_ops_ok seat_ok_def worker_load_new_def)

lemma unregister_pool:
  assumes "pool_ok peak lb"
  shows "pool_ok peak (unregister_worker i lb)"
  using assms by (auto simp: pool_ok_def balancer_ops_ok)

lemma sync_pool:
  assumes "pool_ok peak (pn_load_balancer p)" "desired_seats p \<le> peak"
  shows "pool_ok peak (pn_load_balancer (sync_seat_pool p))"
    "busy (pn_load_balancer (sync_seat_pool p)) t = busy (pn_load_balancer p) t"
proof -
  let ?ids = "map of_nat [0..<unat (desired_seats p)] :: u64 list"
  define lb1 where "lb1 = fold add_seat ?ids (pn_load_balancer p)"
  have "i < peak" if listed: "i \<in> set ?ids" for i
  proof -
    obtain k where k: "i = of_nat k" "k < unat (desired_seats p)" using listed by auto
    then have "i < desired_seats p" by (simp add: word_less_nat_alt unat_of_nat)
    with assms(2) show ?thesis by (rule less_le_trans [rotated])
  qed
  moreover have "pool_ok peak (fold add_seat is lb) \<and> busy (fold add_seat is lb) t = busy lb t"
    if "pool_ok peak lb" "\<forall>i\<in>set is. i < peak" for "is" lb
    using that by (induction "is" arbitrary: lb) (auto simp: add_seat_pool)
  ultimately have lb1: "pool_ok peak lb1" "busy lb1 t = busy (pn_load_balancer p) t" using assms(1) by (simp_all add: lb1_def)
  have gone: "pool_ok peak (fold unregister_worker is lb)" if "pool_ok peak lb" for "is" lb
    using that by (induction "is" arbitrary: lb) (auto simp: unregister_pool)
  have load: "get_worker_load t (fold unregister_worker is lb) = (if t \<in> set is then None else get_worker_load t lb)" for "is" lb
    by (induction "is" arbitrary: lb) auto
  have "\<not> busy lb1 t" if "stale_seat (desired_seats p) lb1 t" using that by (auto simp: stale_seat_def busy_def split: option.splits)
  with lb1 gone [OF lb1(1)] show "pool_ok peak (pn_load_balancer (sync_seat_pool p))"
    "busy (pn_load_balancer (sync_seat_pool p)) t = busy (pn_load_balancer p) t"
    by (auto simp: sync_seat_pool_def Let_def lb1_def [symmetric] busy_def load)
qed

section \<open>Seats and running tasks\<close>

text \<open>
  The invariant: running tasks hold busy seats, one each, below \<open>peak\<close>; the seats \<open>L\<close> are lost, busy
  without a running task.
\<close>

definition seats_ok :: "u64 \<Rightarrow> u64 set \<Rightarrow> OrchestratorPanel \<Rightarrow> bool" where
  "seats_ok peak L p \<longleftrightarrow> pool_ok peak (pn_load_balancer p) \<and> desired_seats p \<le> peak
     \<and> distinct (map fst (pn_worker_seats p)) \<and> distinct (map snd (pn_worker_seats p))
     \<and> (\<forall>s\<in>snd ` set (pn_worker_seats p) \<union> L. busy (pn_load_balancer p) s)
     \<and> distinct (pn_running_workers p) \<and> set (pn_running_workers p) \<subseteq> fst ` set (pn_worker_seats p)
     \<and> (\<forall>i\<in>set (pn_running_workers p). \<forall>s\<in>L. map_of (pn_worker_seats p) i \<noteq> Some s)"

text \<open>What of a panel the invariant is about.\<close>

definition seat_part :: "OrchestratorPanel \<Rightarrow> LoadBalancer \<times> (TaskId \<times> u64) list \<times> TaskId list \<times> u64" where
  "seat_part p = (pn_load_balancer p, pn_worker_seats p, pn_running_workers p, pn_max_concurrent_workers p)"

lemma seats_ok_part:
  assumes "seats_ok peak L p" "seat_part p' = seat_part p"
  shows "seats_ok peak L p'"
proof -
  have eqs: "pn_load_balancer p' = pn_load_balancer p" "pn_worker_seats p' = pn_worker_seats p"
    "pn_running_workers p' = pn_running_workers p" "pn_max_concurrent_workers p' = pn_max_concurrent_workers p"
    using assms(2) by (simp_all add: seat_part_def)
  show ?thesis using assms(1) unfolding seats_ok_def desired_seats_def eqs .
qed

lemma seat_part_kept [simp]:
  "seat_part (set_task_status i s p) = seat_part p" "seat_part (with_registry p) = seat_part p"
  "seat_part (refresh_runtime_status p) = seat_part p" "seat_part (snd (bind_unbound_tasks sm p)) = seat_part p"
  "seat_part (snd (watch_workers env p)) = seat_part p" "seat_part (snd (next_task_id p)) = seat_part p"
  "seat_part (snd (repair_cycles_action p)) = seat_part p" "seat_part (request_route_goal goal p) = seat_part p"
  by (simp_all add: seat_part_def set_task_status_def with_registry_def refresh_runtime_status_def bind_unbound_tasks_def
      watch_workers_def next_task_id_def repair_cycles_action_def request_route_goal_def Let_def split_beta split: option.splits)

lemma running_kept [simp]:
  "pn_running_workers (set_task_status i s p) = pn_running_workers p" "pn_running_workers (with_registry p) = pn_running_workers p"
  "pn_running_workers (snd (watch_workers env p)) = pn_running_workers p"
  by (simp_all add: set_task_status_def with_registry_def watch_workers_def Let_def split_beta split: option.splits)

text \<open>Workers dropped without a release leave their seats lost.\<close>

definition seats_of :: "TaskId list \<Rightarrow> OrchestratorPanel \<Rightarrow> u64 set" where
  "seats_of is p = {s. \<exists>i\<in>set is. map_of (pn_worker_seats p) i = Some s}"

lemma held_seat: "map_of (pn_worker_seats p) i = Some s \<Longrightarrow> s \<in> snd ` set (pn_worker_seats p)"
  using map_of_SomeD by force

lemma seat_unique:
  assumes "distinct (map snd xs)" "map_of xs i = Some s" "map_of xs j = Some s"
  shows "i = j"
proof -
  have "(i, s) \<in> set xs" "(j, s) \<in> set xs" using assms(2,3) by (auto dest: map_of_SomeD)
  with assms(1) show ?thesis by (metis fst_conv inj_on_eq_iff distinct_map snd_conv)
qed

lemma drop_workers:
  assumes "seats_ok peak L p" "seat_part p' = (pn_load_balancer p, pn_worker_seats p, kept, pn_max_concurrent_workers p)"
    and "set kept \<subseteq> set (pn_running_workers p)" "distinct kept" "set gone \<subseteq> set (pn_running_workers p) - set kept"
  shows "seats_ok peak (L \<union> seats_of gone p) p'"
proof -
  have sel: "pn_load_balancer p' = pn_load_balancer p" "pn_worker_seats p' = pn_worker_seats p" "pn_running_workers p' = kept"
    "desired_seats p' = desired_seats p"
    using assms(2) by (simp_all add: seat_part_def desired_seats_def)
  have "map_of (pn_worker_seats p) i \<noteq> Some s" if kept: "i \<in> set kept" and lost: "s \<in> seats_of gone p" for i s
  proof
    assume held: "map_of (pn_worker_seats p) i = Some s"
    obtain j where j: "j \<in> set gone" "map_of (pn_worker_seats p) j = Some s" using lost by (auto simp: seats_of_def)
    have "distinct (map snd (pn_worker_seats p))" using assms(1) by (simp add: seats_ok_def)
    from seat_unique [OF this held j(2)] kept j(1) assms(5) show False by blast
  qed
  then have "\<forall>i\<in>set kept. \<forall>s\<in>L \<union> seats_of gone p. map_of (pn_worker_seats p) i \<noteq> Some s"
    using assms(1,3) by (auto simp: seats_ok_def)
  moreover have "s \<in> snd ` set (pn_worker_seats p)" if "s \<in> seats_of gone p" for s
    using that by (auto simp: seats_of_def dest: held_seat)
  then have "snd ` set (pn_worker_seats p) \<union> (L \<union> seats_of gone p) = snd ` set (pn_worker_seats p) \<union> L" by blast
  moreover have "set kept \<subseteq> fst ` set (pn_worker_seats p)" using assms(1,3) by (auto simp: seats_ok_def)
  ultimately show ?thesis using assms(1,4) by (simp add: seats_ok_def sel)
qed

lemma seats_ok_mono: "seats_ok peak L p \<Longrightarrow> M \<subseteq> L \<Longrightarrow> seats_ok peak M p"
  unfolding seats_ok_def by blast

lemma drop_workers_plain:
  assumes "seats_ok peak L p" "seat_part p' = (pn_load_balancer p, pn_worker_seats p, kept, pn_max_concurrent_workers p)"
    and "set kept \<subseteq> set (pn_running_workers p)" "distinct kept"
  shows "seats_ok peak L p'"
  using drop_workers [OF assms, of "[]"] by (simp add: seats_of_def)

text \<open>A worker that is dropped and releases its seat.\<close>

lemma release_ok:
  assumes "seats_ok peak L p" "i \<in> set (pn_running_workers p)"
    and "seat_part p1 = (pn_load_balancer p, pn_worker_seats p, filter (\<lambda>j. j \<noteq> i) (pn_running_workers p), pn_max_concurrent_workers p)"
  shows "seats_ok peak L (release_seat f now i ms ok p1)"
    "pn_running_workers (release_seat f now i ms ok p1) = filter (\<lambda>j. j \<noteq> i) (pn_running_workers p)"
proof -
  have sel: "pn_load_balancer p1 = pn_load_balancer p" "pn_worker_seats p1 = pn_worker_seats p"
    "pn_running_workers p1 = filter (\<lambda>j. j \<noteq> i) (pn_running_workers p)" "pn_max_concurrent_workers p1 = pn_max_concurrent_workers p"
    using assms(3) by (simp_all add: seat_part_def)
  have inv: "pool_ok peak (pn_load_balancer p)" "distinct (map fst (pn_worker_seats p))" "distinct (map snd (pn_worker_seats p))"
    using assms(1) by (simp_all add: seats_ok_def)
  have "i \<in> fst ` set (pn_worker_seats p)" using assms(1,2) unfolding seats_ok_def by blast
  then obtain s where s: "map_of (pn_worker_seats p) i = Some s" using map_of_eq_None_iff [of "pn_worker_seats p" i] by auto
  then have held: "(i, s) \<in> set (pn_worker_seats p)" by (rule map_of_SomeD)
  let ?q = "release_seat f now i ms ok p1"
  have q: "pn_load_balancer ?q = record_task_complete f now s ms ok (pn_load_balancer p)"
    "pn_worker_seats ?q = AList.delete i (pn_worker_seats p)"
    "pn_running_workers ?q = filter (\<lambda>j. j \<noteq> i) (pn_running_workers p)" "desired_seats ?q = desired_seats p"
    using s by (simp_all add: release_seat_def sel desired_seats_def)
  show "pn_running_workers ?q = filter (\<lambda>j. j \<noteq> i) (pn_running_workers p)" by (rule q(3))
  have others: "s \<notin> snd ` set (AList.delete i (pn_worker_seats p))"
  proof
    assume "s \<in> snd ` set (AList.delete i (pn_worker_seats p))"
    then obtain j where j: "(j, s) \<in> set (pn_worker_seats p)" "j \<noteq> i" by (auto simp: AList.delete_eq)
    with held inv(3) show False by (metis fst_conv inj_on_eq_iff distinct_map snd_conv)
  qed
  have "s \<notin> L" using assms(1,2) s by (auto simp: seats_ok_def)
  have "\<forall>t\<in>snd ` set (AList.delete i (pn_worker_seats p)) \<union> L. busy (pn_load_balancer ?q) t"
  proof
    fix t assume t: "t \<in> snd ` set (AList.delete i (pn_worker_seats p)) \<union> L"
    then have "t \<noteq> s" using others \<open>s \<notin> L\<close> by blast
    moreover have "t \<in> snd ` set (pn_worker_seats p) \<union> L" using t by (auto simp: AList.delete_eq)
    then have "busy (pn_load_balancer p) t" using assms(1) by (simp only: seats_ok_def)
    ultimately show "busy (pn_load_balancer ?q) t" by (simp only: q(1) complete_pool(2) [OF inv(1)] not_False_eq_True)
  qed
  moreover have "distinct (map fst (AList.delete i (pn_worker_seats p)))" using inv(2) by (rule distinct_delete)
  moreover have "distinct (map snd (AList.delete i (pn_worker_seats p)))"
    using inv(3) by (simp add: AList.delete_eq distinct_map_filter)
  moreover have "set (pn_running_workers ?q) \<subseteq> fst ` set (AList.delete i (pn_worker_seats p))"
    using assms(1) by (force simp: q(3) seats_ok_def AList.delete_eq)
  moreover have "map_of (AList.delete i (pn_worker_seats p)) j \<noteq> Some t" if "j \<in> set (pn_running_workers ?q)" "t \<in> L" for j t
    using assms(1) that by (auto simp: q(3) seats_ok_def delete_conv')
  moreover have "distinct (pn_running_workers ?q)" "desired_seats ?q \<le> peak" using assms(1) by (simp_all add: q(3,4) seats_ok_def)
  moreover have "pool_ok peak (pn_load_balancer ?q)" unfolding q(1) by (rule complete_pool(1) [OF inv(1)])
  ultimately show "seats_ok peak L ?q" unfolding seats_ok_def q(2) by blast
qed

section \<open>The poll keeps the seats\<close>

lemma settle_finished_ok:
  assumes "seats_ok peak L p" "i \<in> set (pn_running_workers p)"
  shows "seats_ok peak L (settle_finished env (i, r) p)"
    "pn_running_workers (settle_finished env (i, r) p) = filter (\<lambda>j. j \<noteq> i) (pn_running_workers p)"
proof -
  let ?p1 = "p\<lparr>pn_running_workers := filter (\<lambda>j. j \<noteq> i) (pn_running_workers p)\<rparr>"
  let ?q = "release_seat (pe_ops env) (pe_now env) i (pe_millis env (wk_duration r)) (wk_success r) ?p1"
  have "seat_part ?p1 = (pn_load_balancer p, pn_worker_seats p, filter (\<lambda>j. j \<noteq> i) (pn_running_workers p), pn_max_concurrent_workers p)"
    by (simp add: seat_part_def)
  note q = release_ok [OF assms this, of "pe_ops env" "pe_now env" "pe_millis env (wk_duration r)" "wk_success r"]
  define q' where "q' = ?q"
  have "settle_finished env (i, r) p = (case pn_registry q' of
      None \<Rightarrow> q'
    | Some reg \<Rightarrow> (case settle_result (pe_check env i) i r (pn_graph q') reg of (g, reg1) \<Rightarrow> q'\<lparr>pn_graph := g, pn_registry := Some reg1\<rparr>))"
    by (simp only: settle_finished_def Let_def q'_def prod.case)
  moreover have "seat_part (case pn_registry q' of
      None \<Rightarrow> q'
    | Some reg \<Rightarrow> (case settle_result (pe_check env i) i r (pn_graph q') reg of (g, reg1) \<Rightarrow> q'\<lparr>pn_graph := g, pn_registry := Some reg1\<rparr>)) = seat_part q'"
    by (simp add: seat_part_def split: option.split prod.split)
  ultimately have same: "seat_part (settle_finished env (i, r) p) = seat_part ?q" by (simp only: q'_def)
  show "seats_ok peak L (settle_finished env (i, r) p)" by (rule seats_ok_part [OF q(1) same])
  from same show "pn_running_workers (settle_finished env (i, r) p) = filter (\<lambda>j. j \<noteq> i) (pn_running_workers p)"
    using q(2) by (simp add: seat_part_def)
qed

lemma fail_hung_ok:
  assumes "seats_ok peak L p" "i \<in> set (pn_running_workers p)"
  shows "seats_ok peak L (fail_hung env (i, reason) p)"
    "pn_running_workers (fail_hung env (i, reason) p) = filter (\<lambda>j. j \<noteq> i) (pn_running_workers p)"
proof -
  let ?p1 = "p\<lparr>pn_running_workers := filter (\<lambda>j. j \<noteq> i) (pn_running_workers p), pn_worker_watchdog := AList.delete i (pn_worker_watchdog p)\<rparr>"
  let ?q = "release_seat (pe_ops env) (pe_now env) i (Fin 0) False ?p1"
  have "seat_part ?p1 = (pn_load_balancer p, pn_worker_seats p, filter (\<lambda>j. j \<noteq> i) (pn_running_workers p), pn_max_concurrent_workers p)"
    by (simp add: seat_part_def)
  note q = release_ok [OF assms this, of "pe_ops env" "pe_now env" "Fin 0" False]
  define q' where "q' = ?q"
  have "fail_hung env (i, reason) p = (case task_get (pn_graph q') i of
      None \<Rightarrow> q'
    | Some t \<Rightarrow> set_task_status i (TFailed (blocked_by t (''worker hung: '' @ reason @ ''; cancelled by watchdog''))) q')"
    by (simp only: fail_hung_def Let_def q'_def prod.case)
  then have same: "seat_part (fail_hung env (i, reason) p) = seat_part ?q"
    by (simp add: q'_def [symmetric] split: option.split)
  show "seats_ok peak L (fail_hung env (i, reason) p)" by (rule seats_ok_part [OF q(1) same])
  from same show "pn_running_workers (fail_hung env (i, reason) p) = filter (\<lambda>j. j \<noteq> i) (pn_running_workers p)"
    using q(2) by (simp add: seat_part_def)
qed

text \<open>A fold over distinct running tasks of a step that drops one of them.\<close>

lemma fold_drop_ok:
  assumes "\<And>q i x. seats_ok peak L q \<Longrightarrow> i \<in> set (pn_running_workers q) \<Longrightarrow>
      seats_ok peak L (f (i, x) q) \<and> pn_running_workers (f (i, x) q) = filter (\<lambda>j. j \<noteq> i) (pn_running_workers q)"
  shows "seats_ok peak L p \<Longrightarrow> distinct (map fst es) \<Longrightarrow> set (map fst es) \<subseteq> set (pn_running_workers p) \<Longrightarrow>
    seats_ok peak L (fold f es p) \<and> set (pn_running_workers (fold f es p)) = set (pn_running_workers p) - set (map fst es)"
proof (induction es arbitrary: p)
  case (Cons e es)
  obtain i x where e: "e = (i, x)" by (metis surj_pair)
  have "i \<in> set (pn_running_workers p)" using Cons.prems(3) e by simp
  note step = assms [OF Cons.prems(1) this, of x]
  have "set (map fst es) \<subseteq> set (pn_running_workers (f (i, x) p))" using Cons.prems(2,3) step e by auto
  from Cons.IH [OF conjunct1 [OF step] _ this] Cons.prems(2) step e show ?case by auto
qed simp

lemma finished_running:
  "map fst (finished_workers env p) = filter (\<lambda>i. pe_poll env i \<noteq> None) (pn_running_workers p)"
proof -
  have "map fst (List.map_filter (\<lambda>i. map_option (Pair i) (f i)) xs) = filter (\<lambda>i. f i \<noteq> None) xs"
    for f :: "TaskId \<Rightarrow> WorkerResult option" and xs
    by (induction xs) (auto simp: List.map_filter_simps split: option.splits)
  then show ?thesis by (simp add: finished_workers_def)
qed

lemma judge_out: "snd (judge now i w) = [] \<or> (\<exists>reason. snd (judge now i w) = [(i, reason)])"
  by (simp add: judge_def split: option.splits)

lemma watch_one_out: "\<exists>out. snd (watch_one env hard i st) = snd st @ out \<and> distinct (map fst out) \<and> set (map fst out) \<subseteq> {i}"
proof -
  obtain w where "snd (watch_one env hard i st) = snd st @ snd (judge (pe_now env) i w)"
    by (simp add: watch_one_def Let_def split_beta)
  with judge_out [of "pe_now env" i w] show ?thesis by (intro exI [of _ "snd (judge (pe_now env) i w)"]) auto
qed

lemma timed_out_running:
  assumes "distinct (pn_running_workers p)" "watch_workers env p = (timed_out, p1)"
  shows "distinct (map fst timed_out)" "set (map fst timed_out) \<subseteq> set (pn_running_workers p)"
proof -
  have "\<exists>more. snd (fold (watch_one env hard) is st) = snd st @ more \<and> distinct (map fst more) \<and> set (map fst more) \<subseteq> set is"
    if "distinct is" for hard "is" st
    using that
  proof (induction "is" arbitrary: st)
    case (Cons i "is")
    obtain out where out: "snd (watch_one env hard i st) = snd st @ out" "distinct (map fst out)" "set (map fst out) \<subseteq> {i}"
      using watch_one_out by blast
    from Cons.IH [of "watch_one env hard i st"] Cons.prems obtain more where
      "snd (fold (watch_one env hard) (i # is) st) = snd st @ out @ more" "distinct (map fst more)" "set (map fst more) \<subseteq> set is"
      using out(1) by auto
    moreover have "i \<notin> set (map fst more)" using calculation(3) Cons.prems by auto
    then have "distinct (map fst (out @ more))" using calculation(2) out(2,3) by auto
    ultimately show ?case using out(3) by (intro exI [of _ "out @ more"]) auto
  qed simp
  from this [OF assms(1), of "hard_timeout_for (pn_max_worker_wall_secs p)"
      "(filter (\<lambda>(i, _). i \<in> set (pn_running_workers p)) (pn_worker_watchdog p), [])"]
  obtain more where "timed_out = more" "distinct (map fst more)" "set (map fst more) \<subseteq> set (pn_running_workers p)"
    using assms(2) by (auto simp only: watch_workers_def Let_def split_beta prod.inject snd_conv append_Nil)
  then show "distinct (map fst timed_out)" "set (map fst timed_out) \<subseteq> set (pn_running_workers p)" by simp_all
qed

lemma distinct_snd_update:
  "distinct (map fst xs) \<Longrightarrow> distinct (map snd xs) \<Longrightarrow> v \<notin> snd ` set xs \<Longrightarrow> distinct (map snd (AList.update k v xs))"
proof (induction xs)
  case (Cons x xs)
  have "snd ` set (AList.update k v xs) \<subseteq> insert v (snd ` set xs)" by (induction xs) auto
  with Cons show ?case by (cases x) auto
qed simp

lemma dispatch_one_ok:
  assumes "seats_ok peak L p"
  shows "seats_ok peak L (dispatch_one env i p)"
proof -
  have keep: "seats_ok peak L (set_task_status i s p)" for s
    by (rule seats_ok_part [OF assms]) simp
  have inv: "pool_ok peak (pn_load_balancer p)" "distinct (map fst (pn_worker_seats p))" "distinct (map snd (pn_worker_seats p))"
    "\<forall>s\<in>snd ` set (pn_worker_seats p) \<union> L. busy (pn_load_balancer p) s"
    using assms by (simp_all add: seats_ok_def)
  have started: "seats_ok peak L p'"
    if fresh: "i \<notin> set (pn_running_workers p)" and got: "assign_task kind (pn_load_balancer p) = (Some seat, lb)"
      and part: "seat_part p' = (record_task_start seat lb, AList.update i seat (pn_worker_seats p), pn_running_workers p @ [i], pn_max_concurrent_workers p)"
    for kind seat lb p'
  proof -
    have sel: "pn_load_balancer p' = record_task_start seat lb" "pn_worker_seats p' = AList.update i seat (pn_worker_seats p)"
      "pn_running_workers p' = pn_running_workers p @ [i]" "desired_seats p' = desired_seats p"
      using part by (simp_all add: seat_part_def desired_seats_def)
    note idle = assigned_idle [OF inv(1) got]
    obtain w where w: "get_worker_load seat lb = Some w" "wl_active_tasks w = 0" using idle(1,3) by blast
    have lb: "pool_ok peak lb" using inv(1) idle(1) by simp
    note pool = start_pool [OF lb w]
    have free: "seat \<notin> snd ` set (pn_worker_seats p) \<union> L" using inv(4) idle(2) by blast
    have snds: "snd ` set (AList.update i seat (pn_worker_seats p)) \<subseteq> insert seat (snd ` set (pn_worker_seats p))"
      by (auto dest: set_update_mem)
    have "\<forall>s\<in>snd ` set (AList.update i seat (pn_worker_seats p)) \<union> L. busy (record_task_start seat lb) s"
      using snds inv(4) pool(2) idle(1) by blast
    moreover have "distinct (map snd (AList.update i seat (pn_worker_seats p)))"
      using distinct_snd_update [OF inv(2,3)] free by blast
    moreover have "\<forall>j\<in>set (pn_running_workers p @ [i]). \<forall>s\<in>L. map_of (AList.update i seat (pn_worker_seats p)) j \<noteq> Some s"
      using assms free by (auto simp: seats_ok_def update_conv')
    moreover have "set (pn_running_workers p @ [i]) \<subseteq> fst ` set (AList.update i seat (pn_worker_seats p))"
      unfolding dom_update using assms by (auto simp: seats_ok_def)
    moreover have "distinct (pn_running_workers p @ [i])" using assms fresh by (simp add: seats_ok_def)
    ultimately show ?thesis using assms inv(2) pool(1) by (simp add: seats_ok_def sel distinct_update)
  qed
  have failed: "seats_ok peak L (p\<lparr>pn_load_balancer := lb\<rparr>)" if "assign_task kind (pn_load_balancer p) = (None, lb)" for kind lb
    by (rule seats_ok_part [OF assms]) (use that inv(1) in \<open>auto simp: seat_part_def assign_task_def pool_ok_def\<close>)
  show ?thesis
    unfolding dispatch_one_def
    by (auto simp: keep assms split: option.splits sum.splits prod.splits)
       (auto intro: failed started simp: seat_part_def set_task_status_def)
qed

lemma sync_seats_ok:
  assumes "seats_ok peak L p"
  shows "seats_ok peak L (sync_seat_pool p)"
proof -
  have inv: "pool_ok peak (pn_load_balancer p)" "desired_seats p \<le> peak" using assms by (simp_all add: seats_ok_def)
  have sel: "pn_worker_seats (sync_seat_pool p) = pn_worker_seats p" "pn_running_workers (sync_seat_pool p) = pn_running_workers p"
    "desired_seats (sync_seat_pool p) = desired_seats p"
    by (simp_all add: sync_seat_pool_def Let_def desired_seats_def)
  show ?thesis using assms sync_pool(1) [OF inv] unfolding seats_ok_def sel sync_pool(2) [OF inv]
    by blast
qed

lemma dispatch_phase_ok:
  assumes "seats_ok peak L p"
  shows "seats_ok peak L (dispatch_phase env p)"
proof -
  have "seats_ok peak L (fold (dispatch_one env) wave q)" if "seats_ok peak L q" for wave q
    using that by (induction wave arbitrary: q) (auto intro: dispatch_one_ok)
  moreover have "seats_ok peak L (sync_seat_pool (snd (bind_unbound_tasks (pe_bind_root env) p)))"
    by (intro sync_seats_ok seats_ok_part [OF assms]) simp
  ultimately have "seats_ok peak L (fold (dispatch_one env) (dispatch_wave env p) (sync_seat_pool (snd (bind_unbound_tasks (pe_bind_root env) p))))"
    by blast
  then show ?thesis unfolding dispatch_phase_def Let_def by (rule seats_ok_part) (simp, simp add: seat_part_def)
qed

lemma watchdog_phase_ok:
  assumes "seats_ok peak L p"
  shows "seats_ok peak L (watchdog_phase env p)"
proof -
  obtain timed_out p1 where w: "watch_workers env p = (timed_out, p1)" by (metis surj_pair)
  then have part: "seat_part p1 = seat_part p" using seat_part_kept(5) [of env p] by simp
  have run: "pn_running_workers p1 = pn_running_workers p" using part by (simp add: seat_part_def)
  have "distinct (pn_running_workers p)" using assms by (simp add: seats_ok_def)
  note t = timed_out_running [OF this w]
  have "seats_ok peak L (fold (fail_hung env) timed_out p1)"
    by (rule conjunct1 [OF fold_drop_ok [OF _ seats_ok_part [OF assms part] t(1) t(2) [folded run]]])
      (intro conjI fail_hung_ok)
  then show ?thesis by (simp add: watchdog_phase_def w)
qed

lemma poll_ok:
  assumes "seats_ok peak L p" "poll_live_workers env p = Some p'"
  shows "seats_ok peak L p'"
proof -
  define p0 where "p0 = with_registry p"
  define p1 where "p1 = fold (settle_finished env) (finished_workers env p0) p0"
  have p0: "seats_ok peak L p0" by (rule seats_ok_part [OF assms(1)]) (simp add: p0_def)
  have fin: "distinct (map fst (finished_workers env p0))" "set (map fst (finished_workers env p0)) \<subseteq> set (pn_running_workers p0)"
    using p0 by (auto simp: finished_running seats_ok_def)
  have p1: "seats_ok peak L p1" unfolding p1_def
    by (rule conjunct1 [OF fold_drop_ok [OF _ p0 fin]]) (intro conjI settle_finished_ok)
  obtain reg reg1 g reg2 where r: "p' = dispatch_phase env (watchdog_phase env (p1\<lparr>pn_graph := g, pn_registry := Some reg2\<rparr>))"
    using assms(2) unfolding poll_live_workers_def
    by (auto simp: Let_def p0_def [symmetric] p1_def [symmetric] split: option.splits prod.splits)
  have "seats_ok peak L (p1\<lparr>pn_graph := g, pn_registry := Some reg2\<rparr>)" by (rule seats_ok_part [OF p1]) (simp add: seat_part_def)
  then show ?thesis unfolding r by (intro dispatch_phase_ok watchdog_phase_ok)
qed

section \<open>The panel in action\<close>

text \<open>
  Everything that can happen to a panel but the reset of its runtime: polls and actions, edits of
  the plan while an id is left, and settings, with the cap on workers never above \<open>peak\<close>.
\<close>

inductive panel_step :: "u64 \<Rightarrow> OrchestratorPanel \<Rightarrow> OrchestratorPanel \<Rightarrow> bool" for peak where
  poll: "poll_live_workers env p = Some p' \<Longrightarrow> panel_step peak p p'"
| start: "start_execution env p = Some p' \<Longrightarrow> panel_step peak p p'"
| retry_all: "retry_blocked_tasks env p = Some p' \<Longrightarrow> panel_step peak p p'"
| retry: "retry_task env i p = Some (ok, p') \<Longrightarrow> panel_step peak p p'"
| reset_one: "reset_task i p = (ok, p') \<Longrightarrow> panel_step peak p p'"
| stop: "stop_task cancelled i p = (ok, p') \<Longrightarrow> panel_step peak p p'"
| send: "send_task_note sent i p = (ok, p') \<Longrightarrow> panel_step peak p p'"
| add: "fst (next_task_id p) \<noteq> 0 \<Longrightarrow> add_task title desc scope deps kind p = (r, p') \<Longrightarrow> panel_step peak p p'"
| add_draft: "fst (next_task_id p) \<noteq> 0 \<Longrightarrow> add_draft_task p = (r, p') \<Longrightarrow> panel_step peak p p'"
| remove: "remove_task i p = (ok, p') \<Longrightarrow> panel_step peak p p'"
| clear: "panel_step peak p (clear_plan p)"
| repair: "repair_cycles_action p = (removed, p') \<Longrightarrow> panel_step peak p p'"
| route: "length tasks + 2 < 2 ^ 64 \<Longrightarrow> panel_step peak p (set_routed_tasks goal kind scope_count tasks p)"
| request: "panel_step peak p (request_route_goal goal p)"
| edit_draft: "panel_step peak p (p\<lparr>pn_draft := d\<rparr>)"
| edit_defaults: "panel_step peak p (p\<lparr>pn_defaults := e\<rparr>)"
| set_cap: "max n 1 \<le> peak \<Longrightarrow> panel_step peak p (p\<lparr>pn_max_concurrent_workers := n\<rparr>)"
| set_wall: "panel_step peak p (p\<lparr>pn_max_worker_wall_secs := n\<rparr>)"

lemma retry_task_cases:
  assumes "retry_task env i p = Some (ok, p')"
  shows "p' = with_registry p \<or> (\<exists>q. poll_live_workers env q = Some p'
    \<and> seat_part q = (pn_load_balancer p, pn_worker_seats p, filter (\<lambda>j. j \<noteq> i) (pn_running_workers p), pn_max_concurrent_workers p)
    \<and> pn_graph q = pn_graph p)"
proof (cases "Option.bind (pn_registry (with_registry p)) (\<lambda>reg. status_of reg i)")
  case (Some s)
  show ?thesis
  proof (cases "is_retryable s")
    case True
    let ?q = "(drop_worker i (set_task_status i TPending (with_registry p)))\<lparr>pn_execution_running := True, pn_runtime_status := ''Retrying task '' @ show_u64 i\<rparr>"
    have "poll_live_workers env ?q = Some p'" using assms Some True by (auto simp: retry_task_def Let_def)
    moreover have "seat_part ?q = (pn_load_balancer p, pn_worker_seats p, filter (\<lambda>j. j \<noteq> i) (pn_running_workers p), pn_max_concurrent_workers p)"
      "pn_graph ?q = pn_graph p"
      by (simp_all add: seat_part_def drop_worker_def set_task_status_def with_registry_def split: option.splits)
    ultimately show ?thesis by blast
  qed (use assms Some in \<open>simp add: retry_task_def Let_def\<close>)
qed (use assms in \<open>simp add: retry_task_def Let_def\<close>)

lemma retry_blocked_cases:
  assumes "retry_blocked_tasks env p = Some p'"
  shows "\<exists>q. (p' = q \<or> poll_live_workers env q = Some p')
    \<and> seat_part q = (pn_load_balancer p, pn_worker_seats p, [], pn_max_concurrent_workers p) \<and> pn_graph q = pn_graph p"
proof -
  define q where "q = (with_registry p)\<lparr>pn_registry := map_option (\<lambda>reg. reg\<lparr>rg_statuses :=
      map (\<lambda>(i, s). (i, if is_retryable s then TPending else s)) (rg_statuses reg)\<rparr>) (pn_registry (with_registry p)),
    pn_running_workers := [], pn_worker_watchdog := [], pn_execution_running := 0 < retryable_blocked_task_count (with_registry p),
    pn_runtime_status := (if 0 < retryable_blocked_task_count (with_registry p)
      then ''Retrying '' @ show_nat (retryable_blocked_task_count (with_registry p)) @ '' blocked task(s)''
      else ''No retryable blocked tasks'')\<rparr>"
  have "p' = q \<or> poll_live_workers env q = Some p'"
    using assms unfolding retry_blocked_tasks_def Let_def q_def [symmetric] by (auto split: if_splits)
  moreover have "seat_part q = (pn_load_balancer p, pn_worker_seats p, [], pn_max_concurrent_workers p)" "pn_graph q = pn_graph p"
    by (simp_all add: q_def seat_part_def with_registry_def split: option.splits)
  ultimately show ?thesis by blast
qed

lemma reset_task_part:
  assumes "reset_task i p = (ok, p')"
  shows "pn_graph p' = pn_graph p" "\<not> ok \<Longrightarrow> seat_part p' = seat_part p"
    "ok \<Longrightarrow> seat_part p' = (pn_load_balancer p, pn_worker_seats p, filter (\<lambda>j. j \<noteq> i) (pn_running_workers p), pn_max_concurrent_workers p)"
  using assms by (auto simp: reset_task_def Let_def seat_part_def drop_worker_def with_registry_def split: option.splits if_splits)

lemma remove_task_part:
  assumes "remove_task i p = (ok, p')"
  shows "\<not> ok \<Longrightarrow> p' = p" "ok \<Longrightarrow> pn_graph p' = strip_dependency i (graph_remove i (pn_graph p))"
    "ok \<Longrightarrow> seat_part p' = (pn_load_balancer p, pn_worker_seats p, filter (\<lambda>j. j \<noteq> i) (pn_running_workers p), pn_max_concurrent_workers p)"
  using assms by (auto simp: remove_task_def Let_def seat_part_def split: if_splits)

lemma add_task_part: "seat_part (snd (add_task title desc scope deps kind p)) = seat_part p"
  by (simp add: add_task_def Let_def seat_part_def split_beta next_task_id_sel set_task_status_def with_registry_def
      split: option.splits)

lemma add_draft_cases:
  assumes "add_draft_task p = (r, p')"
  shows "p' = p \<or> (\<exists>title desc scope deps kind q. snd (add_task title desc scope deps kind p) = q \<and> (p' = q \<or> p' = q\<lparr>pn_draft := draft_default\<rparr>))"
proof (cases "trim (td_title (pn_draft p)) = []")
  case False
  show ?thesis
  proof (cases "parse_dependencies (td_dependencies (pn_draft p))")
    case (Inr deps)
    let ?run = "add_task (trim (td_title (pn_draft p))) (trim (td_description (pn_draft p))) (parse_list (td_scope (pn_draft p))) deps
      (Some (td_kind (pn_draft p))) p"
    have "p' = snd ?run \<or> p' = (snd ?run)\<lparr>pn_draft := draft_default\<rparr>"
      using assms False Inr by (auto simp: add_draft_task_def Let_def split: prod.splits sum.splits)
    then show ?thesis by blast
  qed (use assms False in \<open>simp add: add_draft_task_def Let_def\<close>)
qed (use assms in \<open>simp add: add_draft_task_def Let_def\<close>)

section \<open>Distinct seats, and never more workers than seats\<close>

lemma panel_step_ok:
  assumes "panel_step peak p p'" "seats_ok peak L p"
  shows "seats_ok peak L p'"
proof -
  note dropped = drop_workers_plain [OF assms(2)]
  have dist: "distinct (pn_running_workers p)" using assms(2) by (simp add: seats_ok_def)
  have drop_one: "seats_ok peak L q"
    if "seat_part q = (pn_load_balancer p, pn_worker_seats p, filter (\<lambda>j. j \<noteq> i) (pn_running_workers p), pn_max_concurrent_workers p)" for q i
    by (rule dropped [OF that]) (use dist in auto)
  have drop_all: "seats_ok peak L q"
    if "seat_part q = (pn_load_balancer p, pn_worker_seats p, [], pn_max_concurrent_workers p)" for q
    by (rule dropped [OF that]) auto
  have keep: "seats_ok peak L q" if "seat_part q = seat_part p" for q by (rule seats_ok_part [OF assms(2) that])
  show ?thesis using assms(1)
  proof cases
    case (poll env)
    show ?thesis by (rule poll_ok [OF assms(2) poll])
  next
    case (start env)
    show ?thesis by (rule poll_ok [OF _ start [unfolded start_execution_def]], rule keep)
      (simp add: seat_part_def with_registry_def split: option.split)
  next
    case (retry_all env)
    then show ?thesis using retry_blocked_cases [OF retry_all] drop_all poll_ok by metis
  next
    case (retry env i ok)
    from retry_task_cases [OF retry] show ?thesis
    proof
      assume "p' = with_registry p"
      then show ?thesis by (intro keep) simp
    next
      assume "\<exists>q. poll_live_workers env q = Some p'
        \<and> seat_part q = (pn_load_balancer p, pn_worker_seats p, filter (\<lambda>j. j \<noteq> i) (pn_running_workers p), pn_max_concurrent_workers p)
        \<and> pn_graph q = pn_graph p"
      then show ?thesis using drop_one poll_ok by blast
    qed
  next
    case (reset_one i ok)
    note part = reset_task_part [OF reset_one]
    show ?thesis
    proof (cases ok)
      case True
      show ?thesis by (rule drop_one [OF part(3) [OF True]])
    next
      case False
      show ?thesis by (rule keep [OF part(2) [OF False]])
    qed
  next
    case (stop cancelled i ok)
    then show ?thesis by (intro keep) (auto simp: stop_task_def seat_part_def split: if_splits)
  next
    case (send sent i ok)
    then show ?thesis by (intro keep) (auto simp: send_task_note_def seat_part_def split: if_splits)
  next
    case (add title desc scope deps kind r)
    then show ?thesis using add_task_part [of title desc scope deps kind p] by (intro keep) simp
  next
    case (add_draft r)
    from add_draft_cases [OF add_draft(2)] show ?thesis
    proof (elim disjE exE conjE)
      fix title desc scope deps kind q
      assume q: "snd (add_task title desc scope deps kind p) = q"
      have "seat_part q = seat_part p" unfolding q [symmetric] by (rule add_task_part)
      then show "p' = q \<Longrightarrow> ?thesis" "p' = q\<lparr>pn_draft := draft_default\<rparr> \<Longrightarrow> ?thesis" by (auto intro!: keep simp: seat_part_def)
    qed (simp add: keep)
  next
    case (remove i ok)
    note part = remove_task_part [OF remove]
    show ?thesis
    proof (cases ok)
      case True
      show ?thesis by (rule drop_one [OF part(3) [OF True]])
    next
      case False
      show ?thesis unfolding part(1) [OF False] by (rule assms(2))
    qed
  next
    case clear
    show ?thesis unfolding clear by (rule drop_all) (simp add: seat_part_def clear_plan_def)
  next
    case (repair removed)
    then show ?thesis using seat_part_kept(7) [of p] by (intro keep) simp
  next
    case (route tasks goal kind scope_count)
    show ?thesis unfolding route(1) by (rule drop_all) (simp add: seat_part_def set_routed_tasks_def Let_def)
  next
    case (set_cap n)
    have "desired_seats p' \<le> peak" using set_cap by (simp add: desired_seats_def)
    moreover have sel: "pn_load_balancer p' = pn_load_balancer p" "pn_worker_seats p' = pn_worker_seats p" "pn_running_workers p' = pn_running_workers p"
      using set_cap by simp_all
    ultimately show ?thesis using assms(2) unfolding seats_ok_def sel by blast
  qed (auto intro!: keep simp: seat_part_def request_route_goal_def)
qed

lemma panel_steps_ok: "(panel_step peak)\<^sup>*\<^sup>* p p' \<Longrightarrow> seats_ok peak L p \<Longrightarrow> seats_ok peak L p'"
  by (induction rule: rtranclp_induct) (auto intro: panel_step_ok)

text \<open>The running tasks and the lost seats fit into the seats below the peak.\<close>

lemma seats_bound:
  assumes "seats_ok peak L p"
  shows "length (pn_running_workers p) + card L \<le> unat peak"
proof -
  define seat where "seat = (\<lambda>i. the (map_of (pn_worker_seats p) i))"
  let ?run = "set (pn_running_workers p)"
  have held: "map_of (pn_worker_seats p) i = Some (seat i)" if "i \<in> ?run" for i
  proof -
    have "i \<in> fst ` set (pn_worker_seats p)" using assms that unfolding seats_ok_def by blast
    then show ?thesis using map_of_eq_None_iff [of "pn_worker_seats p" i] by (auto simp: seat_def)
  qed
  have "distinct (map snd (pn_worker_seats p))" using assms by (simp only: seats_ok_def)
  then have inj: "inj_on seat ?run" using held seat_unique [of "pn_worker_seats p"] by (metis inj_onI)
  have used: "seat ` ?run \<subseteq> snd ` set (pn_worker_seats p)" using held held_seat by (metis image_subsetI)
  have off: "seat i \<notin> L" if "i \<in> ?run" for i
    using assms held [OF that] that unfolding seats_ok_def by blast
  have pool: "pool_ok peak (pn_load_balancer p)" using assms by (simp only: seats_ok_def)
  have "s < peak" if "s \<in> seat ` ?run \<union> L" for s
  proof -
    have "busy (pn_load_balancer p) s" using assms used that unfolding seats_ok_def by blast
    then show ?thesis by (rule busy_below [OF pool])
  qed
  then have "unat ` (seat ` ?run \<union> L) \<subseteq> {..<unat peak}" by (auto simp: word_less_nat_alt)
  moreover have inj_unat: "inj_on (unat :: u64 \<Rightarrow> nat) A" for A by (simp add: inj_on_def word_unat_eq_iff)
  ultimately have "card (seat ` ?run \<union> L) \<le> unat peak"
    by (metis card_image card_lessThan card_mono finite_lessThan)
  moreover have "finite (seat ` ?run)" "finite L" by simp_all
  moreover have "seat ` ?run \<inter> L = {}" using off by blast
  ultimately have "card (seat ` ?run) + card L \<le> unat peak" by (metis card_Un_disjoint)
  moreover have "card (seat ` ?run) = length (pn_running_workers p)"
    using assms inj by (simp add: card_image distinct_card seats_ok_def)
  ultimately show ?thesis by simp
qed

text \<open>A run of the panel from its opening, resets of the runtime included.\<close>

definition panel_run :: "u64 \<Rightarrow> OrchestratorPanel \<Rightarrow> bool" where
  "panel_run peak p \<longleftrightarrow> (\<lambda>q q'. panel_step peak q q' \<or> q' = reset_runtime q)\<^sup>*\<^sup>* panel_new p"

lemma panel_new_ok: "8 \<le> peak \<Longrightarrow> seats_ok peak {} panel_new"
  by (simp add: seats_ok_def panel_new_def pool_ok_def balancer_ops_ok balancer_new_def desired_seats_def
      DEFAULT_MAX_CONCURRENT_WORKERS_def order_trans [of _ "8 :: u64"])
    (simp add: get_worker_load_def balancer_ok_def)

lemma reset_runtime_ok: "seats_ok peak L p \<Longrightarrow> seats_ok peak {} (reset_runtime p)"
  by (auto simp: seats_ok_def reset_runtime_def pool_ok_def balancer_ops_ok desired_seats_def)

lemma panel_run_ok:
  assumes "panel_run peak p" "8 \<le> peak"
  shows "seats_ok peak {} p"
  using assms(1) unfolding panel_run_def
proof (induction rule: rtranclp_induct)
  case base
  show ?case by (rule panel_new_ok [OF assms(2)])
next
  case (step q q')
  then show ?case using panel_step_ok reset_runtime_ok by blast
qed

text \<open>
  C22. Running tasks sit apart.  Whatever is ok to a panel, in any order, with polls that find any
  workers finished or hung, distinct running tasks hold distinct seats of the balancer, each of
  them counted busy with exactly one task, and no more tasks run than the highest cap on
  concurrent workers that was set.
\<close>

theorem seats_apart:
  assumes "panel_run peak p" "8 \<le> peak"
  shows "distinct (pn_running_workers p) \<and> length (pn_running_workers p) \<le> unat peak
    \<and> (\<exists>seat. inj_on seat (set (pn_running_workers p)) \<and> (\<forall>i\<in>set (pn_running_workers p).
         map_of (pn_worker_seats p) i = Some (seat i)
         \<and> (\<exists>w. get_worker_load (seat i) (pn_load_balancer p) = Some w \<and> wl_active_tasks w = 1 \<and> wl_max_capacity w = 1)))"
proof -
  note inv = panel_run_ok [OF assms]
  have held: "\<exists>s. map_of (pn_worker_seats p) i = Some s" if "i \<in> set (pn_running_workers p)" for i
    using inv that map_of_eq_None_iff [of "pn_worker_seats p" i] unfolding seats_ok_def by blast
  define seat where "seat = (\<lambda>i. the (map_of (pn_worker_seats p) i))"
  have seat: "map_of (pn_worker_seats p) i = Some (seat i)" if "i \<in> set (pn_running_workers p)" for i
    using held [OF that] by (auto simp: seat_def)
  have "distinct (map snd (pn_worker_seats p))" using inv by (simp only: seats_ok_def)
  then have "inj_on seat (set (pn_running_workers p))" using seat seat_unique [of "pn_worker_seats p"] by (metis inj_onI)
  moreover have "\<exists>w. get_worker_load (seat i) (pn_load_balancer p) = Some w \<and> wl_active_tasks w = 1 \<and> wl_max_capacity w = 1"
    if "i \<in> set (pn_running_workers p)" for i
  proof -
    have "pool_ok peak (pn_load_balancer p)" "busy (pn_load_balancer p) (seat i)"
      using inv held_seat [OF seat [OF that]] unfolding seats_ok_def by blast+
    then show ?thesis by (auto simp: busy_def pool_ok_def seat_ok_def)
  qed
  ultimately show ?thesis using inv seats_bound [OF inv] seat by (auto simp: seats_ok_def)
qed

section \<open>Seats that are lost\<close>

text \<open>A panel whose cap on workers is set to \<open>n\<close> before anything else, and never raised above it.\<close>

definition capped_run :: "u64 \<Rightarrow> OrchestratorPanel \<Rightarrow> bool" where
  "capped_run n p \<longleftrightarrow> (\<lambda>q q'. panel_step (max n 1) q q' \<or> q' = reset_runtime q)\<^sup>*\<^sup>* (panel_new\<lparr>pn_max_concurrent_workers := n\<rparr>) p"

lemma capped_run_ok:
  assumes "capped_run n p"
  shows "seats_ok (max n 1) {} p"
  using assms unfolding capped_run_def
proof (induction rule: rtranclp_induct)
  case base
  show ?case
    by (simp add: seats_ok_def panel_new_def pool_ok_def balancer_ops_ok balancer_new_def desired_seats_def)
      (simp add: get_worker_load_def balancer_ok_def)
next
  case (step q q')
  then show ?case using panel_step_ok reset_runtime_ok by blast
qed

text \<open>
  C27. A plan that is replaced while workers run takes their seats with it.  Let the cap on workers be
  set to \<open>n\<close> at the start and never above it (a cap of zero counts as one).  When \<open>k\<close> tasks run and
  the plan is cleared or routed anew, then until the runtime is reset at most the cap less \<open>k\<close> tasks
  ever run again, whatever else is done to the panel; if as many tasks ran as the cap allows, nothing
  runs any more.
\<close>

theorem replaced_plan_starves:
  assumes "capped_run n p"
    and "p1 \<in> {clear_plan p, set_routed_tasks goal kind scope_count tasks p}" "(panel_step (max n 1))\<^sup>*\<^sup>* p1 p2"
  shows "length (pn_running_workers p2) + length (pn_running_workers p) \<le> unat (max n 1)
    \<and> (length (pn_running_workers p) = unat (max n 1) \<longrightarrow> pn_running_workers p2 = [])"
proof -
  note inv = capped_run_ok [OF assms(1)]
  let ?lost = "seats_of (pn_running_workers p) p"
  have part: "seat_part p1 = (pn_load_balancer p, pn_worker_seats p, [], pn_max_concurrent_workers p)"
    using assms(2) by (auto simp: seat_part_def clear_plan_def set_routed_tasks_def Let_def)
  have "seats_ok (max n 1) ({} \<union> ?lost) p1" by (rule drop_workers [OF inv part]) auto
  then have "seats_ok (max n 1) ?lost p1" by simp
  from seats_bound [OF panel_steps_ok [OF assms(3) this]]
  have "length (pn_running_workers p2) + card ?lost \<le> unat (max n 1)" .
  moreover have "card ?lost = length (pn_running_workers p)"
  proof -
    define seat where "seat = (\<lambda>i. the (map_of (pn_worker_seats p) i))"
    have seat: "map_of (pn_worker_seats p) i = Some (seat i)" if "i \<in> set (pn_running_workers p)" for i
      using inv that map_of_eq_None_iff [of "pn_worker_seats p" i] unfolding seats_ok_def by (force simp: seat_def)
    have "distinct (map snd (pn_worker_seats p))" using inv by (simp only: seats_ok_def)
    then have "inj_on seat (set (pn_running_workers p))" using seat seat_unique [of "pn_worker_seats p"] by (metis inj_onI)
    moreover have "?lost = seat ` set (pn_running_workers p)" using seat by (auto simp: seats_of_def)
    moreover have "distinct (pn_running_workers p)" using inv by (simp only: seats_ok_def)
    ultimately show ?thesis by (simp add: card_image distinct_card)
  qed
  ultimately show ?thesis by auto
qed

end
