(* ===== verification/Panel_Polls.thy ===== *)
theory Panel_Polls
  imports Panel_Seats
begin

text \<open>
  The plan under the actions of the orchestrator panel: it stays runnable, so the propagation of
  blocked tasks ends and every poll returns.
\<close>

section \<open>Plans stay runnable and polls return\<close>

lemma set_output_ids [simp]: "task_ids (set_output text g i) = task_ids g"
proof -
  have "i \<in> set (map fst (tg_tasks g))" if "map_of (tg_tasks g) i = Some t" for t
    using map_of_SomeD [OF that] by force
  then show ?thesis by (simp add: set_output_def task_ids_def task_get_def update_keys split: option.split)
qed

lemma set_output_runnable: "runnable g \<Longrightarrow> runnable (set_output text g i)"
proof -
  assume ok: "runnable g"
  have deps: "deps_of (set_output text g i) j = deps_of g j" for j
    by (simp add: set_output_def deps_of_def task_get_def update_conv' split: option.split)
  have "schedulable (set_output text g i) j" if "schedulable g j" for j
    by (rule schedulable_mono [OF that]) (simp add: deps)
  with ok show ?thesis by (simp add: runnable_def set_output_ok)
qed

lemma graph_kept [simp]:
  "pn_graph (set_task_status i s p) = pn_graph p" "pn_graph (with_registry p) = pn_graph p"
  "pn_graph (refresh_runtime_status p) = pn_graph p" "pn_graph (snd (bind_unbound_tasks sm p)) = pn_graph p"
  "pn_graph (snd (watch_workers env p)) = pn_graph p" "pn_graph (release_seat f now i ms ok p) = pn_graph p"
  "pn_graph (sync_seat_pool p) = pn_graph p" "pn_graph (request_route_goal goal p) = pn_graph p"
  by (simp_all add: set_task_status_def with_registry_def refresh_runtime_status_def bind_unbound_tasks_def
      watch_workers_def release_seat_def sync_seat_pool_def request_route_goal_def Let_def split_beta split: option.splits)

lemma settle_finished_runnable: "runnable (pn_graph p) \<Longrightarrow> runnable (pn_graph (settle_finished env (i, r) p))"
proof -
  assume ok: "runnable (pn_graph p)"
  define q where "q = release_seat (pe_ops env) (pe_now env) i (pe_millis env (wk_duration r)) (wk_success r)
    (p\<lparr>pn_running_workers := filter (\<lambda>j. j \<noteq> i) (pn_running_workers p)\<rparr>)"
  have q: "pn_graph q = pn_graph p" by (simp add: q_def)
  have "settle_finished env (i, r) p = (case pn_registry q of
      None \<Rightarrow> q
    | Some reg \<Rightarrow> (case settle_result (pe_check env i) i r (pn_graph q) reg of (g, reg1) \<Rightarrow> q\<lparr>pn_graph := g, pn_registry := Some reg1\<rparr>))"
    by (simp only: settle_finished_def Let_def q_def prod.case)
  moreover have "runnable (fst (settle_result chk i r (pn_graph q) reg))" for chk reg
    using ok by (simp add: settle_result_def Let_def q set_output_runnable)
  ultimately show ?thesis using ok q by (simp add: split_beta split: option.split)
qed

lemma settle_finished_registry: "pn_registry p \<noteq> None \<Longrightarrow> pn_registry (settle_finished env (i, r) p) \<noteq> None"
  by (simp add: settle_finished_def Let_def split_beta release_seat_def split: option.split)

lemma dispatch_graph [simp]: "pn_graph (dispatch_one env i p) = pn_graph p"
  by (simp add: dispatch_one_def Let_def split: option.split sum.split prod.split)

lemma fail_hung_graph [simp]: "pn_graph (fail_hung env e p) = pn_graph p"
  by (simp add: fail_hung_def Let_def split_beta split: option.split)

lemma phases_graph [simp]: "pn_graph (dispatch_phase env p) = pn_graph p" "pn_graph (watchdog_phase env p) = pn_graph p"
proof -
  have "pn_graph (fold (dispatch_one env) is q) = pn_graph q" for "is" q by (induction "is" arbitrary: q) auto
  then show "pn_graph (dispatch_phase env p) = pn_graph p" by (simp add: dispatch_phase_def Let_def)
  have "pn_graph (fold (fail_hung env) es q) = pn_graph q" for es q by (induction es arbitrary: q) auto
  then show "pn_graph (watchdog_phase env p) = pn_graph p" by (simp add: watchdog_phase_def split_beta)
qed

lemma propagate_returns: "runnable g \<Longrightarrow> \<exists>reg'. propagate_blocked_dependents g reg = Some reg'"
proof -
  assume ok: "runnable g"
  then have g: "graph_ok g" "acyclic (dep_rel g)" using runnable_acyclic by (auto simp: runnable_def detect_cycle_iff)
  from all_tasks_settle [OF this]
  obtain S N where "set (task_ids g) \<subseteq> S" "all_settled g reg S ((pass g ^^ N) reg)" by blast
  from propagate_reaches [OF g(1) this] show ?thesis by blast
qed

lemma poll_runnable:
  assumes "runnable (pn_graph p)"
  shows "\<exists>p'. poll_live_workers env p = Some p' \<and> runnable (pn_graph p')"
proof -
  define p0 where "p0 = with_registry p"
  define p1 where "p1 = fold (settle_finished env) (finished_workers env p0) p0"
  have fold: "runnable (pn_graph (fold (settle_finished env) es q)) \<and> pn_registry (fold (settle_finished env) es q) \<noteq> None"
    if "runnable (pn_graph q)" "pn_registry q \<noteq> None" for es q
    using that
  proof (induction es arbitrary: q)
    case (Cons e es)
    obtain i r where e: "e = (i, r)" by (metis surj_pair)
    have "runnable (pn_graph (settle_finished env (i, r) q))" by (rule settle_finished_runnable [OF Cons.prems(1)])
    moreover have "pn_registry (settle_finished env (i, r) q) \<noteq> None" by (rule settle_finished_registry [OF Cons.prems(2)])
    ultimately show ?case using Cons.IH e by simp
  qed simp
  have "pn_registry p0 \<noteq> None" by (simp add: p0_def with_registry_def split: option.split)
  from fold [OF _ this, of "finished_workers env p0"] assms
  obtain reg where p1: "runnable (pn_graph p1)" "pn_registry p1 = Some reg" by (auto simp: p1_def p0_def)
  obtain reg1 where r1: "propagate_blocked_dependents (pn_graph p1) reg = Some reg1" using propagate_returns [OF p1(1)] by blast
  obtain g reg2 where g: "complete_reconcile_root (pn_graph p1) reg1 = (g, reg2)" by (metis surj_pair)
  have "runnable (fst (complete_reconcile_root (pn_graph p1) reg1))"
    using p1(1) by (simp add: complete_reconcile_root_def Let_def set_output_runnable split: option.split)
  then have "runnable g" using g by simp
  then show ?thesis using p1(2) r1 g by (simp add: poll_live_workers_def p0_def [symmetric] p1_def [symmetric] Let_def)
qed

lemma panel_step_runnable:
  assumes "panel_step peak p p'" "runnable (pn_graph p)"
  shows "runnable (pn_graph p')"
proof -
  have polled: "runnable (pn_graph r)" if "poll_live_workers env q = Some r" "pn_graph q = pn_graph p" for env q r
    using poll_runnable [of q env] that assms(2) by simp
  have added: "runnable (pn_graph (snd (add_task title desc scope deps kind p)))" if left: "fst (next_task_id p) \<noteq> 0" for title desc scope deps kind
  proof (cases "trim title = [] \<or> \<not> set deps \<subseteq> set (task_ids (pn_graph p))")
    case True
    then have "List.find (\<lambda>d. d \<notin> set (task_ids (pn_graph p))) deps \<noteq> None \<or> trim title = []" using find_missing [of "set (task_ids (pn_graph p))" deps] by blast
    then have "snd (add_task title desc scope deps kind p) = p" by (auto simp: add_task_def)
    with assms(2) show ?thesis by simp
  next
    case False
    let ?i = "fst (next_task_id p)"
    let ?g = "graph_add ?i (trim title) desc (map slashed scope) deps None (pn_graph p)"
    have ok: "runnable ?g" using False by (intro add_fresh_runnable [OF assms(2) next_task_id_fresh(2) [OF left]]) simp
    have none: "List.find (\<lambda>d. d \<notin> set (task_ids (pn_graph p))) deps = None" using False by (simp add: find_missing)
    have "pn_graph (snd (add_task title desc scope deps kind p)) = ?g"
      using False none runnable_acyclic [OF ok] by (simp add: add_task_def split_beta next_task_id_sel Let_def split: option.split)
    with ok show ?thesis by simp
  qed
  show ?thesis using assms(1)
  proof cases
    case (poll env)
    show ?thesis by (rule polled [OF poll refl])
  next
    case (start env)
    show ?thesis by (rule polled [OF start [unfolded start_execution_def]]) simp
  next
    case (retry_all env)
    then show ?thesis using retry_blocked_cases [OF retry_all] polled assms(2) by metis
  next
    case (retry env i ok)
    from retry_task_cases [OF retry] show ?thesis
    proof
      assume "p' = with_registry p"
      with assms(2) show ?thesis by simp
    qed (use polled in blast)
  next
    case (reset_one i ok)
    then show ?thesis using reset_task_part(1) [OF reset_one] assms(2) by simp
  next
    case (stop cancelled i ok)
    then show ?thesis using assms(2) by (auto simp: stop_task_def split: if_splits)
  next
    case (send sent i ok)
    then show ?thesis using assms(2) by (auto simp: send_task_note_def split: if_splits)
  next
    case (add title desc scope deps kind r)
    then show ?thesis using added [OF add(1), of title desc scope deps kind] by simp
  next
    case (add_draft r)
    from add_draft_cases [OF add_draft(2)] show ?thesis
    proof (elim disjE exE conjE)
      fix title desc scope deps kind q
      assume "snd (add_task title desc scope deps kind p) = q"
      with added [OF add_draft(1), of title desc scope deps kind] have "runnable (pn_graph q)" by simp
      then show "p' = q \<Longrightarrow> ?thesis" "p' = q\<lparr>pn_draft := draft_default\<rparr> \<Longrightarrow> ?thesis" by simp_all
    qed (simp add: assms(2))
  next
    case (remove i ok)
    note part = remove_task_part [OF remove]
    show ?thesis
    proof (cases ok)
      case True
      show ?thesis unfolding part(2) [OF True] by (rule remove_runnable [OF assms(2)])
    next
      case False
      show ?thesis unfolding part(1) [OF False] by (rule assms(2))
    qed
  next
    case clear
    show ?thesis unfolding clear by (simp add: clear_plan_def graph_empty_def runnable_empty)
  next
    case (repair removed)
    then show ?thesis using repair_runnable [OF assms(2) repair] by blast
  next
    case (route tasks goal kind scope_count)
    show ?thesis unfolding route(1) using routed_runnable [OF route(2)] by (simp add: set_routed_tasks_def Let_def)
  qed (use assms(2) in auto)
qed

lemma panel_run_runnable: "panel_run peak p \<Longrightarrow> runnable (pn_graph p)"
  unfolding panel_run_def
proof (induction rule: rtranclp_induct)
  case base
  show ?case by (simp add: panel_new_def graph_empty_def runnable_empty)
next
  case (step q q')
  then show ?case using panel_step_runnable by (auto simp: reset_runtime_def)
qed

text \<open>
  C26. Plans stay runnable and polls return.  Whatever is done to a panel, its dependencies have no
  cycle and name tasks of the plan, so that the plan covers every task; and a poll of it, with any
  workers finished or hung, returns: the propagation of blocked tasks, which does not end on a
  cycle, always ends here.
\<close>

theorem polls_return:
  assumes "panel_run peak p"
  shows "\<not> detect_cycle (pn_graph p) \<and> set (concat (plan_with_conflicts (pn_graph p) groups)) = set (task_ids (pn_graph p))
    \<and> (\<exists>p'. poll_live_workers env p = Some p')"
  using panel_run_runnable [OF assms] runnable_acyclic [of "pn_graph p"] runnable_plan [of "pn_graph p" groups] poll_runnable [of p env]
  by blast

end
