(* ===== verification/Panel_Watchdog.thy ===== *)
theory Panel_Watchdog
  imports Panel_Polls
begin

text \<open>
  The watchdog of the orchestrator panel: a worker without progress is asked to stop and then given
  up, whatever the other workers do.  What a poll does to one task is followed through its phases, and
  then through any sequence of polls.
\<close>

section \<open>One task through a poll\<close>

definition status_in :: "OrchestratorPanel \<Rightarrow> TaskId \<Rightarrow> TaskStatus option" where
  "status_in p i = Option.bind (pn_registry p) (\<lambda>reg. status_of reg i)"

text \<open>What of a panel concerns a task while it runs.\<close>

definition view :: "TaskId \<Rightarrow> OrchestratorPanel \<Rightarrow> bool \<times> WorkerWatchdog option \<times> u64 option \<times> TaskStatus option" where
  "view i p = (i \<in> set (pn_running_workers p), map_of (pn_worker_watchdog p) i, map_of (pn_worker_seats p) i, status_in p i)"

lemma view_release [simp]: "i \<noteq> j \<Longrightarrow> view i (release_seat f now j ms ok p) = view i p"
  by (simp add: view_def release_seat_def status_in_def delete_conv' split: option.split)

lemma view_status [simp]: "i \<noteq> j \<Longrightarrow> view i (set_task_status j s p) = view i p"
  by (cases "pn_registry p") (simp_all add: view_def set_task_status_def status_in_def)

lemma view_fail_hung: "i \<noteq> fst e \<Longrightarrow> view i (fail_hung env e p) = view i p"
proof -
  assume other: "i \<noteq> fst e"
  obtain j reason where e: "e = (j, reason)" by (metis surj_pair)
  define q where "q = p\<lparr>pn_running_workers := filter (\<lambda>k. k \<noteq> j) (pn_running_workers p), pn_worker_watchdog := AList.delete j (pn_worker_watchdog p)\<rparr>"
  have "view i q = view i p" using other e by (simp add: q_def view_def delete_conv' status_in_def)
  moreover have "fail_hung env e p = (let p2 = release_seat (pe_ops env) (pe_now env) j (Fin 0) False q in
      case task_get (pn_graph p2) j of None \<Rightarrow> p2
      | Some t \<Rightarrow> set_task_status j (TFailed (blocked_by t (''worker hung: '' @ reason @ ''; cancelled by watchdog''))) p2)"
    by (simp only: fail_hung_def e q_def Let_def prod.case)
  ultimately show ?thesis using other e by (simp add: Let_def split: option.split)
qed

lemma fold_fail_hung_view: "i \<notin> set (map fst es) \<Longrightarrow> view i (fold (fail_hung env) es p) = view i p"
  by (induction es arbitrary: p) (auto simp: view_fail_hung)

lemma view_settle: "i \<noteq> fst e \<Longrightarrow> fst (view i (settle_finished env e p)) = fst (view i p)"
  "pn_worker_watchdog (settle_finished env e p) = pn_worker_watchdog p"
  by (simp_all add: view_def settle_finished_def release_seat_def Let_def split_beta split: option.split)

lemma view_dispatch: "i \<noteq> j \<Longrightarrow> view i (dispatch_one env j p) = view i p"
proof -
  assume other: "i \<noteq> j"
  have "view i ((set_task_status j s q)\<lparr>pn_worker_seats := AList.update j seat (pn_worker_seats p), pn_running_workers := pn_running_workers p @ [j]\<rparr>)
      = view i p"
    if "pn_worker_seats q = pn_worker_seats p" "pn_running_workers q = pn_running_workers p" "pn_worker_watchdog q = pn_worker_watchdog p"
      "pn_registry q = pn_registry p" for s q seat
    using other that by (cases "pn_registry p") (simp_all add: view_def set_task_status_def status_in_def update_conv')
  then show ?thesis using other
    by (simp add: dispatch_one_def split: option.split sum.split prod.split) (simp add: view_def status_in_def)
qed

lemma running_dispatch: "set (pn_running_workers p) \<subseteq> set (pn_running_workers (dispatch_one env j p))"
  "pn_worker_watchdog (dispatch_one env j p) = pn_worker_watchdog p"
  by (auto simp: dispatch_one_def set_task_status_def split: option.split sum.split prod.split)

lemma dispatch_phase_view:
  assumes "i \<notin> set (dispatch_wave env p)"
  shows "view i (dispatch_phase env p) = view i p"
proof -
  have "view i (fold (dispatch_one env) wave q) = view i q" if "i \<notin> set wave" for wave q
    using that by (induction wave arbitrary: q) (auto simp: view_dispatch)
  moreover have "view i (sync_seat_pool (snd (bind_unbound_tasks (pe_bind_root env) p))) = view i p"
    by (simp add: view_def status_in_def sync_seat_pool_def bind_unbound_tasks_def Let_def)
  moreover have "view i (refresh_runtime_status (q\<lparr>pn_execution_running := b\<rparr>)) = view i q" for q b
    by (simp add: view_def status_in_def refresh_runtime_status_def Let_def)
  ultimately show ?thesis using assms by (simp add: dispatch_phase_def Let_def)
qed

lemma dispatch_phase_running:
  assumes "i \<in> set (pn_running_workers p)"
  shows "i \<in> set (pn_running_workers (dispatch_phase env p))" "pn_worker_watchdog (dispatch_phase env p) = pn_worker_watchdog p"
proof -
  have f: "set (pn_running_workers q) \<subseteq> set (pn_running_workers (fold (dispatch_one env) wave q))
    \<and> pn_worker_watchdog (fold (dispatch_one env) wave q) = pn_worker_watchdog q" for wave q
  proof (induction wave arbitrary: q)
    case (Cons j wave)
    from Cons.IH [of "dispatch_one env j q"] running_dispatch(1) [of q env j] running_dispatch(2) [of env j q] show ?case by auto
  qed simp
  have sel: "pn_running_workers (sync_seat_pool (snd (bind_unbound_tasks (pe_bind_root env) p))) = pn_running_workers p"
    "pn_worker_watchdog (sync_seat_pool (snd (bind_unbound_tasks (pe_bind_root env) p))) = pn_worker_watchdog p"
    by (simp_all add: sync_seat_pool_def bind_unbound_tasks_def Let_def)
  show "i \<in> set (pn_running_workers (dispatch_phase env p))" "pn_worker_watchdog (dispatch_phase env p) = pn_worker_watchdog p"
    using f [of "sync_seat_pool (snd (bind_unbound_tasks (pe_bind_root env) p))" "dispatch_wave env p"] assms sel
    by (auto simp: dispatch_phase_def Let_def refresh_runtime_status_def)
qed

section \<open>The watch\<close>

definition watched :: "poll_env \<Rightarrow> OrchestratorPanel \<Rightarrow> TaskId \<Rightarrow> WorkerWatchdog \<times> (TaskId \<times> string) list" where
  "watched env p i =
     judge (pe_now env) i
       (observe (hard_timeout_for (pn_max_worker_wall_secs p)) (pe_now env) (pe_events env i)
         (case map_of (pn_worker_watchdog p) i of Some w \<Rightarrow> w | None \<Rightarrow> watchdog_new (pe_now env) (pe_events env i)))"

lemma watch_workers_spec:
  assumes "distinct (pn_running_workers p)" "i \<in> set (pn_running_workers p)" "watch_workers env p = (timed_out, p1)"
  shows "map_of (pn_worker_watchdog p1) i = Some (fst (watched env p i))"
    "(i, reason) \<in> set timed_out \<longleftrightarrow> (i, reason) \<in> set (snd (watched env p i))"
proof -
  let ?hard = "hard_timeout_for (pn_max_worker_wall_secs p)"
  define see where "see = (\<lambda>dogs i. judge (pe_now env) i (observe ?hard (pe_now env) (pe_events env i)
     (case map_of dogs i of Some w \<Rightarrow> w | None \<Rightarrow> watchdog_new (pe_now env) (pe_events env i))))"
  have same: "see (AList.update j w dogs) i = see dogs i" if "i \<noteq> j" for j w dogs using that by (simp add: see_def update_conv')
  have other: "(i, reason) \<notin> set (snd (see dogs j))" if "i \<noteq> j" for j dogs
  proof -
    obtain w where "see dogs j = judge (pe_now env) j w" by (simp add: see_def)
    with judge_out [of "pe_now env" j w] that show ?thesis by auto
  qed
  have step: "watch_one env ?hard j (dogs, out) = (AList.update j (fst (see dogs j)) dogs, out @ snd (see dogs j))" for j dogs out
    by (simp add: watch_one_def Let_def split_beta see_def)
  have spec: "map_of (fst (fold (watch_one env ?hard) js (dogs, out))) i =
        (if i \<in> set js then Some (fst (see dogs i)) else map_of dogs i)
      \<and> ((i, reason) \<in> set (snd (fold (watch_one env ?hard) js (dogs, out))) \<longleftrightarrow>
        (i, reason) \<in> set out \<or> i \<in> set js \<and> (i, reason) \<in> set (snd (see dogs i)))"
    if "distinct js" for js dogs out
    using that
  proof (induction js arbitrary: dogs out)
    case (Cons j js)
    have ih: "map_of (fst (fold (watch_one env ?hard) (j # js) (dogs, out))) i =
        (if i \<in> set js then Some (fst (see (AList.update j (fst (see dogs j)) dogs) i)) else map_of (AList.update j (fst (see dogs j)) dogs) i)
      \<and> ((i, reason) \<in> set (snd (fold (watch_one env ?hard) (j # js) (dogs, out))) \<longleftrightarrow>
        (i, reason) \<in> set (out @ snd (see dogs j)) \<or> i \<in> set js \<and> (i, reason) \<in> set (snd (see (AList.update j (fst (see dogs j)) dogs) i)))"
      using Cons.IH [of "AList.update j (fst (see dogs j)) dogs" "out @ snd (see dogs j)"] Cons.prems by (simp only: fold_simps step distinct.simps)
    show ?case
    proof (cases "i = j")
      case True
      then have "i \<notin> set js" using Cons.prems by simp
      then show ?thesis using ih True by (simp add: update_conv' del: fold_simps)
    next
      case False
      then show ?thesis using ih other [OF False, of dogs] same [OF False] by (simp add: update_conv' del: fold_simps)
    qed
  qed simp
  let ?dogs = "filter (\<lambda>(i, _). i \<in> set (pn_running_workers p)) (pn_worker_watchdog p)"
  have "map_of (filter (\<lambda>(k, _). k \<in> A) xs) i = map_of xs i" if "i \<in> A" for A and xs :: "(TaskId \<times> WorkerWatchdog) list"
    using that by (induction xs) auto
  from this [OF assms(2)] have dogs: "map_of ?dogs i = map_of (pn_worker_watchdog p) i" .
  have seen: "see ?dogs i = watched env p i" by (simp only: see_def watched_def dogs)
  have run: "timed_out = snd (fold (watch_one env ?hard) (pn_running_workers p) (?dogs, []))"
    "pn_worker_watchdog p1 = fst (fold (watch_one env ?hard) (pn_running_workers p) (?dogs, []))"
    using assms(3) by (auto simp: watch_workers_def Let_def split_beta)
  from spec [OF assms(1), of ?dogs "[]"] assms(2) show "map_of (pn_worker_watchdog p1) i = Some (fst (watched env p i))"
    "(i, reason) \<in> set timed_out \<longleftrightarrow> (i, reason) \<in> set (snd (watched env p i))"
    unfolding run seen by auto
qed

section \<open>A worker without progress is given up\<close>

lemma settle_frame:
  "pn_max_worker_wall_secs (settle_finished env e p) = pn_max_worker_wall_secs p"
  "task_ids (pn_graph (settle_finished env e p)) = task_ids (pn_graph p)"
  by (simp_all add: settle_finished_def release_seat_def settle_result_def Let_def split_beta split: option.split)

lemma poll_phases:
  assumes "seats_ok peak L p" "poll_live_workers env p = Some p'"
  obtains q where "p' = dispatch_phase env (watchdog_phase env q)" "seats_ok peak L q"
    "pn_worker_watchdog q = pn_worker_watchdog p" "pn_max_worker_wall_secs q = pn_max_worker_wall_secs p"
    "task_ids (pn_graph q) = task_ids (pn_graph p)" "pn_registry q \<noteq> None"
    "\<And>i. pe_poll env i = None \<Longrightarrow> i \<in> set (pn_running_workers p) \<Longrightarrow> i \<in> set (pn_running_workers q)"
proof -
  define p0 where "p0 = with_registry p"
  define p1 where "p1 = fold (settle_finished env) (finished_workers env p0) p0"
  have p0: "seats_ok peak L p0" by (rule seats_ok_part [OF assms(1)]) (simp add: p0_def)
  have fin: "distinct (map fst (finished_workers env p0))" "set (map fst (finished_workers env p0)) \<subseteq> set (pn_running_workers p0)"
    using p0 by (auto simp: finished_running seats_ok_def)
  have "seats_ok peak L p1 \<and> set (pn_running_workers p1) = set (pn_running_workers p0) - set (map fst (finished_workers env p0))"
    unfolding p1_def by (rule fold_drop_ok [OF _ p0 fin]) (intro conjI settle_finished_ok)
  then have p1: "seats_ok peak L p1" "set (pn_running_workers p1) = set (pn_running_workers p0) - set (map fst (finished_workers env p0))" by simp_all
  have frame: "pn_worker_watchdog (fold (settle_finished env) es r) = pn_worker_watchdog r
    \<and> pn_max_worker_wall_secs (fold (settle_finished env) es r) = pn_max_worker_wall_secs r
    \<and> task_ids (pn_graph (fold (settle_finished env) es r)) = task_ids (pn_graph r)" for es r
    by (induction es arbitrary: r) (simp_all add: view_settle(2) settle_frame)
  obtain reg reg1 g reg2 where r: "pn_registry p1 = Some reg" "complete_reconcile_root (pn_graph p1) reg1 = (g, reg2)"
      "p' = dispatch_phase env (watchdog_phase env (p1\<lparr>pn_graph := g, pn_registry := Some reg2\<rparr>))"
    using assms(2) unfolding poll_live_workers_def
    by (auto simp: Let_def p0_def [symmetric] p1_def [symmetric] split: option.splits prod.splits)
  have "task_ids (fst (complete_reconcile_root (pn_graph p1) reg1)) = task_ids (pn_graph p1)"
    by (simp add: complete_reconcile_root_def Let_def split: option.split)
  then have ids: "task_ids g = task_ids (pn_graph p1)" using r(2) by simp
  have sel0: "pn_worker_watchdog p0 = pn_worker_watchdog p" "pn_max_worker_wall_secs p0 = pn_max_worker_wall_secs p"
    by (simp_all add: p0_def with_registry_def split: option.split)
  show thesis
  proof (rule that [OF r(3)])
    show "seats_ok peak L (p1\<lparr>pn_graph := g, pn_registry := Some reg2\<rparr>)" by (rule seats_ok_part [OF p1(1)]) (simp add: seat_part_def)
    show "i \<in> set (pn_running_workers (p1\<lparr>pn_graph := g, pn_registry := Some reg2\<rparr>))"
      if "pe_poll env i = None" "i \<in> set (pn_running_workers p)" for i
      using that p1(2) by (simp add: finished_running p0_def del: set_map)
  qed (use frame [of "finished_workers env p0" p0] sel0 ids in \<open>simp_all add: p1_def [symmetric]\<close>, simp add: p0_def)
qed

lemma accept_free_subset: "set (accept_free g groups acc js) \<subseteq> set acc \<union> set js"
proof (induction js arbitrary: acc)
  case (Cons j js)
  from Cons.IH [of "acc @ [j]"] Cons.IH [of acc] show ?case by auto
qed simp

lemma failed_not_dispatched:
  assumes "status_in p i = Some (TFailed r)"
  shows "i \<notin> set (dispatch_wave env p)"
proof (cases "pn_registry p")
  case (Some reg)
  have "i \<notin> set (ready_ids reg (pn_graph p))"
    using assms Some by (auto simp: ready_ids_def Let_def status_in_def is_waiting_def)
  then show ?thesis using Some accept_free_subset [of "pn_graph p" "pe_groups env" "[]" "ready_ids reg (pn_graph p)"]
    by (auto simp: dispatch_wave_def Let_def ready_ids_conflict_aware_def)
qed (simp add: dispatch_wave_def)

lemma fail_hung_view:
  assumes "pn_registry p \<noteq> None" "i \<in> set (task_ids (pn_graph p))" "distinct (map fst (pn_worker_seats p))"
  shows "view i (fail_hung env (i, reason) p) = (False, None, None,
      Some (TFailed (blocked_by (the (task_get (pn_graph p) i)) (''worker hung: '' @ reason @ ''; cancelled by watchdog''))))"
proof -
  define q where "q = p\<lparr>pn_running_workers := filter (\<lambda>k. k \<noteq> i) (pn_running_workers p), pn_worker_watchdog := AList.delete i (pn_worker_watchdog p)\<rparr>"
  define q2 where "q2 = release_seat (pe_ops env) (pe_now env) i (Fin 0) False q"
  obtain t where t: "task_get (pn_graph p) i = Some t"
    using assms(2) unfolding task_ids_def task_get_def by (metis not_None_eq map_of_eq_None_iff set_map)
  have "pn_graph q2 = pn_graph p" by (simp add: q2_def q_def)
  then have run: "fail_hung env (i, reason) p = set_task_status i (TFailed (blocked_by t (''worker hung: '' @ reason @ ''; cancelled by watchdog''))) q2"
    using t by (simp add: fail_hung_def Let_def q_def [symmetric] q2_def [symmetric])
  have "pn_registry q2 = pn_registry p" "i \<notin> set (pn_running_workers q2)" "map_of (pn_worker_watchdog q2) i = None"
    "map_of (pn_worker_seats q2) i = None"
    by (simp_all add: q2_def q_def release_seat_def delete_conv' split: option.split)
  then show ?thesis using assms(1) t unfolding run by (auto simp: view_def set_task_status_def status_in_def)
qed

lemma observe_keeps_reason: "wd_reason w = Some reason \<Longrightarrow> wd_reason (observe hard now n w) = Some reason
  \<and> wd_cancel_sent_at (observe hard now n w) = wd_cancel_sent_at w"
  by (simp add: observe_def Let_def)

text \<open>A worker that is still running and is not timed out goes through a poll with its entry judged.\<close>

lemma watched_through_poll:
  assumes "seats_ok peak {} p" "poll_live_workers env p = Some p'" "pe_poll env i = None" "i \<in> set (pn_running_workers p)"
    and "snd (watched env p i) = []"
  shows "i \<in> set (pn_running_workers p')" "map_of (pn_worker_watchdog p') i = Some (fst (watched env p i))"
    "task_ids (pn_graph p') = task_ids (pn_graph p)" "seats_ok peak {} p'"
proof -
  obtain q where q: "p' = dispatch_phase env (watchdog_phase env q)" "seats_ok peak {} q"
    "pn_worker_watchdog q = pn_worker_watchdog p" "pn_max_worker_wall_secs q = pn_max_worker_wall_secs p"
    "task_ids (pn_graph q) = task_ids (pn_graph p)" "i \<in> set (pn_running_workers q)"
    using poll_phases [OF assms(1,2)] assms(3,4) by metis
  have same: "watched env q i = watched env p i" by (simp only: watched_def q(3,4))
  obtain out q1 where w: "watch_workers env q = (out, q1)" by (metis surj_pair)
  have dq: "distinct (pn_running_workers q)" using q(2) by (simp only: seats_ok_def)
  note see = watch_workers_spec [OF dq q(6) w, unfolded same]
  have notout: "i \<notin> set (map fst out)" using see(2) assms(5) by auto
  have wp: "watchdog_phase env q = fold (fail_hung env) out q1" by (simp add: watchdog_phase_def w)
  have "view i (watchdog_phase env q) = view i q1" unfolding wp by (rule fold_fail_hung_view [OF notout])
  moreover have "pn_running_workers q1 = pn_running_workers q" using running_kept(3) [of env q] w by simp
  ultimately have ph: "i \<in> set (pn_running_workers (watchdog_phase env q))"
    "map_of (pn_worker_watchdog (watchdog_phase env q)) i = Some (fst (watched env p i))"
    using see(1) q(6) by (simp_all add: view_def)
  show "i \<in> set (pn_running_workers p')" "map_of (pn_worker_watchdog p') i = Some (fst (watched env p i))"
    "task_ids (pn_graph p') = task_ids (pn_graph p)" "seats_ok peak {} p'"
    using dispatch_phase_running [OF ph(1), of env] ph(2) q(5) poll_ok [OF assms(1,2)] by (simp_all add: q(1))
qed

text \<open>A worker that is timed out in a poll runs no more after it, holds no seat and has failed.\<close>

lemma timed_out_through_poll:
  assumes "seats_ok peak {} p" "poll_live_workers env p = Some p'" "pe_poll env i = None" "i \<in> set (pn_running_workers p)"
    and "i \<in> set (task_ids (pn_graph p))" "snd (watched env p i) = [(i, reason)]"
  shows "\<exists>t. view i p' = (False, None, None, Some (TFailed (blocked_by t (''worker hung: '' @ reason @ ''; cancelled by watchdog''))))"
proof -
  obtain u where u: "p' = dispatch_phase env (watchdog_phase env u)" "seats_ok peak {} u"
    "pn_worker_watchdog u = pn_worker_watchdog p" "pn_max_worker_wall_secs u = pn_max_worker_wall_secs p"
    "task_ids (pn_graph u) = task_ids (pn_graph p)" "i \<in> set (pn_running_workers u)" "pn_registry u \<noteq> None"
    using poll_phases [OF assms(1,2)] assms(3,4) by metis
  have same: "watched env u i = watched env p i" by (simp only: watched_def u(3,4))
  obtain out u1 where w: "watch_workers env u = (out, u1)" by (metis surj_pair)
  have du: "distinct (pn_running_workers u)" using u(2) by (simp only: seats_ok_def)
  note see = watch_workers_spec [OF du u(6) w, unfolded same]
  have "(i, reason) \<in> set out" using see(2) assms(6) by simp
  then obtain as bs where out: "out = as @ (i, reason) # bs" by (metis split_list)
  have "distinct (map fst out)" by (rule timed_out_running(1) [OF du w])
  then have bs: "i \<notin> set (map fst bs)" by (simp add: out)
  define v where "v = fold (fail_hung env) as u1"
  have u1: "pn_graph u1 = pn_graph u" "pn_registry u1 = pn_registry u" "pn_worker_seats u1 = pn_worker_seats u"
    using w by (auto simp: watch_workers_def Let_def split_beta)
  have reg: "pn_registry (fold (fail_hung env) es x) \<noteq> None" if "pn_registry x \<noteq> None" for es x
    using that by (induction es arbitrary: x) (auto simp: fail_hung_def Let_def split_beta release_seat_def set_task_status_def split: option.splits)
  have seats: "distinct (map fst (pn_worker_seats (fold (fail_hung env) es x)))" if "distinct (map fst (pn_worker_seats x))" for es x
    using that by (induction es arbitrary: x)
      (auto simp: fail_hung_def Let_def split_beta release_seat_def set_task_status_def distinct_delete split: option.split)
  have graph: "pn_graph v = pn_graph u" unfolding v_def u1(1) [symmetric] by (induction as arbitrary: u1) auto
  have "distinct (map fst (pn_worker_seats u1))" using u(2) by (simp add: u1(3) seats_ok_def)
  then have v: "pn_registry v \<noteq> None" "i \<in> set (task_ids (pn_graph v))" "distinct (map fst (pn_worker_seats v))"
    using reg [of u1 as] seats [of u1 as] u(5,7) assms(5) by (simp_all add: v_def [symmetric] graph u1(2))
  have "view i (watchdog_phase env u) = view i (fail_hung env (i, reason) v)"
    using fold_fail_hung_view [OF bs] by (simp add: watchdog_phase_def w out v_def)
  note gone = this [unfolded fail_hung_view [OF v]]
  then have "i \<notin> set (dispatch_wave env (watchdog_phase env u))" by (intro failed_not_dispatched) (simp add: view_def)
  from dispatch_phase_view [OF this] gone show ?thesis unfolding u(1) by (intro exI) (rule trans)
qed

section \<open>A failed task through a poll\<close>

lemma propagate_keeps_hard:
  assumes "propagate_blocked_dependents g reg = Some reg'" "\<not> soft reg i"
  shows "status_of reg' i = status_of reg i"
proof -
  have one: "status_of (snd (visit t reg)) i = status_of reg i" if "\<not> soft reg i" for t reg
    using that visit_hard [of reg t] visit_other [of i t reg] by (cases "i = ts_id t") simp_all
  have all: "status_of (snd (visit_all ts reg)) i = status_of reg i" if "\<not> soft reg i" for ts reg
    using that
  proof (induction ts arbitrary: reg)
    case (Cons t ts)
    have "\<not> soft (snd (visit t reg)) i" using one [OF Cons.prems] Cons.prems by (simp add: soft_def)
    from Cons.IH [OF this] one [OF Cons.prems] show ?case by (simp add: split_beta)
  qed simp
  have "\<not> soft reg i \<longrightarrow> status_of reg' i = status_of reg i" if "propagate_loop ts reg = Some reg'" for ts reg reg'
  proof (rule propagate_loop.raw_induct [where P = "\<lambda>ts reg reg'. \<not> soft reg i \<longrightarrow> status_of reg' i = status_of reg i", OF _ that])
    fix loop ts reg reg'
    assume IH: "\<And>ts reg reg'. loop ts reg = Some reg' \<Longrightarrow> \<not> soft reg i \<longrightarrow> status_of reg' i = status_of reg i"
      and run: "(case visit_all ts reg of (changed, reg1) \<Rightarrow> if changed then loop ts reg1 else Some reg1) = Some reg'"
    show "\<not> soft reg i \<longrightarrow> status_of reg' i = status_of reg i"
    proof
      assume hard: "\<not> soft reg i"
      obtain c reg1 where v: "visit_all ts reg = (c, reg1)" by (metis surj_pair)
      have r1: "status_of reg1 i = status_of reg i" using all [OF hard, of ts] v by simp
      then have "\<not> soft reg1 i" using hard by (simp add: soft_def)
      with IH [of ts reg1 reg'] run v r1 show "status_of reg' i = status_of reg i" by (cases c) simp_all
    qed
  qed
  with assms show ?thesis unfolding propagate_blocked_dependents_def by blast
qed

lemma view_settle_other: "i \<noteq> fst e \<Longrightarrow> view i (settle_finished env e p) = view i p"
proof -
  assume other: "i \<noteq> fst e"
  obtain j r where e: "e = (j, r)" by (metis surj_pair)
  have settle: "status_of (snd (settle_result d j r g reg)) i = status_of reg i" for d g reg
    using other e by (auto simp: settle_result_def Let_def status_of_def set_status_def update_conv' split: option.split)
  define q where "q = p\<lparr>pn_running_workers := filter (\<lambda>k. k \<noteq> j) (pn_running_workers p)\<rparr>"
  define q2 where "q2 = release_seat (pe_ops env) (pe_now env) j (pe_millis env (wk_duration r)) (wk_success r) q"
  have "view i q = view i p" using other e by (simp add: q_def view_def status_in_def)
  then have q2: "view i q2 = view i p" using other e by (simp add: q2_def)
  have run: "settle_finished env e p = (case pn_registry q2 of None \<Rightarrow> q2
      | Some reg \<Rightarrow> (let (g, reg1) = settle_result (pe_check env j) j r (pn_graph q2) reg in q2\<lparr>pn_graph := g, pn_registry := Some reg1\<rparr>))"
    by (simp only: settle_finished_def e q_def q2_def Let_def prod.case)
  show ?thesis
  proof (cases "pn_registry q2")
    case None
    with run q2 show ?thesis by simp
  next
    case (Some reg)
    obtain g reg1 where sr: "settle_result (pe_check env j) j r (pn_graph q2) reg = (g, reg1)" by (metis surj_pair)
    then have "status_of reg1 i = status_of reg i" using settle by (metis snd_conv)
    with run Some sr q2 show ?thesis by (simp add: view_def status_in_def)
  qed
qed

text \<open>A task that has failed and runs no more stays so.\<close>

definition given_up :: "TaskId \<Rightarrow> OrchestratorPanel \<Rightarrow> bool" where
  "given_up i p \<longleftrightarrow> i \<notin> set (pn_running_workers p) \<and> map_of (pn_worker_seats p) i = None
     \<and> (\<exists>t reason. status_in p i = Some (TFailed (blocked_by t (''worker hung: '' @ reason @ ''; cancelled by watchdog''))))"

lemma given_up_through_poll:
  assumes "given_up i p" "poll_live_workers env p = Some p'" "seats_ok peak {} p"
  shows "given_up i p'"
proof -
  obtain r where r: "i \<notin> set (pn_running_workers p)" "map_of (pn_worker_seats p) i = None" "status_in p i = Some (TFailed r)"
    "\<exists>t reason. r = blocked_by t (''worker hung: '' @ reason @ ''; cancelled by watchdog'')"
    using assms(1) by (auto simp: given_up_def)
  have p0: "with_registry p = p" using r(3) by (auto simp: with_registry_def status_in_def split: option.split)
  define p1 where "p1 = fold (settle_finished env) (finished_workers env p) p"
  have es: "i \<notin> set (map fst (finished_workers env p))" using r(1) unfolding finished_running by simp
  have "view i (fold (settle_finished env) es q) = view i q" if "i \<notin> set (map fst es)" for es q
    using that by (induction es arbitrary: q) (auto simp: view_settle_other)
  from this [OF es] have v1: "view i p1 = view i p" by (simp add: p1_def)
  obtain reg reg1 g reg2 where run: "pn_registry p1 = Some reg" "propagate_blocked_dependents (pn_graph p1) reg = Some reg1"
      "complete_reconcile_root (pn_graph p1) reg1 = (g, reg2)"
      "p' = dispatch_phase env (watchdog_phase env (p1\<lparr>pn_graph := g, pn_registry := Some reg2\<rparr>))"
    using assms(2) unfolding poll_live_workers_def
    by (auto simp: Let_def p0 p1_def [symmetric] split: option.splits prod.splits)
  have "status_in p1 i = status_in p i" using v1 by (simp add: view_def)
  then have s: "status_of reg i = Some (TFailed r)" using run(1) r(3) by (simp add: status_in_def)
  have s1: "status_of reg1 i = Some (TFailed r)" using propagate_keeps_hard [OF run(2), of i] s by (simp add: soft_def)
  have "status_of (snd (complete_reconcile_root (pn_graph p1) reg1)) i = status_of reg1 i"
    using s1 by (auto simp: complete_reconcile_root_def Let_def is_waiting_def split: option.split)
  then have s2: "status_of reg2 i = Some (TFailed r)" using run(3) s1 by simp
  define q where "q = p1\<lparr>pn_graph := g, pn_registry := Some reg2\<rparr>"
  have q: "i \<notin> set (pn_running_workers q)" "map_of (pn_worker_seats q) i = None" "status_in q i = Some (TFailed r)"
    using v1 r(1,2) s2 by (simp_all add: q_def view_def status_in_def)
  obtain out q1 where w: "watch_workers env q = (out, q1)" by (metis surj_pair)
  have keep: "pn_running_workers q1 = pn_running_workers q" "pn_worker_seats q1 = pn_worker_seats q" "pn_registry q1 = pn_registry q"
    using w by (auto simp: watch_workers_def Let_def split_beta)
  have fin: "distinct (map fst (finished_workers env p))" "set (map fst (finished_workers env p)) \<subseteq> set (pn_running_workers p)"
    using assms(3) by (auto simp: finished_running seats_ok_def)
  have "seats_ok peak {} p1" unfolding p1_def
    by (rule conjunct1 [OF fold_drop_ok [OF _ assms(3) fin]]) (intro conjI settle_finished_ok)
  then have "distinct (pn_running_workers q)" by (simp add: q_def seats_ok_def)
  from timed_out_running(2) [OF this w] q(1) have out: "i \<notin> set (map fst out)" by blast
  have "view i (watchdog_phase env q) = view i q1"
    using fold_fail_hung_view [OF out] by (simp add: watchdog_phase_def w)
  then have wd: "i \<notin> set (pn_running_workers (watchdog_phase env q))" "map_of (pn_worker_seats (watchdog_phase env q)) i = None"
    "status_in (watchdog_phase env q) i = Some (TFailed r)"
    using q keep by (simp_all add: view_def status_in_def)
  from dispatch_phase_view [OF failed_not_dispatched [OF wd(3)]] wd r(4) show ?thesis
    unfolding given_up_def run(4) q_def [symmetric] by (auto simp: view_def)
qed

section \<open>The panel polls\<close>

text \<open>The panel polls at every frame; nothing else happens to it in between.\<close>

fun poll_all :: "poll_env list \<Rightarrow> OrchestratorPanel \<Rightarrow> OrchestratorPanel option" where
  "poll_all [] p = Some p"
| "poll_all (env # envs) p = Option.bind (poll_live_workers env p) (poll_all envs)"

lemma poll_all_append: "poll_all (es @ es') p = Option.bind (poll_all es p) (poll_all es')"
  by (induction es arbitrary: p) (auto split: Option.bind_splits)

lemma poll_all_keeps:
  assumes "\<And>e p p'. e \<in> set es \<Longrightarrow> poll_live_workers e p = Some p' \<Longrightarrow> P p \<Longrightarrow> P p'" "poll_all es p = Some p'" "P p"
  shows "P p'"
  using assms
proof (induction es arbitrary: p)
  case (Cons e es)
  from Cons.prems(2) obtain p1 where "poll_live_workers e p = Some p1" "poll_all es p1 = Some p'" by (auto split: Option.bind_splits)
  with Cons show ?case by (metis list.set_intros)
qed simp

text \<open>
  The stages of a silent worker \<open>i\<close> whose last event was seen with \<open>w\<close>: it is still watched, it was
  asked to stop no later than \<open>T\<close>, or it was given up.
\<close>

definition in_plan :: "u64 \<Rightarrow> TaskId \<Rightarrow> OrchestratorPanel \<Rightarrow> bool" where
  "in_plan peak i p \<longleftrightarrow> seats_ok peak {} p \<and> i \<in> set (task_ids (pn_graph p))"

definition still_watched :: "TaskId \<Rightarrow> WorkerWatchdog \<Rightarrow> OrchestratorPanel \<Rightarrow> bool" where
  "still_watched i w p \<longleftrightarrow> i \<in> set (pn_running_workers p)
     \<and> (\<exists>w'. map_of (pn_worker_watchdog p) i = Some w' \<and> wd_reason w' = None \<and> wd_cancel_sent_at w' = None
          \<and> wd_last_activity w' = wd_last_activity w \<and> wd_last_event_count w' = wd_last_event_count w)"

definition asked_to_stop :: "TaskId \<Rightarrow> nat \<Rightarrow> OrchestratorPanel \<Rightarrow> bool" where
  "asked_to_stop i T p \<longleftrightarrow> i \<in> set (pn_running_workers p)
     \<and> (\<exists>w' reason sent. map_of (pn_worker_watchdog p) i = Some w' \<and> wd_reason w' = Some reason
          \<and> wd_cancel_sent_at w' = Some sent \<and> sent \<le> T)"

lemma in_plan_poll:
  assumes "in_plan peak i p" "poll_live_workers e p = Some p'"
  shows "in_plan peak i p'"
proof -
  have "seats_ok peak {} p'" using poll_ok [OF _ assms(2)] assms(1) by (simp add: in_plan_def)
  obtain q where "p' = dispatch_phase e (watchdog_phase e q)" "task_ids (pn_graph q) = task_ids (pn_graph p)"
    using poll_phases [OF _ assms(2)] assms(1) unfolding in_plan_def by metis
  with assms(1) \<open>seats_ok peak {} p'\<close> show ?thesis by (simp add: in_plan_def)
qed

lemma still_watched_poll:
  assumes "in_plan peak i p" "still_watched i w p" "poll_live_workers e p = Some p'"
    and "pe_poll e i = None" "pe_events e i \<le> wd_last_event_count w"
  shows "asked_to_stop i (pe_now e) p' \<or> still_watched i w p' \<and> pe_now e - wd_last_activity w \<le> WORKER_STALL_TIMEOUT"
proof -
  have ok: "seats_ok peak {} p" using assms(1) by (simp add: in_plan_def)
  obtain w' where w': "i \<in> set (pn_running_workers p)" "map_of (pn_worker_watchdog p) i = Some w'" "wd_reason w' = None"
    "wd_cancel_sent_at w' = None" "wd_last_activity w' = wd_last_activity w" "wd_last_event_count w' = wd_last_event_count w"
    using assms(2) by (auto simp: still_watched_def)
  define o1 where "o1 = observe (hard_timeout_for (pn_max_worker_wall_secs p)) (pe_now e) (pe_events e i) w'"
  have o1: "wd_cancel_sent_at o1 = None" "wd_last_activity o1 = wd_last_activity w" "wd_last_event_count o1 = wd_last_event_count w"
    "WORKER_STALL_TIMEOUT < pe_now e - wd_last_activity w \<Longrightarrow> wd_reason o1 \<noteq> None"
    using w'(3-6) assms(5) by (simp_all add: o1_def observe_def Let_def)
  have see: "watched e p i = judge (pe_now e) i o1" using w'(2) by (simp add: watched_def o1_def)
  have nothing: "snd (watched e p i) = []" unfolding see using o1(1) by (simp add: judge_def split: option.split)
  note p' = watched_through_poll(1,2) [OF ok assms(3,4) w'(1) nothing, unfolded see]
  show ?thesis
  proof (cases "wd_reason o1")
    case None
    then have "judge (pe_now e) i o1 = (o1, [])" by (simp add: judge_def)
    with p' None o1 show ?thesis by (auto simp: still_watched_def not_less)
  next
    case (Some reason)
    then have "judge (pe_now e) i o1 = (o1\<lparr>wd_cancel_sent_at := Some (pe_now e)\<rparr>, [])" using o1(1) by (simp add: judge_def)
    with p' Some show ?thesis by (auto simp: asked_to_stop_def)
  qed
qed

lemma asked_to_stop_poll:
  assumes "in_plan peak i p" "asked_to_stop i T p" "poll_live_workers e p = Some p'" "pe_poll e i = None"
  shows "given_up i p' \<or> asked_to_stop i T p' \<and> pe_now e \<le> T + WORKER_CANCEL_GRACE"
proof -
  have ok: "seats_ok peak {} p" "i \<in> set (task_ids (pn_graph p))" using assms(1) by (simp_all add: in_plan_def)
  obtain w' reason sent where w': "i \<in> set (pn_running_workers p)" "map_of (pn_worker_watchdog p) i = Some w'"
    "wd_reason w' = Some reason" "wd_cancel_sent_at w' = Some sent" "sent \<le> T"
    using assms(2) by (auto simp: asked_to_stop_def)
  define o1 where "o1 = observe (hard_timeout_for (pn_max_worker_wall_secs p)) (pe_now e) (pe_events e i) w'"
  have o1: "wd_reason o1 = Some reason" "wd_cancel_sent_at o1 = Some sent"
    using observe_keeps_reason [OF w'(3)] w'(4) by (simp_all add: o1_def)
  have see: "watched e p i = (o1, if WORKER_CANCEL_GRACE < pe_now e - sent then [(i, reason)] else [])"
    using w'(2) o1 by (simp add: watched_def judge_def flip: o1_def)
  show ?thesis
  proof (cases "WORKER_CANCEL_GRACE < pe_now e - sent")
    case True
    then have "snd (watched e p i) = [(i, reason)]" by (simp add: see)
    from timed_out_through_poll [OF ok(1) assms(3,4) w'(1) ok(2) this] show ?thesis by (auto simp: given_up_def view_def)
  next
    case False
    then have "snd (watched e p i) = []" by (simp add: see)
    note p' = watched_through_poll(1,2) [OF ok(1) assms(3,4) w'(1) this, unfolded see fst_conv]
    have "pe_now e \<le> T + WORKER_CANCEL_GRACE" using False w'(5) by linarith
    with p' o1 w'(5) show ?thesis by (auto simp: asked_to_stop_def)
  qed
qed

text \<open>
  C23. A worker that stops making progress is given up.  Take a running task of the plan whose watch
  has seen no reason to stop it yet, and any sequence of polls, as many and as close together as the
  panel makes them, in which its worker never returns and shows no new event up to some poll \<open>b\<close>.
  When at an earlier poll \<open>a\<close> the worker had been silent for more than the stall timeout, with the
  clock not running backwards up to \<open>a\<close>, and \<open>b\<close> comes more than the grace after \<open>a\<close>, then
  after the polls the task runs no more, holds no seat, and has failed with the reason, whatever
  happened to the other tasks; and it stays so in the polls after \<open>b\<close>.
\<close>

theorem hung_worker_given_up:
  assumes "panel_run peak p" "8 \<le> peak" "i \<in> set (pn_running_workers p)" "i \<in> set (task_ids (pn_graph p))"
    and "map_of (pn_worker_watchdog p) i = Some w" "wd_reason w = None" "wd_cancel_sent_at w = None"
    and "poll_all (before @ a # between @ b # rest) p = Some p'"
    and "\<forall>e\<in>set (before @ a # between @ [b]). pe_poll e i = None \<and> pe_events e i \<le> wd_last_event_count w"
    and "\<forall>e\<in>set before. pe_now e \<le> pe_now a"
    and "WORKER_STALL_TIMEOUT < pe_now a - wd_last_activity w" "pe_now a + WORKER_CANCEL_GRACE < pe_now b"
  shows "i \<notin> set (pn_running_workers p') \<and> map_of (pn_worker_seats p') i = None
    \<and> (\<exists>t reason. status_in p' i = Some (TFailed (blocked_by t (''worker hung: '' @ reason @ ''; cancelled by watchdog''))))"
proof -
  let ?late = "\<lambda>q. asked_to_stop i (pe_now a) q \<or> given_up i q"
  let ?silent = "\<lambda>e. pe_poll e i = None \<and> pe_events e i \<le> wd_last_event_count w"
  obtain p1 p2 p3 p4 where run: "poll_all before p = Some p1" "poll_live_workers a p1 = Some p2" "poll_all between p2 = Some p3"
    "poll_live_workers b p3 = Some p4" "poll_all rest p4 = Some p'"
    using assms(8) by (auto simp: poll_all_append split: Option.bind_splits)
  have late: "in_plan peak i q' \<and> ?late q'" if "in_plan peak i q \<and> ?late q" "poll_live_workers e q = Some q'" "?silent e" for e q q'
  proof (cases "given_up i q")
    case True
    have "seats_ok peak {} q" using that(1) by (simp add: in_plan_def)
    from given_up_through_poll [OF True that(2) this] in_plan_poll [OF conjunct1 [OF that(1)] that(2)] show ?thesis by simp
  next
    case False
    with that(1) have "asked_to_stop i (pe_now a) q" by simp
    from asked_to_stop_poll [OF conjunct1 [OF that(1)] this that(2) conjunct1 [OF that(3)]]
      in_plan_poll [OF conjunct1 [OF that(1)] that(2)] show ?thesis by blast
  qed
  have early: "in_plan peak i q' \<and> (still_watched i w q' \<or> ?late q')"
    if "in_plan peak i q \<and> (still_watched i w q \<or> ?late q)" "poll_live_workers e q = Some q'" "?silent e" "pe_now e \<le> pe_now a" for e q q'
  proof (cases "still_watched i w q")
    case True
    have "asked_to_stop i (pe_now e) q' \<Longrightarrow> asked_to_stop i (pe_now a) q'" using that(4) by (auto simp: asked_to_stop_def)
    with still_watched_poll [OF conjunct1 [OF that(1)] True that(2) conjunct1 [OF that(3)] conjunct2 [OF that(3)]]
      in_plan_poll [OF conjunct1 [OF that(1)] that(2)] show ?thesis by blast
  next
    case False
    with that(1) have "in_plan peak i q \<and> ?late q" by simp
    from late [OF this that(2,3)] show ?thesis by blast
  qed
  have "in_plan peak i p" using panel_run_ok [OF assms(1,2)] assms(4) by (simp add: in_plan_def)
  moreover have "still_watched i w p" using assms(3,5-7) by (simp add: still_watched_def)
  ultimately have p0: "in_plan peak i p \<and> (still_watched i w p \<or> ?late p)" by simp
  have p1: "in_plan peak i p1 \<and> (still_watched i w p1 \<or> ?late p1)"
  proof (rule poll_all_keeps [where P = "\<lambda>q. in_plan peak i q \<and> (still_watched i w q \<or> ?late q)", OF _ run(1) p0])
    fix e q q'
    assume e: "e \<in> set before" and q: "poll_live_workers e q = Some q'" "in_plan peak i q \<and> (still_watched i w q \<or> ?late q)"
    from e assms(9,10) have "?silent e" "pe_now e \<le> pe_now a" by simp_all
    then show "in_plan peak i q' \<and> (still_watched i w q' \<or> ?late q')" by (rule early [OF q(2,1)])
  qed
  have p2: "in_plan peak i p2 \<and> ?late p2"
  proof (cases "still_watched i w p1")
    case True
    have "?silent a" using assms(9) by simp
    from still_watched_poll [OF conjunct1 [OF p1] True run(2) conjunct1 [OF this] conjunct2 [OF this]] assms(11)
    have "asked_to_stop i (pe_now a) p2" by (meson not_le)
    with in_plan_poll [OF conjunct1 [OF p1] run(2)] show ?thesis by blast
  next
    case False
    with p1 have "in_plan peak i p1 \<and> ?late p1" by simp
    moreover have "?silent a" using assms(9) by simp
    ultimately show ?thesis by (rule late [OF _ run(2)])
  qed
  have p3: "in_plan peak i p3 \<and> ?late p3"
  proof (rule poll_all_keeps [where P = "\<lambda>q. in_plan peak i q \<and> ?late q", OF _ run(3) p2])
    fix e q q'
    assume e: "e \<in> set between" and q: "poll_live_workers e q = Some q'" "in_plan peak i q \<and> ?late q"
    from e assms(9) have "?silent e" by simp
    then show "in_plan peak i q' \<and> ?late q'" by (rule late [OF q(2,1)])
  qed
  have "given_up i p4"
  proof (cases "given_up i p3")
    case True
    have "seats_ok peak {} p3" using p3 by (simp add: in_plan_def)
    from given_up_through_poll [OF True run(4) this] show ?thesis .
  next
    case False
    with p3 have "asked_to_stop i (pe_now a) p3" by simp
    from asked_to_stop_poll [OF conjunct1 [OF p3] this run(4)] assms(9,12) show ?thesis by simp
  qed
  then have p4: "in_plan peak i p4 \<and> given_up i p4" using in_plan_poll [OF conjunct1 [OF p3] run(4)] by simp
  have "in_plan peak i p' \<and> given_up i p'"
  proof (rule poll_all_keeps [where P = "\<lambda>q. in_plan peak i q \<and> given_up i q", OF _ run(5) p4])
    fix e q q'
    assume q: "poll_live_workers e q = Some q'" "in_plan peak i q \<and> given_up i q"
    then have "seats_ok peak {} q" by (simp add: in_plan_def)
    from given_up_through_poll [OF conjunct2 [OF q(2)] q(1) this] in_plan_poll [OF conjunct1 [OF q(2)] q(1)]
    show "in_plan peak i q' \<and> given_up i q'" by simp
  qed
  then show ?thesis by (simp add: given_up_def)
qed

end
