(* ===== verification/Panel_Demo.thy ===== *)
theory Panel_Demo
  imports Panel_Watchdog
begin

text \<open>
  A panel at work: a routed plan of one task, its dispatch, and the polls that find its worker
  silent.  The general results about the panel are applied to it.
\<close>

section \<open>A plan of one task\<close>

definition demo_task :: RoutedSubAgentTask where
  "demo_task =
     \<lparr>rt_task_id = ''t'', rt_files = [''a.rs''], rt_task_kind = Refactor, rt_planned_site_map_root = 7, rt_provider = Groq,
      rt_model_id = ''m'', rt_model_label = ''M'', rt_thinking = False, rt_fallback_chain = [], rt_execution_contract = [],
      rt_summary = ''s'', rt_rationale = ''r'', rt_decomposition_policy_id = ''p'', rt_decomposition_style = IsolatedFiles\<rparr>"

definition quiet_env :: "nat \<Rightarrow> poll_env" where
  "quiet_env now =
     \<lparr>pe_now = now, pe_poll = \<lambda>_. None, pe_events = \<lambda>_. 0,
      pe_check = \<lambda>_. \<lparr>bd_timestamp_ms = 0, bd_success = True, bd_errors = [], bd_warnings = [], bd_summary = [], bd_skipped = False\<rparr>,
      pe_site_map_root = \<lambda>_. Inr 7, pe_bind_root = Inr 7, pe_groups = [], pe_ops = exact_ops, pe_millis = \<lambda>_. Fin 0\<rparr>"

definition planned :: OrchestratorPanel where
  "planned = set_routed_tasks ''g'' Refactor 1 [demo_task] (panel_new\<lparr>pn_max_concurrent_workers := 1\<rparr>)"

definition polled :: "nat \<Rightarrow> OrchestratorPanel \<Rightarrow> OrchestratorPanel" where
  "polled now p = the (poll_live_workers (quiet_env now) p)"

lemma planned_run: "panel_run 8 planned"
proof -
  let ?R = "\<lambda>q q'. panel_step 8 q q' \<or> q' = reset_runtime q"
  have "?R panel_new (panel_new\<lparr>pn_max_concurrent_workers := 1\<rparr>)" by (intro disjI1 panel_step.set_cap) simp
  moreover have "?R (panel_new\<lparr>pn_max_concurrent_workers := 1\<rparr>) planned" unfolding planned_def by (intro disjI1 panel_step.route) simp
  ultimately show ?thesis unfolding panel_run_def by (metis (mono_tags, lifting) rtranclp.rtrancl_into_rtrancl rtranclp.rtrancl_refl)
qed

lemma polled_step: "panel_run peak p \<Longrightarrow> poll_live_workers (quiet_env now) p = Some (polled now p)"
  using poll_runnable [of p "quiet_env now"] panel_run_runnable [of peak p] by (auto simp: polled_def)

lemma polled_run:
  assumes "panel_run peak p"
  shows "panel_run peak (polled now p)"
proof -
  have "panel_step peak p (polled now p)" by (rule panel_step.poll [OF polled_step [OF assms]])
  with assms show ?thesis unfolding panel_run_def by (metis (mono_tags, lifting) rtranclp.rtrancl_into_rtrancl)
qed

lemma planned_graph: "pn_graph planned = \<lparr>tg_tasks = [(1, (new_task 1 ''Reconcile routed plan'' (''Reconcile sub-agent outputs for goal: g'') [''.velocity/agentic''] [])\<lparr>ts_dependencies := [2]\<rparr>),
   (2, new_task 2 (routed_title 0 demo_task) [CHR ''s'', CHR 0x0A, CHR ''r''] [''a.rs''] [])], tg_root = 1\<rparr>"
  by (simp add: planned_def set_routed_tasks_def Let_def build_routed_graph_def graph_add_def graph_empty_def
     add_routed_def task_get_def new_task_def add_dependency_def demo_task_def)

lemma planned_sel: "pn_registry planned = Some \<lparr>rg_statuses = [(1, TPending), (2, TPending)], rg_outputs = []\<rparr>"
  "pn_running_workers planned = []" "pn_reconcile_root planned = Some 1" "pn_bindings planned = [(2, demo_task)]"
  "pn_load_balancer planned = balancer_new LeastLoaded" "pn_max_concurrent_workers planned = 1"
  "pn_worker_seats planned = []" "pn_worker_watchdog planned = []"
  using planned_graph
  by (simp_all add: planned_def set_routed_tasks_def Let_def registry_new_def task_ids_def routed_ids_def panel_new_def)

section \<open>Its dispatch\<close>

definition pending_reg :: OrchestratorRegistry where
  "pending_reg = \<lparr>rg_statuses = [(1, TPending), (2, TPending)], rg_outputs = []\<rparr>"

definition running_reg :: OrchestratorRegistry where
  "running_reg = \<lparr>rg_statuses = [(1, TPending), (2, TRunning)], rg_outputs = []\<rparr>"

lemma demo_tasks: "task_ids (pn_graph planned) = [1, 2]" "tg_root (pn_graph planned) = 1"
  "deps_of (pn_graph planned) 1 = [2]" "deps_of (pn_graph planned) 2 = []"
  by (simp_all add: planned_graph task_ids_def deps_of_def task_get_def new_task_def)

lemma nothing_blocked:
  assumes "reg = pending_reg \<or> reg = running_reg"
  shows "propagate_blocked_dependents (pn_graph planned) reg = Some reg"
    "complete_reconcile_root (pn_graph planned) reg = (pn_graph planned, reg)"
  using assms
  by (auto simp: propagate_blocked_dependents_def propagate_loop.simps planned_graph pending_reg_def running_reg_def new_task_def
      visit_def status_of_def blocking_dependencies_def complete_reconcile_root_def task_get_def Let_def is_waiting_def is_done_def is_settled_bad_def)

lemma demo_ready: "ready_ids pending_reg (pn_graph planned) = [2]" "ready_ids running_reg (pn_graph planned) = []"
  by (simp_all add: ready_ids_def planned_graph pending_reg_def running_reg_def new_task_def ready_def status_of_def is_waiting_def is_done_def)

lemma seated: "sync_seat_pool planned = planned\<lparr>pn_load_balancer := register_worker 0 1 [] (balancer_new LeastLoaded)\<rparr>"
  by (simp add: sync_seat_pool_def desired_seats_def planned_sel add_seat_def Let_def get_worker_load_def balancer_new_def
      register_worker_def worker_ids_def stale_seat_def worker_load_new_def)

text \<open>The poll hands out the only seat.\<close>

lemma dispatched: "polled now planned = (let p = (set_task_status 2 TRunning (planned\<lparr>pn_load_balancer :=
     record_task_start 0 (register_worker 0 1 [] (balancer_new LeastLoaded))\<rparr>))\<lparr>pn_worker_seats := [(2, 0)], pn_running_workers := [2]\<rparr>
   in refresh_runtime_status (p\<lparr>pn_execution_running := True\<rparr>))"
proof -
  let ?env = "quiet_env now"
  have "planned\<lparr>pn_registry := pn_registry planned\<rparr> = planned" by simp
  then have reg: "planned\<lparr>pn_registry := Some \<lparr>rg_statuses = [(1, TPending), (2, TPending)], rg_outputs = []\<rparr>\<rparr> = planned"
    by (simp only: planned_sel(1))
  have "watchdog_phase ?env planned = planned"
    by (simp add: watchdog_phase_def watch_workers_def planned_sel(2,8))
  then have "poll_live_workers ?env planned = Some (dispatch_phase ?env planned)"
    using nothing_blocked [of pending_reg]
    by (simp add: reg poll_live_workers_def with_registry_def planned_sel(1,2) finished_workers_def List.map_filter_def pending_reg_def)
  moreover have "dispatch_wave ?env planned = [2]" using demo_ready(1) by (simp add: dispatch_wave_def planned_sel(1) pending_reg_def)
  moreover have "bind_unbound_tasks (pe_bind_root ?env) planned = (Inr (), planned)"
    by (simp add: bind_unbound_tasks_def demo_tasks planned_sel)
  moreover have "dispatch_one ?env 2 (sync_seat_pool planned) = (set_task_status 2 TRunning (planned\<lparr>pn_load_balancer :=
      record_task_start 0 (register_worker 0 1 [] (balancer_new LeastLoaded))\<rparr>))\<lparr>pn_worker_seats := [(2, 0)], pn_running_workers := [2]\<rparr>"
  proof -
    have "assign_task k (register_worker 0 1 [] (balancer_new LeastLoaded)) = (Some 0, register_worker 0 1 [] (balancer_new LeastLoaded))" for k
      by (simp add: assign_task_def assign_least_loaded_def balancer_new_def register_worker_def worker_values_def has_capacity_def worker_load_new_def)
    moreover obtain t where "task_get (pn_graph planned) 2 = Some t" by (simp add: planned_graph task_get_def)
    ultimately show ?thesis
      by (simp add: seated dispatch_one_def planned_sel quiet_env_def binding_for_def demo_task_def)
  qed
  ultimately show ?thesis by (simp add: polled_def dispatch_phase_def Let_def)
qed

lemma dispatched_sel: "pn_running_workers (polled now planned) = [2]" "pn_worker_watchdog (polled now planned) = []"
  "task_ids (pn_graph (polled now planned)) = [1, 2]" "map_of (pn_worker_seats (polled now planned)) 2 = Some 0"
  by (simp_all add: dispatched Let_def refresh_runtime_status_def set_task_status_def planned_sel demo_tasks)

section \<open>The general results on it\<close>

theorem seats_apart_witness:
  "\<exists>w. map_of (pn_worker_seats (polled 0 planned)) 2 = Some 0 \<and> get_worker_load 0 (pn_load_balancer (polled 0 planned)) = Some w
    \<and> wl_active_tasks w = 1"
  using seats_apart [OF polled_run [OF planned_run, of 0]] dispatched_sel(1,4) [of 0] by auto

lemma planned_capped: "capped_run 1 (polled 0 planned)"
proof -
  let ?R = "\<lambda>q q'. panel_step (max 1 1) q q' \<or> q' = reset_runtime q"
  have "?R (panel_new\<lparr>pn_max_concurrent_workers := 1\<rparr>) planned" unfolding planned_def by (intro disjI1 panel_step.route) simp
  moreover have "?R planned (polled 0 planned)" by (rule disjI1 [OF panel_step.poll [OF polled_step [OF planned_run]]])
  ultimately show ?thesis unfolding capped_run_def by (metis (mono_tags, lifting) rtranclp.rtrancl_into_rtrancl rtranclp.rtrancl_refl)
qed

text \<open>The only seat is taken, the plan is routed anew, and the next poll starts nothing.\<close>

theorem replaced_plan_starves_witness:
  "length (pn_running_workers (polled 0 planned)) = 1
    \<and> pn_running_workers (polled 0 (set_routed_tasks ''g'' Refactor 1 [demo_task] (polled 0 planned))) = []"
proof -
  define p where "p = polled 0 planned"
  define p1 where "p1 = set_routed_tasks ''g'' Refactor 1 [demo_task] p"
  have one: "length (pn_running_workers p) = 1" by (simp add: p_def dispatched_sel)
  have "panel_run 8 p" unfolding p_def by (rule polled_run [OF planned_run])
  moreover have "panel_step 8 p p1" unfolding p1_def by (rule panel_step.route) simp
  ultimately have "panel_run 8 p1" unfolding panel_run_def by (metis (mono_tags, lifting) rtranclp.rtrancl_into_rtrancl)
  from panel_step.poll [OF polled_step [OF this, of 0]] have "(panel_step (max 1 1))\<^sup>*\<^sup>* p1 (polled 0 p1)" by blast
  from replaced_plan_starves [OF planned_capped [folded p_def] _ this, of "''g''" Refactor 1 "[demo_task]"] one
  have "pn_running_workers (polled 0 p1) = []" by (simp add: p1_def)
  with one show ?thesis by (simp add: p_def p1_def)
qed

theorem polls_return_witness: "\<exists>p'. poll_live_workers (quiet_env 0) (polled 0 planned) = Some p'"
  using polls_return [OF polled_run [OF planned_run, of 0]] by blast

lemma first_watch: "watched (quiet_env 0) (polled 0 planned) 2 = (watchdog_new 0 0, [])"
  by (simp add: watched_def dispatched_sel watchdog_new_def quiet_env_def observe_def judge_def)

text \<open>
  Six polls after the dispatch: the worker of task 2 is first watched at 0, is asked to stop at 601
  seconds, and is given up at 662 seconds, however many polls lie between.
\<close>

theorem hung_worker_given_up_witness:
  "\<exists>p' t reason. poll_all (map (\<lambda>s. quiet_env (secs s)) [0, 300, 601, 630, 662, 663]) (polled 0 planned) = Some p'
    \<and> 2 \<notin> set (pn_running_workers p') \<and> map_of (pn_worker_seats p') 2 = None
    \<and> status_in p' 2 = Some (TFailed (blocked_by t (''worker hung: '' @ reason @ ''; cancelled by watchdog'')))"
proof -
  define pa where "pa = polled 0 planned"
  define pb where "pb = polled 0 pa"
  note run_a = polled_run [OF planned_run, of 0, folded pa_def]
  note run_b = polled_run [OF run_a, of 0, folded pb_def]
  note a = dispatched_sel [of 0, folded pa_def]
  note ok_a = panel_run_ok [OF run_a order.refl]
  note b = watched_through_poll [OF ok_a polled_step [OF run_a, of 0, folded pb_def], of 2, folded pa_def, unfolded first_watch [folded pa_def]]
  have b1: "2 \<in> set (pn_running_workers pb)" "map_of (pn_worker_watchdog pb) 2 = Some (watchdog_new 0 0)" "2 \<in> set (task_ids (pn_graph pb))"
    using b by (simp_all add: a quiet_env_def)
  have returns: "\<exists>p'. poll_all (map quiet_env ts) p = Some p'" if "panel_run 8 p" for ts p
    using that
  proof (induction ts arbitrary: p)
    case (Cons t ts)
    from Cons.IH [OF polled_run [OF Cons.prems, of t]] polled_step [OF Cons.prems, of t] show ?case by simp
  qed simp
  let ?polls = "\<lambda>ss. map (\<lambda>s. quiet_env (secs s)) ss"
  obtain p' where p': "poll_all (?polls [300, 601, 630, 662, 663]) pb = Some p'"
    using returns [OF run_b, of "map secs [300, 601, 630, 662, 663]"] by (auto simp: comp_def)
  have split: "?polls [300, 601, 630, 662, 663] =
      ?polls [300] @ quiet_env (secs 601) # ?polls [630] @ quiet_env (secs 662) # ?polls [663]" by simp
  note gone = hung_worker_given_up [OF run_b order.refl b1(1,3,2) _ _ p' [unfolded split]]
  have "2 \<notin> set (pn_running_workers p') \<and> map_of (pn_worker_seats p') 2 = None
    \<and> (\<exists>t reason. status_in p' 2 = Some (TFailed (blocked_by t (''worker hung: '' @ reason @ ''; cancelled by watchdog''))))"
    by (rule gone) (simp_all add: quiet_env_def watchdog_new_def secs_def WORKER_STALL_TIMEOUT_def WORKER_CANCEL_GRACE_def)
  moreover have "poll_all (?polls [0, 300, 601, 630, 662, 663]) pa = Some p'"
    using p' polled_step [OF run_a, of 0, folded pb_def] by (simp add: secs_def)
  ultimately show ?thesis unfolding pa_def by blast
qed

section \<open>Two limits that are not kept\<close>

text \<open>
  After the cap was lowered to one while a task sits on the second of two seats, the first seat is
  handed out as soon as it is free: two tasks run under a cap of one.
\<close>

definition lowered :: OrchestratorPanel where
  "lowered = panel_new\<lparr>pn_max_concurrent_workers := 1, pn_load_balancer :=
     record_task_start 1 (register_worker 1 1 [] (register_worker 0 1 [] (balancer_new LeastLoaded)))\<rparr>"

lemma lowered_cap_exceeded:
  "busy (pn_load_balancer (sync_seat_pool lowered)) 1 \<and> fst (assign_task k (pn_load_balancer (sync_seat_pool lowered))) = Some 0"
proof -
  have "sync_seat_pool lowered = lowered"
    by (simp add: sync_seat_pool_def desired_seats_def lowered_def panel_new_def add_seat_def Let_def get_worker_load_def balancer_new_def
        register_worker_def worker_ids_def stale_seat_def worker_load_new_def record_task_start_def on_worker_def)
  then show ?thesis
    by (simp add: lowered_def panel_new_def busy_def get_worker_load_def balancer_new_def register_worker_def worker_load_new_def
        record_task_start_def on_worker_def assign_task_def assign_least_loaded_def worker_values_def has_capacity_def)
qed

text \<open>A routed plan forgets the ids that were issued before it, so a later task gets one of them again.\<close>

lemma route_reuses_ids: "pn_last_issued_task_id p = 9 \<Longrightarrow>
  fst (next_task_id (set_routed_tasks ''g'' Refactor 1 [demo_task] p)) = 3"
proof -
  have "pn_graph (set_routed_tasks ''g'' Refactor 1 [demo_task] p) = pn_graph planned"
    "pn_last_issued_task_id (set_routed_tasks ''g'' Refactor 1 [demo_task] p) = max_id (pn_last_issued_task_id p) (pn_graph planned)"
    by (simp_all add: set_routed_tasks_def planned_def Let_def)
  then show ?thesis by (simp add: next_task_id_def Let_def max_id_def demo_tasks)
qed

text \<open>
  Retrying the blocked tasks forgets the workers that run: the task stays marked as running and keeps
  its seat, and no poll looks at its worker again.
\<close>

lemma retry_abandons_running:
  "\<exists>p'. retry_blocked_tasks env (polled now planned) = Some p' \<and> pn_running_workers p' = []
    \<and> status_in p' 2 = Some TRunning \<and> map_of (pn_worker_seats p') 2 = Some 0"
proof -
  have reg: "pn_registry (polled now planned) = Some \<lparr>rg_statuses = [(1, TPending), (2, TRunning)], rg_outputs = []\<rparr>"
    by (simp add: dispatched Let_def refresh_runtime_status_def set_task_status_def set_status_def planned_sel)
  have "retryable_blocked_task_count (polled now planned) = 0"
    by (simp add: retryable_blocked_task_count_def count_status_def reg is_retryable_def)
  then show ?thesis
    using dispatched_sel(4) by (simp add: retry_blocked_tasks_def Let_def with_registry_def reg status_in_def status_of_def is_retryable_def)
qed

end
