(* ===== verification/Resource_Locks.thy ===== *)
theory Resource_Locks
  imports Json_Value
begin

text \<open>
  Locks on shared resources and the history of their conflicts
  (\<open>agent/conflict_resolution.rs\<close>).  Every reading of the clock is an argument; the table of locks
  is an association list in an arbitrary order.  An exclusive lock keeps everybody else away until
  it expires, whatever else happens.
\<close>

section \<open>Operations and conflicts\<close>

datatype ResourceType = ResFile | ResWorkflow | ResAgentSession | ResKnowledgeEntry | ResConfiguration

fun resource_label :: "ResourceType \<Rightarrow> string" where
  "resource_label ResFile = ''file''"
| "resource_label ResWorkflow = ''workflow''"
| "resource_label ResAgentSession = ''session''"
| "resource_label ResKnowledgeEntry = ''knowledge''"
| "resource_label ResConfiguration = ''config''"

datatype OperationKind = OpCreate | OpRead | OpUpdate | OpDelete | OpExecute

fun operation_label :: "OperationKind \<Rightarrow> string" where
  "operation_label OpCreate = ''create''"
| "operation_label OpRead = ''read''"
| "operation_label OpUpdate = ''update''"
| "operation_label OpDelete = ''delete''"
| "operation_label OpExecute = ''execute''"

record Operation =
  on_actor_id :: string
  on_kind :: OperationKind
  on_timestamp :: u64
  on_payload :: Json

datatype Resolution = KeepFirst | KeepSecond | KeepLatest | MergeBoth | DiscardBoth | Manual

fun resolution_label :: "Resolution \<Rightarrow> string" where
  "resolution_label KeepFirst = ''keep_first''"
| "resolution_label KeepSecond = ''keep_second''"
| "resolution_label KeepLatest = ''keep_latest''"
| "resolution_label MergeBoth = ''merge''"
| "resolution_label DiscardBoth = ''discard_both''"
| "resolution_label Manual = ''manual''"

record OperationConflict =
  oc_id :: string
  oc_resource :: string
  oc_resource_type :: ResourceType
  oc_op_a :: Operation
  oc_op_b :: Operation
  oc_detected_at :: u64
  oc_resolution :: "Resolution option"
  oc_resolved_at :: "u64 option"

section \<open>Locks\<close>

datatype LockKind = Exclusive | Shared

record ResourceLock =
  rl_resource :: string
  rl_holder_id :: string
  rl_acquired_at :: u64
  rl_expires_at :: u64
  rl_kind :: LockKind

datatype LockError = AlreadyLocked string string

definition lock_error_fmt :: "LockError \<Rightarrow> string" where
  "lock_error_fmt e = (case e of AlreadyLocked resource holder \<Rightarrow> ''Resource '' @ quoted resource @ '' is locked by '' @ quoted holder)"

record ConflictResolver =
  cr_locks :: "(string \<times> ResourceLock list) list"
  cr_conflicts :: "OperationConflict list"
  cr_max_conflicts :: nat
  cr_default_resolution :: Resolution
  cr_lock_timeout_secs :: u64

definition resolver_new :: ConflictResolver where
  "resolver_new = \<lparr>cr_locks = [], cr_conflicts = [], cr_max_conflicts = 200, cr_default_resolution = KeepLatest,
     cr_lock_timeout_secs = 300\<rparr>"

definition live_lock :: "u64 \<Rightarrow> ResourceLock \<Rightarrow> bool" where
  "live_lock now l \<longleftrightarrow> rl_expires_at l = 0 \<or> now < rl_expires_at l"

definition expire_old_locks :: "u64 \<Rightarrow> ConflictResolver \<Rightarrow> ConflictResolver" where
  "expire_old_locks now r =
     r\<lparr>cr_locks := filter (\<lambda>(_, ls). ls \<noteq> []) (map (\<lambda>(k, ls). (k, filter (live_lock now) ls)) (cr_locks r))\<rparr>"

definition push_lock :: "ResourceLock \<Rightarrow> ConflictResolver \<Rightarrow> ConflictResolver" where
  "push_lock l r = r\<lparr>cr_locks := AList.update (rl_resource l)
     ((case map_of (cr_locks r) (rl_resource l) of Some ls \<Rightarrow> ls | None \<Rightarrow> []) @ [l]) (cr_locks r)\<rparr>"

definition try_lock :: "u64 \<Rightarrow> u64 \<Rightarrow> string \<Rightarrow> string \<Rightarrow> LockKind \<Rightarrow> ConflictResolver \<Rightarrow> (LockError + unit) \<times> ConflictResolver" where
  "try_lock t0 t1 resource actor kind r =
     (let r1 = expire_old_locks t0 r;
          existing = map_of (cr_locks r1) resource;
          acquire = (Inr (), push_lock \<lparr>rl_resource = resource, rl_holder_id = actor, rl_acquired_at = t1,
            rl_expires_at = t1 + cr_lock_timeout_secs r1, rl_kind = kind\<rparr> r1) in
      case existing of
        None \<Rightarrow> acquire
      | Some ls \<Rightarrow>
          if kind = Exclusive \<and> ls \<noteq> [] then
            (if list_ex (\<lambda>l. rl_holder_id l = actor) ls then (Inr (), r1)
             else (Inl (AlreadyLocked resource (rl_holder_id (ls ! 0))), r1))
          else if kind = Shared \<and> list_ex (\<lambda>l. rl_kind l = Exclusive) ls
          then (Inl (AlreadyLocked resource (rl_holder_id (ls ! 0))), r1)
          else acquire)"

definition unlock :: "string \<Rightarrow> string \<Rightarrow> ConflictResolver \<Rightarrow> bool \<times> ConflictResolver" where
  "unlock resource actor r =
     (case map_of (cr_locks r) resource of
        None \<Rightarrow> (False, r)
      | Some ls \<Rightarrow>
          (let kept = filter (\<lambda>l. rl_holder_id l \<noteq> actor) ls in
           (length ls \<noteq> length kept,
            r\<lparr>cr_locks := (if kept = [] then AList.delete resource (cr_locks r) else AList.update resource kept (cr_locks r))\<rparr>)))"

definition is_locked :: "string \<Rightarrow> ConflictResolver \<Rightarrow> bool" where
  "is_locked resource r = (case map_of (cr_locks r) resource of Some ls \<Rightarrow> ls \<noteq> [] | None \<Rightarrow> False)"

definition lock_holder :: "string \<Rightarrow> ConflictResolver \<Rightarrow> string option" where
  "lock_holder resource r =
     (case map_of (cr_locks r) resource of Some (l # _) \<Rightarrow> Some (rl_holder_id l) | _ \<Rightarrow> None)"

section \<open>Conflicts\<close>

definition conflict_id :: "u64 \<Rightarrow> nat \<Rightarrow> string" where
  "conflict_id now n = ''conflict_'' @ show_u64 now @ ''_'' @ show_nat n"

definition record_conflict ::
  "u64 \<Rightarrow> u64 \<Rightarrow> string \<Rightarrow> ResourceType \<Rightarrow> Operation \<Rightarrow> Operation \<Rightarrow> ConflictResolver \<Rightarrow> string \<times> ConflictResolver" where
  "record_conflict t0 t1 resource kind a b r =
     (let i = conflict_id t0 (length (cr_conflicts r));
          cs = cr_conflicts r @ [\<lparr>oc_id = i, oc_resource = resource, oc_resource_type = kind, oc_op_a = a, oc_op_b = b,
            oc_detected_at = t1, oc_resolution = None, oc_resolved_at = None\<rparr>] in
      (i, r\<lparr>cr_conflicts := drop (length cs - cr_max_conflicts r) cs\<rparr>))"

fun operations_conflict :: "OperationKind \<Rightarrow> OperationKind \<Rightarrow> bool" where
  "operations_conflict OpRead OpRead = False"
| "operations_conflict OpUpdate OpUpdate = True"
| "operations_conflict OpCreate OpCreate = True"
| "operations_conflict OpDelete _ = True"
| "operations_conflict _ OpDelete = True"
| "operations_conflict OpRead OpUpdate = True"
| "operations_conflict OpUpdate OpRead = True"
| "operations_conflict OpExecute OpUpdate = True"
| "operations_conflict OpUpdate OpExecute = True"
| "operations_conflict _ _ = False"

fun resolve_first :: "u64 \<Rightarrow> string \<Rightarrow> Resolution \<Rightarrow> OperationConflict list \<Rightarrow> OperationConflict list option" where
  "resolve_first now i res [] = None"
| "resolve_first now i res (c # cs) =
     (if oc_id c = i then Some (c\<lparr>oc_resolution := Some res, oc_resolved_at := Some now\<rparr> # cs)
      else map_option ((#) c) (resolve_first now i res cs))"

definition resolve :: "u64 \<Rightarrow> string \<Rightarrow> Resolution \<Rightarrow> ConflictResolver \<Rightarrow> bool \<times> ConflictResolver" where
  "resolve now i res r =
     (case resolve_first now i res (cr_conflicts r) of
        Some cs \<Rightarrow> (True, r\<lparr>cr_conflicts := cs\<rparr>)
      | None \<Rightarrow> (False, r))"

definition unresolved :: "ConflictResolver \<Rightarrow> OperationConflict list" where
  "unresolved r = filter (\<lambda>c. oc_resolution c = None) (cr_conflicts r)"

definition unresolved_for :: "string \<Rightarrow> ConflictResolver \<Rightarrow> OperationConflict list" where
  "unresolved_for resource r = filter (\<lambda>c. oc_resource c = resource) (unresolved r)"

definition count_by_resource_type :: "ConflictResolver \<Rightarrow> (string \<times> nat) list" where
  "count_by_resource_type r =
     fold (\<lambda>c counts. AList.map_default (resource_label (oc_resource_type c)) 1 Suc counts) (cr_conflicts r) []"

record ConflictStats =
  ct_total :: nat
  ct_unresolved :: nat
  ct_by_resource_type :: "(string \<times> nat) list"

definition resolver_stats :: "ConflictResolver \<Rightarrow> ConflictStats" where
  "resolver_stats r = \<lparr>ct_total = length (cr_conflicts r), ct_unresolved = length (unresolved r),
     ct_by_resource_type = count_by_resource_type r\<rparr>"

text \<open>The bytes of the history, when the file could be read, and what the deserializer makes of them.\<close>

definition resolver_load :: "('b \<Rightarrow> OperationConflict list option) \<Rightarrow> 'b option \<Rightarrow> ConflictResolver" where
  "resolver_load parse content =
     (case Option.bind content parse of Some cs \<Rightarrow> resolver_new\<lparr>cr_conflicts := cs\<rparr> | None \<Rightarrow> resolver_new)"

section \<open>Runs\<close>

datatype resolver_action =
    TryLock u64 u64 string string LockKind
  | Unlock string string
  | Expire u64
  | Record u64 u64 string ResourceType Operation Operation
  | Resolve u64 string Resolution

fun resolver_do :: "resolver_action \<Rightarrow> ConflictResolver \<Rightarrow> ConflictResolver" where
  "resolver_do (TryLock t0 t1 resource actor kind) r = snd (try_lock t0 t1 resource actor kind r)"
| "resolver_do (Unlock resource actor) r = snd (unlock resource actor r)"
| "resolver_do (Expire now) r = expire_old_locks now r"
| "resolver_do (Record t0 t1 resource kind a b) r = snd (record_conflict t0 t1 resource kind a b r)"
| "resolver_do (Resolve now i res) r = snd (resolve now i res r)"

text \<open>An action that happens before an instant and does not give up a lock.\<close>

fun harmless :: "u64 \<Rightarrow> string \<Rightarrow> string \<Rightarrow> resolver_action \<Rightarrow> bool" where
  "harmless until resource actor (TryLock t0 t1 _ _ _) = (t0 < until)"
| "harmless until resource actor (Unlock res a) = (res \<noteq> resource \<or> a \<noteq> actor)"
| "harmless until resource actor (Expire now) = (now < until)"
| "harmless until resource actor _ = True"

definition table_ok :: "ConflictResolver \<Rightarrow> bool" where
  "table_ok r \<longleftrightarrow> distinct (map fst (cr_locks r)) \<and> (\<forall>(k, ls)\<in>set (cr_locks r). ls \<noteq> [] \<and> list_all (\<lambda>l. rl_resource l = k) ls
     \<and> (list_all (\<lambda>l. rl_kind l = Shared) ls \<or> length ls = 1))"

lemma map_of_nonempty_filter:
  "distinct (map fst xs) \<Longrightarrow> map_of (filter (\<lambda>(_, ls). ls \<noteq> []) (map (\<lambda>(k, ls). (k, f ls)) xs)) k
     = (case map_of xs k of Some ls \<Rightarrow> if f ls = [] then None else Some (f ls) | None \<Rightarrow> None)"
proof (induction xs)
  case (Cons x xs)
  obtain j ls where x: "x = (j, ls)" by (metis surj_pair)
  have "map_of xs j = None" using Cons.prems by (simp add: x map_of_eq_None_iff)
  with Cons x show ?case by (auto split: option.split)
qed simp

lemma expired_table:
  "distinct (map fst (cr_locks r)) \<Longrightarrow> map_of (cr_locks (expire_old_locks now r)) k
     = (case map_of (cr_locks r) k of
          Some ls \<Rightarrow> if filter (live_lock now) ls = [] then None else Some (filter (live_lock now) ls)
        | None \<Rightarrow> None)"
  by (simp add: expire_old_locks_def map_of_nonempty_filter)

lemma table_okI:
  assumes "distinct (map fst (cr_locks r))"
    and "\<And>k ls. map_of (cr_locks r) k = Some ls \<Longrightarrow> ls \<noteq> [] \<and> list_all (\<lambda>l. rl_resource l = k) ls
      \<and> (list_all (\<lambda>l. rl_kind l = Shared) ls \<or> length ls = 1)"
  shows "table_ok r"
  using assms by (auto simp: table_ok_def)

lemma table_okD:
  assumes "table_ok r"
  shows "distinct (map fst (cr_locks r))"
    and "map_of (cr_locks r) k = Some ls \<Longrightarrow> ls \<noteq> [] \<and> list_all (\<lambda>l. rl_resource l = k) ls
      \<and> (list_all (\<lambda>l. rl_kind l = Shared) ls \<or> length ls = 1)"
  using assms by (auto simp: table_ok_def dest: map_of_SomeD)

lemma kept_kinds:
  "list_all P ls \<or> length ls = 1 \<Longrightarrow> filter Q ls \<noteq> [] \<Longrightarrow> list_all P (filter Q ls) \<or> length (filter Q ls) = 1"
  by (cases ls) (auto simp: list_all_iff split: if_splits)

lemma table_expire_ok: "table_ok r \<Longrightarrow> table_ok (expire_old_locks now r)"
proof -
  assume ok: "table_ok r"
  note d = table_okD(1) [OF ok]
  have "distinct (map fst (filter (\<lambda>(_, ls). ls \<noteq> []) (map (\<lambda>(k, ls). (k, f ls)) xs)))" if "distinct (map fst xs)"
    for f and xs :: "(string \<times> ResourceLock list) list"
    using that by (induction xs) force+
  then have "distinct (map fst (cr_locks (expire_old_locks now r)))" using d by (simp add: expire_old_locks_def)
  moreover have "ls \<noteq> [] \<and> list_all (\<lambda>l. rl_resource l = k) ls \<and> (list_all (\<lambda>l. rl_kind l = Shared) ls \<or> length ls = 1)"
    if "map_of (cr_locks (expire_old_locks now r)) k = Some ls" for k ls
  proof -
    from that obtain ls0 where ls: "map_of (cr_locks r) k = Some ls0" "ls = filter (live_lock now) ls0" "ls \<noteq> []"
      unfolding expired_table [OF d] by (auto split: option.splits if_splits)
    from table_okD(2) [OF ok ls(1)] ls(2,3) kept_kinds [of "\<lambda>l. rl_kind l = Shared" ls0 "live_lock now"] show ?thesis
      by (auto simp: list_all_iff)
  qed
  ultimately show ?thesis by (rule table_okI)
qed

lemma table_update_ok:
  assumes "table_ok r" "ls \<noteq> []" "list_all (\<lambda>l. rl_resource l = k) ls" "list_all (\<lambda>l. rl_kind l = Shared) ls \<or> length ls = 1"
  shows "table_ok (r\<lparr>cr_locks := AList.update k ls (cr_locks r)\<rparr>)"
proof (rule table_okI)
  show "distinct (map fst (cr_locks (r\<lparr>cr_locks := AList.update k ls (cr_locks r)\<rparr>)))"
    using table_okD(1) [OF assms(1)] by (simp add: distinct_update)
  fix j js
  assume "map_of (cr_locks (r\<lparr>cr_locks := AList.update k ls (cr_locks r)\<rparr>)) j = Some js"
  then have "j = k \<and> js = ls \<or> map_of (cr_locks r) j = Some js" by (simp add: update_conv' split: if_splits)
  then show "js \<noteq> [] \<and> list_all (\<lambda>l. rl_resource l = j) js \<and> (list_all (\<lambda>l. rl_kind l = Shared) js \<or> length js = 1)"
    using assms(2-4) table_okD(2) [OF assms(1)] by blast
qed

lemma table_delete_ok: "table_ok r \<Longrightarrow> table_ok (r\<lparr>cr_locks := AList.delete k (cr_locks r)\<rparr>)"
  by (rule table_okI) (use table_okD [of r] in \<open>auto simp: distinct_delete delete_conv' split: if_splits\<close>)


lemma table_push_ok:
  assumes "table_ok r" "map_of (cr_locks r) (rl_resource l) = None \<or>
      rl_kind l = Shared \<and> list_all (\<lambda>l. rl_kind l = Shared) (the (map_of (cr_locks r) (rl_resource l)))"
  shows "table_ok (push_lock l r)"
proof (cases "map_of (cr_locks r) (rl_resource l)")
  case None
  have "table_ok (r\<lparr>cr_locks := AList.update (rl_resource l) [l] (cr_locks r)\<rparr>)" by (rule table_update_ok [OF assms(1)]) simp_all
  with None show ?thesis by (simp add: push_lock_def)
next
  case (Some ls)
  have "table_ok (r\<lparr>cr_locks := AList.update (rl_resource l) (ls @ [l]) (cr_locks r)\<rparr>)"
    using table_okD(2) [OF assms(1) Some] assms(2) Some by (intro table_update_ok [OF assms(1)]) auto
  with Some show ?thesis by (simp add: push_lock_def)
qed

text \<open>The whole behaviour of a request, over the locks of its resource that are still live.\<close>

definition held :: "u64 \<Rightarrow> string \<Rightarrow> ConflictResolver \<Rightarrow> ResourceLock list" where
  "held now resource r = (case map_of (cr_locks r) resource of Some ls \<Rightarrow> filter (live_lock now) ls | None \<Rightarrow> [])"

definition grantable :: "LockKind \<Rightarrow> ResourceLock list \<Rightarrow> bool" where
  "grantable kind ls \<longleftrightarrow> ls = [] \<or> kind = Shared \<and> list_all (\<lambda>l. rl_kind l = Shared) ls"

lemma try_lock_cases:
  assumes "table_ok r"
  shows "try_lock t0 t1 resource actor kind r =
    (if grantable kind (held t0 resource r)
     then (Inr (), push_lock \<lparr>rl_resource = resource, rl_holder_id = actor, rl_acquired_at = t1,
        rl_expires_at = t1 + cr_lock_timeout_secs r, rl_kind = kind\<rparr> (expire_old_locks t0 r))
     else if kind = Exclusive \<and> list_ex (\<lambda>l. rl_holder_id l = actor) (held t0 resource r) then (Inr (), expire_old_locks t0 r)
     else (Inl (AlreadyLocked resource (rl_holder_id (held t0 resource r ! 0))), expire_old_locks t0 r))"
proof -
  have timeout: "cr_lock_timeout_secs (expire_old_locks t0 r) = cr_lock_timeout_secs r" by (simp add: expire_old_locks_def)
  have "map_of (cr_locks (expire_old_locks t0 r)) resource = (if held t0 resource r = [] then None else Some (held t0 resource r))"
    unfolding expired_table [OF table_okD(1) [OF assms]] by (simp add: held_def split: option.split)
  moreover have "list_ex (\<lambda>l. rl_kind l = Exclusive) ls \<longleftrightarrow> \<not> list_all (\<lambda>l. rl_kind l = Shared) ls" for ls :: "ResourceLock list"
  proof -
    have "rl_kind l = Exclusive \<longleftrightarrow> rl_kind l \<noteq> Shared" for l :: ResourceLock by (cases "rl_kind l") simp_all
    then show ?thesis by (simp only: list_ex_iff list_all_iff) blast
  qed
  ultimately show ?thesis
    by (cases kind) (simp_all add: try_lock_def Let_def timeout grantable_def)
qed

lemma resolver_do_ok:
  assumes "table_ok r"
  shows "table_ok (resolver_do a r)"
proof (cases a)
  case (TryLock t0 t1 resource actor kind)
  have e: "table_ok (expire_old_locks t0 r)" by (rule table_expire_ok [OF assms])
  have h: "map_of (cr_locks (expire_old_locks t0 r)) resource = (if held t0 resource r = [] then None else Some (held t0 resource r))"
    unfolding expired_table [OF table_okD(1) [OF assms]] by (simp add: held_def split: option.split)
  have "table_ok (push_lock \<lparr>rl_resource = resource, rl_holder_id = actor, rl_acquired_at = t1, rl_expires_at = t, rl_kind = kind\<rparr>
      (expire_old_locks t0 r))" if "grantable kind (held t0 resource r)" for t
    using that h by (intro table_push_ok [OF e]) (auto simp: grantable_def)
  then show ?thesis using e by (simp add: TryLock try_lock_cases [OF assms])
next
  case (Unlock resource actor)
  show ?thesis
  proof (cases "map_of (cr_locks r) resource")
    case (Some ls)
    let ?kept = "filter (\<lambda>l. rl_holder_id l \<noteq> actor) ls"
    have "table_ok (r\<lparr>cr_locks := AList.update resource ?kept (cr_locks r)\<rparr>)" if "?kept \<noteq> []"
    proof (rule table_update_ok [OF assms that])
      show "list_all (\<lambda>l. rl_resource l = resource) ?kept" using table_okD(2) [OF assms Some] by (simp add: list_all_iff)
      show "list_all (\<lambda>l. rl_kind l = Shared) ?kept \<or> length ?kept = 1"
        by (rule kept_kinds [OF _ that]) (use table_okD(2) [OF assms Some] in blast)
    qed
    then show ?thesis using Some table_delete_ok [OF assms] by (simp add: Unlock unlock_def Let_def)
  qed (simp add: Unlock unlock_def assms)
next
  case (Record t0 t1 resource kind a b)
  then show ?thesis using assms by (simp add: record_conflict_def Let_def table_ok_def)
next
  case (Resolve now i res)
  then show ?thesis using assms by (simp add: resolve_def table_ok_def split: option.split)
qed (simp add: table_expire_ok [OF assms])

definition resolver_run :: "resolver_action list \<Rightarrow> ConflictResolver" where
  "resolver_run as = fold resolver_do as resolver_new"

lemma fold_do_ok: "table_ok r \<Longrightarrow> table_ok (fold resolver_do as r)"
  by (induction as arbitrary: r) (auto simp: resolver_do_ok)

lemma resolver_run_ok: "table_ok (resolver_run as)"
  unfolding resolver_run_def by (rule fold_do_ok) (simp add: resolver_new_def table_ok_def)

section \<open>An exclusive lock protects\<close>

lemma harmless_keeps:
  assumes "table_ok r" "map_of (cr_locks r) resource = Some [l]" "rl_kind l = Exclusive" "rl_holder_id l = actor"
    and "harmless (rl_expires_at l) resource actor a"
  shows "map_of (cr_locks (resolver_do a r)) resource = Some [l]"
proof -
  have expired: "map_of (cr_locks (expire_old_locks now r)) resource = Some [l]" if "now < rl_expires_at l" for now
    unfolding expired_table [OF table_okD(1) [OF assms(1)]] using that assms(2) by (simp add: live_lock_def)
  show ?thesis
  proof (cases a)
    case (TryLock t0 t1 res b kind)
    have t0: "t0 < rl_expires_at l" using assms(5) TryLock by simp
    show ?thesis
    proof (cases "res = resource")
      case True
      have "held t0 resource r = [l]" using assms(2) t0 by (simp add: held_def live_lock_def)
      then have "\<not> grantable kind (held t0 resource r)" using assms(3) by (simp add: grantable_def)
      then show ?thesis using expired [OF t0] by (simp add: TryLock True try_lock_cases [OF assms(1)])
    next
      case False
      then show ?thesis using expired [OF t0] by (simp add: TryLock try_lock_cases [OF assms(1)] push_lock_def update_conv')
    qed
  next
    case (Unlock res b)
    then show ?thesis using assms(2,4,5)
      by (auto simp: unlock_def Let_def update_conv' delete_conv' split: option.split)
  next
    case (Expire now)
    then show ?thesis using expired assms(5) by simp
  next
    case (Record t0 t1 res kind x y)
    then show ?thesis using assms(2) by (simp add: record_conflict_def Let_def)
  next
    case (Resolve now i res)
    then show ?thesis using assms(2) by (simp add: resolve_def split: option.split)
  qed
qed

text \<open>
  C24. An exclusive lock keeps everybody else away.  Whatever was done before, an actor without a
  live lock on a resource who is granted an exclusive one is its only holder; and until the instant
  of its expiry, whatever anybody does short of releasing it for the actor, the actor stays the
  only holder and every other request for the resource, shared or exclusive, is refused in its name.
\<close>

theorem exclusive_protects:
  assumes "\<not> list_ex (\<lambda>l. rl_holder_id l = actor) (held t0 resource (resolver_run as))"
    and "try_lock t0 t1 resource actor Exclusive (resolver_run as) = (Inr (), r)"
    and "list_all (harmless (t1 + cr_lock_timeout_secs (resolver_run as)) resource actor) bs"
    and "t2 < t1 + cr_lock_timeout_secs (resolver_run as)" "b \<noteq> actor \<or> kind = Shared"
  shows "map_option (map rl_holder_id) (map_of (cr_locks (fold resolver_do bs r)) resource) = Some [actor]
    \<and> fst (try_lock t2 t3 resource b kind (fold resolver_do bs r)) = Inl (AlreadyLocked resource actor)"
proof -
  note ok = resolver_run_ok [of as]
  define l where "l = \<lparr>rl_resource = resource, rl_holder_id = actor, rl_acquired_at = t1,
    rl_expires_at = t1 + cr_lock_timeout_secs (resolver_run as), rl_kind = Exclusive\<rparr>"
  have free: "held t0 resource (resolver_run as) = []"
    using assms(1,2) by (simp add: try_lock_cases [OF ok] grantable_def split: if_splits)
  then have r: "r = push_lock l (expire_old_locks t0 (resolver_run as))"
    using assms(2) by (simp add: try_lock_cases [OF ok] grantable_def l_def)
  have "map_of (cr_locks (expire_old_locks t0 (resolver_run as))) resource = None"
    unfolding expired_table [OF table_okD(1) [OF ok]] using free by (auto simp: held_def split: option.splits)
  then have mine: "map_of (cr_locks r) resource = Some [l]" by (simp add: r push_lock_def l_def update_conv')
  have "table_ok (resolver_do (TryLock t0 t1 resource actor Exclusive) (resolver_run as))" by (rule resolver_do_ok [OF ok])
  then have rok: "table_ok r" using assms(2) by simp
  have kept: "map_of (cr_locks (fold resolver_do cs q)) resource = Some [l]"
    if "table_ok q" "map_of (cr_locks q) resource = Some [l]" "list_all (harmless (rl_expires_at l) resource actor) cs" for cs q
    using that
  proof (induction cs arbitrary: q)
    case (Cons c cs)
    have c: "harmless (rl_expires_at l) resource actor c" using Cons.prems(3) by auto
    have "map_of (cr_locks (resolver_do c q)) resource = Some [l]"
      by (rule harmless_keeps [OF Cons.prems(1,2) _ _ c]) (simp_all add: l_def)
    with Cons.IH [OF resolver_do_ok [OF Cons.prems(1)]] Cons.prems(3) show ?case by simp
  qed simp
  have after: "map_of (cr_locks (fold resolver_do bs r)) resource = Some [l]"
    by (rule kept [OF rok mine]) (use assms(3) in \<open>simp add: l_def\<close>)
  then have "held t2 resource (fold resolver_do bs r) = [l]" using assms(4) by (simp add: held_def live_lock_def l_def)
  then have "fst (try_lock t2 t3 resource b kind (fold resolver_do bs r)) = Inl (AlreadyLocked resource actor)"
    using assms(5) by (auto simp: try_lock_cases [OF fold_do_ok [OF rok]] grantable_def l_def)
  with after show ?thesis by (simp add: l_def)
qed

theorem exclusive_protects_witness:
  "\<exists>r. try_lock 10 10 ''a.rs'' ''ann'' Exclusive resolver_new = (Inr (), r)
    \<and> fst (try_lock 309 309 ''a.rs'' ''bob'' Shared (fold resolver_do [Expire 200, Unlock ''a.rs'' ''bob''] r)) = Inl (AlreadyLocked ''a.rs'' ''ann'')"
proof -
  have new: "resolver_run [] = resolver_new" "held 10 ''a.rs'' resolver_new = []" "cr_lock_timeout_secs resolver_new = 300"
    by (simp_all add: resolver_run_def held_def resolver_new_def)
  obtain r where r: "try_lock 10 10 ''a.rs'' ''ann'' Exclusive resolver_new = (Inr (), r)"
    using try_lock_cases [OF resolver_run_ok [of "[]"], unfolded new, of 10 10 "''a.rs''" "''ann''" Exclusive] by (simp add: new grantable_def)
  show ?thesis
    using exclusive_protects [of "''ann''" 10 "''a.rs''" "[]" 10 r "[Expire 200, Unlock ''a.rs'' ''bob'']" 309 "''bob''" Shared 309] r
    by (simp add: new)
qed

section \<open>Where the documents promise more\<close>

text \<open>
  A holder of a shared lock who asks for the exclusive one is told that it was granted, while
  nothing changes: the others keep their shared locks.
\<close>

lemma shared_upgrade_granted:
  assumes "table_ok r" "a \<in> set (held t0 resource r)" "rl_holder_id a = actor" "rl_kind a = Shared"
  shows "try_lock t0 t1 resource actor Exclusive r = (Inr (), expire_old_locks t0 r)"
  using assms(2,3) by (auto simp: try_lock_cases [OF assms(1)] grantable_def list_ex_iff)

text \<open>A full history numbers the conflicts of one second alike.\<close>

lemma conflict_ids_repeat:
  assumes "length (cr_conflicts r) = cr_max_conflicts r" "record_conflict t t1 res k a b r = (i, r1)" "record_conflict t t2 res' k' a' b' r1 = (j, r2)"
  shows "i = j"
proof -
  have "length (cr_conflicts r1) = length (cr_conflicts r)" using assms(1,2) by (auto simp: record_conflict_def Let_def)
  then show ?thesis using assms(2,3) by (auto simp: record_conflict_def Let_def)
qed

lemma create_and_update_do_not_conflict: "\<not> operations_conflict OpCreate OpUpdate" "\<not> operations_conflict OpUpdate OpCreate"
  by simp_all

lemma operations_conflict_sym: "operations_conflict a b = operations_conflict b a"
  by (cases a; cases b) simp_all

end
