(* ===== verification/Key_Rotation.thy ===== *)
theory Key_Rotation
  imports Rust_Std
begin

text \<open>
  Versions of the encryption key of a workspace (\<open>security/key_rotation.rs\<close>): the active key, the
  retired keys that are kept for decryption, and the minimum requirements of a configuration.
  Readings of the two clocks are arguments, in seconds.
\<close>

section \<open>Configuration\<close>

record SecureDefaults =
  sd_aes_key_bits :: u32
  sd_gcm_nonce_bytes :: nat
  sd_gcm_tag_bytes :: nat
  sd_max_plaintext_bytes :: nat
  sd_prefer_hardware_aes :: bool
  sd_kdf_iterations :: u32
  sd_salt_bytes :: nat

definition ide_defaults :: SecureDefaults where
  "ide_defaults = \<lparr>sd_aes_key_bits = 256, sd_gcm_nonce_bytes = 12, sd_gcm_tag_bytes = 16,
     sd_max_plaintext_bytes = 100 * 1024 * 1024, sd_prefer_hardware_aes = True, sd_kdf_iterations = 600000, sd_salt_bytes = 32\<rparr>"

definition validate_defaults :: "SecureDefaults \<Rightarrow> string + unit" where
  "validate_defaults d =
     (if sd_aes_key_bits d < 128
      then Inl (''AES key size '' @ show_nat (unat (sd_aes_key_bits d)) @ '' bits is below minimum 128 bits'')
      else if sd_gcm_nonce_bytes d < 12
      then Inl (''GCM nonce '' @ show_nat (sd_gcm_nonce_bytes d) @ '' bytes is below minimum 12 bytes'')
      else if sd_kdf_iterations d < 100000
      then Inl (''KDF iterations '' @ show_nat (unat (sd_kdf_iterations d)) @ '' is below minimum 100,000'')
      else if sd_salt_bytes d < 16
      then Inl (''Salt size '' @ show_nat (sd_salt_bytes d) @ '' bytes is below minimum 16 bytes'')
      else Inr ())"

section \<open>Versions\<close>

record KeyVersion =
  kv_version :: u32
  kv_key :: "u8 list"
  kv_created_at :: nat
  kv_active :: bool

record KeyRotationManager =
  km_active_key :: KeyVersion
  km_retired_keys :: "(u32 \<times> KeyVersion) list"
  km_rotation_interval :: nat
  km_max_retained :: nat
  km_next_version :: u32
  km_last_rotation :: nat

datatype KeyRotationResult = Rotated u32 u32 | NotNeeded | RotationFailed string

definition DEFAULT_ROTATION_INTERVAL :: nat where
  "DEFAULT_ROTATION_INTERVAL = 90 * 24 * 3600"

definition MAX_RETAINED_KEYS :: nat where
  "MAX_RETAINED_KEYS = 8"

definition key_manager_new :: "nat \<Rightarrow> nat \<Rightarrow> u8 list \<Rightarrow> KeyRotationManager" where
  "key_manager_new sys inst initial_key =
     \<lparr>km_active_key = \<lparr>kv_version = 1, kv_key = initial_key, kv_created_at = sys, kv_active = True\<rparr>, km_retired_keys = [],
      km_rotation_interval = DEFAULT_ROTATION_INTERVAL, km_max_retained = MAX_RETAINED_KEYS, km_next_version = 2, km_last_rotation = inst\<rparr>"

definition key_manager_with_config :: "nat \<Rightarrow> nat \<Rightarrow> u8 list \<Rightarrow> nat \<Rightarrow> nat \<Rightarrow> KeyRotationManager" where
  "key_manager_with_config sys inst initial_key rotation_interval max_retained =
     (key_manager_new sys inst initial_key)\<lparr>km_rotation_interval := rotation_interval, km_max_retained := max_retained\<rparr>"

definition active_version :: "KeyRotationManager \<Rightarrow> u32" where
  "active_version m = kv_version (km_active_key m)"

definition active_key :: "KeyRotationManager \<Rightarrow> u8 list" where
  "active_key m = kv_key (km_active_key m)"

definition needs_rotation :: "nat \<Rightarrow> KeyRotationManager \<Rightarrow> bool" where
  "needs_rotation now m \<longleftrightarrow> km_rotation_interval m \<le> now - km_last_rotation m"

fun min_version :: "u32 list \<Rightarrow> u32 option" where
  "min_version [] = None"
| "min_version (v # vs) = Some (fold min vs v)"

definition evict_oldest :: "nat \<Rightarrow> (u32 \<times> KeyVersion) list \<Rightarrow> (u32 \<times> KeyVersion) list" where
  "evict_oldest limit keys =
     (if limit < length keys then (case min_version (map fst keys) of Some v \<Rightarrow> AList.delete v keys | None \<Rightarrow> keys) else keys)"

definition rotate_key :: "nat \<Rightarrow> nat \<Rightarrow> u8 list \<Rightarrow> KeyRotationManager \<Rightarrow> KeyRotationResult \<times> KeyRotationManager" where
  "rotate_key sys inst new_key m =
     (if new_key = [] then (RotationFailed ''New key material is empty'', m)
      else
        (let old_version = kv_version (km_active_key m);
             retired = (km_active_key m)\<lparr>kv_active := False\<rparr> in
         (Rotated old_version (km_next_version m),
          m\<lparr>km_active_key := \<lparr>kv_version = km_next_version m, kv_key = new_key, kv_created_at = sys, kv_active = True\<rparr>,
            km_retired_keys := evict_oldest (km_max_retained m) (AList.update old_version retired (km_retired_keys m)),
            km_next_version := km_next_version m + 1, km_last_rotation := inst\<rparr>)))"

definition get_key :: "u32 \<Rightarrow> KeyRotationManager \<Rightarrow> u8 list option" where
  "get_key version m =
     (if version = kv_version (km_active_key m) then Some (kv_key (km_active_key m))
      else map_option kv_key (map_of (km_retired_keys m) version))"

definition retained_count :: "KeyRotationManager \<Rightarrow> nat" where
  "retained_count m = length (km_retired_keys m)"

definition all_versions :: "KeyRotationManager \<Rightarrow> u32 list" where
  "all_versions m = sort (map fst (km_retired_keys m) @ [kv_version (km_active_key m)])"

section \<open>Which keys are kept\<close>

text \<open>The rotations a manager went through: the clocks and the keys it was given.\<close>

definition rotations :: "(nat \<times> nat \<times> u8 list) list \<Rightarrow> KeyRotationManager \<Rightarrow> KeyRotationManager" where
  "rotations rs m = fold (\<lambda>(sys, inst, key) m. snd (rotate_key sys inst key m)) rs m"

text \<open>What a manager keeps after it was given \<open>keys\<close>, the first of them at its start.\<close>

definition keeps :: "u8 list list \<Rightarrow> KeyRotationManager \<Rightarrow> bool" where
  "keeps keys m \<longleftrightarrow> keys \<noteq> [] \<and> length keys < 2 ^ 32 - 1
     \<and> unat (kv_version (km_active_key m)) = length keys \<and> kv_key (km_active_key m) = last keys
     \<and> unat (km_next_version m) = length keys + 1 \<and> distinct (map fst (km_retired_keys m))
     \<and> unat ` fst ` set (km_retired_keys m) = {length keys - min (length keys - 1) (km_max_retained m)..<length keys}
     \<and> (\<forall>(v, k)\<in>set (km_retired_keys m). kv_key k = keys ! (unat v - 1))"

lemma fold_min_least: "fold min vs (v :: u32) \<in> set (v # vs) \<and> (\<forall>w\<in>set (v # vs). fold min vs v \<le> w)"
proof (induction vs arbitrary: v)
  case (Cons w vs)
  from Cons.IH [of "min w v"] show ?case by (auto simp: min_def split: if_splits)
qed simp

lemma min_version_least:
  assumes "min_version vs = Some v"
  shows "v \<in> set vs" "w \<in> set vs \<Longrightarrow> v \<le> w"
  using assms fold_min_least by (cases vs; auto)+


lemma unat_versions:
  assumes "unat ` A = {a..<b}" "v \<in> A" "\<And>w. w \<in> A \<Longrightarrow> v \<le> w"
  shows "unat (v :: u32) = a"
proof -
  have "unat v \<in> {a..<b}" using assms(1,2) by blast
  moreover obtain w where "w \<in> A" "unat w = a" using assms(1) calculation by (metis atLeastLessThan_iff imageE le_refl order_le_less_trans)
  ultimately show ?thesis using assms(3) [of w] by (simp add: word_le_nat_alt)
qed

lemma unat_inj_on: "inj_on unat (A :: u32 set)"
  by (rule inj_onI) (simp add: word_unat_eq_iff)

lemma versions_length:
  assumes "distinct (map fst keys)" "unat ` fst ` set keys = {a..<b}"
  shows "length (keys :: (u32 \<times> 'a) list) = b - a"
proof -
  have "length keys = card (fst ` set keys)" using assms(1) by (metis distinct_card length_map set_map)
  also have "\<dots> = card (unat ` fst ` set keys)" by (simp add: card_image [OF unat_inj_on])
  finally show ?thesis by (simp add: assms(2))
qed

lemma update_fresh: "k \<notin> fst ` set xs \<Longrightarrow> AList.update k v xs = xs @ [(k, v)]"
  by (induction xs) auto

text \<open>Eviction removes exactly the lowest version, once there are more than the limit.\<close>

lemma evict_versions:
  assumes "distinct (map fst keys)" "unat ` fst ` set keys = {a..<b}" "a < b"
  shows "distinct (map fst (evict_oldest limit keys))"
    "unat ` fst ` set (evict_oldest limit keys) = {(if limit < b - a then a + 1 else a)..<b}"
    "set (evict_oldest limit keys) \<subseteq> set keys"
proof -
  note len = versions_length [OF assms(1,2)]
  show sub: "set (evict_oldest limit keys) \<subseteq> set keys"
    by (auto simp: evict_oldest_def AList.delete_eq split: option.splits if_splits)
  show "distinct (map fst (evict_oldest limit keys))"
    using assms(1) by (simp add: evict_oldest_def distinct_delete split: option.split)
  show "unat ` fst ` set (evict_oldest limit keys) = {(if limit < b - a then a + 1 else a)..<b}"
  proof (cases "limit < b - a")
    case True
    have "map fst keys \<noteq> []" using assms(3) len by auto
    then obtain v where v: "min_version (map fst keys) = Some v" by (cases "map fst keys") auto
    have "unat v = a"
      by (rule unat_versions [of "set (map fst keys)" a b]) (use min_version_least [OF v] assms(2) in simp_all)
    moreover have "fst ` set (AList.delete v keys) = fst ` set keys - {v}" by (rule delete_keys [of v keys, THEN arg_cong [of _ _ set], simplified])
    ultimately have "unat ` fst ` set (AList.delete v keys) = {a..<b} - {a}"
      by (simp add: inj_on_image_set_diff [OF unat_inj_on [of UNIV], of _ "{v}", simplified] assms(2))
    with True v len show ?thesis by (auto simp: evict_oldest_def)
  qed (use len assms(2) in \<open>simp add: evict_oldest_def\<close>)
qed

lemma rotate_keeps:
  assumes "keeps keys m" "key \<noteq> []" "length keys < 2 ^ 32 - 2"
  shows "keeps (keys @ [key]) (snd (rotate_key sys inst key m))" "km_max_retained (snd (rotate_key sys inst key m)) = km_max_retained m"
proof -
  let ?n = "length keys" and ?limit = "km_max_retained m"
  let ?old = "kv_version (km_active_key m)"
  let ?low = "?n - min (?n - 1) ?limit"
  let ?kept = "AList.update ?old ((km_active_key m)\<lparr>kv_active := False\<rparr>) (km_retired_keys m)"
  note k = assms(1) [unfolded keeps_def]
  have n: "0 < ?n" using k by simp
  have new: "?old \<notin> fst ` set (km_retired_keys m)"
  proof
    assume "?old \<in> fst ` set (km_retired_keys m)"
    then have "unat ?old \<in> {?low..<?n}" using k by blast
    then show False using k by simp
  qed
  then have upd: "?kept = km_retired_keys m @ [(?old, (km_active_key m)\<lparr>kv_active := False\<rparr>)]" by (rule update_fresh)
  have dist: "distinct (map fst ?kept)" using k new by (simp add: upd)
  have vers: "unat ` fst ` set ?kept = {?low..<?n + 1}" using k by (auto simp: upd)
  have low: "?low < ?n + 1" using n by simp
  note ev = evict_versions [OF dist vers low, of ?limit]
  have low': "(if ?limit < ?n + 1 - ?low then ?low + 1 else ?low) = ?n + 1 - min ?n ?limit"
    using n by (cases keys) (auto simp: min_def)
  have range: "{(if ?limit < ?n + 1 - ?low then ?low + 1 else ?low)..<?n + 1}
      = {length (keys @ [key]) - min (length (keys @ [key]) - 1) ?limit..<length (keys @ [key])}"
    unfolding low' by simp
  have mat: "kv_key e = (keys @ [key]) ! (unat v - 1)" if "(v, e) \<in> set ?kept" for v e
  proof (cases "(v, e) \<in> set (km_retired_keys m)")
    case True
    then have "unat v \<in> {?low..<?n}" "kv_key e = keys ! (unat v - 1)" using k by force+
    then show ?thesis by (auto simp: nth_append)
  next
    case False
    then have "v = ?old" "kv_key e = last keys" using that k by (auto simp: upd)
    then show ?thesis using k n by (simp add: nth_append last_conv_nth)
  qed
  have nextv: "unat (km_next_version m + 1) = ?n + 2" using k assms(3) by (simp add: unat_word_ariths)
  show "km_max_retained (snd (rotate_key sys inst key m)) = ?limit" by (simp add: rotate_key_def Let_def)
  define m' where "m' = snd (rotate_key sys inst key m)"
  have sel: "kv_version (km_active_key m') = km_next_version m" "kv_key (km_active_key m') = key" "km_next_version m' = km_next_version m + 1"
    "km_retired_keys m' = evict_oldest ?limit ?kept" "km_max_retained m' = ?limit"
    using assms(2) by (simp_all add: m'_def rotate_key_def Let_def)
  show "keeps (keys @ [key]) (snd (rotate_key sys inst key m))"
    unfolding m'_def [symmetric] keeps_def sel
  proof (intro conjI)
    show "unat ` fst ` set (evict_oldest ?limit ?kept)
        = {length (keys @ [key]) - min (length (keys @ [key]) - 1) ?limit..<length (keys @ [key])}" unfolding ev(2) by (rule range)
    show "\<forall>(v, e)\<in>set (evict_oldest ?limit ?kept). kv_key e = (keys @ [key]) ! (unat v - 1)" using mat ev(3) by blast
  qed (use k ev(1) nextv assms(3) in simp_all)
qed


lemma manager_keeps: "keeps [key] (key_manager_with_config sys inst key interval limit)"
  by (simp add: keeps_def key_manager_with_config_def key_manager_new_def)

lemma rotations_keep:
  assumes "list_all (\<lambda>(_, _, key). key \<noteq> []) rs" "length rs < 2 ^ 32 - 2"
  shows "keeps (k0 # map (\<lambda>r. snd (snd r)) rs) (rotations rs (key_manager_with_config sys inst k0 interval limit))
    \<and> km_max_retained (rotations rs (key_manager_with_config sys inst k0 interval limit)) = limit"
  using assms
proof (induction rs rule: rev_induct)
  case Nil
  show ?case by (simp add: rotations_def manager_keeps) (simp add: key_manager_with_config_def)
next
  case (snoc r rs)
  obtain s i key where r: "r = (s, i, key)" by (metis prod_cases3)
  let ?m = "rotations rs (key_manager_with_config sys inst k0 interval limit)"
  have ih: "keeps (k0 # map (\<lambda>r. snd (snd r)) rs) ?m" "km_max_retained ?m = limit" using snoc by simp_all
  have key: "key \<noteq> []" "length (k0 # map (\<lambda>r. snd (snd r)) rs) < 2 ^ 32 - 2" using snoc.prems by (simp_all add: r)
  have "rotations (rs @ [r]) (key_manager_with_config sys inst k0 interval limit) = snd (rotate_key s i key ?m)"
    by (simp add: rotations_def r)
  with rotate_keeps [OF ih(1) key, of s i] ih(2) show ?case by (simp add: r)
qed

lemma keeps_get_key:
  assumes "keeps keys m"
  shows "get_key v m = (if 0 < v \<and> unat v \<le> length keys \<and> length keys - unat v \<le> km_max_retained m
      then Some (keys ! (unat v - 1)) else None)"
proof (cases "v = kv_version (km_active_key m)")
  case True
  then have "unat v = length keys" "0 < length keys" using assms by (simp_all add: keeps_def)
  then have "0 < v \<and> unat v \<le> length keys \<and> length keys - unat v \<le> km_max_retained m" using unat_gt_0 [of v] word_gt_0 [of v] by simp
  then show ?thesis using assms True by (simp add: get_key_def keeps_def last_conv_nth)
next
  case False
  note k = assms [unfolded keeps_def]
  have ne: "unat v \<noteq> length keys" using False k by (metis word_unat_eq_iff)
  have "v \<in> fst ` set (km_retired_keys m) \<longleftrightarrow> unat v \<in> unat ` fst ` set (km_retired_keys m)"
    by (simp add: inj_on_image_mem_iff [OF unat_inj_on [of UNIV]])
  also have "\<dots> \<longleftrightarrow> 0 < v \<and> unat v \<le> length keys \<and> length keys - unat v \<le> km_max_retained m"
    using k ne unat_gt_0 [of v] by (auto simp: word_neq_0_conv [symmetric] min_def split: if_splits)
  finally have dom: "v \<in> fst ` set (km_retired_keys m) \<longleftrightarrow> \<dots>" .
  show ?thesis
  proof (cases "map_of (km_retired_keys m) v")
    case None
    then have "v \<notin> fst ` set (km_retired_keys m)" by (simp add: map_of_eq_None_iff)
    then have "\<not> (0 < v \<and> unat v \<le> length keys \<and> length keys - unat v \<le> km_max_retained m)" using dom by blast
    then show ?thesis using None False by (simp add: get_key_def)
  next
    case (Some e)
    then have "(v, e) \<in> set (km_retired_keys m)" by (rule map_of_SomeD)
    moreover from this have "v \<in> fst ` set (km_retired_keys m)" by force
    ultimately show ?thesis using Some False dom k by (auto simp: get_key_def)
  qed
qed

text \<open>
  C34. Old keys are kept exactly as long as promised.  After any number of rotations with keys that
  are not empty, version \<open>v\<close> of the key can be looked up if and only if it is the current one or
  one of the last \<open>limit\<close> before it, and then it is exactly the key that was given as the \<open>v\<close>-th;
  encryption uses the last one.
\<close>

theorem key_history:
  assumes "list_all (\<lambda>(_, _, key). key \<noteq> []) rs" "length rs < 2 ^ 32 - 2"
  shows "get_key v (rotations rs (key_manager_with_config sys inst k0 interval limit))
      = (if 0 < v \<and> unat v \<le> length rs + 1 \<and> length rs + 1 - unat v \<le> limit
         then Some ((k0 # map (\<lambda>r. snd (snd r)) rs) ! (unat v - 1)) else None)
    \<and> active_key (rotations rs (key_manager_with_config sys inst k0 interval limit)) = last (k0 # map (\<lambda>r. snd (snd r)) rs)
    \<and> unat (active_version (rotations rs (key_manager_with_config sys inst k0 interval limit))) = length rs + 1"
proof -
  note k = rotations_keep [OF assms, of k0 sys inst interval limit]
  let ?m = "rotations rs (key_manager_with_config sys inst k0 interval limit)"
  have "length (k0 # map (\<lambda>r. snd (snd r)) rs) = length rs + 1" by simp
  with keeps_get_key [OF conjunct1 [OF k], of v] k show ?thesis
    by (simp only: active_key_def active_version_def keeps_def)
qed

theorem key_history_witness:
  "get_key 2 (rotations [(1, 1, [2]), (2, 2, [3])] (key_manager_with_config 0 0 [1] 0 1)) = Some [2]
    \<and> get_key 1 (rotations [(1, 1, [2]), (2, 2, [3])] (key_manager_with_config 0 0 [1] 0 1)) = None"
  using key_history [of "[(1, 1, [2]), (2, 2, [3])]" 2 0 0 "[1]" 0 1] key_history [of "[(1, 1, [2]), (2, 2, [3])]" 1 0 0 "[1]" 0 1]
  by simp

text \<open>The versions are listed in order, each once.\<close>

lemma all_versions_ascending: "keeps keys m \<Longrightarrow> sorted_wrt (<) (all_versions m)"
proof -
  assume k: "keeps keys m"
  have "kv_version (km_active_key m) \<notin> fst ` set (km_retired_keys m)"
  proof
    assume "kv_version (km_active_key m) \<in> fst ` set (km_retired_keys m)"
    then have "unat (kv_version (km_active_key m)) \<in> unat ` fst ` set (km_retired_keys m)" by blast
    then show False using k by (simp add: keeps_def)
  qed
  then have "distinct (all_versions m)" using k by (auto simp: all_versions_def keeps_def)
  then show ?thesis by (simp add: strict_sorted_iff all_versions_def)
qed

lemma ide_defaults_valid: "validate_defaults ide_defaults = Inr ()"
  by (simp add: validate_defaults_def ide_defaults_def)

end
