(* ===== verification/Query_Cache.thy ===== *)
theory Query_Cache
  imports Load_Balancer
begin

text \<open>
  The cache of site map queries and the batch of pending updates
  (\<open>velocity-ide/src/site_map/query_cache.rs\<close>).  Instants are nanoseconds and arguments; the type of
  syntax nodes is left open.  The eviction loop is a partial function, \<open>None\<close> when it never ends.
\<close>

section \<open>Entries\<close>

datatype 'n CacheResult =
    TriplesForFile "(u64 \<times> u16 \<times> u64) list"
  | FileHash u64
  | NodeLookup "'n option"
  | ReverseDeps "u64 list"

fun kind_str :: "'n CacheResult \<Rightarrow> string" where
  "kind_str (TriplesForFile _) = ''TriplesForFile''"
| "kind_str (FileHash _) = ''FileHash''"
| "kind_str (NodeLookup _) = ''NodeLookup''"
| "kind_str (ReverseDeps _) = ''ReverseDeps''"

record 'n CacheEntry =
  ce_key :: u64
  ce_result :: "'n CacheResult"
  ce_created :: nat
  ce_ttl_seconds :: u64
  ce_access_count :: u64

definition is_expired :: "nat \<Rightarrow> 'n CacheEntry \<Rightarrow> bool" where
  "is_expired now e \<longleftrightarrow> unat (ce_ttl_seconds e) \<le> (now - ce_created e) div 1000000000"

record CacheStats =
  cs_hits :: u64
  cs_misses :: u64
  cs_entries :: nat
  cs_evictions :: u64
  cs_hit_rate :: fp

record 'n SitemapQueryCache =
  qc_cache :: "(u64 \<times> 'n CacheEntry) list"
  qc_lru_order :: "u64 list"
  qc_max_entries :: nat
  qc_hits :: u64
  qc_misses :: u64
  qc_evictions :: u64

definition DEFAULT_MAX_ENTRIES :: nat where
  "DEFAULT_MAX_ENTRIES = 256"

definition DEFAULT_TTL :: u64 where
  "DEFAULT_TTL = 30"

definition cache_new :: "nat \<Rightarrow> 'n SitemapQueryCache" where
  "cache_new max_entries = \<lparr>qc_cache = [], qc_lru_order = [], qc_max_entries = max_entries, qc_hits = 0, qc_misses = 0, qc_evictions = 0\<rparr>"

definition cache_default :: "'n SitemapQueryCache" where
  "cache_default = cache_new DEFAULT_MAX_ENTRIES"

section \<open>Operations\<close>

definition remove_entry :: "u64 \<Rightarrow> 'n SitemapQueryCache \<Rightarrow> 'n SitemapQueryCache" where
  "remove_entry key c = c\<lparr>qc_cache := AList.delete key (qc_cache c), qc_lru_order := filter (\<lambda>k. k \<noteq> key) (qc_lru_order c)\<rparr>"

definition evict_lru :: "'n SitemapQueryCache \<Rightarrow> 'n SitemapQueryCache" where
  "evict_lru c =
     (case qc_lru_order c of
        [] \<Rightarrow> c
      | victim # rest \<Rightarrow> c\<lparr>qc_lru_order := rest, qc_cache := AList.delete victim (qc_cache c), qc_evictions := qc_evictions c + 1\<rparr>)"

definition touch_lru :: "u64 \<Rightarrow> 'n SitemapQueryCache \<Rightarrow> 'n SitemapQueryCache" where
  "touch_lru key c = c\<lparr>qc_lru_order := filter (\<lambda>k. k \<noteq> key) (qc_lru_order c) @ [key]\<rparr>"

definition cache_get :: "nat \<Rightarrow> u64 \<Rightarrow> 'n SitemapQueryCache \<Rightarrow> 'n CacheResult option \<times> 'n SitemapQueryCache" where
  "cache_get now key c =
     (case map_of (qc_cache c) key of
        None \<Rightarrow> (None, c\<lparr>qc_misses := qc_misses c + 1\<rparr>)
      | Some e \<Rightarrow>
          if is_expired now e then (None, (remove_entry key c)\<lparr>qc_misses := qc_misses c + 1\<rparr>)
          else (Some (ce_result e),
            (touch_lru key (c\<lparr>qc_cache := AList.update key (e\<lparr>ce_access_count := ce_access_count e + 1\<rparr>) (qc_cache c)\<rparr>))
              \<lparr>qc_hits := qc_hits c + 1\<rparr>))"

partial_function (option) evict_loop :: "'n SitemapQueryCache \<Rightarrow> 'n SitemapQueryCache option" where
  "evict_loop c = (if qc_max_entries c \<le> length (qc_cache c) then evict_loop (evict_lru c) else Some c)"

definition cache_insert :: "nat \<Rightarrow> u64 \<Rightarrow> 'n CacheResult \<Rightarrow> u64 \<Rightarrow> 'n SitemapQueryCache \<Rightarrow> 'n SitemapQueryCache option" where
  "cache_insert now key result ttl c =
     (let c1 = (if map_of (qc_cache c) key \<noteq> None then remove_entry key c else c) in
      map_option (\<lambda>c2. c2\<lparr>qc_cache := AList.update key \<lparr>ce_key = key, ce_result = result, ce_created = now,
          ce_ttl_seconds = ttl, ce_access_count = 0\<rparr> (qc_cache c2), qc_lru_order := qc_lru_order c2 @ [key]\<rparr>)
        (evict_loop c1))"

definition insert_default :: "nat \<Rightarrow> u64 \<Rightarrow> 'n CacheResult \<Rightarrow> 'n SitemapQueryCache \<Rightarrow> 'n SitemapQueryCache option" where
  "insert_default now key result c = cache_insert now key result DEFAULT_TTL c"

definition invalidate_file :: "u64 \<Rightarrow> 'n SitemapQueryCache \<Rightarrow> 'n SitemapQueryCache" where
  "invalidate_file file_hash c = remove_entry file_hash c"

definition invalidate_files :: "u64 list \<Rightarrow> 'n SitemapQueryCache \<Rightarrow> 'n SitemapQueryCache" where
  "invalidate_files file_hashes c = fold remove_entry file_hashes c"

definition invalidate_all :: "'n SitemapQueryCache \<Rightarrow> 'n SitemapQueryCache" where
  "invalidate_all c = c\<lparr>qc_cache := [], qc_lru_order := []\<rparr>"

definition prune_expired :: "nat \<Rightarrow> 'n SitemapQueryCache \<Rightarrow> 'n SitemapQueryCache" where
  "prune_expired now c = fold remove_entry (map fst (filter (\<lambda>(_, e). is_expired now e) (qc_cache c))) c"

definition hit_rate :: "fops \<Rightarrow> 'n SitemapQueryCache \<Rightarrow> fp" where
  "hit_rate f c =
     (let total = qc_hits c + qc_misses c in
      if total = 0 then Fin 0 else fo_div f (fo_of_nat f (unat (qc_hits c))) (fo_of_nat f (unat total)))"

definition cache_stats :: "fops \<Rightarrow> 'n SitemapQueryCache \<Rightarrow> CacheStats" where
  "cache_stats f c = \<lparr>cs_hits = qc_hits c, cs_misses = qc_misses c, cs_entries = length (qc_cache c),
     cs_evictions = qc_evictions c, cs_hit_rate = hit_rate f c\<rparr>"

section \<open>Pending updates\<close>

text \<open>The dirty files are a set; the model lists them in an arbitrary order.\<close>

record IncrementalUpdater =
  iu_dirty_files :: "u64 list"
  iu_pending_triples :: "(u64 \<times> (u64 \<times> u16 \<times> u64) list) list"

definition updater_new :: IncrementalUpdater where
  "updater_new = \<lparr>iu_dirty_files = [], iu_pending_triples = []\<rparr>"

definition mark_dirty :: "u64 \<Rightarrow> (u64 \<times> u16 \<times> u64) list \<Rightarrow> IncrementalUpdater \<Rightarrow> IncrementalUpdater" where
  "mark_dirty file_hash triples u =
     u\<lparr>iu_dirty_files := List.insert file_hash (iu_dirty_files u),
       iu_pending_triples := AList.update file_hash
         ((case map_of (iu_pending_triples u) file_hash of Some ts \<Rightarrow> ts | None \<Rightarrow> []) @ triples) (iu_pending_triples u)\<rparr>"

definition flush_updates :: "IncrementalUpdater \<Rightarrow> (u64 \<times> (u64 \<times> u16 \<times> u64) list) list \<times> IncrementalUpdater" where
  "flush_updates u =
     (List.map_filter (\<lambda>fh. map_option (Pair fh) (map_of (iu_pending_triples u) fh)) (iu_dirty_files u),
      u\<lparr>iu_dirty_files := [], iu_pending_triples := fold AList.delete (iu_dirty_files u) (iu_pending_triples u)\<rparr>)"

definition pending_count :: "IncrementalUpdater \<Rightarrow> nat" where
  "pending_count u = length (iu_dirty_files u)"

definition is_dirty :: "u64 \<Rightarrow> IncrementalUpdater \<Rightarrow> bool" where
  "is_dirty file_hash u \<longleftrightarrow> file_hash \<in> set (iu_dirty_files u)"

definition clear_updates :: "IncrementalUpdater \<Rightarrow> IncrementalUpdater" where
  "clear_updates u = u\<lparr>iu_dirty_files := [], iu_pending_triples := []\<rparr>"

definition pending_triple_count :: "IncrementalUpdater \<Rightarrow> nat" where
  "pending_triple_count u = sum_list (map (\<lambda>(_, ts). length ts) (iu_pending_triples u))"

section \<open>The invariant of the cache\<close>

definition cache_ok :: "'n SitemapQueryCache \<Rightarrow> bool" where
  "cache_ok c \<longleftrightarrow> distinct (map fst (qc_cache c)) \<and> distinct (qc_lru_order c) \<and> set (qc_lru_order c) = set (map fst (qc_cache c))
     \<and> length (qc_cache c) \<le> qc_max_entries c"

lemma update_absent: "k \<notin> fst ` set xs \<Longrightarrow> AList.update k v xs = xs @ [(k, v)]"
  by (induction xs) auto

lemma cache_ok_length: "cache_ok c \<Longrightarrow> length (qc_lru_order c) = length (qc_cache c)"
  unfolding cache_ok_def by (metis distinct_card length_map)

lemma cache_ok_mem: "cache_ok c \<Longrightarrow> map_of (qc_cache c) k = None \<longleftrightarrow> k \<notin> set (qc_lru_order c)"
  by (simp add: cache_ok_def map_of_eq_None_iff)

lemma remove_entry_ok: "cache_ok c \<Longrightarrow> cache_ok (remove_entry key c)"
  using length_delete_le [of key "qc_cache c"] by (auto simp: cache_ok_def remove_entry_def delete_keys distinct_removeAll)

lemma fold_remove_ok: "cache_ok c \<Longrightarrow> cache_ok (fold remove_entry ks c)"
  by (induction ks arbitrary: c) (auto simp: remove_entry_ok)

lemma cache_get_ok: "cache_ok c \<Longrightarrow> cache_ok (snd (cache_get now key c))"
proof -
  assume ok: "cache_ok c"
  show ?thesis
  proof (cases "map_of (qc_cache c) key")
    case None
    then show ?thesis using ok by (simp add: cache_get_def cache_ok_def)
  next
    case (Some e)
    then have "key \<in> set (map fst (qc_cache c))" by (force dest: map_of_SomeD)
    then have keys: "map fst (AList.update key e' (qc_cache c)) = map fst (qc_cache c)" for e' by (simp only: update_keys if_True)
    then have len: "length (AList.update key e' (qc_cache c)) = length (qc_cache c)" for e' by (metis length_map)
    have mem: "key \<in> set (qc_lru_order c)" using ok Some cache_ok_mem [OF ok, of key] by simp
    have "cache_ok ((remove_entry key c)\<lparr>qc_misses := m\<rparr>)" for m
      using remove_entry_ok [OF ok, of key] by (simp add: cache_ok_def)
    moreover have "cache_ok ((touch_lru key (c\<lparr>qc_cache := AList.update key e' (qc_cache c)\<rparr>))\<lparr>qc_hits := h\<rparr>)" for e' h
      using ok mem unfolding cache_ok_def by (auto simp: touch_lru_def keys len simp del: set_map)
    ultimately show ?thesis using Some by (simp add: cache_get_def)
  qed
qed

lemma evict_ok:
  assumes "cache_ok c" "qc_lru_order c = v # vs"
  shows "cache_ok (evict_lru c)" "qc_lru_order (evict_lru c) = vs" "length (qc_cache (evict_lru c)) < length (qc_cache c)"
    "qc_max_entries (evict_lru c) = qc_max_entries c"
proof -
  show lru: "qc_lru_order (evict_lru c) = vs" by (simp add: evict_lru_def assms(2))
  have v: "v \<notin> set vs" "set (map fst (qc_cache c)) = insert v (set vs)" using assms by (auto simp: cache_ok_def)
  show ok: "cache_ok (evict_lru c)"
    using assms v length_delete_le [of v "qc_cache c"]
    by (auto simp: cache_ok_def evict_lru_def delete_keys distinct_removeAll simp del: set_map)
  show "length (qc_cache (evict_lru c)) < length (qc_cache c)"
    using cache_ok_length [OF assms(1)] cache_ok_length [OF ok] by (simp add: lru assms(2))
  show "qc_max_entries (evict_lru c) = qc_max_entries c" by (simp add: evict_lru_def split: list.split)
qed

text \<open>With room for an entry the eviction ends, after at most one entry.\<close>

lemma evict_loop_once:
  assumes "cache_ok c" "0 < qc_max_entries c"
  shows "evict_loop c = Some (if length (qc_cache c) = qc_max_entries c then evict_lru c else c)"
proof (cases "length (qc_cache c) = qc_max_entries c")
  case True
  then obtain v vs where v: "qc_lru_order c = v # vs"
    using assms cache_ok_length [OF assms(1)] by (cases "qc_lru_order c") auto
  from evict_ok [OF assms(1) v] True show ?thesis by (simp add: evict_loop.simps [of c] evict_loop.simps [of "evict_lru c"])
next
  case False
  then show ?thesis using assms(1) by (simp add: evict_loop.simps [of c] cache_ok_def)
qed

text \<open>Without any room it never ends.\<close>

lemma evict_loop_diverges: "qc_max_entries c = 0 \<Longrightarrow> evict_loop c = None"
proof -
  have "qc_max_entries c \<noteq> 0" if "evict_loop c = Some c'" for c c' :: "'a SitemapQueryCache"
  proof (rule evict_loop.raw_induct [where P = "\<lambda>c _. qc_max_entries c \<noteq> 0", OF _ that])
    fix loop and c c' :: "'a SitemapQueryCache"
    assume step: "\<And>c c'. loop c = Some c' \<Longrightarrow> qc_max_entries c \<noteq> 0"
      "(if qc_max_entries c \<le> length (qc_cache c) then loop (evict_lru c) else Some c) = Some c'"
    have "qc_max_entries (evict_lru c) = qc_max_entries c" by (simp add: evict_lru_def split: list.split)
    with step show "qc_max_entries c \<noteq> 0" by (metis le_zero_eq linorder_not_less zero_le)
  qed
  then show "qc_max_entries c = 0 \<Longrightarrow> evict_loop c = None" by (cases "evict_loop c") auto
qed

lemma insert_without_room_diverges: "cache_insert now key result ttl (cache_new 0) = None"
  by (simp add: cache_insert_def Let_def cache_new_def evict_loop_diverges)

text \<open>What an insertion does: the old entry goes, then the least recently used one if there is no room.\<close>

lemma cache_insert_returns:
  assumes "cache_ok c" "0 < qc_max_entries c"
  obtains c2 c' where "cache_insert now key result ttl c = Some c'" "cache_ok c'" "qc_max_entries c' = qc_max_entries c"
    "c2 = remove_entry key c" "qc_lru_order c' = (if length (qc_lru_order c2) = qc_max_entries c then tl (qc_lru_order c2) else qc_lru_order c2) @ [key]"
    "\<And>k e. map_of (qc_cache c') k = Some e \<Longrightarrow> if k = key then e = \<lparr>ce_key = key, ce_result = result, ce_created = now,
          ce_ttl_seconds = ttl, ce_access_count = 0\<rparr> else map_of (qc_cache c) k = Some e"
proof -
  define c2 where "c2 = remove_entry key c"
  have same: "(if map_of (qc_cache c) key \<noteq> None then remove_entry key c else c) = c2"
  proof (cases "map_of (qc_cache c) key")
    case None
    then have "key \<notin> fst ` set (qc_cache c)" "key \<notin> set (qc_lru_order c)" using cache_ok_mem [OF assms(1), of key] by (simp_all add: map_of_eq_None_iff)
    moreover from this have "filter (\<lambda>k. k \<noteq> key) (qc_lru_order c) = qc_lru_order c" unfolding filter_id_conv by blast
    ultimately have "remove_entry key c = c" by (simp add: remove_entry_def)
    then show ?thesis using None by (simp add: c2_def)
  qed (simp add: c2_def)
  have ok2: "cache_ok c2" "qc_max_entries c2 = qc_max_entries c" using remove_entry_ok [OF assms(1)] by (simp_all add: c2_def remove_entry_def)
  define c3 where "c3 = (if length (qc_cache c2) = qc_max_entries c2 then evict_lru c2 else c2)"
  have loop: "evict_loop c2 = Some c3" using evict_loop_once [OF ok2(1)] assms(2) ok2(2) by (simp add: c3_def)
  have c3: "cache_ok c3 \<and> length (qc_cache c3) < qc_max_entries c \<and> qc_max_entries c3 = qc_max_entries c
    \<and> qc_lru_order c3 = (if length (qc_lru_order c2) = qc_max_entries c then tl (qc_lru_order c2) else qc_lru_order c2)"
  proof (cases "length (qc_cache c2) = qc_max_entries c2")
    case True
    then obtain v vs where v: "qc_lru_order c2 = v # vs"
      using assms(2) ok2 cache_ok_length [OF ok2(1)] by (cases "qc_lru_order c2") auto
    from evict_ok [OF ok2(1) v] True show ?thesis using v ok2(2) cache_ok_length [OF ok2(1)] by (simp add: c3_def)
  next
    case False
    then show ?thesis using ok2 cache_ok_length [OF ok2(1)] by (auto simp: c3_def cache_ok_def)
  qed
  have sub: "map_of (qc_cache c3) k = Some e \<Longrightarrow> k \<noteq> key \<and> map_of (qc_cache c) k = Some e" for k e
    by (auto simp: c3_def c2_def evict_lru_def remove_entry_def delete_conv' split: if_splits list.splits)
  have new: "key \<notin> set (qc_lru_order c3)" "key \<notin> fst ` set (qc_cache c3)"
    using sub [of key] c3 cache_ok_mem [of c3 key] by (auto simp: map_of_eq_None_iff [symmetric])
  let ?c' = "c3\<lparr>qc_cache := AList.update key \<lparr>ce_key = key, ce_result = result, ce_created = now,
          ce_ttl_seconds = ttl, ce_access_count = 0\<rparr> (qc_cache c3), qc_lru_order := qc_lru_order c3 @ [key]\<rparr>"
  have upd: "AList.update key x (qc_cache c3) = qc_cache c3 @ [(key, x)]" for x
    by (rule update_absent [OF new(2)])
  show thesis
  proof (rule that)
    show "cache_insert now key result ttl c = Some ?c'" unfolding cache_insert_def Let_def same loop by simp
    have "cache_ok c3" "length (qc_cache c3) < qc_max_entries c3" using c3 by simp_all
    then show "cache_ok ?c'" using new unfolding cache_ok_def by (simp add: upd)
    show "qc_max_entries ?c' = qc_max_entries c" using c3 by simp
    show "qc_lru_order ?c' = (if length (qc_lru_order c2) = qc_max_entries c then tl (qc_lru_order c2) else qc_lru_order c2) @ [key]"
      using c3 by simp
    show "if k = key then e = \<lparr>ce_key = key, ce_result = result, ce_created = now, ce_ttl_seconds = ttl, ce_access_count = 0\<rparr>
        else map_of (qc_cache c) k = Some e" if "map_of (qc_cache ?c') k = Some e" for k e
      using that sub [of k e] by (simp add: update_conv' split: if_splits)
  qed (simp add: c2_def)
qed


section \<open>What the cache answers\<close>

text \<open>The actions on a cache, and the entry that the last of them leave for a key.\<close>

datatype 'n cache_action =
    Get nat u64
  | Insert nat u64 "'n CacheResult" u64
  | Invalidate "u64 list"
  | InvalidateAll
  | Prune nat

fun cache_do :: "'n cache_action \<Rightarrow> 'n SitemapQueryCache \<Rightarrow> 'n SitemapQueryCache option" where
  "cache_do (Get now key) c = Some (snd (cache_get now key c))"
| "cache_do (Insert now key result ttl) c = cache_insert now key result ttl c"
| "cache_do (Invalidate keys) c = Some (invalidate_files keys c)"
| "cache_do InvalidateAll c = Some (invalidate_all c)"
| "cache_do (Prune now) c = Some (prune_expired now c)"

fun cache_run :: "'n cache_action list \<Rightarrow> 'n SitemapQueryCache \<Rightarrow> 'n SitemapQueryCache option" where
  "cache_run [] c = Some c"
| "cache_run (a # as) c = Option.bind (cache_do a c) (cache_run as)"

fun stored_after :: "u64 \<Rightarrow> 'n cache_action \<Rightarrow> (nat \<times> 'n CacheResult \<times> u64) option \<Rightarrow> (nat \<times> 'n CacheResult \<times> u64) option" where
  "stored_after k (Insert now key result ttl) st = (if k = key then Some (now, result, ttl) else st)"
| "stored_after k (Invalidate keys) st = (if k \<in> set keys then None else st)"
| "stored_after k InvalidateAll st = None"
| "stored_after k _ st = st"

definition last_stored :: "u64 \<Rightarrow> 'n cache_action list \<Rightarrow> (nat \<times> 'n CacheResult \<times> u64) option" where
  "last_stored k as = fold (stored_after k) as None"

definition cache_holds :: "(u64 \<Rightarrow> (nat \<times> 'n CacheResult \<times> u64) option) \<Rightarrow> 'n SitemapQueryCache \<Rightarrow> bool" where
  "cache_holds st c \<longleftrightarrow> (\<forall>k e. map_of (qc_cache c) k = Some e \<longrightarrow> st k = Some (ce_created e, ce_result e, ce_ttl_seconds e))"

lemma fold_remove_map: "map_of (qc_cache (fold remove_entry ks c)) k = (if k \<in> set ks then None else map_of (qc_cache c) k)"
  by (induction ks arbitrary: c) (auto simp: remove_entry_def delete_conv')

lemma fold_remove_max: "qc_max_entries (fold remove_entry ks c) = qc_max_entries c"
  by (induction ks arbitrary: c) (auto simp: remove_entry_def)

lemma cache_do_holds:
  assumes "cache_ok c" "0 < qc_max_entries c" "cache_holds st c"
  shows "\<exists>c'. cache_do a c = Some c' \<and> cache_ok c' \<and> qc_max_entries c' = qc_max_entries c \<and> cache_holds (\<lambda>k. stored_after k a (st k)) c'"
proof (cases a)
  case (Get now key)
  have "qc_max_entries (snd (cache_get now key c)) = qc_max_entries c"
    by (simp add: cache_get_def remove_entry_def touch_lru_def split: option.split)
  moreover have "cache_holds st (snd (cache_get now key c))"
    using assms(3) by (auto simp: cache_holds_def cache_get_def remove_entry_def touch_lru_def delete_conv' update_conv' split: option.splits if_splits)
  ultimately show ?thesis using cache_get_ok [OF assms(1)] by (simp add: Get)
next
  case (Insert now key result ttl)
  obtain c' where c': "cache_insert now key result ttl c = Some c'" "cache_ok c'" "qc_max_entries c' = qc_max_entries c"
    "\<And>k e. map_of (qc_cache c') k = Some e \<Longrightarrow> if k = key then e = \<lparr>ce_key = key, ce_result = result, ce_created = now,
          ce_ttl_seconds = ttl, ce_access_count = 0\<rparr> else map_of (qc_cache c) k = Some e"
    using cache_insert_returns [OF assms(1,2), of now key result ttl] by blast
  have "cache_holds (\<lambda>k. stored_after k a (st k)) c'"
    unfolding cache_holds_def
  proof (intro allI impI)
    show "stored_after k a (st k) = Some (ce_created e, ce_result e, ce_ttl_seconds e)" if "map_of (qc_cache c') k = Some e" for k e
      using c'(4) [OF that] assms(3) by (auto simp: Insert cache_holds_def split: if_splits)
  qed
  with c' show ?thesis by (simp add: Insert)
next
  case (Invalidate keys)
  then show ?thesis using assms by (simp add: invalidate_files_def fold_remove_ok fold_remove_max cache_holds_def fold_remove_map)
next
  case InvalidateAll
  then show ?thesis by (simp add: invalidate_all_def cache_ok_def cache_holds_def)
next
  case (Prune now)
  then show ?thesis using assms by (simp add: prune_expired_def fold_remove_ok fold_remove_max cache_holds_def fold_remove_map)
qed

lemma cache_run_holds:
  assumes "cache_ok c" "0 < qc_max_entries c" "cache_holds st c"
  shows "\<exists>c'. cache_run as c = Some c' \<and> cache_ok c' \<and> qc_max_entries c' = qc_max_entries c \<and> cache_holds (\<lambda>k. fold (stored_after k) as (st k)) c'"
  using assms
proof (induction as arbitrary: c st)
  case (Cons a as)
  from cache_do_holds [OF Cons.prems, of a] obtain c1 where c1: "cache_do a c = Some c1" "cache_ok c1"
    "qc_max_entries c1 = qc_max_entries c" "cache_holds (\<lambda>k. stored_after k a (st k)) c1" by blast
  have "0 < qc_max_entries c1" using c1(3) Cons.prems(2) by simp
  from Cons.IH [OF c1(2) this c1(4)] c1(1,3) show ?case by simp
qed simp

lemma cache_new_ok: "cache_ok (cache_new n)" "cache_holds st (cache_new n)"
  by (simp_all add: cache_ok_def cache_new_def cache_holds_def)

text \<open>
  C30. The cache is bounded and never stale.  With room for at least one entry every operation
  returns, the cache never holds more entries than its capacity, and a hit answers exactly what was
  inserted last for the key, which has not been invalidated since and is younger than its time to live.
\<close>

theorem cache_never_stale:
  assumes "0 < max_entries"
  shows "\<exists>c. cache_run as (cache_new max_entries) = Some c \<and> length (qc_cache c) \<le> max_entries
    \<and> (\<forall>now k r. fst (cache_get now k c) = Some r \<longrightarrow>
        (\<exists>created ttl. last_stored k as = Some (created, r, ttl) \<and> (now - created) div 1000000000 < unat ttl))"
proof -
  have "0 < qc_max_entries (cache_new max_entries)" using assms by (simp add: cache_new_def)
  from cache_run_holds [OF cache_new_ok(1) this cache_new_ok(2), of as "\<lambda>_. None"]
  obtain c where c: "cache_run as (cache_new max_entries) = Some c" "cache_ok c" "qc_max_entries c = max_entries"
    "cache_holds (\<lambda>k. last_stored k as) c" by (auto simp: last_stored_def cache_new_def)
  have "\<exists>created ttl. last_stored k as = Some (created, r, ttl) \<and> (now - created) div 1000000000 < unat ttl"
    if "fst (cache_get now k c) = Some r" for now k r
  proof -
    from that obtain e where e: "map_of (qc_cache c) k = Some e" "\<not> is_expired now e" "r = ce_result e"
      by (auto simp: cache_get_def split: option.splits if_splits)
    then have "last_stored k as = Some (ce_created e, r, ce_ttl_seconds e)" using c(4) by (simp add: cache_holds_def)
    then show ?thesis using e(2) by (simp add: is_expired_def)
  qed
  with c show ?thesis by (auto simp: cache_ok_def)
qed

theorem cache_never_stale_witness:
  "\<exists>c. cache_run [Insert 0 1 (FileHash 7) 30, Insert 5 2 (FileHash 8) 30, Invalidate [1]] (cache_new 2 :: nat SitemapQueryCache) = Some c
    \<and> fst (cache_get 6 1 c) \<noteq> Some (FileHash 7)"
proof -
  let ?as = "[Insert 0 1 (FileHash 7) 30, Insert 5 2 (FileHash 8) 30, Invalidate [1]] :: nat cache_action list"
  obtain c where c: "cache_run ?as (cache_new 2) = Some c"
    "\<forall>now k r. fst (cache_get now k c) = Some r \<longrightarrow>
        (\<exists>created ttl. last_stored k ?as = Some (created, r, ttl) \<and> (now - created) div 1000000000 < unat ttl)"
    using cache_never_stale [of 2 ?as] by auto
  have "last_stored 1 ?as = None" by (simp add: last_stored_def)
  with c show ?thesis by fastforce
qed

section \<open>Least recently used\<close>

text \<open>
  A client that looks a key up and inserts what it computes on a miss.  A use carries its instant, the
  time to live, the result computed on a miss and the key.
\<close>

type_synonym 'n key_use = "nat \<times> u64 \<times> 'n CacheResult \<times> u64"

definition use_key :: "'n key_use \<Rightarrow> 'n SitemapQueryCache \<Rightarrow> 'n SitemapQueryCache option" where
  "use_key u c =
     (case u of (now, ttl, result, k) \<Rightarrow>
        (case cache_get now k c of (Some _, c1) \<Rightarrow> Some c1 | (None, c1) \<Rightarrow> cache_insert now k result ttl c1))"

fun use_keys :: "'n key_use list \<Rightarrow> 'n SitemapQueryCache \<Rightarrow> 'n SitemapQueryCache option" where
  "use_keys [] c = Some c"
| "use_keys (u # us) c = Option.bind (use_key u c) (use_keys us)"

definition use_of :: "'n key_use \<Rightarrow> u64" where
  "use_of u = (case u of (now, ttl, result, k) \<Rightarrow> k)"

text \<open>The last \<open>m\<close> elements; \<open>remdups\<close> keeps the last occurrence of each key, so it lists by recency.\<close>

definition last_n :: "nat \<Rightarrow> 'a list \<Rightarrow> 'a list" where
  "last_n m xs = drop (length xs - m) xs"

lemma remdups_snoc: "remdups (xs @ [x]) = filter (\<lambda>y. y \<noteq> x) (remdups xs) @ [x]"
  by (induction xs) auto

lemma length_filter_one: "distinct R \<Longrightarrow> k \<in> set R \<Longrightarrow> Suc (length (filter (\<lambda>y. y \<noteq> k) R)) = length R"
proof (induction R)
  case (Cons x R)
  show ?case
  proof (cases "x = k")
    case True
    with Cons.prems(1) have "filter (\<lambda>y. y \<noteq> k) R = R" unfolding filter_id_conv by auto
    with True show ?thesis by simp
  qed (use Cons in simp)
qed simp

lemma last_n_touch:
  assumes "distinct R" "k \<in> set (last_n m R)"
  shows "filter (\<lambda>y. y \<noteq> k) (last_n m R) @ [k] = last_n m (filter (\<lambda>y. y \<noteq> k) R @ [k])"
proof -
  define T where "T = take (length R - m) R"
  have R: "R = T @ last_n m R" by (simp add: T_def last_n_def)
  have T: "k \<notin> set T" using assms R by (metis IntI distinct_append empty_iff)
  have eq: "filter (\<lambda>y. y \<noteq> k) R = T @ filter (\<lambda>y. y \<noteq> k) (last_n m R)" using T by (subst R) (auto simp: filter_id_conv)
  have "k \<in> set R" "distinct R" using assms R by (metis UnCI set_append, simp)
  then have "Suc (length (filter (\<lambda>y. y \<noteq> k) R)) = length R" by (intro length_filter_one)
  then have "last_n m (filter (\<lambda>y. y \<noteq> k) R @ [k]) = drop (length R - m) (T @ filter (\<lambda>y. y \<noteq> k) (last_n m R) @ [k])"
    by (simp add: last_n_def eq)
  then show ?thesis by (simp add: T_def)
qed


lemma last_n_miss:
  assumes "distinct R" "k \<notin> set (last_n m R)" "0 < m"
  shows "(if length (last_n m R) = m then tl (last_n m R) else last_n m R) @ [k] = last_n m (filter (\<lambda>y. y \<noteq> k) R @ [k])"
proof -
  define T where "T = take (length R - m) R"
  define L where "L = last_n m R"
  have R: "R = T @ L" by (simp add: T_def L_def last_n_def)
  have "filter (\<lambda>y. y \<noteq> k) L = L" using assms(2) unfolding filter_id_conv L_def by blast
  then have eq: "filter (\<lambda>y. y \<noteq> k) R = filter (\<lambda>y. y \<noteq> k) T @ L" by (simp add: R)
  show ?thesis
  proof (cases "length R < m")
    case True
    then have "T = []" "length L \<noteq> m" by (simp_all add: T_def L_def last_n_def)
    then show ?thesis using True R eq by (simp add: L_def [symmetric] last_n_def)
  next
    case False
    then have len: "length L = m" "length T = length R - m" by (simp_all add: T_def L_def last_n_def)
    have "length (filter (\<lambda>y. y \<noteq> k) T @ L @ [k]) - m = length (filter (\<lambda>y. y \<noteq> k) T) + 1" using len(1) by simp
    then have "last_n m (filter (\<lambda>y. y \<noteq> k) R @ [k]) = drop 1 (L @ [k])" by (simp add: last_n_def eq)
    moreover have "L \<noteq> []" using len(1) assms(3) by auto
    ultimately show ?thesis using len(1) by (cases L) (simp_all add: L_def [symmetric])
  qed
qed

definition lru_state :: "nat \<Rightarrow> u64 list \<Rightarrow> 'n SitemapQueryCache \<Rightarrow> bool" where
  "lru_state m hs c \<longleftrightarrow> cache_ok c \<and> qc_max_entries c = m \<and> qc_lru_order c = last_n m (remdups hs)"

lemma cache_get_order:
  "qc_lru_order (snd (cache_get now k c)) =
     (case map_of (qc_cache c) k of
        None \<Rightarrow> qc_lru_order c
      | Some e \<Rightarrow> filter (\<lambda>y. y \<noteq> k) (qc_lru_order c) @ (if is_expired now e then [] else [k]))"
  "qc_max_entries (snd (cache_get now k c)) = qc_max_entries c"
  "fst (cache_get now k c) = None \<longleftrightarrow> (case map_of (qc_cache c) k of None \<Rightarrow> True | Some e \<Rightarrow> is_expired now e)"
  by (simp_all add: cache_get_def remove_entry_def touch_lru_def split: option.split)

text \<open>An insertion of a key that is not listed, after a miss or an expired hit.\<close>

lemma insert_order:
  assumes "cache_ok c" "0 < qc_max_entries c" "k \<notin> set (qc_lru_order c)"
  obtains c' where "cache_insert now k result ttl c = Some c'" "cache_ok c'" "qc_max_entries c' = qc_max_entries c"
    "qc_lru_order c' = (if length (qc_lru_order c) = qc_max_entries c then tl (qc_lru_order c) else qc_lru_order c) @ [k]"
proof -
  have "filter (\<lambda>j. j \<noteq> k) (qc_lru_order c) = qc_lru_order c" using assms(3) unfolding filter_id_conv by blast
  then have "qc_lru_order (remove_entry k c) = qc_lru_order c" by (simp add: remove_entry_def)
  with cache_insert_returns [OF assms(1,2), of now k result ttl] show thesis using that by metis
qed

lemma use_key_lru:
  assumes st: "lru_state m hs c" and m: "0 < m"
  shows "\<exists>c'. use_key (now, ttl, result, k) c = Some c' \<and> lru_state m (hs @ [k]) c'"
proof -
  let ?R = "remdups hs" and ?c1 = "snd (cache_get now k c)"
  have c: "cache_ok c" "qc_max_entries c = m" "qc_lru_order c = last_n m ?R" using st by (simp_all add: lru_state_def)
  have c1: "cache_ok ?c1" "qc_max_entries ?c1 = m" using cache_get_ok [OF c(1)] c(2) cache_get_order(2) by metis+
  have mem: "k \<in> set (last_n m ?R) \<longleftrightarrow> map_of (qc_cache c) k \<noteq> None" using cache_ok_mem [OF c(1), of k] c(3) by simp
  have len: "length (last_n m ?R) \<le> m" by (simp add: last_n_def)
  show ?thesis
  proof (cases "fst (cache_get now k c) = None")
    case False
    then obtain e where e: "map_of (qc_cache c) k = Some e" "\<not> is_expired now e"
      unfolding cache_get_order(3) by (auto split: option.splits)
    have "use_key (now, ttl, result, k) c = Some ?c1" using False by (cases "cache_get now k c") (auto simp: use_key_def)
    moreover have "qc_lru_order ?c1 = filter (\<lambda>y. y \<noteq> k) (last_n m ?R) @ [k]" using e c(3) by (simp add: cache_get_order)
    moreover have "k \<in> set (last_n m ?R)" using mem e by simp
    ultimately show ?thesis using c1 last_n_touch [OF distinct_remdups, of k m hs] by (simp add: lru_state_def remdups_snoc)
  next
    case True
    have run: "use_key (now, ttl, result, k) c = cache_insert now k result ttl ?c1"
      using True by (cases "cache_get now k c") (simp add: use_key_def)
    have o1: "qc_lru_order ?c1 = filter (\<lambda>y. y \<noteq> k) (last_n m ?R)"
    proof (cases "map_of (qc_cache c) k")
      case None
      then have "filter (\<lambda>y. y \<noteq> k) (last_n m ?R) = last_n m ?R" using mem unfolding filter_id_conv by blast
      with None c(3) show ?thesis by (simp add: cache_get_order)
    next
      case (Some e)
      with True have "is_expired now e" by (simp add: cache_get_order)
      with Some c(3) show ?thesis by (simp add: cache_get_order)
    qed
    have "0 < qc_max_entries ?c1" "k \<notin> set (qc_lru_order ?c1)" using c1(2) m o1 by simp_all
    from insert_order [OF c1(1) this, of now result ttl] obtain c' where c': "cache_insert now k result ttl ?c1 = Some c'"
      "cache_ok c'" "qc_max_entries c' = m"
      "qc_lru_order c' = (if length (qc_lru_order ?c1) = m then tl (qc_lru_order ?c1) else qc_lru_order ?c1) @ [k]"
      using c1(2) by metis
    have "qc_lru_order c' = last_n m (remdups (hs @ [k]))"
    proof (cases "k \<in> set (last_n m ?R)")
      case True
      have "distinct (last_n m ?R)" by (simp add: last_n_def)
      from length_filter_one [OF this True] len have "length (qc_lru_order ?c1) \<noteq> m" using o1 by simp
      with c'(4) o1 last_n_touch [OF distinct_remdups True] show ?thesis by (simp add: remdups_snoc)
    next
      case False
      then have "filter (\<lambda>y. y \<noteq> k) (last_n m ?R) = last_n m ?R" unfolding filter_id_conv by blast
      with o1 have o2: "qc_lru_order ?c1 = last_n m ?R" by simp
      show ?thesis unfolding c'(4) o2 remdups_snoc by (rule last_n_miss [OF distinct_remdups False m])
    qed
    with c' run show ?thesis by (simp add: lru_state_def)
  qed
qed

text \<open>
  C29. Eviction is least recently used.  A cache with room for at least one entry, used by a client
  that looks keys up and inserts what it misses, lists after any sequence of such uses, at any
  instants and with any times to live, exactly the last different keys used, as many as the capacity,
  in the order of their last use, and holds entries for exactly these; an entry that has expired is
  replaced when its key is used, and counts until then.  A cache of capacity zero is outside this
  (\<open>insert_without_room_diverges\<close>).
\<close>

theorem cache_is_lru:
  assumes "0 < max_entries"
  shows "\<exists>c. use_keys us (cache_new max_entries) = Some c \<and> qc_lru_order c = last_n max_entries (remdups (map use_of us))
    \<and> set (map fst (qc_cache c)) = set (last_n max_entries (remdups (map use_of us)))"
proof -
  have run: "\<exists>c'. use_keys us c = Some c' \<and> lru_state max_entries (hs @ map use_of us) c'"
    if "lru_state max_entries hs c" for hs and c :: "'a SitemapQueryCache"
    using that
  proof (induction us arbitrary: hs c)
    case (Cons u us)
    obtain now ttl result k where u: "u = (now, ttl, result, k)" by (metis surj_pair)
    from use_key_lru [OF Cons.prems assms, of now ttl result k] obtain c1 where c1: "use_key u c = Some c1"
      "lru_state max_entries (hs @ [k]) c1" unfolding u by blast
    from Cons.IH [OF c1(2)] c1(1) show ?case by (simp add: use_of_def u)
  qed simp
  have "lru_state max_entries [] (cache_new max_entries :: 'a SitemapQueryCache)"
    by (simp add: lru_state_def last_n_def cache_new_ok) (simp add: cache_new_def)
  from run [OF this] show ?thesis by (auto simp: lru_state_def cache_ok_def)
qed

text \<open>In the run, the entry of key 1 has expired when the key is used again.\<close>

definition demo_uses :: "nat key_use list" where
  "demo_uses = [(0, 30, FileHash 1, 1), (5, 30, FileHash 2, 2), (6000000000, 30, FileHash 3, 3),
     (40000000000, 30, FileHash 7, 1), (41000000000, 30, FileHash 4, 4)]"

theorem cache_is_lru_witness:
  "\<exists>c. use_keys demo_uses (cache_new 3) = Some c \<and> qc_lru_order c = [3, 1, 4]"
  using cache_is_lru [of 3 demo_uses] by (auto simp: last_n_def demo_uses_def use_of_def)

section \<open>Pending updates are flushed once\<close>

definition updater_ok :: "IncrementalUpdater \<Rightarrow> bool" where
  "updater_ok u \<longleftrightarrow> distinct (iu_dirty_files u) \<and> distinct (map fst (iu_pending_triples u))
     \<and> set (iu_dirty_files u) = fst ` set (iu_pending_triples u)"

lemma updater_new_ok: "updater_ok updater_new"
  by (simp add: updater_ok_def updater_new_def)

lemma mark_dirty_ok: "updater_ok u \<Longrightarrow> updater_ok (mark_dirty fh ts u)"
proof -
  assume ok: "updater_ok u"
  have "fst ` set (AList.update fh x (iu_pending_triples u)) = insert fh (fst ` set (iu_pending_triples u))" for x
    using dom_update [of fh x "iu_pending_triples u"] by (simp add: dom_map_of_conv_image_fst [symmetric] update_conv')
  with ok show ?thesis by (simp add: updater_ok_def mark_dirty_def distinct_update)
qed

end
