(* ===== verification/Spec2Isabelle.thy ===== *)
theory Spec2Isabelle
  imports Replication_Net Text_Merge Partition Coordination Playbooks Rotation Task_Registry Rule_History Rule_Limits
    Rate_Limit Event_Tools Conflict_Groups Circuit_Breaker Attribution Security_Policy Panel_Demo Resource_Locks Key_Rotation Query_Cache
begin

text \<open>
  A verification library for the coordination core of the V.E.L.O.C.I.T.Y. IDE: the parts that
  decide which agent may write where, which action may run, how the work is planned and how
  replicated state converges.  The code is Rust, in the crates \<open>velocity-mcp\<close> and
  \<open>velocity-ide\<close>; paths below are relative to \<open>src/velocity-mcp/src\<close> unless they say
  otherwise.  Definitions keep the names of the code.  A struct is a record with prefixed fields,
  an enum a datatype, a \<open>u64\<close> a 64-bit word; a \<open>usize\<close> is a natural number where it counts
  elements of a list in memory; \<open>f64\<close> amounts are the type \<open>fp\<close> of the prelude (a rational, an
  infinity or not-a-number, with IEEE comparisons); a \<open>HashMap\<close> whose order can show is an
  association list in an arbitrary order, so that what is proved holds for every iteration order;
  a \<open>BTreeMap\<close> is a sorted association list.  Errors are left summands or \<open>None\<close>.

  \<^bold>\<open>The replicated log.\<close>  Every mutation becomes an operation with a vector clock; nodes exchange
  operations and fold them to the same state.
  \<^item> \<open>Principal\<close> (\<open>automation/principal.rs\<close>): identities, operation ids, vector clocks.  The
    merge is a join, the comparison decides the pointwise order.
  \<^item> \<open>Op_Log\<close> (\<open>automation/oplog.rs\<close>): the log and \<open>materialize\<close>, a last-write-wins fold that
    depends neither on the order nor on the repetition of operations.
  \<^item> \<open>Op_Log_Store\<close> (\<open>automation/op_log_store.rs\<close>): the append-only file, with a disk that may stop
    a write at any byte; a batch appended at a line boundary survives as a prefix, a torn record
    costs its successor, and an unended one both.
  \<^item> \<open>Text_Merge\<close> (\<open>automation/merge.rs\<close>), \<open>Partition\<close> (\<open>automation/partition.rs\<close>): the merge of
    texts, and the fold by scope, which agrees with the fold of the whole.
  \<^item> \<open>Attribution\<close> (\<open>automation/change_attribution.rs\<close>, \<open>automation/governor.rs\<close>): the producers of the
    log, attributed changes and recorded denials; run one at a time, on any disk, they leave no two
    operations with one id in the log.  The locale \<open>op_producer\<close> is what their operations have in common.
  \<^item> \<open>Replication\<close>, \<open>Replication_Net\<close> (\<open>automation/replication.rs\<close>, the round of
    \<open>agent/peer_link.rs\<close>): the exchange; an abstract network \<open>net_step\<close> over lists of operations, in
    which one round makes two nodes equal; and the network \<open>file_run\<close> of the functions of the code
    over files on any disk, which refines it, so that its logs are causally complete, as long as
    every append found its log at a line boundary.

  \<^bold>\<open>Coordination of writers.\<close>
  \<^item> \<open>Site_Map\<close> (\<open>velocity-ide/src/site_map/store.rs\<close>): file snapshots, index root, live triples and
    the predicate index, which stays coherent except after a failed removal.
  \<^item> \<open>Write_Gate\<close> (\<open>automation/write_gate.rs\<close>): the lock table; no two agents hold overlapping
    locks, and \<open>acquire\<close> refuses exactly on a conflict.
  \<^item> \<open>Coordination\<close> (\<open>automation/mediator.rs\<close>, \<open>orchestrator/worker/scope.rs\<close>,
    \<open>agent/coordination.rs\<close>): the mediator, the scope locks of a worker and the message bus over
    one shared gate; the locale \<open>lock_table\<close> is their interface.

  \<^bold>\<open>The organisation\<close> (\<open>editor/company_org.rs\<close>, \<open>editor/workflow/mod.rs\<close>).
  \<^item> \<open>Workflow_Engine\<close>: the execution of workflow steps, conditions and fan-outs; a failed gate
    stops the run.
  \<^item> \<open>Company_Org\<close>, \<open>Org_Preset\<close>: roles, grants and policies, the decision \<open>check_permission\<close>, and
    the built-in organisation with the gates it can and cannot pass.
  \<^item> \<open>Approval_Ledger\<close>: the durable queue of requests, from submission to execution; an approval
    needs its quorum of designated approvers, whatever the disk does.
  \<^item> \<open>Elevation\<close>: just-in-time elevations, the audit ledger and the release of secrets; consumptions
    exceed mints by at most the writes the disk refused.
  \<^item> \<open>Playbooks\<close>: runs of playbooks through the gate, handoffs from one to the next, schedules.
  \<^item> \<open>Rotation\<close>: proposal and execution of credential rotations, and their dual control.

  \<^bold>\<open>The orchestrator\<close> (\<open>orchestrator/\<close>, \<open>editor/orchestrator/\<close>).
  \<^item> \<open>Task_Graph\<close> (\<open>blueprint.rs\<close>, \<open>scheduler.rs\<close>): the graph of tasks and the plan in
    conflict-free phases, against the inductive specification \<open>schedulable\<close>.
  \<^item> \<open>Cycle_Check\<close> (\<open>scheduler.rs\<close>): the cycle check, exact with respect to acyclicity of the
    dependency relation, and the repair, which takes out dependencies on cycles until none is left
    and changes nothing else.
  \<^item> \<open>Task_Registry\<close> (\<open>registry.rs\<close>, \<open>reconcile.rs\<close>, \<open>validator.rs\<close>, \<open>worker/types.rs\<close> and the
    settlement of results in \<open>panel/execution.rs\<close>): statuses, dispatch, reconciliation of outputs
    and the propagation of failures.
  \<^item> \<open>Load_Balancer\<close> (\<open>load_balancer.rs\<close>): the admission of tasks to workers, exact for every
    strategy, and the moves of a rebalancing, over any arithmetic of \<open>f64\<close>.
  \<^item> \<open>Panel_Plan\<close> (\<open>panel/struct_def.rs\<close>, \<open>panel/authoring.rs\<close>, \<open>types.rs\<close>): the plan that a person
    writes or a goal is routed into; an added task leaves the plan runnable.
  \<^item> \<open>Panel_Runtime\<close> (\<open>panel/execution.rs\<close>): the poll that settles, watches and dispatches workers,
    and the actions on tasks.  \<open>Panel_Seats\<close>, \<open>Panel_Polls\<close> and \<open>Panel_Watchdog\<close> hold its step relation
    and what holds of it: running tasks hold distinct seats within the highest cap, polls return,
    silent workers are given up in any sequence of polls (\<open>poll_all\<close>); a plan that is replaced while
    workers run keeps their seats occupied, for a cap that is set at the start (\<open>capped_run\<close>).  \<open>Panel_Demo\<close> runs a plan of one task.

  \<^bold>\<open>The rules engine\<close> (\<open>rules/\<close>): rules that refuse tool calls, kept in two durable files and a task
  store.
  \<^item> \<open>Rule_Model\<close> (\<open>model.rs\<close>), \<open>Rule_Matcher\<close> (\<open>matcher.rs\<close>, \<open>verify.rs\<close>): the data, which calls
    a rule matches, and the witness pairs that prove a rule can fire; an address inside a banned
    network is found wherever it stands in the arguments.
  \<^item> \<open>Rule_Store\<close> (\<open>store.rs\<close>), \<open>Rule_Lifecycle\<close> (\<open>lifecycle.rs\<close>), \<open>Rule_Gate\<close> (\<open>engine.rs\<close>,
    \<open>mod.rs\<close>): the files with their cache, the operations on rules, and the gate in front of a
    call.  The locale \<open>file_edit\<close> is the contract of an edit of a rule file, interpreted for every
    operation that edits one.  A rule file may be absent, have metadata that cannot be read, have a
    text that cannot be read, or hold a text.
  \<^item> \<open>Rule_Safety\<close>, \<open>Rule_History\<close>, \<open>Rule_Limits\<close>: through the rules surface an agent cannot loosen
    durable rules (a tool of another kind is its effect on the rule files, a parameter, and a file
    tool can loosen them), a created rule binds the next call, the gate closes exactly on a file
    whose metadata is readable, whose stamp is new to the cache and whose text is unusable, every
    stored rule has been shown to fire, a one-call bypass passes one call, and a budget is an exact rolling window.

  \<^bold>\<open>Events and limits.\<close>
  \<^item> \<open>Event_Store\<close>, \<open>Event_Log\<close> (\<open>registry/event_store.rs\<close>): the log of codebase events, its
    numbering from the last window of the file, its retention, and a step relation over records,
    outcome marks and attached contexts on a disk that may stop anywhere; the numbers of the log
    increase in every run in which no step leaves a whole record without its line break.
  \<^item> \<open>Event_Trail\<close>, \<open>Event_Tools\<close> (the same file): the decision trail that a read carries and a
    write takes off again, the history brief, and the event tools.
  \<^item> \<open>Conflict_Groups\<close> (the same file, with the planner): files that collided are grouped into the
    connected components of past conflicts, and the plan keeps their tasks apart.
  \<^item> \<open>Rate_Limit\<close> (\<open>security/rate_limit.rs\<close>): the lock-free limiter at the level of its atomic
    accesses; whatever the interleaving, it admits no more than the burst and the rate allow.
  \<^item> \<open>Circuit_Breaker\<close> (\<open>agent/executor/circuit_breaker.rs\<close>): the breakers of the model providers; a
    breaker opens exactly on a row of failures, keeps calls away until its timeout, and recovers.
  \<^item> \<open>Resource_Locks\<close> (\<open>agent/conflict_resolution.rs\<close>): shared and exclusive locks with an expiry and
    the history of conflicts; an exclusive lock keeps everybody else away until it expires.
  \<^item> \<open>Key_Rotation\<close> (\<open>security/key_rotation.rs\<close>): the versions of the encryption key; exactly the
    promised number of old keys can be looked up.
  \<^item> \<open>Security_Policy\<close> (\<open>security/policy.rs\<close>): the checks of paths, processes, sizes, URLs and
    environment variables, and the report of what was refused.

  \<^bold>\<open>The cache of the site map.\<close>
  \<^item> \<open>Query_Cache\<close> (\<open>src/velocity-ide/src/site_map/query_cache.rs\<close>): the cache of queries, bounded,
    never stale and least recently used, and the batch of pending updates.

  \<open>Json_Value\<close> holds JSON values; \<open>Velocity_Prelude\<close> and \<open>Rust_Std\<close> hold the shared lemmas, the locales \<open>ordered_map\<close>, \<open>lww_fold\<close>
  and \<open>gossip_join\<close>, and the parts of the standard library the code uses (strings, paths,
  formatting).

  \<^bold>\<open>Termination.\<close>  Every loop is total but three.  \<open>exec_steps\<close> and its companions recurse on the
  nesting of steps; playbook handoffs end by \<open>MAX_SOP_CHAIN_DEPTH\<close>, the bound of the code;
  \<open>plan_loop\<close> by the tasks left, \<open>dfs\<close> and \<open>walk\<close> by the tasks not yet visited and the
  dependencies left on the stack, \<open>break_loop\<close> by the budget of the code, which is shown to be
  enough.  \<open>propagate_loop\<close> may run forever on a cyclic graph; it is a partial function, shown to
  return on every graph that passes the cycle check, hence in every poll of the panel.
  \<open>rebalance_loop\<close> is a partial function as well, and returns for any arithmetic of \<open>f64\<close>;
  \<open>evict_loop\<close> ends whenever the cache has room for an entry, and never without any.

  \<^bold>\<open>Parameters.\<close>  The serializer, the disk, the clock, the file system questions of the write gate,
  the registered tools and connectors, the outcome of writes to the rule files and of every access to the event log, the interleaving of
  the callers of the limiter, what a poll of the panel reads of the worker threads and of the site map (\<open>poll_env\<close>), the headless agent, the operations of \<open>f64\<close> in the balancer, the debug form of strings in the
  policy, the environment with the secrets and
  \<open>cargo check\<close> are arguments of the definitions; hypotheses about them name documented behaviour
  (a deserializer reads back what the serializer wrote) and have witnesses.

  \<^bold>\<open>Not modelled.\<close>  The agent loop, model inference, the browser, the editor's rendering, transport
  and cryptography, which are input and output, foreign code or numeric kernels; the KV cache,
  program nodes and string dictionary of the site map; the rendering of reports; the
  registry of stored workflows, the validation of triples, and the lexer of the NDA compiler, which
  are pure code that this development leaves out.
\<close>

end
